(* ===== verification/Prelude.thy ===== *)
theory Prelude
  imports Main "HOL-Library.Word" "HOL-Library.Signed_Division" "HOL-Library.Sublist"
begin

text \<open>
  Shared vocabulary of the development: the C integer types, the result type that carries
  every way a routine of the firmware can fail to return normally, and three interfaces
  (locales) for components that consume a list of inputs one at a time.

  The firmware runs on a 32-bit RISC-V core. \<open>uint8_t\<close>, \<open>uint16_t\<close>, \<open>uint32_t\<close> and
  \<open>uint64_t\<close> are words of that width. \<open>int16_t\<close> struct fields are integers: C evaluates
  them as \<open>int\<close>, and the wrap happens where the value is stored, written out with
  \<open>to_s16\<close> and \<open>to_u16\<close>.
\<close>

unbundle bit_operations_syntax

named_theorems cint \<open>facts about the C integer conversions\<close>
named_theorems res_simps \<open>rewriting of computations that may fail\<close>

section \<open>C integers\<close>

type_synonym u8 = "8 word"
type_synonym u16 = "16 word"
type_synonym u32 = "32 word"
type_synonym u64 = "64 word"

definition to_s16 :: "int \<Rightarrow> int" where
  "to_s16 x = (x + 32768) mod 65536 - 32768"

definition to_u16 :: "int \<Rightarrow> int" where
  "to_u16 x = x mod 65536"

lemma to_s16_id [cint]: "-32768 \<le> x \<Longrightarrow> x < 32768 \<Longrightarrow> to_s16 x = x"
  by (simp add: to_s16_def)

lemma to_s16_range [cint]: "-32768 \<le> to_s16 x" "to_s16 x < 32768"
  by (simp_all add: to_s16_def)

lemma to_u16_id [cint]: "0 \<le> x \<Longrightarrow> x < 65536 \<Longrightarrow> to_u16 x = x"
  by (simp add: to_u16_def)

lemma to_s16_numerals [simp]:
  "to_s16 0 = 0" "to_s16 1 = 1" "to_s16 (- 1) = - 1"
  by (simp_all add: to_s16_def)

lemma uint_u16_bounds [cint]: "0 \<le> uint (x :: u16)" "uint (x :: u16) < 65536"
  using uint_lt2p [of x] by simp_all

lemma sdiv_nonneg [cint]: "0 \<le> a \<Longrightarrow> 0 < b \<Longrightarrow> (a :: int) sdiv b = a div b"
  by (cases "a = 0") (simp_all add: signed_divide_int_def)

lemma smod_nonneg [cint]: "0 \<le> a \<Longrightarrow> 0 < b \<Longrightarrow> (a :: int) smod b = a mod b"
  by (cases "a = 0") (simp_all add: signed_modulo_int_def)

lemma uint_u8_u16: "uint (ucast (c :: u8) :: u16) = uint c"
  by (simp add: uint_up_ucast is_up)

lemma u8_u16_eq: "(ucast (c :: u8) :: u16) = ucast d \<longleftrightarrow> c = d"
  using uint_u8_u16 [of c] uint_u8_u16 [of d] by (metis word_uint_eq_iff)

lemma unat_of_nat_u32 [cint]: "n < 2 ^ 32 \<Longrightarrow> unat (of_nat n :: u32) = n"
  by (simp add: unsigned_of_nat take_bit_nat_eq_self)

lemma unat_drop_bit: "unat (drop_bit k (a :: u32)) = unat a div 2 ^ k"
  unfolding unsigned_drop_bit_eq unsigned_take_bit_eq [symmetric]
  by (simp only: drop_bit_eq_div take_bit_word_eq_self order_refl)

lemma ucast_back [simp]: "(ucast (ucast (x :: u8) :: u32) :: u8) = x"
  by (rule bit_word_eqI) (simp add: bit_simps)

lemma unat_add_small: "unat (a :: u32) + unat b < 2 ^ 32 \<Longrightarrow> unat (a + b) = unat a + unat b"
  by (simp add: unat_word_ariths)

text \<open>String literals as bytes; a C string is the list of its bytes before the terminating zero.\<close>

type_synonym cstr = "u8 list"

definition bytes :: "string \<Rightarrow> u8 list" where
  "bytes cs = map of_char cs"

section \<open>Results\<close>

text \<open>
  \<open>Hang\<close> is a loop that never ends (the code's own \<open>for( ; ; );\<close> or a loop that makes no
  progress), \<open>OutOfBounds\<close> an access outside an array of the program, \<open>Uninit\<close> a use of a
  local that no branch has assigned, \<open>NullPtr\<close> a dereference of a null pointer, \<open>Overlap\<close> a \<open>memcpy\<close> between
  overlapping regions, which C leaves undefined.
\<close>

datatype fault = Hang | OutOfBounds | Uninit | NullPtr | Overlap

type_synonym 'a res = "fault + 'a"

fun rbind :: "'e + 'a \<Rightarrow> ('a \<Rightarrow> 'e + 'b) \<Rightarrow> 'e + 'b" where
  "rbind (Inl e) f = Inl e"
| "rbind (Inr x) f = f x"

lemma rbind_Inr_iff [res_simps]:
  "rbind r f = Inr y \<longleftrightarrow> (\<exists>x. r = Inr x \<and> f x = Inr y)"
  by (cases r) auto

lemma rbind_assoc [res_simps]: "rbind (rbind r f) g = rbind r (\<lambda>x. rbind (f x) g)"
  by (cases r) auto

lemma rbind_ret [simp]: "rbind r Inr = r"
  by (cases r) auto

lemma rbind_cong [fundef_cong]:
  "r = r' \<Longrightarrow> (\<And>x. r' = Inr x \<Longrightarrow> f x = g x) \<Longrightarrow> rbind r f = rbind r' g"
  by (cases r') auto

text \<open>A loop with no termination argument of its own returns \<open>None\<close> when it does not end.\<close>

definition of_loop :: "'a option \<Rightarrow> 'a res" where
  "of_loop r = (case r of None \<Rightarrow> Inl Hang | Some x \<Rightarrow> Inr x)"

lemma of_loop_simps [simp]: "of_loop None = Inl Hang" "of_loop (Some x) = Inr x"
  by (simp_all add: of_loop_def)

section \<open>Machines that consume a list of inputs\<close>

fun run_list :: "('b \<Rightarrow> 's \<Rightarrow> 's res) \<Rightarrow> 'b list \<Rightarrow> 's \<Rightarrow> 's res" where
  "run_list step [] s = Inr s"
| "run_list step (b # bs) s = rbind (step b s) (run_list step bs)"

lemma run_list_Nil [simp]: "run_list step [] = Inr"
  by (rule ext) simp

lemma run_list_append:
  "run_list step (xs @ ys) s = rbind (run_list step xs s) (run_list step ys)"
  by (induction xs arbitrary: s) (auto simp: rbind_assoc intro: rbind_cong)

lemma run_list_single [simp]: "run_list step [b] s = step b s"
  by simp

text \<open>
  \<open>guarded ok step bs s\<close>: every input of \<open>bs\<close> satisfies \<open>ok\<close> in the state it arrives in.
  The guard speaks of inputs only: a step that fails ends the obligation.
\<close>

fun guarded :: "('s \<Rightarrow> 'b \<Rightarrow> bool) \<Rightarrow> ('b \<Rightarrow> 's \<Rightarrow> 's res) \<Rightarrow> 'b list \<Rightarrow> 's \<Rightarrow> bool" where
  "guarded ok step [] s = True"
| "guarded ok step (b # bs) s =
     (ok s b \<and> (case step b s of Inl e \<Rightarrow> True | Inr s' \<Rightarrow> guarded ok step bs s'))"

lemma guarded_all: "(\<And>s b. b \<in> set bs \<Longrightarrow> ok s b) \<Longrightarrow> guarded ok step bs s"
  by (induction bs arbitrary: s) (auto split: sum.splits)

lemma guarded_append:
  "guarded ok step xs s \<Longrightarrow>
   (\<And>s'. run_list step xs s = Inr s' \<Longrightarrow> guarded ok step ys s') \<Longrightarrow>
   guarded ok step (xs @ ys) s"
  by (induction xs arbitrary: s) (auto split: sum.splits)

lemma guarded_appendD:
  "guarded ok step (xs @ ys) s \<Longrightarrow>
   guarded ok step xs s \<and> (\<forall>s'. run_list step xs s = Inr s' \<longrightarrow> guarded ok step ys s')"
  by (induction xs arbitrary: s) (auto split: sum.splits)

text \<open>The contract of a component whose every admissible input succeeds and keeps an invariant.\<close>

locale guarded_machine =
  fixes step :: "'b \<Rightarrow> 's \<Rightarrow> 's res"
    and inv :: "'s \<Rightarrow> bool"
    and ok :: "'s \<Rightarrow> 'b \<Rightarrow> bool"
  assumes step_ok: "inv s \<Longrightarrow> ok s b \<Longrightarrow> \<exists>s'. step b s = Inr s' \<and> inv s'"
begin

lemma run_ok:
  "inv s \<Longrightarrow> guarded ok step bs s \<Longrightarrow> \<exists>s'. run_list step bs s = Inr s' \<and> inv s'"
proof (induction bs arbitrary: s)
  case Nil
  then show ?case by simp
next
  case (Cons b bs)
  from Cons.prems obtain s' where "step b s = Inr s'" "inv s'"
    using step_ok by fastforce
  with Cons show ?case by simp
qed

lemma run_inv: "inv s \<Longrightarrow> guarded ok step bs s \<Longrightarrow> run_list step bs s = Inr s' \<Longrightarrow> inv s'"
  using run_ok by fastforce

end

text \<open>A machine whose steps leave an observation of the state alone.\<close>

locale framed_machine = guarded_machine step inv ok
  for step :: "'b \<Rightarrow> 's \<Rightarrow> 's res" and inv :: "'s \<Rightarrow> bool" and ok :: "'s \<Rightarrow> 'b \<Rightarrow> bool" +
  fixes obs :: "'s \<Rightarrow> 'o"
  assumes step_obs: "inv s \<Longrightarrow> ok s b \<Longrightarrow> step b s = Inr s' \<Longrightarrow> obs s' = obs s"
begin

lemma run_obs:
  "inv s \<Longrightarrow> guarded ok step bs s \<Longrightarrow> run_list step bs s = Inr s' \<Longrightarrow> obs s' = obs s"
proof (induction bs arbitrary: s)
  case Nil
  then show ?case by simp
next
  case (Cons b bs)
  from Cons.prems obtain t where t: "step b s = Inr t" "inv t"
    using step_ok by fastforce
  with Cons.prems have "obs t = obs s" by (auto intro: step_obs)
  with t Cons show ?case by simp
qed

end

text \<open>A machine that implements an abstract step function through an abstraction.\<close>

locale refined_machine = guarded_machine step inv ok
  for step :: "'b \<Rightarrow> 's \<Rightarrow> 's res" and inv :: "'s \<Rightarrow> bool" and ok :: "'s \<Rightarrow> 'b \<Rightarrow> bool" +
  fixes abs :: "'s \<Rightarrow> 'a"
    and spec :: "'b \<Rightarrow> 'a \<Rightarrow> 'a"
  assumes step_refines: "inv s \<Longrightarrow> ok s b \<Longrightarrow> step b s = Inr s' \<Longrightarrow> abs s' = spec b (abs s)"
begin

lemma run_refines:
  "inv s \<Longrightarrow> guarded ok step bs s \<Longrightarrow>
   \<exists>s'. run_list step bs s = Inr s' \<and> inv s' \<and> abs s' = fold spec bs (abs s)"
proof (induction bs arbitrary: s)
  case Nil
  then show ?case by simp
next
  case (Cons b bs)
  from Cons.prems obtain t where t: "step b s = Inr t" "inv t"
    using step_ok by fastforce
  with Cons.prems have a: "abs t = spec b (abs s)" by (auto intro: step_refines)
  from t Cons.prems have "guarded ok step bs t" by simp
  from Cons.IH [OF t(2) this] t a show ?case by simp
qed

end

end
