(* ===== verification/Vt100_State.thy ===== *)
theory Vt100_State
  imports Prelude
begin

text \<open>
  The data of \<open>fw/pano_term/vt100.c\<close>: the \<open>vt100_t\<close> structure, the two terminals built on
  it (\<open>term\<close>, the 160x64 screen, and \<open>status\<close>, the one-line status bar), the memory-mapped
  screen they share, and the reset routines.

  Video memory is the array of 64-bit cells at \<open>0x98000000\<close>, indexed by cell: \<open>status.VRam\<close>
  is cell 0 and \<open>term.VRam\<close> (\<open>0x98000500\<close>) is cell 160. It is a total map on the integers,
  as the bus is: an access outside the two screens is an access to another address and
  is visible as such.
\<close>

type_synonym vmem = "int \<Rightarrow> u64"

text \<open>The \<open>STATE\<close> handlers that \<open>state\<close> and \<open>ret_state\<close> point to.\<close>

datatype vstate =
    St_idle | St_escape | St_esc_sq_bracket | St_esc_question | St_esc_hash
  | St_esc_left_br | St_esc_right_br | St_command_arg

record vt100_t =
  cursor_wrap :: bool
  scroll_mode :: bool
  origin_mode :: bool
  cursor_char :: u8
  screen_w :: int
  screen_h :: int
  screen_skew :: int
  cursor_x :: int
  cursor_y :: int
  saved_cursor_x :: int
  saved_cursor_y :: int
  scroll_start_row :: int
  scroll_end_row :: int
  back_color :: u32
  front_color :: u32
  narg :: nat
  args :: "u16 list"
  state :: vstate
  ret_state :: "vstate option"
  VRam :: int
  CharUnderCursor :: u64

definition VT100_WIDTH :: int where "VT100_WIDTH = 160"
definition VT100_HEIGHT :: int where "VT100_HEIGHT = 64"
definition SCREEN_X :: int where "SCREEN_X = 160"
definition CURSOR_CHAR :: u8 where "CURSOR_CHAR = 0x5F"
definition MAX_COMMAND_ARGS :: nat where "MAX_COMMAND_ARGS = 16"
definition STREAM_SIZE :: nat where "STREAM_SIZE = 2048"

lemmas vt_consts =
  VT100_WIDTH_def VT100_HEIGHT_def SCREEN_X_def CURSOR_CHAR_def MAX_COMMAND_ARGS_def STREAM_SIZE_def

text \<open>
  The file-level state: which terminal a handler runs on is the pointer \<open>t\<close> it is passed,
  here \<open>Term\<close> or \<open>Status\<close>. A few routines reach both terminals whatever \<open>t\<close> is.
\<close>

datatype which = Term | Status

record console =
  vram :: vmem
  tm :: "which \<Rightarrow> vt100_t"
  vt100_stream_buffer :: "u8 list"
  vt100_stream_ptr :: nat
  status_stream_buffer :: "u8 list"
  status_stream_ptr :: nat

definition upd_tm :: "which \<Rightarrow> (vt100_t \<Rightarrow> vt100_t) \<Rightarrow> console \<Rightarrow> console" where
  "upd_tm w f s = s\<lparr>tm := (tm s)(w := f (tm s w))\<rparr>"

text \<open>A routine on one terminal and the video memory, run on the terminal \<open>w\<close>.\<close>

definition on_tm ::
  "which \<Rightarrow> (vt100_t \<Rightarrow> vmem \<Rightarrow> (vt100_t \<times> vmem) res) \<Rightarrow> console \<Rightarrow> console res" where
  "on_tm w f s = (case f (tm s w) (vram s) of
      Inl e \<Rightarrow> Inl e
    | Inr (t, m) \<Rightarrow> Inr (s\<lparr>tm := (tm s)(w := t), vram := m\<rparr>))"

lemma upd_tm_sel [simp]:
  "tm (upd_tm w f s) w' = (if w' = w then f (tm s w) else tm s w')"
  "vram (upd_tm w f s) = vram s"
  "vt100_stream_buffer (upd_tm w f s) = vt100_stream_buffer s"
  "vt100_stream_ptr (upd_tm w f s) = vt100_stream_ptr s"
  "status_stream_buffer (upd_tm w f s) = status_stream_buffer s"
  "status_stream_ptr (upd_tm w f s) = status_stream_ptr s"
  by (simp_all add: upd_tm_def)

lemma on_tm_Inr_iff [res_simps]:
  "on_tm w f s = Inr s' \<longleftrightarrow>
   (\<exists>t m. f (tm s w) (vram s) = Inr (t, m) \<and> s' = s\<lparr>tm := (tm s)(w := t), vram := m\<rparr>)"
  by (auto simp: on_tm_def split: sum.splits)

lemma on_tm_Inr [simp]:
  "f (tm s w) (vram s) = Inr (t, m) \<Longrightarrow>
   on_tm w f s = Inr (s\<lparr>tm := (tm s)(w := t), vram := m\<rparr>)"
  by (simp add: on_tm_def)

lemma on_tm_Inl [simp]: "f (tm s w) (vram s) = Inl e \<Longrightarrow> on_tm w f s = Inl e"
  by (simp add: on_tm_def)

section \<open>Reset\<close>

definition reset_term :: "vt100_t \<Rightarrow> vt100_t" where
  "reset_term t = t\<lparr>
     back_color := 0x000000, front_color := 0x777777,
     screen_w := VT100_WIDTH, screen_h := VT100_HEIGHT, screen_skew := SCREEN_X,
     cursor_char := CURSOR_CHAR,
     cursor_x := 0, cursor_y := 0, saved_cursor_x := 0, saved_cursor_y := 0,
     narg := 0, state := St_idle, ret_state := None,
     scroll_start_row := 0, scroll_end_row := VT100_HEIGHT,
     cursor_wrap := False, origin_mode := False,
     VRam := 160\<rparr>"

definition reset_status :: "vt100_t \<Rightarrow> vt100_t" where
  "reset_status t = t\<lparr>
     back_color := 0x000000, front_color := 0x777777,
     screen_w := VT100_WIDTH, screen_h := 1, screen_skew := SCREEN_X,
     cursor_char := 0,
     cursor_x := 0, cursor_y := 0, saved_cursor_x := 0, saved_cursor_y := 0,
     narg := 0, state := St_idle, ret_state := None,
     scroll_start_row := 0, scroll_end_row := 1,
     cursor_wrap := False, origin_mode := False,
     VRam := 0\<rparr>"

definition vt100_reset :: "console \<Rightarrow> console" where
  "vt100_reset s = upd_tm Status reset_status (upd_tm Term reset_term s)"

definition vt100_resetScroll :: "console \<Rightarrow> console" where
  "vt100_resetScroll s =
     upd_tm Status (\<lambda>t. t\<lparr>scroll_start_row := 0, scroll_end_row := 1\<rparr>)
       (upd_tm Term (\<lambda>t. t\<lparr>scroll_start_row := 0, scroll_end_row := VT100_HEIGHT\<rparr>) s)"

section \<open>Loops over video memory\<close>

text \<open>
  The two nested loops by which \<open>_vt100_clearLines\<close> and \<open>_vt100_clearLine\<close> store blanks. The
  outer loop makes progress only when \<open>screen_skew\<close> is positive.
\<close>

function clear_inner :: "int \<Rightarrow> int \<Rightarrow> int \<Rightarrow> int \<Rightarrow> vmem \<Rightarrow> int \<times> int \<times> vmem" where
  "clear_inner i skew len p m =
     (if i < skew \<and> len > 0 then clear_inner (i + 1) skew (len - 1) (p + 1) (m(p := 0x20))
      else (len, p, m))"
  by pat_completeness auto
termination
  by (relation "measure (\<lambda>(i, skew, len, p, m). nat len)") auto

declare clear_inner.simps [simp del]

partial_function (option) clear_outer :: "int \<Rightarrow> int \<Rightarrow> int \<Rightarrow> vmem \<Rightarrow> (int \<times> vmem) option" where
  "clear_outer skew len p m =
     (if len > 0
      then (case clear_inner 0 skew len p m of (len', p', m') \<Rightarrow> clear_outer skew len' p' m')
      else Some (p, m))"

text \<open>The copy loop of \<open>_vt100_scroll\<close>: \<open>while(i-- > 0) *pTo++ = *pFrom++;\<close>\<close>

function copy_loop :: "int \<Rightarrow> int \<Rightarrow> int \<Rightarrow> vmem \<Rightarrow> int \<times> vmem" where
  "copy_loop i pTo pFrom m =
     (if i > 0 then copy_loop (i - 1) (pTo + 1) (pFrom + 1) (m(pTo := m pFrom)) else (pTo, m))"
  by pat_completeness auto
termination
  by (relation "measure (\<lambda>(i, pTo, pFrom, m). nat i)") auto

declare copy_loop.simps [simp del]

text \<open>\<open>memset64\<close>; its count is unsigned.\<close>

fun memset64 :: "int \<Rightarrow> u64 \<Rightarrow> nat \<Rightarrow> vmem \<Rightarrow> vmem" where
  "memset64 p v 0 m = m"
| "memset64 p v (Suc n) m = memset64 (p + 1) v n (m(p := v))"

subsection \<open>What the loops compute\<close>

definition fill :: "int \<Rightarrow> int \<Rightarrow> u64 \<Rightarrow> vmem \<Rightarrow> vmem" where
  "fill p len v m = (\<lambda>i. if p \<le> i \<and> i < p + len then v else m i)"

lemma fill_nonpos [simp]: "len \<le> 0 \<Longrightarrow> fill p len v m = m"
  by (auto simp: fill_def fun_eq_iff)

lemma fill_step: "0 < len \<Longrightarrow> fill (p + 1) (len - 1) v (m(p := v)) = fill p len v m"
  by (auto simp: fill_def fun_eq_iff)

lemma fill_fill: "0 \<le> k \<Longrightarrow> k \<le> len \<Longrightarrow> fill (p + k) (len - k) v (fill p k v m) = fill p len v m"
  by (auto simp: fill_def fun_eq_iff)

lemma clear_inner_eq:
  "clear_inner i skew len p m =
     (let k = max 0 (min (skew - i) len) in (len - k, p + k, fill p k 0x20 m))"
proof (induction i skew len p m rule: clear_inner.induct)
  case (1 i skew len p m)
  show ?case
  proof (cases "i < skew \<and> len > 0")
    case True
    let ?k = "min (skew - i) len"
    have k: "max 0 (min (skew - (i + 1)) (len - 1)) = ?k - 1" and "max 0 ?k = ?k"
      using True by auto
    moreover have "fill (p + 1) (?k - 1) 0x20 (m(p := 0x20)) = fill p ?k 0x20 m"
      using True by (intro fill_step) auto
    ultimately show ?thesis
      using True "1.IH" by (subst clear_inner.simps) (simp add: Let_def del: fun_upd_apply)
  next
    case False
    then show ?thesis by (subst clear_inner.simps) (auto simp: Let_def)
  qed
qed

lemma clear_outer_eq:
  "0 < skew \<Longrightarrow> clear_outer skew len p m = Some (p + max 0 len, fill p len 0x20 m)"
proof (induction "nat len" arbitrary: len p m rule: less_induct)
  case less
  show ?case
  proof (cases "len > 0")
    case True
    let ?k = "min skew len"
    have k: "0 < ?k" "?k \<le> len" "max 0 ?k = ?k" using less.prems True by auto
    have "clear_outer skew (len - ?k) (p + ?k) (fill p ?k 0x20 m) =
        Some (p + ?k + max 0 (len - ?k), fill (p + ?k) (len - ?k) 0x20 (fill p ?k 0x20 m))"
      using k less.prems by (intro less.hyps) auto
    then show ?thesis
      using k True fill_fill [where k = ?k and len = len and p = p and v = "0x20" and m = m]
      by (subst clear_outer.simps) (simp add: clear_inner_eq Let_def)
  next
    case False
    then show ?thesis by (subst clear_outer.simps) simp
  qed
qed

lemma copy_loop_eq:
  "pTo \<le> pFrom \<Longrightarrow> copy_loop n pTo pFrom m =
     (pTo + max 0 n, (\<lambda>i. if pTo \<le> i \<and> i < pTo + n then m (i + (pFrom - pTo)) else m i))"
proof (induction n pTo pFrom m rule: copy_loop.induct)
  case (1 n pTo pFrom m)
  show ?case
  proof (cases "n > 0")
    case True
    have shift: "pFrom + 1 - (pTo + 1) = pFrom - pTo" by simp
    have c: "copy_loop (n - 1) (pTo + 1) (pFrom + 1) (m(pTo := m pFrom)) =
        (pTo + n, (\<lambda>i. if pTo + 1 \<le> i \<and> i < pTo + n then (m(pTo := m pFrom)) (i + (pFrom - pTo))
          else (m(pTo := m pFrom)) i))"
      using True 1 unfolding shift by (simp del: fun_upd_apply)
    have f: "(\<lambda>i. if pTo + 1 \<le> i \<and> i < pTo + n then (m(pTo := m pFrom)) (i + (pFrom - pTo))
          else (m(pTo := m pFrom)) i) =
        (\<lambda>i. if pTo \<le> i \<and> i < pTo + n then m (i + (pFrom - pTo)) else m i)"
      using True "1.prems" by (auto simp: fun_eq_iff)
    show ?thesis
      using True by (subst copy_loop.simps) (simp only: c f, simp)
  next
    case False
    then show ?thesis by (subst copy_loop.simps) (auto simp: fun_eq_iff)
  qed
qed

lemma copy_loop_shift:
  "0 \<le> d \<Longrightarrow> copy_loop n pTo (pTo + d) m =
     (pTo + max 0 n, (\<lambda>i. if pTo \<le> i \<and> i < pTo + n then m (i + d) else m i))"
  by (subst copy_loop_eq) (simp_all cong: if_cong)

lemma memset64_eq: "memset64 p v n m = fill p (int n) v m"
proof (induction n arbitrary: p m)
  case 0
  then show ?case by simp
next
  case (Suc n)
  then show ?case using fill_step [of "int (Suc n)" p v m] by (simp del: fun_upd_apply)
qed

end
