(* ===== verification/Vt100_Screen.thy ===== *)
theory Vt100_Screen
  imports Vt100_State
begin

text \<open>
  The drawing routines of \<open>fw/pano_term/vt100.c\<close> on one terminal \<open>t\<close> and the video memory
  \<open>m\<close>: clearing, scrolling, cursor movement, the cursor glyph and \<open>_vt100_putc\<close>. The checks
  that the code makes after a store (\<open>Past end of VRam\<close>, an endless loop) are the fault
  \<open>Hang\<close>; the store itself has then happened, but nobody will see another state.
\<close>

section \<open>The operations\<close>

text \<open>\<open>_vt100_clearLines\<close>: both line numbers are \<open>uint16_t\<close> parameters.\<close>

definition vt100_clearLines ::
  "int \<Rightarrow> int \<Rightarrow> vt100_t \<Rightarrow> vmem \<Rightarrow> (vt100_t \<times> vmem) res" where
  "vt100_clearLines start_line0 end_line0 t m =
     (let start_line = to_u16 start_line0;
          end_line = to_u16 end_line0;
          Len = (end_line - start_line + 1) * screen_skew t;
          Start = start_line * screen_skew t;
          Len' = (if Len - Start > screen_skew t * screen_h t
                  then screen_skew t * screen_h t - Start else Len)
      in rbind (of_loop (clear_outer (screen_skew t) Len' (VRam t + Start) m)) (\<lambda>(p, m').
           if p > VRam t + screen_skew t * screen_h t then Inl Hang else Inr (t, m')))"

text \<open>
  \<open>_vt100_clearLine\<close>. With other arguments than the three it knows, \<open>Start\<close> and \<open>Len\<close> are
  used without having been assigned.
\<close>

definition clearLine_extent :: "vt100_t \<Rightarrow> (int \<times> int) res" where
  "clearLine_extent t =
     (if narg t = 0 \<or> (narg t = 1 \<and> args t ! 0 = 0)
      then Inr (cursor_y t * screen_skew t + cursor_x t, screen_w t - cursor_x t)
      else if narg t = 1 \<and> args t ! 0 = 1
      then Inr (cursor_y t * screen_skew t, cursor_x t)
      else if narg t = 1 \<and> args t ! 0 = 2
      then Inr (cursor_y t * screen_skew t, screen_w t)
      else Inl Uninit)"

definition vt100_clearLine :: "vt100_t \<Rightarrow> vmem \<Rightarrow> (vt100_t \<times> vmem) res" where
  "vt100_clearLine t m =
     rbind (clearLine_extent t) (\<lambda>(Start, Len).
     rbind (of_loop (clear_outer (screen_skew t) Len (VRam t + Start) m)) (\<lambda>(p, m').
       if p > VRam t + screen_skew t * screen_h t then Inl Hang
       else Inr (t\<lparr>state := St_idle\<rparr>, m')))"

text \<open>\<open>_vt100_scroll\<close>: scrolling down (\<open>lines < 0\<close>) is compiled out in the source.\<close>

definition vt100_scroll :: "int \<Rightarrow> vt100_t \<Rightarrow> vmem \<Rightarrow> (vt100_t \<times> vmem) res" where
  "vt100_scroll lines t m =
     (if lines = 0 then Inr (t, m)
      else if lines > 0 then
        (let OffsetTop = screen_skew t * scroll_start_row t;
             Len = screen_skew t * (screen_h t - lines);
             pTo = VRam t + OffsetTop;
             pFrom = pTo + screen_skew t * lines
         in case copy_loop Len pTo pFrom m of (pTo', m') \<Rightarrow>
              if pTo' > VRam t + screen_skew t * screen_h t then Inl Hang
              else vt100_clearLines (scroll_end_row t - (lines - 1) - 1) (scroll_end_row t - 1) t m')
      else Inr (t, m))"

text \<open>
  \<open>_vt100_move\<close>: the horizontal part gives the new column and the rows to move by, the
  vertical part places the cursor inside the scroll region and gives the rows to scroll.
\<close>

definition move_x :: "int \<Rightarrow> int \<Rightarrow> vt100_t \<Rightarrow> int \<times> int" where
  "move_x DeltaX DeltaY t =
     (let new_x = to_s16 (DeltaX + cursor_x t) in
      if new_x \<ge> screen_w t then
        (if cursor_wrap t
         then (to_s16 (new_x smod screen_w t), to_s16 (DeltaY + new_x sdiv screen_w t))
         else (to_s16 (screen_w t - 1), DeltaY))
      else if new_x < 0 then
        (to_s16 (screen_w t - ((if new_x < 0 then - new_x else new_x) smod screen_w t) + 1),
         to_s16 (DeltaY + (new_x sdiv screen_w t - 1)))
      else (new_x, DeltaY))"

definition move_y :: "int \<Rightarrow> vt100_t \<Rightarrow> int \<times> int" where
  "move_y DeltaY t =
     (let new_y = to_s16 (cursor_y t + DeltaY) in
      if new_y \<ge> scroll_end_row t
      then (to_s16 (scroll_end_row t - 1), to_s16 (new_y - scroll_end_row t + 1))
      else if new_y < scroll_start_row t
      then (scroll_start_row t, to_s16 (new_y - scroll_start_row t))
      else (new_y, 0))"

definition vt100_move :: "int \<Rightarrow> int \<Rightarrow> vt100_t \<Rightarrow> vmem \<Rightarrow> (vt100_t \<times> vmem) res" where
  "vt100_move DeltaX0 DeltaY0 t m =
     (case move_x (to_s16 DeltaX0) (to_s16 DeltaY0) t of (x, DeltaY) \<Rightarrow>
        let t1 = t\<lparr>cursor_x := x\<rparr> in
        if DeltaY \<noteq> 0 then
          (case move_y DeltaY t1 of (y, to_scroll) \<Rightarrow>
             vt100_scroll to_scroll (t1\<lparr>cursor_y := y\<rparr>) m)
        else Inr (t1, m))"

text \<open>The offset of the cursor's cell, and the word that shows a character in the current colors.\<close>

definition cur_off :: "vt100_t \<Rightarrow> int" where
  "cur_off t = cursor_y t * screen_skew t + cursor_x t"

definition vram_end :: "vt100_t \<Rightarrow> int" where
  "vram_end t = VRam t + screen_skew t * screen_h t"

definition mk_cell :: "vt100_t \<Rightarrow> u8 \<Rightarrow> u64" where
  "mk_cell t ch =
     push_bit 40 (ucast (back_color t)) OR push_bit 8 (ucast (front_color t)) OR ucast ch"

definition vt100_removeCursor :: "vt100_t \<Rightarrow> vmem \<Rightarrow> (vt100_t \<times> vmem) res" where
  "vt100_removeCursor t m =
     (let Char = CharUnderCursor t in
      if Char \<noteq> 0 then
        (let p = VRam t + cur_off t; m' = m(p := Char); t' = t\<lparr>CharUnderCursor := 0\<rparr> in
         if p \<ge> vram_end t then Inl Hang else Inr (t', m'))
      else Inr (t, m))"

definition vt100_drawCursor :: "vt100_t \<Rightarrow> vmem \<Rightarrow> (vt100_t \<times> vmem) res" where
  "vt100_drawCursor t m =
     (let p = VRam t + cur_off t; t' = t\<lparr>CharUnderCursor := m p\<rparr> in
      if cursor_char t \<noteq> 0 then Inr (t', m(p := mk_cell t (cursor_char t))) else Inr (t', m))"

definition term_putc :: "u8 \<Rightarrow> vt100_t \<Rightarrow> vmem \<Rightarrow> (vt100_t \<times> vmem) res" where
  "term_putc ch t m =
     (let p = VRam t + cur_off t; m' = m(p := mk_cell t ch); t' = t\<lparr>CharUnderCursor := 0\<rparr> in
      if p \<ge> vram_end t then Inl Hang else vt100_move 1 0 t' m')"

fun putc_n :: "nat \<Rightarrow> u8 \<Rightarrow> vt100_t \<Rightarrow> vmem \<Rightarrow> (vt100_t \<times> vmem) res" where
  "putc_n 0 ch t m = Inr (t, m)"
| "putc_n (Suc n) ch t m = rbind (term_putc ch t m) (\<lambda>(t', m'). putc_n n ch t' m')"

section \<open>The screen invariant\<close>

text \<open>
  A cursor position from which the code writes inside the screen of \<open>h\<close> rows. The column may
  be 160 or 161: moving left over the start of a line lands there, one row up.
\<close>

definition pos_ok :: "int \<Rightarrow> int \<Rightarrow> int \<Rightarrow> bool" where
  "pos_ok h x y \<longleftrightarrow> 0 \<le> x \<and> x \<le> 161 \<and> 0 \<le> y \<and> y < h \<and> (y = h - 1 \<longrightarrow> x < 160)"

definition wf_screen :: "int \<Rightarrow> vt100_t \<Rightarrow> bool" where
  "wf_screen h t \<longleftrightarrow> screen_w t = 160 \<and> screen_skew t = 160 \<and> screen_h t = h \<and>
     scroll_start_row t = 0 \<and> scroll_end_row t = h \<and> 1 \<le> h \<and> h \<le> 64 \<and>
     pos_ok h (cursor_x t) (cursor_y t)"

text \<open>Everything of a terminal but the cursor: what the drawing routines leave alone.\<close>

definition core :: "vt100_t \<Rightarrow> vt100_t" where
  "core t = t\<lparr>cursor_x := 0, cursor_y := 0, CharUnderCursor := 0\<rparr>"

lemma core_upd [simp]:
  "core (t\<lparr>cursor_x := x\<rparr>) = core t" "core (t\<lparr>cursor_y := y\<rparr>) = core t"
  "core (t\<lparr>CharUnderCursor := c\<rparr>) = core t"
  by (simp_all add: core_def)

lemma core_sel:
  assumes "core t' = core t"
  shows "screen_w t' = screen_w t" "screen_h t' = screen_h t" "screen_skew t' = screen_skew t"
    "scroll_start_row t' = scroll_start_row t" "scroll_end_row t' = scroll_end_row t"
    "saved_cursor_x t' = saved_cursor_x t" "saved_cursor_y t' = saved_cursor_y t"
    "cursor_wrap t' = cursor_wrap t" "origin_mode t' = origin_mode t"
    "cursor_char t' = cursor_char t" "back_color t' = back_color t" "front_color t' = front_color t"
    "narg t' = narg t" "args t' = args t" "state t' = state t" "ret_state t' = ret_state t"
    "VRam t' = VRam t"
  using arg_cong [OF assms, of screen_w] arg_cong [OF assms, of screen_h]
    arg_cong [OF assms, of screen_skew] arg_cong [OF assms, of scroll_start_row]
    arg_cong [OF assms, of scroll_end_row] arg_cong [OF assms, of saved_cursor_x]
    arg_cong [OF assms, of saved_cursor_y] arg_cong [OF assms, of cursor_wrap]
    arg_cong [OF assms, of origin_mode] arg_cong [OF assms, of cursor_char]
    arg_cong [OF assms, of back_color] arg_cong [OF assms, of front_color]
    arg_cong [OF assms, of narg] arg_cong [OF assms, of args] arg_cong [OF assms, of state]
    arg_cong [OF assms, of ret_state] arg_cong [OF assms, of VRam]
  by (simp_all add: core_def)

text \<open>Cells outside the \<open>h\<close> rows at \<open>base\<close> keep their contents.\<close>

definition framed :: "int \<Rightarrow> int \<Rightarrow> vmem \<Rightarrow> vmem \<Rightarrow> bool" where
  "framed base h m m' \<longleftrightarrow> (\<forall>i. i < base \<or> base + 160 * h \<le> i \<longrightarrow> m' i = m i)"

lemma framed_refl [simp]: "framed base h m m"
  by (simp add: framed_def)

lemma framed_trans: "framed base h m m' \<Longrightarrow> framed base h m' m'' \<Longrightarrow> framed base h m m''"
  by (simp add: framed_def)

lemma framed_upd: "base \<le> p \<Longrightarrow> p < base + 160 * h \<Longrightarrow> framed base h m (m(p := v))"
  by (auto simp: framed_def)

lemma framed_fill: "base \<le> p \<Longrightarrow> p + n \<le> base + 160 * h \<Longrightarrow> framed base h m (fill p n v m)"
  by (auto simp: framed_def fill_def)

definition screen_ok ::
  "int \<Rightarrow> vt100_t \<Rightarrow> vmem \<Rightarrow> (vt100_t \<times> vmem) res \<Rightarrow> bool" where
  "screen_ok h t m r \<longleftrightarrow>
     (\<exists>t' m'. r = Inr (t', m') \<and> wf_screen h t' \<and> core t' = core t \<and> framed (VRam t) h m m')"

lemma screen_okI:
  "r = Inr (t', m') \<Longrightarrow> wf_screen h t' \<Longrightarrow> core t' = core t \<Longrightarrow> framed (VRam t) h m m' \<Longrightarrow>
   screen_ok h t m r"
  by (auto simp: screen_ok_def)

lemma screen_ok_bind:
  assumes "screen_ok h t m r"
    and "\<And>t' m'. r = Inr (t', m') \<Longrightarrow> wf_screen h t' \<Longrightarrow> core t' = core t \<Longrightarrow> screen_ok h t' m' (g t' m')"
  shows "screen_ok h t m (rbind r (\<lambda>(t', m'). g t' m'))"
proof -
  from assms(1) obtain t1 m1 where 1: "r = Inr (t1, m1)" "wf_screen h t1" "core t1 = core t"
      "framed (VRam t) h m m1"
    by (auto simp: screen_ok_def)
  have "screen_ok h t1 m1 (g t1 m1)" by (rule assms(2) [OF 1(1-3)])
  then obtain t2 m2 where 2: "g t1 m1 = Inr (t2, m2)" "wf_screen h t2" "core t2 = core t1"
      "framed (VRam t1) h m1 m2"
    by (auto simp: screen_ok_def)
  have "VRam t1 = VRam t" using 1(3) by (rule core_sel)
  with 1 2 have "framed (VRam t) h m m2" by (auto intro: framed_trans)
  with 1 2 show ?thesis by (simp add: screen_okI)
qed

lemma pos_ok_offset:
  "pos_ok h x y \<Longrightarrow> 0 \<le> y * 160 + x" "pos_ok h x y \<Longrightarrow> y * 160 + x < 160 * h"
  unfolding pos_ok_def by linarith+

lemma cur_off_bounds:
  assumes "wf_screen h t"
  shows "0 \<le> cur_off t" "cur_off t < 160 * h" "vram_end t = VRam t + 160 * h"
  using assms pos_ok_offset [of h "cursor_x t" "cursor_y t"]
  by (auto simp: wf_screen_def cur_off_def vram_end_def)

lemma wf_screen_pos: "wf_screen h t \<Longrightarrow> pos_ok h x y \<Longrightarrow> wf_screen h (t\<lparr>cursor_x := x, cursor_y := y\<rparr>)"
  by (simp add: wf_screen_def)

lemma wf_screen_upd [simp]:
  "wf_screen h (t\<lparr>CharUnderCursor := c\<rparr>) = wf_screen h t"
  "wf_screen h (t\<lparr>state := st\<rparr>) = wf_screen h t"
  by (simp_all add: wf_screen_def)

section \<open>Scrolling and moving inside the invariant\<close>

definition scroll_up_mem :: "int \<Rightarrow> int \<Rightarrow> vmem \<Rightarrow> vmem" where
  "scroll_up_mem h base m = (\<lambda>i.
     if base \<le> i \<and> i < base + 160 * (h - 1) then m (i + 160)
     else if base + 160 * (h - 1) \<le> i \<and> i < base + 160 * h then 0x20
     else m i)"

lemma framed_scroll: "1 \<le> h \<Longrightarrow> framed base h m (scroll_up_mem h base m)"
  by (auto simp: framed_def scroll_up_mem_def)

lemma clearLines_rows:
  assumes "screen_skew t = 160" "screen_h t = h" "0 \<le> a" "0 \<le> b" "a \<le> b + 1" "b < h" "h \<le> 64"
  shows "vt100_clearLines a b t m = Inr (t, fill (VRam t + 160 * a) (160 * (b - a + 1)) 0x20 m)"
proof -
  have "to_u16 a = a" "to_u16 b = b" using assms by (simp_all add: to_u16_id)
  moreover have "b + 1 \<le> h" using assms by simp
  then have "\<not> (b - a + 1) * 160 - a * 160 > 160 * h" using assms(3) by (simp add: algebra_simps)
  ultimately show ?thesis
    using assms by (simp add: vt100_clearLines_def Let_def clear_outer_eq algebra_simps max_def)
qed

lemma scroll_one:
  assumes "wf_screen h t"
  shows "vt100_scroll 1 t m = Inr (t, scroll_up_mem h (VRam t) m)"
proof -
  have g: "screen_skew t = 160" "screen_h t = h" "scroll_start_row t = 0" "scroll_end_row t = h"
    "1 \<le> h" "h \<le> 64" using assms by (simp_all add: wf_screen_def)
  have "fill (VRam t + 160 * (h - 1)) 160 0x20
      (\<lambda>i. if VRam t \<le> i \<and> i < VRam t + 160 * (h - 1) then m (i + 160) else m i) =
    scroll_up_mem h (VRam t) m"
    using g by (auto simp: fill_def scroll_up_mem_def fun_eq_iff)
  then show ?thesis
    using g clearLines_rows [of t h "h - 1" "h - 1"]
    by (simp add: vt100_scroll_def Let_def copy_loop_shift)
qed

lemma div_mod_160:
  "160 \<le> (n :: int) \<Longrightarrow> n < 320 \<Longrightarrow> n div 160 = 1" "160 \<le> n \<Longrightarrow> n < 320 \<Longrightarrow> n mod 160 = n - 160"
  by presburger+

lemma u16_le_2: "(x :: u16) \<le> 2 \<Longrightarrow> x = 0 \<or> x = 1 \<or> x = 2"
  by unat_arith

text \<open>
  The horizontal part of a move by at most one column to the right (or any number to the left)
  and at most one row: the column stays within 0 to 161, and beyond 159 only with a row upwards.
\<close>

lemma move_x_right:
  assumes "wf_screen h t" "0 \<le> dx + cursor_x t" "dx \<le> 1" "-1 \<le> dy" "dy \<le> 1"
  shows "move_x dx dy t =
    (if dx + cursor_x t < 160 then (dx + cursor_x t, dy)
     else if cursor_wrap t then (dx + cursor_x t - 160, dy + 1) else (159, dy))"
proof -
  have b: "dx + cursor_x t \<le> 162" "screen_w t = 160"
    using assms by (auto simp: wf_screen_def pos_ok_def)
  have n: "to_s16 (dx + cursor_x t) = dx + cursor_x t" "to_s16 (dy + 1) = dy + 1"
    "to_s16 (dx + cursor_x t - 160) = dx + cursor_x t - 160" "to_s16 159 = 159"
    using b assms by (simp_all add: to_s16_id)
  have d: "(dx + cursor_x t) div 160 = 1" "(dx + cursor_x t) mod 160 = dx + cursor_x t - 160"
    if "160 \<le> dx + cursor_x t"
    using that b div_mod_160 [of "dx + cursor_x t"] by simp_all
  show ?thesis
    using n b assms d by (simp add: move_x_def Let_def sdiv_nonneg smod_nonneg)
qed

lemma move_x_left:
  assumes "wf_screen h t" "dx + cursor_x t < 0" "-32767 \<le> dx" "-1 \<le> dy" "dy \<le> 0"
  obtains x' d' where "move_x dx dy t = (x', d')" "2 \<le> x'" "x' \<le> 161" "- 300 \<le> d'" "d' < 0"
proof -
  define n where "n = dx + cursor_x t"
  have w: "screen_w t = 160" "0 \<le> cursor_x t"
    using assms by (auto simp: wf_screen_def pos_ok_def)
  have n: "n < 0" "-32767 \<le> n" using assms w by (simp_all add: n_def)
  have s: "n sdiv 160 = - ((- n) div 160)" "(- n) smod 160 = (- n) mod 160"
    using n smod_nonneg [of "- n" 160] by (simp_all add: signed_divide_int_def)
  let ?d = "dy + (n sdiv 160 - 1)"
  have q: "0 \<le> (- n) div 160" "(- n) div 160 \<le> 204" using n by auto
  have m: "0 \<le> (- n) mod 160" "(- n) mod 160 < 160" by simp_all
  have "move_x dx dy t = (160 - (- n) mod 160 + 1, ?d)"
    using n s w q m assms unfolding move_x_def n_def [symmetric] Let_def
    by (simp add: to_s16_id)
  moreover have "- 300 \<le> ?d" "?d < 0" using q assms unfolding s(1) by linarith+
  moreover have "2 \<le> 160 - (- n) mod 160 + 1" "160 - (- n) mod 160 + 1 \<le> 161"
    using m by linarith+
  ultimately show ?thesis using that by blast
qed

lemma move_y_cases:
  assumes "wf_screen h t" "-300 \<le> d" "cursor_y t + d \<le> h"
  shows "move_y d t =
    (if cursor_y t + d = h then (h - 1, 1)
     else if cursor_y t + d < 0 then (0, cursor_y t + d)
     else (cursor_y t + d, 0))"
proof -
  have g: "scroll_start_row t = 0" "scroll_end_row t = h" "1 \<le> h" "h \<le> 64" "0 \<le> cursor_y t"
    using assms by (auto simp: wf_screen_def pos_ok_def)
  then have "to_s16 (cursor_y t + d) = cursor_y t + d" "to_s16 (h - 1) = h - 1"
    using assms by (simp_all add: to_s16_id)
  with g assms show ?thesis by (auto simp: move_y_def Let_def)
qed

lemma move_y_cursor_x [simp]: "move_y d (t\<lparr>cursor_x := x\<rparr>) = move_y d t"
  by (simp add: move_y_def Let_def cong: if_cong)

definition move_target :: "int \<Rightarrow> vt100_t \<Rightarrow> int \<Rightarrow> int \<Rightarrow> int \<times> int \<times> bool" where
  "move_target h t dx dy =
     (case move_x dx dy t of (x, d) \<Rightarrow>
        (x, max 0 (min (h - 1) (cursor_y t + d)), cursor_y t + d \<ge> h))"

lemma move_eq:
  assumes wf: "wf_screen h t" and b: "-32767 \<le> dx" "dx \<le> 1" "-1 \<le> dy" "dy \<le> 1" "dx + dy \<le> 1"
    and l: "dx + cursor_x t < 0 \<Longrightarrow> dy \<le> 0 \<and> 2 \<le> h"
    and tg: "move_target h t dx dy = (x', y', sc)"
  shows "vt100_move dx dy t m =
      Inr (t\<lparr>cursor_x := x', cursor_y := y'\<rparr>, if sc then scroll_up_mem h (VRam t) m else m)"
    and "pos_ok h x' y'"
proof -
  obtain d where mx: "move_x dx dy t = (x', d)" and y': "y' = max 0 (min (h - 1) (cursor_y t + d))"
    and sc: "sc \<longleftrightarrow> cursor_y t + d \<ge> h"
    using tg by (auto simp: move_target_def split: prod.splits)
  have p: "pos_ok h (cursor_x t) (cursor_y t)" "1 \<le> h" "h \<le> 64"
    using wf by (simp_all add: wf_screen_def)
  have facts: "0 \<le> x' \<and> x' \<le> 161 \<and> -300 \<le> d \<and> cursor_y t + d \<le> h \<and>
      (160 \<le> x' \<longrightarrow> d < 0 \<and> 2 \<le> h)"
  proof (cases "dx + cursor_x t < 0")
    case True
    with l have "dy \<le> 0" "2 \<le> h" by auto
    from move_x_left [OF wf True b(1,3) this(1)] mx
    have "2 \<le> x'" "x' \<le> 161" "-300 \<le> d" "d < 0" by auto
    then show ?thesis using p \<open>2 \<le> h\<close> by (auto simp: pos_ok_def)
  next
    case False
    with move_x_right [OF wf _ b(2-4)] mx p b show ?thesis
      by (auto simp: pos_ok_def split: if_splits)
  qed
  let ?t1 = "t\<lparr>cursor_x := x'\<rparr>"
  have my: "move_y d ?t1 = (if cursor_y t + d = h then (h - 1, 1)
     else if cursor_y t + d < 0 then (0, cursor_y t + d) else (cursor_y t + d, 0))"
    using move_y_cases [OF wf, of d] facts by simp
  show pos: "pos_ok h x' y'"
    using facts p y' by (auto simp: pos_ok_def)
  have dxy: "to_s16 dx = dx" "to_s16 dy = dy" using b by (simp_all add: to_s16_id)
  consider "cursor_y t + d = h" | "cursor_y t + d < 0" | "0 \<le> cursor_y t + d" "cursor_y t + d < h"
    using facts by linarith
  then show "vt100_move dx dy t m =
      Inr (t\<lparr>cursor_x := x', cursor_y := y'\<rparr>, if sc then scroll_up_mem h (VRam t) m else m)"
  proof cases
    case 1
    then have "d \<noteq> 0" using p by (auto simp: pos_ok_def)
    moreover have "wf_screen h (t\<lparr>cursor_x := x', cursor_y := h - 1\<rparr>)"
      using wf pos y' 1 p by (intro wf_screen_pos) auto
    ultimately show ?thesis
      using 1 my y' sc p scroll_one
      by (simp add: vt100_move_def dxy mx Let_def)
  next
    case 2
    then have "d \<noteq> 0" using p by (auto simp: pos_ok_def)
    then show ?thesis
      using 2 my y' sc p by (simp add: vt100_move_def dxy mx Let_def vt100_scroll_def)
  next
    case 3
    then show ?thesis
      using my y' sc p by (auto simp: vt100_move_def dxy mx Let_def vt100_scroll_def pos_ok_def)
  qed
qed

lemma move_ok:
  assumes "wf_screen h t" "-32767 \<le> dx" "dx \<le> 1" "-1 \<le> dy" "dy \<le> 1" "dx + dy \<le> 1"
    "dx + cursor_x t < 0 \<Longrightarrow> dy \<le> 0 \<and> 2 \<le> h"
  shows "screen_ok h t m (vt100_move dx dy t m)"
proof -
  obtain x' y' sc where tg: "move_target h t dx dy = (x', y', sc)" by (metis prod_cases3)
  have h: "1 \<le> h" using assms(1) by (simp add: wf_screen_def)
  show ?thesis
    using move_eq [OF assms tg] assms(1) h
    by (auto intro!: screen_okI wf_screen_pos framed_scroll)
qed

lemma removeCursor_eq:
  assumes "wf_screen h t"
  shows "vt100_removeCursor t m = Inr (t\<lparr>CharUnderCursor := 0\<rparr>,
    if CharUnderCursor t = 0 then m else m(VRam t + cur_off t := CharUnderCursor t))"
  using cur_off_bounds [OF assms] by (simp add: vt100_removeCursor_def Let_def)

lemma removeCursor_ok:
  "wf_screen h t \<Longrightarrow> screen_ok h t m (vt100_removeCursor t m)"
  using cur_off_bounds [of h t]
  by (auto simp: removeCursor_eq intro!: screen_okI framed_upd)

lemma drawCursor_ok:
  "wf_screen h t \<Longrightarrow> screen_ok h t m (vt100_drawCursor t m)"
  using cur_off_bounds [of h t]
  by (auto simp: vt100_drawCursor_def Let_def intro!: screen_okI framed_upd)

lemma term_putc_eq:
  assumes "wf_screen h t"
  shows "term_putc ch t m = vt100_move 1 0 (t\<lparr>CharUnderCursor := 0\<rparr>)
    (m(VRam t + cur_off t := mk_cell t ch))"
  using cur_off_bounds [OF assms] by (simp add: term_putc_def Let_def)

lemma term_putc_ok:
  assumes "wf_screen h t"
  shows "screen_ok h t m (term_putc ch t m)"
proof -
  let ?t = "t\<lparr>CharUnderCursor := 0\<rparr>" and ?m = "m(VRam t + cur_off t := mk_cell t ch)"
  have "screen_ok h ?t ?m (vt100_move 1 0 ?t ?m)"
    using assms by (intro move_ok) (auto simp: wf_screen_def pos_ok_def)
  then show ?thesis
    using cur_off_bounds [OF assms] framed_upd [of "VRam t" "VRam t + cur_off t" h m]
    by (auto simp: screen_ok_def term_putc_eq [OF assms] intro: framed_trans)
qed

lemma putc_n_ok: "wf_screen h t \<Longrightarrow> screen_ok h t m (putc_n n ch t m)"
proof (induction n arbitrary: t m)
  case 0
  then show ?case by (auto intro: screen_okI)
next
  case (Suc n)
  then show ?case by (auto intro!: screen_ok_bind term_putc_ok)
qed

lemma clearLines_ok:
  assumes "wf_screen h t" "0 \<le> a" "0 \<le> b" "a \<le> b + 1" "b < h"
  shows "screen_ok h t m (vt100_clearLines a b t m)"
proof -
  have "screen_skew t = 160" "screen_h t = h" "h \<le> 64" using assms by (simp_all add: wf_screen_def)
  with assms clearLines_rows [of t h a b m] show ?thesis
    by (auto intro!: screen_okI framed_fill)
qed

lemma clearLine_ok:
  assumes "wf_screen h t" "narg t = 0 \<or> (narg t = 1 \<and> args t ! 0 \<le> 2)"
  shows "\<exists>m'. vt100_clearLine t m = Inr (t\<lparr>state := St_idle\<rparr>, m') \<and> framed (VRam t) h m m'"
proof -
  have g: "screen_w t = 160" "screen_skew t = 160" "screen_h t = h"
    "pos_ok h (cursor_x t) (cursor_y t)"
    using assms by (auto simp: wf_screen_def)
  obtain Start Len where e: "clearLine_extent t = Inr (Start, Len)"
      "0 \<le> Start" "Start \<le> 160 * h" "Start + Len \<le> 160 * h"
    using assms g by (auto simp: clearLine_extent_def pos_ok_def dest: u16_le_2)
  then show ?thesis
    using g by (auto simp: vt100_clearLine_def clear_outer_eq max_def intro!: framed_fill)
qed

end
