(* ===== verification/Vt100_Parser.thy ===== *)
theory Vt100_Parser
  imports Vt100_Screen
begin

text \<open>
  The escape-sequence state machine of \<open>fw/pano_term/vt100.c\<close>: one definition per \<open>STATE\<close>
  handler and per final byte of a CSI sequence, the call through the \<open>state\<close> pointer, and the
  two buffered byte streams in front of the terminals. Bytes are written as numerals: 27 is
  \<open>KEY_ESC\<close>, 59 is \<open>';'\<close>.
\<close>

section \<open>Colors\<close>

definition color_8bit :: "u32 list" where
  "color_8bit = [
    0x000000, 0x770000, 0x007700, 0x777700, 0x000077, 0x770077, 0x007777, 0x777777,
    0x333333, 0xff0000, 0x00ff00, 0xffff00, 0x0000ff, 0xff00ff, 0x00ffff, 0xffffff,
    0x000000, 0x000055, 0x000088, 0x0000aa, 0x0000dd, 0x0000ff, 0x005500, 0x005555,
    0x005588, 0x0055aa, 0x0055dd, 0x0055ff, 0x008800, 0x008855, 0x008888, 0x0088aa,
    0x0088dd, 0x0088ff, 0x00aa00, 0x00aa55, 0x00aa88, 0x00aaaa, 0x00aadd, 0x00aaff,
    0x00dd00, 0x00dd55, 0x00dd88, 0x00ddaa, 0x00dddd, 0x00ddff, 0x00ff00, 0x00ff55,
    0x00ff88, 0x00ffaa, 0x00ffdd, 0x00ffff, 0x550000, 0x550055, 0x550088, 0x5500aa,
    0x5500dd, 0x5500ff, 0x555500, 0x555555, 0x555588, 0x5555aa, 0x5555dd, 0x5555ff,
    0x558800, 0x558855, 0x558888, 0x5588aa, 0x5588dd, 0x5588ff, 0x55aa00, 0x55aa55,
    0x55aa88, 0x55aaaa, 0x55aadd, 0x55aaff, 0x55dd00, 0x55dd55, 0x55dd88, 0x55ddaa,
    0x55dddd, 0x55ddff, 0x55ff00, 0x55ff55, 0x55ff88, 0x55ffaa, 0x55ffdd, 0x55ffff,
    0x880000, 0x880055, 0x880088, 0x8800aa, 0x8800dd, 0x8800ff, 0x885500, 0x885555,
    0x885588, 0x8855aa, 0x8855dd, 0x8855ff, 0x888800, 0x888855, 0x888888, 0x8888aa,
    0x8888dd, 0x8888ff, 0x88aa00, 0x88aa55, 0x88aa88, 0x88aaaa, 0x88aadd, 0x88aaff,
    0x88dd00, 0x88dd55, 0x88dd88, 0x88ddaa, 0x88dddd, 0x88ddff, 0x88ff00, 0x88ff55,
    0x88ff88, 0x88ffaa, 0x88ffdd, 0x88ffff, 0xaa0000, 0xaa0055, 0xaa0088, 0xaa00aa,
    0xaa00dd, 0xaa00ff, 0xaa5500, 0xaa5555, 0xaa5588, 0xaa55aa, 0xaa55dd, 0xaa55ff,
    0xaa8800, 0xaa8855, 0xaa8888, 0xaa88aa, 0xaa88dd, 0xaa88ff, 0xaaaa00, 0xaaaa55,
    0xaaaa88, 0xaaaaaa, 0xaaaadd, 0xaaaaff, 0xaadd00, 0xaadd55, 0xaadd88, 0xaaddaa,
    0xaadddd, 0xaaddff, 0xaaff00, 0xaaff55, 0xaaff88, 0xaaffaa, 0xaaffdd, 0xaaffff,
    0xdd0000, 0xdd0055, 0xdd0088, 0xdd00aa, 0xdd00dd, 0xdd00ff, 0xdd5500, 0xdd5555,
    0xdd5588, 0xdd55aa, 0xdd55dd, 0xdd55ff, 0xdd8800, 0xdd8855, 0xdd8888, 0xdd88aa,
    0xdd88dd, 0xdd88ff, 0xddaa00, 0xddaa55, 0xddaa88, 0xddaaaa, 0xddaadd, 0xddaaff,
    0xdddd00, 0xdddd55, 0xdddd88, 0xddddaa, 0xdddddd, 0xddddff, 0xddff00, 0xddff55,
    0xddff88, 0xddffaa, 0xddffdd, 0xddffff, 0xff0000, 0xff0055, 0xff0088, 0xff00aa,
    0xff00dd, 0xff00ff, 0xff5500, 0xff5555, 0xff5588, 0xff55aa, 0xff55dd, 0xff55ff,
    0xff8800, 0xff8855, 0xff8888, 0xff88aa, 0xff88dd, 0xff88ff, 0xffaa00, 0xffaa55,
    0xffaa88, 0xffaaaa, 0xffaadd, 0xffaaff, 0xffdd00, 0xffdd55, 0xffdd88, 0xffddaa,
    0xffdddd, 0xffddff, 0xffff00, 0xffff55, 0xffff88, 0xffffaa, 0xffffdd, 0xffffff,
    0x000000, 0x111111, 0x112211, 0x222222, 0x333333, 0x334433, 0x444444, 0x555555,
    0x556655, 0x666666, 0x777777, 0x778877, 0x888888, 0x999999, 0x99aa99, 0xaaaaaa,
    0xbbbbbb, 0xbbccbb, 0xcccccc, 0xdddddd, 0xddeedd, 0xeeeeee, 0xeeffee, 0xffffff]"

lemma length_color_8bit: "length color_8bit = 256"
  by (simp add: color_8bit_def)

section \<open>The streams in front of the terminals\<close>

text \<open>
  \<open>vsnprintf(buffer + ptr, MaxLen, ...)\<close> with the rendered text \<open>out\<close>: at most \<open>MaxLen - 1\<close>
  bytes and a terminating zero are stored. \<open>MaxLen\<close> is an \<open>int\<close>; past the end of the buffer
  it is negative, and as a \<open>size_t\<close> it no longer limits anything.
\<close>

definition snprintf_at :: "u8 list \<Rightarrow> nat \<Rightarrow> u8 list \<Rightarrow> u8 list res" where
  "snprintf_at buf ptr out =
     (if ptr > length buf then Inl OutOfBounds
      else let MaxLen = length buf - ptr;
               stored = (if MaxLen = 0 then [] else take (MaxLen - 1) out @ [0])
           in Inr (take ptr buf @ stored @ drop (ptr + length stored) buf))"

definition status_printf :: "u8 list \<Rightarrow> console \<Rightarrow> console res" where
  "status_printf out s =
     rbind (snprintf_at (status_stream_buffer s) (status_stream_ptr s) out) (\<lambda>buf.
       Inr (s\<lparr>status_stream_buffer := buf,
              status_stream_ptr := (status_stream_ptr s + length out) mod 65536\<rparr>))"

definition vt100_printf :: "u8 list \<Rightarrow> console \<Rightarrow> console res" where
  "vt100_printf out s =
     rbind (snprintf_at (vt100_stream_buffer s) (vt100_stream_ptr s) out) (\<lambda>buf.
       Inr (s\<lparr>vt100_stream_buffer := buf,
              vt100_stream_ptr := (vt100_stream_ptr s + length out) mod 65536\<rparr>))"

text \<open>The messages of the status line, as rendered.\<close>

definition leds_on :: "u8 list" where
  "leds_on = [0xde, 0xdb, 0xdb, 0xdb, 0xdd, 13]"

definition msg_at :: "string \<Rightarrow> u8 list" where
  "msg_at pos = 27 # bytes pos"

definition msg_on :: "bool \<Rightarrow> u8 list" where
  "msg_on on = 27 # bytes (if on then ''[1m'' else ''[0m'')"

definition msg_leds :: "nat \<Rightarrow> u8 list" where
  "msg_leds n =
     (if n = 0 then msg_at ''[1;120H'' @ 27 # bytes ''[m                    '' @ [13]
      else if n = 1 then msg_at ''[1;120H'' @ 27 # bytes ''[m'' @ leds_on
      else if n = 2 then msg_at ''[1;125H'' @ 27 # bytes ''[m'' @ leds_on
      else if n = 3 then msg_at ''[1;130H'' @ 27 # bytes ''[m'' @ leds_on
      else msg_at ''[1;135H'' @ 27 # bytes ''[m'' @ leds_on)"

definition msg_cursor_keys :: "bool \<Rightarrow> u8 list" where
  "msg_cursor_keys on = msg_at ''[1;140H'' @ msg_on on @
     bytes '' '' @ [0xae] @ bytes (if on then ''A'' else ''C'') @ [0xaf] @ bytes '' '' @ [13]"

definition msg_ansi :: "bool \<Rightarrow> u8 list" where
  "msg_ansi on = msg_at ''[1;114H'' @ msg_on on @
     bytes (if on then '' ANSI '' else '' VT52 '') @ [13]"

definition msg_columns :: "bool \<Rightarrow> u8 list" where
  "msg_columns on = msg_at ''[1;108H'' @ msg_on on @
     bytes (if on then ''  132 '' else ''  80  '') @ [13]"

definition msg_inverse :: "bool \<Rightarrow> u8 list" where
  "msg_inverse on = msg_at ''[1;96H'' @ msg_on on @
     bytes (if on then ''  INV '' else '' NRML '') @ [13]"

definition msg_keypad :: "bool \<Rightarrow> u8 list" where
  "msg_keypad numeric = msg_at ''[1;145H'' @ msg_on numeric @
     bytes (if numeric then '' NUM '' else '' APP '') @ [13]"

section \<open>Command arguments\<close>

definition EV_CHAR :: u8 where "EV_CHAR = 1"

definition isdigit :: "u16 \<Rightarrow> bool" where
  "isdigit x \<longleftrightarrow> x \<ge> 48 \<and> x \<le> 57"

text \<open>
  The digit branch of \<open>_st_command_arg\<close>; \<open>_st_esc_sq_bracket\<close> and \<open>_st_esc_question\<close> call that
  handler with a digit too. \<open>args\<close> has 16 elements and \<open>narg\<close> is not checked.
\<close>

definition command_arg_digit :: "u16 \<Rightarrow> vt100_t \<Rightarrow> vt100_t res" where
  "command_arg_digit arg t =
     (if narg t < MAX_COMMAND_ARGS
      then Inr (t\<lparr>args := (args t)[narg t := args t ! narg t * 10 + (arg - 48)]\<rparr>)
      else Inl OutOfBounds)"

definition upd_res :: "which \<Rightarrow> (vt100_t \<Rightarrow> vt100_t res) \<Rightarrow> console \<Rightarrow> console res" where
  "upd_res w f s = rbind (f (tm s w)) (\<lambda>t. Inr (s\<lparr>tm := (tm s)(w := t)\<rparr>))"

definition goto :: "vstate \<Rightarrow> which \<Rightarrow> console \<Rightarrow> console" where
  "goto st w s = upd_tm w (\<lambda>t. t\<lparr>state := st\<rparr>) s"

text \<open>A digit starts an argument: \<open>ret_state\<close> remembers the handler to come back to.\<close>

definition start_arg :: "vstate \<Rightarrow> u16 \<Rightarrow> which \<Rightarrow> console \<Rightarrow> console res" where
  "start_arg self arg w s =
     rbind (upd_res w (command_arg_digit arg) (upd_tm w (\<lambda>t. t\<lparr>ret_state := Some self\<rparr>) s))
       (\<lambda>s'. Inr (goto St_command_arg w s'))"

definition CLEAR_ARGS :: "vt100_t \<Rightarrow> vt100_t" where
  "CLEAR_ARGS t = t\<lparr>narg := 0, args := replicate MAX_COMMAND_ARGS 0\<rparr>"

section \<open>CSI commands\<close>

definition arg_or_1 :: "vt100_t \<Rightarrow> int" where
  "arg_or_1 t = (if narg t > 0 then uint (args t ! 0) else 1)"

definition csi_A :: "vt100_t \<Rightarrow> vt100_t" where
  "csi_A t = (let y = to_s16 (cursor_y t - arg_or_1 t)
              in t\<lparr>cursor_y := (if y < 0 then 0 else y), state := St_idle\<rparr>)"

definition csi_B :: "vt100_t \<Rightarrow> vt100_t" where
  "csi_B t = (let y = to_s16 (cursor_y t + arg_or_1 t)
              in t\<lparr>cursor_y := (if y > screen_h t then screen_h t else y), state := St_idle\<rparr>)"

definition csi_C :: "vt100_t \<Rightarrow> vt100_t" where
  "csi_C t = (let x = to_s16 (cursor_x t + arg_or_1 t)
              in t\<lparr>cursor_x := (if x > screen_w t then screen_w t else x), state := St_idle\<rparr>)"

definition csi_D :: "vt100_t \<Rightarrow> vt100_t" where
  "csi_D t = (let x = to_s16 (cursor_x t - arg_or_1 t)
              in t\<lparr>cursor_x := (if x < 0 then 0 else x), state := St_idle\<rparr>)"

definition csi_H :: "vt100_t \<Rightarrow> vt100_t" where
  "csi_H t =
     (let x = (if narg t \<ge> 1 then to_s16 (uint (args t ! 1) - 1) else 0);
          y = (if narg t = 2 then to_s16 (uint (args t ! 0) - 1) else 0);
          y1 = (if origin_mode t
                then (let y' = to_s16 (y + scroll_start_row t)
                      in if y' \<ge> scroll_end_row t then to_s16 (scroll_end_row t - 1) else y')
                else y)
      in t\<lparr>cursor_x := (if x > screen_w t then screen_w t else x),
           cursor_y := (if y1 > screen_h t then screen_h t else y1),
           state := St_idle\<rparr>)"

definition csi_J :: "which \<Rightarrow> console \<Rightarrow> console res" where
  "csi_J w s =
     (let t = tm s w in
      rbind
        (if narg t = 0 \<or> (narg t = 1 \<and> args t ! 0 = 0)
         then on_tm w (vt100_clearLines (cursor_y t) (screen_h t - 1)) s
         else if narg t = 1 \<and> args t ! 0 = 1
         then on_tm w (vt100_clearLines 0 (cursor_y t)) s
         else if narg t = 1 \<and> args t ! 0 = 2
         then rbind (on_tm w (vt100_clearLines 0 (screen_h t - 1)) s) (\<lambda>s'. Inr (vt100_resetScroll s'))
         else Inr s)
        (\<lambda>s'. Inr (goto St_idle w s')))"

definition csi_P :: "which \<Rightarrow> console \<Rightarrow> console res" where
  "csi_P w s =
     (let n = arg_or_1 (tm s w) in
      rbind (on_tm w (vt100_move (- n) 0) s) (\<lambda>s1.
      rbind (on_tm w (putc_n (nat n) 32) s1) (\<lambda>s2. Inr (goto St_idle w s2))))"

text \<open>
  Colors. \<open>args_drop k\<close> is the \<open>memcpy\<close> that moves the remaining \<open>narg\<close> arguments to the front;
  it reads \<open>args[k]\<close> to \<open>args[k + narg - 1]\<close> and writes \<open>args[0]\<close> to \<open>args[narg - 1]\<close>, and C defines it
  only when these do not overlap.
\<close>

definition args_drop :: "nat \<Rightarrow> vt100_t \<Rightarrow> vt100_t res" where
  "args_drop k t0 =
     (let t = t0\<lparr>narg := narg t0 - k\<rparr> in
      if narg t > 0 then
        (if length (args t) < k + narg t then Inl OutOfBounds
         else if k < narg t then Inl Overlap
         else Inr (t\<lparr>args := take (narg t) (drop k (args t)) @ drop (narg t) (args t)\<rparr>))
      else Inr t)"

definition rgb :: "u16 \<Rightarrow> u16 \<Rightarrow> u16 \<Rightarrow> u32" where
  "rgb r g b = push_bit 16 (ucast r) OR push_bit 8 (ucast g) OR ucast b"

definition sgr_one :: "u16 \<Rightarrow> vt100_t \<Rightarrow> vt100_t" where
  "sgr_one n t0 =
     (let t1 = (if n = 0 then t0\<lparr>front_color := 0x777777, back_color := 0x000000\<rparr> else t0);
          t2 = (if n = 1 then t1\<lparr>front_color := front_color t1 OR 0x808080\<rparr> else t1);
          t3 = (if n = 4 then t2\<lparr>front_color := 0x3f3f7f\<rparr> else t2);
          t4 = (if n = 7 then t3\<lparr>front_color := 0x000000, back_color := 0x777777\<rparr> else t3)
      in if n \<ge> 30 \<and> n < 38 then t4\<lparr>front_color := color_8bit ! unat (n - 30)\<rparr>
         else if n \<ge> 40 \<and> n < 48 then t4\<lparr>back_color := color_8bit ! unat (n - 40)\<rparr>
         else t4)"

definition sgr_step :: "vt100_t \<Rightarrow> vt100_t res" where
  "sgr_step t =
     (if narg t \<ge> 5 \<and> args t ! 0 = 38 \<and> args t ! 1 = 2
      then args_drop 5 (t\<lparr>front_color := rgb (args t ! 2) (args t ! 3) (args t ! 4)\<rparr>)
      else if narg t \<ge> 5 \<and> args t ! 0 = 48 \<and> args t ! 1 = 2
      then args_drop 5 (t\<lparr>back_color := rgb (args t ! 2) (args t ! 3) (args t ! 4)\<rparr>)
      else if narg t \<ge> 3 \<and> args t ! 0 = 38 \<and> args t ! 1 = 5
      then args_drop 3 (t\<lparr>front_color := color_8bit ! unat (args t ! 2 AND 0xff)\<rparr>)
      else if narg t \<ge> 3 \<and> args t ! 0 = 48 \<and> args t ! 1 = 5
      then args_drop 3 (t\<lparr>back_color := color_8bit ! unat (args t ! 2 AND 0xff)\<rparr>)
      else let n = narg t - 1 in
        if n < length (args t) then Inr (sgr_one (args t ! n) (t\<lparr>narg := n\<rparr>))
        else Inl OutOfBounds)"

lemma args_drop_narg: "args_drop k t = Inr t' \<Longrightarrow> narg t' = narg t - k"
  by (auto simp: args_drop_def Let_def split: if_splits)

lemma sgr_one_frame [simp]:
  "narg (sgr_one n t) = narg t" "args (sgr_one n t) = args t" "state (sgr_one n t) = state t"
  by (simp_all add: sgr_one_def Let_def)

lemma sgr_step_narg: "sgr_step t = Inr t' \<Longrightarrow> 0 < narg t \<Longrightarrow> narg t' < narg t"
  by (auto simp: sgr_step_def Let_def split: if_splits dest!: args_drop_narg)

function sgr_loop :: "vt100_t \<Rightarrow> vt100_t res" where
  "sgr_loop t = (if narg t = 0 then Inr t else rbind (sgr_step t) sgr_loop)"
  by pat_completeness auto
termination
  by (relation "measure narg") (auto intro: sgr_step_narg)

declare sgr_loop.simps [simp del]

definition csi_m :: "vt100_t \<Rightarrow> vt100_t res" where
  "csi_m t =
     (let t1 = (if narg t = 0 then t\<lparr>front_color := 0xffffff, back_color := 0x000000\<rparr> else t)
      in rbind (sgr_loop t1) (\<lambda>t2. Inr (t2\<lparr>state := St_idle\<rparr>)))"

definition csi_r :: "which \<Rightarrow> console \<Rightarrow> console" where
  "csi_r w s =
     (let t = tm s w in
      goto St_idle w
        (if narg t = 2 \<and> args t ! 0 < args t ! 1
         then upd_tm w (\<lambda>t. t\<lparr>scroll_start_row := to_s16 (uint (args t ! 0) - 1),
                              scroll_end_row := to_s16 (uint (args t ! 1) - 1)\<rparr>) s
         else vt100_resetScroll s))"

definition csi_q :: "which \<Rightarrow> console \<Rightarrow> console res" where
  "csi_q w s =
     (let t = tm s w in
      rbind (if narg t = 1 \<and> args t ! 0 \<le> 4 then status_printf (msg_leds (unat (args t ! 0))) s
             else Inr s)
        (\<lambda>s'. Inr (goto St_idle w s')))"

text \<open>The \<open>switch(arg)\<close> of \<open>_st_esc_sq_bracket\<close>; the characters are given as comments.\<close>

definition csi_exec :: "u16 \<Rightarrow> which \<Rightarrow> console \<Rightarrow> console res" where
  "csi_exec arg w s =
     (if arg = 65 then Inr (upd_tm w csi_A s) \<comment> \<open>A\<close>
      else if arg = 66 then Inr (upd_tm w csi_B s) \<comment> \<open>B\<close>
      else if arg = 67 then Inr (upd_tm w csi_C s) \<comment> \<open>C\<close>
      else if arg = 68 then Inr (upd_tm w csi_D s) \<comment> \<open>D\<close>
      else if arg = 102 \<or> arg = 72 then Inr (upd_tm w csi_H s) \<comment> \<open>f, H\<close>
      else if arg = 74 then csi_J w s \<comment> \<open>J\<close>
      else if arg = 75 then on_tm w vt100_clearLine s \<comment> \<open>K\<close>
      else if arg = 80 then csi_P w s \<comment> \<open>P\<close>
      else if arg = 115 then \<comment> \<open>s\<close>
        Inr (upd_tm w (\<lambda>t. t\<lparr>saved_cursor_x := cursor_x t, saved_cursor_y := cursor_y t,
                             state := St_idle\<rparr>) s)
      else if arg = 117 then \<comment> \<open>u\<close>
        Inr (upd_tm w (\<lambda>t. t\<lparr>cursor_x := saved_cursor_x t, cursor_y := saved_cursor_y t,
                             state := St_idle\<rparr>) s)
      else if arg = 109 then upd_res w csi_m s \<comment> \<open>m\<close>
      else if arg = 114 then Inr (csi_r w s) \<comment> \<open>r\<close>
      else if arg = 113 then csi_q w s \<comment> \<open>q\<close>
      else if arg = 63 then Inr (goto St_esc_question w s) \<comment> \<open>?\<close>
      else Inr (goto St_idle w s))"

section \<open>The state handlers\<close>

text \<open>Every handler takes the terminal, the event and its argument.\<close>

definition st_esc_sq_bracket :: "u8 \<Rightarrow> u16 \<Rightarrow> which \<Rightarrow> console \<Rightarrow> console res" where
  "st_esc_sq_bracket ev arg w s =
     (if ev = EV_CHAR then
        (if isdigit arg then start_arg St_esc_sq_bracket arg w s
         else if arg = 59 then Inr s
         else rbind (on_tm w vt100_removeCursor s) (\<lambda>s1.
              rbind (csi_exec arg w s1) (on_tm w vt100_drawCursor)))
      else Inr (goto St_idle w s))"

definition dec_mode :: "bool \<Rightarrow> which \<Rightarrow> console \<Rightarrow> console res" where
  "dec_mode on w s =
     (let a = args (tm s w) ! 0 in
      if a = 1 then status_printf (msg_cursor_keys on) s
      else if a = 2 then status_printf (msg_ansi on) s
      else if a = 3 then status_printf (msg_columns on) s
      else if a = 5 then status_printf (msg_inverse on) s
      else if a = 6 then Inr (upd_tm w (\<lambda>t. t\<lparr>origin_mode := on\<rparr>) s)
      else if a = 7 then Inr (upd_tm w (\<lambda>t. t\<lparr>cursor_wrap := on\<rparr>) s)
      else Inr s)"

definition st_esc_question :: "u8 \<Rightarrow> u16 \<Rightarrow> which \<Rightarrow> console \<Rightarrow> console res" where
  "st_esc_question ev arg w s =
     (if ev = EV_CHAR then
        (if isdigit arg then start_arg St_esc_question arg w s
         else if arg = 59 then Inr s
         else rbind (if arg = 108 \<or> arg = 104 then dec_mode (arg = 104) w s else Inr s)
                (\<lambda>s'. Inr (goto St_idle w s')))
      else Inr s)"

definition st_esc_left_br :: "u8 \<Rightarrow> u16 \<Rightarrow> which \<Rightarrow> console \<Rightarrow> console res" where
  "st_esc_left_br ev arg w s = Inr (if ev = EV_CHAR then goto St_idle w s else s)"

definition st_esc_right_br :: "u8 \<Rightarrow> u16 \<Rightarrow> which \<Rightarrow> console \<Rightarrow> console res" where
  "st_esc_right_br ev arg w s = Inr (if ev = EV_CHAR then goto St_idle w s else s)"

definition st_esc_hash :: "u8 \<Rightarrow> u16 \<Rightarrow> which \<Rightarrow> console \<Rightarrow> console res" where
  "st_esc_hash ev arg w s = Inr (if ev = EV_CHAR then goto St_idle w s else s)"

definition esc_exec :: "u16 \<Rightarrow> which \<Rightarrow> console \<Rightarrow> console res" where
  "esc_exec arg w s =
     (if arg = 91 then Inr (goto St_esc_sq_bracket w (upd_tm w CLEAR_ARGS s)) \<comment> \<open>[\<close>
      else if arg = 40 then Inr (goto St_esc_left_br w (upd_tm w CLEAR_ARGS s)) \<comment> \<open>(\<close>
      else if arg = 41 then Inr (goto St_esc_right_br w (upd_tm w CLEAR_ARGS s)) \<comment> \<open>)\<close>
      else if arg = 35 then Inr (goto St_esc_hash w (upd_tm w CLEAR_ARGS s)) \<comment> \<open>#\<close>
      else if arg = 68 then \<comment> \<open>D\<close>
        rbind (on_tm w (vt100_move 0 1) s) (\<lambda>s'. Inr (goto St_idle w s'))
      else if arg = 77 then \<comment> \<open>M\<close>
        rbind (on_tm w (vt100_move 0 (- 1)) s) (\<lambda>s'. Inr (goto St_idle w s'))
      else if arg = 69 then \<comment> \<open>E\<close>
        rbind (on_tm w (vt100_move 0 1) s)
          (\<lambda>s'. Inr (goto St_idle w (upd_tm w (\<lambda>t. t\<lparr>cursor_x := 0\<rparr>) s')))
      else if arg = 55 \<or> arg = 115 then \<comment> \<open>7, s\<close>
        Inr (goto St_idle w (upd_tm w (\<lambda>t. t\<lparr>saved_cursor_x := cursor_x t,
                                              saved_cursor_y := cursor_y t\<rparr>) s))
      else if arg = 56 \<or> arg = 117 then \<comment> \<open>8, u\<close>
        Inr (goto St_idle w (upd_tm w (\<lambda>t. t\<lparr>cursor_x := saved_cursor_x t,
                                              cursor_y := saved_cursor_y t\<rparr>) s))
      else if arg = 61 then \<comment> \<open>=\<close>
        rbind (status_printf (msg_keypad False) s) (\<lambda>s'. Inr (goto St_idle w s'))
      else if arg = 62 then \<comment> \<open>>\<close>
        rbind (status_printf (msg_keypad True) s) (\<lambda>s'. Inr (goto St_idle w s'))
      else if arg = 99 then Inr (goto St_idle w (vt100_reset s)) \<comment> \<open>c\<close>
      else if arg = 60 then \<comment> \<open><\<close>
        rbind (status_printf (msg_ansi True) s) (\<lambda>s'. Inr (goto St_idle w s'))
      else if arg = 27 then Inr s \<comment> \<open>KEY_ESC\<close>
      else Inr (goto St_idle w s))"

definition st_escape :: "u8 \<Rightarrow> u16 \<Rightarrow> which \<Rightarrow> console \<Rightarrow> console res" where
  "st_escape ev arg w s =
     (if ev = EV_CHAR then
        rbind (on_tm w vt100_removeCursor s) (\<lambda>s1.
        rbind (esc_exec arg w s1) (on_tm w vt100_drawCursor))
      else Inr (goto St_idle w s))"

definition tab_count :: "vt100_t \<Rightarrow> nat" where
  "tab_count t = nat (4 - cursor_x t smod 4)"

definition idle_exec :: "u16 \<Rightarrow> which \<Rightarrow> console \<Rightarrow> console res" where
  "idle_exec arg w s =
     (if arg = 5 then Inr s \<comment> \<open>AnswerBack\<close>
      else if arg = 10 then \<comment> \<open>new line\<close>
        rbind (on_tm w (vt100_move 0 1) s) (\<lambda>s'. Inr (upd_tm w (\<lambda>t. t\<lparr>cursor_x := 0\<rparr>) s'))
      else if arg = 13 then Inr (upd_tm w (\<lambda>t. t\<lparr>cursor_x := 0\<rparr>) s) \<comment> \<open>carriage return\<close>
      else if arg = 8 then on_tm w (vt100_move (- 1) 0) s \<comment> \<open>backspace\<close>
      else if arg = 127 then \<comment> \<open>KEY_DEL\<close>
        rbind (on_tm w (term_putc 32) s) (on_tm w (vt100_move (- 1) 0))
      else if arg = 9 then on_tm w (putc_n (tab_count (tm s w)) 32) s \<comment> \<open>tab\<close>
      else if arg = 7 then Inr s \<comment> \<open>KEY_BELL\<close>
      else if arg = 27 then Inr (goto St_escape w s) \<comment> \<open>KEY_ESC\<close>
      else on_tm w (term_putc (ucast arg)) s)"

definition st_idle :: "u8 \<Rightarrow> u16 \<Rightarrow> which \<Rightarrow> console \<Rightarrow> console res" where
  "st_idle ev arg w s =
     (if ev = EV_CHAR then
        rbind (on_tm w vt100_removeCursor s) (\<lambda>s1.
        rbind (idle_exec arg w s1) (on_tm w vt100_drawCursor))
      else Inr s)"

text \<open>
  A call through a handler pointer, for the handlers that do not themselves call through one.
  \<open>_st_command_arg\<close> is never a \<open>ret_state\<close> of the program; if it were, it would call itself
  for ever.
\<close>

definition call_ret :: "vstate \<Rightarrow> u8 \<Rightarrow> u16 \<Rightarrow> which \<Rightarrow> console \<Rightarrow> console res" where
  "call_ret st = (case st of
      St_idle \<Rightarrow> st_idle
    | St_escape \<Rightarrow> st_escape
    | St_esc_sq_bracket \<Rightarrow> st_esc_sq_bracket
    | St_esc_question \<Rightarrow> st_esc_question
    | St_esc_hash \<Rightarrow> st_esc_hash
    | St_esc_left_br \<Rightarrow> st_esc_left_br
    | St_esc_right_br \<Rightarrow> st_esc_right_br
    | St_command_arg \<Rightarrow> (\<lambda>ev arg w s. Inl Hang))"

definition ret_or_idle :: "vt100_t \<Rightarrow> vstate" where
  "ret_or_idle t = (case ret_state t of None \<Rightarrow> St_idle | Some st \<Rightarrow> st)"

definition st_command_arg :: "u8 \<Rightarrow> u16 \<Rightarrow> which \<Rightarrow> console \<Rightarrow> console res" where
  "st_command_arg ev arg w s =
     (if ev = EV_CHAR then
        (if isdigit arg then upd_res w (command_arg_digit arg) s
         else let s1 = upd_tm w (\<lambda>t. t\<lparr>narg := (narg t + 1) mod 256\<rparr>) s in
           if arg = 59 then Inr s1
           else let s2 = upd_tm w (\<lambda>t. t\<lparr>state := ret_or_idle t\<rparr>) s1
                in call_ret (state (tm s2 w)) ev arg w s2)
      else Inr s)"

definition call_state :: "u8 \<Rightarrow> u16 \<Rightarrow> which \<Rightarrow> console \<Rightarrow> console res" where
  "call_state ev arg w s =
     (if state (tm s w) = St_command_arg then st_command_arg ev arg w s
      else call_ret (state (tm s w)) ev arg w s)"

section \<open>Feeding the terminals\<close>

definition vt100_init :: "console \<Rightarrow> console" where
  "vt100_init s =
     (let s1 = vt100_reset s; t = tm s1 Term; st = tm s1 Status in
      s1\<lparr>vram := memset64 (VRam st) 0x77777720 (nat (screen_skew st * screen_h st))
              (memset64 (VRam t) 0x77777720 (nat (screen_skew t * screen_h t)) (vram s1))\<rparr>)"

definition status_putc :: "u8 \<Rightarrow> console \<Rightarrow> console res" where
  "status_putc c s = call_state EV_CHAR (ucast c) Status s"

text \<open>
  \<open>status_flush\<close> reads \<open>status_stream_ptr\<close> again in every round: a byte it delivers may append
  to the stream it is flushing.
\<close>

partial_function (option) status_flush_loop :: "nat \<Rightarrow> console \<Rightarrow> console res option" where
  "status_flush_loop i s =
     (if i < status_stream_ptr s then
        (if i < length (status_stream_buffer s) then
           (case status_putc (status_stream_buffer s ! i) s of
              Inl e \<Rightarrow> Some (Inl e)
            | Inr s' \<Rightarrow> status_flush_loop (i + 1) s')
         else Some (Inl OutOfBounds))
      else Some (Inr s))"

definition status_flush :: "console \<Rightarrow> console res" where
  "status_flush s =
     rbind (rbind (of_loop (status_flush_loop 0 s)) (\<lambda>r. r)) (\<lambda>s'. Inr (s'\<lparr>status_stream_ptr := 0\<rparr>))"

definition vt100_putc :: "u8 \<Rightarrow> console \<Rightarrow> console res" where
  "vt100_putc c s = rbind (call_state EV_CHAR (ucast c) Term s) status_flush"

definition vt100_puts :: "u8 list \<Rightarrow> console \<Rightarrow> console res" where
  "vt100_puts str = run_list vt100_putc (takeWhile (\<lambda>c. c \<noteq> 0) str)"

definition status_puts :: "u8 list \<Rightarrow> console \<Rightarrow> console res" where
  "status_puts str = run_list status_putc (takeWhile (\<lambda>c. c \<noteq> 0) str)"

partial_function (option) vt100_flush_loop :: "nat \<Rightarrow> console \<Rightarrow> console res option" where
  "vt100_flush_loop i s =
     (if i < vt100_stream_ptr s then
        (if i < length (vt100_stream_buffer s) then
           (case vt100_putc (vt100_stream_buffer s ! i) s of
              Inl e \<Rightarrow> Some (Inl e)
            | Inr s' \<Rightarrow> vt100_flush_loop (i + 1) s')
         else Some (Inl OutOfBounds))
      else Some (Inr s))"

definition vt100_flush :: "console \<Rightarrow> console res" where
  "vt100_flush s =
     rbind (rbind (of_loop (vt100_flush_loop 0 s)) (\<lambda>r. r)) (\<lambda>s'. Inr (s'\<lparr>vt100_stream_ptr := 0\<rparr>))"

definition vt100_buffer :: "u8 \<Rightarrow> console \<Rightarrow> console res" where
  "vt100_buffer c s =
     rbind (if vt100_stream_ptr s = STREAM_SIZE
            then rbind (vt100_flush s) (\<lambda>s'. Inr (s'\<lparr>vt100_stream_ptr := 0\<rparr>)) else Inr s)
       (\<lambda>s1. if vt100_stream_ptr s1 < length (vt100_stream_buffer s1)
             then Inr (s1\<lparr>vt100_stream_buffer := (vt100_stream_buffer s1)[vt100_stream_ptr s1 := c],
                          vt100_stream_ptr := (vt100_stream_ptr s1 + 1) mod 65536\<rparr>)
             else Inl OutOfBounds)"

definition status_buffer :: "u8 \<Rightarrow> console \<Rightarrow> console res" where
  "status_buffer c s =
     (if status_stream_ptr s = STREAM_SIZE then Inr s
      else if status_stream_ptr s < length (status_stream_buffer s)
      then Inr (s\<lparr>status_stream_buffer := (status_stream_buffer s)[status_stream_ptr s := c],
                  status_stream_ptr := (status_stream_ptr s + 1) mod 65536\<rparr>)
      else Inl OutOfBounds)"

end
