(* ===== verification/Vt100_Safety.thy ===== *)
theory Vt100_Safety
  imports Vt100_Parser
begin

text \<open>
  The invariant of the terminal emulator and the guard under which it is kept. \<open>vt_inv\<close> says
  that both cursors are at places from which every store of the code lands inside the screen,
  that the scroll regions are the whole screens, and that the status stream is empty between
  two bytes. \<open>byte_ok\<close> is the guard: what a sender must respect, in the state a byte arrives
  in. The main result is that every guarded byte stream is consumed without a hang, an access
  outside an array or a store outside the two screens; plain text needs no guard at all.
  \<open>Vt100_Faults\<close> has the streams on the other side of the guard.
\<close>

section \<open>The invariant of the two terminals\<close>

definition rows :: "which \<Rightarrow> int" where
  "rows w = (case w of Term \<Rightarrow> 64 | Status \<Rightarrow> 1)"

definition base :: "which \<Rightarrow> int" where
  "base w = (case w of Term \<Rightarrow> 160 | Status \<Rightarrow> 0)"

lemma rows_base [simp]:
  "rows Term = 64" "rows Status = 1" "base Term = 160" "base Status = 0"
  by (simp_all add: rows_def base_def)

definition tm_inv :: "which \<Rightarrow> vt100_t \<Rightarrow> bool" where
  "tm_inv w t \<longleftrightarrow> wf_screen (rows w) t \<and> VRam t = base w \<and>
     pos_ok (rows w) (saved_cursor_x t) (saved_cursor_y t) \<and>
     length (args t) = 16 \<and>
     (ret_state t = None \<or> ret_state t = Some St_esc_sq_bracket \<or> ret_state t = Some St_esc_question)"

definition con_inv :: "console \<Rightarrow> bool" where
  "con_inv s \<longleftrightarrow> tm_inv Term (tm s Term) \<and> tm_inv Status (tm s Status) \<and>
     length (vt100_stream_buffer s) = STREAM_SIZE \<and> length (status_stream_buffer s) = STREAM_SIZE"

lemma con_inv_tm: "con_inv s \<Longrightarrow> tm_inv w (tm s w)"
  by (cases w) (simp_all add: con_inv_def)

definition streams :: "console \<Rightarrow> u8 list \<times> nat \<times> u8 list \<times> nat" where
  "streams s = (vt100_stream_buffer s, vt100_stream_ptr s,
                status_stream_buffer s, status_stream_ptr s)"

text \<open>
  What a handler call on terminal \<open>w\<close> is allowed to do: succeed, keep the invariant, write
  only into the screen of \<open>w\<close>, and leave the streams alone.
\<close>

definition quiet_ok :: "which \<Rightarrow> console \<Rightarrow> console res \<Rightarrow> bool" where
  "quiet_ok w s r \<longleftrightarrow>
     (\<exists>s'. r = Inr s' \<and> con_inv s' \<and> framed (base w) (rows w) (vram s) (vram s') \<and>
           streams s' = streams s \<and> (\<forall>w'. w' \<noteq> w \<longrightarrow> state (tm s' w') = state (tm s w') \<or> state (tm s' w') = St_idle))"

lemma quiet_okI:
  "r = Inr s' \<Longrightarrow> con_inv s' \<Longrightarrow> framed (base w) (rows w) (vram s) (vram s') \<Longrightarrow>
   streams s' = streams s \<Longrightarrow>
   (\<And>w'. w' \<noteq> w \<Longrightarrow> state (tm s' w') = state (tm s w') \<or> state (tm s' w') = St_idle) \<Longrightarrow>
   quiet_ok w s r"
  by (auto simp: quiet_ok_def)

lemma quiet_okE:
  assumes "quiet_ok w s r"
  obtains s' where "r = Inr s'" "con_inv s'" "framed (base w) (rows w) (vram s) (vram s')"
    "streams s' = streams s"
    "\<And>w'. w' \<noteq> w \<Longrightarrow> state (tm s' w') = state (tm s w') \<or> state (tm s' w') = St_idle"
  using assms by (auto simp: quiet_ok_def)

lemma quiet_ok_bind:
  assumes r: "quiet_ok w s r"
    and g: "\<And>s'. r = Inr s' \<Longrightarrow> con_inv s' \<Longrightarrow> quiet_ok w s' (g s')"
  shows "quiet_ok w s (rbind r g)"
proof -
  from r obtain s1 where 1: "r = Inr s1" "con_inv s1" "framed (base w) (rows w) (vram s) (vram s1)"
    "streams s1 = streams s"
    "\<And>w'. w' \<noteq> w \<Longrightarrow> state (tm s1 w') = state (tm s w') \<or> state (tm s1 w') = St_idle"
    by (rule quiet_okE) blast
  from g [OF 1(1,2)] obtain s2 where 2: "g s1 = Inr s2" "con_inv s2"
    "framed (base w) (rows w) (vram s1) (vram s2)" "streams s2 = streams s1"
    "\<And>w'. w' \<noteq> w \<Longrightarrow> state (tm s2 w') = state (tm s1 w') \<or> state (tm s2 w') = St_idle"
    by (rule quiet_okE) blast
  show ?thesis
  proof (rule quiet_okI)
    show "rbind r g = Inr s2" using 1 2 by simp
    show "framed (base w) (rows w) (vram s) (vram s2)" using 1(3) 2(3) by (rule framed_trans)
    show "state (tm s2 w') = state (tm s w') \<or> state (tm s2 w') = St_idle" if "w' \<noteq> w" for w'
      using 1(5) [OF that] 2(5) [OF that] by auto
  qed (use 1 2 in auto)
qed

lemma con_inv_upd:
  assumes "con_inv s" "tm_inv w t"
  shows "con_inv (s\<lparr>tm := (tm s)(w := t), vram := m\<rparr>)" "con_inv (s\<lparr>tm := (tm s)(w := t)\<rparr>)"
  using assms by (cases w; simp add: con_inv_def)+

lemma quiet_upd_tm:
  assumes "con_inv s" "tm_inv w (f (tm s w))"
  shows "quiet_ok w s (Inr (upd_tm w f s))"
  using con_inv_upd [OF assms]
  by (intro quiet_okI [of _ "upd_tm w f s"]) (simp_all add: upd_tm_def streams_def)

text \<open>A drawing routine that is fine on the screen is fine on the console.\<close>

lemma tm_inv_core:
  assumes "tm_inv w t" "wf_screen (rows w) t'" "core t' = core t"
  shows "tm_inv w t'"
  using assms core_sel [OF assms(3)] by (simp add: tm_inv_def)

lemma quiet_on_tm:
  assumes "con_inv s" and f: "\<And>t m. tm s w = t \<Longrightarrow> wf_screen (rows w) t \<Longrightarrow> screen_ok (rows w) t m (f t m)"
  shows "quiet_ok w s (on_tm w f s)"
proof -
  have i: "tm_inv w (tm s w)" by (rule con_inv_tm) fact
  with f have "screen_ok (rows w) (tm s w) (vram s) (f (tm s w) (vram s))"
    by (simp add: tm_inv_def)
  then obtain t' m' where r: "f (tm s w) (vram s) = Inr (t', m')" "wf_screen (rows w) t'"
      "core t' = core (tm s w)" "framed (base w) (rows w) (vram s) m'"
    using i by (auto simp: screen_ok_def tm_inv_def)
  have "tm_inv w t'" using i r(2,3) by (rule tm_inv_core)
  from con_inv_upd(1) [OF assms(1) this] r show ?thesis
    by (intro quiet_okI [of _ "s\<lparr>tm := (tm s)(w := t'), vram := m'\<rparr>"]) (auto simp: streams_def)
qed

lemma quiet_goto: "con_inv s \<Longrightarrow> quiet_ok w s (Inr (goto st w s))"
  unfolding goto_def by (rule quiet_upd_tm) (auto dest: con_inv_tm [of s w] simp: tm_inv_def)

lemma quiet_refl: "con_inv s \<Longrightarrow> quiet_ok w s (Inr s)"
  by (rule quiet_okI) auto

lemma tm_inv_wf: "tm_inv w t \<Longrightarrow> wf_screen (rows w) t"
  by (simp add: tm_inv_def)

lemma quiet_removeCursor: "con_inv s \<Longrightarrow> quiet_ok w s (on_tm w vt100_removeCursor s)"
  by (rule quiet_on_tm) (auto intro: removeCursor_ok)

lemma quiet_drawCursor: "con_inv s \<Longrightarrow> quiet_ok w s (on_tm w vt100_drawCursor s)"
  by (rule quiet_on_tm) (auto intro: drawCursor_ok)

lemma quiet_move:
  assumes "con_inv s" "-32767 \<le> dx" "dx \<le> 1" "-1 \<le> dy" "dy \<le> 1" "dx + dy \<le> 1"
    "dx + cursor_x (tm s w) < 0 \<Longrightarrow> dy \<le> 0 \<and> w = Term"
  shows "quiet_ok w s (on_tm w (vt100_move dx dy) s)"
  using assms by (intro quiet_on_tm move_ok) auto

lemma quiet_putc: "con_inv s \<Longrightarrow> quiet_ok w s (on_tm w (term_putc c) s)"
  by (rule quiet_on_tm) (auto intro: term_putc_ok)

lemma quiet_putc_n: "con_inv s \<Longrightarrow> quiet_ok w s (on_tm w (putc_n n c) s)"
  by (rule quiet_on_tm) (auto intro: putc_n_ok)

lemma col0_inv: "tm_inv w t \<Longrightarrow> tm_inv w (t\<lparr>cursor_x := 0\<rparr>)"
  by (auto simp: tm_inv_def wf_screen_def pos_ok_def)

lemma restore_inv:
  "tm_inv w t \<Longrightarrow> tm_inv w (t\<lparr>cursor_x := saved_cursor_x t, cursor_y := saved_cursor_y t\<rparr>)"
  by (auto simp: tm_inv_def wf_screen_def)

lemma save_inv:
  "tm_inv w t \<Longrightarrow> tm_inv w (t\<lparr>saved_cursor_x := cursor_x t, saved_cursor_y := cursor_y t\<rparr>)"
  by (auto simp: tm_inv_def wf_screen_def)

lemma state_inv: "tm_inv w (t\<lparr>state := st\<rparr>) = tm_inv w t"
  by (simp add: tm_inv_def)

section \<open>Plain bytes\<close>

lemma quiet_idle_exec:
  assumes i: "con_inv s" and ok: "w = Term \<or> (arg \<noteq> 8 \<and> arg \<noteq> 127)"
  shows "quiet_ok w s (idle_exec arg w s)"
proof -
  have t: "tm_inv w (tm s w)" by (rule con_inv_tm) fact
  have nl: "quiet_ok w s (rbind (on_tm w (vt100_move 0 1) s)
      (\<lambda>s'. Inr (upd_tm w (\<lambda>t. t\<lparr>cursor_x := 0\<rparr>) s')))"
    using t by (intro quiet_ok_bind quiet_move i quiet_upd_tm col0_inv con_inv_tm)
      (auto simp: tm_inv_def wf_screen_def pos_ok_def)
  have bs: "quiet_ok w s' (on_tm w (vt100_move (- 1) 0) s')" if "con_inv s'" "w = Term" for s'
    using that by (intro quiet_move) auto
  have del: "quiet_ok w s (rbind (on_tm w (term_putc 32) s) (on_tm w (vt100_move (- 1) 0)))"
    if "w = Term"
    using that by (intro quiet_ok_bind quiet_putc i bs) auto
  have cr: "quiet_ok w s (Inr (upd_tm w (\<lambda>t. t\<lparr>cursor_x := 0\<rparr>) s))"
    by (intro quiet_upd_tm col0_inv i t)
  show ?thesis
    using nl bs [OF i] del cr ok
    by (auto simp: idle_exec_def intro: quiet_refl quiet_goto quiet_putc quiet_putc_n i)
qed

lemma quiet_st_idle:
  assumes "con_inv s" "w = Term \<or> (arg \<noteq> 8 \<and> arg \<noteq> 127)"
  shows "quiet_ok w s (st_idle ev arg w s)"
  using assms unfolding st_idle_def
  by (auto intro!: quiet_ok_bind quiet_removeCursor quiet_idle_exec quiet_drawCursor quiet_refl)

lemma if_rule: "(b \<Longrightarrow> P x) \<Longrightarrow> (\<not> b \<Longrightarrow> P y) \<Longrightarrow> P (if b then x else y)"
  by simp

section \<open>Color commands\<close>

definition uncolored :: "vt100_t \<Rightarrow> vt100_t" where
  "uncolored t = t\<lparr>narg := 0, args := [], front_color := 0, back_color := 0\<rparr>"

lemma sgr_one_uncolored [simp]: "uncolored (sgr_one n t) = uncolored t"
  by (simp add: sgr_one_def Let_def uncolored_def)

lemma uncolored_upd [simp]:
  "uncolored (t\<lparr>front_color := c\<rparr>) = uncolored t" "uncolored (t\<lparr>back_color := c\<rparr>) = uncolored t"
  "uncolored (t\<lparr>narg := n\<rparr>) = uncolored t" "uncolored (t\<lparr>args := as\<rparr>) = uncolored t"
  by (simp_all add: uncolored_def)

text \<open>
  The color command as a function on the list of its arguments. The extended colors
  (\<open>38;2;r;g;b\<close>, \<open>38;5;n\<close> and the same with 48) are taken from the front of the list, anything
  else from its end: that is the order of the code's loop.
\<close>

definition attr :: "u16 \<Rightarrow> u32 \<times> u32 \<Rightarrow> u32 \<times> u32" where
  "attr n c = (case c of (p, q) \<Rightarrow>
     if n = 0 then (0x777777, 0)
     else if n = 1 then (p OR 0x808080, q)
     else if n = 4 then (0x3f3f7f, q)
     else if n = 7 then (0, 0x777777)
     else if 30 \<le> n \<and> n < 38 then (color_8bit ! unat (n - 30), q)
     else if 40 \<le> n \<and> n < 48 then (p, color_8bit ! unat (n - 40))
     else (p, q))"

function sgr_ref :: "u16 list \<Rightarrow> u32 \<times> u32 \<Rightarrow> u32 \<times> u32" where
  "sgr_ref ns c =
     (if ns = [] then c
      else if length ns \<ge> 5 \<and> ns ! 0 = 38 \<and> ns ! 1 = 2
      then sgr_ref (drop 5 ns) (rgb (ns ! 2) (ns ! 3) (ns ! 4), snd c)
      else if length ns \<ge> 5 \<and> ns ! 0 = 48 \<and> ns ! 1 = 2
      then sgr_ref (drop 5 ns) (fst c, rgb (ns ! 2) (ns ! 3) (ns ! 4))
      else if length ns \<ge> 3 \<and> ns ! 0 = 38 \<and> ns ! 1 = 5
      then sgr_ref (drop 3 ns) (color_8bit ! unat (ns ! 2 AND 0xff), snd c)
      else if length ns \<ge> 3 \<and> ns ! 0 = 48 \<and> ns ! 1 = 5
      then sgr_ref (drop 3 ns) (fst c, color_8bit ! unat (ns ! 2 AND 0xff))
      else sgr_ref (butlast ns) (attr (last ns) c))"
  by pat_completeness auto
termination
  by (relation "measure (\<lambda>(ns, c). length ns)") auto

declare sgr_ref.simps [simp del]

text \<open>
  No extended color of the list is followed by more arguments than it has itself: the code moves them to the
  front with \<open>memcpy\<close>.
\<close>

function sgr_disjoint :: "u16 list \<Rightarrow> bool" where
  "sgr_disjoint ns =
     (if ns = [] then True
      else if length ns \<ge> 5 \<and> (ns ! 0 = 38 \<or> ns ! 0 = 48) \<and> ns ! 1 = 2
      then length ns \<le> 10 \<and> sgr_disjoint (drop 5 ns)
      else if length ns \<ge> 3 \<and> (ns ! 0 = 38 \<or> ns ! 0 = 48) \<and> ns ! 1 = 5
      then length ns \<le> 6 \<and> sgr_disjoint (drop 3 ns)
      else sgr_disjoint (butlast ns))"
  by pat_completeness auto
termination
  by (relation "measure length") auto

declare sgr_disjoint.simps [simp del]

lemma sgr_disjoint_short [simp]: "length ns \<le> 4 \<Longrightarrow> sgr_disjoint ns"
proof (induction ns rule: sgr_disjoint.induct)
  case (1 ns)
  then show ?case by (subst sgr_disjoint.simps) auto
qed

definition colors :: "vt100_t \<Rightarrow> u32 \<times> u32" where
  "colors t = (front_color t, back_color t)"

lemma colors_narg [simp]: "colors (t\<lparr>narg := n\<rparr>) = colors t"
  by (simp add: colors_def)

lemma sgr_one_colors: "colors (sgr_one n t) = attr n (colors t)"
proof -
  consider "n = 0" | "n = 1" | "n = 4" | "n = 7" | "n \<noteq> 0" "n \<noteq> 1" "n \<noteq> 4" "n \<noteq> 7" by blast
  moreover have "\<not> 40 \<le> (1 :: u16)" "\<not> 30 \<le> (1 :: u16)" by unat_arith+
  ultimately show ?thesis by cases (simp_all add: colors_def sgr_one_def attr_def Let_def)
qed

lemma args_drop_list:
  assumes "k \<le> narg t" "narg t \<le> length (args t)" "narg t \<le> k + k"
  shows "\<exists>t'. args_drop k t = Inr t' \<and> narg t' = narg t - k \<and> colors t' = colors t \<and>
    uncolored t' = uncolored t \<and> length (args t') = length (args t) \<and>
    take (narg t') (args t') = drop k (take (narg t) (args t))"
  using assms by (auto simp: args_drop_def Let_def colors_def drop_take)

lemma sgr_loop_ref:
  assumes "narg t \<le> length (args t)" and "sgr_disjoint (take (narg t) (args t))"
  shows "\<exists>t'. sgr_loop t = Inr t' \<and> narg t' = 0 \<and> uncolored t' = uncolored t \<and>
    length (args t') = length (args t) \<and> colors t' = sgr_ref (take (narg t) (args t)) (colors t)"
  using assms
proof (induction t rule: sgr_loop.induct)
  case (1 t)
  let ?ns = "take (narg t) (args t)"
  show ?case
  proof (cases "narg t = 0")
    case True
    then show ?thesis by (subst sgr_loop.simps) (simp add: sgr_ref.simps)
  next
    case False
    have len: "length ?ns = narg t" using "1.prems" by simp
    have nth: "i < narg t \<Longrightarrow> args t ! i = ?ns ! i" for i by simp
    have ne: "?ns \<noteq> []" "args t \<noteq> []" using False len by auto
    have go: "?thesis" if "sgr_step t = Inr t1" "narg t1 \<le> length (args t1)" "uncolored t1 = uncolored t"
      "length (args t1) = length (args t)"
      "sgr_disjoint (take (narg t1) (args t1))" "sgr_ref (take (narg t1) (args t1)) (colors t1) = sgr_ref ?ns (colors t)" for t1
      using "1.IH" [OF False that(1,2,5)] that False by (subst sgr_loop.simps) auto
    have dr: "?thesis" if "k \<le> narg t" "narg t \<le> k + k" "sgr_disjoint (drop k ?ns)" "sgr_step t = args_drop k (f t)"
      "narg (f t) = narg t" "args (f t) = args t" "uncolored (f t) = uncolored t"
      "sgr_ref (drop k ?ns) (colors (f t)) = sgr_ref ?ns (colors t)" for k and f :: "vt100_t \<Rightarrow> vt100_t"
    proof -
      from args_drop_list [of k "f t"] that(1,2,5,6) "1.prems" obtain t1 where
        "args_drop k (f t) = Inr t1" "narg t1 = narg t - k" "colors t1 = colors (f t)"
        "uncolored t1 = uncolored (f t)" "length (args t1) = length (args t)"
        "take (narg t1) (args t1) = drop k ?ns"
        by auto
      with that "1.prems" show ?thesis by (intro go [of t1]) auto
    qed
    note step = sgr_step_def Let_def
    note dj = "1.prems"(2) [unfolded sgr_disjoint.simps [of ?ns]]
    consider (pen) "5 \<le> narg t" "args t ! 0 = 38" "args t ! 1 = 2"
      | (paper) "5 \<le> narg t" "args t ! 0 = 48" "args t ! 1 = 2"
      | (pen8) "3 \<le> narg t" "args t ! 0 = 38" "args t ! 1 = 5"
      | (paper8) "3 \<le> narg t" "args t ! 0 = 48" "args t ! 1 = 5"
      | (plain) "\<not> (5 \<le> narg t \<and> (args t ! 0 = 38 \<or> args t ! 0 = 48) \<and> args t ! 1 = 2)"
          "\<not> (3 \<le> narg t \<and> (args t ! 0 = 38 \<or> args t ! 0 = 48) \<and> args t ! 1 = 5)"
      by blast
    then show ?thesis
    proof cases
      case pen
      then show ?thesis using len dj
        by (intro dr [of 5 "\<lambda>t. t\<lparr>front_color := rgb (args t ! 2) (args t ! 3) (args t ! 4)\<rparr>"])
          (simp_all add: step sgr_ref.simps [of ?ns] colors_def ne)
    next
      case paper
      then show ?thesis using len dj
        by (intro dr [of 5 "\<lambda>t. t\<lparr>back_color := rgb (args t ! 2) (args t ! 3) (args t ! 4)\<rparr>"])
          (simp_all add: step sgr_ref.simps [of ?ns] colors_def ne)
    next
      case pen8
      then show ?thesis using len dj
        by (intro dr [of 3 "\<lambda>t. t\<lparr>front_color := color_8bit ! unat (args t ! 2 AND 0xff)\<rparr>"])
          (simp_all add: step sgr_ref.simps [of ?ns] colors_def ne)
    next
      case paper8
      then show ?thesis using len dj
        by (intro dr [of 3 "\<lambda>t. t\<lparr>back_color := color_8bit ! unat (args t ! 2 AND 0xff)\<rparr>"])
          (simp_all add: step sgr_ref.simps [of ?ns] colors_def ne)
    next
      case plain
      have n: "narg t - 1 < length (args t)" using False "1.prems" by simp
      have s: "sgr_step t = Inr (sgr_one (args t ! (narg t - 1)) (t\<lparr>narg := narg t - 1\<rparr>))"
        using plain n by (auto simp: step)
      have l: "last ?ns = args t ! (narg t - 1)" "butlast ?ns = take (narg t - 1) (args t)"
        using False "1.prems" len by (simp_all add: last_conv_nth ne butlast_take)
      have "sgr_ref ?ns (colors t) = sgr_ref (butlast ?ns) (attr (last ?ns) (colors t))"
      proof -
        have "\<not> (5 \<le> length ?ns \<and> ?ns ! 0 = 38 \<and> ?ns ! 1 = 2)"
          "\<not> (5 \<le> length ?ns \<and> ?ns ! 0 = 48 \<and> ?ns ! 1 = 2)"
          "\<not> (3 \<le> length ?ns \<and> ?ns ! 0 = 38 \<and> ?ns ! 1 = 5)"
          "\<not> (3 \<le> length ?ns \<and> ?ns ! 0 = 48 \<and> ?ns ! 1 = 5)"
          using plain by auto
        then show ?thesis
          by (subst sgr_ref.simps) (simp only: ne(1) if_False)
      qed
      moreover have "sgr_disjoint (take (narg t - 1) (args t))"
        using dj ne plain len unfolding l(2) by (auto split: if_splits)
      ultimately show ?thesis
        using n l "1.prems" by (intro go [OF s]) (auto simp: sgr_one_colors)
    qed
  qed
qed

lemma uncolored_sel:
  assumes "uncolored t' = uncolored t"
  shows "state t' = state t" "ret_state t' = ret_state t" "cursor_x t' = cursor_x t"
    "cursor_y t' = cursor_y t" "VRam t' = VRam t" "wf_screen h t' = wf_screen h t"
    "saved_cursor_x t' = saved_cursor_x t" "saved_cursor_y t' = saved_cursor_y t"
    "CharUnderCursor t' = CharUnderCursor t" "cursor_wrap t' = cursor_wrap t"
  using arg_cong [OF assms, of state] arg_cong [OF assms, of ret_state]
    arg_cong [OF assms, of cursor_x] arg_cong [OF assms, of cursor_y] arg_cong [OF assms, of VRam]
    arg_cong [OF assms, of "wf_screen h"] arg_cong [OF assms, of saved_cursor_x]
    arg_cong [OF assms, of saved_cursor_y] arg_cong [OF assms, of CharUnderCursor]
    arg_cong [OF assms, of cursor_wrap]
  by (simp_all add: uncolored_def wf_screen_def)

lemma csi_m_ok:
  assumes "narg t \<le> 16" "sgr_disjoint (take (narg t) (args t))" "tm_inv w t"
  shows "\<exists>t'. csi_m t = Inr t' \<and> tm_inv w t' \<and> state t' = St_idle"
proof -
  let ?t = "if narg t = 0 then t\<lparr>front_color := 0xffffff, back_color := 0x000000\<rparr> else t"
  have "narg ?t \<le> length (args ?t)" "sgr_disjoint (take (narg ?t) (args ?t))"
    using assms by (simp_all add: tm_inv_def)
  from sgr_loop_ref [OF this] obtain t' where t': "sgr_loop ?t = Inr t'"
      "length (args t') = length (args ?t)" "uncolored t' = uncolored ?t" by auto
  have u: "uncolored t' = uncolored t" "length (args t') = length (args t)" using t' by auto
  have "tm_inv w t'" using assms(3) u(2) by (simp add: tm_inv_def uncolored_sel [OF u(1)])
  with t'(1) show ?thesis by (simp add: csi_m_def Let_def state_inv del: sgr_loop.simps)
qed

section \<open>CSI commands within bounds\<close>

text \<open>
  The commands the code carries out inside the screen. The bounds are those of the code's own
  arithmetic: an argument above 32767 wraps around in the \<open>int16_t\<close> cursor, cursor down and
  right stop one past the last row and column, an explicit column or row of 0 is not clamped,
  a true scroll region moves the copy loop past the end of the screen, and an extended color with a long
  list behind it copies between overlapping parts of \<open>args\<close>.
\<close>

definition csi_ok :: "which \<Rightarrow> u16 \<Rightarrow> vt100_t \<Rightarrow> bool" where
  "csi_ok w arg t =
     (if arg = 65 \<or> arg = 68 then arg_or_1 t \<le> 32767
      else if arg = 66 then cursor_y t + arg_or_1 t < rows w \<and> cursor_x t < 160
      else if arg = 67 then cursor_x t + arg_or_1 t < 160
      else if arg = 102 \<or> arg = 72 then
        (narg t \<ge> 1 \<longrightarrow> 1 \<le> uint (args t ! 1) \<and> uint (args t ! 1) \<le> 160) \<and>
        (narg t = 2 \<longrightarrow> 1 \<le> uint (args t ! 0) \<and> uint (args t ! 0) \<le> rows w)
      else if arg = 75 then narg t = 0 \<or> (narg t = 1 \<and> args t ! 0 \<le> 2)
      else if arg = 80 then w = Term \<and> arg_or_1 t \<le> 32767
      else if arg = 109 then narg t \<le> 16 \<and> sgr_disjoint (take (narg t) (args t))
      else if arg = 114 then \<not> (narg t = 2 \<and> args t ! 0 < args t ! 1)
      else True)"

lemma arg_or_1_bounds: "0 \<le> arg_or_1 t" "arg_or_1 t < 65536"
  using uint_u16_bounds [of "args t ! 0"] by (auto simp: arg_or_1_def)

lemma tm_inv_bounds:
  assumes "tm_inv w t"
  shows "0 \<le> cursor_x t" "cursor_x t \<le> 161" "0 \<le> cursor_y t" "cursor_y t < rows w"
    "cursor_y t = rows w - 1 \<Longrightarrow> cursor_x t < 160" "rows w \<le> 64" "1 \<le> rows w"
  using assms by (cases w; auto simp: tm_inv_def wf_screen_def pos_ok_def)+

lemma tm_inv_place:
  "tm_inv w t \<Longrightarrow> pos_ok (rows w) x y \<Longrightarrow> tm_inv w (t\<lparr>cursor_x := x, cursor_y := y, state := st\<rparr>)"
  by (auto simp: tm_inv_def wf_screen_def)

lemma csi_A_inv:
  assumes i: "tm_inv w t" and n: "arg_or_1 t \<le> 32767"
  shows "tm_inv w (csi_A t)"
proof -
  note b = tm_inv_bounds [OF i] and a = arg_or_1_bounds [of t]
  have g: "screen_w t = 160" "screen_h t = rows w" using i by (simp_all add: tm_inv_def wf_screen_def)
  have "csi_A t = t\<lparr>cursor_x := cursor_x t, cursor_y := max 0 (cursor_y t - arg_or_1 t), state := St_idle\<rparr>"
    using a b n g by (simp add: csi_A_def Let_def to_s16_id max_def)
  moreover have "pos_ok (rows w) (cursor_x t) (max 0 (cursor_y t - arg_or_1 t))"
    unfolding pos_ok_def using a b(1-4) b(5) n by (auto simp: max_def)
  ultimately show ?thesis using tm_inv_place [OF i] by metis
qed

lemma csi_B_inv:
  assumes i: "tm_inv w t" and n: "cursor_y t + arg_or_1 t < rows w" "cursor_x t < 160"
  shows "tm_inv w (csi_B t)"
proof -
  note b = tm_inv_bounds [OF i] and a = arg_or_1_bounds [of t]
  have g: "screen_w t = 160" "screen_h t = rows w" using i by (simp_all add: tm_inv_def wf_screen_def)
  have "csi_B t = t\<lparr>cursor_x := cursor_x t, cursor_y := cursor_y t + arg_or_1 t, state := St_idle\<rparr>"
    using a b n g by (simp add: csi_B_def Let_def to_s16_id max_def)
  moreover have "pos_ok (rows w) (cursor_x t) (cursor_y t + arg_or_1 t)"
    unfolding pos_ok_def using a b(1-4) b(5) n by (auto simp: max_def)
  ultimately show ?thesis using tm_inv_place [OF i] by metis
qed

lemma csi_C_inv:
  assumes i: "tm_inv w t" and n: "cursor_x t + arg_or_1 t < 160"
  shows "tm_inv w (csi_C t)"
proof -
  note b = tm_inv_bounds [OF i] and a = arg_or_1_bounds [of t]
  have g: "screen_w t = 160" "screen_h t = rows w" using i by (simp_all add: tm_inv_def wf_screen_def)
  have "csi_C t = t\<lparr>cursor_x := cursor_x t + arg_or_1 t, cursor_y := cursor_y t, state := St_idle\<rparr>"
    using a b n g by (simp add: csi_C_def Let_def to_s16_id max_def)
  moreover have "pos_ok (rows w) (cursor_x t + arg_or_1 t) (cursor_y t)"
    unfolding pos_ok_def using a b(1-4) b(5) n by (auto simp: max_def)
  ultimately show ?thesis using tm_inv_place [OF i] by metis
qed

lemma csi_D_inv:
  assumes i: "tm_inv w t" and n: "arg_or_1 t \<le> 32767"
  shows "tm_inv w (csi_D t)"
proof -
  note b = tm_inv_bounds [OF i] and a = arg_or_1_bounds [of t]
  have g: "screen_w t = 160" "screen_h t = rows w" using i by (simp_all add: tm_inv_def wf_screen_def)
  have "csi_D t = t\<lparr>cursor_x := max 0 (cursor_x t - arg_or_1 t), cursor_y := cursor_y t, state := St_idle\<rparr>"
    using a b n g by (simp add: csi_D_def Let_def to_s16_id max_def)
  moreover have "pos_ok (rows w) (max 0 (cursor_x t - arg_or_1 t)) (cursor_y t)"
    unfolding pos_ok_def using a b(1-4) b(5) n by (auto simp: max_def)
  ultimately show ?thesis using tm_inv_place [OF i] by metis
qed

lemma csi_H_inv:
  assumes i: "tm_inv w t"
    and c: "narg t \<ge> 1 \<Longrightarrow> 1 \<le> uint (args t ! 1) \<and> uint (args t ! 1) \<le> 160"
    and r: "narg t = 2 \<Longrightarrow> 1 \<le> uint (args t ! 0) \<and> uint (args t ! 0) \<le> rows w"
  shows "tm_inv w (csi_H t)"
proof -
  define x where "x = (if narg t \<ge> 1 then uint (args t ! 1) - 1 else 0)"
  define y where "y = (if narg t = 2 then uint (args t ! 0) - 1 else 0)"
  have g: "screen_w t = 160" "screen_h t = rows w" "scroll_start_row t = 0" "scroll_end_row t = rows w"
    using i by (simp_all add: tm_inv_def wf_screen_def)
  have b: "0 \<le> x" "x < 160" "0 \<le> y" "y < rows w" "rows w \<le> 64"
    using c r tm_inv_bounds [OF i] by (auto simp: x_def y_def)
  have "csi_H t = t\<lparr>cursor_x := x, cursor_y := y, state := St_idle\<rparr>"
  proof -
    have 1: "(if narg t \<ge> 1 then to_s16 (uint (args t ! 1) - 1) else 0) = x"
      using c by (auto simp: x_def to_s16_id)
    have 2: "(if narg t = 2 then to_s16 (uint (args t ! 0) - 1) else 0) = y"
      using r b(5) by (auto simp: y_def to_s16_id)
    have 3: "to_s16 (y + 0) = y" using b by (simp add: to_s16_id)
    show ?thesis unfolding csi_H_def Let_def 1 2 using b g 3 by simp
  qed
  moreover have "pos_ok (rows w) x y" using b by (simp add: pos_ok_def)
  ultimately show ?thesis using i by (simp add: tm_inv_place)
qed

lemma resetScroll_quiet:
  assumes "con_inv s"
  shows "quiet_ok w s (Inr (vt100_resetScroll s))"
proof -
  have "con_inv (vt100_resetScroll s)"
    using assms by (simp add: con_inv_def vt100_resetScroll_def tm_inv_def wf_screen_def vt_consts)
  moreover have "state (tm (vt100_resetScroll s) w') = state (tm s w')" for w'
    by (simp add: vt100_resetScroll_def)
  ultimately show ?thesis
    by (intro quiet_okI [of _ "vt100_resetScroll s"]) (auto simp: streams_def vt100_resetScroll_def)
qed

lemma csi_J_quiet:
  assumes "con_inv s"
  shows "quiet_ok w s (csi_J w s)"
proof -
  have i: "tm_inv w (tm s w)" by (rule con_inv_tm) fact
  note b = tm_inv_bounds [OF i]
  have h: "screen_h (tm s w) = rows w" using i by (simp add: tm_inv_def wf_screen_def)
  have c: "quiet_ok w s (on_tm w (vt100_clearLines a e) s)"
    if "0 \<le> a" "0 \<le> e" "a \<le> e + 1" "e < rows w" for a e
    using that by (intro quiet_on_tm assms clearLines_ok) auto
  show ?thesis
    unfolding csi_J_def Let_def
    using c [of "cursor_y (tm s w)" "rows w - 1"] c [of 0 "cursor_y (tm s w)"] c [of 0 "rows w - 1"] b h
    by (auto intro!: quiet_ok_bind quiet_goto resetScroll_quiet quiet_refl assms)
qed

lemma csi_K_quiet:
  assumes "con_inv s" "narg (tm s w) = 0 \<or> (narg (tm s w) = 1 \<and> args (tm s w) ! 0 \<le> 2)"
  shows "quiet_ok w s (on_tm w vt100_clearLine s)"
proof -
  have i: "tm_inv w (tm s w)" by (rule con_inv_tm) fact
  then obtain m' where "vt100_clearLine (tm s w) (vram s) = Inr ((tm s w)\<lparr>state := St_idle\<rparr>, m')"
      "framed (base w) (rows w) (vram s) m'"
    using clearLine_ok [OF tm_inv_wf [OF i] assms(2), of "vram s"] by (auto simp: tm_inv_def)
  then show ?thesis
    using con_inv_upd(1) [OF assms(1), of w "(tm s w)\<lparr>state := St_idle\<rparr>" m'] i
    by (intro quiet_okI [of _ "s\<lparr>tm := (tm s)(w := (tm s w)\<lparr>state := St_idle\<rparr>), vram := m'\<rparr>"])
      (auto simp: state_inv streams_def)
qed

lemma csi_P_quiet:
  assumes "con_inv s" "w = Term" "arg_or_1 (tm s w) \<le> 32767"
  shows "quiet_ok w s (csi_P w s)"
  unfolding csi_P_def Let_def
  using assms arg_or_1_bounds [of "tm s w"]
  by (intro quiet_ok_bind quiet_move quiet_putc_n quiet_goto) auto

lemma csi_m_quiet:
  assumes "con_inv s" "narg (tm s w) \<le> 16" "sgr_disjoint (take (narg (tm s w)) (args (tm s w)))"
  shows "quiet_ok w s (upd_res w csi_m s)"
proof -
  obtain t' where "csi_m (tm s w) = Inr t'" "tm_inv w t'"
    using csi_m_ok [OF assms(2,3) con_inv_tm [OF assms(1)]] by auto
  with con_inv_upd(2) [OF assms(1)] show ?thesis
    by (intro quiet_okI [of _ "s\<lparr>tm := (tm s)(w := t')\<rparr>"]) (auto simp: upd_res_def streams_def)
qed

lemma csi_exec_quiet:
  assumes i: "con_inv s" and ok: "csi_ok w arg (tm s w)" and q: "arg \<noteq> 113"
  shows "quiet_ok w s (csi_exec arg w s)"
proof -
  have t: "tm_inv w (tm s w)" by (rule con_inv_tm) fact
  have r: "quiet_ok w s (Inr (csi_r w s))" if "\<not> (narg (tm s w) = 2 \<and> args (tm s w) ! 0 < args (tm s w) ! 1)"
    using that quiet_ok_bind [OF resetScroll_quiet [OF i], of w "\<lambda>s. Inr (goto St_idle w s)"] quiet_goto [of _ w St_idle]
    by (auto simp: csi_r_def Let_def)
  have s: "quiet_ok w s (Inr (upd_tm w (\<lambda>t. t\<lparr>saved_cursor_x := cursor_x t,
      saved_cursor_y := cursor_y t, state := St_idle\<rparr>) s))"
    using t by (intro quiet_upd_tm i) (auto simp: tm_inv_def wf_screen_def)
  have u: "quiet_ok w s (Inr (upd_tm w (\<lambda>t. t\<lparr>cursor_x := saved_cursor_x t,
      cursor_y := saved_cursor_y t, state := St_idle\<rparr>) s))"
    using t by (intro quiet_upd_tm i) (auto simp: tm_inv_def wf_screen_def)
  show ?thesis
    unfolding csi_exec_def
  proof (intro if_rule [of _ "quiet_ok w s"])
    assume "arg = 65"
    with ok show "quiet_ok w s (Inr (upd_tm w csi_A s))"
      by (simp add: csi_ok_def quiet_upd_tm csi_A_inv i t)
  next
    assume "arg = 66"
    with ok show "quiet_ok w s (Inr (upd_tm w csi_B s))"
      by (simp add: csi_ok_def quiet_upd_tm csi_B_inv i t)
  next
    assume "arg = 67"
    with ok show "quiet_ok w s (Inr (upd_tm w csi_C s))"
      by (simp add: csi_ok_def quiet_upd_tm csi_C_inv i t)
  next
    assume "arg = 68"
    with ok show "quiet_ok w s (Inr (upd_tm w csi_D s))"
      by (simp add: csi_ok_def quiet_upd_tm csi_D_inv i t)
  next
    assume "arg = 102 \<or> arg = 72"
    with ok show "quiet_ok w s (Inr (upd_tm w csi_H s))"
      by (intro quiet_upd_tm csi_H_inv i t) (auto simp: csi_ok_def)
  next
    show "quiet_ok w s (csi_J w s)" by (rule csi_J_quiet) fact
  next
    assume "arg = 75"
    with ok show "quiet_ok w s (on_tm w vt100_clearLine s)"
      by (intro csi_K_quiet i) (simp add: csi_ok_def)
  next
    assume "arg = 80"
    with ok show "quiet_ok w s (csi_P w s)"
      by (intro csi_P_quiet i) (auto simp: csi_ok_def)
  next
    show "quiet_ok w s (Inr (upd_tm w (\<lambda>t. t\<lparr>saved_cursor_x := cursor_x t,
      saved_cursor_y := cursor_y t, state := St_idle\<rparr>) s))" by fact
  next
    show "quiet_ok w s (Inr (upd_tm w (\<lambda>t. t\<lparr>cursor_x := saved_cursor_x t,
      cursor_y := saved_cursor_y t, state := St_idle\<rparr>) s))" by fact
  next
    assume "arg = 109"
    with ok show "quiet_ok w s (upd_res w csi_m s)"
      by (intro csi_m_quiet i) (simp_all add: csi_ok_def)
  next
    assume "arg = 114"
    with ok show "quiet_ok w s (Inr (csi_r w s))"
      by (intro r) (simp add: csi_ok_def)
  next
    assume "arg = 113"
    with q show "quiet_ok w s (csi_q w s)" by simp
  qed (rule quiet_goto [OF i])+
qed

section \<open>Messages to the status line\<close>

definition is_msg :: "u8 list \<Rightarrow> bool" where
  "is_msg m \<longleftrightarrow> (\<exists>n\<le>4. m = msg_leds n) \<or>
     (\<exists>b. m = msg_cursor_keys b \<or> m = msg_ansi b \<or> m = msg_columns b \<or> m = msg_inverse b \<or>
          m = msg_keypad b)"

lemma msg_length: "is_msg m \<Longrightarrow> length m < 100"
  by (auto simp: is_msg_def msg_leds_def msg_cursor_keys_def msg_ansi_def msg_columns_def
      msg_inverse_def msg_keypad_def msg_at_def msg_on_def leds_on_def bytes_def)

text \<open>What is waiting in the status stream.\<close>

definition pending :: "console \<Rightarrow> u8 list" where
  "pending s = take (status_stream_ptr s) (status_stream_buffer s)"

text \<open>A handler call that may, in addition, send one message to an empty status stream.\<close>

definition loud_ok :: "which \<Rightarrow> console \<Rightarrow> console res \<Rightarrow> bool" where
  "loud_ok w s r \<longleftrightarrow>
     (\<exists>s'. r = Inr s' \<and> con_inv s' \<and> framed (base w) (rows w) (vram s) (vram s') \<and>
        vt100_stream_buffer s' = vt100_stream_buffer s \<and> vt100_stream_ptr s' = vt100_stream_ptr s \<and>
        status_stream_ptr s' = length (pending s') \<and>
        (pending s' = pending s \<or> is_msg (pending s')) \<and>
        (\<forall>w'. w' \<noteq> w \<longrightarrow> state (tm s' w') = state (tm s w') \<or> state (tm s' w') = St_idle))"

lemma loud_okI:
  assumes "r = Inr s'" "con_inv s'" "framed (base w) (rows w) (vram s) (vram s')"
    "vt100_stream_buffer s' = vt100_stream_buffer s" "vt100_stream_ptr s' = vt100_stream_ptr s"
    "status_stream_ptr s' = length (pending s')" "pending s' = pending s \<or> is_msg (pending s')"
    "\<And>w'. w' \<noteq> w \<Longrightarrow> state (tm s' w') = state (tm s w') \<or> state (tm s' w') = St_idle"
  shows "loud_ok w s r"
  using assms by (auto simp: loud_ok_def)

lemma streams_pending: "streams s' = streams s \<Longrightarrow> pending s' = pending s"
  by (simp add: streams_def pending_def)

lemma quiet_loud:
  assumes "quiet_ok w s r" "status_stream_ptr s = length (pending s)"
  shows "loud_ok w s r"
proof -
  from assms(1) obtain s' where s': "r = Inr s'" "con_inv s'"
    "framed (base w) (rows w) (vram s) (vram s')" "streams s' = streams s"
    "\<And>w'. w' \<noteq> w \<Longrightarrow> state (tm s' w') = state (tm s w') \<or> state (tm s' w') = St_idle"
    by (rule quiet_okE) blast
  show ?thesis
    by (rule loud_okI [OF s'(1-3)])
      (use s' assms(2) streams_pending [OF s'(4)] in \<open>auto simp: streams_def\<close>)
qed

lemma loud_quiet_bind:
  assumes r: "loud_ok w s r"
    and g: "\<And>s'. r = Inr s' \<Longrightarrow> con_inv s' \<Longrightarrow> quiet_ok w s' (g s')"
  shows "loud_ok w s (rbind r g)"
proof -
  from r obtain s1 where 1: "r = Inr s1" "con_inv s1" "framed (base w) (rows w) (vram s) (vram s1)"
    "vt100_stream_buffer s1 = vt100_stream_buffer s" "vt100_stream_ptr s1 = vt100_stream_ptr s"
    "status_stream_ptr s1 = length (pending s1)" "pending s1 = pending s \<or> is_msg (pending s1)"
    "\<And>w'. w' \<noteq> w \<Longrightarrow> state (tm s1 w') = state (tm s w') \<or> state (tm s1 w') = St_idle"
    by (auto simp: loud_ok_def)
  from g [OF 1(1,2)] obtain s2 where 2: "g s1 = Inr s2" "con_inv s2"
    "framed (base w) (rows w) (vram s1) (vram s2)" "streams s2 = streams s1"
    "\<And>w'. w' \<noteq> w \<Longrightarrow> state (tm s2 w') = state (tm s1 w') \<or> state (tm s2 w') = St_idle"
    by (rule quiet_okE) blast
  have p: "pending s2 = pending s1" using 2(4) by (rule streams_pending)
  show ?thesis
  proof (rule loud_okI)
    show "rbind r g = Inr s2" using 1 2 by simp
    show "framed (base w) (rows w) (vram s) (vram s2)" using 1(3) 2(3) by (rule framed_trans)
    show "state (tm s2 w') = state (tm s w') \<or> state (tm s2 w') = St_idle" if "w' \<noteq> w" for w'
      using 1(8) [OF that] 2(5) [OF that] by auto
    show "vt100_stream_buffer s2 = vt100_stream_buffer s" "vt100_stream_ptr s2 = vt100_stream_ptr s"
      using 1 2 by (simp_all add: streams_def)
    show "status_stream_ptr s2 = length (pending s2)"
      using 1(6) 2(4) p by (simp add: streams_def)
    show "pending s2 = pending s \<or> is_msg (pending s2)" using 1(7) p by simp
  qed (use 2 in auto)
qed

lemma quiet_loud_bind:
  assumes r: "quiet_ok w s r"
    and g: "\<And>s'. r = Inr s' \<Longrightarrow> con_inv s' \<Longrightarrow> streams s' = streams s \<Longrightarrow> loud_ok w s' (g s')"
  shows "loud_ok w s (rbind r g)"
proof -
  from r obtain s1 where 1: "r = Inr s1" "con_inv s1" "framed (base w) (rows w) (vram s) (vram s1)"
    "streams s1 = streams s"
    "\<And>w'. w' \<noteq> w \<Longrightarrow> state (tm s1 w') = state (tm s w') \<or> state (tm s1 w') = St_idle"
    by (rule quiet_okE) blast
  from g [OF 1(1,2,4)] obtain s2 where 2: "g s1 = Inr s2" "con_inv s2"
    "framed (base w) (rows w) (vram s1) (vram s2)"
    "vt100_stream_buffer s2 = vt100_stream_buffer s1" "vt100_stream_ptr s2 = vt100_stream_ptr s1"
    "status_stream_ptr s2 = length (pending s2)" "pending s2 = pending s1 \<or> is_msg (pending s2)"
    "\<And>w'. w' \<noteq> w \<Longrightarrow> state (tm s2 w') = state (tm s1 w') \<or> state (tm s2 w') = St_idle"
    by (auto simp: loud_ok_def)
  have p: "pending s1 = pending s" using 1(4) by (rule streams_pending)
  show ?thesis
  proof (rule loud_okI)
    show "rbind r g = Inr s2" using 1 2 by simp
    show "framed (base w) (rows w) (vram s) (vram s2)" using 1(3) 2(3) by (rule framed_trans)
    show "state (tm s2 w') = state (tm s w') \<or> state (tm s2 w') = St_idle" if "w' \<noteq> w" for w'
      using 1(5) [OF that] 2(8) [OF that] by auto
    show "vt100_stream_buffer s2 = vt100_stream_buffer s" "vt100_stream_ptr s2 = vt100_stream_ptr s"
      using 1(4) 2 by (simp_all add: streams_def)
    show "pending s2 = pending s \<or> is_msg (pending s2)" using 2(7) p by simp
  qed (use 2 in auto)
qed

lemma status_printf_loud:
  assumes "con_inv s" "status_stream_ptr s = 0" "is_msg m"
  shows "loud_ok w s (status_printf m s)"
proof -
  let ?b = "status_stream_buffer s"
  let ?s = "s\<lparr>status_stream_buffer := m @ 0 # drop (Suc (length m)) ?b, status_stream_ptr := length m\<rparr>"
  have l: "length ?b = 2048" "length m < 100"
    using assms msg_length by (auto simp: con_inv_def vt_consts)
  then have "status_printf m s = Inr ?s"
    using assms(2) by (simp add: status_printf_def snprintf_at_def Let_def)
  moreover have "con_inv ?s" using assms(1) l by (auto simp: con_inv_def vt_consts)
  moreover have "pending ?s = m" by (simp add: pending_def)
  ultimately show ?thesis using assms(3) by (intro loud_okI [of _ ?s]) auto
qed

section \<open>Every handler\<close>

lemma pending_empty: "status_stream_ptr s = 0 \<Longrightarrow> status_stream_ptr s = length (pending s)"
  by (simp add: pending_def)

lemma csi_q_loud:
  assumes "con_inv s" "status_stream_ptr s = 0"
  shows "loud_ok w s (csi_q w s)"
  unfolding csi_q_def Let_def
proof (intro loud_quiet_bind quiet_goto if_rule [of _ "loud_ok w s"])
  assume "narg (tm s w) = 1 \<and> args (tm s w) ! 0 \<le> 4"
  then have "unat (args (tm s w) ! 0) \<le> 4" by (simp add: word_le_nat_alt)
  then have "is_msg (msg_leds (unat (args (tm s w) ! 0)))" by (auto simp: is_msg_def)
  then show "loud_ok w s (status_printf (msg_leds (unat (args (tm s w) ! 0))) s)"
    by (rule status_printf_loud [OF assms])
qed (use assms in \<open>auto intro: quiet_loud quiet_refl pending_empty\<close>)

lemma csi_exec_loud:
  assumes "con_inv s" "csi_ok w arg (tm s w)" "status_stream_ptr s = 0"
  shows "loud_ok w s (csi_exec arg w s)"
proof (cases "arg = 113")
  case True
  with csi_q_loud [OF assms(1,3)] show ?thesis by (simp add: csi_exec_def)
next
  case False
  with csi_exec_quiet [OF assms(1,2)] assms(3) show ?thesis by (auto intro: quiet_loud pending_empty)
qed

lemma start_arg_quiet:
  assumes "con_inv s" "narg (tm s w) < 16" "st = St_esc_sq_bracket \<or> st = St_esc_question"
  shows "quiet_ok w s (start_arg st arg w s)"
proof -
  have i: "tm_inv w (tm s w)" by (rule con_inv_tm) fact
  let ?t = "(tm s w)\<lparr>ret_state := Some st,
    args := (args (tm s w))[narg (tm s w) := args (tm s w) ! narg (tm s w) * 10 + (arg - 48)],
    state := St_command_arg\<rparr>"
  have "start_arg st arg w s = Inr (upd_tm w (\<lambda>_. ?t) s)"
    using assms(2) by (simp add: start_arg_def upd_res_def command_arg_digit_def vt_consts goto_def
        upd_tm_def)
  moreover have "tm_inv w ?t" using i assms(3) by (auto simp: tm_inv_def wf_screen_def)
  ultimately show ?thesis using quiet_upd_tm [OF assms(1), of w "\<lambda>_. ?t"] by simp
qed

lemma sel_core_removeCursor:
  assumes "con_inv s" "on_tm w vt100_removeCursor s = Inr s'"
  shows "core (tm s' w) = core (tm s w)" "cursor_x (tm s' w) = cursor_x (tm s w)"
    "cursor_y (tm s' w) = cursor_y (tm s w)"
  using assms(2) removeCursor_eq [OF tm_inv_wf [OF con_inv_tm [OF assms(1)]]]
  by (auto simp: on_tm_Inr_iff)

lemma csi_ok_cong:
  assumes "core t' = core t" "cursor_x t' = cursor_x t" "cursor_y t' = cursor_y t"
  shows "csi_ok w arg t' = csi_ok w arg t"
  using core_sel [OF assms(1)] assms(2,3) by (simp add: csi_ok_def arg_or_1_def)

lemma st_esc_sq_bracket_loud:
  assumes i: "con_inv s" and p: "status_stream_ptr s = 0"
    and d: "isdigit arg \<Longrightarrow> narg (tm s w) < 16"
    and c: "\<not> isdigit arg \<Longrightarrow> arg \<noteq> 59 \<Longrightarrow> csi_ok w arg (tm s w)"
  shows "loud_ok w s (st_esc_sq_bracket EV_CHAR arg w s)"
  unfolding st_esc_sq_bracket_def
proof (simp only: simp_thms if_True, intro if_rule [of _ "loud_ok w s"])
  assume "isdigit arg"
  with d show "loud_ok w s (start_arg St_esc_sq_bracket arg w s)"
    by (intro quiet_loud start_arg_quiet i pending_empty p) auto
next
  show "loud_ok w s (Inr s)" by (intro quiet_loud quiet_refl i pending_empty p)
next
  assume "\<not> isdigit arg" "arg \<noteq> 59"
  with c have c: "csi_ok w arg (tm s w)" by simp
  show "loud_ok w s (rbind (on_tm w vt100_removeCursor s)
      (\<lambda>s1. rbind (csi_exec arg w s1) (on_tm w vt100_drawCursor)))"
  proof (rule quiet_loud_bind [OF quiet_removeCursor [OF i]])
    fix s1 assume 1: "on_tm w vt100_removeCursor s = Inr s1" "con_inv s1" "streams s1 = streams s"
    have "csi_ok w arg (tm s1 w)"
      using c csi_ok_cong [OF sel_core_removeCursor [OF i 1(1)]] by simp
    then show "loud_ok w s1 (rbind (csi_exec arg w s1) (on_tm w vt100_drawCursor))"
      using 1 p by (intro loud_quiet_bind csi_exec_loud quiet_drawCursor) (auto simp: streams_def)
  qed
qed

lemma dec_mode_loud:
  assumes i: "con_inv s" and p: "status_stream_ptr s = 0"
  shows "loud_ok w s (dec_mode on w s)"
proof -
  have t: "tm_inv w (tm s w)" by (rule con_inv_tm) fact
  have m: "loud_ok w s (status_printf m s)" if "is_msg m" for m
    by (rule status_printf_loud [OF i p that])
  have "is_msg (msg_cursor_keys on)" "is_msg (msg_ansi on)" "is_msg (msg_columns on)"
    "is_msg (msg_inverse on)" by (auto simp: is_msg_def)
  then show ?thesis
    unfolding dec_mode_def Let_def
    by (intro if_rule [of _ "loud_ok w s"] m quiet_loud pending_empty p quiet_refl i quiet_upd_tm)
      (use t in \<open>auto simp: tm_inv_def wf_screen_def\<close>)
qed

lemma st_esc_question_loud:
  assumes i: "con_inv s" and p: "status_stream_ptr s = 0"
    and d: "isdigit arg \<Longrightarrow> narg (tm s w) < 16"
  shows "loud_ok w s (st_esc_question EV_CHAR arg w s)"
  unfolding st_esc_question_def
proof (simp only: simp_thms if_True, intro if_rule [of _ "loud_ok w s"])
  assume "isdigit arg"
  with d show "loud_ok w s (start_arg St_esc_question arg w s)"
    by (intro quiet_loud start_arg_quiet i pending_empty p) auto
next
  show "loud_ok w s (Inr s)" by (intro quiet_loud quiet_refl i pending_empty p)
next
  show "loud_ok w s (rbind (if arg = 108 \<or> arg = 104 then dec_mode (arg = 104) w s else Inr s)
      (\<lambda>s'. Inr (goto St_idle w s')))"
    using i p by (intro loud_quiet_bind quiet_goto if_rule [of _ "loud_ok w s"] dec_mode_loud)
      (auto intro: quiet_loud quiet_refl pending_empty)
qed

lemma reset_inv:
  assumes "con_inv s"
  shows "quiet_ok w s (Inr (vt100_reset s))"
proof -
  have "con_inv (vt100_reset s)"
    using assms
    by (simp add: con_inv_def vt100_reset_def tm_inv_def wf_screen_def reset_term_def
        reset_status_def vt_consts pos_ok_def)
  moreover have "state (tm (vt100_reset s) w') = St_idle" for w'
    by (cases w') (simp_all add: vt100_reset_def reset_term_def reset_status_def)
  ultimately show ?thesis
    by (intro quiet_okI [of _ "vt100_reset s"]) (auto simp: streams_def vt100_reset_def)
qed

lemma esc_exec_loud:
  assumes i: "con_inv s" and p: "status_stream_ptr s = 0"
  shows "loud_ok w s (esc_exec arg w s)"
proof -
  have t: "tm_inv w (tm s w)" by (rule con_inv_tm) fact
  note b = tm_inv_bounds [OF t]
  have q: "loud_ok w s r" if "quiet_ok w s r" for r
    using that p by (intro quiet_loud pending_empty)
  have upd: "quiet_ok w s (Inr (goto st w (upd_tm w f s)))" if "tm_inv w (f (tm s w))" for f st
    using quiet_upd_tm [OF i, of w "\<lambda>t. (f t)\<lparr>state := st\<rparr>"] that
    by (simp add: state_inv goto_def upd_tm_def)
  have c: "tm_inv w (CLEAR_ARGS (tm s w))"
    using t by (simp add: CLEAR_ARGS_def tm_inv_def wf_screen_def vt_consts)
  have mv: "quiet_ok w s (rbind (on_tm w (vt100_move 0 dy) s) (\<lambda>s'. Inr (goto St_idle w s')))"
    if "dy = 1 \<or> dy = - 1" for dy
    using that b by (intro quiet_ok_bind quiet_move i quiet_goto) auto
  have nl: "quiet_ok w s (rbind (on_tm w (vt100_move 0 1) s)
      (\<lambda>s'. Inr (goto St_idle w (upd_tm w (\<lambda>t. t\<lparr>cursor_x := 0\<rparr>) s'))))"
  proof (rule quiet_ok_bind)
    show "quiet_ok w s (on_tm w (vt100_move 0 1) s)" using b by (intro quiet_move i) auto
    fix s' assume "con_inv s'"
    then have "quiet_ok w s' (Inr (upd_tm w (\<lambda>t. (t\<lparr>cursor_x := 0\<rparr>)\<lparr>state := St_idle\<rparr>) s'))"
      by (intro quiet_upd_tm) (simp_all add: state_inv col0_inv con_inv_tm)
    then show "quiet_ok w s' (Inr (goto St_idle w (upd_tm w (\<lambda>t. t\<lparr>cursor_x := 0\<rparr>) s')))"
      by (simp add: goto_def upd_tm_def)
  qed
  have pr: "loud_ok w s (rbind (status_printf m s) (\<lambda>s'. Inr (goto St_idle w s')))" if "is_msg m" for m
    using that by (intro loud_quiet_bind status_printf_loud quiet_goto i p)
  have rs: "quiet_ok w s (Inr (goto St_idle w (vt100_reset s)))"
    using quiet_ok_bind [OF reset_inv [OF i], of w "\<lambda>s. Inr (goto St_idle w s)"]
    by (simp add: quiet_goto)
  have m: "is_msg (msg_keypad False)" "is_msg (msg_keypad True)" "is_msg (msg_ansi True)"
    by (auto simp: is_msg_def)
  show ?thesis
    unfolding esc_exec_def
    by (intro if_rule [of _ "loud_ok w s"] pr m q mv nl rs upd c save_inv restore_inv t
        quiet_goto i quiet_refl) simp_all
qed

lemma st_escape_loud:
  assumes i: "con_inv s" and p: "status_stream_ptr s = 0"
  shows "loud_ok w s (st_escape EV_CHAR arg w s)"
  unfolding st_escape_def simp_thms if_True
proof (rule quiet_loud_bind [OF quiet_removeCursor [OF i]])
  fix s1 assume "con_inv s1" "streams s1 = streams s"
  then show "loud_ok w s1 (rbind (esc_exec arg w s1) (on_tm w vt100_drawCursor))"
    using p by (intro loud_quiet_bind esc_exec_loud quiet_drawCursor) (auto simp: streams_def)
qed

text \<open>
  The guard on a byte: what the sender has to respect in the state the byte arrives in. It
  only constrains how many arguments a sequence has and the commands of \<open>csi_ok\<close>.
\<close>

definition ret_ok :: "vstate \<Rightarrow> which \<Rightarrow> u16 \<Rightarrow> vt100_t \<Rightarrow> bool" where
  "ret_ok st w arg t =
     (case st of
        St_idle \<Rightarrow> w = Term \<or> (arg \<noteq> 8 \<and> arg \<noteq> 127)
      | St_esc_sq_bracket \<Rightarrow>
          (if isdigit arg then narg t < 16 else arg \<noteq> 59 \<longrightarrow> csi_ok w arg t)
      | St_esc_question \<Rightarrow> (isdigit arg \<longrightarrow> narg t < 16)
      | _ \<Rightarrow> True)"

lemma ret_ok_state [simp]: "ret_ok st w arg (t\<lparr>state := x\<rparr>) = ret_ok st w arg t"
  by (cases st) (simp_all add: ret_ok_def csi_ok_def arg_or_1_def)

definition byte_ok :: "which \<Rightarrow> vt100_t \<Rightarrow> u8 \<Rightarrow> bool" where
  "byte_ok w t c =
     (let arg = ucast c in
      if state t = St_command_arg then
        (if isdigit arg then narg t < 16
         else arg = 59 \<or> ret_ok (ret_or_idle t) w arg (t\<lparr>narg := (narg t + 1) mod 256\<rparr>))
      else ret_ok (state t) w arg t)"

lemma call_ret_loud:
  assumes i: "con_inv s" and p: "status_stream_ptr s = 0"
    and ok: "ret_ok st w arg (tm s w)" and st: "st \<noteq> St_command_arg"
  shows "loud_ok w s (call_ret st EV_CHAR arg w s)"
proof (cases st)
  case St_idle
  with ok have "quiet_ok w s (st_idle EV_CHAR arg w s)"
    by (intro quiet_st_idle i) (simp add: ret_ok_def)
  with St_idle show ?thesis using quiet_loud [OF _ pending_empty [OF p]] by (simp add: call_ret_def)
next
  case St_esc_sq_bracket
  with ok show ?thesis
    by (auto simp: call_ret_def ret_ok_def intro!: st_esc_sq_bracket_loud i p)
next
  case St_esc_question
  with ok show ?thesis
    by (auto simp: call_ret_def ret_ok_def intro!: st_esc_question_loud i p)
next
  case St_escape
  then show ?thesis using st_escape_loud [OF i p] by (simp add: call_ret_def)
qed (use st p in \<open>auto simp: call_ret_def st_esc_hash_def st_esc_left_br_def st_esc_right_br_def
        intro!: quiet_loud quiet_goto i pending_empty\<close>)

lemma call_state_loud:
  assumes i: "con_inv s" and p: "status_stream_ptr s = 0" and ok: "byte_ok w (tm s w) c"
  shows "loud_ok w s (call_state EV_CHAR (ucast c) w s)"
proof (cases "state (tm s w) = St_command_arg")
  case False
  with ok have "ret_ok (state (tm s w)) w (ucast c) (tm s w)" by (simp add: byte_ok_def Let_def)
  from call_ret_loud [OF i p this] False show ?thesis by (simp add: call_state_def)
next
  case True
  define arg where "arg = (ucast c :: u16)"
  let ?t = "tm s w"
  let ?n = "\<lambda>t. t\<lparr>narg := (narg t + 1) mod 256\<rparr>"
  have t: "tm_inv w ?t" by (rule con_inv_tm) fact
  have ok': "if isdigit arg then narg ?t < 16
      else arg = 59 \<or> ret_ok (ret_or_idle ?t) w arg (?n ?t)"
    using ok unfolding byte_ok_def Let_def arg_def if_P [OF True] .
  have q: "loud_ok w s r" if "quiet_ok w s r" for r
    using that p by (intro quiet_loud pending_empty)
  have dig: "loud_ok w s (upd_res w (command_arg_digit arg) s)" if "narg ?t < 16"
  proof -
    have "upd_res w (command_arg_digit arg) s = Inr (upd_tm w (\<lambda>t. t\<lparr>args :=
        (args t)[narg t := args t ! narg t * 10 + (arg - 48)]\<rparr>) s)"
      using that by (simp add: upd_res_def command_arg_digit_def vt_consts upd_tm_def)
    then show ?thesis
      using t by (auto intro!: q quiet_upd_tm i simp: tm_inv_def wf_screen_def)
  qed
  have nx: "tm_inv w (?n ?t)" using t by (simp add: tm_inv_def wf_screen_def)
  have sep: "loud_ok w s (Inr (upd_tm w ?n s))" by (intro q quiet_upd_tm i nx)
  let ?g = "\<lambda>t. (?n t)\<lparr>state := ret_or_idle t\<rparr>"
  have ret: "loud_ok w s (call_ret (ret_or_idle ?t) EV_CHAR arg w (upd_tm w ?g s))"
    if "ret_ok (ret_or_idle ?t) w arg (?n ?t)"
  proof -
    let ?s = "upd_tm w ?g s"
    have nc: "ret_or_idle ?t \<noteq> St_command_arg"
      using t by (auto simp: ret_or_idle_def tm_inv_def)
    have qs: "quiet_ok w s (Inr ?s)"
      using nx by (intro quiet_upd_tm i) (simp add: state_inv)
    have "ret_ok (ret_or_idle ?t) w arg (tm ?s w)"
      using that by simp
    then have "loud_ok w ?s (call_ret (ret_or_idle ?t) EV_CHAR arg w ?s)"
      using qs p nc by (intro call_ret_loud) (auto simp: quiet_ok_def)
    then show ?thesis using quiet_loud_bind [OF qs, of "call_ret (ret_or_idle ?t) EV_CHAR arg w"] by simp
  qed
  have eq: "call_state EV_CHAR arg w s =
     (if isdigit arg then upd_res w (command_arg_digit arg) s
      else if arg = 59 then Inr (upd_tm w ?n s)
      else call_ret (ret_or_idle ?t) EV_CHAR arg w (upd_tm w ?g s))"
    using True by (simp add: call_state_def st_command_arg_def Let_def upd_tm_def ret_or_idle_def)
  show ?thesis
    unfolding arg_def [symmetric] eq
    using ok' dig ret sep by (cases "isdigit arg"; cases "arg = 59") (simp_all del: One_nat_def)
qed

section \<open>The control state on the firmware's own messages\<close>

text \<open>
  The part of a terminal that steers the parser, and a pure automaton for the sequences that
  the status messages are made of: text, carriage return, \<open>ESC [ row ; column H\<close> and
  \<open>ESC [ n m\<close>. The terminal follows the automaton and never leaves its invariant, so a message
  is checked by running the automaton on it.
\<close>

type_synonym ctl = "vstate \<times> vstate option \<times> nat \<times> u16 list"

definition ctl_of :: "vt100_t \<Rightarrow> ctl" where
  "ctl_of t = (state t, ret_state t, narg t, args t)"

definition ctl_ok :: "which \<Rightarrow> console \<Rightarrow> console res \<Rightarrow> ctl \<Rightarrow> bool" where
  "ctl_ok w s r c \<longleftrightarrow>
     (\<exists>s'. r = Inr s' \<and> con_inv s' \<and> framed (base w) (rows w) (vram s) (vram s') \<and>
        streams s' = streams s \<and> (\<forall>w'. w' \<noteq> w \<longrightarrow> tm s' w' = tm s w') \<and> ctl_of (tm s' w) = c)"

lemma ctl_okI:
  assumes "r = Inr s'" "con_inv s'" "framed (base w) (rows w) (vram s) (vram s')"
    "streams s' = streams s" "\<And>w'. w' \<noteq> w \<Longrightarrow> tm s' w' = tm s w'" "ctl_of (tm s' w) = c"
  shows "ctl_ok w s r c"
  using assms by (auto simp: ctl_ok_def)

lemma ctl_ok_bind:
  assumes "ctl_ok w s r c"
    and g: "\<And>s'. r = Inr s' \<Longrightarrow> con_inv s' \<Longrightarrow> streams s' = streams s \<Longrightarrow> ctl_of (tm s' w) = c \<Longrightarrow>
      ctl_ok w s' (g s') c'"
  shows "ctl_ok w s (rbind r g) c'"
proof -
  from assms(1) obtain s1 where 1: "r = Inr s1" "con_inv s1"
    "framed (base w) (rows w) (vram s) (vram s1)" "streams s1 = streams s"
    "\<And>w'. w' \<noteq> w \<Longrightarrow> tm s1 w' = tm s w'" "ctl_of (tm s1 w) = c"
    by (auto simp: ctl_ok_def)
  from g [OF 1(1,2,4,6)] obtain s2 where 2: "g s1 = Inr s2" "con_inv s2"
    "framed (base w) (rows w) (vram s1) (vram s2)" "streams s2 = streams s1"
    "\<And>w'. w' \<noteq> w \<Longrightarrow> tm s2 w' = tm s1 w'" "ctl_of (tm s2 w) = c'"
    by (auto simp: ctl_ok_def)
  show ?thesis
    by (rule ctl_okI [of _ s2]) (use 1 2 in \<open>auto intro: framed_trans\<close>)
qed

lemma ctl_on_tm:
  assumes "con_inv s"
    and f: "wf_screen (rows w) (tm s w) \<Longrightarrow> screen_ok (rows w) (tm s w) (vram s) (f (tm s w) (vram s))"
  shows "ctl_ok w s (on_tm w f s) (ctl_of (tm s w))"
proof -
  have i: "tm_inv w (tm s w)" by (rule con_inv_tm) fact
  with f have "screen_ok (rows w) (tm s w) (vram s) (f (tm s w) (vram s))" by (simp add: tm_inv_def)
  then obtain t' m' where r: "f (tm s w) (vram s) = Inr (t', m')" "wf_screen (rows w) t'"
      "core t' = core (tm s w)" "framed (base w) (rows w) (vram s) m'"
    using i by (auto simp: screen_ok_def tm_inv_def)
  have "tm_inv w t'" using i r(2,3) by (rule tm_inv_core)
  with con_inv_upd(1) [OF assms(1)] r core_sel [OF r(3)] show ?thesis
    by (intro ctl_okI [of _ "s\<lparr>tm := (tm s)(w := t'), vram := m'\<rparr>"])
      (auto simp: streams_def ctl_of_def)
qed

lemma ctl_upd_tm:
  assumes "con_inv s" "tm_inv w (f (tm s w))"
  shows "ctl_ok w s (Inr (upd_tm w f s)) (ctl_of (f (tm s w)))"
  using con_inv_upd [OF assms]
  by (intro ctl_okI [of _ "upd_tm w f s"]) (simp_all add: upd_tm_def streams_def)

lemma ctl_removeCursor: "con_inv s \<Longrightarrow> ctl_of (tm s w) = c \<Longrightarrow> ctl_ok w s (on_tm w vt100_removeCursor s) c"
  using ctl_on_tm [of s w vt100_removeCursor] removeCursor_ok by auto

lemma ctl_drawCursor: "con_inv s \<Longrightarrow> ctl_of (tm s w) = c \<Longrightarrow> ctl_ok w s (on_tm w vt100_drawCursor s) c"
  using ctl_on_tm [of s w vt100_drawCursor] drawCursor_ok by auto

definition pos_args :: "which \<Rightarrow> nat \<Rightarrow> u16 list \<Rightarrow> bool" where
  "pos_args w n as \<longleftrightarrow> n = 2 \<and> 1 \<le> uint (as ! 0) \<and> uint (as ! 0) \<le> rows w \<and>
     1 \<le> uint (as ! 1) \<and> uint (as ! 1) \<le> 160"

fun ctl_step :: "which \<Rightarrow> ctl \<Rightarrow> u16 \<Rightarrow> ctl option" where
  "ctl_step w (St_idle, r, n, as) a =
     (if a = 27 then Some (St_escape, r, n, as)
      else if a = 13 \<or> (32 \<le> a \<and> a \<noteq> 127) then Some (St_idle, r, n, as) else None)"
| "ctl_step w (St_escape, r, n, as) a =
     (if a = 91 then Some (St_esc_sq_bracket, r, 0, replicate 16 0) else None)"
| "ctl_step w (St_esc_sq_bracket, r, n, as) a =
     (if isdigit a \<and> n < 16
      then Some (St_command_arg, Some St_esc_sq_bracket, n, as[n := as ! n * 10 + (a - 48)])
      else if a = 109 \<and> n = 0 then Some (St_idle, r, 0, as)
      else None)"
| "ctl_step w (St_command_arg, r, n, as) a =
     (if isdigit a \<and> n < 16 then Some (St_command_arg, r, n, as[n := as ! n * 10 + (a - 48)])
      else if a = 59 \<and> n < 16 then Some (St_command_arg, r, n + 1, as)
      else if r = Some St_esc_sq_bracket \<and> a = 72 \<and> pos_args w (n + 1) as
      then Some (St_idle, r, n + 1, as)
      else if r = Some St_esc_sq_bracket \<and> a = 109 \<and> n = 0 then Some (St_idle, r, 0, as)
      else None)"
| "ctl_step w c a = None"

fun ctl_run :: "which \<Rightarrow> ctl \<Rightarrow> u8 list \<Rightarrow> ctl option" where
  "ctl_run w c [] = Some c"
| "ctl_run w c (b # bs) = (case ctl_step w c (ucast b) of None \<Rightarrow> None | Some c' \<Rightarrow> ctl_run w c' bs)"

lemma ctl_idle_exec:
  assumes "con_inv s" "ctl_of (tm s w) = (St_idle, r, n, as)"
    and "ctl_step w (St_idle, r, n, as) a = Some c"
  shows "ctl_ok w s (idle_exec a w s) c"
proof -
  have t: "tm_inv w (tm s w)" by (rule con_inv_tm) fact
  have g: "ctl_ok w s (Inr (goto St_escape w s)) (St_escape, r, n, as)"
    using ctl_upd_tm [OF assms(1), of w "\<lambda>t. t\<lparr>state := St_escape\<rparr>"] t assms(2)
    by (simp add: goto_def state_inv ctl_of_def)
  have cr: "ctl_ok w s (Inr (upd_tm w (\<lambda>t. t\<lparr>cursor_x := 0\<rparr>) s)) (St_idle, r, n, as)"
    using ctl_upd_tm [OF assms(1), of w "\<lambda>t. t\<lparr>cursor_x := 0\<rparr>"] t assms(2)
    by (simp add: col0_inv ctl_of_def)
  have pc: "ctl_ok w s (on_tm w (term_putc c) s) (St_idle, r, n, as)" for c
    using ctl_on_tm [OF assms(1), of w "term_putc c"] term_putc_ok assms(2) by metis
  have ne: "a \<noteq> 5" "a \<noteq> 10" "a \<noteq> 8" "a \<noteq> 9" "a \<noteq> 7" if "32 \<le> a"
    using that by auto
  show ?thesis
    using g cr pc ne assms(3) by (auto simp: idle_exec_def split: if_splits)
qed

lemma ctl_csi_m:
  assumes "con_inv s" "ctl_of (tm s w) = (st, r, n, as)" "n \<le> 1"
  shows "ctl_ok w s (upd_res w csi_m s) (St_idle, r, 0, as)"
proof -
  have t: "tm_inv w (tm s w)" by (rule con_inv_tm) fact
  have f: "narg (tm s w) = n" "args (tm s w) = as" "ret_state (tm s w) = r"
    using assms(2) by (simp_all add: ctl_of_def)
  have l: "length as = 16" using t f by (simp add: tm_inv_def)
  obtain t' where t': "csi_m (tm s w) = Inr t'" "tm_inv w t'" "state t' = St_idle"
    using csi_m_ok [of "tm s w" w] t f assms(3) by auto
  have "narg t' = 0 \<and> args t' = as \<and> ret_state t' = r"
  proof (cases "n = 0")
    case True
    with f t'(1) show ?thesis
      by (auto simp: csi_m_def Let_def sgr_loop.simps)
  next
    case False
    with assms(3) have n: "n = 1" by simp
    let ?t1 = "sgr_one (as ! 0) ((tm s w)\<lparr>narg := 0\<rparr>)"
    have "sgr_step (tm s w) = Inr ?t1" using n f l by (simp add: sgr_step_def)
    then have "sgr_loop (tm s w) = Inr ?t1"
      using n f by (simp add: sgr_loop.simps [of "tm s w"]) (simp add: sgr_loop.simps)
    moreover have "ret_state ?t1 = r" using f by (simp add: sgr_one_def Let_def)
    ultimately show ?thesis using n f t'(1) by (auto simp: csi_m_def)
  qed
  with t' con_inv_upd(2) [OF assms(1) t'(2)] show ?thesis
    by (intro ctl_okI [of _ "s\<lparr>tm := (tm s)(w := t')\<rparr>"])
      (auto simp: upd_res_def streams_def ctl_of_def)
qed

lemma ctl_csi_H:
  assumes "con_inv s" "ctl_of (tm s w) = (st, r, n, as)" "pos_args w n as"
  shows "ctl_ok w s (Inr (upd_tm w csi_H s)) (St_idle, r, n, as)"
proof -
  have t: "tm_inv w (tm s w)" by (rule con_inv_tm) fact
  have f: "narg (tm s w) = n" "args (tm s w) = as" "ret_state (tm s w) = r"
    using assms(2) by (simp_all add: ctl_of_def)
  have "tm_inv w (csi_H (tm s w))"
    using t assms(3) f by (intro csi_H_inv) (auto simp: pos_args_def)
  from ctl_upd_tm [of s w csi_H, OF assms(1) this] f show ?thesis
    by (simp add: ctl_of_def csi_H_def Let_def)
qed

text \<open>The commands that the automaton knows, between the two cursor routines.\<close>

lemma ctl_sq_final:
  assumes i: "con_inv s" and c: "ctl_of (tm s w) = (st, r, n, as)"
    and a: "(a = 72 \<and> pos_args w n as \<and> n' = n) \<or> (a = 109 \<and> n \<le> 1 \<and> n' = 0)"
  shows "ctl_ok w s (st_esc_sq_bracket EV_CHAR a w s) (St_idle, r, n', as)"
proof -
  have nd: "\<not> isdigit a" "a \<noteq> 59" using a by (auto simp: isdigit_def)
  have ex: "ctl_ok w s1 (csi_exec a w s1) (St_idle, r, n', as)"
    if "con_inv s1" "ctl_of (tm s1 w) = (st, r, n, as)" for s1
    using a ctl_csi_H [OF that] ctl_csi_m [OF that] by (auto simp: csi_exec_def)
  have "ctl_ok w s (rbind (on_tm w vt100_removeCursor s)
      (\<lambda>s1. rbind (csi_exec a w s1) (on_tm w vt100_drawCursor))) (St_idle, r, n', as)"
    by (intro ctl_ok_bind [OF ctl_removeCursor [OF i c]] ctl_ok_bind [OF ex] ctl_drawCursor)
  with nd show ?thesis by (simp add: st_esc_sq_bracket_def)
qed

lemma ctl_start_arg:
  assumes "con_inv s" "ctl_of (tm s w) = (st, r, n, as)" "n < 16"
  shows "ctl_ok w s (start_arg St_esc_sq_bracket a w s)
    (St_command_arg, Some St_esc_sq_bracket, n, as[n := as ! n * 10 + (a - 48)])"
proof -
  have t: "tm_inv w (tm s w)" by (rule con_inv_tm) fact
  have f: "narg (tm s w) = n" "args (tm s w) = as" using assms(2) by (simp_all add: ctl_of_def)
  let ?f = "\<lambda>t. t\<lparr>ret_state := Some St_esc_sq_bracket,
    args := as[n := as ! n * 10 + (a - 48)], state := St_command_arg\<rparr>"
  have "start_arg St_esc_sq_bracket a w s = Inr (upd_tm w ?f s)"
    using f assms(3)
    by (simp add: start_arg_def upd_res_def command_arg_digit_def vt_consts goto_def upd_tm_def)
  moreover have "tm_inv w (?f (tm s w))" using t f by (auto simp: tm_inv_def wf_screen_def)
  ultimately show ?thesis
    using ctl_upd_tm [of s w ?f, OF assms(1)] f by (simp add: ctl_of_def)
qed

lemma ctl_arg_digit:
  assumes "con_inv s" "ctl_of (tm s w) = (st, r, n, as)" "n < 16"
  shows "ctl_ok w s (upd_res w (command_arg_digit a) s) (st, r, n, as[n := as ! n * 10 + (a - 48)])"
proof -
  have t: "tm_inv w (tm s w)" by (rule con_inv_tm) fact
  have f: "narg (tm s w) = n" "args (tm s w) = as" using assms(2) by (simp_all add: ctl_of_def)
  let ?f = "\<lambda>t. t\<lparr>args := as[n := as ! n * 10 + (a - 48)]\<rparr>"
  have "upd_res w (command_arg_digit a) s = Inr (upd_tm w ?f s)"
    using f assms(3) by (simp add: upd_res_def command_arg_digit_def vt_consts upd_tm_def)
  moreover have "tm_inv w (?f (tm s w))" using t f by (auto simp: tm_inv_def wf_screen_def)
  ultimately show ?thesis
    using ctl_upd_tm [of s w ?f, OF assms(1)] assms(2) by (simp add: ctl_of_def)
qed

lemma ctl_command_arg:
  assumes i: "con_inv s" and c: "ctl_of (tm s w) = (St_command_arg, r, n, as)"
    and st: "ctl_step w (St_command_arg, r, n, as) a = Some c'"
  shows "ctl_ok w s (st_command_arg EV_CHAR a w s) c'"
proof -
  have t: "tm_inv w (tm s w)" by (rule con_inv_tm) fact
  have f: "narg (tm s w) = n" "args (tm s w) = as" "ret_state (tm s w) = r" "state (tm s w) = St_command_arg"
    using c by (simp_all add: ctl_of_def)
  show ?thesis
  proof (cases "isdigit a")
    case True
    with st ctl_arg_digit [OF i c] show ?thesis
      by (auto simp: st_command_arg_def split: if_splits) (auto simp: isdigit_def)
  next
    case False
    have l: "n < 16" using st False by (auto simp: pos_args_def split: if_splits)
    let ?n = "\<lambda>t. t\<lparr>narg := (narg t + 1) mod 256\<rparr>"
    have sep: "ctl_ok w s (Inr (upd_tm w ?n s)) (St_command_arg, r, n + 1, as)"
      using ctl_upd_tm [of s w ?n, OF i] t f l by (simp add: ctl_of_def tm_inv_def wf_screen_def)
    let ?g = "\<lambda>t. (?n t)\<lparr>state := ret_or_idle t\<rparr>"
    let ?s = "upd_tm w ?g s"
    have fin: "ctl_ok w s (st_esc_sq_bracket EV_CHAR a w ?s) (St_idle, r, n', as)"
      if "r = Some St_esc_sq_bracket"
        "(a = 72 \<and> pos_args w (n + 1) as \<and> n' = n + 1) \<or> (a = 109 \<and> n + 1 \<le> 1 \<and> n' = 0)" for n'
    proof -
      have q: "ctl_ok w s (Inr ?s) (St_esc_sq_bracket, r, n + 1, as)"
        using ctl_upd_tm [of s w ?g, OF i] t f l that
        by (simp add: ctl_of_def tm_inv_def wf_screen_def ret_or_idle_def)
      then have "con_inv ?s" "ctl_of (tm ?s w) = (St_esc_sq_bracket, r, n + 1, as)"
        by (auto simp: ctl_ok_def)
      from ctl_sq_final [OF this that(2)] ctl_ok_bind [OF q, of "st_esc_sq_bracket EV_CHAR a w"]
      show ?thesis by simp
    qed
    have call: "st_command_arg EV_CHAR a w s = st_esc_sq_bracket EV_CHAR a w ?s"
      if "r = Some St_esc_sq_bracket" "a \<noteq> 59"
      using that f False
      by (simp add: st_command_arg_def Let_def upd_tm_def ret_or_idle_def call_ret_def)
    show ?thesis
    proof (cases "a = 59")
      case True
      with st False sep l show ?thesis by (simp add: st_command_arg_def Let_def)
    next
      case a: False
      with st False have "r = Some St_esc_sq_bracket"
        "\<exists>n'. c' = (St_idle, r, n', as) \<and>
          ((a = 72 \<and> pos_args w (n + 1) as \<and> n' = n + 1) \<or> (a = 109 \<and> n + 1 \<le> 1 \<and> n' = 0))"
        by (auto split: if_splits)
      with fin call a show ?thesis by auto
    qed
  qed
qed

lemma ctl_call_state:
  assumes i: "con_inv s" and c: "ctl_of (tm s w) = c" and st: "ctl_step w c a = Some c'"
  shows "ctl_ok w s (call_state EV_CHAR a w s) c'"
proof -
  have t: "tm_inv w (tm s w)" by (rule con_inv_tm) fact
  obtain stt r n as where cc: "c = (stt, r, n, as)" by (metis prod_cases4)
  note c' = c [unfolded cc]
  then have s0: "state (tm s w) = stt" by (simp add: ctl_of_def)
  show ?thesis
  proof (cases stt)
    case St_idle
    note d = c' [unfolded St_idle] and e = st [unfolded cc St_idle]
    have "ctl_ok w s (rbind (on_tm w vt100_removeCursor s)
        (\<lambda>s1. rbind (idle_exec a w s1) (on_tm w vt100_drawCursor))) c'"
      by (rule ctl_ok_bind [OF ctl_removeCursor [OF i d]],
          rule ctl_ok_bind [OF ctl_idle_exec [OF _ _ e]], assumption, assumption,
          rule ctl_drawCursor)
    with s0 St_idle show ?thesis by (simp add: call_state_def call_ret_def st_idle_def)
  next
    case St_escape
    note d = c' [unfolded St_escape]
    have a: "a = 91" "c' = (St_esc_sq_bracket, r, 0, replicate 16 0)"
      using st cc St_escape by (auto split: if_splits)
    have ex: "ctl_ok w s1 (esc_exec a w s1) c'" if "con_inv s1" "ctl_of (tm s1 w) = (St_escape, r, n, as)" for s1
    proof -
      let ?f = "\<lambda>t. (CLEAR_ARGS t)\<lparr>state := St_esc_sq_bracket\<rparr>"
      have "tm_inv w (?f (tm s1 w))"
        using con_inv_tm [OF that(1), of w] by (simp add: CLEAR_ARGS_def tm_inv_def wf_screen_def vt_consts)
      from ctl_upd_tm [of s1 w ?f, OF that(1) this] that(2) a show ?thesis
        by (simp add: esc_exec_def goto_def upd_tm_def ctl_of_def CLEAR_ARGS_def vt_consts)
    qed
    have "ctl_ok w s (rbind (on_tm w vt100_removeCursor s)
        (\<lambda>s1. rbind (esc_exec a w s1) (on_tm w vt100_drawCursor))) c'"
      by (rule ctl_ok_bind [OF ctl_removeCursor [OF i d]],
          rule ctl_ok_bind [OF ex], assumption, assumption, rule ctl_drawCursor)
    with s0 St_escape show ?thesis by (simp add: call_state_def call_ret_def st_escape_def)
  next
    case St_esc_sq_bracket
    have "ctl_ok w s (st_esc_sq_bracket EV_CHAR a w s) c'"
    proof (cases "isdigit a")
      case True
      with st cc St_esc_sq_bracket ctl_start_arg [OF i c'] show ?thesis
        by (auto simp: st_esc_sq_bracket_def split: if_splits)
    next
      case False
      with st cc St_esc_sq_bracket ctl_sq_final [OF i c', of a 0] show ?thesis
        by (auto split: if_splits)
    qed
    with s0 St_esc_sq_bracket show ?thesis by (simp add: call_state_def call_ret_def)
  next
    case St_command_arg
    with ctl_command_arg [OF i _ st [unfolded cc St_command_arg]] c' s0 show ?thesis
      by (simp add: call_state_def)
  qed (use st cc in simp_all)
qed

lemma ctl_run_ok:
  "con_inv s \<Longrightarrow> ctl_of (tm s w) = c \<Longrightarrow> ctl_run w c bs = Some c' \<Longrightarrow>
   ctl_ok w s (run_list (\<lambda>b. call_state EV_CHAR (ucast b) w) bs s) c'"
proof (induction bs arbitrary: s c)
  case Nil
  then show ?case by (auto intro: ctl_okI)
next
  case (Cons b bs)
  from Cons.prems(3) obtain c1 where 1: "ctl_step w c (ucast b) = Some c1" "ctl_run w c1 bs = Some c'"
    by (auto split: option.splits)
  have "ctl_ok w s (rbind (call_state EV_CHAR (ucast b) w s)
      (run_list (\<lambda>b. call_state EV_CHAR (ucast b) w) bs)) c'"
    by (rule ctl_ok_bind [OF ctl_call_state [OF Cons.prems(1,2) 1(1)]])
      (rule Cons.IH [OF _ _ 1(2)])
  then show ?case by simp
qed

lemma ctl_run_append:
  "ctl_run w c (xs @ ys) = (case ctl_run w c xs of None \<Rightarrow> None | Some c' \<Rightarrow> ctl_run w c' ys)"
  by (induction xs arbitrary: c) (auto split: option.splits)

text \<open>Every message of the firmware brings the status line back to idle.\<close>

definition returns_idle :: "u8 list \<Rightarrow> bool" where
  "returns_idle m \<longleftrightarrow>
     (\<forall>r n as. \<exists>r' n' as'. ctl_run Status (St_idle, r, n, as) m = Some (St_idle, r', n', as'))"

lemmas msg_eval = returns_idle_def msg_at_def msg_on_def bytes_def leds_on_def isdigit_def pos_args_def

lemma msg_run_leds:
  "returns_idle (msg_leds 0)" "returns_idle (msg_leds 1)" "returns_idle (msg_leds 2)"
  "returns_idle (msg_leds 3)" "returns_idle (msg_leds 4)"
  by (simp_all add: msg_eval msg_leds_def)

lemma msg_run_modes:
  "returns_idle (msg_cursor_keys b)" "returns_idle (msg_ansi b)" "returns_idle (msg_columns b)"
  "returns_idle (msg_inverse b)" "returns_idle (msg_keypad b)"
  by (cases b; simp add: msg_eval msg_cursor_keys_def msg_ansi_def msg_columns_def
      msg_inverse_def msg_keypad_def)+

lemma msg_run: "is_msg m \<Longrightarrow> returns_idle m"
proof -
  have "k = 0 \<or> k = 1 \<or> k = 2 \<or> k = 3 \<or> k = 4" if "k \<le> 4" for k :: nat using that by auto
  then show "is_msg m \<Longrightarrow> returns_idle m"
    using msg_run_leds msg_run_modes unfolding is_msg_def by metis
qed

section \<open>Delivering the status stream\<close>

definition vt_inv :: "console \<Rightarrow> bool" where
  "vt_inv s \<longleftrightarrow> con_inv s \<and> status_stream_ptr s = 0 \<and> state (tm s Status) = St_idle"

lemma pending_props:
  assumes "con_inv s" "status_stream_ptr s = length (pending s)"
  shows "length (pending s) \<le> length (status_stream_buffer s)"
    and "i < length (pending s) \<Longrightarrow> status_stream_buffer s ! i = pending s ! i"
proof -
  show "length (pending s) \<le> length (status_stream_buffer s)" by (simp add: pending_def)
  show "status_stream_buffer s ! i = pending s ! i" if "i < length (pending s)"
    using that assms(2) unfolding pending_def by (metis nth_take)
qed

lemma status_flush_loop_ctl:
  assumes "con_inv s" "status_stream_ptr s = length (pending s)" "i \<le> length (pending s)"
    "ctl_run Status (ctl_of (tm s Status)) (drop i (pending s)) = Some c"
  shows "\<exists>s'. status_flush_loop i s = Some (Inr s') \<and> ctl_ok Status s (Inr s') c"
  using assms
proof (induction "length (pending s) - i" arbitrary: i s)
  case 0
  then have "i = length (pending s)" by simp
  with 0 show ?case
    by (subst status_flush_loop.simps) (auto intro!: ctl_okI)
next
  case (Suc k)
  then have i: "i < length (pending s)" by simp
  note p = pending_props [OF Suc.prems(1,2)]
  have d: "drop i (pending s) = pending s ! i # drop (Suc i) (pending s)"
    using i by (simp add: Cons_nth_drop_Suc)
  from Suc.prems(4) obtain c1 where c1: "ctl_step Status (ctl_of (tm s Status)) (ucast (pending s ! i)) = Some c1"
      "ctl_run Status c1 (drop (Suc i) (pending s)) = Some c"
    unfolding d by (auto split: option.splits)
  have "ctl_ok Status s (call_state EV_CHAR (ucast (pending s ! i)) Status s) c1"
    by (rule ctl_call_state [OF Suc.prems(1) refl c1(1)])
  then obtain s1 where s1: "status_putc (pending s ! i) s = Inr s1" and o1: "ctl_ok Status s (Inr s1) c1"
    by (auto simp: ctl_ok_def status_putc_def)
  from o1 have f1: "con_inv s1" "streams s1 = streams s" "ctl_of (tm s1 Status) = c1"
    by (auto simp: ctl_ok_def)
  have p1: "pending s1 = pending s" by (rule streams_pending [OF f1(2)])
  have ptr1: "status_stream_ptr s1 = length (pending s1)"
    using f1(2) Suc.prems(2) p1 by (simp add: streams_def)
  have "\<exists>s'. status_flush_loop (Suc i) s1 = Some (Inr s') \<and> ctl_ok Status s1 (Inr s') c"
    using Suc.hyps(2) i f1 p1 ptr1 c1 by (intro Suc.hyps(1)) auto
  then obtain s2 where s2: "status_flush_loop (Suc i) s1 = Some (Inr s2)" "ctl_ok Status s1 (Inr s2) c"
    by auto
  have "status_flush_loop i s = Some (Inr s2)"
    using i p s1 s2(1) Suc.prems(2) by (subst status_flush_loop.simps) simp
  moreover have "ctl_ok Status s (Inr s2) c"
    using ctl_ok_bind [OF o1, of "\<lambda>_. Inr s2" c] s2(2) by simp
  ultimately show ?case by auto
qed

text \<open>
  The cells of the two screens; everything outside is memory the terminals have no business with.
\<close>

definition off_screen :: "console \<Rightarrow> (int \<Rightarrow> u64) \<times> u8 list \<times> nat" where
  "off_screen s = ((\<lambda>i. if 0 \<le> i \<and> i < 10400 then 0 else vram s i),
                   vt100_stream_buffer s, vt100_stream_ptr s)"

lemma framed_off_screen:
  "framed (base w) (rows w) m m' \<Longrightarrow> i < 0 \<or> 10400 \<le> i \<Longrightarrow> m' i = m i"
  by (cases w) (auto simp: framed_def)

lemma vt100_putc_inv:
  assumes inv: "vt_inv s" and ok: "byte_ok Term (tm s Term) c"
  shows "\<exists>s'. vt100_putc c s = Inr s' \<and> vt_inv s' \<and> off_screen s' = off_screen s"
proof -
  have i: "con_inv s" "status_stream_ptr s = 0" "state (tm s Status) = St_idle"
    using inv by (auto simp: vt_inv_def)
  have p0: "pending s = []" using i(2) by (simp add: pending_def)
  from call_state_loud [OF i(1,2) ok] obtain s1 where
    1: "call_state EV_CHAR (ucast c) Term s = Inr s1" "con_inv s1"
    "framed (base Term) (rows Term) (vram s) (vram s1)"
    "vt100_stream_buffer s1 = vt100_stream_buffer s" "vt100_stream_ptr s1 = vt100_stream_ptr s"
    "status_stream_ptr s1 = length (pending s1)" "pending s1 = [] \<or> is_msg (pending s1)"
    "state (tm s1 Status) = St_idle"
    using i(3) p0 by (auto simp: loud_ok_def)
  have "\<exists>r n as. ctl_run Status (ctl_of (tm s1 Status)) (drop 0 (pending s1)) = Some (St_idle, r, n, as)"
    using 1(7,8) msg_run [of "pending s1"] by (auto simp: returns_idle_def ctl_of_def)
  then obtain r n as where "ctl_run Status (ctl_of (tm s1 Status)) (drop 0 (pending s1)) = Some (St_idle, r, n, as)"
    by auto
  from status_flush_loop_ctl [OF 1(2,6) _ this] obtain s2 where
    2: "status_flush_loop 0 s1 = Some (Inr s2)" "con_inv s2" "streams s2 = streams s1"
    "framed (base Status) (rows Status) (vram s1) (vram s2)" "state (tm s2 Status) = St_idle"
    by (auto simp: ctl_ok_def ctl_of_def)
  let ?s = "s2\<lparr>status_stream_ptr := 0\<rparr>"
  have "vt100_putc c s = Inr ?s"
    using 1(1) 2(1) by (simp add: vt100_putc_def status_flush_def)
  moreover have "vt_inv ?s" using 2 by (simp add: vt_inv_def con_inv_def)
  moreover have "vram s2 i = vram s i" if "\<not> (0 \<le> i \<and> i < 10400)" for i
    using framed_off_screen [OF 1(3), of i] framed_off_screen [OF 2(4), of i] that by auto
  then have "off_screen ?s = off_screen s"
    using 1 2(3) by (auto simp: off_screen_def streams_def)
  ultimately show ?thesis by blast
qed

definition term_byte_ok :: "console \<Rightarrow> u8 \<Rightarrow> bool" where
  "term_byte_ok s c = byte_ok Term (tm s Term) c"

interpretation vt: framed_machine vt100_putc vt_inv term_byte_ok off_screen
proof
  show "\<exists>s'. vt100_putc b s = Inr s' \<and> vt_inv s'" if "vt_inv s" "term_byte_ok s b" for s b
    using vt100_putc_inv [of s b] that by (auto simp: term_byte_ok_def)
  show "off_screen s' = off_screen s" if "vt_inv s" "term_byte_ok s b" "vt100_putc b s = Inr s'" for s b s'
    using vt100_putc_inv [of s b] that by (auto simp: term_byte_ok_def)
qed

section \<open>Plain text\<close>

lemma ctl_plain:
  assumes i: "con_inv s" and a: "a \<noteq> 27"
  shows "ctl_ok Term s (idle_exec a Term s) (ctl_of (tm s Term))"
proof -
  have t: "tm_inv Term (tm s Term)" by (rule con_inv_tm) fact
  note b = tm_inv_bounds [OF t]
  have mv: "ctl_ok Term s' (on_tm Term (vt100_move dx dy) s') c"
    if "con_inv s'" "ctl_of (tm s' Term) = c" "(dx = 0 \<and> dy = 1) \<or> (dx = - 1 \<and> dy = 0)" for s' dx dy c
  proof -
    note b' = tm_inv_bounds [OF con_inv_tm [OF that(1)], of Term]
    have "ctl_ok Term s' (on_tm Term (vt100_move dx dy) s') (ctl_of (tm s' Term))"
      using that b' by (intro ctl_on_tm move_ok) auto
    with that(2) show ?thesis by simp
  qed
  have pc: "ctl_ok Term s (on_tm Term (putc_n k ch) s) (ctl_of (tm s Term))"
    "ctl_ok Term s (on_tm Term (term_putc ch) s) (ctl_of (tm s Term))" for k ch
    by (auto intro!: ctl_on_tm i putc_n_ok term_putc_ok)
  have cr: "ctl_ok Term s' (Inr (upd_tm Term (\<lambda>t. t\<lparr>cursor_x := 0\<rparr>) s')) c"
    if "con_inv s'" "ctl_of (tm s' Term) = c" for s' c
    using ctl_upd_tm [OF that(1), of Term "\<lambda>t. t\<lparr>cursor_x := 0\<rparr>"] con_inv_tm [OF that(1), of Term] that(2)
    by (simp add: col0_inv ctl_of_def)
  have nl: "ctl_ok Term s (rbind (on_tm Term (vt100_move 0 1) s)
      (\<lambda>s'. Inr (upd_tm Term (\<lambda>t. t\<lparr>cursor_x := 0\<rparr>) s'))) (ctl_of (tm s Term))"
    by (rule ctl_ok_bind [OF mv [OF i refl]]) (auto intro: cr)
  have del: "ctl_ok Term s (rbind (on_tm Term (term_putc 32) s) (on_tm Term (vt100_move (- 1) 0)))
      (ctl_of (tm s Term))"
    by (rule ctl_ok_bind [OF pc(2)]) (auto intro: mv)
  have n: "ctl_ok Term s (Inr s) (ctl_of (tm s Term))" by (auto intro: ctl_okI i)
  show ?thesis
    using a nl del n cr [OF i refl] mv [OF i refl] pc by (simp add: idle_exec_def)
qed

text \<open>A plain byte in the idle state: the terminal stays idle and the status line is not touched.\<close>

lemma vt100_putc_plain:
  assumes inv: "vt_inv s" and idle: "state (tm s Term) = St_idle" and c: "c \<noteq> 27"
  shows "\<exists>s'. vt100_putc c s = Inr s' \<and> vt_inv s' \<and> state (tm s' Term) = St_idle \<and>
    call_state EV_CHAR (ucast c) Term s = Inr s' \<and>
    framed 160 64 (vram s) (vram s') \<and> streams s' = streams s \<and> tm s' Status = tm s Status"
proof -
  have i: "con_inv s" "status_stream_ptr s = 0" "state (tm s Status) = St_idle"
    using inv by (auto simp: vt_inv_def)
  have a: "(ucast c :: u16) \<noteq> 27"
    using c u8_u16_eq [of c 27] by simp
  have "ctl_ok Term s (rbind (on_tm Term vt100_removeCursor s)
      (\<lambda>s1. rbind (idle_exec (ucast c) Term s1) (on_tm Term vt100_drawCursor))) (ctl_of (tm s Term))"
    by (rule ctl_ok_bind [OF ctl_removeCursor [OF i(1) refl]], rule ctl_ok_bind,
        erule ctl_plain [OF _ a], rule ctl_drawCursor) auto
  then obtain s1 where s1: "call_state EV_CHAR (ucast c) Term s = Inr s1" "con_inv s1"
      "framed 160 64 (vram s) (vram s1)" "streams s1 = streams s" "tm s1 Status = tm s Status"
      "ctl_of (tm s1 Term) = ctl_of (tm s Term)"
    using idle by (auto simp: ctl_ok_def call_state_def call_ret_def st_idle_def)
  have "status_flush_loop 0 s1 = Some (Inr s1)"
    using s1(4) i(2) by (subst status_flush_loop.simps) (simp add: streams_def)
  moreover have "s1\<lparr>status_stream_ptr := 0\<rparr> = s1" using s1(4) i(2) by (simp add: streams_def)
  ultimately have "vt100_putc c s = Inr s1" using s1(1) by (simp add: vt100_putc_def status_flush_def)
  with s1 i idle show ?thesis by (auto simp: vt_inv_def streams_def ctl_of_def)
qed

section \<open>Results\<close>

text \<open>The console as the C runtime leaves it: all static data zero, and after \<open>vt100_init\<close>.\<close>

definition zero_tm :: vt100_t where
  "zero_tm = \<lparr>cursor_wrap = False, scroll_mode = False, origin_mode = False, cursor_char = 0,
     screen_w = 0, screen_h = 0, screen_skew = 0, cursor_x = 0, cursor_y = 0,
     saved_cursor_x = 0, saved_cursor_y = 0, scroll_start_row = 0, scroll_end_row = 0,
     back_color = 0, front_color = 0, narg = 0, args = replicate 16 0,
     state = St_idle, ret_state = None, VRam = 0, CharUnderCursor = 0\<rparr>"

definition bss_console :: console where
  "bss_console = \<lparr>vram = (\<lambda>_. 0), tm = (\<lambda>_. zero_tm),
     vt100_stream_buffer = replicate STREAM_SIZE 0, vt100_stream_ptr = 0,
     status_stream_buffer = replicate STREAM_SIZE 0, status_stream_ptr = 0\<rparr>"

definition booted :: console where
  "booted = vt100_init bss_console"

text \<open>What \<open>vt100_init\<close> needs of the state it starts from: arrays of their declared sizes.\<close>

definition arrays_ok :: "console \<Rightarrow> bool" where
  "arrays_ok s \<longleftrightarrow> length (args (tm s Term)) = 16 \<and> length (args (tm s Status)) = 16 \<and>
     length (vt100_stream_buffer s) = STREAM_SIZE \<and> length (status_stream_buffer s) = STREAM_SIZE"

lemma vt100_init_vram:
  "vram (vt100_init s) = fill 0 160 0x77777720 (fill 160 10240 0x77777720 (vram s))"
  by (simp add: vt100_init_def vt100_reset_def reset_term_def reset_status_def Let_def memset64_eq
      vt_consts)

lemma vt100_init_vt_inv: "arrays_ok s \<Longrightarrow> status_stream_ptr s = 0 \<Longrightarrow> vt_inv (vt100_init s)"
  by (simp add: vt_inv_def con_inv_def arrays_ok_def tm_inv_def wf_screen_def pos_ok_def
      vt100_init_def vt100_reset_def reset_term_def reset_status_def Let_def vt_consts)

lemma arrays_ok_bss: "arrays_ok bss_console" "status_stream_ptr bss_console = 0"
  by (simp_all add: arrays_ok_def bss_console_def zero_tm_def)

lemma booted_inv: "vt_inv booted" "state (tm booted Term) = St_idle"
  using vt100_init_vt_inv [OF arrays_ok_bss]
  by (simp_all add: booted_def vt100_init_def vt100_reset_def reset_term_def Let_def)

text \<open>
  Claim C2. The terminal is memory safe and never hangs on a stream whose every byte respects
  the guard \<open>term_byte_ok\<close>: all bytes are consumed, the invariant holds afterwards, no cell
  outside the 65 rows of the two screens has changed, and the input stream buffer is intact.
\<close>

theorem vt100_stream_safe:
  assumes "vt_inv s" and "guarded term_byte_ok vt100_putc bs s"
  shows "\<exists>s'. run_list vt100_putc bs s = Inr s' \<and> vt_inv s' \<and>
    (\<forall>i. i < 0 \<or> 10400 \<le> i \<longrightarrow> vram s' i = vram s i) \<and>
    vt100_stream_buffer s' = vt100_stream_buffer s \<and> vt100_stream_ptr s' = vt100_stream_ptr s"
proof -
  obtain s' where s': "run_list vt100_putc bs s = Inr s'" "vt_inv s'"
    using vt.run_ok [OF assms] by auto
  from vt.run_obs [OF assms s'(1)] have o: "off_screen s' = off_screen s" .
  have f: "(\<lambda>i. if 0 \<le> i \<and> i < 10400 then 0 else vram s' i) =
      (\<lambda>i. if 0 \<le> i \<and> i < 10400 then 0 else vram s i)"
    and b: "vt100_stream_buffer s' = vt100_stream_buffer s" "vt100_stream_ptr s' = vt100_stream_ptr s"
    using o by (simp_all add: off_screen_def)
  have "vram s' i = vram s i" if "i < 0 \<or> 10400 \<le> i" for i
    using fun_cong [OF f, of i] that by (auto split: if_splits)
  with s' b show ?thesis by auto
qed

lemma guarded_plain:
  "vt_inv s \<Longrightarrow> state (tm s Term) = St_idle \<Longrightarrow> 27 \<notin> set bs \<Longrightarrow> guarded term_byte_ok vt100_putc bs s"
proof (induction bs arbitrary: s)
  case Nil
  then show ?case by simp
next
  case (Cons b bs)
  then obtain s1 where "vt100_putc b s = Inr s1" "vt_inv s1" "state (tm s1 Term) = St_idle"
    using vt100_putc_plain [of s b] by auto
  with Cons show ?case by (simp add: term_byte_ok_def byte_ok_def ret_ok_def)
qed

text \<open>A byte string that the control automaton accepts runs without a fault.\<close>

lemma guarded_ctl:
  assumes "vt_inv s" "ctl_of (tm s Term) = c" "ctl_run Term c bs = Some c'"
  shows "\<exists>s'. run_list vt100_putc bs s = Inr s' \<and> vt_inv s' \<and> ctl_of (tm s' Term) = c'"
  using assms
proof (induction bs arbitrary: s c)
  case Nil
  then show ?case by auto
next
  case (Cons b bs)
  from Cons.prems(3) obtain c1 where 1: "ctl_step Term c (ucast b) = Some c1" "ctl_run Term c1 bs = Some c'"
    by (auto split: option.splits)
  have i: "con_inv s" "status_stream_ptr s = 0" "state (tm s Status) = St_idle"
    using Cons.prems(1) by (auto simp: vt_inv_def)
  from ctl_call_state [OF i(1) Cons.prems(2) 1(1)] obtain s1 where
    s1: "call_state EV_CHAR (ucast b) Term s = Inr s1" "con_inv s1" "streams s1 = streams s"
      "tm s1 Status = tm s Status" "ctl_of (tm s1 Term) = c1"
    by (auto simp: ctl_ok_def)
  have "status_flush_loop 0 s1 = Some (Inr s1)"
    using s1(3) i(2) by (subst status_flush_loop.simps) (simp add: streams_def)
  moreover have "s1\<lparr>status_stream_ptr := 0\<rparr> = s1" using s1(3) i(2) by (simp add: streams_def)
  ultimately have p: "vt100_putc b s = Inr s1" using s1(1) by (simp add: vt100_putc_def status_flush_def)
  have "vt_inv s1" using s1 i by (simp add: vt_inv_def streams_def)
  from Cons.IH [OF this s1(5) 1(2)] p show ?case by simp
qed

theorem vt100_stream_safe_witness:
  "vt_inv booted \<and> guarded term_byte_ok vt100_putc (bytes ''login: root'' @ [13, 10]) booted \<and>
   (\<exists>s'. run_list vt100_putc (bytes ''login: root'' @ [13, 10]) booted = Inr s' \<and> vt_inv s' \<and>
     (\<forall>i. i < 0 \<or> 10400 \<le> i \<longrightarrow> vram s' i = vram booted i) \<and>
     vt100_stream_buffer s' = vt100_stream_buffer booted \<and>
     vt100_stream_ptr s' = vt100_stream_ptr booted)"
proof -
  have g: "guarded term_byte_ok vt100_putc (bytes ''login: root'' @ [13, 10]) booted"
    by (rule guarded_plain [OF booted_inv]) (simp add: bytes_def)
  from vt100_stream_safe [OF booted_inv(1) g] g booted_inv(1) show ?thesis by blast
qed

text \<open>
  Plain text (any bytes but ESC, control characters, NUL and bytes above 127
  included) is always safe: from any idle state of the invariant it is consumed, the terminal
  is idle again, and the status bar and all other memory are as before.
\<close>

theorem vt100_plain_text_safe:
  assumes "vt_inv s" and "state (tm s Term) = St_idle" and "27 \<notin> set bs"
  shows "\<exists>s'. run_list vt100_putc bs s = Inr s' \<and> vt_inv s' \<and> state (tm s' Term) = St_idle \<and>
    tm s' Status = tm s Status \<and> (\<forall>i. i < 160 \<or> 10400 \<le> i \<longrightarrow> vram s' i = vram s i)"
  using assms
proof (induction bs arbitrary: s)
  case Nil
  then show ?case by auto
next
  case (Cons b bs)
  then obtain s1 where 1: "vt100_putc b s = Inr s1" "vt_inv s1" "state (tm s1 Term) = St_idle"
      "framed 160 64 (vram s) (vram s1)" "tm s1 Status = tm s Status"
    using vt100_putc_plain [of s b] by auto
  with Cons obtain s2 where "run_list vt100_putc bs s1 = Inr s2" "vt_inv s2" "state (tm s2 Term) = St_idle"
      "tm s2 Status = tm s1 Status" "\<forall>i. i < 160 \<or> 10400 \<le> i \<longrightarrow> vram s2 i = vram s1 i"
    by fastforce
  with 1 show ?case by (auto simp: framed_def)
qed

theorem vt100_plain_text_safe_witness:
  "vt_inv booted \<and> state (tm booted Term) = St_idle \<and> (27 :: u8) \<notin> set [72, 105, 8, 9, 127, 0, 255] \<and>
   (\<exists>s'. run_list vt100_putc [72, 105, 8, 9, 127, 0, 255] booted = Inr s' \<and> vt_inv s' \<and>
     state (tm s' Term) = St_idle \<and> tm s' Status = tm booted Status \<and>
     (\<forall>i. i < 160 \<or> 10400 \<le> i \<longrightarrow> vram s' i = vram booted i))"
proof -
  have n: "(27 :: u8) \<notin> set [72, 105, 8, 9, 127, 0, 255]" by simp
  from vt100_plain_text_safe [OF booted_inv n] booted_inv n show ?thesis by blast
qed

text \<open>
  \<open>vt100_init\<close> establishes the invariant, and leaves both screens blank in the
  default color with both cursors at the top left corner.
\<close>

theorem vt100_init_correct:
  assumes "arrays_ok s" and "status_stream_ptr s = 0"
  shows "vt_inv (vt100_init s) \<and>
    (\<forall>i. vram (vt100_init s) i = (if 0 \<le> i \<and> i < 10400 then 0x77777720 else vram s i)) \<and>
    (\<forall>w. cursor_x (tm (vt100_init s) w) = 0 \<and> cursor_y (tm (vt100_init s) w) = 0 \<and>
         state (tm (vt100_init s) w) = St_idle)"
proof (intro conjI allI)
  show "vt_inv (vt100_init s)" using assms by (rule vt100_init_vt_inv)
  show "vram (vt100_init s) i = (if 0 \<le> i \<and> i < 10400 then 0x77777720 else vram s i)" for i
    by (auto simp: vt100_init_vram fill_def)
  show "cursor_x (tm (vt100_init s) w) = 0" "cursor_y (tm (vt100_init s) w) = 0"
    "state (tm (vt100_init s) w) = St_idle" for w
    by (cases w; simp add: vt100_init_def vt100_reset_def reset_term_def reset_status_def Let_def)+
qed

theorem vt100_init_correct_witness:
  "vt_inv (vt100_init bss_console) \<and> vram (vt100_init bss_console) 10399 = 0x77777720 \<and>
   cursor_x (tm (vt100_init bss_console) Term) = 0"
  using vt100_init_correct [OF arrays_ok_bss] by simp

end
