(* ===== verification/Vt100_Refine.thy ===== *)
theory Vt100_Refine
  imports Vt100_Safety
begin

text \<open>
  What the terminal emulator means on text. The abstract teletype has lines of cells and a
  print position; the terminal has video memory into which a cursor glyph is painted after
  every byte and removed before the next, with the covered character kept in
  \<open>CharUnderCursor\<close>. \<open>tty_of\<close> puts that character back, and the refinement shows that the
  emulator's handlers, cursor moves and memory copies compute the teletype's steps.
\<close>

section \<open>The abstract teletype\<close>

text \<open>
  A screen of 64 rows of 160 cells, a print position, and what the next character is printed
  with. There is no cursor glyph, no memory and no hidden cell in it.
\<close>

record tty =
  lines_of :: "u64 list list"
  row :: nat
  col :: nat
  wraps :: bool
  paper :: u32
  pen :: u32

definition glyph :: "tty \<Rightarrow> u8 \<Rightarrow> u64" where
  "glyph y ch = push_bit 40 (ucast (paper y)) OR push_bit 8 (ucast (pen y)) OR ucast ch"

definition blank_row :: "u64 list" where
  "blank_row = replicate 160 0x20"

definition line_feed :: "tty \<Rightarrow> tty" where
  "line_feed y =
     (if row y = 63 then y\<lparr>lines_of := tl (lines_of y) @ [blank_row]\<rparr>
      else y\<lparr>row := row y + 1\<rparr>)"

definition overwrite :: "u8 \<Rightarrow> tty \<Rightarrow> tty" where
  "overwrite ch y =
     y\<lparr>lines_of := (lines_of y)[row y := (lines_of y ! row y)[col y := glyph y ch]]\<rparr>"

definition advance :: "tty \<Rightarrow> tty" where
  "advance y =
     (if col y < 159 then y\<lparr>col := col y + 1\<rparr>
      else if wraps y then (line_feed y)\<lparr>col := 0\<rparr> else y)"

definition print_char :: "u8 \<Rightarrow> tty \<Rightarrow> tty" where
  "print_char ch y = advance (overwrite ch y)"

text \<open>What the bytes mean: 8 back space, 9 tab, 10 new line, 13 carriage return, 127 delete.\<close>

definition tty_step :: "u8 \<Rightarrow> tty \<Rightarrow> tty" where
  "tty_step b y =
     (if b = 5 \<or> b = 7 then y
      else if b = 8 then y\<lparr>col := col y - 1\<rparr>
      else if b = 9 then (print_char 32 ^^ (4 - col y mod 4)) y
      else if b = 10 then (line_feed y)\<lparr>col := 0\<rparr>
      else if b = 13 then y\<lparr>col := 0\<rparr>
      else if b = 127 then (overwrite 32 y)\<lparr>col := (if col y = 159 then 158 else col y)\<rparr>
      else print_char b y)"

section \<open>The abstraction\<close>

definition screen_rows :: "vmem \<Rightarrow> u64 list list" where
  "screen_rows m = map (\<lambda>r. map (\<lambda>c. m (160 + 160 * int r + int c)) [0..<160]) [0..<64]"

definition view :: "vt100_t \<Rightarrow> vmem \<Rightarrow> tty" where
  "view t m = \<lparr>lines_of = screen_rows m, row = nat (cursor_y t), col = nat (cursor_x t),
     wraps = cursor_wrap t, paper = back_color t, pen = front_color t\<rparr>"

text \<open>The memory with the character under the cursor put back.\<close>

definition uncovered :: "vt100_t \<Rightarrow> vmem \<Rightarrow> vmem" where
  "uncovered t m = (if CharUnderCursor t = 0 then m else m(VRam t + cur_off t := CharUnderCursor t))"

definition tty_of :: "console \<Rightarrow> tty" where
  "tty_of s = view (tm s Term) (uncovered (tm s Term) (vram s))"

definition cells_shown :: "vmem \<Rightarrow> bool" where
  "cells_shown m \<longleftrightarrow> (\<forall>i. 160 \<le> i \<and> i < 10400 \<longrightarrow> m i \<noteq> 0)"

lemma cells_shownD: "cells_shown m \<Longrightarrow> 160 \<le> i \<Longrightarrow> i < 10400 \<Longrightarrow> m i \<noteq> 0"
  by (simp add: cells_shown_def)

lemma cells_shown_upd: "cells_shown m \<Longrightarrow> v \<noteq> 0 \<Longrightarrow> cells_shown (m(p := v))"
  by (simp add: cells_shown_def)

lemma screen_rows_upd:
  assumes "r < 64" "c < 160"
  shows "screen_rows (m(160 + 160 * int r + int c := v)) =
    (screen_rows m)[r := (screen_rows m ! r)[c := v]]"
proof (rule nth_equalityI)
  show "length (screen_rows (m(160 + 160 * int r + int c := v))) =
      length ((screen_rows m)[r := (screen_rows m ! r)[c := v]])"
    by (simp add: screen_rows_def)
  fix i assume "i < length (screen_rows (m(160 + 160 * int r + int c := v)))"
  then have i: "i < 64" by (simp add: screen_rows_def)
  have eq: "160 + 160 * int i + int j = 160 + 160 * int r + int c \<longleftrightarrow> i = r \<and> j = c" if "j < 160" for j
  proof -
    have "160 * i + j = 160 * r + c \<longleftrightarrow> i = r \<and> j = c"
    proof
      assume e: "160 * i + j = 160 * r + c"
      then have "(160 * i + j) div 160 = (160 * r + c) div 160" by simp
      then have "i = r" using that assms by simp
      with e show "i = r \<and> j = c" by simp
    qed simp
    then show ?thesis by linarith
  qed
  show "screen_rows (m(160 + 160 * int r + int c := v)) ! i =
      (screen_rows m)[r := (screen_rows m ! r)[c := v]] ! i"
  proof (rule nth_equalityI)
    show "length (screen_rows (m(160 + 160 * int r + int c := v)) ! i) =
        length ((screen_rows m)[r := (screen_rows m ! r)[c := v]] ! i)"
      using i assms by (simp add: screen_rows_def nth_list_update)
    fix j assume "j < length (screen_rows (m(160 + 160 * int r + int c := v)) ! i)"
    then have j: "j < 160" using i by (simp add: screen_rows_def)
    show "screen_rows (m(160 + 160 * int r + int c := v)) ! i ! j =
        (screen_rows m)[r := (screen_rows m ! r)[c := v]] ! i ! j"
      using i j assms eq [OF j] by (auto simp: screen_rows_def nth_list_update)
  qed
qed

lemma screen_rows_scroll:
  "screen_rows (scroll_up_mem 64 160 m) = tl (screen_rows m) @ [blank_row]"
proof (rule nth_equalityI)
  show "length (screen_rows (scroll_up_mem 64 160 m)) =
      length (tl (screen_rows m) @ [blank_row])"
    by (simp add: screen_rows_def)
  fix i assume "i < length (screen_rows (scroll_up_mem 64 160 m))"
  then have i: "i < 64" by (simp add: screen_rows_def)
  have s: "scroll_up_mem 64 160 m (160 + 160 * int i + int j) =
      (if i < 63 then m (160 + 160 * int (Suc i) + int j) else 0x20)" if "j < 160" for j
    using i that by (auto simp: scroll_up_mem_def algebra_simps)
  have l: "screen_rows (scroll_up_mem 64 160 m) ! i =
      map (\<lambda>j. if i < 63 then m (160 + 160 * int (Suc i) + int j) else 0x20) [0..<160]"
    using i s by (simp add: screen_rows_def)
  show "screen_rows (scroll_up_mem 64 160 m) ! i =
      (tl (screen_rows m) @ [blank_row]) ! i"
  proof (cases "i < 63")
    case True
    then show ?thesis unfolding l by (simp add: nth_append nth_tl screen_rows_def)
  next
    case False
    with i have "i = 63" by simp
    then show ?thesis unfolding l
      by (simp add: nth_append screen_rows_def map_replicate_const blank_row_def)
  qed
qed

lemma screen_rows_nth: "r < 64 \<Longrightarrow> length (screen_rows m ! r) = 160" "length (screen_rows m) = 64"
  by (simp_all add: screen_rows_def)

section \<open>One character\<close>

lemma mk_cell_nonzero: "ch \<noteq> 0 \<Longrightarrow> mk_cell t ch \<noteq> 0"
proof
  assume "ch \<noteq> 0" "mk_cell t ch = 0"
  then have "\<not> bit (mk_cell t ch) n" for n by simp
  then have "\<not> bit (ucast ch :: u64) n" for n
    unfolding mk_cell_def bit_or_iff by blast
  then have "(ucast ch :: u64) = 0" by (intro bit_word_eqI) simp
  then have "uint (ucast ch :: u64) = 0" by simp
  then have "uint ch = 0" by (simp add: uint_up_ucast is_up)
  then have "ch = 0" using word_uint_eq_iff [of ch 0] by simp
  with \<open>ch \<noteq> 0\<close> show False by simp
qed

definition scr :: "vt100_t \<Rightarrow> vmem \<Rightarrow> bool" where
  "scr t m \<longleftrightarrow> wf_screen 64 t \<and> VRam t = 160 \<and> cursor_x t < 160 \<and>
     cursor_char t = CURSOR_CHAR \<and> cells_shown m"

definition becomes :: "vt100_t \<Rightarrow> (vt100_t \<times> vmem) res \<Rightarrow> tty \<Rightarrow> bool" where
  "becomes t r y \<longleftrightarrow> (\<exists>t' m'. r = Inr (t', m') \<and> scr t' m' \<and> core t' = core t \<and>
     CharUnderCursor t' = 0 \<and> view t' m' = y)"

lemma scr_pos: "scr t m \<Longrightarrow> 0 \<le> cursor_x t \<and> cursor_x t < 160 \<and> 0 \<le> cursor_y t \<and> cursor_y t < 64"
  by (auto simp: scr_def wf_screen_def pos_ok_def)

lemma view_place:
  "view (t\<lparr>cursor_x := x, cursor_y := y\<rparr>) m = (view t m)\<lparr>row := nat y, col := nat x\<rparr>"
  "view (t\<lparr>cursor_x := x\<rparr>) m = (view t m)\<lparr>col := nat x\<rparr>"
  "view (t\<lparr>CharUnderCursor := c\<rparr>) m = view t m"
  "view (t\<lparr>state := st\<rparr>) m = view t m"
  by (simp_all add: view_def)

lemma view_sel:
  "lines_of (view t m) = screen_rows m" "row (view t m) = nat (cursor_y t)"
  "col (view t m) = nat (cursor_x t)" "wraps (view t m) = cursor_wrap t"
  by (simp_all add: view_def)

lemma view_scroll:
  "view t (scroll_up_mem 64 160 m) = (view t m)\<lparr>lines_of := tl (screen_rows m) @ [blank_row]\<rparr>"
  by (simp add: view_def screen_rows_scroll)

lemma view_overwrite:
  assumes "scr t m"
  shows "view t (m(160 + cur_off t := mk_cell t ch)) = overwrite ch (view t m)"
proof -
  note p = scr_pos [OF assms]
  define r c where "r = nat (cursor_y t)" and "c = nat (cursor_x t)"
  have rc: "160 + cur_off t = 160 + 160 * int r + int c" "r < 64" "c < 160"
    using p assms by (auto simp: r_def c_def cur_off_def scr_def wf_screen_def nat_less_iff)
  show ?thesis
    unfolding view_def overwrite_def rc(1) screen_rows_upd [OF rc(2,3)]
    by (simp add: glyph_def mk_cell_def r_def c_def)
qed

lemma scr_place:
  "scr t m \<Longrightarrow> 0 \<le> x \<Longrightarrow> x < 160 \<Longrightarrow> 0 \<le> y \<Longrightarrow> y < 64 \<Longrightarrow> scr (t\<lparr>cursor_x := x, cursor_y := y\<rparr>) m"
  by (auto simp: scr_def wf_screen_def pos_ok_def)

lemma cells_shown_scroll: "cells_shown m \<Longrightarrow> cells_shown (scroll_up_mem 64 160 m)"
  by (auto simp: cells_shown_def scroll_up_mem_def)

lemma move_right_becomes:
  assumes "scr t m" "CharUnderCursor t = 0"
  shows "becomes t (vt100_move 1 0 t m) (advance (view t m))"
proof -
  note p = scr_pos [OF assms(1)]
  have wf: "wf_screen 64 t" "VRam t = 160" "cells_shown m" using assms by (auto simp: scr_def)
  have mx: "move_x 1 0 t =
    (if cursor_x t < 159 then (cursor_x t + 1, 0) else if cursor_wrap t then (0, 1) else (159, 0))"
    using move_x_right [OF wf(1), of 1 0] p by auto
  obtain x' y' sc where tg: "move_target 64 t 1 0 = (x', y', sc)" by (metis prod_cases3)
  have e: "vt100_move 1 0 t m =
      Inr (t\<lparr>cursor_x := x', cursor_y := y'\<rparr>, if sc then scroll_up_mem 64 160 m else m)"
    using move_eq(1) [OF wf(1) _ _ _ _ _ _ tg] p wf(2) by simp
  have xy: "(x', y', sc) = (if cursor_x t < 159 then (cursor_x t + 1, cursor_y t, False)
      else if cursor_wrap t then (0, min 63 (cursor_y t + 1), cursor_y t + 1 \<ge> 64)
      else (159, cursor_y t, False))"
    using tg p unfolding move_target_def mx by (simp add: max_def min_def split: if_splits)
  have "view (t\<lparr>cursor_x := x', cursor_y := y'\<rparr>) (if sc then scroll_up_mem 64 160 m else m) =
      advance (view t m) \<and> 0 \<le> x' \<and> x' < 160 \<and> 0 \<le> y' \<and> y' < 64"
  proof (cases "cursor_x t < 159")
    case True
    then have "x' = cursor_x t + 1" "y' = cursor_y t" "\<not> sc" using xy by simp_all
    then show ?thesis using True p by (simp add: view_place advance_def view_sel nat_add_distrib)
  next
    case False
    then have x: "cursor_x t = 159" using p by simp
    show ?thesis
    proof (cases "cursor_wrap t")
      case True
      show ?thesis
      proof (cases "cursor_y t = 63")
        case True
        then have "x' = 0" "y' = 63" sc using xy x \<open>cursor_wrap t\<close> by simp_all
        then show ?thesis using True x \<open>cursor_wrap t\<close>
          by (simp add: view_place advance_def view_sel line_feed_def view_scroll)
      next
        case False
        then have "x' = 0" "y' = cursor_y t + 1" "\<not> sc" using xy x p \<open>cursor_wrap t\<close> by simp_all
        then show ?thesis using False x \<open>cursor_wrap t\<close> p
          by (simp add: view_place advance_def view_sel line_feed_def nat_add_distrib)
      qed
    next
      case False
      then have "x' = 159" "y' = cursor_y t" "\<not> sc" using xy x by simp_all
      then show ?thesis using False x p by (simp add: view_place advance_def view_sel)
    qed
  qed
  moreover have "scr (t\<lparr>cursor_x := x', cursor_y := y'\<rparr>) (if sc then scroll_up_mem 64 160 m else m)"
    if "0 \<le> x' \<and> x' < 160 \<and> 0 \<le> y' \<and> y' < 64"
    using that scr_place [OF assms(1), of x' y'] cells_shown_scroll [OF wf(3)] by (auto simp: scr_def)
  ultimately show ?thesis using e assms by (auto simp: becomes_def)
qed

lemma putc_becomes:
  assumes "scr t m" "ch \<noteq> 0"
  shows "becomes t (term_putc ch t m) (print_char ch (view t m))"
proof -
  let ?t = "t\<lparr>CharUnderCursor := 0\<rparr>" and ?m = "m(160 + cur_off t := mk_cell t ch)"
  have "scr ?t ?m"
    using assms mk_cell_nonzero by (simp add: scr_def cells_shown_upd)
  then have "becomes ?t (vt100_move 1 0 ?t ?m) (advance (view ?t ?m))"
    by (rule move_right_becomes) simp
  moreover have "term_putc ch t m = vt100_move 1 0 ?t ?m"
    using assms term_putc_eq [of 64 t ch m] by (simp add: scr_def)
  ultimately show ?thesis
    using view_overwrite [OF assms(1), of ch] by (auto simp: becomes_def print_char_def view_place)
qed

lemma putc_n_becomes:
  "scr t m \<Longrightarrow> ch \<noteq> 0 \<Longrightarrow> CharUnderCursor t = 0 \<Longrightarrow>
   becomes t (putc_n n ch t m) ((print_char ch ^^ n) (view t m))"
proof (induction n arbitrary: t m)
  case 0
  then show ?case by (simp add: becomes_def)
next
  case (Suc n)
  from putc_becomes [OF Suc.prems(1,2)] obtain t1 m1 where
    1: "term_putc ch t m = Inr (t1, m1)" "scr t1 m1" "core t1 = core t" "CharUnderCursor t1 = 0"
      "view t1 m1 = print_char ch (view t m)"
    by (auto simp: becomes_def)
  with Suc.IH [OF 1(2) Suc.prems(2) 1(4)] show ?case
    by (auto simp: becomes_def funpow_swap1)
qed

lemma line_feed_becomes:
  assumes "scr t m" "CharUnderCursor t = 0"
  shows "becomes t (vt100_move 0 1 t m) (line_feed (view t m))"
proof -
  note p = scr_pos [OF assms(1)]
  have wf: "wf_screen 64 t" "VRam t = 160" "cells_shown m" using assms by (auto simp: scr_def)
  have mx: "move_x 0 1 t = (cursor_x t, 1)"
    using move_x_right [OF wf(1), of 0 1] p by auto
  have tg: "move_target 64 t 0 1 = (cursor_x t, min 63 (cursor_y t + 1), cursor_y t + 1 \<ge> 64)"
    using p by (simp add: move_target_def mx max_def min_def)
  have e: "vt100_move 0 1 t m = Inr (t\<lparr>cursor_x := cursor_x t, cursor_y := min 63 (cursor_y t + 1)\<rparr>,
      if cursor_y t + 1 \<ge> 64 then scroll_up_mem 64 160 m else m)"
    using move_eq(1) [OF wf(1) _ _ _ _ _ _ tg] p wf(2) by simp
  have sc: "scr (t\<lparr>cursor_x := cursor_x t, cursor_y := min 63 (cursor_y t + 1)\<rparr>)
      (if cursor_y t + 1 \<ge> 64 then scroll_up_mem 64 160 m else m)"
    using scr_place [OF assms(1), of "cursor_x t" "min 63 (cursor_y t + 1)"] p
      cells_shown_scroll [OF wf(3)] by (auto simp: scr_def)
  have "view (t\<lparr>cursor_x := cursor_x t, cursor_y := min 63 (cursor_y t + 1)\<rparr>)
      (if cursor_y t + 1 \<ge> 64 then scroll_up_mem 64 160 m else m) = line_feed (view t m)"
  proof (cases "cursor_y t = 63")
    case True
    then show ?thesis
      by (simp add: view_place line_feed_def view_sel view_scroll) (simp add: view_def)
  next
    case False
    then have "min 63 (cursor_y t + 1) = cursor_y t + 1" "\<not> cursor_y t + 1 \<ge> 64" using p by auto
    then show ?thesis using False p
      by (simp add: view_place line_feed_def view_sel) (auto simp: view_def)
  qed
  with e sc assms show ?thesis by (auto simp: becomes_def)
qed

lemma move_left_becomes:
  assumes "scr t m" "CharUnderCursor t = 0" "0 < cursor_x t"
  shows "becomes t (vt100_move (- 1) 0 t m) ((view t m)\<lparr>col := col (view t m) - 1\<rparr>)"
proof -
  note p = scr_pos [OF assms(1)]
  have wf: "wf_screen 64 t" "VRam t = 160" using assms by (auto simp: scr_def)
  have mx: "move_x (- 1) 0 t = (cursor_x t - 1, 0)"
    using move_x_right [OF wf(1), of "- 1" 0] p assms(3) by auto
  have tg: "move_target 64 t (- 1) 0 = (cursor_x t - 1, cursor_y t, False)"
    using p by (simp add: move_target_def mx max_def min_def)
  have e: "vt100_move (- 1) 0 t m = Inr (t\<lparr>cursor_x := cursor_x t - 1, cursor_y := cursor_y t\<rparr>, m)"
    using move_eq(1) [OF wf(1) _ _ _ _ _ _ tg] p wf(2) assms(3) by simp
  have "view (t\<lparr>cursor_x := cursor_x t - 1, cursor_y := cursor_y t\<rparr>) m =
      (view t m)\<lparr>col := col (view t m) - 1\<rparr>"
    using assms(3) by (simp add: view_def nat_diff_distrib)
  with e p assms scr_place [OF assms(1), of "cursor_x t - 1" "cursor_y t"] show ?thesis
    by (auto simp: becomes_def)
qed

section \<open>One byte\<close>

definition con_becomes :: "console res \<Rightarrow> tty \<Rightarrow> bool" where
  "con_becomes r y \<longleftrightarrow> (\<exists>s'. r = Inr s' \<and> scr (tm s' Term) (vram s') \<and>
     CharUnderCursor (tm s' Term) = 0 \<and> view (tm s' Term) (vram s') = y)"

lemma con_becomesD:
  "con_becomes r y \<Longrightarrow> r = Inr s' \<Longrightarrow> scr (tm s' Term) (vram s') \<and> CharUnderCursor (tm s' Term) = 0 \<and>
     view (tm s' Term) (vram s') = y"
  by (auto simp: con_becomes_def)

lemma con_becomes_on_tm:
  "becomes (tm s Term) (f (tm s Term) (vram s)) y \<Longrightarrow> con_becomes (on_tm Term f s) y"
  by (auto simp: becomes_def con_becomes_def)

lemma con_becomes_bind:
  "con_becomes r y \<Longrightarrow> (\<And>s'. r = Inr s' \<Longrightarrow> con_becomes (g s') y') \<Longrightarrow> con_becomes (rbind r g) y'"
  by (auto simp: con_becomes_def)

lemma con_becomes_col0:
  assumes "scr (tm s Term) (vram s)" "CharUnderCursor (tm s Term) = 0"
  shows "con_becomes (Inr (upd_tm Term (\<lambda>t. t\<lparr>cursor_x := 0\<rparr>) s)) ((view (tm s Term) (vram s))\<lparr>col := 0\<rparr>)"
  using scr_place [OF assms(1), of 0 "cursor_y (tm s Term)"] scr_pos [OF assms(1)] assms
  by (simp add: con_becomes_def view_place)

text \<open>
  The bytes the teletype stands for: not NUL (the cursor glyph over a zero cell is never taken
  away again), not ESC, no backspace in the first column, and no delete in the last column
  when lines wrap.
\<close>

definition tty_ok :: "console \<Rightarrow> u8 \<Rightarrow> bool" where
  "tty_ok s b \<longleftrightarrow> b \<noteq> 0 \<and> b \<noteq> 27 \<and> (b = 8 \<longrightarrow> 0 < cursor_x (tm s Term)) \<and>
     (b = 127 \<longrightarrow> \<not> (cursor_wrap (tm s Term) \<and> cursor_x (tm s Term) = 159))"

definition tty_inv :: "console \<Rightarrow> bool" where
  "tty_inv s \<longleftrightarrow> vt_inv s \<and> state (tm s Term) = St_idle \<and>
     cursor_x (tm s Term) < 160 \<and> cursor_char (tm s Term) = CURSOR_CHAR \<and>
     cells_shown (uncovered (tm s Term) (vram s))"

text \<open>What the monitor shows: the cells of the teletype, and the cursor glyph on top of one.\<close>

definition displays :: "vmem \<Rightarrow> tty \<Rightarrow> bool" where
  "displays m y \<longleftrightarrow> (\<forall>r < 64. \<forall>c < 160. m (160 + 160 * int r + int c) =
     (if r = row y \<and> c = col y then glyph y CURSOR_CHAR else lines_of y ! r ! c))"

lemma delete_becomes:
  assumes sc: "scr (tm s Term) (vram s)" and cu: "CharUnderCursor (tm s Term) = 0"
    and ok: "\<not> (cursor_wrap (tm s Term) \<and> cursor_x (tm s Term) = 159)"
  shows "con_becomes (rbind (on_tm Term (term_putc 32) s) (on_tm Term (vt100_move (- 1) 0)))
    (tty_step 127 (view (tm s Term) (vram s)))"
proof -
  let ?y = "view (tm s Term) (vram s)"
  have c: "col ?y \<le> 159" "wraps ?y = cursor_wrap (tm s Term)" "col ?y = 159 \<longleftrightarrow> cursor_x (tm s Term) = 159"
    using scr_pos [OF sc] by (auto simp: view_sel)
  show ?thesis
  proof (rule con_becomes_bind)
    show p: "con_becomes (on_tm Term (term_putc 32) s) (print_char 32 ?y)"
      by (intro con_becomes_on_tm putc_becomes sc) simp
    fix s' assume s': "on_tm Term (term_putc 32) s = Inr s'"
    from con_becomesD [OF p s'] have 1: "scr (tm s' Term) (vram s')" "CharUnderCursor (tm s' Term) = 0"
      "view (tm s' Term) (vram s') = print_char 32 ?y" by auto
    have pc: "col (print_char 32 ?y) = (if col ?y = 159 then 159 else col ?y + 1)"
      using c ok by (auto simp: print_char_def advance_def overwrite_def)
    have "col (print_char 32 ?y) = nat (cursor_x (tm s' Term))"
      using 1(3) view_sel(3) by metis
    with pc have pos: "0 < cursor_x (tm s' Term)" by (auto split: if_splits)
    have "con_becomes (on_tm Term (vt100_move (- 1) 0) s')
        ((print_char 32 ?y)\<lparr>col := col (print_char 32 ?y) - 1\<rparr>)"
      using move_left_becomes [OF 1(1,2) pos] unfolding 1(3) by (rule con_becomes_on_tm)
    moreover have "(print_char 32 ?y)\<lparr>col := col (print_char 32 ?y) - 1\<rparr> = tty_step 127 ?y"
      using c ok by (auto simp: tty_step_def print_char_def advance_def overwrite_def)
    ultimately show "con_becomes (on_tm Term (vt100_move (- 1) 0) s') (tty_step 127 ?y)" by simp
  qed
qed

lemma new_line_becomes:
  assumes sc: "scr (tm s Term) (vram s)" and cu: "CharUnderCursor (tm s Term) = 0"
  shows "con_becomes (rbind (on_tm Term (vt100_move 0 1) s)
      (\<lambda>s'. Inr (upd_tm Term (\<lambda>t. t\<lparr>cursor_x := 0\<rparr>) s'))) (tty_step 10 (view (tm s Term) (vram s)))"
proof (rule con_becomes_bind)
  show l: "con_becomes (on_tm Term (vt100_move 0 1) s) (line_feed (view (tm s Term) (vram s)))"
    by (intro con_becomes_on_tm line_feed_becomes sc cu)
  fix s' assume "on_tm Term (vt100_move 0 1) s = Inr s'"
  from con_becomesD [OF l this] con_becomes_col0 [of s']
  show "con_becomes (Inr (upd_tm Term (\<lambda>t. t\<lparr>cursor_x := 0\<rparr>) s')) (tty_step 10 (view (tm s Term) (vram s)))"
    by (simp add: tty_step_def)
qed

lemma tab_count_eq: "scr t m \<Longrightarrow> tab_count t = 4 - col (view t m) mod 4"
proof -
  assume "scr t m"
  then have p: "0 \<le> cursor_x t" using scr_pos by blast
  then have "nat (cursor_x t mod 4) = nat (cursor_x t) mod 4" by (simp add: nat_mod_distrib)
  moreover have "nat (4 - cursor_x t mod 4) = 4 - nat (cursor_x t mod 4)" by (simp add: nat_diff_distrib)
  ultimately show ?thesis using p by (simp add: tab_count_def smod_nonneg view_sel)
qed

lemma u8_u16_num:
  "(ucast (b :: u8) :: u16) = 5 \<longleftrightarrow> b = 5" "(ucast b :: u16) = 7 \<longleftrightarrow> b = 7"
  "(ucast b :: u16) = 8 \<longleftrightarrow> b = 8" "(ucast b :: u16) = 9 \<longleftrightarrow> b = 9"
  "(ucast b :: u16) = 10 \<longleftrightarrow> b = 10" "(ucast b :: u16) = 13 \<longleftrightarrow> b = 13"
  "(ucast b :: u16) = 27 \<longleftrightarrow> b = 27" "(ucast b :: u16) = 127 \<longleftrightarrow> b = 127"
  using u8_u16_eq [of b 5] u8_u16_eq [of b 7] u8_u16_eq [of b 8] u8_u16_eq [of b 9]
    u8_u16_eq [of b 10] u8_u16_eq [of b 13] u8_u16_eq [of b 27] u8_u16_eq [of b 127]
  by simp_all

lemma u8_of_u16: "(ucast (ucast (b :: u8) :: u16) :: u8) = b"
  by (rule bit_word_eqI) (simp add: bit_simps)

lemma idle_becomes:
  assumes sc: "scr (tm s Term) (vram s)" and cu: "CharUnderCursor (tm s Term) = 0"
    and ok: "tty_ok s b"
  shows "con_becomes (idle_exec (ucast b) Term s) (tty_step b (view (tm s Term) (vram s)))"
proof -
  let ?y = "view (tm s Term) (vram s)"
  have ok': "b \<noteq> 0" "b \<noteq> 27" using ok by (simp_all add: tty_ok_def)
  note e = idle_exec_def u8_u16_num u8_of_u16
  consider "b = 5 \<or> b = 7" | "b = 8" | "b = 9" | "b = 10" | "b = 13" | "b = 127"
    | "b \<notin> {5, 7, 8, 9, 10, 13, 127}" by blast
  then show ?thesis
  proof cases
    case 1
    then show ?thesis using sc cu by (auto simp: e tty_step_def con_becomes_def)
  next
    case 2
    then have "0 < cursor_x (tm s Term)" using ok by (simp add: tty_ok_def)
    have "con_becomes (on_tm Term (vt100_move (- 1) 0) s) (?y\<lparr>col := col ?y - 1\<rparr>)"
      by (intro con_becomes_on_tm move_left_becomes sc cu) fact
    with 2 show ?thesis by (simp add: e tty_step_def)
  next
    case 3
    have "con_becomes (on_tm Term (putc_n (tab_count (tm s Term)) 32) s)
        ((print_char 32 ^^ tab_count (tm s Term)) ?y)"
      by (intro con_becomes_on_tm putc_n_becomes sc cu) simp
    with 3 show ?thesis by (simp add: e tty_step_def tab_count_eq [OF sc])
  next
    case 4
    with new_line_becomes [OF sc cu] show ?thesis by (simp add: e)
  next
    case 5
    with con_becomes_col0 [OF sc cu] show ?thesis by (simp add: e tty_step_def)
  next
    case 6
    have "\<not> (cursor_wrap (tm s Term) \<and> cursor_x (tm s Term) = 159)"
      using 6 ok by (simp add: tty_ok_def)
    from delete_becomes [OF sc cu this] 6 show ?thesis by (simp add: e)
  next
    case 7
    have "con_becomes (on_tm Term (term_putc b) s) (print_char b ?y)"
      using ok' by (intro con_becomes_on_tm putc_becomes sc)
    with 7 ok' show ?thesis by (simp add: e tty_step_def)
  qed
qed

lemma uncovered_removeCursor:
  assumes "wf_screen 64 t"
  shows "vt100_removeCursor t m = Inr (t\<lparr>CharUnderCursor := 0\<rparr>, uncovered t m)"
  using removeCursor_eq [OF assms] by (simp add: uncovered_def)

lemma uncovered_drawCursor:
  assumes "scr t m"
  shows "\<exists>t' m'. vt100_drawCursor t m = Inr (t', m') \<and> uncovered t' m' = m \<and>
    m' = m(160 + cur_off t := mk_cell t CURSOR_CHAR) \<and> t' = t\<lparr>CharUnderCursor := m (160 + cur_off t)\<rparr>"
proof -
  have wf: "wf_screen 64 t" "VRam t = 160" "cells_shown m" "cursor_char t = CURSOR_CHAR"
    using assms by (simp_all add: scr_def)
  have "m (160 + cur_off t) \<noteq> 0"
    using cur_off_bounds [OF wf(1)] by (intro cells_shownD [OF wf(3)]) auto
  then show ?thesis
    using wf(2,4) by (simp add: vt100_drawCursor_def Let_def uncovered_def cur_off_def CURSOR_CHAR_def)
qed

lemma displays_drawn:
  assumes "scr t m"
  shows "displays (m(160 + cur_off t := mk_cell t CURSOR_CHAR)) (view t m)"
proof -
  note p = scr_pos [OF assms]
  have "(160 + 160 * int r + int c = 160 + cur_off t) = (r = nat (cursor_y t) \<and> c = nat (cursor_x t))"
    if "c < 160" for r c
  proof -
    have "160 * int r + int c = 160 * cursor_y t + cursor_x t \<longleftrightarrow> int r = cursor_y t \<and> int c = cursor_x t"
    proof
      assume e: "160 * int r + int c = 160 * cursor_y t + cursor_x t"
      then have "(160 * int r + int c) div 160 = (160 * cursor_y t + cursor_x t) div 160" by simp
      then have "int r = cursor_y t" using that p by simp
      with e show "int r = cursor_y t \<and> int c = cursor_x t" by simp
    qed simp
    moreover have "cur_off t = 160 * cursor_y t + cursor_x t"
      using assms by (simp add: cur_off_def scr_def wf_screen_def)
    ultimately show ?thesis using p by auto
  qed
  then show ?thesis
    by (auto simp: displays_def view_def glyph_def mk_cell_def screen_rows_def)
qed

lemma tty_step_refines:
  assumes inv: "tty_inv s" and ok: "tty_ok s b"
  shows "\<exists>s'. vt100_putc b s = Inr s' \<and> tty_inv s' \<and> tty_of s' = tty_step b (tty_of s) \<and>
    displays (vram s') (tty_step b (tty_of s))"
proof -
  let ?t = "tm s Term"
  have i: "vt_inv s" "state ?t = St_idle" "cursor_x ?t < 160" "cells_shown (uncovered ?t (vram s))"
    "cursor_char ?t = CURSOR_CHAR"
    using inv by (auto simp: tty_inv_def)
  then have wf: "wf_screen 64 ?t" "VRam ?t = 160" by (auto simp: vt_inv_def con_inv_def tm_inv_def)
  have "b \<noteq> 27" using ok by (simp add: tty_ok_def)
  from vt100_putc_plain [OF i(1,2) this] obtain s' where
    s': "vt100_putc b s = Inr s'" "vt_inv s'" "state (tm s' Term) = St_idle"
      "call_state EV_CHAR (ucast b) Term s = Inr s'" by blast
  define s1 where "s1 = s\<lparr>tm := (tm s)(Term := ?t\<lparr>CharUnderCursor := 0\<rparr>), vram := uncovered ?t (vram s)\<rparr>"
  have s1: "on_tm Term vt100_removeCursor s = Inr s1"
    unfolding s1_def by (rule on_tm_Inr, rule uncovered_removeCursor) fact
  have p1: "scr (tm s1 Term) (vram s1)" "CharUnderCursor (tm s1 Term) = 0" "tty_ok s1 b"
    "view (tm s1 Term) (vram s1) = tty_of s"
    using wf i ok by (simp_all add: s1_def scr_def tty_ok_def tty_of_def view_place)
  from idle_becomes [OF p1(1-3)] obtain s2 where s2: "idle_exec (ucast b) Term s1 = Inr s2"
    "scr (tm s2 Term) (vram s2)" "view (tm s2 Term) (vram s2) = tty_step b (tty_of s)"
    unfolding p1(4) by (auto simp: con_becomes_def)
  from uncovered_drawCursor [OF s2(2)] obtain t3 m3 where 3:
    "vt100_drawCursor (tm s2 Term) (vram s2) = Inr (t3, m3)" "uncovered t3 m3 = vram s2"
    "m3 = (vram s2)(160 + cur_off (tm s2 Term) := mk_cell (tm s2 Term) CURSOR_CHAR)"
    "t3 = (tm s2 Term)\<lparr>CharUnderCursor := vram s2 (160 + cur_off (tm s2 Term))\<rparr>" by blast
  have "s' = s2\<lparr>tm := (tm s2)(Term := t3), vram := m3\<rparr>"
    using s'(4) i(2) s1 s2(1) on_tm_Inr [of vt100_drawCursor s2 Term, OF 3(1)]
    by (simp add: call_state_def call_ret_def st_idle_def)
  then have e: "tm s' Term = t3" "vram s' = m3" by simp_all
  have v: "view t3 (uncovered t3 m3) = tty_step b (tty_of s)"
    using s2(3) by (simp add: 3(2)) (simp add: 3(4) view_place)
  have d: "displays m3 (tty_step b (tty_of s))"
    using displays_drawn [OF s2(2)] by (simp add: 3(3) s2(3))
  have "cursor_x t3 < 160 \<and> cells_shown (uncovered t3 m3) \<and> cursor_char t3 = CURSOR_CHAR"
    using s2(2) by (simp add: 3(2)) (simp add: 3(4) scr_def)
  with s' e v d show ?thesis by (auto simp: tty_inv_def tty_of_def)
qed

interpretation teletype: refined_machine vt100_putc tty_inv tty_ok tty_of tty_step
proof
  show "\<exists>s'. vt100_putc b s = Inr s' \<and> tty_inv s'" if "tty_inv s" "tty_ok s b" for s b
    using tty_step_refines [OF that] by blast
  show "tty_of s' = tty_step b (tty_of s)" if "tty_inv s" "tty_ok s b" "vt100_putc b s = Inr s'" for s b s'
    using tty_step_refines [OF that(1,2)] that(3) by auto
qed

section \<open>Results\<close>

text \<open>
  Claim C4. The terminal refines the teletype: over any stream of bytes within \<open>tty_ok\<close>, the
  terminal consumes every byte, and what it then shows below the cursor, its cursor and its
  colors are what the abstract teletype computes by folding \<open>tty_step\<close> over the bytes.
\<close>

theorem vt100_refines_teletype:
  assumes "tty_inv s" and "guarded tty_ok vt100_putc bs s"
  shows "\<exists>s'. run_list vt100_putc bs s = Inr s' \<and> tty_inv s' \<and> tty_of s' = fold tty_step bs (tty_of s)"
  using assms by (rule teletype.run_refines)

lemma uncovered_booted: "uncovered (tm booted Term) (vram booted) = vram booted"
  by (simp add: uncovered_def booted_def vt100_init_def vt100_reset_def reset_term_def Let_def
      bss_console_def zero_tm_def)

lemma booted_tty: "tty_inv booted"
proof -
  have "cursor_x (tm booted Term) = 0" "cursor_char (tm booted Term) = CURSOR_CHAR"
    by (simp_all add: booted_def vt100_init_def vt100_reset_def reset_term_def Let_def)
  moreover have "cells_shown (vram booted)"
    by (auto simp: booted_def vt100_init_vram cells_shown_def fill_def)
  ultimately show ?thesis
    using booted_inv uncovered_booted by (simp add: tty_inv_def)
qed

lemma tty_booted: "row (tty_of booted) = 0" "col (tty_of booted) = 0"
  by (simp_all add: tty_of_def view_def booted_def vt100_init_def vt100_reset_def reset_term_def Let_def)

lemma guarded_text:
  "set bs \<inter> {0, 8, 27, 127} = {} \<Longrightarrow> guarded tty_ok vt100_putc bs s"
  by (rule guarded_all) (auto simp: tty_ok_def)

theorem vt100_refines_teletype_witness:
  "tty_inv booted \<and> guarded tty_ok vt100_putc [72, 105, 13, 10, 33] booted \<and>
   (\<exists>s'. run_list vt100_putc [72, 105, 13, 10, 33] booted = Inr s' \<and> tty_inv s' \<and>
     tty_of s' = fold tty_step [72, 105, 13, 10, 33] (tty_of booted) \<and>
     row (tty_of s') = 1 \<and> col (tty_of s') = 1)"
proof -
  have g: "guarded tty_ok vt100_putc [72, 105, 13, 10, 33] booted"
    by (rule guarded_text) simp
  have "row (fold tty_step [72, 105, 13, 10, 33] (tty_of booted)) = 1"
    "col (fold tty_step [72, 105, 13, 10, 33] (tty_of booted)) = 1"
    by (simp_all add: tty_step_def print_char_def advance_def overwrite_def line_feed_def tty_booted)
  with vt100_refines_teletype [OF booted_tty g] booted_tty g show ?thesis by fastforce
qed

text \<open>
  What the monitor shows after each byte of such a stream: every cell of the 64x160
  screen holds the teletype's cell, except that the cursor glyph, in the current colors, stands
  at the teletype's position.
\<close>

theorem vt100_display:
  assumes "tty_inv s" and "guarded tty_ok vt100_putc (bs @ [b]) s"
  shows "\<exists>s'. run_list vt100_putc (bs @ [b]) s = Inr s' \<and>
    displays (vram s') (fold tty_step (bs @ [b]) (tty_of s))"
proof -
  from guarded_appendD [OF assms(2)] have g: "guarded tty_ok vt100_putc bs s"
    "\<And>s'. run_list vt100_putc bs s = Inr s' \<Longrightarrow> guarded tty_ok vt100_putc [b] s'" by auto
  from teletype.run_refines [OF assms(1) g(1)] obtain s1 where
    1: "run_list vt100_putc bs s = Inr s1" "tty_inv s1" "tty_of s1 = fold tty_step bs (tty_of s)" by blast
  with g(2) have "tty_ok s1 b" by simp
  from tty_step_refines [OF 1(2) this] 1 show ?thesis by (auto simp: run_list_append)
qed

theorem vt100_display_witness:
  "tty_inv booted \<and> guarded tty_ok vt100_putc ([65] @ [66]) booted \<and>
   (\<exists>s'. run_list vt100_putc ([65] @ [66]) booted = Inr s' \<and>
     displays (vram s') (fold tty_step ([65] @ [66]) (tty_of booted)))"
proof -
  have g: "guarded tty_ok vt100_putc ([65] @ [66]) booted"
    by (rule guarded_text) simp
  from vt100_display [OF booted_tty g] booted_tty g show ?thesis by blast
qed

end
