(* ===== verification/Vt100_Commands.thy ===== *)
theory Vt100_Commands
  imports Vt100_Refine
begin

text \<open>
  What control sequences do. A host prints \<open>ESC [\<close>, decimal arguments and a final byte; the
  parser collects the arguments and the final byte runs a command. The lemmas carry the
  abstraction of \<open>Vt100_Refine\<close> through the parser states, so that cursor addressing,
  cursor movement, clearing and colors are equations on the abstract screen.
\<close>

section \<open>Running a control sequence up to its last byte\<close>

lemma putc_quiet:
  assumes "call_state EV_CHAR (ucast b) Term s = Inr s1" "streams s1 = streams s" "status_stream_ptr s = 0"
  shows "vt100_putc b s = Inr s1"
proof -
  have "status_stream_ptr s1 = 0" using assms(2,3) by (simp add: streams_def)
  then have "status_flush_loop 0 s1 = Some (Inr s1)"
    by (subst status_flush_loop.simps) simp
  moreover have "s1\<lparr>status_stream_ptr := 0\<rparr> = s1" using \<open>status_stream_ptr s1 = 0\<close> by simp
  ultimately show ?thesis using assms(1) by (simp add: vt100_putc_def status_flush_def)
qed

text \<open>Decimal numbers as bytes, and what the argument parser makes of them.\<close>

fun dec :: "nat \<Rightarrow> u8 list" where
  "dec n = (if n < 10 then [of_nat (48 + n)] else dec (n div 10) @ [of_nat (48 + n mod 10)])"

declare dec.simps [simp del]

lemma digit_u16:
  assumes "n < 10"
  shows "(ucast (of_nat (48 + n) :: u8) :: u16) = of_nat (48 + n)"
    and "isdigit (ucast (of_nat (48 + n) :: u8))"
    and "(ucast (of_nat (48 + n) :: u8) :: u16) - 48 = of_nat n"
proof -
  have "n = 0 \<or> n = 1 \<or> n = 2 \<or> n = 3 \<or> n = 4 \<or> n = 5 \<or> n = 6 \<or> n = 7 \<or> n = 8 \<or> n = 9"
    using assms by presburger
  then show "(ucast (of_nat (48 + n) :: u8) :: u16) = of_nat (48 + n)"
    "isdigit (ucast (of_nat (48 + n) :: u8))"
    "(ucast (of_nat (48 + n) :: u8) :: u16) - 48 = of_nat n"
    by (elim disjE; simp add: isdigit_def)+
qed

definition arg_state :: "vstate \<Rightarrow> vstate option \<Rightarrow> vstate option" where
  "arg_state st r = (if st = St_command_arg then r else Some St_esc_sq_bracket)"

lemma ctl_run_digit:
  assumes "st = St_esc_sq_bracket \<or> st = St_command_arg" "k < 16" "d < 10"
  shows "ctl_run Term (st, r, k, as) [of_nat (48 + d)] =
    Some (St_command_arg, arg_state st r, k, as[k := as ! k * 10 + of_nat d])"
  using assms(1,2) digit_u16 [OF assms(3)] by (auto simp: arg_state_def)

lemma ctl_run_dec:
  assumes "st = St_esc_sq_bracket \<or> st = St_command_arg" "k < 16" "length as = 16" "as ! k = 0"
  shows "ctl_run Term (st, r, k, as) (dec n) = Some (St_command_arg, arg_state st r, k, as[k := of_nat n])"
proof (induction n rule: dec.induct)
  case (1 n)
  show ?case
  proof (cases "n < 10")
    case True
    then show ?thesis using assms ctl_run_digit [OF assms(1,2) True] by (simp add: dec.simps)
  next
    case False
    have "of_nat (n div 10) * 10 + of_nat (n mod 10) = (of_nat n :: u16)"
      by (metis div_mult_mod_eq of_nat_add of_nat_mult of_nat_numeral)
    then show ?thesis
      using False 1 assms ctl_run_digit [of St_command_arg k "n mod 10" "arg_state st r" "as[k := of_nat (n div 10)]"]
      by (simp add: dec.simps [of n] ctl_run_append arg_state_def del: ctl_run.simps)
  qed
qed

text \<open>The argument list \<open>a1;a2;...\<close> of a control sequence.\<close>

fun dec_args :: "nat list \<Rightarrow> u8 list" where
  "dec_args [] = []"
| "dec_args [n] = dec n"
| "dec_args (n # ns) = dec n @ [59] @ dec_args ns"

definition csi :: "nat list \<Rightarrow> u8 list" where
  "csi ns = [27, 91] @ dec_args ns"

definition args_after :: "nat list \<Rightarrow> u16 list" where
  "args_after ns = map of_nat ns @ replicate (16 - length ns) 0"

lemma store_arg:
  "length as = k \<Longrightarrow> k < 16 \<Longrightarrow>
   (as @ replicate (16 - k) 0)[k := v] = (as @ [v]) @ replicate (16 - Suc k) 0"
  by (cases "16 - k") (auto simp: list_update_append)

lemma ctl_run_args:
  assumes "ns \<noteq> []" "k + length ns \<le> 16" "length as = k"
    "st = St_esc_sq_bracket \<or> st = St_command_arg"
  shows "ctl_run Term (st, r, k, as @ replicate (16 - k) 0) (dec_args ns) =
    Some (St_command_arg, arg_state st r, k + length ns - 1,
      as @ map of_nat ns @ replicate (16 - (k + length ns)) 0)"
  using assms
proof (induction ns arbitrary: k as st r rule: dec_args.induct)
  case 1
  then show ?case by simp
next
  case (2 n)
  have k: "length as = k" "k < 16" using 2 by simp_all
  have "(as @ replicate (16 - k) 0) ! k = 0" using k by (simp add: nth_append)
  from ctl_run_dec [OF 2(4) k(2) _ this, of r n] k show ?case
    unfolding store_arg [OF k] by simp
next
  case (3 n m ns)
  have k: "length as = k" "k < 16" using 3 by simp_all
  have z: "(as @ replicate (16 - k) 0) ! k = 0" using k by (simp add: nth_append)
  have d: "ctl_run Term (st, r, k, as @ replicate (16 - k) 0) (dec n) =
      Some (St_command_arg, arg_state st r, k, (as @ [of_nat n]) @ replicate (16 - Suc k) 0)"
    using ctl_run_dec [OF "3.prems"(4) k(2) _ z, of r n] k unfolding store_arg [OF k] by simp
  have s: "ctl_run Term (St_command_arg, arg_state st r, k, bs) [59] =
      Some (St_command_arg, arg_state st r, Suc k, bs)" for bs
    using 3 by (simp add: isdigit_def)
  have i: "ctl_run Term (St_command_arg, arg_state st r, Suc k, (as @ [of_nat n]) @ replicate (16 - Suc k) 0) (dec_args (m # ns)) =
      Some (St_command_arg, arg_state st r, k + length (n # m # ns) - 1,
        as @ map of_nat (n # m # ns) @ replicate (16 - (k + length (n # m # ns))) 0)"
    using "3.IH" [of "Suc k" "as @ [of_nat n]" St_command_arg "arg_state st r"] "3.prems"
    by (simp add: arg_state_def)
  show ?case
    unfolding dec_args.simps ctl_run_append d option.case s i by simp
qed

lemma ctl_run_csi:
  assumes "ns \<noteq> []" "length ns \<le> 16"
  shows "ctl_run Term (St_idle, r, n, as) (csi ns) =
    Some (St_command_arg, Some St_esc_sq_bracket, length ns - 1, args_after ns)"
  using ctl_run_args [of ns 0 "[]" St_esc_sq_bracket r] assms
  by (simp add: csi_def args_after_def arg_state_def)

text \<open>
  Claim C36. The argument parser reads back what a host prints: after \<open>ESC [\<close> and up to 16
  decimal numbers separated by semicolons, the terminal is collecting arguments, holds each
  number modulo 65536, and is otherwise as the invariant demands.
\<close>

theorem csi_args_parsed:
  assumes "vt_inv s" and "state (tm s Term) = St_idle" and "ns \<noteq> []" and "length ns \<le> 16"
  shows "\<exists>s'. run_list vt100_putc (csi ns) s = Inr s' \<and> vt_inv s' \<and>
    state (tm s' Term) = St_command_arg \<and> ret_state (tm s' Term) = Some St_esc_sq_bracket \<and>
    narg (tm s' Term) = length ns - 1 \<and> take (length ns) (args (tm s' Term)) = map of_nat ns"
proof -
  have "ctl_of (tm s Term) = (St_idle, ret_state (tm s Term), narg (tm s Term), args (tm s Term))"
    using assms by (simp add: ctl_of_def)
  from guarded_ctl [OF assms(1) this ctl_run_csi [OF assms(3,4)]] obtain s' where
    "run_list vt100_putc (csi ns) s = Inr s'" "vt_inv s'"
    "ctl_of (tm s' Term) = (St_command_arg, Some St_esc_sq_bracket, length ns - 1, args_after ns)" by blast
  then show ?thesis by (auto simp: ctl_of_def args_after_def)
qed

theorem csi_args_parsed_witness:
  "vt_inv booted \<and> state (tm booted Term) = St_idle \<and> [38, 5, 65537] \<noteq> ([] :: nat list) \<and>
   length [38, 5, 65537 :: nat] \<le> 16 \<and>
   (\<exists>s'. run_list vt100_putc (csi [38, 5, 65537]) booted = Inr s' \<and> vt_inv s' \<and>
     state (tm s' Term) = St_command_arg \<and> ret_state (tm s' Term) = Some St_esc_sq_bracket \<and>
     narg (tm s' Term) = length [38, 5, 65537 :: nat] - 1 \<and>
     take (length [38, 5, 65537 :: nat]) (args (tm s' Term)) = map of_nat [38, 5, 65537])"
  using csi_args_parsed [OF booted_inv, of "[38, 5, 65537]"] booted_inv by simp

section \<open>Control sequences on the abstract screen\<close>

text \<open>The invariant of the abstraction in any state of the parser.\<close>

definition vis :: "console \<Rightarrow> bool" where
  "vis s \<longleftrightarrow> vt_inv s \<and> scr (tm s Term) (uncovered (tm s Term) (vram s))"

lemma vis_tty_inv: "tty_inv s \<longleftrightarrow> vis s \<and> state (tm s Term) = St_idle"
  by (auto simp: vis_def tty_inv_def scr_def vt_inv_def con_inv_def tm_inv_def)

lemma view_ctl [simp]:
  "view (t\<lparr>narg := n\<rparr>) m = view t m" "view (t\<lparr>args := as\<rparr>) m = view t m"
  "view (t\<lparr>state := st\<rparr>) m = view t m" "view (t\<lparr>ret_state := r\<rparr>) m = view t m"
  "view (t\<lparr>CharUnderCursor := c\<rparr>) m = view t m"
  by (simp_all add: view_def)

lemma scr_ctl [simp]:
  "scr (t\<lparr>narg := n\<rparr>) m = scr t m" "scr (t\<lparr>args := as\<rparr>) m = scr t m"
  "scr (t\<lparr>state := st\<rparr>) m = scr t m" "scr (t\<lparr>ret_state := r\<rparr>) m = scr t m"
  "scr (t\<lparr>CharUnderCursor := c\<rparr>) m = scr t m"
  by (simp_all add: scr_def wf_screen_def)

lemma uncovered_ctl [simp]:
  "uncovered (t\<lparr>narg := n\<rparr>) m = uncovered t m" "uncovered (t\<lparr>args := as\<rparr>) m = uncovered t m"
  "uncovered (t\<lparr>state := st\<rparr>) m = uncovered t m" "uncovered (t\<lparr>ret_state := r\<rparr>) m = uncovered t m"
  by (simp_all add: uncovered_def cur_off_def)

definition shows_tty :: "console \<Rightarrow> tty \<Rightarrow> bool" where
  "shows_tty s y \<longleftrightarrow> scr (tm s Term) (uncovered (tm s Term) (vram s)) \<and> tty_of s = y"

text \<open>A handler that takes the cursor away, works on the bare screen and paints the cursor again.\<close>

definition bare :: "console \<Rightarrow> console" where
  "bare s = s\<lparr>tm := (tm s)(Term := (tm s Term)\<lparr>CharUnderCursor := 0\<rparr>),
              vram := uncovered (tm s Term) (vram s)\<rparr>"

lemma remove_bare: "vis s \<Longrightarrow> on_tm Term vt100_removeCursor s = Inr (bare s)"
  unfolding bare_def by (rule on_tm_Inr, rule uncovered_removeCursor) (simp add: vis_def scr_def)

lemma bare_sel:
  "tm (bare s) Term = (tm s Term)\<lparr>CharUnderCursor := 0\<rparr>"
  "vram (bare s) = uncovered (tm s Term) (vram s)" "streams (bare s) = streams s"
  by (simp_all add: bare_def streams_def)

lemma bare_view: "view (tm (bare s) Term) (vram (bare s)) = tty_of s"
  by (simp add: bare_sel tty_of_def)

lemma bare_scr: "vis s \<Longrightarrow> scr (tm (bare s) Term) (vram (bare s))"
  by (simp add: bare_sel vis_def)

lemma draw_shows:
  assumes "scr (tm s Term) (vram s)"
  shows "\<exists>s'. on_tm Term vt100_drawCursor s = Inr s' \<and> shows_tty s' (view (tm s Term) (vram s)) \<and>
    streams s' = streams s \<and> core (tm s' Term) = core (tm s Term) \<and> displays (vram s') (tty_of s')"
proof -
  from uncovered_drawCursor [OF assms] obtain t' m' where d:
    "vt100_drawCursor (tm s Term) (vram s) = Inr (t', m')" "uncovered t' m' = vram s"
    "m' = (vram s)(160 + cur_off (tm s Term) := mk_cell (tm s Term) CURSOR_CHAR)"
    "t' = (tm s Term)\<lparr>CharUnderCursor := vram s (160 + cur_off (tm s Term))\<rparr>" by blast
  let ?s = "s\<lparr>tm := (tm s)(Term := t'), vram := m'\<rparr>"
  have "on_tm Term vt100_drawCursor s = Inr ?s" using d(1) by (rule on_tm_Inr)
  moreover have "tty_of ?s = view (tm s Term) (vram s)"
    by (simp add: tty_of_def d(2)) (simp add: d(4))
  moreover have "scr (tm ?s Term) (uncovered (tm ?s Term) (vram ?s))"
    using assms by (simp add: d(2)) (simp add: d(4))
  moreover have "displays (vram ?s) (view (tm s Term) (vram s))"
    using displays_drawn [OF assms] by (simp add: d(3))
  moreover have "core (tm ?s Term) = core (tm s Term)" by (simp add: d(4))
  ultimately show ?thesis by (auto simp: shows_tty_def streams_def)
qed

lemma bracket_shows:
  assumes "vis s" and "g (bare s) = Inr s2" and "scr (tm s2 Term) (vram s2)"
  shows "\<exists>s'. rbind (on_tm Term vt100_removeCursor s) (\<lambda>s1. rbind (g s1) (on_tm Term vt100_drawCursor)) = Inr s' \<and>
    shows_tty s' (view (tm s2 Term) (vram s2)) \<and> streams s' = streams s2 \<and>
    core (tm s' Term) = core (tm s2 Term) \<and> displays (vram s') (tty_of s')"
  using draw_shows [OF assms(3)] by (simp add: remove_bare [OF assms(1)] assms(2))

text \<open>The bytes of a sequence before the last one do not change the screen.\<close>

definition collects :: "vstate \<Rightarrow> u16 \<Rightarrow> bool" where
  "collects st a \<longleftrightarrow> (st = St_idle \<and> a = 27) \<or> (st = St_escape \<and> a = 91) \<or>
     ((st = St_esc_sq_bracket \<or> st = St_command_arg) \<and> isdigit a) \<or> (st = St_command_arg \<and> a = 59)"

lemma collect_shows:
  assumes v: "vis s" and c: "collects (state (tm s Term)) a" and n: "isdigit a \<Longrightarrow> narg (tm s Term) < 16"
  shows "\<exists>s'. call_state EV_CHAR a Term s = Inr s' \<and> shows_tty s' (tty_of s)"
proof -
  let ?t = "tm s Term"
  have sc: "scr ?t (uncovered ?t (vram s))" using v by (simp add: vis_def)
  consider (esc) "state ?t = St_idle" "a = 27" | (bracket) "state ?t = St_escape" "a = 91"
    | (first) "state ?t = St_esc_sq_bracket" "isdigit a" | (digit) "state ?t = St_command_arg" "isdigit a"
    | (sep) "state ?t = St_command_arg" "a = 59"
    using c by (auto simp: collects_def)
  then show ?thesis
  proof cases
    case esc
    let ?s2 = "goto St_escape Term (bare s)"
    have "\<exists>s'. st_idle EV_CHAR a Term s = Inr s' \<and> shows_tty s' (view (tm ?s2 Term) (vram ?s2))"
      using bracket_shows [OF v, of "idle_exec a Term" ?s2] bare_scr [OF v] esc
      by (fastforce simp: st_idle_def idle_exec_def goto_def)
    with esc show ?thesis
      by (simp add: call_state_def call_ret_def goto_def bare_view)
  next
    case bracket
    let ?s2 = "goto St_esc_sq_bracket Term (upd_tm Term CLEAR_ARGS (bare s))"
    have "\<exists>s'. st_escape EV_CHAR a Term s = Inr s' \<and> shows_tty s' (view (tm ?s2 Term) (vram ?s2))"
      using bracket_shows [OF v, of "esc_exec a Term" ?s2] bare_scr [OF v] bracket
      by (fastforce simp: st_escape_def esc_exec_def goto_def CLEAR_ARGS_def)
    with bracket show ?thesis
      by (simp add: call_state_def call_ret_def goto_def CLEAR_ARGS_def bare_view)
  next
    case first
    with sc n show ?thesis
      by (simp add: call_state_def call_ret_def st_esc_sq_bracket_def start_arg_def upd_res_def
          command_arg_digit_def goto_def upd_tm_def MAX_COMMAND_ARGS_def shows_tty_def tty_of_def)
  next
    case digit
    with sc n show ?thesis
      by (simp add: call_state_def st_command_arg_def upd_res_def
          command_arg_digit_def MAX_COMMAND_ARGS_def shows_tty_def tty_of_def)
  next
    case sep
    with sc show ?thesis
      by (simp add: call_state_def st_command_arg_def isdigit_def upd_tm_def shows_tty_def tty_of_def)
  qed
qed

lemma putc_collect:
  assumes v: "vis s" and c: "collects (state (tm s Term)) (ucast b)"
    and st: "ctl_step Term (ctl_of (tm s Term)) (ucast b) = Some c'"
  shows "\<exists>s'. vt100_putc b s = Inr s' \<and> vis s' \<and> tty_of s' = tty_of s \<and> ctl_of (tm s' Term) = c'"
proof -
  have i: "con_inv s" "status_stream_ptr s = 0" "state (tm s Status) = St_idle"
    using v by (auto simp: vis_def vt_inv_def)
  have "narg (tm s Term) < 16" if "isdigit (ucast b)"
    using c st that by (auto simp: collects_def ctl_of_def isdigit_def split: if_splits)
  from collect_shows [OF v c this] ctl_call_state [OF i(1) refl st] obtain s' where
    s': "call_state EV_CHAR (ucast b) Term s = Inr s'" "shows_tty s' (tty_of s)" "con_inv s'"
      "streams s' = streams s" "tm s' Status = tm s Status" "ctl_of (tm s' Term) = c'"
    by (auto simp: ctl_ok_def)
  from putc_quiet [OF s'(1,4) i(2)] s' i show ?thesis
    by (auto simp: vis_def vt_inv_def shows_tty_def streams_def)
qed

lemma run_collect_args:
  "vis s \<Longrightarrow> ctl_of (tm s Term) = c \<Longrightarrow> ctl_run Term c bs = Some c' \<Longrightarrow>
   fst c = St_esc_sq_bracket \<or> fst c = St_command_arg \<Longrightarrow>
   \<forall>b \<in> set bs. isdigit (ucast b) \<or> b = 59 \<Longrightarrow>
   \<exists>s'. run_list vt100_putc bs s = Inr s' \<and> vis s' \<and> tty_of s' = tty_of s \<and> ctl_of (tm s' Term) = c'"
proof (induction bs arbitrary: s c)
  case Nil
  then show ?case by auto
next
  case (Cons b bs)
  from Cons.prems(3) obtain c1 where 1: "ctl_step Term c (ucast b) = Some c1" "ctl_run Term c1 bs = Some c'"
    by (auto split: option.splits)
  obtain st r n as where c: "c = (st, r, n, as)" by (metis prod_cases4)
  have st: "state (tm s Term) = st" using Cons.prems(2) c by (simp add: ctl_of_def)
  have d: "isdigit (ucast b) \<or> b = 59" using Cons.prems(5) by simp
  have "fst c1 = St_command_arg \<and> collects st (ucast b)"
    using 1(1) Cons.prems(4) d c by (auto simp: collects_def isdigit_def split: if_splits)
  with putc_collect [OF Cons.prems(1), of b c1] 1(1) Cons.prems(2) st obtain s1 where
    s1: "vt100_putc b s = Inr s1" "vis s1" "tty_of s1 = tty_of s" "ctl_of (tm s1 Term) = c1"
    by auto
  from Cons.IH [OF s1(2,4) 1(2)] \<open>fst c1 = St_command_arg \<and> _\<close> Cons.prems(5) s1 show ?case by auto
qed

lemma set_dec: "b \<in> set (dec n) \<Longrightarrow> isdigit (ucast b)"
proof (induction n rule: dec.induct)
  case (1 n)
  then show ?case
    using digit_u16(2) [of n] digit_u16(2) [of "n mod 10"] by (subst (asm) (2) dec.simps) (auto split: if_splits)
qed

lemma set_dec_args: "b \<in> set (dec_args ns) \<Longrightarrow> isdigit (ucast b) \<or> b = 59"
  by (induction ns rule: dec_args.induct) (auto dest: set_dec)

text \<open>The state in which the final byte of a sequence arrives.\<close>

definition awaits :: "console \<Rightarrow> nat list \<Rightarrow> bool" where
  "awaits s ns \<longleftrightarrow> vis s \<and>
     (if ns = [] then state (tm s Term) = St_esc_sq_bracket \<and> narg (tm s Term) = 0
      else state (tm s Term) = St_command_arg \<and> ret_state (tm s Term) = Some St_esc_sq_bracket \<and>
        narg (tm s Term) = length ns - 1) \<and> args (tm s Term) = args_after ns"

lemma csi_awaits:
  assumes "tty_inv s" and "length ns \<le> 16"
  shows "\<exists>s'. run_list vt100_putc (csi ns) s = Inr s' \<and> awaits s' ns \<and> tty_of s' = tty_of s"
proof -
  have v: "vis s" "state (tm s Term) = St_idle" using assms(1) by (simp_all add: vis_tty_inv)
  from putc_collect [OF v(1), of 27] v(2) obtain s1 where
    1: "vt100_putc 27 s = Inr s1" "vis s1" "tty_of s1 = tty_of s" "state (tm s1 Term) = St_escape"
    by (fastforce simp: collects_def ctl_of_def)
  from putc_collect [OF 1(2), of 91] 1(4) obtain s2 where
    2: "vt100_putc 91 s1 = Inr s2" "vis s2" "tty_of s2 = tty_of s1"
      "ctl_of (tm s2 Term) = (St_esc_sq_bracket, ret_state (tm s1 Term), 0, replicate 16 0)"
    by (fastforce simp: collects_def ctl_of_def)
  show ?thesis
  proof (cases "ns = []")
    case True
    with 1 2 show ?thesis
      by (auto simp: csi_def awaits_def ctl_of_def args_after_def)
  next
    case False
    have r: "ctl_run Term (St_esc_sq_bracket, ret_state (tm s1 Term), 0, replicate 16 0) (dec_args ns) =
        Some (St_command_arg, Some St_esc_sq_bracket, length ns - 1, args_after ns)"
      using ctl_run_args [of ns 0 "[]" St_esc_sq_bracket] False assms(2)
      by (simp add: args_after_def arg_state_def)
    from run_collect_args [OF 2(2,4) r] set_dec_args obtain s3 where
      "run_list vt100_putc (dec_args ns) s2 = Inr s3" "vis s3" "tty_of s3 = tty_of s2"
      "ctl_of (tm s3 Term) = (St_command_arg, Some St_esc_sq_bracket, length ns - 1, args_after ns)"
      by auto
    with 1 2 False show ?thesis
      by (auto simp: csi_def awaits_def ctl_of_def)
  qed
qed

text \<open>The final byte: the parser state becomes idle and the command runs on the bare screen.\<close>

definition at_command :: "console \<Rightarrow> nat list \<Rightarrow> console" where
  "at_command s ns = upd_tm Term (\<lambda>t. t\<lparr>narg := length ns, state := St_esc_sq_bracket\<rparr>) s"

lemma at_command_sel:
  "tm (at_command s ns) Term = (tm s Term)\<lparr>narg := length ns, state := St_esc_sq_bracket\<rparr>"
  "tm (at_command s ns) Status = tm s Status" "vram (at_command s ns) = vram s"
  "streams (at_command s ns) = streams s" "status_stream_ptr (at_command s ns) = status_stream_ptr s"
  by (simp_all add: at_command_def streams_def)

lemma same_ctl: "narg t = n \<Longrightarrow> state t = st \<Longrightarrow> t\<lparr>narg := n, state := st\<rparr> = t"
  by (cases t) simp

lemma wf_screen_narg [simp]: "wf_screen h (t\<lparr>narg := n\<rparr>) = wf_screen h t"
  by (simp add: wf_screen_def)

lemma at_command_vis: "vis s \<Longrightarrow> vis (at_command s ns)" "tty_of (at_command s ns) = tty_of s"
  by (simp_all add: vis_def vt_inv_def con_inv_def tm_inv_def at_command_sel tty_of_def at_command_def)

lemma final_byte:
  fixes b :: u8
  assumes w: "awaits s ns" and l: "length ns \<le> 16" and b: "\<not> isdigit (ucast b)" "b \<noteq> 59"
  shows "call_state EV_CHAR (ucast b) Term s = st_esc_sq_bracket EV_CHAR (ucast b) Term (at_command s ns)"
proof (cases "ns = []")
  case True
  have "(tm s Term)\<lparr>narg := 0, state := St_esc_sq_bracket\<rparr> = tm s Term"
    using True w by (intro same_ctl) (simp_all add: awaits_def)
  then have "at_command s ns = s"
    using True by (simp add: at_command_def upd_tm_def)
  with True w show ?thesis by (simp add: awaits_def call_state_def call_ret_def)
next
  case False
  have "(ucast b :: u16) \<noteq> 59" using b(2) u8_u16_eq [of b 59] by simp
  moreover have "upd_tm Term (\<lambda>t. t\<lparr>state := ret_or_idle t\<rparr>)
      (upd_tm Term (\<lambda>t. t\<lparr>narg := (narg t + 1) mod 256\<rparr>) s) = at_command s ns"
    using w False l by (auto simp: awaits_def at_command_def upd_tm_def ret_or_idle_def)
  ultimately show ?thesis
    using w False b(1) by (simp add: awaits_def call_state_def call_ret_def st_command_arg_def Let_def
        at_command_sel ret_or_idle_def)
qed

lemma run_command:
  assumes w: "awaits s ns" and l: "length ns \<le> 16" and b: "\<not> isdigit (ucast b)" "b \<noteq> 59"
    and e: "csi_exec (ucast b) Term (bare (at_command s ns)) = Inr s2"
    and g: "scr (tm s2 Term) (vram s2)" "streams s2 = streams s"
    and st: "state (tm s2 Term) = St_idle"
    and ok: "byte_ok Term (tm s Term) b"
  shows "\<exists>s'. vt100_putc b s = Inr s' \<and> tty_inv s' \<and> tty_of s' = view (tm s2 Term) (vram s2) \<and>
    displays (vram s') (tty_of s') \<and> core (tm s' Term) = core (tm s2 Term)"
proof -
  have v: "vis s" "vt_inv s" "status_stream_ptr s = 0" using w by (auto simp: awaits_def vis_def vt_inv_def)
  have n59: "(ucast b :: u16) \<noteq> 59" using b(2) u8_u16_eq [of b 59] by simp
  from bracket_shows [where g = "csi_exec (ucast b) Term", OF at_command_vis(1) [OF v(1)] e g(1)] obtain s' where
    s': "call_state EV_CHAR (ucast b) Term s = Inr s'" "shows_tty s' (view (tm s2 Term) (vram s2))"
      "streams s' = streams s2" "core (tm s' Term) = core (tm s2 Term)" "displays (vram s') (tty_of s')"
    using b(1) n59 by (auto simp: final_byte [OF w l b] st_esc_sq_bracket_def)
  have p: "vt100_putc b s = Inr s'"
    using s'(3) g(2) v(3) by (intro putc_quiet [OF s'(1)]) simp_all
  from vt100_putc_inv [OF v(2) ok] p have "vt_inv s'" by simp
  with p s' core_sel(15) [OF s'(4)] st show ?thesis
    by (auto simp: shows_tty_def vis_tty_inv vis_def)
qed

section \<open>Colors\<close>

lemma csi_m_ref:
  assumes "length (args t) = 16" and "narg t \<le> 16" and "sgr_disjoint (take (narg t) (args t))"
  shows "\<exists>t'. csi_m t = Inr t' \<and> state t' = St_idle \<and> narg t' = 0 \<and>
    (front_color t', back_color t') =
      (if narg t = 0 then (0xffffff, 0)
       else sgr_ref (take (narg t) (args t)) (front_color t, back_color t)) \<and>
    uncolored (t'\<lparr>state := state t\<rparr>) = uncolored t"
proof -
  let ?t = "if narg t = 0 then t\<lparr>front_color := 0xffffff, back_color := 0x000000\<rparr> else t"
  have "narg ?t \<le> length (args ?t)" "sgr_disjoint (take (narg ?t) (args ?t))" using assms by simp_all
  from sgr_loop_ref [OF this] obtain t' where t': "sgr_loop ?t = Inr t'" "narg t' = 0"
    "uncolored t' = uncolored ?t" "colors t' = sgr_ref (take (narg ?t) (args ?t)) (colors ?t)" by blast
  have u: "uncolored t' = uncolored t" using t'(3) by simp
  have "uncolored (t'\<lparr>state := state t\<rparr>) = (uncolored t')\<lparr>state := state t\<rparr>"
    by (simp add: uncolored_def)
  also have "\<dots> = uncolored t" unfolding u by (simp add: uncolored_def)
  finally show ?thesis
    using t' by (auto simp: csi_m_def Let_def colors_def sgr_ref.simps [of "[]"])
qed

text \<open>
  Claim C27. The color command computes \<open>sgr_ref\<close> of its argument list, a mixture of attributes and
  extended colors in which no extended color is followed by more arguments than its own (five or three): the
  destructive loop over the array \<open>args\<close> and its counter is that function on the list, no
  argument is read twice or beyond \<open>narg\<close>, and nothing but the two colors, the arguments and the
  parser state changes. A longer rest is copied by a \<open>memcpy\<close> that C does not define.
\<close>

theorem csi_m_colors:
  assumes "length (args t) = 16" and "narg t \<le> 16" and "sgr_disjoint (take (narg t) (args t))"
  shows "\<exists>t'. csi_m t = Inr t' \<and> state t' = St_idle \<and> narg t' = 0 \<and>
    (front_color t', back_color t') =
      (if narg t = 0 then (0xffffff, 0)
       else sgr_ref (take (narg t) (args t)) (front_color t, back_color t)) \<and>
    uncolored (t'\<lparr>state := state t\<rparr>) = uncolored t"
  using assms by (rule csi_m_ref)

definition sgr_example :: vt100_t where
  "sgr_example = (reset_term zero_tm)\<lparr>narg := 6, args := [38, 2, 1, 2, 3, 44] @ replicate 10 0\<rparr>"

theorem csi_m_colors_witness:
  "length (args sgr_example) = 16 \<and> narg sgr_example \<le> 16 \<and> sgr_disjoint [38, 2, 1, 2, 3, 44] \<and>
   (\<exists>t'. csi_m sgr_example = Inr t' \<and> front_color t' = 0x010203 \<and> back_color t' = 0x000077)"
proof -
  have "sgr_ref [38, 2, 1, 2, 3, 44] (0x777777, 0) = (0x010203, 0x000077)"
    by code_simp
  moreover have "sgr_disjoint [38, 2, 1, 2, 3, 44]" by (subst sgr_disjoint.simps) simp
  ultimately show ?thesis
    using csi_m_colors [of sgr_example] by (auto simp: sgr_example_def reset_term_def)
qed

text \<open>
  The limit of \<open>sgr_disjoint\<close> is one of the code: an extended color with a longer list behind it has the
  rest of the list copied to the front with \<open>memcpy\<close> although the regions overlap.
\<close>

definition overlap_example :: vt100_t where
  "overlap_example = (reset_term zero_tm)\<lparr>narg := 7, args := [38, 5, 9, 1, 4, 7, 44] @ replicate 9 0\<rparr>"

theorem color_list_overlaps:
  "length (args overlap_example) = 16 \<and> narg overlap_example \<le> 16 \<and> csi_m overlap_example = Inl Overlap"
  by (simp add: overlap_example_def reset_term_def csi_m_def sgr_loop.simps sgr_step_def args_drop_def Let_def)

section \<open>The commands on the abstract screen\<close>

definition erase_rows :: "nat \<Rightarrow> nat \<Rightarrow> tty \<Rightarrow> tty" where
  "erase_rows a b y =
     y\<lparr>lines_of := map (\<lambda>r. if a \<le> r \<and> r \<le> b then blank_row else lines_of y ! r) [0..<64]\<rparr>"

definition erase_span :: "nat \<Rightarrow> nat \<Rightarrow> tty \<Rightarrow> tty" where
  "erase_span c n y =
     y\<lparr>lines_of := (lines_of y)[row y :=
        (let l = lines_of y ! row y in take c l @ replicate n 0x20 @ drop (c + n) l)]\<rparr>"

text \<open>
  The final bytes: A, B, C and D move the cursor, H (72) and f (102) place it, J (74) erases
  rows, K (75) erases in the row, m (109) sets the colors. Erasing from the left stops before
  the cursor's own cell.
\<close>

definition csi_spec :: "u8 \<Rightarrow> nat list \<Rightarrow> tty \<Rightarrow> tty" where
  "csi_spec b ns y =
     (let n = (if ns = [] then 1 else ns ! 0) in
      if b = 65 then y\<lparr>row := row y - n\<rparr>
      else if b = 66 then y\<lparr>row := row y + n\<rparr>
      else if b = 67 then y\<lparr>col := col y + n\<rparr>
      else if b = 68 then y\<lparr>col := col y - n\<rparr>
      else if b = 72 \<or> b = 102 then
        (if ns = [] then y\<lparr>row := 0, col := 0\<rparr> else y\<lparr>row := ns ! 0 - 1, col := ns ! 1 - 1\<rparr>)
      else if b = 74 then
        (if ns = [] \<or> ns = [0] then erase_rows (row y) 63 y
         else if ns = [1] then erase_rows 0 (row y) y
         else erase_rows 0 63 y)
      else if b = 75 then
        (if ns = [] \<or> ns = [0] then erase_span (col y) (160 - col y) y
         else if ns = [1] then erase_span 0 (col y) y
         else erase_span 0 160 y)
      else if b = 109 then
        (let c = (if ns = [] then (0xffffff, 0) else sgr_ref (map of_nat ns) (pen y, paper y))
         in y\<lparr>pen := fst c, paper := snd c\<rparr>)
      else y)"

definition csi_pre :: "u8 \<Rightarrow> nat list \<Rightarrow> tty \<Rightarrow> bool" where
  "csi_pre b ns y \<longleftrightarrow> length ns \<le> 16 \<and> (\<forall>n \<in> set ns. n < 65536) \<and>
     (let n = (if ns = [] then 1 else ns ! 0) in
      if b = 65 \<or> b = 68 then n \<le> 32767
      else if b = 66 then row y + n < 64
      else if b = 67 then col y + n < 160
      else if b = 72 \<or> b = 102 then
        ns = [] \<or> (length ns = 2 \<and> 1 \<le> ns ! 0 \<and> ns ! 0 \<le> 64 \<and> 1 \<le> ns ! 1 \<and> ns ! 1 \<le> 160)
      else if b = 74 \<or> b = 75 then ns = [] \<or> (length ns = 1 \<and> ns ! 0 \<le> 2)
      else b = 109 \<and> sgr_disjoint (map of_nat ns))"

definition runs_to :: "console \<Rightarrow> console res \<Rightarrow> tty \<Rightarrow> bool" where
  "runs_to s r y \<longleftrightarrow> (\<exists>s'. r = Inr s' \<and> scr (tm s' Term) (vram s') \<and>
     view (tm s' Term) (vram s') = y \<and> streams s' = streams s \<and> state (tm s' Term) = St_idle)"

lemma runs_to_place:
  assumes sc: "scr (tm s Term) (vram s)"
    and f: "f (tm s Term) = (tm s Term)\<lparr>cursor_x := x, cursor_y := y, state := St_idle\<rparr>"
    and p: "0 \<le> x" "x < 160" "0 \<le> y" "y < 64"
  shows "runs_to s (Inr (upd_tm Term f s)) ((view (tm s Term) (vram s))\<lparr>row := nat y, col := nat x\<rparr>)"
  using scr_place [OF sc p] f by (simp add: runs_to_def view_place streams_def)

lemma args_after_nth: "i < length ns \<Longrightarrow> args_after ns ! i = of_nat (ns ! i)"
  by (simp add: args_after_def nth_append)

lemma uint_of_nat16: "n < 65536 \<Longrightarrow> uint (of_nat n :: u16) = int n"
  by (simp add: unsigned_of_nat take_bit_nat_eq_self)

lemma arg_or_1_after:
  assumes "narg t = length ns" "args t = args_after ns" "\<forall>n \<in> set ns. n < 65536"
  shows "arg_or_1 t = int (if ns = [] then 1 else ns ! 0)"
  using assms by (auto simp: arg_or_1_def args_after_nth uint_of_nat16)

definition ready :: "console \<Rightarrow> nat list \<Rightarrow> bool" where
  "ready s ns \<longleftrightarrow> scr (tm s Term) (vram s) \<and> narg (tm s Term) = length ns \<and>
     args (tm s Term) = args_after ns \<and> length (args (tm s Term)) = 16"

lemma move_commands:
  assumes r: "ready s ns" and y: "y = view (tm s Term) (vram s)" and pre: "csi_pre b ns y"
  shows "b = 65 \<Longrightarrow> runs_to s (csi_exec 65 Term s) (csi_spec 65 ns y)"
    and "b = 66 \<Longrightarrow> runs_to s (csi_exec 66 Term s) (csi_spec 66 ns y)"
    and "b = 67 \<Longrightarrow> runs_to s (csi_exec 67 Term s) (csi_spec 67 ns y)"
    and "b = 68 \<Longrightarrow> runs_to s (csi_exec 68 Term s) (csi_spec 68 ns y)"
proof -
  let ?t = "tm s Term"
  define n where "n = (if ns = [] then 1 else ns ! 0)"
  have sc: "scr ?t (vram s)" using r by (simp add: ready_def)
  note p = scr_pos [OF sc]
  have g: "screen_w ?t = 160" "screen_h ?t = 64" using sc by (auto simp: scr_def wf_screen_def)
  have a: "arg_or_1 ?t = int n"
    using r pre arg_or_1_after [of ?t ns] by (simp add: ready_def csi_pre_def Let_def n_def)
  have rc: "row y = nat (cursor_y ?t)" "col y = nat (cursor_x ?t)" by (simp_all add: y view_sel)
  have same: "(view ?t (vram s))\<lparr>row := nat (cursor_y ?t), col := c\<rparr> = (view ?t (vram s))\<lparr>col := c\<rparr>"
    "(view ?t (vram s))\<lparr>row := c, col := nat (cursor_x ?t)\<rparr> = (view ?t (vram s))\<lparr>row := c\<rparr>" for c
    by (simp_all add: view_def)
  show "runs_to s (csi_exec 65 Term s) (csi_spec 65 ns y)" if "b = 65"
  proof -
    have "csi_A ?t = ?t\<lparr>cursor_x := cursor_x ?t, cursor_y := max 0 (cursor_y ?t - int n), state := St_idle\<rparr>"
      using that pre p by (simp add: csi_A_def Let_def a to_s16_id csi_pre_def Let_def n_def max_def)
    from runs_to_place [where f = csi_A, OF sc this] p have
      "runs_to s (csi_exec 65 Term s) ((view ?t (vram s))\<lparr>row := nat (max 0 (cursor_y ?t - int n))\<rparr>)"
      by (simp add: csi_exec_def same)
    moreover have "nat (max 0 (cursor_y ?t - int n)) = row y - n" using p rc by auto
    ultimately show ?thesis by (simp add: csi_spec_def Let_def n_def y)
  qed
  show "runs_to s (csi_exec 68 Term s) (csi_spec 68 ns y)" if "b = 68"
  proof -
    have "csi_D ?t = ?t\<lparr>cursor_x := max 0 (cursor_x ?t - int n), cursor_y := cursor_y ?t, state := St_idle\<rparr>"
      using that pre p by (simp add: csi_D_def Let_def a to_s16_id csi_pre_def Let_def n_def max_def)
    from runs_to_place [where f = csi_D, OF sc this] p have
      "runs_to s (csi_exec 68 Term s) ((view ?t (vram s))\<lparr>col := nat (max 0 (cursor_x ?t - int n))\<rparr>)"
      by (simp add: csi_exec_def same)
    moreover have "nat (max 0 (cursor_x ?t - int n)) = col y - n" using p rc by auto
    ultimately show ?thesis by (simp add: csi_spec_def Let_def n_def y)
  qed
  show "runs_to s (csi_exec 66 Term s) (csi_spec 66 ns y)" if "b = 66"
  proof -
    have b: "cursor_y ?t + int n < 64" using that pre p rc by (auto simp: csi_pre_def Let_def n_def)
    then have "csi_B ?t = ?t\<lparr>cursor_x := cursor_x ?t, cursor_y := cursor_y ?t + int n, state := St_idle\<rparr>"
      using p g by (simp add: csi_B_def Let_def a to_s16_id)
    from runs_to_place [where f = csi_B, OF sc this] p b have
      "runs_to s (csi_exec 66 Term s) ((view ?t (vram s))\<lparr>row := nat (cursor_y ?t + int n)\<rparr>)"
      by (simp add: csi_exec_def same)
    moreover have "nat (cursor_y ?t + int n) = row y + n" using p rc by auto
    ultimately show ?thesis by (simp add: csi_spec_def Let_def n_def y)
  qed
  show "runs_to s (csi_exec 67 Term s) (csi_spec 67 ns y)" if "b = 67"
  proof -
    have b: "cursor_x ?t + int n < 160" using that pre p rc by (auto simp: csi_pre_def Let_def n_def)
    then have "csi_C ?t = ?t\<lparr>cursor_x := cursor_x ?t + int n, cursor_y := cursor_y ?t, state := St_idle\<rparr>"
      using p g by (simp add: csi_C_def Let_def a to_s16_id)
    from runs_to_place [where f = csi_C, OF sc this] p b have
      "runs_to s (csi_exec 67 Term s) ((view ?t (vram s))\<lparr>col := nat (cursor_x ?t + int n)\<rparr>)"
      by (simp add: csi_exec_def same)
    moreover have "nat (cursor_x ?t + int n) = col y + n" using p rc by auto
    ultimately show ?thesis by (simp add: csi_spec_def Let_def n_def y)
  qed
qed

lemma place_command:
  assumes r: "ready s ns" and y: "y = view (tm s Term) (vram s)" and pre: "csi_pre b ns y"
    and b: "b = 72 \<or> b = 102"
  shows "runs_to s (Inr (upd_tm Term csi_H s)) (csi_spec b ns y)"
proof -
  let ?t = "tm s Term"
  have sc: "scr ?t (vram s)" using r by (simp add: ready_def)
  have g: "screen_w ?t = 160" "screen_h ?t = 64" "scroll_start_row ?t = 0" "scroll_end_row ?t = 64"
    using sc by (auto simp: scr_def wf_screen_def)
  show ?thesis
  proof (cases "ns = []")
    case True
    then have "csi_H ?t = ?t\<lparr>cursor_x := 0, cursor_y := 0, state := St_idle\<rparr>"
      using r g by (simp add: csi_H_def Let_def ready_def)
    from runs_to_place [where f = csi_H, OF sc this] True b show ?thesis by (auto simp: csi_spec_def Let_def y)
  next
    case False
    then have n: "length ns = 2" "1 \<le> ns ! 0" "ns ! 0 \<le> 64" "1 \<le> ns ! 1" "ns ! 1 \<le> 160"
      using pre b by (auto simp: csi_pre_def Let_def)
    have a: "uint (args ?t ! 0) = int (ns ! 0)" "uint (args ?t ! 1) = int (ns ! 1)" "narg ?t = 2"
      using r n args_after_nth [of 0 ns] args_after_nth [of 1 ns] by (simp_all add: ready_def uint_of_nat16)
    have h: "csi_H ?t = ?t\<lparr>cursor_x := int (ns ! 1) - 1, cursor_y := int (ns ! 0) - 1, state := St_idle\<rparr>"
      using n g a(3) by (simp add: csi_H_def Let_def a(1) a(2) [simplified] to_s16_id)
    have "nat (int (ns ! 0) - 1) = ns ! 0 - 1" "nat (int (ns ! 1) - 1) = ns ! 1 - 1" using n by auto
    with runs_to_place [where f = csi_H, OF sc h] n False b show ?thesis by (auto simp: csi_spec_def Let_def y)
  qed
qed

lemma screen_rows_fill_rows:
  assumes "a \<le> b + 1" "b < 64"
  shows "screen_rows (fill (160 + 160 * int a) (160 * (int b - int a + 1)) 0x20 m) =
    map (\<lambda>r. if a \<le> r \<and> r \<le> b then blank_row else screen_rows m ! r) [0..<64]"
proof -
  define F where "F = fill (160 + 160 * int a) (160 * (int b - int a + 1)) 0x20 m"
  have c: "F (160 + 160 * int i + int j) = (if a \<le> i \<and> i \<le> b then 0x20 else m (160 + 160 * int i + int j))"
    if "j < 160" for i j
  proof -
    have "160 * int a \<le> 160 * int i + int j \<longleftrightarrow> a \<le> i" "160 * int i + int j < 160 * int b + 160 \<longleftrightarrow> i \<le> b"
      using that by auto
    then show ?thesis by (simp add: F_def fill_def algebra_simps)
  qed
  have "screen_rows F = map (\<lambda>r. if a \<le> r \<and> r \<le> b then blank_row else screen_rows m ! r) [0..<64]"
  proof (rule nth_equalityI)
    fix i assume "i < length (screen_rows F)"
    then have i: "i < 64" by (simp add: screen_rows_def)
    show "screen_rows F ! i =
        map (\<lambda>r. if a \<le> r \<and> r \<le> b then blank_row else screen_rows m ! r) [0..<64] ! i"
    proof (cases "a \<le> i \<and> i \<le> b")
      case True
      then have "map (\<lambda>j. F (160 + 160 * int i + int j)) [0..<160] = map (\<lambda>j. 0x20) [0..<160]"
        using c by simp
      then show ?thesis using i True by (simp add: screen_rows_def map_replicate_const blank_row_def)
    next
      case False
      then show ?thesis using i c by (auto simp: screen_rows_def)
    qed
  qed (simp add: screen_rows_def)
  then show ?thesis by (simp add: F_def)
qed

lemma screen_rows_fill_span:
  assumes "r < 64" "c + n \<le> 160"
  shows "screen_rows (fill (160 + 160 * int r + int c) (int n) 0x20 m) =
    (screen_rows m)[r := take c (screen_rows m ! r) @ replicate n 0x20 @ drop (c + n) (screen_rows m ! r)]"
    (is "?l = ?r")
proof (rule nth_equalityI)
  show "length ?l = length ?r" by (simp add: screen_rows_def)
  fix i assume "i < length ?l"
  then have i: "i < 64" by (simp add: screen_rows_def)
  have f: "fill (160 + 160 * int r + int c) (int n) 0x20 m (160 + 160 * int i + int j) =
      (if i = r \<and> c \<le> j \<and> j < c + n then 0x20 else m (160 + 160 * int i + int j))" if "j < 160" for j
  proof -
    have "160 * int r + int c \<le> 160 * int i + int j \<and> 160 * int i + int j < 160 * int r + int c + int n \<longleftrightarrow>
        i = r \<and> c \<le> j \<and> j < c + n"
      using that assms(2) by (cases "i = r") auto
    then show ?thesis by (simp add: fill_def algebra_simps)
  qed
  show "?l ! i = ?r ! i"
  proof (rule nth_equalityI)
    show "length (?l ! i) = length (?r ! i)"
      using i assms by (cases "i = r") (simp_all add: screen_rows_def)
    fix j assume "j < length (?l ! i)"
    then have j: "j < 160" using i by (simp add: screen_rows_def)
    show "?l ! i ! j = ?r ! i ! j"
    proof (cases "i = r")
      case True
      then show ?thesis using i j assms f [OF j] by (auto simp: screen_rows_def nth_append)
    next
      case False
      then show ?thesis using i j f [OF j] by (simp add: screen_rows_def)
    qed
  qed
qed

lemma cells_shown_fill: "cells_shown m \<Longrightarrow> cells_shown (fill p n 0x20 m)"
  by (simp add: cells_shown_def fill_def)

lemma view_fill_rows:
  assumes "a \<le> b + 1" "b < 64"
  shows "view t (fill (160 + 160 * int a) (160 * (int b - int a + 1)) 0x20 m) = erase_rows a b (view t m)"
  using screen_rows_fill_rows [OF assms] by (simp add: view_def erase_rows_def)

lemma view_fill_span:
  assumes "scr t m" "c + n \<le> 160"
  shows "view t (fill (160 + 160 * cursor_y t + int c) (int n) 0x20 m) = erase_span c n (view t m)"
proof -
  have "nat (cursor_y t) < 64" "0 \<le> cursor_y t" using scr_pos [OF assms(1)] by auto
  with screen_rows_fill_span [OF this(1) assms(2), of m] show ?thesis
    by (simp add: view_def erase_span_def Let_def)
qed

lemma erase_rows_runs:
  assumes sc: "scr (tm s Term) (vram s)" and ab: "a \<le> b + 1" "b < 64"
  shows "on_tm Term (vt100_clearLines (int a) (int b)) s =
      Inr (s\<lparr>vram := fill (160 + 160 * int a) (160 * (int b - int a + 1)) 0x20 (vram s)\<rparr>)"
proof -
  have g: "screen_skew (tm s Term) = 160" "screen_h (tm s Term) = 64" "VRam (tm s Term) = 160"
    using sc by (auto simp: scr_def wf_screen_def)
  from clearLines_rows [OF g(1,2), of "int a" "int b" "vram s"] ab g(3)
  have "vt100_clearLines (int a) (int b) (tm s Term) (vram s) =
      Inr (tm s Term, fill (160 + 160 * int a) (160 * (int b - int a + 1)) 0x20 (vram s))" by simp
  from on_tm_Inr [of "vt100_clearLines (int a) (int b)" s Term, OF this] show ?thesis by simp
qed

lemma goto_runs:
  "scr (tm s1 Term) (vram s1) \<Longrightarrow> view (tm s1 Term) (vram s1) = y \<Longrightarrow> streams s1 = streams s \<Longrightarrow>
   runs_to s (Inr (goto St_idle Term s1)) y"
  by (simp add: runs_to_def goto_def streams_def)

lemma erase_args:
  assumes "csi_pre b ns y" "b = 74 \<or> b = 75"
  obtains "ns = []" | "ns = [0]" | "ns = [1]" | "ns = [2]"
proof -
  have "ns = [] \<or> (length ns = 1 \<and> ns ! 0 \<le> 2)"
    using assms by (auto simp: csi_pre_def Let_def)
  moreover have "ns = [k]" if "length ns = 1" "ns ! 0 = k" for k
    using that by (cases ns) auto
  moreover have "ns ! 0 = 0 \<or> ns ! 0 = 1 \<or> ns ! 0 = 2" if "ns ! 0 \<le> 2" using that by linarith
  ultimately show ?thesis using that by blast
qed

lemma erase_command:
  assumes r: "ready s ns" and y: "y = view (tm s Term) (vram s)" and pre: "csi_pre 74 ns y"
  shows "runs_to s (csi_J Term s) (csi_spec 74 ns y)"
proof -
  let ?t = "tm s Term"
  have sc: "scr ?t (vram s)" using r by (simp add: ready_def)
  have h: "screen_h ?t = 64" using sc by (auto simp: scr_def wf_screen_def)
  define cy where "cy = nat (cursor_y ?t)"
  have cy: "cursor_y ?t = int cy" "cy < 64" "row y = cy" using scr_pos [OF sc] by (auto simp: cy_def y view_sel)
  have e: "scr (tm s1 Term) (vram s1)" "view (tm s1 Term) (vram s1) = erase_rows a b y" "streams s1 = streams s"
    if "s1 = s\<lparr>vram := fill (160 + 160 * int a) (160 * (int b - int a + 1)) 0x20 (vram s)\<rparr>"
      "a \<le> b + 1" "b < 64" for s1 a b
    using that sc view_fill_rows [OF that(2,3)] cells_shown_fill by (auto simp: scr_def y streams_def)
  have rs: "scr (tm (vt100_resetScroll s1) Term) (vram (vt100_resetScroll s1)) = scr (tm s1 Term) (vram s1)"
    "view (tm (vt100_resetScroll s1) Term) (vram (vt100_resetScroll s1)) = view (tm s1 Term) (vram s1)"
    "streams (vt100_resetScroll s1) = streams s1" if "scr (tm s1 Term) (vram s1)" for s1
    using that by (auto simp: vt100_resetScroll_def view_def scr_def wf_screen_def streams_def vt_consts)
  have run: "runs_to s (rbind (on_tm Term (vt100_clearLines (int a) (int b)) s)
      (\<lambda>s'. Inr (goto St_idle Term s'))) (erase_rows a b y)"
    "runs_to s (rbind (on_tm Term (vt100_clearLines (int a) (int b)) s)
      (\<lambda>s'. Inr (goto St_idle Term (vt100_resetScroll s')))) (erase_rows a b y)"
    if "a \<le> b + 1" "b < 64" for a b
    unfolding erase_rows_runs [OF sc that] rbind.simps
    using e [OF refl that] rs [OF e(1) [OF refl that]] by (auto intro!: goto_runs)
  have n: "narg ?t = length ns" "ns \<noteq> [] \<Longrightarrow> args ?t ! 0 = of_nat (ns ! 0)"
    using r args_after_nth [of 0 ns] by (auto simp: ready_def)
  have i: "cursor_y ?t = int cy" "0 = int 0" "screen_h ?t - 1 = int 63" using cy h by simp_all
  consider "ns = []" | "ns = [0]" | "ns = [1]" | "ns = [2]"
    using pre by (rule erase_args) simp_all
  then show ?thesis
  proof cases
    case 1
    then show ?thesis using n run(1) [of cy 63] cy
      by (simp add: csi_J_def csi_spec_def Let_def i(1,3))
  next
    case 2
    then show ?thesis using n run(1) [of cy 63] cy
      by (simp add: csi_J_def csi_spec_def Let_def i(1,3))
  next
    case 3
    then show ?thesis using n run(1) [of 0 cy] cy
      by (simp add: csi_J_def csi_spec_def Let_def i(1,3))
  next
    case 4
    then show ?thesis using n run(2) [of 0 63]
      by (simp add: csi_J_def csi_spec_def Let_def i(3) rbind_assoc)
  qed
qed

lemma span_runs:
  assumes sc: "scr (tm s Term) (vram s)" and e: "clearLine_extent (tm s Term) = Inr (160 * cursor_y (tm s Term) + int c, int n)"
    and cn: "c + n \<le> 160"
  shows "runs_to s (on_tm Term vt100_clearLine s) (erase_span c n (view (tm s Term) (vram s)))"
proof -
  let ?t = "tm s Term"
  have g: "screen_skew ?t = 160" "screen_h ?t = 64" "VRam ?t = 160" using sc by (auto simp: scr_def wf_screen_def)
  have p: "160 * cursor_y ?t + int c + int n \<le> 160 * 64" using scr_pos [OF sc] cn by linarith
  have "vt100_clearLine ?t (vram s) =
      Inr (?t\<lparr>state := St_idle\<rparr>, fill (160 + 160 * cursor_y ?t + int c) (int n) 0x20 (vram s))"
    using g p by (simp add: vt100_clearLine_def e clear_outer_eq add.assoc)
  from on_tm_Inr [of vt100_clearLine s Term, OF this] show ?thesis
    using sc view_fill_span [OF sc cn] cells_shown_fill
    by (auto simp: runs_to_def scr_def streams_def)
qed

lemma erase_line_command:
  assumes r: "ready s ns" and y: "y = view (tm s Term) (vram s)" and pre: "csi_pre 75 ns y"
  shows "runs_to s (on_tm Term vt100_clearLine s) (csi_spec 75 ns y)"
proof -
  let ?t = "tm s Term"
  have sc: "scr ?t (vram s)" using r by (simp add: ready_def)
  have g: "screen_w ?t = 160" "screen_skew ?t = 160" using sc by (auto simp: scr_def wf_screen_def)
  define cx where "cx = nat (cursor_x ?t)"
  have cx: "cursor_x ?t = int cx" "cx < 160" "col y = cx" using scr_pos [OF sc] by (auto simp: cx_def y view_sel)
  have n: "narg ?t = length ns" "ns \<noteq> [] \<Longrightarrow> args ?t ! 0 = of_nat (ns ! 0)"
    using r args_after_nth [of 0 ns] by (auto simp: ready_def)
  have d: "int (160 - cx) = 160 - int cx" using cx by simp
  from pre show ?thesis
  proof (rule erase_args)
    assume ns: "ns = []"
    have "clearLine_extent ?t = Inr (160 * cursor_y ?t + int cx, int (160 - cx))"
      using ns n g cx d by (simp add: clearLine_extent_def)
    from span_runs [OF sc this] ns cx show ?thesis by (simp add: csi_spec_def y)
  next
    assume ns: "ns = [0]"
    have "clearLine_extent ?t = Inr (160 * cursor_y ?t + int cx, int (160 - cx))"
      using ns n g cx d by (simp add: clearLine_extent_def)
    from span_runs [OF sc this] ns cx show ?thesis by (simp add: csi_spec_def y)
  next
    assume ns: "ns = [1]"
    have "clearLine_extent ?t = Inr (160 * cursor_y ?t + int 0, int cx)"
      using ns n g cx by (simp add: clearLine_extent_def)
    from span_runs [OF sc this] ns cx show ?thesis by (simp add: csi_spec_def y)
  next
    assume ns: "ns = [2]"
    have "clearLine_extent ?t = Inr (160 * cursor_y ?t + int 0, int 160)"
      using ns n g cx by (simp add: clearLine_extent_def)
    from span_runs [OF sc this] ns show ?thesis by (simp add: csi_spec_def y)
  qed simp
qed

lemma color_command:
  assumes r: "ready s ns" and y: "y = view (tm s Term) (vram s)" and pre: "csi_pre 109 ns y"
  shows "runs_to s (upd_res Term csi_m s) (csi_spec 109 ns y)"
proof -
  let ?t = "tm s Term"
  have sc: "scr ?t (vram s)" using r by (simp add: ready_def)
  have n: "narg ?t = length ns" "args ?t = args_after ns" "length (args ?t) = 16" "length ns \<le> 16"
    using r pre by (auto simp: ready_def csi_pre_def)
  have tk: "take (narg ?t) (args ?t) = map of_nat ns" using n by (simp add: args_after_def)
  have "narg ?t \<le> 16" "sgr_disjoint (take (narg ?t) (args ?t))"
    using n pre unfolding tk by (simp_all add: csi_pre_def)
  from csi_m_ref [OF n(3) this] obtain t' where t': "csi_m ?t = Inr t'" "state t' = St_idle"
    "(front_color t', back_color t') =
      (if narg ?t = 0 then (0xffffff, 0) else sgr_ref (take (narg ?t) (args ?t)) (front_color ?t, back_color ?t))"
    "uncolored (t'\<lparr>state := state ?t\<rparr>) = uncolored ?t" by blast
  note u = uncolored_sel [OF t'(4)]
  have cc: "cursor_char t' = cursor_char ?t" using arg_cong [OF t'(4), of cursor_char] by (simp add: uncolored_def)
  have "view t' (vram s) = (view ?t (vram s))\<lparr>paper := back_color t', pen := front_color t'\<rparr>"
    using u by (simp add: view_def)
  moreover have "scr t' (vram s)" using sc u cc by (simp add: scr_def)
  moreover have "pen y = front_color ?t" "paper y = back_color ?t" by (simp_all add: y view_def)
  moreover have "front_color t' = fst (if ns = [] then (0xffffff, 0) else sgr_ref (map of_nat ns) (pen y, paper y))"
    "back_color t' = snd (if ns = [] then (0xffffff, 0) else sgr_ref (map of_nat ns) (pen y, paper y))"
    using arg_cong [OF t'(3), of fst] arg_cong [OF t'(3), of snd] n tk \<open>pen y = _\<close> \<open>paper y = _\<close> by simp_all
  ultimately show ?thesis
    using t'(1,2) by (simp add: runs_to_def upd_res_def streams_def csi_spec_def Let_def y)
qed

lemma csi_pre_bytes:
  assumes "csi_pre b ns y"
  obtains "b = 65" | "b = 66" | "b = 67" | "b = 68" | "b = 72 \<or> b = 102" | "b = 74" | "b = 75" | "b = 109"
proof -
  have "b = 65 \<or> b = 66 \<or> b = 67 \<or> b = 68 \<or> (b = 72 \<or> b = 102) \<or> b = 74 \<or> b = 75 \<or> b = 109"
  proof (rule ccontr)
    assume "\<not> ?thesis"
    with assms show False by (simp add: csi_pre_def Let_def)
  qed
  with that show ?thesis by blast
qed

lemma csi_exec_spec:
  assumes r: "ready s ns" and y: "y = view (tm s Term) (vram s)" and pre: "csi_pre b ns y"
  shows "runs_to s (csi_exec (ucast b) Term s) (csi_spec b ns y)"
  using pre
proof (rule csi_pre_bytes)
  assume b: "b = 65" with move_commands(1) [OF r y pre] show ?thesis by simp
next
  assume b: "b = 66" with move_commands(2) [OF r y pre] show ?thesis by simp
next
  assume b: "b = 67" with move_commands(3) [OF r y pre] show ?thesis by simp
next
  assume b: "b = 68" with move_commands(4) [OF r y pre] show ?thesis by simp
next
  assume b: "b = 72 \<or> b = 102"
  with place_command [OF r y pre] show ?thesis by (auto simp: csi_exec_def)
next
  assume b: "b = 74"
  with pre have "csi_pre 74 ns y" by simp
  with erase_command [OF r y] b show ?thesis by (simp add: csi_exec_def)
next
  assume b: "b = 75"
  with pre have "csi_pre 75 ns y" by simp
  with erase_line_command [OF r y] b show ?thesis by (simp add: csi_exec_def)
next
  assume b: "b = 109"
  with pre have "csi_pre 109 ns y" by simp
  with color_command [OF r y] b show ?thesis by (simp add: csi_exec_def)
qed

lemma csi_ok_spec:
  assumes a: "narg t = length ns" "args t = args_after ns" and pre: "csi_pre b ns (view t m)"
    and p: "0 \<le> cursor_x t" "cursor_x t < 160" "0 \<le> cursor_y t"
  shows "csi_ok Term (ucast b) t"
proof -
  have bd: "\<forall>n \<in> set ns. n < 65536" "length ns \<le> 16" using pre by (simp_all add: csi_pre_def)
  note n = arg_or_1_after [OF a bd(1)]
  have at: "i < length ns \<Longrightarrow> uint (args t ! i) = int (ns ! i)" for i
    using a bd args_after_nth [of i ns] by (simp add: uint_of_nat16)
  have le: "args t ! 0 \<le> 2" if "ns \<noteq> []" "ns ! 0 \<le> 2"
    using at [of 0] that by (simp add: word_le_def)
  from pre show ?thesis
  proof (rule csi_pre_bytes)
    assume b: "b = 65" with pre n show ?thesis by (simp add: csi_ok_def csi_pre_def Let_def)
  next
    assume b: "b = 66"
    with pre have "nat (cursor_y t) + (if ns = [] then 1 else ns ! 0) < 64"
      by (simp add: csi_pre_def Let_def view_sel)
    then have "cursor_y t + int (if ns = [] then 1 else ns ! 0) < 64" using p by linarith
    with b n p show ?thesis by (simp add: csi_ok_def)
  next
    assume b: "b = 67"
    with pre have "nat (cursor_x t) + (if ns = [] then 1 else ns ! 0) < 160"
      by (simp add: csi_pre_def Let_def view_sel)
    then have "cursor_x t + int (if ns = [] then 1 else ns ! 0) < 160" using p by linarith
    with b n p show ?thesis by (simp add: csi_ok_def)
  next
    assume b: "b = 68" with pre n show ?thesis by (simp add: csi_ok_def csi_pre_def Let_def)
  next
    assume b: "b = 72 \<or> b = 102"
    with pre have "ns = [] \<or> (length ns = 2 \<and> 1 \<le> ns ! 0 \<and> ns ! 0 \<le> 64 \<and> 1 \<le> ns ! 1 \<and> ns ! 1 \<le> 160)"
      by (auto simp: csi_pre_def Let_def)
    then show ?thesis
    proof
      assume "ns = []" with b a show ?thesis by (auto simp: csi_ok_def)
    next
      assume two: "length ns = 2 \<and> 1 \<le> ns ! 0 \<and> ns ! 0 \<le> 64 \<and> 1 \<le> ns ! 1 \<and> ns ! 1 \<le> 160"
      have "uint (args t ! 0) = int (ns ! 0)" "uint (args t ! 1) = int (ns ! 1)"
        using two by (intro at; simp)+
      with b a two show ?thesis by (auto simp: csi_ok_def)
    qed
  next
    assume b: "b = 74" then show ?thesis by (simp add: csi_ok_def)
  next
    assume b: "b = 75"
    with pre have "ns = [] \<or> (length ns = 1 \<and> ns ! 0 \<le> 2)" by (simp add: csi_pre_def Let_def)
    with b a le show ?thesis by (auto simp: csi_ok_def)
  next
    assume b: "b = 109"
    have "take (narg t) (args t) = map of_nat ns" using a by (simp add: args_after_def)
    with a bd b pre show ?thesis by (simp add: csi_ok_def csi_pre_def)
  qed
qed

lemma csi_pre_final: "csi_pre b ns y \<Longrightarrow> \<not> isdigit (ucast b) \<and> b \<noteq> 59"
  by (erule csi_pre_bytes) (auto simp: isdigit_def)

lemma awaits_byte_ok:
  assumes w: "awaits s ns" and pre: "csi_pre b ns (tty_of s)"
  shows "byte_ok Term (tm s Term) b"
proof -
  let ?t = "tm s Term"
  have l: "length ns \<le> 16" using pre by (simp add: csi_pre_def)
  have p: "0 \<le> cursor_x ?t" "cursor_x ?t < 160" "0 \<le> cursor_y ?t"
    using w scr_pos [of ?t] by (auto simp: awaits_def vis_def)
  have a: "args ?t = args_after ns" using w by (simp add: awaits_def)
  let ?t' = "?t\<lparr>narg := length ns\<rparr>"
  have "csi_pre b ns (view ?t' (uncovered ?t (vram s)))" using pre by (simp add: tty_of_def)
  then have ok: "csi_ok Term (ucast b) ?t'" using a p by (intro csi_ok_spec) simp_all
  note fin = csi_pre_final [OF pre]
  show ?thesis
  proof (cases "ns = []")
    case True
    have "?t' = ?t" using True w by (simp add: awaits_def)
    then have "csi_ok Term (ucast b) ?t" using ok by simp
    with True w fin show ?thesis by (simp add: awaits_def byte_ok_def Let_def ret_ok_def)
  next
    case False
    then have "(narg ?t + 1) mod 256 = length ns" using w l by (cases ns) (auto simp: awaits_def)
    with False w ok fin show ?thesis
      by (simp add: awaits_def byte_ok_def Let_def ret_ok_def ret_or_idle_def)
  qed
qed

lemma csi_run:
  assumes "tty_inv s" and "csi_pre b ns (tty_of s)"
  shows "\<exists>s'. run_list vt100_putc (csi ns @ [b]) s = Inr s' \<and> tty_inv s' \<and>
    tty_of s' = csi_spec b ns (tty_of s) \<and> displays (vram s') (csi_spec b ns (tty_of s))"
proof -
  have l: "length ns \<le> 16" using assms(2) by (simp add: csi_pre_def)
  from csi_awaits [OF assms(1) l] obtain s1 where
    1: "run_list vt100_putc (csi ns) s = Inr s1" "awaits s1 ns" "tty_of s1 = tty_of s" by blast
  let ?c = "bare (at_command s1 ns)"
  have v: "vis (at_command s1 ns)" using 1(2) by (simp add: awaits_def at_command_vis)
  have y: "tty_of s = view (tm ?c Term) (vram ?c)"
    using 1(3) by (simp add: bare_view at_command_vis)
  have "length (args (tm s1 Term)) = 16"
    using 1(2) by (auto simp: awaits_def vis_def vt_inv_def con_inv_def tm_inv_def)
  then have r: "ready ?c ns"
    using bare_scr [OF v] 1(2) by (simp add: ready_def bare_sel at_command_sel awaits_def)
  from csi_exec_spec [OF r y assms(2)] obtain s2 where
    s2: "csi_exec (ucast b) Term ?c = Inr s2" "scr (tm s2 Term) (vram s2)"
      "view (tm s2 Term) (vram s2) = csi_spec b ns (tty_of s)" "streams s2 = streams ?c"
      "state (tm s2 Term) = St_idle"
    by (auto simp: runs_to_def)
  have fin: "\<not> isdigit (ucast b)" "b \<noteq> 59" using csi_pre_final [OF assms(2)] by auto
  have ok: "byte_ok Term (tm s1 Term) b" using awaits_byte_ok [OF 1(2)] assms(2) 1(3) by simp
  have "streams s2 = streams s1" using s2(4) by (simp add: bare_sel at_command_sel)
  from run_command [OF 1(2) l fin s2(1,2) this s2(5) ok] 1(1) s2(3) show ?thesis
    by (auto simp: run_list_append)
qed

text \<open>
  Claim C3. Control sequences do on the terminal what \<open>csi_spec\<close> says on the abstract screen.
  For cursor up, down, right and left, cursor placement, erasing in the screen and in the row,
  and colors, with arguments in the range of \<open>csi_pre\<close>: the bytes \<open>ESC [\<close>, the decimal
  arguments and the final byte are consumed, the screen shows the specified result with the
  cursor painted, and the terminal is idle again.
\<close>

theorem csi_refines:
  assumes "tty_inv s" and "csi_pre b ns (tty_of s)"
  shows "\<exists>s'. run_list vt100_putc (csi ns @ [b]) s = Inr s' \<and> tty_inv s' \<and>
    tty_of s' = csi_spec b ns (tty_of s) \<and> displays (vram s') (csi_spec b ns (tty_of s))"
  using assms by (rule csi_run)

theorem csi_refines_witness:
  "tty_inv booted \<and> csi_pre 72 [12, 40] (tty_of booted) \<and>
   (\<exists>s'. run_list vt100_putc (csi [12, 40] @ [72]) booted = Inr s' \<and> tty_inv s' \<and>
     row (tty_of s') = 11 \<and> col (tty_of s') = 39)"
proof -
  have p: "csi_pre 72 [12, 40] (tty_of booted)" by (simp add: csi_pre_def Let_def)
  from csi_refines [OF booted_tty p] booted_tty p show ?thesis
    by (auto simp: csi_spec_def Let_def)
qed

section \<open>Saving and restoring the cursor\<close>

text \<open>Printing changes nothing of a terminal but the cursor, whatever state it starts from.\<close>

lemma clearLines_same: "vt100_clearLines a b t m = Inr (t', m') \<Longrightarrow> t' = t"
  by (auto simp: vt100_clearLines_def Let_def res_simps split: if_splits prod.splits)

lemma move_core: "vt100_move dx dy t m = Inr (t', m') \<Longrightarrow> core t' = core t"
  by (auto simp: vt100_move_def Let_def vt100_scroll_def split: prod.splits if_splits dest!: clearLines_same)

lemma putc_core: "term_putc ch t m = Inr (t', m') \<Longrightarrow> core t' = core t"
  by (auto simp: term_putc_def Let_def split: if_splits dest!: move_core)

lemma putc_n_core: "putc_n n ch t m = Inr (t', m') \<Longrightarrow> core t' = core t"
  by (induction n arbitrary: t m) (auto simp: res_simps dest: putc_core)

lemma remove_core: "vt100_removeCursor t m = Inr (t', m') \<Longrightarrow> core t' = core t"
  by (auto simp: vt100_removeCursor_def Let_def split: if_splits)

lemma draw_core: "vt100_drawCursor t m = Inr (t', m') \<Longrightarrow> core t' = core t"
  by (auto simp: vt100_drawCursor_def Let_def split: if_splits)

lemmas print_core = move_core putc_core putc_n_core

lemma idle_core:
  assumes "idle_exec a Term s = Inr s'" "a \<noteq> 27"
  shows "core (tm s' Term) = core (tm s Term)"
  using assms by (auto simp: idle_exec_def res_simps split: if_splits dest!: print_core)

lemma st_idle_core:
  assumes "st_idle EV_CHAR a Term s = Inr s'" "a \<noteq> 27"
  shows "core (tm s' Term) = core (tm s Term)"
  using assms by (auto simp: st_idle_def res_simps dest!: remove_core draw_core idle_core)

lemma run_plain_core:
  "tty_inv s \<Longrightarrow> 27 \<notin> set bs \<Longrightarrow> run_list vt100_putc bs s = Inr s' \<Longrightarrow> guarded tty_ok vt100_putc bs s \<Longrightarrow>
   core (tm s' Term) = core (tm s Term)"
proof (induction bs arbitrary: s)
  case Nil
  then show ?case by simp
next
  case (Cons b bs)
  then obtain s1 where 1: "vt100_putc b s = Inr s1" "run_list vt100_putc bs s1 = Inr s'"
    by (auto simp: rbind_Inr_iff)
  have i: "vt_inv s" "state (tm s Term) = St_idle" "b \<noteq> 27" using Cons.prems by (auto simp: tty_inv_def)
  from vt100_putc_plain [OF i] 1(1) have c: "call_state EV_CHAR (ucast b) Term s = Inr s1" by auto
  have "(ucast b :: u16) \<noteq> 27" using i(3) by (simp add: u8_u16_num)
  with c i(2) have "core (tm s1 Term) = core (tm s Term)"
    by (intro st_idle_core [of "ucast b"]) (simp_all add: call_state_def call_ret_def)
  moreover have "tty_inv s1" using tty_step_refines [of s b] Cons.prems 1(1) by auto
  ultimately show ?case using Cons.IH [of s1] Cons.prems 1 by auto
qed

lemma putc_escape:
  assumes "tty_inv s"
  shows "\<exists>s'. vt100_putc 27 s = Inr s' \<and> vis s' \<and> tty_of s' = tty_of s \<and> state (tm s' Term) = St_escape \<and>
    saved_cursor_x (tm s' Term) = saved_cursor_x (tm s Term) \<and>
    saved_cursor_y (tm s' Term) = saved_cursor_y (tm s Term)"
proof -
  have v: "vis s" "state (tm s Term) = St_idle" using assms by (simp_all add: vis_tty_inv)
  have i: "con_inv s" "status_stream_ptr s = 0" using v by (auto simp: vis_def vt_inv_def)
  from putc_collect [OF v(1), of 27] v(2) obtain s1 where
    1: "vt100_putc 27 s = Inr s1" "vis s1" "tty_of s1 = tty_of s" "state (tm s1 Term) = St_escape"
    by (fastforce simp: collects_def ctl_of_def)
  let ?g = "goto St_escape Term (bare s)"
  have e: "idle_exec 27 Term (bare s) = Inr ?g" by (simp add: idle_exec_def)
  have sc: "scr (tm ?g Term) (vram ?g)" using bare_scr [OF v(1)] by (simp add: goto_def)
  have "streams ?g = streams s" by (simp add: goto_def bare_def streams_def)
  with bracket_shows [where g = "idle_exec 27 Term", OF v(1) e sc] obtain s2 where
    2: "st_idle EV_CHAR 27 Term s = Inr s2" "streams s2 = streams s" "core (tm s2 Term) = core (tm ?g Term)"
    by (auto simp: st_idle_def)
  have "vt100_putc 27 s = Inr s2"
    using 2 v(2) i(2) by (intro putc_quiet) (simp_all add: call_state_def call_ret_def)
  with 1 have "s2 = s1" by simp
  with 1 core_sel(6,7) [OF 2(3)] show ?thesis by (auto simp: goto_def bare_sel)
qed

lemma putc_after_escape:
  assumes v: "vis s" and st: "state (tm s Term) = St_escape"
    and e: "esc_exec (ucast b) Term (bare s) = Inr s2" and sc: "scr (tm s2 Term) (vram s2)"
    and k: "streams s2 = streams s" "state (tm s2 Term) = St_idle"
  shows "\<exists>s'. vt100_putc b s = Inr s' \<and> tty_inv s' \<and> tty_of s' = view (tm s2 Term) (vram s2) \<and>
    core (tm s' Term) = core (tm s2 Term)"
proof -
  from bracket_shows [where g = "esc_exec (ucast b) Term", OF v e sc] obtain s' where
    s': "call_state EV_CHAR (ucast b) Term s = Inr s'" "shows_tty s' (view (tm s2 Term) (vram s2))"
      "streams s' = streams s2" "core (tm s' Term) = core (tm s2 Term)"
    using st by (auto simp: call_state_def call_ret_def st_escape_def)
  have i: "vt_inv s" "status_stream_ptr s = 0" using v by (auto simp: vis_def vt_inv_def)
  have p: "vt100_putc b s = Inr s'"
    using s'(3) k(1) i(2) by (intro putc_quiet [OF s'(1)]) simp_all
  have "byte_ok Term (tm s Term) b" using st by (simp add: byte_ok_def Let_def ret_ok_def)
  from vt100_putc_inv [OF i(1) this] p have "vt_inv s'" by simp
  with p s' core_sel(15) [OF s'(4)] k show ?thesis
    by (auto simp: shows_tty_def vis_tty_inv vis_def)
qed

text \<open>
  \<open>ESC 7\<close> and \<open>ESC 8\<close> bring the cursor back: whatever text is printed between them,
  also when it scrolls, the cursor returns to the row and column it had, and the screen holds
  what the teletype has printed.
\<close>

theorem save_restore:
  assumes "tty_inv s" and "set bs \<inter> {0, 8, 27, 127} = {}"
  shows "\<exists>s'. run_list vt100_putc ([27, 55] @ bs @ [27, 56]) s = Inr s' \<and> tty_inv s' \<and>
    tty_of s' = (fold tty_step bs (tty_of s))\<lparr>row := row (tty_of s), col := col (tty_of s)\<rparr>"
proof -
  let ?t = "tm s Term"
  from putc_escape [OF assms(1)] obtain s1 where
    1: "vt100_putc 27 s = Inr s1" "vis s1" "tty_of s1 = tty_of s" "state (tm s1 Term) = St_escape" by blast
  let ?save = "goto St_idle Term (upd_tm Term (\<lambda>t. t\<lparr>saved_cursor_x := cursor_x t, saved_cursor_y := cursor_y t\<rparr>) (bare s1))"
  have e1: "esc_exec (ucast (55 :: u8)) Term (bare s1) = Inr ?save" by (simp add: esc_exec_def)
  have sc1: "scr (tm ?save Term) (vram ?save)"
    using bare_scr [OF 1(2)] by (simp add: goto_def scr_def wf_screen_def)
  have v1: "view (tm ?save Term) (vram ?save) = tty_of s"
    using bare_view [of s1] 1(3) by (simp add: goto_def view_def)
  from putc_after_escape [OF 1(2,4) e1 sc1] obtain s2 where
    2: "vt100_putc 55 s1 = Inr s2" "tty_inv s2" "tty_of s2 = tty_of s" "core (tm s2 Term) = core (tm ?save Term)"
    unfolding v1 by (auto simp: goto_def streams_def bare_def)
  have sv: "saved_cursor_x (tm s2 Term) = cursor_x (tm s1 Term)" "saved_cursor_y (tm s2 Term) = cursor_y (tm s1 Term)"
    using core_sel(6,7) [OF 2(4)] by (simp_all add: goto_def bare_sel)
  have g: "guarded tty_ok vt100_putc bs s2" by (rule guarded_text [OF assms(2)])
  from teletype.run_refines [OF 2(2) g] obtain s3 where
    3: "run_list vt100_putc bs s2 = Inr s3" "tty_inv s3" "tty_of s3 = fold tty_step bs (tty_of s)"
    using 2(3) by auto
  have c3: "core (tm s3 Term) = core (tm s2 Term)"
    using run_plain_core [OF 2(2) _ 3(1) g] assms(2) by auto
  from putc_escape [OF 3(2)] obtain s4 where
    4: "vt100_putc 27 s3 = Inr s4" "vis s4" "tty_of s4 = tty_of s3" "state (tm s4 Term) = St_escape"
      "saved_cursor_x (tm s4 Term) = cursor_x (tm s1 Term)" "saved_cursor_y (tm s4 Term) = cursor_y (tm s1 Term)"
    using core_sel(6,7) [OF c3] sv by auto
  let ?rest = "goto St_idle Term (upd_tm Term (\<lambda>t. t\<lparr>cursor_x := saved_cursor_x t, cursor_y := saved_cursor_y t\<rparr>) (bare s4))"
  have e4: "esc_exec (ucast (56 :: u8)) Term (bare s4) = Inr ?rest" by (simp add: esc_exec_def)
  have p: "0 \<le> cursor_x (tm s1 Term) \<and> cursor_x (tm s1 Term) < 160 \<and> 0 \<le> cursor_y (tm s1 Term) \<and> cursor_y (tm s1 Term) < 64"
    using 1(2) scr_pos by (auto simp: vis_def)
  have rt: "tm ?rest Term = (tm (bare s4) Term)\<lparr>cursor_x := cursor_x (tm s1 Term), cursor_y := cursor_y (tm s1 Term), state := St_idle\<rparr>"
    "vram ?rest = vram (bare s4)"
    using 4(5,6) by (simp_all add: goto_def bare_sel)
  have sc4: "scr (tm ?rest Term) (vram ?rest)"
    unfolding rt using scr_place [OF bare_scr [OF 4(2)]] p by simp
  have rc: "row (tty_of s) = nat (cursor_y (tm s1 Term))" "col (tty_of s) = nat (cursor_x (tm s1 Term))"
    using 1(3) by (metis tty_of_def view_sel(2,3))+
  have v4: "view (tm ?rest Term) (vram ?rest) =
      (fold tty_step bs (tty_of s))\<lparr>row := row (tty_of s), col := col (tty_of s)\<rparr>"
    unfolding rt using bare_view [of s4] 4(3) 3(3) by (simp add: view_place rc)
  from putc_after_escape [OF 4(2,4) e4 sc4] obtain s5 where
    "vt100_putc 56 s4 = Inr s5" "tty_inv s5" "tty_of s5 = view (tm ?rest Term) (vram ?rest)"
    by (auto simp: goto_def streams_def bare_def)
  with 1 2 3 4 v4 show ?thesis by (auto simp: run_list_append)
qed

theorem save_restore_witness:
  "tty_inv booted \<and> set [65, 10, 66 :: u8] \<inter> {0, 8, 27, 127} = {} \<and>
   (\<exists>s'. run_list vt100_putc ([27, 55] @ [65, 10, 66] @ [27, 56]) booted = Inr s' \<and> tty_inv s' \<and>
     row (tty_of s') = 0 \<and> col (tty_of s') = 0)"
proof -
  have n: "set [65, 10, 66 :: u8] \<inter> {0, 8, 27, 127} = {}" by simp
  from save_restore [OF booted_tty n] booted_tty n tty_booted show ?thesis by auto
qed

end
