(* ===== verification/Vt100_Streams.thy ===== *)
theory Vt100_Streams
  imports Vt100_Commands
begin

text \<open>
  The byte streams in front of the terminals. \<open>vt100_buffer\<close> collects bytes and
  \<open>vt100_flush\<close> delivers them; the handlers reached from \<open>vt100_putc\<close> neither read nor write
  that buffer (\<open>blind\<close>), so buffering a byte and sending it are the same thing.
\<close>

section \<open>Handlers do not see the input stream\<close>

definition with_stream :: "u8 list \<Rightarrow> nat \<Rightarrow> console \<Rightarrow> console" where
  "with_stream B p s = s\<lparr>vt100_stream_buffer := B, vt100_stream_ptr := p\<rparr>"

lemma with_stream_sel [simp]:
  "tm (with_stream B p s) = tm s" "vram (with_stream B p s) = vram s"
  "status_stream_buffer (with_stream B p s) = status_stream_buffer s"
  "status_stream_ptr (with_stream B p s) = status_stream_ptr s"
  "vt100_stream_buffer (with_stream B p s) = B" "vt100_stream_ptr (with_stream B p s) = p"
  by (simp_all add: with_stream_def)

lemma with_stream_again [simp]: "with_stream B p (with_stream B' p' s) = with_stream B p s"
  by (simp add: with_stream_def)

lemma with_stream_own: "with_stream (vt100_stream_buffer s) (vt100_stream_ptr s) s = s"
  by (simp add: with_stream_def)

definition blind :: "(console \<Rightarrow> console res) \<Rightarrow> bool" where
  "blind f \<longleftrightarrow> (\<forall>s B p. f (with_stream B p s) = map_sum id (with_stream B p) (f s))"

lemma blindD: "blind f \<Longrightarrow> f (with_stream B p s) = map_sum id (with_stream B p) (f s)"
  by (simp add: blind_def)

named_theorems blinds \<open>routines that neither read nor write the input stream\<close>

lemma blind_bind [blinds]: "blind f \<Longrightarrow> blind g \<Longrightarrow> blind (\<lambda>s. rbind (f s) g)"
  unfolding blind_def
proof (intro allI)
  fix s B p
  assume f: "\<forall>s B p. f (with_stream B p s) = map_sum id (with_stream B p) (f s)"
    and g: "\<forall>s B p. g (with_stream B p s) = map_sum id (with_stream B p) (g s)"
  show "rbind (f (with_stream B p s)) g = map_sum id (with_stream B p) (rbind (f s) g)"
    by (cases "f s") (simp_all add: f g)
qed

lemma blind_pure [blinds]: "(\<And>B p s. h (with_stream B p s) = with_stream B p (h s)) \<Longrightarrow> blind (\<lambda>s. Inr (h s))"
  by (simp add: blind_def)

lemma blind_Inr [blinds]: "blind Inr" "blind (\<lambda>s. Inr s)"
  by (simp_all add: blind_def)

lemma blind_Inl [blinds]: "blind (\<lambda>s. Inl e)"
  by (simp add: blind_def)

lemma blind_if [blinds]: "blind f \<Longrightarrow> blind g \<Longrightarrow> blind (\<lambda>s. if b then f s else g s)"
  by (simp add: blind_def)

lemma blind_tm: "(\<And>t. blind (F t)) \<Longrightarrow> blind (\<lambda>s. F (tm s w) s)"
  by (simp add: blind_def)

lemma blind_on_tm [blinds]: "blind (on_tm w f)"
  unfolding blind_def
proof (intro allI)
  fix s B p
  show "on_tm w f (with_stream B p s) = map_sum id (with_stream B p) (on_tm w f s)"
    by (cases "f (tm s w) (vram s)") (auto simp: on_tm_def with_stream_def)
qed

lemma upd_tm_blind: "upd_tm w f (with_stream B p s) = with_stream B p (upd_tm w f s)"
  by (simp add: upd_tm_def with_stream_def)

lemma goto_blind: "goto st w (with_stream B p s) = with_stream B p (goto st w s)"
  by (simp add: goto_def upd_tm_blind)

lemma reset_blind:
  "vt100_reset (with_stream B p s) = with_stream B p (vt100_reset s)"
  "vt100_resetScroll (with_stream B p s) = with_stream B p (vt100_resetScroll s)"
  by (simp_all add: vt100_reset_def vt100_resetScroll_def upd_tm_blind)

lemmas pure_blind = upd_tm_blind goto_blind reset_blind

lemma blind_upd_res [blinds]: "blind (upd_res w f)"
  unfolding blind_def
proof (intro allI)
  fix s B p
  show "upd_res w f (with_stream B p s) = map_sum id (with_stream B p) (upd_res w f s)"
    by (cases "f (tm s w)") (auto simp: upd_res_def with_stream_def)
qed

lemma blind_printf [blinds]: "blind (status_printf out)"
  unfolding blind_def
proof (intro allI)
  fix s B p
  show "status_printf out (with_stream B p s) = map_sum id (with_stream B p) (status_printf out s)"
    by (cases "snprintf_at (status_stream_buffer s) (status_stream_ptr s) out")
      (auto simp: status_printf_def with_stream_def)
qed

lemma blind_pures [blinds]:
  "blind (\<lambda>s. Inr (upd_tm w f s))" "blind (\<lambda>s. Inr (goto st w s))"
  "blind (\<lambda>s. Inr (goto st w (upd_tm w' f s)))" "blind (\<lambda>s. Inr (goto st w (vt100_reset s)))"
  "blind (\<lambda>s. Inr (vt100_resetScroll s))"
  by (simp_all add: blind_def pure_blind)

lemma blind_csi_J [blinds]: "blind (csi_J w)"
  unfolding csi_J_def Let_def by (rule blind_tm) (intro blinds)

lemma blind_csi_P [blinds]: "blind (csi_P w)"
  unfolding csi_P_def Let_def by (rule blind_tm) (intro blinds)

lemma blind_csi_q [blinds]: "blind (csi_q w)"
  unfolding csi_q_def Let_def by (rule blind_tm) (intro blinds)

lemma blind_csi_r [blinds]: "blind (\<lambda>s. Inr (csi_r w s))"
  by (rule blind_pure) (simp add: csi_r_def Let_def pure_blind)

lemma blind_start_arg [blinds]: "blind (start_arg st a w)"
proof -
  have "blind (\<lambda>s. upd_res w (command_arg_digit a) (upd_tm w (\<lambda>t. t\<lparr>ret_state := Some st\<rparr>) s))"
    using blind_bind [OF blind_pures(1) [of w "\<lambda>t. t\<lparr>ret_state := Some st\<rparr>"] blind_upd_res] by simp
  then show ?thesis unfolding start_arg_def by (intro blinds)
qed

lemma blind_csi_exec [blinds]: "blind (csi_exec a w)"
  unfolding csi_exec_def by (intro blinds)

lemma blind_sq [blinds]: "blind (st_esc_sq_bracket ev a w)"
  unfolding st_esc_sq_bracket_def by (intro blinds)

lemma blind_dec_mode [blinds]: "blind (dec_mode on w)"
  unfolding dec_mode_def Let_def by (rule blind_tm) (intro blinds)

lemma blind_question [blinds]: "blind (st_esc_question ev a w)"
  unfolding st_esc_question_def by (intro blinds)

lemma blind_small [blinds]:
  "blind (st_esc_left_br ev a w)" "blind (st_esc_right_br ev a w)" "blind (st_esc_hash ev a w)"
  by (simp_all add: blind_def st_esc_left_br_def st_esc_right_br_def st_esc_hash_def pure_blind)

lemma blind_esc_exec [blinds]: "blind (esc_exec a w)"
  unfolding esc_exec_def by (intro blinds)

lemma blind_escape [blinds]: "blind (st_escape ev a w)"
  unfolding st_escape_def by (intro blinds)

lemma blind_idle_exec [blinds]: "blind (idle_exec a w)"
proof -
  have "blind (\<lambda>s. on_tm w (putc_n (tab_count (tm s w)) 32) s)"
    by (rule blind_tm) (intro blinds)
  then show ?thesis unfolding idle_exec_def by (intro blinds)
qed

lemma blind_idle [blinds]: "blind (st_idle ev a w)"
  unfolding st_idle_def by (intro blinds)

lemma blind_call_ret [blinds]: "blind (call_ret st ev a w)"
  unfolding call_ret_def by (cases st) (simp_all add: blinds)

lemma blind_command_arg [blinds]: "blind (st_command_arg ev a w)"
proof -
  let ?n = "\<lambda>s. upd_tm w (\<lambda>t. t\<lparr>narg := (narg t + 1) mod 256\<rparr>) s"
  let ?r = "\<lambda>s. upd_tm w (\<lambda>t. t\<lparr>state := ret_or_idle t\<rparr>) (?n s)"
  have "blind (\<lambda>s. call_ret (state (tm (?r s) w)) ev a w (?r s))"
    by (simp add: blind_def pure_blind blindD [OF blind_call_ret])
  then show ?thesis unfolding st_command_arg_def Let_def by (intro blinds)
qed

lemma blind_call_state [blinds]: "blind (call_state ev a w)"
  by (simp add: blind_def call_state_def blindD [OF blind_call_ret] blindD [OF blind_command_arg])

lemma blind_status_putc: "blind (status_putc c)"
  by (simp add: blind_def status_putc_def blindD [OF blind_call_state])

lemma status_flush_loop_stream:
  "status_flush_loop i s = Some r \<Longrightarrow>
   status_flush_loop i (with_stream B p s) = Some (map_sum id (with_stream B p) r)"
proof (induction i s r rule: status_flush_loop.raw_induct [rotated 1, consumes 1, case_names Step])
  case (Step loop i s r)
  show ?case
  proof (cases "i < status_stream_ptr s \<and> i < length (status_stream_buffer s)")
    case False
    with Step.hyps show ?thesis
      by (subst status_flush_loop.simps) (auto split: if_splits)
  next
    case True
    show ?thesis
    proof (cases "status_putc (status_stream_buffer s ! i) s")
      case (Inl e)
      with True Step.hyps blindD [OF blind_status_putc, of _ B p s] show ?thesis
        by (subst status_flush_loop.simps) auto
    next
      case (Inr s1)
      with True Step.hyps have "loop (i + 1) s1 = Some r" by simp
      then have "status_flush_loop (i + 1) (with_stream B p s1) = Some (map_sum id (with_stream B p) r)"
        by (rule Step.IH)
      with True Inr blindD [OF blind_status_putc, of _ B p s] show ?thesis
        by (subst status_flush_loop.simps) simp
    qed
  qed
qed

lemma blind_status_flush [blinds]: "blind status_flush"
  unfolding blind_def
proof (intro allI)
  fix s B p
  have d: "(with_stream B p s')\<lparr>status_stream_ptr := 0\<rparr> = with_stream B p (s'\<lparr>status_stream_ptr := 0\<rparr>)" for s'
    by (simp add: with_stream_def)
  show "status_flush (with_stream B p s) = map_sum id (with_stream B p) (status_flush s)"
  proof (cases "status_flush_loop 0 s")
    case (Some r)
    from status_flush_loop_stream [OF this] Some show ?thesis
      by (cases r) (simp_all add: status_flush_def d)
  next
    case None
    have "status_flush_loop 0 (with_stream B p s) = None"
    proof (cases "status_flush_loop 0 (with_stream B p s)")
      case (Some r)
      from status_flush_loop_stream [OF this, of "vt100_stream_buffer s" "vt100_stream_ptr s"] None
      show ?thesis by (simp add: with_stream_own)
    qed
    with None show ?thesis by (simp add: status_flush_def)
  qed
qed

lemma blind_vt100_putc [blinds]: "blind (vt100_putc c)"
  unfolding vt100_putc_def by (intro blinds)

lemma blind_run [blinds]: "blind (run_list vt100_putc bs)"
proof (induction bs)
  case Nil
  then show ?case by (simp add: blinds)
next
  case (Cons b bs)
  have "run_list vt100_putc (b # bs) = (\<lambda>s. rbind (vt100_putc b s) (run_list vt100_putc bs))" by auto
  with Cons show ?case by (simp add: blinds)
qed

lemma blind_keeps:
  assumes "blind f" "f s = Inr s'"
  shows "vt100_stream_buffer s' = vt100_stream_buffer s" "vt100_stream_ptr s' = vt100_stream_ptr s"
proof -
  have "f (with_stream (vt100_stream_buffer s) (vt100_stream_ptr s) s) =
      map_sum id (with_stream (vt100_stream_buffer s) (vt100_stream_ptr s)) (f s)"
    by (rule blindD [OF assms(1)])
  with assms(2) have "s' = with_stream (vt100_stream_buffer s) (vt100_stream_ptr s) s'"
    by (simp add: with_stream_own)
  then show "vt100_stream_buffer s' = vt100_stream_buffer s" "vt100_stream_ptr s' = vt100_stream_ptr s"
    by (metis with_stream_sel(5,6))+
qed

lemma blind_run_with:
  "blind f \<Longrightarrow> f s = Inr s' \<Longrightarrow> f (with_stream B p s) = Inr (with_stream B p s')"
  by (simp add: blindD)

section \<open>Buffered output\<close>

definition stream_ok :: "console \<Rightarrow> bool" where
  "stream_ok s \<longleftrightarrow> length (vt100_stream_buffer s) = STREAM_SIZE \<and> vt100_stream_ptr s \<le> STREAM_SIZE"

definition buffered :: "console \<Rightarrow> u8 list" where
  "buffered s = take (vt100_stream_ptr s) (vt100_stream_buffer s)"

lemma buffered_with: "buffered (with_stream B p s) = take p B"
  by (simp add: buffered_def)

lemma flush_loop_run:
  "stream_ok s \<Longrightarrow> run_list vt100_putc (drop i (buffered s)) s = Inr s' \<Longrightarrow>
   vt100_flush_loop i s = Some (Inr s')"
proof (induction "length (buffered s) - i" arbitrary: i s)
  case 0
  then have "drop i (buffered s) = []" "\<not> i < vt100_stream_ptr s"
    by (auto simp: stream_ok_def buffered_def)
  with 0 show ?case by (subst vt100_flush_loop.simps) simp
next
  case (Suc n)
  have i: "i < vt100_stream_ptr s" "i < length (vt100_stream_buffer s)" "i < length (buffered s)"
    using Suc.hyps(2) Suc.prems(1) by (auto simp: stream_ok_def buffered_def)
  have "drop i (buffered s) = (vt100_stream_buffer s ! i) # drop (i + 1) (buffered s)"
    using Cons_nth_drop_Suc [OF i(3)] i by (simp add: buffered_def)
  with Suc.prems(2) obtain s1 where
    1: "vt100_putc (vt100_stream_buffer s ! i) s = Inr s1" "run_list vt100_putc (drop (i + 1) (buffered s)) s1 = Inr s'"
    by (auto simp: rbind_Inr_iff)
  note k = blind_keeps [OF blind_vt100_putc 1(1)]
  have b: "buffered s1 = buffered s" by (simp add: buffered_def k)
  have "vt100_flush_loop (i + 1) s1 = Some (Inr s')"
    using Suc.hyps(2) Suc.prems(1) 1(2) by (intro Suc.hyps(1)) (auto simp: b stream_ok_def k)
  with i 1(1) show ?case by (subst vt100_flush_loop.simps) simp
qed

lemma flush_run:
  assumes "stream_ok s" "run_list vt100_putc (buffered s) s = Inr s'"
  shows "vt100_flush s = Inr (with_stream (vt100_stream_buffer s) 0 s')"
proof -
  have "vt100_flush_loop 0 s = Some (Inr s')" using flush_loop_run [of s 0] assms by simp
  moreover have "s'\<lparr>vt100_stream_ptr := 0\<rparr> = with_stream (vt100_stream_buffer s) 0 s'"
    using blind_keeps [OF blind_run assms(2)] by (simp add: with_stream_def)
  ultimately show ?thesis by (simp add: vt100_flush_def)
qed

text \<open>One buffered byte: either it joins the pending bytes, or those are delivered first.\<close>

lemma buffer_step:
  assumes ok: "stream_ok s" and run: "run_list vt100_putc (buffered s @ bs) s = Inr s3"
  shows "\<exists>s'. vt100_buffer b s = Inr s' \<and> stream_ok s' \<and>
    (\<exists>B p s0. s' = with_stream B p s0 \<and>
      ((s0 = s \<and> buffered s' = buffered s @ [b]) \<or>
       (run_list vt100_putc (buffered s) s = Inr s0 \<and> buffered s' = [b])))"
proof (cases "vt100_stream_ptr s = STREAM_SIZE")
  case False
  let ?s = "with_stream ((vt100_stream_buffer s)[vt100_stream_ptr s := b]) (vt100_stream_ptr s + 1) s"
  have lt: "vt100_stream_ptr s < 2048" "length (vt100_stream_buffer s) = 2048"
    using False ok by (auto simp: stream_ok_def STREAM_SIZE_def)
  have "vt100_buffer b s = Inr ?s"
    using lt by (simp add: vt100_buffer_def STREAM_SIZE_def with_stream_def)
  moreover have "stream_ok ?s" using lt by (simp add: stream_ok_def STREAM_SIZE_def)
  moreover have "buffered ?s = buffered s @ [b]"
    using lt by (simp add: buffered_with buffered_def take_Suc_conv_app_nth)
  ultimately show ?thesis by blast
next
  case True
  obtain sm where sm: "run_list vt100_putc (buffered s) s = Inr sm"
    using run by (auto simp: run_list_append rbind_Inr_iff)
  let ?s = "with_stream ((vt100_stream_buffer s)[0 := b]) 1 sm"
  have l: "length (vt100_stream_buffer s) = 2048" using ok by (simp add: stream_ok_def STREAM_SIZE_def)
  have "vt100_buffer b s = Inr ?s"
    using True l flush_run [OF ok sm] by (simp add: vt100_buffer_def with_stream_def)
  moreover have "stream_ok ?s" using l by (simp add: stream_ok_def STREAM_SIZE_def)
  moreover have "buffered ?s = [b]"
    using l by (cases "vt100_stream_buffer s") (simp_all add: buffered_with)
  ultimately show ?thesis using sm by blast
qed

lemma buffer_run:
  "stream_ok s \<Longrightarrow> run_list vt100_putc (buffered s @ bs) s = Inr s3 \<Longrightarrow>
   \<exists>s1 B p. run_list vt100_buffer bs s = Inr s1 \<and> stream_ok s1 \<and>
     run_list vt100_putc (buffered s1) s1 = Inr (with_stream B p s3)"
proof (induction bs arbitrary: s s3)
  case Nil
  then show ?case by (auto intro!: exI [of _ "vt100_stream_buffer s3"] exI [of _ "vt100_stream_ptr s3"]
      simp: with_stream_own)
next
  case (Cons b bs)
  from buffer_step [OF Cons.prems] obtain s' B p s0 where
    1: "vt100_buffer b s = Inr s'" "stream_ok s'" "s' = with_stream B p s0"
      "(s0 = s \<and> buffered s' = buffered s @ [b]) \<or>
       (run_list vt100_putc (buffered s) s = Inr s0 \<and> buffered s' = [b])" by blast
  have "run_list vt100_putc (buffered s' @ bs) s0 = Inr s3"
    using 1(4) Cons.prems(2) by (auto simp: run_list_append rbind_Inr_iff rbind_assoc)
  then have "run_list vt100_putc (buffered s' @ bs) s' = Inr (with_stream B p s3)"
    unfolding 1(3) by (rule blind_run_with [OF blind_run])
  from Cons.IH [OF 1(2) this] 1(1) show ?case by auto
qed

text \<open>
  Claim C28. Buffering is transparent. Bytes handed to \<open>vt100_buffer\<close> reach the screen exactly
  once and in order: after \<open>vt100_flush\<close> both terminals, the video memory and the status stream
  are as if the pending bytes and the new ones had been sent one by one, however often the
  buffer of 2048 bytes filled up in between, and the buffer is empty.
\<close>

theorem buffering_transparent:
  assumes "stream_ok s" and "run_list vt100_putc (buffered s @ bs) s = Inr s3"
  shows "\<exists>s1 s2. run_list vt100_buffer bs s = Inr s1 \<and> vt100_flush s1 = Inr s2 \<and>
    tm s2 = tm s3 \<and> vram s2 = vram s3 \<and> status_stream_buffer s2 = status_stream_buffer s3 \<and>
    status_stream_ptr s2 = status_stream_ptr s3 \<and> buffered s2 = []"
proof -
  from buffer_run [OF assms] obtain s1 B p where
    1: "run_list vt100_buffer bs s = Inr s1" "stream_ok s1"
      "run_list vt100_putc (buffered s1) s1 = Inr (with_stream B p s3)" by blast
  from flush_run [OF 1(2,3)] 1(1) show ?thesis by (auto simp: buffered_def)
qed

theorem buffering_transparent_witness:
  "stream_ok booted \<and> (\<exists>s3. run_list vt100_putc (buffered booted @ [72, 105]) booted = Inr s3) \<and>
   (\<exists>s1 s2 s3. run_list vt100_putc [72, 105] booted = Inr s3 \<and> run_list vt100_buffer [72, 105] booted = Inr s1 \<and>
     vt100_flush s1 = Inr s2 \<and> vram s2 = vram s3)"
proof -
  have s: "stream_ok booted" "buffered booted = []"
    by (simp_all add: stream_ok_def buffered_def booted_def vt100_init_def vt100_reset_def bss_console_def Let_def)
  have "guarded tty_ok vt100_putc [72, 105] booted" by (rule guarded_text) simp
  from teletype.run_refines [OF booted_tty this] obtain s3 where
    r: "run_list vt100_putc (buffered booted @ [72, 105]) booted = Inr s3" using s(2) by auto
  from buffering_transparent [OF s(1) r] s r show ?thesis by auto
qed

end
