(* ===== verification/Vt100_Faults.thy ===== *)
theory Vt100_Faults
  imports Vt100_Streams
begin

text \<open>
  The other side of the guards. Each theorem is a byte sequence, or a state the program can
  get into, for which the code of \<open>vt100.c\<close> does not do what it means to: it stops in an
  endless loop, leaves an array, uses an unassigned local or stores outside the screen.
\<close>

section \<open>A final byte whatever its effect\<close>

lemma final_putc:
  fixes b :: u8
  assumes w: "awaits s ns" and l: "length ns \<le> 16" and b: "\<not> isdigit (ucast b)" "b \<noteq> 59"
  shows "call_state EV_CHAR (ucast b) Term s =
    rbind (csi_exec (ucast b) Term (bare (at_command s ns))) (on_tm Term vt100_drawCursor)"
proof -
  have "vis (at_command s ns)" using w by (simp add: awaits_def at_command_vis)
  moreover have "(ucast b :: u16) \<noteq> 59" using b(2) u8_u16_eq [of b 59] by simp
  ultimately show ?thesis
    using b(1) by (simp add: final_byte [OF w l b] st_esc_sq_bracket_def remove_bare)
qed

lemma putc_fault: "call_state EV_CHAR (ucast b) Term s = Inl e \<Longrightarrow> vt100_putc b s = Inl e"
  by (simp add: vt100_putc_def)

definition drawn :: "console \<Rightarrow> console" where
  "drawn s = (let t = tm s Term; p = VRam t + cur_off t in
     s\<lparr>tm := (tm s)(Term := t\<lparr>CharUnderCursor := vram s p\<rparr>),
       vram := (if cursor_char t = 0 then vram s else (vram s)(p := mk_cell t (cursor_char t)))\<rparr>)"

lemma draw_drawn: "on_tm Term vt100_drawCursor s = Inr (drawn s)"
  by (auto simp: on_tm_def vt100_drawCursor_def Let_def drawn_def)

text \<open>The terminal that receives the command, as the parser leaves it.\<close>

lemma command_state:
  assumes w: "awaits s1 ns" and l: "length ns \<le> 16"
  shows "let t = tm (bare (at_command s1 ns)) Term in
    screen_w t = 160 \<and> screen_h t = 64 \<and> screen_skew t = 160 \<and> VRam t = 160 \<and>
    scroll_start_row t = 0 \<and> scroll_end_row t = 64 \<and> cursor_char t = CURSOR_CHAR \<and>
    cursor_x t = int (col (tty_of s1)) \<and> cursor_y t = int (row (tty_of s1)) \<and>
    narg t = length ns \<and> args t = args_after ns \<and>
    front_color t = pen (tty_of s1) \<and> back_color t = paper (tty_of s1)"
proof -
  have v: "scr (tm s1 Term) (uncovered (tm s1 Term) (vram s1))" "args (tm s1 Term) = args_after ns"
    using w by (auto simp: awaits_def vis_def)
  note p = scr_pos [OF v(1)]
  have "row (tty_of s1) = nat (cursor_y (tm s1 Term))" "col (tty_of s1) = nat (cursor_x (tm s1 Term))"
    "pen (tty_of s1) = front_color (tm s1 Term)" "paper (tty_of s1) = back_color (tm s1 Term)"
    by (simp_all add: tty_of_def view_def)
  with v p show ?thesis by (auto simp: Let_def bare_sel at_command_sel scr_def wf_screen_def)
qed

lemma drawn_streams: "streams (drawn s) = streams s"
  by (simp add: drawn_def Let_def streams_def)

text \<open>A positioning command, wherever it puts the cursor.\<close>

lemma place_anywhere:
  fixes b :: u8
  assumes inv: "tty_inv s" and l: "length ns \<le> 16" and b: "\<not> isdigit (ucast b)" "b \<noteq> 59"
    and e: "\<And>s0. csi_exec (ucast b) Term s0 = Inr (upd_tm Term f s0)"
    and f: "\<And>t. screen_w t = 160 \<Longrightarrow> screen_h t = 64 \<Longrightarrow> scroll_start_row t = 0 \<Longrightarrow> scroll_end_row t = 64 \<Longrightarrow>
      cursor_x t = int (col (tty_of s)) \<Longrightarrow> cursor_y t = int (row (tty_of s)) \<Longrightarrow> narg t = length ns \<Longrightarrow>
      args t = args_after ns \<Longrightarrow> f t = t\<lparr>cursor_x := x, cursor_y := y, state := St_idle\<rparr>"
  shows "\<exists>s'. run_list vt100_putc (csi ns @ [b]) s = Inr s' \<and>
    cursor_x (tm s' Term) = x \<and> cursor_y (tm s' Term) = y \<and> state (tm s' Term) = St_idle \<and>
    vram s' (160 + 160 * y + x) = glyph (tty_of s) CURSOR_CHAR \<and>
    VRam (tm s' Term) = 160 \<and> screen_skew (tm s' Term) = 160 \<and> screen_h (tm s' Term) = 64 \<and>
    status_stream_ptr s' = 0"
proof -
  from csi_awaits [OF inv l] obtain s1 where
    1: "run_list vt100_putc (csi ns) s = Inr s1" "awaits s1 ns" "tty_of s1 = tty_of s" by blast
  define s0 where "s0 = bare (at_command s1 ns)"
  note t0 = command_state [OF 1(2) l, folded s0_def, unfolded Let_def 1(3)]
  have fe: "f (tm s0 Term) = (tm s0 Term)\<lparr>cursor_x := x, cursor_y := y, state := St_idle\<rparr>"
    using t0 by (intro f) auto
  let ?s = "drawn (upd_tm Term f s0)"
  have i: "streams s0 = streams s1" "status_stream_ptr s1 = 0"
    using 1(2) by (auto simp: s0_def bare_sel at_command_sel awaits_def vis_def vt_inv_def)
  have st: "streams ?s = streams s1" using i(1) by (simp add: drawn_streams) (simp add: streams_def)
  have "vt100_putc b s1 = Inr ?s"
    using final_putc [OF 1(2) l b] e [of s0] st i(2)
    by (intro putc_quiet) (simp_all add: s0_def [symmetric] draw_drawn)
  moreover have "CURSOR_CHAR \<noteq> 0" by (simp add: CURSOR_CHAR_def)
  ultimately show ?thesis
    using 1(1) fe t0 st i(2)
    by (auto simp: run_list_append drawn_def Let_def cur_off_def mk_cell_def glyph_def streams_def)
qed

text \<open>A printable byte on a terminal whose cursor is below the screen.\<close>

lemma print_below_hangs:
  assumes t: "VRam (tm s Term) = 160" "screen_skew (tm s Term) = 160" "screen_h (tm s Term) = 64"
    and c: "0 \<le> cursor_x (tm s Term)" "cursor_y (tm s Term) = 64" "state (tm s Term) = St_idle"
    and b: "32 \<le> b" "b \<noteq> 127"
  shows "vt100_putc b s = Inl Hang"
proof -
  have nb: "b \<noteq> 5" "b \<noteq> 7" "b \<noteq> 8" "b \<noteq> 9" "b \<noteq> 10" "b \<noteq> 13" "b \<noteq> 27"
    using b(1) by (auto simp: word_le_nat_alt)
  have out: "VRam (tm s Term) + cur_off (tm s Term) \<ge> vram_end (tm s Term)"
    using t c by (simp add: cur_off_def vram_end_def)
  have "call_state EV_CHAR (ucast b) Term s = Inl Hang"
  proof (cases "CharUnderCursor (tm s Term) = 0")
    case False
    then have "on_tm Term vt100_removeCursor s = Inl Hang"
      using out by (simp add: on_tm_def vt100_removeCursor_def Let_def)
    then show ?thesis using c(3) by (simp add: call_state_def call_ret_def st_idle_def)
  next
    case True
    then have "on_tm Term vt100_removeCursor s = Inr s"
      by (simp add: on_tm_def vt100_removeCursor_def Let_def)
    moreover have "on_tm Term (term_putc b) s = Inl Hang"
      using out by (simp add: on_tm_def term_putc_def Let_def)
    ultimately show ?thesis
      using c(3) nb b(2) by (simp add: call_state_def call_ret_def st_idle_def idle_exec_def u8_u16_num u8_of_u16)
  qed
  then show ?thesis by (rule putc_fault)
qed

text \<open>
  Cursor down is clamped one row too late. When \<open>ESC [ n B\<close> would leave the screen,
  the cursor is put on row 64 of rows 0 to 63, its glyph is stored past the end of the screen's
  memory, and the next printable character stops the machine in an endless loop.
\<close>

theorem cursor_down_past_end:
  assumes "tty_inv s" and "64 \<le> row (tty_of s) + n" and "row (tty_of s) + n \<le> 32767" and "32 \<le> b" and "b \<noteq> 127"
  shows "\<exists>s'. run_list vt100_putc (csi [n] @ [66]) s = Inr s' \<and>
    vram s' (10400 + int (col (tty_of s))) = glyph (tty_of s) CURSOR_CHAR \<and>
    run_list vt100_putc (csi [n] @ [66] @ [b]) s = Inl Hang"
proof -
  have p: "\<not> isdigit (ucast (66 :: u8))" "(66 :: u8) \<noteq> 59" by (simp_all add: isdigit_def)
  have e: "csi_exec (ucast (66 :: u8)) Term s0 = Inr (upd_tm Term csi_B s0)" for s0
    by (simp add: csi_exec_def)
  have f: "csi_B t = t\<lparr>cursor_x := int (col (tty_of s)), cursor_y := 64, state := St_idle\<rparr>"
    if "screen_h t = 64" "cursor_x t = int (col (tty_of s))" "cursor_y t = int (row (tty_of s))" "narg t = length [n]"
      "args t = args_after [n]" for t
  proof -
    have "arg_or_1 t = int n" using that assms(3) arg_or_1_after [of t "[n]"] by simp
    with that assms(2,3) show ?thesis by (simp add: csi_B_def Let_def to_s16_id)
  qed
  from place_anywhere [OF assms(1) _ p e, where ns = "[n]" and x = "int (col (tty_of s))" and y = 64] f obtain s' where
    s': "run_list vt100_putc (csi [n] @ [66]) s = Inr s'"
      "cursor_x (tm s' Term) = int (col (tty_of s))" "cursor_y (tm s' Term) = 64" "state (tm s' Term) = St_idle"
      "vram s' (160 + 160 * 64 + int (col (tty_of s))) = glyph (tty_of s) CURSOR_CHAR"
      "VRam (tm s' Term) = 160" "screen_skew (tm s' Term) = 160" "screen_h (tm s' Term) = 64"
    by auto
  have "vt100_putc b s' = Inl Hang"
    using s' assms(4,5) by (intro print_below_hangs) auto
  then have "run_list vt100_putc ((csi [n] @ [66]) @ [b]) s = Inl Hang"
    unfolding run_list_append [of _ "csi [n] @ [66]"] s'(1) by simp
  then show ?thesis using s'(1,5) by simp
qed

theorem cursor_down_past_end_witness:
  "tty_inv booted \<and> run_list vt100_putc (csi [64] @ [66] @ [65]) booted = Inl Hang"
  using cursor_down_past_end [OF booted_tty, of 64 65] booted_tty by (auto simp: tty_booted)

text \<open>
  Cursor addressing with a single argument (\<open>ESC [ n H\<close>) takes the column from the
  second, absent argument: the cursor lands in column -1 of the first row, and its glyph is
  painted into the last cell of the status bar.
\<close>

theorem cursor_address_one_arg:
  assumes "tty_inv s" and "n < 65536"
  shows "\<exists>s'. run_list vt100_putc (csi [n] @ [72]) s = Inr s' \<and> cursor_x (tm s' Term) = - 1 \<and>
    cursor_y (tm s' Term) = 0 \<and> vram s' 159 = glyph (tty_of s) CURSOR_CHAR"
proof -
  have p: "\<not> isdigit (ucast (72 :: u8))" "(72 :: u8) \<noteq> 59" by (simp_all add: isdigit_def)
  have e: "csi_exec (ucast (72 :: u8)) Term s0 = Inr (upd_tm Term csi_H s0)" for s0
    by (simp add: csi_exec_def)
  have f: "csi_H t = t\<lparr>cursor_x := - 1, cursor_y := 0, state := St_idle\<rparr>"
    if "screen_w t = 160" "screen_h t = 64" "scroll_start_row t = 0" "scroll_end_row t = 64"
      "narg t = length [n]" "args t = args_after [n]" for t
    using that by (simp add: csi_H_def Let_def args_after_def)
  from place_anywhere [OF assms(1) _ p e, where ns = "[n]" and x = "- 1" and y = 0] f show ?thesis by auto
qed

theorem cursor_address_one_arg_witness:
  "tty_inv booted \<and> (5 :: nat) < 65536 \<and>
   (\<exists>s'. run_list vt100_putc (csi [5] @ [72]) booted = Inr s' \<and> vram s' 159 = glyph (tty_of booted) CURSOR_CHAR)"
  using cursor_address_one_arg [OF booted_tty, of 5] booted_tty by auto

text \<open>
  The argument array has no bound check: after 16 arguments and a further semicolon,
  the next digit is added to an array element that does not exist.
\<close>

theorem too_many_args:
  assumes "tty_inv s" and "length ns = 16" and "48 \<le> b" and "b \<le> 57"
  shows "run_list vt100_putc (csi ns @ [59, b]) s = Inl OutOfBounds"
proof -
  from csi_awaits [OF assms(1), of ns] assms(2) obtain s1 where
    1: "run_list vt100_putc (csi ns) s = Inr s1" "awaits s1 ns" by auto
  have v: "vis s1" "state (tm s1 Term) = St_command_arg" "narg (tm s1 Term) = 15"
    using 1(2) assms(2) by (cases "ns = []"; simp add: awaits_def)+
  have "ctl_step Term (ctl_of (tm s1 Term)) (ucast (59 :: u8)) =
      Some (St_command_arg, ret_state (tm s1 Term), 16, args (tm s1 Term))"
    using v by (simp add: ctl_of_def isdigit_def)
  from putc_collect [OF v(1) _ this] v(2) obtain s2 where
    2: "vt100_putc 59 s1 = Inr s2" "state (tm s2 Term) = St_command_arg" "narg (tm s2 Term) = 16"
    by (auto simp: collects_def ctl_of_def)
  have "isdigit (ucast b)"
    using assms(3,4) uint_u8_u16 [of b] by (simp add: isdigit_def word_le_def)
  then have "call_state EV_CHAR (ucast b) Term s2 = Inl OutOfBounds"
    using 2 by (simp add: call_state_def st_command_arg_def upd_res_def command_arg_digit_def MAX_COMMAND_ARGS_def)
  then have "vt100_putc b s2 = Inl OutOfBounds" by (rule putc_fault)
  with 1 2 show ?thesis by (simp add: run_list_append)
qed

theorem too_many_args_witness:
  "tty_inv booted \<and> length (replicate 16 1 :: nat list) = 16 \<and>
   run_list vt100_putc (csi (replicate 16 1) @ [59, 50]) booted = Inl OutOfBounds"
proof -
  have "length (replicate 16 1 :: nat list) = 16" by simp
  from too_many_args [OF booted_tty this, of 50] booted_tty show ?thesis by (simp only: length_replicate) simp
qed

text \<open>
  Erase in line with an argument above 2 or with two arguments uses a start and a
  length that no branch has assigned.
\<close>

theorem erase_line_unassigned:
  assumes "tty_inv s" and "length ns \<le> 16" and "\<forall>n \<in> set ns. n < 65536"
    and "2 \<le> length ns \<or> (\<exists>n > 2. ns = [n])"
  shows "run_list vt100_putc (csi ns @ [75]) s = Inl Uninit"
proof -
  from csi_awaits [OF assms(1,2)] obtain s1 where
    1: "run_list vt100_putc (csi ns) s = Inr s1" "awaits s1 ns" by blast
  let ?t = "tm (bare (at_command s1 ns)) Term"
  have t: "narg ?t = length ns" "args ?t = args_after ns"
    using command_state [OF 1(2) assms(2)] by (simp_all add: Let_def)
  have "args ?t ! 0 \<noteq> 0 \<and> args ?t ! 0 \<noteq> 1 \<and> args ?t ! 0 \<noteq> 2" if "ns = [n]" "2 < n" for n
  proof -
    have "uint (args ?t ! 0) = int n"
      using that t(2) assms(3) args_after_nth [of 0 ns] by (simp add: uint_of_nat16)
    with that(2) show ?thesis by auto
  qed
  then have "clearLine_extent ?t = Inl Uninit"
    using t(1) assms(4) by (auto simp: clearLine_extent_def)
  then have "csi_exec (ucast (75 :: u8)) Term (bare (at_command s1 ns)) = Inl Uninit"
    by (simp add: csi_exec_def on_tm_def vt100_clearLine_def)
  then have "call_state EV_CHAR (ucast (75 :: u8)) Term s1 = Inl Uninit"
    using final_putc [OF 1(2) assms(2), of 75] by (simp add: isdigit_def)
  then have "vt100_putc 75 s1 = Inl Uninit" by (rule putc_fault)
  with 1 show ?thesis by (simp add: run_list_append)
qed

theorem erase_line_unassigned_witness:
  "tty_inv booted \<and> run_list vt100_putc (csi [3] @ [75]) booted = Inl Uninit"
  using erase_line_unassigned [OF booted_tty, of "[3]"] booted_tty by auto

text \<open>
  Scrolling ignores the bottom of the scroll region: whatever the region's last row,
  the copy loop moves as many rows as the screen has, so that in a region that starts below
  the number of lines to scroll it runs past the end of the screen and the machine stops.
\<close>

theorem scroll_region_hangs:
  assumes "screen_skew t = 160" and "screen_h t = 64" and "0 < lines" and "lines \<le> 64" and "lines < scroll_start_row t"
  shows "vt100_scroll lines t m = Inl Hang"
proof -
  have "copy_loop (160 * (64 - lines)) (VRam t + 160 * scroll_start_row t)
      (VRam t + 160 * scroll_start_row t + 160 * lines) m =
    (VRam t + 160 * scroll_start_row t + max 0 (160 * (64 - lines)),
     (\<lambda>i. if VRam t + 160 * scroll_start_row t \<le> i \<and> i < VRam t + 160 * scroll_start_row t + 160 * (64 - lines)
       then m (i + 160 * lines) else m i))"
    using assms by (intro copy_loop_shift) simp
  then show ?thesis
    using assms by (simp add: vt100_scroll_def Let_def max_def)
qed

definition region_example :: vt100_t where
  "region_example = (reset_term zero_tm)\<lparr>scroll_start_row := 10, scroll_end_row := 20\<rparr>"

theorem scroll_region_hangs_witness:
  "scroll_start_row region_example = 10 \<and> vt100_scroll 1 region_example (\<lambda>_. 0x20) = Inl Hang"
  using scroll_region_hangs [of region_example 1 "\<lambda>_. 0x20"]
  by (simp add: region_example_def reset_term_def vt_consts)

text \<open>
  Attributes are applied from the last to the first, so a leading reset undoes what
  follows it: after \<open>ESC [ 0 ; k m\<close> the colors are the defaults, whatever \<open>k\<close> asks for.
\<close>

theorem leading_reset_wins:
  assumes "tty_inv s" and "k < 65536"
  shows "\<exists>s'. run_list vt100_putc (csi [0, k] @ [109]) s = Inr s' \<and> tty_inv s' \<and>
    pen (tty_of s') = 0x777777 \<and> paper (tty_of s') = 0"
proof -
  have "sgr_ref (map of_nat [0, k]) c = (0x777777, 0)" for c
    by (cases c) (simp add: sgr_ref.simps attr_def split: prod.splits)
  moreover have "csi_pre 109 [0, k] (tty_of s)" using assms(2) by (simp add: csi_pre_def Let_def)
  ultimately show ?thesis
    using csi_run [OF assms(1), of 109 "[0, k]"] by (auto simp: csi_spec_def Let_def)
qed

theorem leading_reset_wins_witness:
  "tty_inv booted \<and> (31 :: nat) < 65536 \<and>
   (\<exists>s'. run_list vt100_putc (csi [0, 31] @ [109]) booted = Inr s' \<and> pen (tty_of s') = 0x777777)"
  using leading_reset_wins [OF booted_tty, of 31] booted_tty by auto

end
