(* ===== verification/Rand.thy ===== *)
theory Rand
  imports Prelude
begin

text \<open>
  The pseudo random number generator of \<open>fw/pano_term/rand.c\<close>, a 32-bit xorshift, and the
  proof that it permutes the states and never gets stuck at zero.
\<close>

section \<open>The generator\<close>

text \<open>\<open>rand_r\<close>: the new contents of \<open>*seedp\<close>, which is also the value returned.\<close>

definition rand_r :: "u32 \<Rightarrow> u32" where
  "rand_r seed =
     (let s1 = seed XOR push_bit 13 seed;
          s2 = s1 XOR drop_bit 17 s1
      in s2 XOR push_bit 5 s2)"

text \<open>The static \<open>y\<close> is the state: \<open>rand_next\<close> is \<open>rand\<close>: it returns the value and the new state.\<close>

definition rand_initial :: u32 where "rand_initial = 1"

definition rand_next :: "u32 \<Rightarrow> u32 \<times> u32" where
  "rand_next y = (let y' = rand_r y in (y', y'))"

definition srand :: "u32 \<Rightarrow> u32 \<Rightarrow> u32" where
  "srand seed y = seed"

fun rand_seq :: "nat \<Rightarrow> u32 \<Rightarrow> u32 list" where
  "rand_seq 0 y = []"
| "rand_seq (Suc n) y = (case rand_next y of (v, y') \<Rightarrow> v # rand_seq n y')"

section \<open>Properties\<close>

text \<open>Each of the three steps can be undone: a bit is recovered from the bits it was mixed with.\<close>

lemma xor_push_inj:
  assumes "0 < k" "x XOR push_bit k x = y XOR push_bit k (y :: u32)"
  shows "x = y"
proof (rule bit_word_eqI)
  fix n assume "n < LENGTH(32)"
  have "bit x n = bit y n" if "n < 32" for n
    using that
  proof (induction n rule: less_induct)
    case (less n)
    have b: "bit (x XOR push_bit k x) n = bit (y XOR push_bit k y) n" using assms(2) by simp
    have "bit (push_bit k x) n = bit (push_bit k y) n"
      using less.IH [of "n - k"] less.prems assms(1) by (auto simp: bit_push_bit_iff)
    with b show ?case by (simp add: bit_xor_iff) blast
  qed
  with \<open>n < LENGTH(32)\<close> show "bit x n = bit y n" by simp
qed

lemma xor_drop_inj:
  assumes "0 < k" "x XOR drop_bit k x = y XOR drop_bit k (y :: u32)"
  shows "x = y"
proof (rule bit_word_eqI)
  fix n
  have hi: "\<not> bit x i" "\<not> bit y i" if "32 \<le> i" for i
    using that bit_imp_le_length [of x i] bit_imp_le_length [of y i] by auto
  have "bit x n = bit y n"
  proof (induction "32 - n" arbitrary: n rule: less_induct)
    case less
    show ?case
    proof (cases "n < 32")
      case True
      have b: "bit (x XOR drop_bit k x) n = bit (y XOR drop_bit k y) n" using assms(2) by simp
      have "bit x (k + n) = bit y (k + n)" using less [of "k + n"] True assms(1) by simp
      with b show ?thesis by (simp add: bit_xor_iff bit_drop_bit_eq) blast
    next
      case False
      with hi [of n] show ?thesis by simp
    qed
  qed
  then show "bit x n = bit y n" .
qed

lemma rand_r_inj: "rand_r x = rand_r y \<Longrightarrow> x = y"
  unfolding rand_r_def Let_def by (drule xor_push_inj [rotated], simp, drule xor_drop_inj [rotated], simp, drule xor_push_inj [rotated]) simp_all

lemma rand_r_0: "rand_r 0 = 0"
  by (simp add: rand_r_def)

lemma rand_r_zero_iff: "rand_r x = 0 \<longleftrightarrow> x = 0"
  using rand_r_inj [of x 0] rand_r_0 by auto

text \<open>
  The generator permutes the 32-bit states: \<open>rand_r\<close> is a bijection, and
  a generator started from a seed other than zero never
  returns zero.
\<close>

theorem rand_permutes: "bij rand_r \<and> (seed \<noteq> 0 \<longleftrightarrow> 0 \<notin> set (rand_seq (Suc n) (srand seed y)))"
proof
  have i: "inj rand_r" by (rule injI) (rule rand_r_inj)
  moreover have "surj rand_r"
    by (rule finite_UNIV_inj_surj) (use i in simp_all)
  ultimately show "bij rand_r" by (rule bijI)
  have nz: "s \<noteq> 0 \<Longrightarrow> 0 \<notin> set (rand_seq m s)" for s m
    by (induction m arbitrary: s) (auto simp: rand_next_def Let_def rand_r_zero_iff)
  have "0 \<in> set (rand_seq (Suc n) 0)" by (simp add: rand_next_def rand_r_0)
  with nz show "seed \<noteq> 0 \<longleftrightarrow> 0 \<notin> set (rand_seq (Suc n) (srand seed y))"
    unfolding srand_def by metis
qed

text \<open>Seeding the generator with zero disables it.\<close>

lemma rand_seed_zero: "rand_seq n (srand 0 y) = replicate n 0"
  by (induction n) (simp_all add: srand_def rand_next_def rand_r_0)

end
