(* ===== verification/Spi_Flash.thy ===== *)
theory Spi_Flash
  imports Prelude
begin

text \<open>
  The SPI master routines of \<open>cores/core_soc/src_c/spi_lite.c\<close> and the serial flash driver
  \<open>pano/fw/common/spi_drv.c\<close>. The driver is a producer of bus events; the flash chip is a
  parameter that answers them. The abstract side is the command set of the chip: every trace of
  the driver is a sequence of encoded commands, and the commands have their meaning on a memory.
  The wait for the master's own shift register is not modelled.
\<close>

section \<open>The bus\<close>

text \<open>
  What happens on the SPI bus is a list of events: the chip select line (low is \<open>False\<close>) and
  the bytes sent. A device is a parameter: the byte it shifts back, given all events up to and
  including the byte being sent.
\<close>

datatype bus = Cs bool | Tx u8

type_synonym device = "bus list \<Rightarrow> u8"

definition spi_cs :: "bool \<Rightarrow> bus list \<Rightarrow> bus list" where
  "spi_cs v tr = tr @ [Cs v]"

definition spi_sendrecv :: "device \<Rightarrow> u8 \<Rightarrow> bus list \<Rightarrow> u8 \<times> bus list" where
  "spi_sendrecv dev data tr = (let tr' = tr @ [Tx data] in (dev tr', tr'))"

fun spi_readblock :: "device \<Rightarrow> nat \<Rightarrow> bus list \<Rightarrow> u8 list \<times> bus list" where
  "spi_readblock dev 0 tr = ([], tr)"
| "spi_readblock dev (Suc n) tr =
     (case spi_sendrecv dev 0xFF tr of (c, tr1) \<Rightarrow>
        case spi_readblock dev n tr1 of (cs, tr2) \<Rightarrow> (c # cs, tr2))"

fun spi_writeblock :: "device \<Rightarrow> u8 list \<Rightarrow> bus list \<Rightarrow> bus list" where
  "spi_writeblock dev [] tr = tr"
| "spi_writeblock dev (c # cs) tr = spi_writeblock dev cs (snd (spi_sendrecv dev c tr))"

section \<open>The driver\<close>

record FlashInfo_t =
  FlashSize :: u32
  PageSize :: u32
  SectorSize :: u32
  EraseSize :: u32
  DevId :: "u8 list"
  Desc :: cstr

definition gChipInfo :: "FlashInfo_t list" where
  "gChipInfo = [
     \<lparr>FlashSize = 8 * 1024 * 1024, PageSize = 256, SectorSize = 64 * 1024, EraseSize = 64 * 1024,
       DevId = [0x20, 0x20, 0x17], Desc = bytes ''M25P64''\<rparr>,
     \<lparr>FlashSize = 16 * 1024 * 1024, PageSize = 256, SectorSize = 256 * 1024, EraseSize = 256 * 1024,
       DevId = [0x20, 0x20, 0x18], Desc = bytes ''M25P128''\<rparr>]"

definition CMD_PAGE_PRG :: u8 where "CMD_PAGE_PRG = 0x02"
definition CMD_READ_DATA :: u8 where "CMD_READ_DATA = 0x03"
definition CMD_WRITE_DISABLE :: u8 where "CMD_WRITE_DISABLE = 0x04"
definition CMD_READ_STATUS :: u8 where "CMD_READ_STATUS = 0x05"
definition CMD_WRITE_ENABLE :: u8 where "CMD_WRITE_ENABLE = 0x06"
definition CMD_SECTOR_ERASE :: u8 where "CMD_SECTOR_ERASE = 0xd8"
definition CMD_READ_ID :: u8 where "CMD_READ_ID = 0x9f"
definition STATUS_WIP :: u8 where "STATUS_WIP = 0x01"

lemmas spi_consts = CMD_PAGE_PRG_def CMD_READ_DATA_def CMD_WRITE_DISABLE_def CMD_READ_STATUS_def
  CMD_WRITE_ENABLE_def CMD_SECTOR_ERASE_def CMD_READ_ID_def STATUS_WIP_def

definition spi_read_status :: "device \<Rightarrow> bus list \<Rightarrow> u8 \<times> bus list" where
  "spi_read_status dev tr0 =
     (let tr1 = spi_cs False tr0;
          tr2 = snd (spi_sendrecv dev CMD_READ_STATUS tr1)
      in case spi_readblock dev 1 tr2 of (Ret, tr3) \<Rightarrow> (Ret ! 0, spi_cs True tr3))"

definition spi_write_enable :: "device \<Rightarrow> bool \<Rightarrow> bus list \<Rightarrow> bus list" where
  "spi_write_enable dev bEnable tr =
     spi_cs True (snd (spi_sendrecv dev (if bEnable then CMD_WRITE_ENABLE else CMD_WRITE_DISABLE)
       (spi_cs False tr)))"

definition spi_read_device_id :: "device \<Rightarrow> bus list \<Rightarrow> u8 list \<times> bus list" where
  "spi_read_device_id dev tr =
     (case spi_readblock dev 3 (snd (spi_sendrecv dev CMD_READ_ID (spi_cs False tr))) of
        (DeviceID, tr') \<Rightarrow> (DeviceID, spi_cs True tr'))"

text \<open>\<open>gChip\<close> is \<open>None\<close> until a chip is found; the result is the return code and the new \<open>gChip\<close>.\<close>

definition spi_chip_init ::
  "device \<Rightarrow> FlashInfo_t option \<Rightarrow> bus list \<Rightarrow> int \<times> FlashInfo_t option \<times> bus list" where
  "spi_chip_init dev gChip tr =
     (case spi_read_device_id dev tr of (DeviceID, tr') \<Rightarrow>
        case find (\<lambda>p. DevId p = DeviceID) gChipInfo of
          Some p \<Rightarrow> (0, Some p, tr')
        | None \<Rightarrow> (-1, gChip, tr'))"

text \<open>The command byte and the three address bytes.\<close>

definition send_adr :: "device \<Rightarrow> u8 \<Rightarrow> u32 \<Rightarrow> bus list \<Rightarrow> bus list" where
  "send_adr dev c Adr tr =
     (let t1 = snd (spi_sendrecv dev c (spi_cs False tr));
          t2 = snd (spi_sendrecv dev (ucast (drop_bit 16 Adr AND 0xff)) t1);
          t3 = snd (spi_sendrecv dev (ucast (drop_bit 8 Adr AND 0xff)) t2)
      in snd (spi_sendrecv dev (ucast (Adr AND 0xff)) t3))"

text \<open>\<open>while(spi_read_status() & STATUS_WIP);\<close> ends only when the device becomes ready.\<close>

partial_function (option) wait_ready :: "device \<Rightarrow> bus list \<Rightarrow> bus list option" where
  "wait_ready dev tr =
     (case spi_read_status dev tr of (st, tr') \<Rightarrow>
        if st AND STATUS_WIP \<noteq> 0 then wait_ready dev tr' else Some tr')"

text \<open>
  \<open>spi_read\<close>: the bytes stored at \<open>Buf\<close>. \<open>BytesRead\<close> and \<open>Bytes2Read\<close> are compared with
  \<open>uint32_t\<close> values and are kept at that width. The result is \<open>None\<close> when the loop does not end.
\<close>

partial_function (option) spi_read_loop ::
  "device \<Rightarrow> FlashInfo_t option \<Rightarrow> u32 \<Rightarrow> u32 \<Rightarrow> u32 \<Rightarrow> u8 list \<Rightarrow> bus list \<Rightarrow> (u8 list \<times> bus list) res option" where
  "spi_read_loop dev gChip Len BytesRead Adr Buf tr =
     (if BytesRead < Len then
        (case gChip of
           None \<Rightarrow> Some (Inl NullPtr)
         | Some p \<Rightarrow>
             (let Bytes2Read = (if Len - BytesRead > PageSize p then PageSize p else Len - BytesRead)
              in case spi_readblock dev (unat Bytes2Read) (send_adr dev CMD_READ_DATA Adr tr) of
                   (bs, tr') \<Rightarrow>
                     spi_read_loop dev gChip Len (BytesRead + Bytes2Read) (Adr + Bytes2Read)
                       (Buf @ bs) (spi_cs True tr')))
      else Some (Inr (Buf, tr)))"

definition spi_read ::
  "device \<Rightarrow> FlashInfo_t option \<Rightarrow> u32 \<Rightarrow> u32 \<Rightarrow> bus list \<Rightarrow> (u8 list \<times> bus list) res" where
  "spi_read dev gChip Adr Len tr = rbind (of_loop (spi_read_loop dev gChip Len 0 Adr [] tr)) (\<lambda>r. r)"

text \<open>
  \<open>spi_write\<close>: \<open>Wrote\<close> and \<open>Bytes2Write\<close> are \<open>int\<close>; \<open>pData\<close> has advanced by \<open>Wrote\<close>. Reading
  past the end of the caller's data is \<open>OutOfBounds\<close>.
\<close>

partial_function (option) spi_write_loop ::
  "device \<Rightarrow> FlashInfo_t \<Rightarrow> u8 list \<Rightarrow> u32 \<Rightarrow> int \<Rightarrow> u32 \<Rightarrow> bus list \<Rightarrow> (int \<times> bus list) res option" where
  "spi_write_loop dev p pData Len Wrote Adr tr =
     (if word_of_int Wrote < Len then
        (let BytesLeftInPage = sint (PageSize p - Adr mod PageSize p);
             Bytes2Write = (if sint Len > BytesLeftInPage then BytesLeftInPage else sint Len);
             tr1 = send_adr dev CMD_PAGE_PRG Adr (spi_write_enable dev True tr)
         in if 0 < Bytes2Write \<and> (Wrote < 0 \<or> int (length pData) < Wrote + Bytes2Write)
            then Some (Inl OutOfBounds)
            else let tr2 = spi_cs True (spi_writeblock dev (take (nat Bytes2Write) (drop (nat Wrote) pData)) tr1)
                 in case wait_ready dev tr2 of
                      None \<Rightarrow> None
                    | Some tr3 \<Rightarrow> spi_write_loop dev p pData Len (Wrote + Bytes2Write)
                                   (Adr + word_of_int Bytes2Write) tr3)
      else Some (Inr (Wrote, tr)))"

definition spi_write ::
  "device \<Rightarrow> FlashInfo_t option \<Rightarrow> u32 \<Rightarrow> u8 list \<Rightarrow> u32 \<Rightarrow> bus list \<Rightarrow> (int \<times> bus list) res" where
  "spi_write dev gChip Adr pData Len tr =
     (case gChip of
        None \<Rightarrow> Inr (0, tr)
      | Some p \<Rightarrow>
          if Adr + Len > FlashSize p then Inr (0, tr)
          else rbind (of_loop (spi_write_loop dev p pData Len 0 Adr tr)) (\<lambda>r. r))"

fun spi_erase_loop :: "device \<Rightarrow> FlashInfo_t \<Rightarrow> nat \<Rightarrow> u32 \<Rightarrow> bus list \<Rightarrow> bus list option" where
  "spi_erase_loop dev p 0 Adr tr = Some tr"
| "spi_erase_loop dev p (Suc n) Adr tr =
     (case wait_ready dev (spi_cs True (send_adr dev CMD_SECTOR_ERASE Adr tr)) of
        None \<Rightarrow> None
      | Some tr' \<Rightarrow> spi_erase_loop dev p n (Adr + SectorSize p) tr')"

definition spi_erase ::
  "device \<Rightarrow> FlashInfo_t option \<Rightarrow> u32 \<Rightarrow> u32 \<Rightarrow> bus list \<Rightarrow> (int \<times> bus list) res" where
  "spi_erase dev gChip Adr Len tr =
     (case gChip of
        None \<Rightarrow> Inr (-1, tr)
      | Some p \<Rightarrow>
          if Adr mod EraseSize p \<noteq> 0 then Inr (-1, tr)
          else if Adr + Len > FlashSize p then Inr (-1, tr)
          else rbind (of_loop (spi_erase_loop dev p (unat (Len div EraseSize p)) Adr
                 (spi_write_enable dev True tr))) (\<lambda>tr'. Inr (-1, tr')))"

section \<open>The command set of the chip\<close>

datatype flash_cmd =
    WriteEnable | ReadStatus | PageProgram u32 "u8 list" | SectorErase u32 | ReadData u32 nat

definition adr_bytes :: "u32 \<Rightarrow> bus list" where
  "adr_bytes a = [Tx (ucast (drop_bit 16 a AND 0xff)), Tx (ucast (drop_bit 8 a AND 0xff)), Tx (ucast (a AND 0xff))]"

fun encode :: "flash_cmd \<Rightarrow> bus list" where
  "encode WriteEnable = [Cs False, Tx 0x06, Cs True]"
| "encode ReadStatus = [Cs False, Tx 0x05, Tx 0xff, Cs True]"
| "encode (PageProgram a ds) = [Cs False, Tx 0x02] @ adr_bytes a @ map Tx ds @ [Cs True]"
| "encode (SectorErase a) = [Cs False, Tx 0xd8] @ adr_bytes a @ [Cs True]"
| "encode (ReadData a n) = [Cs False, Tx 0x03] @ adr_bytes a @ replicate n (Tx 0xff) @ [Cs True]"

definition encodes :: "flash_cmd list \<Rightarrow> bus list" where
  "encodes cs = concat (map encode cs)"

lemma encodes_simps [simp]:
  "encodes [] = []" "encodes (c # cs) = encode c @ encodes cs" "encodes (cs @ ds) = encodes cs @ encodes ds"
  by (simp_all add: encodes_def)

text \<open>
  The chip is not part of the repository; a device is a parameter. \<open>st\<close> is the state its memory
  array, its write enable latch and its write cycle have after the events of a trace; \<open>busy\<close> is a
  cycle whose end no status has shown yet. \<open>flash_device\<close> is what the driver relies on, the
  behaviour the data sheet documents: every program and erase cycle ends; the status tells whether
  one is in progress; on a chip that is not busy \<open>WriteEnable\<close> sets the latch, programming inside one page
  clears bits and erasing a sector sets them, both only with the latch set, and both reset it and
  start a cycle; reading changes nothing and answers, one byte per event after the address, from
  the memory. Nothing is promised of a busy chip but its status, so a driver that does not wait
  for the end of a cycle has no guarantee of what comes after.
\<close>

record flash =
  mem :: "nat \<Rightarrow> u8"
  wel :: bool
  busy :: bool

definition clear_bits :: "nat \<Rightarrow> u8 list \<Rightarrow> (nat \<Rightarrow> u8) \<Rightarrow> nat \<Rightarrow> u8" where
  "clear_bits a ds m x = (if a \<le> x \<and> x < a + length ds then m x AND ds ! (x - a) else m x)"

definition erase_sector :: "nat \<Rightarrow> nat \<Rightarrow> (nat \<Rightarrow> u8) \<Rightarrow> nat \<Rightarrow> u8" where
  "erase_sector sz a m x = (if x div sz = a div sz then 0xff else m x)"

definition polls :: "nat \<Rightarrow> bus list" where
  "polls n = encodes (replicate n ReadStatus)"

definition status_wip :: "device \<Rightarrow> bus list \<Rightarrow> bool" where
  "status_wip dev tr \<longleftrightarrow> dev (tr @ [Cs False, Tx CMD_READ_STATUS, Tx 0xFF]) AND STATUS_WIP \<noteq> 0"

definition becomes_ready :: "device \<Rightarrow> bool" where
  "becomes_ready dev \<longleftrightarrow> (\<forall>tr. \<exists>n. \<not> status_wip dev (tr @ polls n))"

definition flash_device :: "FlashInfo_t \<Rightarrow> device \<Rightarrow> (bus list \<Rightarrow> flash) \<Rightarrow> bool" where
  "flash_device p dev st \<longleftrightarrow> becomes_ready dev \<and>
     (\<forall>tr. st (tr @ encode ReadStatus) = (st tr)\<lparr>busy := status_wip dev tr\<rparr>) \<and>
     (\<forall>tr. \<not> busy (st tr) \<longrightarrow> \<not> status_wip dev tr) \<and>
     (\<forall>tr. \<not> busy (st tr) \<longrightarrow> st (tr @ encode WriteEnable) = (st tr)\<lparr>wel := True\<rparr>) \<and>
     (\<forall>tr a n. \<not> busy (st tr) \<longrightarrow> st (tr @ encode (ReadData a n)) = st tr) \<and>
     (\<forall>tr a ds. \<not> busy (st tr) \<longrightarrow> wel (st tr) \<longrightarrow> ds \<noteq> [] \<longrightarrow> unat a < unat (FlashSize p) \<longrightarrow>
        unat a mod unat (PageSize p) + length ds \<le> unat (PageSize p) \<longrightarrow>
        st (tr @ encode (PageProgram a ds)) =
          \<lparr>mem = clear_bits (unat a) ds (mem (st tr)), wel = False, busy = True\<rparr>) \<and>
     (\<forall>tr a. \<not> busy (st tr) \<longrightarrow> wel (st tr) \<longrightarrow> unat a < unat (FlashSize p) \<longrightarrow>
        st (tr @ encode (SectorErase a)) =
          \<lparr>mem = erase_sector (unat (SectorSize p)) (unat a) (mem (st tr)), wel = False, busy = True\<rparr>) \<and>
     (\<forall>tr a. \<not> busy (st tr) \<longrightarrow> \<not> wel (st tr) \<longrightarrow> st (tr @ encode (SectorErase a)) = st tr) \<and>
     (\<forall>tr a i. \<not> busy (st tr) \<longrightarrow> unat a + i < unat (FlashSize p) \<longrightarrow>
        dev ((tr @ [Cs False, Tx CMD_READ_DATA] @ adr_bytes a) @ replicate (Suc i) (Tx 0xFF)) = mem (st tr) (unat a + i))"

section \<open>Traces are commands\<close>

lemma sendrecv_trace [simp]: "snd (spi_sendrecv dev c tr) = tr @ [Tx c]"
  by (simp add: spi_sendrecv_def Let_def)

lemma readblock_eq:
  "spi_readblock dev n tr = (map (\<lambda>i. dev (tr @ replicate (i + 1) (Tx 0xFF))) [0..<n], tr @ replicate n (Tx 0xFF))"
proof (induction n arbitrary: tr)
  case (Suc n)
  have "map (\<lambda>i. dev (tr @ replicate (i + 1) (Tx 0xFF))) [0..<Suc n] =
      dev (tr @ [Tx 0xFF]) # map (\<lambda>i. dev ((tr @ [Tx 0xFF]) @ replicate (i + 1) (Tx 0xFF))) [0..<n]"
    by (simp add: map_upt_Suc del: upt_Suc)
  with Suc show ?case by (simp add: spi_sendrecv_def Let_def del: upt_Suc)
qed simp

lemma writeblock_eq: "spi_writeblock dev cs tr = tr @ map Tx cs"
  by (induction cs arbitrary: tr) simp_all

lemma send_adr_eq: "send_adr dev c a tr = tr @ [Cs False, Tx c] @ adr_bytes a"
  by (simp add: send_adr_def Let_def spi_cs_def adr_bytes_def)

lemma write_enable_eq: "spi_write_enable dev True tr = tr @ encode WriteEnable"
  by (simp add: spi_write_enable_def spi_cs_def spi_consts)

lemma read_status_eq:
  "spi_read_status dev tr =
     (dev (tr @ [Cs False, Tx CMD_READ_STATUS, Tx 0xFF]), tr @ encode ReadStatus)"
  by (simp add: spi_read_status_def Let_def spi_cs_def readblock_eq CMD_READ_STATUS_def)

lemma polls_Suc: "polls (Suc n) = encode ReadStatus @ polls n"
  by (simp add: polls_def)

lemma polls_snoc: "polls (Suc n) = polls n @ encode ReadStatus"
proof -
  have "replicate (Suc n) ReadStatus = replicate n ReadStatus @ [ReadStatus]"
    by (simp add: replicate_append_same)
  then show ?thesis
    unfolding polls_def by (simp only: encodes_simps append_Nil2)
qed

lemma wait_ready_step:
  "wait_ready dev tr = (if status_wip dev tr then wait_ready dev (tr @ encode ReadStatus) else Some (tr @ encode ReadStatus))"
  by (subst wait_ready.simps) (simp add: read_status_eq status_wip_def)

lemma wait_ready_ends:
  assumes "becomes_ready dev"
  shows "\<exists>n. wait_ready dev tr = Some (tr @ polls (Suc n)) \<and> \<not> status_wip dev (tr @ polls n)"
proof -
  from assms obtain n where "\<not> status_wip dev (tr @ polls n)"
    by (auto simp: becomes_ready_def)
  then show ?thesis
  proof (induction n arbitrary: tr)
    case 0
    then show ?case
      by (intro exI [of _ 0]) (simp add: wait_ready_step [of _ tr] polls_def)
  next
    case (Suc n)
    show ?case
    proof (cases "status_wip dev tr")
      case False
      then show ?thesis
        by (intro exI [of _ 0]) (simp add: wait_ready_step [of _ tr] polls_def)
    next
      case True
      from Suc.IH [of "tr @ encode ReadStatus"] Suc.prems obtain k where
        "wait_ready dev (tr @ encode ReadStatus) = Some (tr @ polls (Suc (Suc k)))"
        "\<not> status_wip dev (tr @ polls (Suc k))"
        by (auto simp: polls_Suc)
      with True show ?thesis
        by (intro exI [of _ "Suc k"]) (simp add: wait_ready_step [of _ tr])
    qed
  qed
qed

lemma flash_device_ready: "flash_device p dev st \<Longrightarrow> becomes_ready dev"
  by (simp add: flash_device_def)

lemma flash_enabled:
  "flash_device p dev st \<Longrightarrow> \<not> busy (st tr) \<Longrightarrow> st (tr @ encode WriteEnable) = (st tr)\<lparr>wel := True\<rparr>"
  by (simp add: flash_device_def)

lemma flash_read:
  "flash_device p dev st \<Longrightarrow> \<not> busy (st tr) \<Longrightarrow> st (tr @ encode (ReadData a n)) = st tr"
  by (simp add: flash_device_def)

lemma flash_polled: "flash_device p dev st \<Longrightarrow> st (tr @ encode ReadStatus) = (st tr)\<lparr>busy := status_wip dev tr\<rparr>"
  by (simp add: flash_device_def)

text \<open>After the wait the cycle is over, with the memory and the latch as it left them.\<close>

lemma wait_ready_idle:
  assumes "flash_device p dev st"
  shows "\<exists>n. wait_ready dev tr = Some (tr @ polls n) \<and> st (tr @ polls n) = (st tr)\<lparr>busy := False\<rparr>"
proof -
  obtain n where n: "wait_ready dev tr = Some (tr @ polls (Suc n))" "\<not> status_wip dev (tr @ polls n)"
    using wait_ready_ends [OF flash_device_ready [OF assms]] by blast
  have "\<exists>b. st (tr @ polls k) = (st tr)\<lparr>busy := b\<rparr>" for k
  proof (induction k)
    case 0
    show ?case by (intro exI [of _ "busy (st tr)"]) (simp add: polls_def)
  next
    case (Suc k)
    then show ?case
      using flash_polled [OF assms, of "tr @ polls k"] by (auto simp: polls_snoc simp del: encode.simps)
  qed
  then obtain b where "st (tr @ polls n) = (st tr)\<lparr>busy := b\<rparr>"
    by blast
  then have "st (tr @ polls (Suc n)) = (st tr)\<lparr>busy := False\<rparr>"
    using flash_polled [OF assms, of "tr @ polls n"] n(2) by (simp add: polls_snoc del: encode.simps)
  then show ?thesis
    using n(1) by blast
qed

section \<open>Programming\<close>

lemma sint_small: "x < 2 ^ 31 \<Longrightarrow> sint (x :: u32) = int (unat x)"
proof -
  assume "x < 2 ^ 31"
  then have u: "0 \<le> uint x" "uint x < 2 ^ 31" by (simp_all add: word_less_def)
  have t: "take_bit 31 (uint x) = uint x" using u by (simp add: take_bit_int_eq_self)
  then have "\<not> bit (uint x) 31" by (metis bit_take_bit_iff less_irrefl)
  then have s: "signed_take_bit 31 (uint x) = take_bit 31 (uint x)"
    by (rule signed_take_bit_eq_if_positive)
  have l: "LENGTH(32) - Suc 0 = 31" by simp
  have "sint x = signed_take_bit (LENGTH(32) - Suc 0) (uint x)" by (rule sint_uint)
  also have "\<dots> = uint x" unfolding l s by (rule t)
  finally show ?thesis by simp
qed

lemma left_in_page: "sint (256 - a mod 256 :: u32) = int (256 - unat a mod 256)"
proof -
  have m: "unat (a mod 256) = unat a mod 256" by (simp add: unat_mod)
  then have u: "unat (256 - a mod 256) = 256 - unat a mod 256"
    by (subst unat_sub) (simp_all add: word_le_nat_alt)
  have "sint (256 - a mod 256) = int (unat (256 - a mod 256))"
    by (intro sint_small) (simp add: word_less_nat_alt u)
  then show ?thesis unfolding u .
qed

lemma int_min: "(if int b < int a then int b else int a) = int (min a b)"
  by simp

text \<open>Where the write loop stops, from address \<open>a\<close> with \<open>w\<close> bytes done.\<close>

function write_end :: "nat \<Rightarrow> nat \<Rightarrow> nat \<Rightarrow> nat" where
  "write_end len a w =
     (if w < len then write_end len (a + min len (256 - a mod 256)) (w + min len (256 - a mod 256)) else w)"
  by pat_completeness auto
termination
  by (relation "measure (\<lambda>(len, a, w). len - w)") (auto simp: min_def not_le)

declare write_end.simps [simp del]

lemma write_end_ge: "w \<le> write_end len a w"
  by (induction len a w rule: write_end.induct) (subst write_end.simps, auto)

lemma write_end_done: "len \<le> write_end len a w \<or> write_end len a w = w \<and> len \<le> w"
  by (induction len a w rule: write_end.induct) (subst (1 2) write_end.simps, auto)

lemma write_loop_programs:
  assumes dev: "flash_device p dev st"
    and fs: "unat (FlashSize p) \<le> 2 ^ 24" and pg: "PageSize p = 256" and len: "Len < 2 ^ 31"
  shows "\<not> busy (st tr) \<Longrightarrow> w \<le> write_end (unat Len) (unat Adr) w \<Longrightarrow>
    write_end (unat Len) (unat Adr) w \<le> length pData \<Longrightarrow>
    unat Adr + (write_end (unat Len) (unat Adr) w - w) \<le> unat (FlashSize p) \<Longrightarrow>
    write_end (unat Len) (unat Adr) w < 2 ^ 31 \<Longrightarrow>
    \<exists>tr'. spi_write_loop dev p pData Len (int w) Adr tr =
        Some (Inr (int (write_end (unat Len) (unat Adr) w), tr')) \<and> \<not> busy (st tr') \<and>
      mem (st tr') = (\<lambda>x. if unat Adr \<le> x \<and> x < unat Adr + (write_end (unat Len) (unat Adr) w - w)
        then mem (st tr) x AND pData ! (w + (x - unat Adr)) else mem (st tr) x)"
proof (induction "unat Len - w" arbitrary: w Adr tr rule: less_induct)
  case less
  let ?e = "write_end (unat Len) (unat Adr) w"
  have wl: "word_of_int (int w) < Len \<longleftrightarrow> w < unat Len"
  proof -
    have "w < 2 ^ 32" using less.prems(2,5) by simp
    then have "unat (word_of_nat w :: u32) = w" by (simp add: unsigned_of_nat take_bit_nat_eq_self)
    then show ?thesis by (simp add: word_less_nat_alt)
  qed
  show ?case
  proof (cases "w < unat Len")
    case False
    then have "?e = w" by (subst write_end.simps) simp
    with False wl less.prems(1) show ?thesis
      by (intro exI [of _ tr]) (subst spi_write_loop.simps, auto simp: fun_eq_iff)
  next
    case True
    define n where "n = min (unat Len) (256 - unat Adr mod 256)"
    have n: "0 < n" "n \<le> 256" "unat Adr mod 256 + n \<le> 256" using True by (auto simp: n_def)
    have e: "?e = write_end (unat Len) (unat Adr + n) (w + n)"
      using True by (subst write_end.simps) (simp add: n_def)
    have ge: "w + n \<le> ?e" unfolding e by (rule write_end_ge)
    have an: "unat Adr + n \<le> unat (FlashSize p)" using ge less.prems(4) by linarith
    have left: "sint (PageSize p - Adr mod PageSize p) = int (256 - unat Adr mod 256)"
      unfolding pg by (rule left_in_page)
    have sl: "sint Len = int (unat Len)"
      using len by (rule sint_small)
    have b: "(if sint Len > int (256 - unat Adr mod 256) then int (256 - unat Adr mod 256) else sint Len) = int n"
      unfolding sl n_def by (rule int_min)
    have inb: "\<not> int (length pData) < int w + int n" using ge less.prems(3) by linarith
    let ?ds = "take n (drop w pData)"
    have lds: "length ?ds = n" using ge less.prems(3) by simp
    let ?tr2 = "tr @ encode WriteEnable @ encode (PageProgram Adr ?ds)"
    have tr2: "spi_cs True (spi_writeblock dev (take (nat (int n)) (drop (nat (int w)) pData))
        (send_adr dev CMD_PAGE_PRG Adr (spi_write_enable dev True tr))) = ?tr2"
      by (simp add: writeblock_eq send_adr_eq write_enable_eq spi_cs_def CMD_PAGE_PRG_def)
    obtain k where k: "wait_ready dev ?tr2 = Some (?tr2 @ polls k)" "st (?tr2 @ polls k) = (st ?tr2)\<lparr>busy := False\<rparr>"
      using wait_ready_idle [OF dev] by blast
    let ?A = "Adr + word_of_int (int n)"
    have uA: "unat ?A = unat Adr + n"
    proof -
      have "unat (word_of_nat n :: u32) = n"
        using n(2) by (simp add: unsigned_of_nat take_bit_nat_eq_self)
      then show ?thesis using an fs by (simp add: unat_word_ariths)
    qed
    have f1: "mem (st (?tr2 @ polls k)) =
        (\<lambda>x. if unat Adr \<le> x \<and> x < unat Adr + n then mem (st tr) x AND pData ! (w + (x - unat Adr)) else mem (st tr) x)"
    proof -
      let ?tr1 = "tr @ encode WriteEnable"
      have "unat Adr < unat (FlashSize p)" "unat Adr mod unat (PageSize p) + length ?ds \<le> unat (PageSize p)" "?ds \<noteq> []"
        using an n lds pg by auto
      moreover have on: "\<not> busy (st ?tr1)" "wel (st ?tr1)" "mem (st ?tr1) = mem (st tr)"
        using flash_enabled [OF dev less.prems(1)] less.prems(1) by simp_all
      ultimately have "st (?tr1 @ encode (PageProgram Adr ?ds)) =
          \<lparr>mem = clear_bits (unat Adr) ?ds (mem (st ?tr1)), wel = False, busy = True\<rparr>"
        using dev unfolding flash_device_def by blast
      then have mf: "mem (st (?tr2 @ polls k)) = clear_bits (unat Adr) ?ds (mem (st tr))"
        unfolding k(2) using on(3) by (simp only: append_assoc flash.simps)
      have ds: "?ds ! (x - unat Adr) = pData ! (w + (x - unat Adr))" if "unat Adr \<le> x \<and> x < unat Adr + n" for x
        using that ge less.prems(3) n(1) by (subst nth_take) (auto simp: nth_drop)
      show ?thesis unfolding mf clear_bits_def lds by (intro ext if_cong refl) (simp only: ds)
    qed
    obtain tr' where c:
      "spi_write_loop dev p pData Len (int (w + n)) ?A (?tr2 @ polls k) = Some (Inr (int ?e, tr'))"
      "\<not> busy (st tr')"
      "mem (st tr') = (\<lambda>x. if unat Adr + n \<le> x \<and> x < unat Adr + n + (?e - (w + n))
        then mem (st (?tr2 @ polls k)) x AND pData ! (w + n + (x - (unat Adr + n))) else mem (st (?tr2 @ polls k)) x)"
    proof -
      have "unat Len - (w + n) < unat Len - w" using True n(1) by simp
      moreover have "write_end (unat Len) (unat ?A) (w + n) = ?e" by (simp only: uA e)
      moreover have "unat ?A + (?e - (w + n)) \<le> unat (FlashSize p)" using ge less.prems(4) unfolding uA by simp
      moreover have "\<not> busy (st (?tr2 @ polls k))" unfolding k(2) by simp
      ultimately show ?thesis
        using less.hyps [of "w + n" "?tr2 @ polls k" ?A] ge less.prems(3,5) that unfolding uA by auto
    qed
    have run: "spi_write_loop dev p pData Len (int w) Adr tr = Some (Inr (int ?e, tr'))"
      using True wl c(1) inb k(1)
      by (subst spi_write_loop.simps, unfold Let_def left b tr2) (simp del: encode.simps)
    have m: "mem (st tr') = (\<lambda>x. if unat Adr \<le> x \<and> x < unat Adr + (?e - w)
        then mem (st tr) x AND pData ! (w + (x - unat Adr)) else mem (st tr) x)"
      unfolding c(3) f1 using ge by (auto simp: fun_eq_iff)
    show ?thesis using run m c(2) by (intro exI [of _ tr']) (simp only: simp_thms)
  qed
qed

text \<open>
  The number of bytes a call programs. Every chunk but the first is \<open>min Len 256\<close> bytes, whatever
  is left, so a write that crosses into another page runs on past its end.
\<close>

definition page_up :: "nat \<Rightarrow> nat" where
  "page_up n = (n + 255) div 256 * 256"

lemma page_up_bounds: "n \<le> page_up n" "page_up n < n + 256"
  using div_mult_mod_eq [of "n + 255" 256] mod_less_divisor [of 256 "n + 255", simplified]
  by (simp_all add: page_up_def)

lemma page_up_add: "page_up (256 + n) = 256 + page_up n"
proof -
  have "256 + n + 255 = n + 255 + 256 * 1" by simp
  then have "(256 + n + 255) div 256 = (n + 255) div 256 + 1"
    by (metis div_mult_self2 zero_neq_numeral add.commute)
  then show ?thesis by (simp add: page_up_def)
qed

lemma page_up_small: "0 < n \<Longrightarrow> n \<le> 256 \<Longrightarrow> page_up n = 256"
proof -
  assume "0 < n" "n \<le> 256"
  then have "(n + 255) div 256 = 1" by (intro div_nat_eqI) simp_all
  then show ?thesis by (simp add: page_up_def)
qed

lemma page_up_least: "n \<le> 256 * k \<Longrightarrow> page_up n \<le> 256 * k"
proof -
  assume "n \<le> 256 * k"
  then have "(n + 255) div 256 < k + 1" by (intro div_less_iff_less_mult [THEN iffD2]) simp_all
  then have "(n + 255) div 256 * 256 \<le> k * 256" by (intro mult_le_mono1) simp
  then show ?thesis by (simp add: page_up_def)
qed

definition write_span :: "nat \<Rightarrow> nat \<Rightarrow> nat" where
  "write_span len a =
     (if len = 0 then 0
      else if a mod 256 + len \<le> 256 then len
      else if len \<le> 256 then 256 - a mod 256 + len
      else page_up (a mod 256 + len) - a mod 256)"

lemma write_end_aligned:
  "256 < len \<Longrightarrow> a mod 256 = 0 \<Longrightarrow> w < len \<Longrightarrow> write_end len a w = w + page_up (len - w)"
proof (induction "len - w" arbitrary: a w rule: less_induct)
  case less
  have m: "min len (256 - a mod 256) = 256" using less.prems by simp
  show ?case
  proof (cases "w + 256 < len")
    case True
    have "write_end len a w = write_end len (a + 256) (w + 256)"
      using less.prems m by (subst write_end.simps) simp
    also have "\<dots> = w + 256 + page_up (len - (w + 256))"
      using less.prems True by (intro less.hyps) simp_all
    also have "\<dots> = w + page_up (len - w)" using True page_up_add [of "len - (w + 256)"] by simp
    finally show ?thesis .
  next
    case False
    have "write_end len a w = write_end len (a + 256) (w + 256)"
      using less.prems m by (subst write_end.simps) simp
    also have "\<dots> = w + 256" using False by (subst write_end.simps) simp
    also have "\<dots> = w + page_up (len - w)" using False less.prems(3) page_up_small [of "len - w"] by simp
    finally show ?thesis .
  qed
qed

lemma page_left:
  fixes a :: nat
  shows "0 < 256 - a mod 256" "256 - a mod 256 \<le> 256" "(a + (256 - a mod 256)) mod 256 = 0"
proof -
  define q r where "q = a div 256" and "r = a mod 256"
  have "a = 256 * q + r" "r < 256" by (simp_all add: q_def r_def)
  then have "a + (256 - r) = 256 * (q + 1)" by simp
  then have "a + (256 - a mod 256) = 256 * (q + 1)" by (simp only: r_def)
  then show "(a + (256 - a mod 256)) mod 256 = 0" by simp
qed simp_all

lemma write_end_span: "write_end len a 0 = write_span len a"
proof -
  consider "len = 0" | "0 < len" "a mod 256 + len \<le> 256" | "a mod 256 + len > 256" "len \<le> 256"
    | "len > 256" by linarith
  then show ?thesis
  proof cases
    case 1
    then show ?thesis by (subst write_end.simps) (simp add: write_span_def)
  next
    case 2
    then have "min len (256 - a mod 256) = len" by simp
    with 2 show ?thesis by (subst write_end.simps, subst write_end.simps) (simp add: write_span_def)
  next
    case 3
    define b where "b = 256 - a mod 256"
    have b: "min len b = b" "0 < b" "b < len" "(a + b) mod 256 = 0"
      using 3 page_left [of a] by (simp_all add: b_def)
    have l: "min len (256 - (a + b) mod 256) = len" using 3 b by simp
    have "write_end len a 0 = write_end len (a + b) b"
      using b 3 by (subst write_end.simps) (simp add: b_def)
    also have "\<dots> = write_end len (a + b + len) (b + len)"
      using b l by (subst write_end.simps) simp
    also have "\<dots> = b + len" by (subst write_end.simps) simp
    finally show ?thesis using 3 by (simp add: write_span_def b_def)
  next
    case 4
    define b where "b = 256 - a mod 256"
    have b: "min len b = b" "0 < b" "b < len" "(a + b) mod 256 = 0"
      using 4 page_left [of a] by (simp_all add: b_def)
    have "write_end len a 0 = write_end len (a + b) b"
      using b by (subst write_end.simps) (simp add: b_def)
    also have "\<dots> = b + page_up (len - b)"
      using 4 b by (intro write_end_aligned)
    also have "\<dots> = page_up (a mod 256 + len) - a mod 256"
    proof -
      have "a mod 256 + len = 256 + (len - b)" "a mod 256 < 256" using b(3) by (simp_all add: b_def)
      then show ?thesis using page_up_add [of "len - b"] by (simp add: b_def)
    qed
    finally show ?thesis using 4 by (simp add: write_span_def)
  qed
qed

lemma write_span_fits:
  assumes "a + len \<le> s" and "s mod 256 = 0"
  shows "a + write_span len a \<le> s"
proof -
  obtain k where s: "s = 256 * k" using assms(2) by (auto simp: mod_eq_0_iff_dvd)
  define q r where "q = a div 256" and "r = a mod 256"
  have a: "a = 256 * q + r" "r < 256" by (simp_all add: q_def r_def)
  have "r + len \<le> 256 * (k - q)" using assms(1) a s by (simp add: diff_mult_distrib2)
  then have "page_up (r + len) \<le> 256 * (k - q)" by (rule page_up_least)
  moreover have "256 * q \<le> s" using assms(1) a by linarith
  ultimately have e: "256 * q + page_up (r + len) \<le> s" using s by (simp add: diff_mult_distrib2)
  have up: "r + len \<le> page_up (r + len)" by (rule page_up_bounds)
  have sp: "write_span len a = (if len = 0 then 0 else if r + len \<le> 256 then len
      else if len \<le> 256 then 256 - r + len else page_up (r + len) - r)"
    by (simp add: write_span_def r_def)
  consider "len = 0 \<or> r + len \<le> 256" | "256 < r + len" "len \<le> 256" | "256 < len" by linarith
  then show ?thesis
  proof cases
    case 1
    then show ?thesis using assms(1) by (auto simp: sp)
  next
    case 2
    then have up2: "page_up (r + len) = 256 + 256"
      using a(2) page_up_add [of "r + len - 256"] page_up_small [of "r + len - 256"] by simp
    from 2 have "write_span len a = 256 - r + len" by (auto simp: sp)
    then have "a + write_span len a = 256 * q + 256 + len" using a by simp
    with 2 up2 show ?thesis using e by linarith
  next
    case 3
    then have "write_span len a = page_up (r + len) - r" by (simp add: sp)
    then have "a + write_span len a = 256 * q + page_up (r + len)" using up a by simp
    then show ?thesis using e by simp
  qed
qed

lemma gChipInfo_geometry:
  "p \<in> set gChipInfo \<Longrightarrow>
   PageSize p = 256 \<and> EraseSize p = SectorSize p \<and> unat (FlashSize p) \<le> 2 ^ 24 \<and>
   unat (FlashSize p) mod 256 = 0 \<and> 0 < unat (SectorSize p) \<and>
   unat (FlashSize p) mod unat (SectorSize p) = 0"
  by (auto simp: gChipInfo_def)

lemma no_wrap: "unat a + unat b \<le> unat c \<Longrightarrow> \<not> a + b > (c :: u32)"
  by (simp add: word_less_nat_alt unat_word_ariths)

section \<open>A device for the examples\<close>

text \<open>
  A concrete device: it collects the bytes of a frame while the chip select is low and carries
  the command out when it rises. A cycle lasts for two readings of the status, and while it lasts
  the device ignores every other command. The state is the frame, the readings that are left of
  the cycle, and the state of the chip.
\<close>

type_synonym chip = "u8 list \<times> nat \<times> flash"

fun run_frame :: "FlashInfo_t \<Rightarrow> u8 list \<Rightarrow> nat \<times> flash \<Rightarrow> nat \<times> flash" where
  "run_frame p [c] (k, f) = (if c = 0x06 \<and> \<not> busy f then (k, f\<lparr>wel := True\<rparr>) else (k, f))"
| "run_frame p [c, x] (k, f) = (if c = 0x05 then (k - 1, f\<lparr>busy := busy f \<and> 0 < k\<rparr>) else (k, f))"
| "run_frame p (c # x # y # z # ds) (k, f) =
     (let a = unat x * 2 ^ 16 + unat y * 2 ^ 8 + unat z in
      if busy f \<or> \<not> wel f then (k, f)
      else if c = 0x02 then (2, \<lparr>mem = clear_bits a ds (mem f), wel = False, busy = True\<rparr>)
      else if c = 0xd8 then (2, \<lparr>mem = erase_sector (unat (SectorSize p)) a (mem f), wel = False, busy = True\<rparr>)
      else (k, f))"
| "run_frame p _ s = s"

fun feed :: "FlashInfo_t \<Rightarrow> bus \<Rightarrow> chip \<Rightarrow> chip" where
  "feed p (Cs False) (fr, s) = ([], s)"
| "feed p (Cs True) (fr, s) = ([], run_frame p fr s)"
| "feed p (Tx b) (fr, s) = (fr @ [b], s)"

definition power_on :: "(nat \<Rightarrow> u8) \<Rightarrow> chip" where
  "power_on m = ([], 0, \<lparr>mem = m, wel = False, busy = False\<rparr>)"

definition model_flash :: "FlashInfo_t \<Rightarrow> (nat \<Rightarrow> u8) \<Rightarrow> bus list \<Rightarrow> flash" where
  "model_flash p m tr = snd (snd (fold (feed p) tr (power_on m)))"

definition model_device :: "FlashInfo_t \<Rightarrow> (nat \<Rightarrow> u8) \<Rightarrow> device" where
  "model_device p m tr =
     (case fold (feed p) tr (power_on m) of
        ([c, x], k, f) \<Rightarrow> if c = 0x05 \<and> busy f \<and> 0 < k then 1 else 0
      | (c # x # y # z # rest, k, f) \<Rightarrow>
          if c = 0x03 \<and> \<not> busy f then mem f (unat x * 2 ^ 16 + unat y * 2 ^ 8 + unat z + length rest - 1) else 0
      | _ \<Rightarrow> 0)"

lemma adr_bytes_value:
  "unat a < 2 ^ 24 \<Longrightarrow>
   unat (ucast (drop_bit 16 a AND 0xff :: u32) :: u8) * 2 ^ 16 +
   unat (ucast (drop_bit 8 a AND 0xff :: u32) :: u8) * 2 ^ 8 + unat (ucast (a AND 0xff :: u32) :: u8) = unat a"
proof -
  assume a: "unat a < 2 ^ 24"
  have b: "unat (ucast (x AND 0xff :: u32) :: u8) = unat x mod 256" for x
  proof -
    have m: "(0xff :: u32) = mask 8" by (simp add: mask_eq_exp_minus_1)
    have "ucast (x AND 0xff :: u32) = (ucast x :: u8)"
      unfolding m by (intro bit_word_eqI) (simp add: bit_simps)
    then have "unat (ucast (x AND 0xff :: u32) :: u8) = unat (ucast x :: u8)" by simp
    also have "\<dots> = unat x mod 256" by (simp add: unsigned_ucast_eq take_bit_eq_mod)
    finally show ?thesis .
  qed
  have d: "unat (drop_bit k a) = unat a div 2 ^ k" for k
    unfolding unsigned_drop_bit_eq unsigned_take_bit_eq [symmetric] by (simp only: drop_bit_eq_div take_bit_word_eq_self order_refl)
  define n where "n = unat a"
  have "n div 65536 mod 256 = n div 65536" using a by (simp add: n_def)
  moreover have "n = n div 65536 * 65536 + n div 256 mod 256 * 256 + n mod 256"
  proof -
    have "n div 65536 * 256 + n div 256 mod 256 = n div 256"
      using div_mult_mod_eq [of "n div 256" 256] by (simp add: div_mult2_eq [symmetric])
    then show ?thesis using div_mult_mod_eq [of n 256] by linarith
  qed
  ultimately show ?thesis unfolding b d n_def [symmetric] by simp
qed

lemma feed_frame: "fold (feed p) (Cs False # map Tx bs) s = (bs, snd s)"
proof -
  have "fold (feed p) (map Tx bs) (fr, f) = (fr @ bs, f)" for fr f
    by (induction bs arbitrary: fr) simp_all
  then show ?thesis by (cases s) simp
qed

lemma model_frame:
  "snd (fold (feed p) (tr @ (Cs False # map Tx bs) @ [Cs True]) s) = run_frame p bs (snd (fold (feed p) tr s))"
  by (simp only: fold_append o_apply feed_frame) simp

lemma model_polls:
  "snd (fold (feed p) (tr @ polls n) s) =
    (case snd (fold (feed p) tr s) of (k, f) \<Rightarrow> (k - n, f\<lparr>busy := busy f \<and> n \<le> k\<rparr>))"
proof (induction n arbitrary: tr)
  case 0
  then show ?case by (simp add: polls_def split: prod.split)
next
  case (Suc n)
  have "encode ReadStatus = (Cs False # map Tx [5, 0xff]) @ [Cs True]" by simp
  then have "snd (fold (feed p) (tr @ encode ReadStatus) s) = run_frame p [5, 0xff] (snd (fold (feed p) tr s))"
    by (simp only: model_frame)
  then show ?case
    using Suc [of "tr @ encode ReadStatus"]
    by (cases "snd (fold (feed p) tr s)") (auto simp: polls_Suc Suc_le_eq simp del: encode.simps fold_append intro!: arg_cong2 [where f = busy_update])
qed

lemma model_status:
  "status_wip (model_device p m) tr \<longleftrightarrow>
    busy (model_flash p m tr) \<and> 0 < fst (snd (fold (feed p) tr (power_on m)))"
  using feed_frame [of p "[CMD_READ_STATUS, 0xFF]" "fold (feed p) tr (power_on m)"]
  by (auto simp: status_wip_def model_device_def model_flash_def STATUS_WIP_def CMD_READ_STATUS_def split: prod.split)

lemma adr_bytes_map:
  "adr_bytes a = map Tx [ucast (drop_bit 16 a AND 0xff), ucast (drop_bit 8 a AND 0xff), ucast (a AND 0xff)]"
  by (simp add: adr_bytes_def)

lemma model_device_laws:
  assumes "unat (FlashSize p) \<le> 2 ^ 24"
  shows "flash_device p (model_device p m) (model_flash p m)"
proof -
  let ?st = "model_flash p m" and ?s = "\<lambda>tr. snd (fold (feed p) tr (power_on m))"
  let ?b = "\<lambda>a. [ucast (drop_bit 16 a AND 0xff), ucast (drop_bit 8 a AND 0xff), ucast (a AND 0xff :: u32)] :: u8 list"
  have small: "?st (tr @ encode c) = snd (run_frame p bs (fst (?s tr), ?st tr))"
    if "encode c = (Cs False # map Tx bs) @ [Cs True]" for tr c bs
    unfolding that model_flash_def model_frame by simp
  have fr: "encode WriteEnable = (Cs False # map Tx [6]) @ [Cs True]"
    "encode ReadStatus = (Cs False # map Tx [5, 0xff]) @ [Cs True]"
    "encode (ReadData a n) = (Cs False # map Tx (3 # ?b a @ replicate n 0xff)) @ [Cs True]"
    "encode (PageProgram a ds) = (Cs False # map Tx (2 # ?b a @ ds)) @ [Cs True]"
    "encode (SectorErase a) = (Cs False # map Tx (0xd8 # ?b a)) @ [Cs True]" for a n ds
    by (simp_all add: adr_bytes_map map_replicate_const)
  have ready: "becomes_ready (model_device p m)"
  proof -
    have "\<not> status_wip (model_device p m) (tr @ polls (fst (?s tr)))" for tr
      using model_polls [of p tr "fst (?s tr)" "power_on m"] by (simp add: model_status split: prod.splits)
    then show ?thesis unfolding becomes_ready_def by blast
  qed
  have reads: "model_device p m ((tr @ [Cs False, Tx CMD_READ_DATA] @ adr_bytes a) @ replicate (Suc i) (Tx 0xFF)) =
      mem (?st tr) (unat a + i)" if "unat a + i < unat (FlashSize p)" "\<not> busy (?st tr)" for tr a i
  proof -
    have v: "unat a < 2 ^ 24" using that assms by simp
    have t: "(tr @ [Cs False, Tx CMD_READ_DATA] @ adr_bytes a) @ replicate (Suc i) (Tx 0xFF) =
        tr @ (Cs False # map Tx (3 # ?b a @ replicate (Suc i) 0xff))"
      by (simp add: adr_bytes_map map_replicate_const CMD_READ_DATA_def)
    show ?thesis
      unfolding t model_device_def fold_append o_apply feed_frame
      using adr_bytes_value [OF v] that(2) by (cases "?s tr") (simp add: model_flash_def)
  qed
  have in24: "unat a < 2 ^ 24" if "unat a < unat (FlashSize p)" for a :: u32 using that assms by simp
  show ?thesis
    unfolding flash_device_def model_status
    using ready reads small [OF fr(1)] small [OF fr(2)] small [OF fr(3)] small [OF fr(4)] small [OF fr(5)]
      adr_bytes_value [OF in24]
    by (auto simp: Let_def)
qed

section \<open>Programming through the driver\<close>

lemma spi_write_effect:
  assumes "flash_device p dev st" and "\<not> busy (st tr)" and "p \<in> set gChipInfo"
    and "unat Adr + unat Len \<le> unat (FlashSize p)" and "write_span (unat Len) (unat Adr) \<le> length pData"
  shows "\<exists>tr'. spi_write dev (Some p) Adr pData Len tr = Inr (int (write_span (unat Len) (unat Adr)), tr') \<and>
     \<not> busy (st tr') \<and> mem (st tr') = clear_bits (unat Adr) (take (write_span (unat Len) (unat Adr)) pData) (mem (st tr))"
proof -
  let ?W = "write_span (unat Len) (unat Adr)"
  from gChipInfo_geometry [OF assms(3)] have g: "PageSize p = 256" "unat (FlashSize p) \<le> 2 ^ 24"
    "unat (FlashSize p) mod 256 = 0" by simp_all
  have fits: "unat Adr + ?W \<le> unat (FlashSize p)" using assms(4) g(3) by (rule write_span_fits)
  have e: "write_end (unat Len) (unat Adr) 0 = ?W" by (rule write_end_span)
  have len: "Len < 2 ^ 31" using assms(4) g(2) by (simp add: word_less_nat_alt)
  obtain tr' where c: "spi_write_loop dev p pData Len (int 0) Adr tr = Some (Inr (int ?W, tr'))" "\<not> busy (st tr')"
    "mem (st tr') = (\<lambda>x. if unat Adr \<le> x \<and> x < unat Adr + (?W - 0)
        then mem (st tr) x AND pData ! (0 + (x - unat Adr)) else mem (st tr) x)"
    using write_loop_programs [OF assms(1) g(2,1) len assms(2), of 0 Adr pData] assms(5) fits g(2)
    unfolding e by auto
  have "clear_bits (unat Adr) (take ?W pData) (mem (st tr)) = mem (st tr')"
    unfolding c(3) clear_bits_def using assms(5) by (auto simp: fun_eq_iff)
  moreover have "spi_write dev (Some p) Adr pData Len tr = Inr (int ?W, tr')"
    using no_wrap [OF assms(4)] c(1) by (simp add: spi_write_def)
  ultimately show ?thesis using c(2) by metis
qed

text \<open>
  Claim C14. \<open>spi_write\<close> on a detected chip that is not busy, with the requested range inside the flash and the
  caller's buffer long enough for what is really written, sends a sequence of commands that
  programs exactly the bytes from \<open>Adr\<close> to \<open>Adr + write_span Len Adr\<close>, each cleared with the
  data at its offset, and no other byte of the flash; it returns that number of bytes, and the
  last programming cycle is over. The chip promises nothing of a command it gets while it is
  busy, so this needs the wait after every page.
\<close>

theorem spi_write_programs:
  assumes "flash_device p dev st" and "\<not> busy (st tr)" and "p \<in> set gChipInfo"
    and "unat Adr + unat Len \<le> unat (FlashSize p)" and "write_span (unat Len) (unat Adr) \<le> length pData"
  shows "\<exists>tr'. spi_write dev (Some p) Adr pData Len tr = Inr (int (write_span (unat Len) (unat Adr)), tr') \<and>
     \<not> busy (st tr') \<and> mem (st tr') = clear_bits (unat Adr) (take (write_span (unat Len) (unat Adr)) pData) (mem (st tr))"
  using assms by (rule spi_write_effect)

theorem spi_write_programs_witness:
  "\<exists>tr'. spi_write (model_device (gChipInfo ! 1) (\<lambda>_. 0xff)) (Some (gChipInfo ! 1)) 0x100 [1, 2, 3] 3 [] = Inr (3, tr') \<and>
     mem (model_flash (gChipInfo ! 1) (\<lambda>_. 0xff) tr') 0x102 = 3"
proof -
  have "write_span (unat (3 :: u32)) (unat (0x100 :: u32)) = 3" by (simp add: write_span_def)
  then show ?thesis
    using spi_write_programs [OF model_device_laws, of "gChipInfo ! 1" "\<lambda>_. 0xff" "[]" "0x100" 3 "[1, 2, 3]"]
    by (auto simp: gChipInfo_def clear_bits_def model_flash_def power_on_def)
qed

text \<open>
  The write is what the caller asked for, exactly \<open>Len\<close> bytes, in two cases: inside one page, or
  whole pages from a page boundary.
\<close>

lemma write_span_exact:
  "a mod 256 + len \<le> 256 \<or> a mod 256 = 0 \<and> len mod 256 = 0 \<Longrightarrow> write_span len a = len"
proof -
  have "page_up len = len" if "len mod 256 = 0"
  proof -
    have k: "len = 256 * (len div 256)" using that by (simp add: minus_mod_eq_mult_div [symmetric])
    then have "page_up len \<le> 256 * (len div 256)" by (intro page_up_least) simp
    then show ?thesis using page_up_bounds(1) [of len] k by simp
  qed
  then show "a mod 256 + len \<le> 256 \<or> a mod 256 = 0 \<and> len mod 256 = 0 \<Longrightarrow> write_span len a = len"
    by (auto simp: write_span_def)
qed

text \<open>
  \<open>spi_write\<close> programs more than it was asked to when a write of at most a page
  crosses a page boundary: it wants \<open>Len\<close> more bytes after those that completed the first page.
  With a buffer of exactly \<open>Len\<close> bytes it reads past the buffer's end.
\<close>

theorem spi_write_overruns:
  assumes "becomes_ready dev" and "p \<in> set gChipInfo" and "unat Adr + unat Len \<le> unat (FlashSize p)"
    and "256 < unat Adr mod 256 + unat Len" and "unat Len \<le> 256" and "unat Len = length pData"
  shows "unat Len < write_span (unat Len) (unat Adr) \<and> spi_write dev (Some p) Adr pData Len tr = Inl OutOfBounds"
proof -
  define n where "n = 256 - unat Adr mod 256"
  have n: "0 < n" "n < unat Len" "n \<le> 256" using assms(4,5) by (auto simp: n_def)
  from gChipInfo_geometry [OF assms(2)] have g: "PageSize p = 256" "unat (FlashSize p) \<le> 2 ^ 24" by simp_all
  have left: "sint (256 - A mod 256 :: u32) = int (256 - unat A mod 256)" for A
    by (rule left_in_page)
  have sl: "sint Len = int (unat Len)" using assms(5) by (intro sint_small) (simp add: word_less_nat_alt)
  have uA: "unat (Adr + word_of_int (int n)) = unat Adr + n"
  proof -
    have "unat (word_of_nat n :: u32) = n" using n by (simp add: unsigned_of_nat take_bit_nat_eq_self)
    then show ?thesis using n assms(3) g(2) by (simp add: unat_word_ariths)
  qed
  have al: "(unat Adr + n) mod 256 = 0" unfolding n_def by (rule page_left)
  have w: "word_of_int (int n) < Len"
    using n by (simp add: word_less_nat_alt unsigned_of_nat take_bit_nat_eq_self)
  have "0 < Len" using n(2) by (simp add: word_less_nat_alt)
  have "pData \<noteq> []" using n(2) assms(6) by auto
  obtain tr' where r: "wait_ready dev (spi_cs True (spi_writeblock dev (take n pData)
      (send_adr dev CMD_PAGE_PRG Adr (spi_write_enable dev True tr)))) = Some tr'"
    using wait_ready_ends [OF assms(1)] by blast
  have "spi_write_loop dev p pData Len (int n) (Adr + word_of_int (int n)) tr' = Some (Inl OutOfBounds)"
    using w n assms(5,6) al uA \<open>pData \<noteq> []\<close> by (subst spi_write_loop.simps) (simp add: g(1) left Let_def sl)
  then have "spi_write_loop dev p pData Len 0 Adr tr = Some (Inl OutOfBounds)"
    using \<open>0 < Len\<close> n assms(6) r
    by (subst spi_write_loop.simps) (simp add: g(1) left Let_def sl n_def [symmetric])
  then have "spi_write dev (Some p) Adr pData Len tr = Inl OutOfBounds"
    using no_wrap [OF assms(3)] by (simp add: spi_write_def)
  moreover have "unat Len < write_span (unat Len) (unat Adr)"
    using n assms(4,5) by (simp add: write_span_def n_def)
  ultimately show ?thesis by simp
qed

theorem spi_write_overruns_witness:
  "spi_write (model_device (gChipInfo ! 1) (\<lambda>_. 0)) (Some (gChipInfo ! 1)) 0xff [1, 2] 2 [] = Inl OutOfBounds"
  using spi_write_overruns [OF flash_device_ready [OF model_device_laws], of "gChipInfo ! 1" "gChipInfo ! 1" "0xff" 2 "[1, 2]" "\<lambda>_. 0" "[]"]
  by (simp add: gChipInfo_def)

section \<open>Reading\<close>

lemma read_block_answers:
  assumes "flash_device p dev st" and "\<not> busy (st tr)" and "unat a + n \<le> unat (FlashSize p)"
  shows "spi_readblock dev n (send_adr dev CMD_READ_DATA a tr) =
    (map (mem (st tr)) [unat a ..< unat a + n], send_adr dev CMD_READ_DATA a tr @ replicate n (Tx 0xFF))"
proof -
  have "map (\<lambda>i. dev (send_adr dev CMD_READ_DATA a tr @ replicate (i + 1) (Tx 0xFF))) [0..<n]
      = map (\<lambda>i. mem (st tr) (unat a + i)) [0..<n]"
  proof (rule map_cong [OF refl])
    fix i assume "i \<in> set [0..<n]"
    then have "unat a + i < unat (FlashSize p)" using assms(3) by simp
    then show "dev (send_adr dev CMD_READ_DATA a tr @ replicate (i + 1) (Tx 0xFF)) = mem (st tr) (unat a + i)"
      using assms(1,2) unfolding flash_device_def send_adr_eq by (simp del: replicate_Suc)
  qed
  also have "\<dots> = map (mem (st tr)) [unat a ..< unat a + n]"
    by (rule nth_equalityI) simp_all
  finally show ?thesis by (simp add: readblock_eq)
qed

lemma read_trace:
  "spi_cs True (send_adr dev CMD_READ_DATA a tr @ replicate n (Tx 0xFF)) = tr @ encode (ReadData a n)"
  by (simp add: send_adr_eq spi_cs_def CMD_READ_DATA_def)

lemma read_loop_reads:
  assumes dev: "flash_device p dev st" and page: "0 < PageSize p"
    and fs: "unat (FlashSize p) \<le> 2 ^ 24"
  shows "\<not> busy (st tr) \<Longrightarrow> BytesRead \<le> Len \<Longrightarrow> unat Adr + unat (Len - BytesRead) \<le> unat (FlashSize p) \<Longrightarrow>
    \<exists>tr'. spi_read_loop dev (Some p) Len BytesRead Adr Buf tr =
      Some (Inr (Buf @ map (mem (st tr)) [unat Adr ..< unat Adr + unat (Len - BytesRead)], tr')) \<and>
      st tr' = st tr"
proof (induction "unat (Len - BytesRead)" arbitrary: BytesRead Adr Buf tr rule: less_induct)
  case less
  show ?case
  proof (cases "BytesRead < Len")
    case False
    then have "BytesRead = Len" using less.prems(2) by simp
    then show ?thesis by (intro exI [of _ tr]) (subst spi_read_loop.simps, simp)
  next
    case True
    define n where "n = (if Len - BytesRead > PageSize p then PageSize p else Len - BytesRead)"
    define L where "L = Len - BytesRead"
    have n: "0 < n" "n \<le> L" using page True by (auto simp: n_def L_def word_gt_0)
    have nL: "unat n \<le> unat L" "0 < unat n"
      using n by (simp_all add: word_le_nat_alt word_less_nat_alt)
    have rest: "Len - (BytesRead + n) = L - n" by (simp add: L_def)
    have uL: "unat (L - n) = unat L - unat n" using n(2) by (simp add: unat_sub)
    have aL: "unat Adr + unat L \<le> unat (FlashSize p)" using less.prems(3) by (simp add: L_def)
    have uA: "unat (Adr + n) = unat Adr + unat n"
      using aL nL fs by (simp add: unat_word_ariths)
    have le: "BytesRead + n \<le> Len"
    proof -
      have "unat BytesRead + unat L = unat Len"
        using less.prems(2) by (simp add: L_def unat_sub word_le_nat_alt)
      then show ?thesis using nL unsigned_less [of Len] by (simp add: word_le_nat_alt unat_word_ariths)
    qed
    let ?r = "map (mem (st tr)) [unat Adr ..< unat Adr + unat n]"
    let ?tr1 = "tr @ encode (ReadData Adr (unat n))"
    have b: "spi_readblock dev (unat n) (send_adr dev CMD_READ_DATA Adr tr) =
        (?r, send_adr dev CMD_READ_DATA Adr tr @ replicate (unat n) (Tx 0xFF))"
      using aL nL by (intro read_block_answers [OF dev less.prems(1)]) simp
    have fit: "unat (Adr + n) + unat (Len - (BytesRead + n)) \<le> unat (FlashSize p)"
      unfolding rest uL uA using aL nL by simp
    have smaller: "unat (Len - (BytesRead + n)) < unat (Len - BytesRead)"
      unfolding rest uL using nL by (simp add: L_def)
    obtain tr' where r: "spi_read_loop dev (Some p) Len (BytesRead + n) (Adr + n) (Buf @ ?r) ?tr1 =
        Some (Inr ((Buf @ ?r) @
          map (mem (st tr)) [unat (Adr + n) ..< unat (Adr + n) + unat (Len - (BytesRead + n))], tr'))"
      "st tr' = st tr"
      using less.hyps [OF smaller _ le fit, of ?tr1 "Buf @ ?r"] flash_read [OF dev less.prems(1)] less.prems(1) by metis
    have split: "[unat Adr ..< unat Adr + unat L] =
        [unat Adr ..< unat Adr + unat n] @ [unat Adr + unat n ..< unat Adr + unat n + (unat L - unat n)]"
      using nL upt_add_eq_append [of "unat Adr" "unat Adr + unat n" "unat L - unat n"] by simp
    have "spi_read_loop dev (Some p) Len BytesRead Adr Buf tr =
        spi_read_loop dev (Some p) Len (BytesRead + n) (Adr + n) (Buf @ ?r) ?tr1"
      using True by (subst spi_read_loop.simps)
        (simp only: option.case Let_def n_def [symmetric] b prod.case if_True read_trace)
    then show ?thesis using r unfolding rest uL uA L_def [symmetric] split by (intro exI [of _ tr']) simp
  qed
qed

lemma spi_read_effect:
  assumes "flash_device p dev st" and "\<not> busy (st tr)" and "p \<in> set gChipInfo" and "unat Adr + unat Len \<le> unat (FlashSize p)"
  shows "\<exists>tr'. spi_read dev (Some p) Adr Len tr = Inr (map (mem (st tr)) [unat Adr ..< unat Adr + unat Len], tr') \<and>
    st tr' = st tr"
proof -
  have g: "0 < PageSize p" "unat (FlashSize p) \<le> 2 ^ 24" using gChipInfo_geometry [OF assms(3)] by auto
  obtain tr' where "spi_read_loop dev (Some p) Len 0 Adr [] tr =
      Some (Inr ([] @ map (mem (st tr)) [unat Adr ..< unat Adr + unat (Len - 0)], tr'))" "st tr' = st tr"
    using read_loop_reads [OF assms(1) g assms(2), of 0 Len Adr "[]"] assms(4) by auto
  then show ?thesis by (simp add: spi_read_def)
qed

text \<open>
  Claim C15. On a chip that is not busy \<open>spi_read\<close> ends, fills the buffer with the \<open>Len\<close> bytes the memory holds from
  \<open>Adr\<close> on, in order, for every length and alignment inside the flash, and changes nothing.
\<close>

theorem spi_read_reads:
  assumes "flash_device p dev st" and "\<not> busy (st tr)" and "p \<in> set gChipInfo" and "unat Adr + unat Len \<le> unat (FlashSize p)"
  shows "\<exists>tr'. spi_read dev (Some p) Adr Len tr = Inr (map (mem (st tr)) [unat Adr ..< unat Adr + unat Len], tr') \<and>
    st tr' = st tr"
  using assms by (rule spi_read_effect)

theorem spi_read_reads_witness:
  "\<exists>tr'. spi_read (model_device (gChipInfo ! 1) of_nat) (Some (gChipInfo ! 1)) 0x10 3 [] = Inr ([0x10, 0x11, 0x12], tr')"
proof -
  have "[16 ..< 19] = [16, 17, 18 :: nat]" by (simp add: upt_rec)
  then show ?thesis
    using spi_read_reads [OF model_device_laws, of "gChipInfo ! 1" of_nat "[]" "0x10" 3]
    by (auto simp: gChipInfo_def model_flash_def power_on_def)
qed

section \<open>Erasing\<close>

lemma erase_loop_effect:
  assumes dev: "flash_device p dev st"
  shows "\<not> busy (st tr) \<Longrightarrow> \<not> wel (st tr) \<or> unat Adr < unat (FlashSize p) \<Longrightarrow>
    \<exists>tr'. spi_erase_loop dev p n Adr tr = Some tr' \<and> \<not> busy (st tr') \<and>
      mem (st tr') = (if wel (st tr) \<and> 0 < n then erase_sector (unat (SectorSize p)) (unat Adr) (mem (st tr)) else mem (st tr))"
proof (induction n arbitrary: Adr tr)
  case (Suc n)
  let ?tr1 = "tr @ encode (SectorErase Adr)"
  have t: "spi_cs True (send_adr dev CMD_SECTOR_ERASE Adr tr) = ?tr1"
    by (simp add: send_adr_eq spi_cs_def CMD_SECTOR_ERASE_def)
  have s1: "\<not> wel (st ?tr1)" "mem (st ?tr1) =
      (if wel (st tr) then erase_sector (unat (SectorSize p)) (unat Adr) (mem (st tr)) else mem (st tr))"
    using dev Suc.prems by (auto simp: flash_device_def)
  obtain k where k: "wait_ready dev ?tr1 = Some (?tr1 @ polls k)" "st (?tr1 @ polls k) = (st ?tr1)\<lparr>busy := False\<rparr>"
    using wait_ready_idle [OF dev] by blast
  then obtain tr' where "spi_erase_loop dev p n (Adr + SectorSize p) (?tr1 @ polls k) = Some tr'"
    "\<not> busy (st tr')" "mem (st tr') = mem (st ?tr1)"
    using Suc.IH [of "?tr1 @ polls k" "Adr + SectorSize p"] s1(1) by auto
  then show ?case
    using s1(2) by (simp add: t k(1) del: encode.simps)
qed simp

lemma spi_erase_effect:
  assumes "flash_device p dev st" and "\<not> busy (st tr)" and "p \<in> set gChipInfo"
    and "Adr mod EraseSize p = 0" and "EraseSize p \<le> Len" and "unat Adr + unat Len \<le> unat (FlashSize p)"
  shows "\<exists>tr'. spi_erase dev (Some p) Adr Len tr = Inr (-1, tr') \<and> \<not> busy (st tr') \<and>
     mem (st tr') = erase_sector (unat (SectorSize p)) (unat Adr) (mem (st tr))"
proof -
  let ?n = "unat (Len div EraseSize p)"
  from gChipInfo_geometry [OF assms(3)] have g: "EraseSize p = SectorSize p" "0 < unat (SectorSize p)"
    by simp_all
  have n: "0 < ?n"
    using assms(5) g by (simp add: unat_div word_le_nat_alt div_greater_zero_iff)
  have a: "unat Adr < unat (FlashSize p)"
    using assms(5,6) g by (simp add: word_le_nat_alt)
  let ?tr1 = "tr @ encode WriteEnable"
  obtain tr' where "spi_erase_loop dev p ?n Adr ?tr1 = Some tr'" "\<not> busy (st tr')"
    "mem (st tr') = erase_sector (unat (SectorSize p)) (unat Adr) (mem (st tr))"
    using erase_loop_effect [OF assms(1), of ?tr1 Adr ?n] n a assms(2) flash_enabled [OF assms(1,2)] by auto
  then show ?thesis
    using assms(4) no_wrap [OF assms(6)] by (simp add: spi_erase_def write_enable_eq del: encode.simps)
qed

text \<open>
  \<open>spi_erase\<close> of a sector-aligned range inside the flash erases the first sector of
  the range and no other, however long the range is: the write enable latch is set once, before
  the loop, and the chip resets it after each sector. The call returns \<open>-1\<close> although it ended
  as intended.
\<close>

theorem spi_erase_first_sector:
  assumes "flash_device p dev st" and "\<not> busy (st tr)" and "p \<in> set gChipInfo"
    and "Adr mod EraseSize p = 0" and "EraseSize p \<le> Len" and "unat Adr + unat Len \<le> unat (FlashSize p)"
  shows "\<exists>tr'. spi_erase dev (Some p) Adr Len tr = Inr (-1, tr') \<and> \<not> busy (st tr') \<and>
     mem (st tr') = erase_sector (unat (SectorSize p)) (unat Adr) (mem (st tr))"
  using assms by (rule spi_erase_effect)

theorem spi_erase_first_sector_witness:
  "\<exists>tr'. spi_erase (model_device (gChipInfo ! 0) (\<lambda>_. 0)) (Some (gChipInfo ! 0)) 0x10000 0x20000 [] = Inr (-1, tr') \<and>
     mem (model_flash (gChipInfo ! 0) (\<lambda>_. 0) tr') 0x10000 = 0xff \<and>
     mem (model_flash (gChipInfo ! 0) (\<lambda>_. 0) tr') 0x20000 = 0"
  using spi_erase_first_sector [OF model_device_laws, of "gChipInfo ! 0" "\<lambda>_. 0" "[]" "0x10000" "0x20000"]
  by (auto simp: gChipInfo_def erase_sector_def model_flash_def power_on_def)

end
