(* ===== verification/Cmd_Parser.thy ===== *)
theory Cmd_Parser
  imports Prelude
begin

text \<open>
  The command line parser, \<open>pano/fw/common/cmd_parser.c\<close>, and the command table of the shell
  in \<open>fw/pano_term/main.c\<close>. A pointer into a string is the rest of the string; printing is the
  text a routine returns. Shown: what abbreviation a command line resolves to, that every
  command of the table can be called by its name, and how numbers are read.
\<close>

section \<open>Character classes\<close>

definition isspace :: "u8 \<Rightarrow> bool" where
  "isspace c \<longleftrightarrow> c = 32 \<or> (9 \<le> c \<and> c \<le> 13)"

definition tolower :: "u8 \<Rightarrow> u8" where
  "tolower c = (if 65 \<le> c \<and> c \<le> 90 then c + 32 else c)"

definition isdigit_c :: "u8 \<Rightarrow> bool" where
  "isdigit_c c \<longleftrightarrow> 48 \<le> c \<and> c \<le> 57"

definition isxdigit :: "u8 \<Rightarrow> bool" where
  "isxdigit c \<longleftrightarrow> isdigit_c c \<or> (65 \<le> c \<and> c \<le> 70) \<or> (97 \<le> c \<and> c \<le> 102)"

text \<open>\<open>*p\<close> for a pointer into a string: the terminating zero at its end.\<close>

definition deref :: "cstr \<Rightarrow> u8" where
  "deref s = (case s of [] \<Rightarrow> 0 | c # _ \<Rightarrow> c)"

section \<open>Scanning\<close>

fun SkipSpaces :: "cstr \<Rightarrow> cstr" where
  "SkipSpaces [] = []"
| "SkipSpaces (c # cs) = (if isspace c then SkipSpaces cs else c # cs)"

fun Skip2Space :: "cstr \<Rightarrow> cstr" where
  "Skip2Space [] = []"
| "Skip2Space (c # cs) = (if c \<noteq> 0 \<and> \<not> isspace c then Skip2Space cs else c # cs)"

text \<open>
  The loop of \<open>MatchCmd\<close>: \<open>None\<close> is the early return, \<open>Some\<close> what is left of the command
  name. The name is not read beyond its terminating zero: a zero there never equals a
  character of the line.
\<close>

fun match_loop :: "cstr \<Rightarrow> cstr \<Rightarrow> cstr option" where
  "match_loop [] Command = Some Command"
| "match_loop (c # cs) Command =
     (if c \<noteq> 0 \<and> c \<noteq> 32 \<and> c \<noteq> 13 \<and> c \<noteq> 10 then
        (if tolower c \<noteq> tolower (deref Command) then None else match_loop cs (tl Command))
      else Some Command)"

definition MatchCmd :: "cstr \<Rightarrow> cstr \<Rightarrow> nat" where
  "MatchCmd CmdLine0 Command =
     (let CmdLine = SkipSpaces CmdLine0 in
      if deref CmdLine = 0 then 0
      else case match_loop CmdLine Command of
             None \<Rightarrow> 0
           | Some rest \<Rightarrow> if deref rest = 0 then 2 else 1)"

section \<open>The command table\<close>

text \<open>
  An entry of the table. A handler is named by a value of the parameter type \<open>'h\<close>; what
  calling it does is a parameter of \<open>ParseCmd\<close>. The entry without a handler ends the table.
\<close>

record 'h CommandTable_t =
  CmdString :: "cstr option"
  HelpString :: "cstr option"
  Usage :: "cstr option"
  CmdHandler :: "'h option"

datatype CommandResults_t =
    RESULT_OK | RESULT_NO_SUPPORT | RESULT_BAD_ARG | RESULT_USAGE | RESULT_NO_INIT
  | RESULT_ERR | RESULT_INTERNAL_ERR

fun find_loop ::
  "cstr \<Rightarrow> 'h CommandTable_t list \<Rightarrow> nat \<Rightarrow> 'h CommandTable_t option \<Rightarrow> (nat \<times> 'h CommandTable_t option) res" where
  "find_loop CmdLine [] CmdsMatched Ret = Inl OutOfBounds"
| "find_loop CmdLine (pCmd # rest) CmdsMatched Ret =
     (if CmdHandler pCmd = None then Inr (CmdsMatched, Ret)
      else case CmdString pCmd of
             None \<Rightarrow> Inl NullPtr
           | Some name \<Rightarrow>
               (let MatchResult = MatchCmd CmdLine name in
                if MatchResult = 2 then Inr (1, Some pCmd)
                else if MatchResult \<noteq> 0 then find_loop CmdLine rest (CmdsMatched + 1) (Some pCmd)
                else find_loop CmdLine rest CmdsMatched Ret))"

text \<open>The result is the entry found and what has been printed.\<close>

definition FindCmd ::
  "'h CommandTable_t list \<Rightarrow> cstr \<Rightarrow> bool \<Rightarrow> ('h CommandTable_t option \<times> cstr) res" where
  "FindCmd gCmdTbl CmdLine bSilent =
     (if deref (SkipSpaces CmdLine) = 0 then Inr (None, [])
      else rbind (find_loop CmdLine gCmdTbl 0 None) (\<lambda>(CmdsMatched, Ret).
        if CmdsMatched = 0
        then Inr (None, if bSilent then [] else bytes ''Error: Unknown command.'' @ [10])
        else if CmdsMatched > 1
        then Inr (None, if bSilent then [] else bytes ''Error: Command is ambiguous.'' @ [10])
        else Inr (Ret, [])))"

text \<open>
  The state of the parser, and a call of the handler \<open>h\<close> on its arguments in a state of the
  rest of the program.
\<close>

record 'h parser =
  gPrintf :: bool
  gCmdTbl :: "'h CommandTable_t list option"

type_synonym ('h, 's) handlers = "'h \<Rightarrow> cstr \<Rightarrow> 's \<Rightarrow> CommandResults_t \<times> 's \<times> cstr"

definition CmdParserInit :: "'h CommandTable_t list option \<Rightarrow> bool \<Rightarrow> 'h parser \<Rightarrow> 'h parser" where
  "CmdParserInit CmdTbl Function ps = ps\<lparr>gPrintf := Function, gCmdTbl := CmdTbl\<rparr>"

definition usage_text :: "'h CommandTable_t \<Rightarrow> cstr res" where
  "usage_text c = (case (if Usage c \<noteq> None then Usage c else HelpString c) of
      None \<Rightarrow> Inl NullPtr
    | Some u \<Rightarrow> Inr (bytes ''Usage:'' @ [10] @ bytes ''  '' @ u @ [10]))"

definition ParseCmd ::
  "('h, 's) handlers \<Rightarrow> 'h parser \<Rightarrow> cstr \<Rightarrow> 's \<Rightarrow> (CommandResults_t \<times> 's \<times> cstr) res" where
  "ParseCmd call ps CmdLine st =
     (case (gPrintf ps, gCmdTbl ps) of
        (True, Some tbl) \<Rightarrow>
          (let cp = SkipSpaces CmdLine in
           rbind (FindCmd tbl cp False) (\<lambda>(found, out1).
             case found of
               None \<Rightarrow> Inr (RESULT_OK, st, out1)
             | Some pCurrentCmd \<Rightarrow>
                 (case CmdHandler pCurrentCmd of
                    None \<Rightarrow> Inl NullPtr
                  | Some h \<Rightarrow>
                      (case call h (SkipSpaces (Skip2Space cp)) st of (Ret, st', out2) \<Rightarrow>
                         if Ret = RESULT_USAGE
                         then rbind (usage_text pCurrentCmd) (\<lambda>u. Inr (Ret, st', out1 @ out2 @ u))
                         else if Ret = RESULT_NO_SUPPORT
                         then Inr (Ret, st', out1 @ out2 @ bytes ''Error - Request not supported yet'' @ [10])
                         else if Ret = RESULT_BAD_ARG
                         then rbind (usage_text pCurrentCmd) (\<lambda>u.
                           Inr (Ret, st', out1 @ out2 @ bytes ''Error - Invalid argument(s)'' @ [10] @ u))
                         else Inr (Ret, st', out1 @ out2)))))
      | _ \<Rightarrow> Inr (RESULT_NO_INIT, st, []))"

fun help_loop :: "'h CommandTable_t list \<Rightarrow> cstr res" where
  "help_loop [] = Inl OutOfBounds"
| "help_loop (p # ps) =
     (case CmdString p of
        None \<Rightarrow> Inr []
      | Some name \<Rightarrow>
          rbind (help_loop ps) (\<lambda>rest. Inr (
            (case HelpString p of
               None \<Rightarrow> []
             | Some h \<Rightarrow> bytes ''  '' @ name @ bytes '' - '' @ h @ [10]) @ rest)))"

definition HelpCmd :: "'h parser \<Rightarrow> (CommandResults_t \<times> cstr) res" where
  "HelpCmd ps =
     (case (gPrintf ps, gCmdTbl ps) of
        (True, Some tbl) \<Rightarrow> rbind (help_loop tbl) (\<lambda>out. Inr (RESULT_OK, bytes ''Commands:'' @ [10] @ out))
      | _ \<Rightarrow> Inr (RESULT_NO_INIT, []))"

section \<open>Numbers\<close>

text \<open>
  The scan of \<open>ConvertValue\<close> over one argument: \<open>None\<close> is a character that is not a digit,
  \<open>Some\<close> the string after the argument and one space.
\<close>

fun scan_digits :: "bool \<Rightarrow> cstr \<Rightarrow> cstr option" where
  "scan_digits bIsHex [] = Some []"
| "scan_digits bIsHex (c # cs) =
     (if c = 0 then Some (c # cs)
      else if isspace c then Some cs
      else if (bIsHex \<and> \<not> isxdigit c) \<or> (\<not> bIsHex \<and> \<not> isdigit_c c) then None
      else scan_digits bIsHex cs)"

text \<open>
  \<open>ConvertValue\<close>: the return code, and the new \<open>*Arg\<close> and \<open>*Value\<close>. \<open>atoi\<close> and \<open>atoi_hex\<close>
  belong to the C library of the firmware.
\<close>

definition ConvertValue ::
  "(cstr \<Rightarrow> u32) \<Rightarrow> (cstr \<Rightarrow> u32) \<Rightarrow> cstr \<Rightarrow> u32 \<Rightarrow> int \<times> cstr \<times> u32" where
  "ConvertValue atoi atoi_hex Arg Value =
     (let cp = SkipSpaces Arg in
      if deref cp = 0 then (1, Arg, Value)
      else
        let bIsHex = (deref cp = 48 \<and> deref (tl cp) = 120);
            cp' = (if bIsHex then tl (tl cp) else cp)
        in case scan_digits bIsHex cp' of
             None \<Rightarrow> (1, Arg, Value)
           | Some cp1 \<Rightarrow> (0, cp1, if bIsHex then atoi_hex cp' else atoi cp'))"

section \<open>What a command line matches\<close>

text \<open>The first word of a line: what is between the leading blanks and the next blank or line end.\<close>

definition first_word :: "cstr \<Rightarrow> cstr" where
  "first_word line = takeWhile (\<lambda>c. c \<notin> {0, 32, 13, 10}) (dropWhile isspace line)"

lemma SkipSpaces_dropWhile: "SkipSpaces l = dropWhile isspace l"
  by (induction l) simp_all

lemma first_word_skip:
  "first_word line = takeWhile (\<lambda>c. c \<noteq> 0 \<and> c \<noteq> 32 \<and> c \<noteq> 13 \<and> c \<noteq> 10) (SkipSpaces line)"
  by (simp add: first_word_def SkipSpaces_dropWhile)

lemma tolower_zero [simp]: "tolower c = 0 \<longleftrightarrow> c = 0"
proof
  assume z: "tolower c = 0"
  show "c = 0"
  proof (cases "65 \<le> c \<and> c \<le> 90")
    case True
    with z have "c + 32 = 0" by (simp add: tolower_def)
    then have "c = - 32" by (simp add: eq_neg_iff_add_eq_0)
    with True show ?thesis by simp
  next
    case False
    with z show ?thesis by (simp add: tolower_def split: if_splits)
  qed
qed (simp add: tolower_def)

lemma tolower_0 [simp]: "tolower 0 = 0"
  by (simp add: tolower_def)

lemma match_loop_prefix:
  "0 \<notin> set Command \<Longrightarrow>
   match_loop l Command =
     (let w = takeWhile (\<lambda>c. c \<noteq> 0 \<and> c \<noteq> 32 \<and> c \<noteq> 13 \<and> c \<noteq> 10) l in
      if prefix (map tolower w) (map tolower Command) then Some (drop (length w) Command) else None)"
proof (induction l Command rule: match_loop.induct)
  case (1 Command)
  then show ?case by simp
next
  case (2 c cs Command)
  show ?case
  proof (cases Command)
    case Nil
    then show ?thesis by (auto simp: deref_def)
  next
    case (Cons d ds)
    with 2 show ?thesis by (auto simp: deref_def Let_def)
  qed
qed

lemma SkipSpaces_head: "SkipSpaces l = c # cs \<Longrightarrow> \<not> isspace c"
  by (induction l) (auto split: if_splits)

lemma deref_zero: "0 \<notin> set s \<Longrightarrow> deref s = 0 \<longleftrightarrow> s = []"
  by (cases s) (auto simp: deref_def)

lemma set_SkipSpaces: "set (SkipSpaces l) \<subseteq> set l"
  by (induction l) auto

lemma first_word_nonempty:
  assumes "0 \<notin> set line"
  shows "first_word line = [] \<longleftrightarrow> SkipSpaces line = []"
proof (cases "SkipSpaces line")
  case (Cons c cs)
  have "\<not> isspace c" using Cons by (rule SkipSpaces_head)
  moreover have "c \<noteq> 0" using assms Cons set_SkipSpaces [of line] by auto
  moreover have "isspace 13" "isspace 10" "isspace 32" by (simp_all add: isspace_def)
  ultimately have "c \<noteq> 0 \<and> c \<noteq> 32 \<and> c \<noteq> 13 \<and> c \<noteq> 10" by metis
  with Cons show ?thesis by (simp add: first_word_skip)
qed (simp add: first_word_skip)

lemma MatchCmd_spec:
  assumes "0 \<notin> set line" "0 \<notin> set name"
  shows "MatchCmd line name =
    (let w = map tolower (first_word line); n = map tolower name in
     if w = [] \<or> \<not> prefix w n then 0 else if w = n then 2 else 1)"
proof (cases "SkipSpaces line = []")
  case True
  with assms show ?thesis by (simp add: MatchCmd_def first_word_skip deref_def)
next
  case False
  have z: "deref (SkipSpaces line) \<noteq> 0"
    using False assms(1) set_SkipSpaces [of line] deref_zero [of "SkipSpaces line"] by auto
  have ne: "first_word line \<noteq> []" using False first_word_nonempty [OF assms(1)] by simp
  let ?w = "first_word line"
  have m: "match_loop (SkipSpaces line) name =
      (if prefix (map tolower ?w) (map tolower name) then Some (drop (length ?w) name) else None)"
    using match_loop_prefix [OF assms(2)] by (simp add: first_word_skip Let_def)
  have r: "deref (drop (length ?w) name) = 0 \<longleftrightarrow> length name \<le> length ?w"
    using assms(2) deref_zero [of "drop (length ?w) name"] by (auto dest: in_set_dropD)
  have e: "length name \<le> length ?w \<longleftrightarrow> map tolower ?w = map tolower name"
    if "prefix (map tolower ?w) (map tolower name)"
    using that prefix_length_le [OF that] by (metis dual_order.refl length_map not_equal_is_parallel parallel_def prefix_order.dual_order.eq_iff prefix_length_prefix)
  show ?thesis using z ne m r e by (simp add: MatchCmd_def Let_def)
qed

text \<open>
  A command matches a table entry exactly when the first word of the line is,
  without regard to case, a beginning of the entry's name, and matches it exactly when it is
  the whole name; a blank line matches nothing.
\<close>

theorem MatchCmd_prefix:
  assumes "0 \<notin> set line" and "0 \<notin> set name"
  shows "MatchCmd line name =
    (let w = map tolower (first_word line); n = map tolower name in
     if w = [] \<or> \<not> prefix w n then 0 else if w = n then 2 else 1)"
  using assms by (rule MatchCmd_spec)

theorem MatchCmd_prefix_witness:
  "(0 :: u8) \<notin> set (bytes ''  Sa x'') \<and> (0 :: u8) \<notin> set (bytes ''save'') \<and>
   MatchCmd (bytes ''  Sa x'') (bytes ''save'') = 1"
proof -
  have "(0 :: u8) \<notin> set (bytes ''  Sa x'')" "(0 :: u8) \<notin> set (bytes ''save'')"
    by (simp_all add: bytes_def)
  from MatchCmd_prefix [OF this] this show ?thesis
    by (simp add: bytes_def first_word_skip isspace_def tolower_def)
qed

section \<open>Which command a line selects\<close>

definition entry :: "'h CommandTable_t \<Rightarrow> bool" where
  "entry e \<longleftrightarrow> CmdHandler e \<noteq> None \<and> CmdString e \<noteq> None"

definition matches :: "cstr \<Rightarrow> 'h CommandTable_t \<Rightarrow> nat" where
  "matches line e = MatchCmd line (the (CmdString e))"

text \<open>The first exact match, or else the only match.\<close>

definition selected :: "cstr \<Rightarrow> 'h CommandTable_t list \<Rightarrow> 'h CommandTable_t option" where
  "selected line es =
     (case filter (\<lambda>e. matches line e = 2) es of
        e # _ \<Rightarrow> Some e
      | [] \<Rightarrow> (case filter (\<lambda>e. matches line e \<noteq> 0) es of [e] \<Rightarrow> Some e | _ \<Rightarrow> None))"

lemma find_loop_no_exact:
  "\<forall>e \<in> set es. entry e \<Longrightarrow> CmdHandler stop = None \<Longrightarrow> \<forall>e \<in> set es. matches line e \<noteq> 2 \<Longrightarrow>
   find_loop line (es @ stop # beyond) n r =
     Inr (n + length (filter (\<lambda>e. matches line e \<noteq> 0) es),
          if filter (\<lambda>e. matches line e \<noteq> 0) es = [] then r
          else Some (last (filter (\<lambda>e. matches line e \<noteq> 0) es)))"
  by (induction es arbitrary: n r) (auto simp: entry_def matches_def Let_def)

lemma find_loop_exact:
  "\<forall>e \<in> set es. entry e \<Longrightarrow> \<exists>e \<in> set es. matches line e = 2 \<Longrightarrow>
   find_loop line (es @ stop # beyond) n r = Inr (1, Some (hd (filter (\<lambda>e. matches line e = 2) es)))"
proof (induction es arbitrary: n r)
  case (Cons e es)
  then have e: "CmdHandler e \<noteq> None" "CmdString e \<noteq> None" by (simp_all add: entry_def)
  then obtain name h where name: "CmdString e = Some name" and h: "CmdHandler e = Some h" by auto
  then have m: "matches line e = MatchCmd line name" by (simp add: matches_def)
  show ?case
  proof (cases "matches line e = 2")
    case True
    with h name m show ?thesis by simp
  next
    case False
    with Cons.prems have "\<exists>e \<in> set es. matches line e = 2" by auto
    with Cons.IH Cons.prems False h name m show ?thesis by (simp add: Let_def)
  qed
qed simp

definition lookup_error :: "bool \<Rightarrow> bool \<Rightarrow> cstr" where
  "lookup_error bSilent found =
     (if bSilent then [] else if found then bytes ''Error: Command is ambiguous.'' @ [10]
      else bytes ''Error: Unknown command.'' @ [10])"

lemma FindCmd_spec:
  assumes es: "\<forall>e \<in> set es. entry e" and stop: "CmdHandler stop = None"
    and line: "deref (SkipSpaces line) \<noteq> 0"
  shows "FindCmd (es @ stop # beyond) line bSilent =
    Inr (selected line es,
      if selected line es = None then lookup_error bSilent (\<exists>e \<in> set es. matches line e \<noteq> 0) else [])"
proof (cases "\<exists>e \<in> set es. matches line e = 2")
  case True
  have "filter (\<lambda>e. matches line e = 2) es \<noteq> []" using True by (simp add: filter_empty_conv)
  then obtain x xs where "filter (\<lambda>e. matches line e = 2) es = x # xs" by (cases "filter (\<lambda>e. matches line e = 2) es") auto
  with find_loop_exact [OF es True] line show ?thesis by (simp add: FindCmd_def selected_def)
next
  case False
  then have n2: "\<forall>e \<in> set es. matches line e \<noteq> 2" by simp
  then have f: "filter (\<lambda>e. matches line e = 2) es = []" by (simp add: filter_empty_conv)
  define m where "m = filter (\<lambda>e. matches line e \<noteq> 0) es"
  have l: "find_loop line (es @ stop # beyond) 0 None =
      Inr (length m, if m = [] then None else Some (last m))"
    using find_loop_no_exact [OF es stop n2, of beyond 0 None] by (simp add: m_def)
  have x: "(\<exists>e \<in> set es. matches line e \<noteq> 0) \<longleftrightarrow> m \<noteq> []" by (auto simp: m_def filter_empty_conv)
  have s: "selected line es = (case m of [e] \<Rightarrow> Some e | _ \<Rightarrow> None)" by (simp add: selected_def f m_def)
  show ?thesis
    using line l unfolding x s by (cases m; cases "tl m") (auto simp: FindCmd_def lookup_error_def)
qed

text \<open>
  What a first word \<open>w\<close>, in lower case, names in a table: the first entry of that name, or else
  the only entry whose name begins with it.
\<close>

definition entry_name :: "'h CommandTable_t \<Rightarrow> cstr" where
  "entry_name e = map tolower (the (CmdString e))"

definition named :: "cstr \<Rightarrow> 'h CommandTable_t list \<Rightarrow> 'h CommandTable_t option" where
  "named w es =
     (case filter (\<lambda>e. entry_name e = w) es of
        e # _ \<Rightarrow> Some e
      | [] \<Rightarrow> (case filter (\<lambda>e. prefix w (entry_name e)) es of [e] \<Rightarrow> Some e | _ \<Rightarrow> None))"

lemma matches_named:
  assumes "0 \<notin> set line" and "first_word line \<noteq> []" and "0 \<notin> set (the (CmdString e))"
  shows "matches line e = 2 \<longleftrightarrow> entry_name e = map tolower (first_word line)"
    and "matches line e \<noteq> 0 \<longleftrightarrow> prefix (map tolower (first_word line)) (entry_name e)"
  using MatchCmd_spec [OF assms(1,3)] assms(2) by (auto simp: matches_def entry_name_def Let_def)

lemma selected_named:
  assumes "0 \<notin> set line" and "first_word line \<noteq> []" and "\<forall>e \<in> set es. 0 \<notin> set (the (CmdString e))"
  shows "selected line es = named (map tolower (first_word line)) es"
proof -
  have "filter (\<lambda>e. matches line e = 2) es = filter (\<lambda>e. entry_name e = map tolower (first_word line)) es"
    "filter (\<lambda>e. matches line e \<noteq> 0) es = filter (\<lambda>e. prefix (map tolower (first_word line)) (entry_name e)) es"
    using matches_named [OF assms(1,2)] assms(3) by (auto intro!: filter_cong)
  then show ?thesis by (simp only: selected_def named_def)
qed

text \<open>
  Claim C26. Command lookup: in a table closed by an entry without a handler, the first word of the
  line selects, without regard to case, the first entry of that name, and otherwise the only
  entry whose name it begins; when it begins several names or none, nothing is selected and the
  user is told which of the two it was. A blank line selects nothing. The search never leaves
  the table.
\<close>

theorem FindCmd_selects:
  assumes "\<forall>e \<in> set es. entry e \<and> 0 \<notin> set (the (CmdString e))" and "CmdHandler stop = None" and "0 \<notin> set line"
  shows "FindCmd (es @ stop # beyond) line bSilent =
    Inr (let w = map tolower (first_word line) in
      if w = [] then (None, [])
      else (named w es,
        if named w es = None then lookup_error bSilent (\<exists>e \<in> set es. prefix w (entry_name e)) else []))"
proof (cases "first_word line = []")
  case True
  then have "SkipSpaces line = []" using first_word_nonempty [OF assms(3)] by simp
  then show ?thesis using True by (simp add: FindCmd_def deref_def)
next
  case False
  then have "SkipSpaces line \<noteq> []" using first_word_nonempty [OF assms(3)] by simp
  then have d: "deref (SkipSpaces line) \<noteq> 0"
    using assms(3) set_SkipSpaces [of line] deref_zero [of "SkipSpaces line"] by auto
  have x: "(\<exists>e \<in> set es. matches line e \<noteq> 0) \<longleftrightarrow> (\<exists>e \<in> set es. prefix (map tolower (first_word line)) (entry_name e))"
    using matches_named(2) [OF assms(3) False] assms(1) by auto
  show ?thesis
    using FindCmd_spec [OF _ assms(2) d, of es beyond bSilent] assms(1) selected_named [OF assms(3) False, of es] False
    unfolding x by (simp add: Let_def)
qed

definition entry_named :: "string \<Rightarrow> 'h \<Rightarrow> 'h CommandTable_t" where
  "entry_named name h = \<lparr>CmdString = Some (bytes name), HelpString = None, Usage = None, CmdHandler = Some h\<rparr>"

definition table_end :: "'h CommandTable_t" where
  "table_end = \<lparr>CmdString = None, HelpString = None, Usage = None, CmdHandler = None\<rparr>"

theorem FindCmd_selects_witness:
  "FindCmd ([entry_named ''dump'' (1 :: nat), entry_named ''erase'' 2] @ [table_end]) (bytes '' Er 0 1'') False =
     Inr (Some (entry_named ''erase'' 2), []) \<and>
   FindCmd ([entry_named ''dump'' (1 :: nat), entry_named ''erase'' 2] @ [table_end]) (bytes ''go'') False =
     Inr (None, bytes ''Error: Unknown command.'' @ [10])"
proof -
  let ?es = "[entry_named ''dump'' (1 :: nat), entry_named ''erase'' 2]"
  have 1: "\<forall>e \<in> set ?es. entry e \<and> 0 \<notin> set (the (CmdString e))"
    by (simp add: entry_def entry_named_def bytes_def)
  have 2: "CmdHandler (table_end :: nat CommandTable_t) = None" by (simp add: table_end_def)
  have 3: "(0 :: u8) \<notin> set (bytes '' Er 0 1'')" "(0 :: u8) \<notin> set (bytes ''go'')" by (simp_all add: bytes_def)
  have w: "map tolower (first_word (bytes '' Er 0 1'')) = [101, 114]" "map tolower (first_word (bytes ''go'')) = [103, 111]"
    by (simp_all add: first_word_def bytes_def isspace_def tolower_def)
  have n: "map entry_name ?es = [[100, 117, 109, 112], [101, 114, 97, 115, 101]]"
    by (simp add: entry_name_def entry_named_def bytes_def tolower_def)
  then have "named [101, 114] ?es = Some (entry_named ''erase'' 2)" "named [103, 111] ?es = None"
    "\<not> (\<exists>e \<in> set ?es. prefix [103, 111] (entry_name e))"
    by (simp_all add: named_def)
  with FindCmd_selects [OF 1 2 3(1), of "[]" False] FindCmd_selects [OF 1 2 3(2), of "[]" False] w show ?thesis
    by (simp add: Let_def lookup_error_def)
qed

section \<open>The shell's command table\<close>

text \<open>The handlers that \<open>gCmdTable\<close> of \<open>main.c\<close> names.\<close>

datatype shell_handler =
    ExitCmd | AutoEraseCmd | DumpCmd | EraseCmd | FlashCmd | MapCmd | InfoCmd | RebootCmd
  | SaveCmd | TftpCmd | VerifyCmd | GPIOStatusCmd | GPIOSetCmd | GPIOClearCmd | GPIODirCmd
  | AXIWriteCmd | AXIReadCmd | I2CStatusCmd | I2CWriteCmd | I2CReadCmd | CommitCmd
  | ShowConfigCmd | HelpCmd_h

definition cmd :: "string \<Rightarrow> string \<Rightarrow> shell_handler \<Rightarrow> shell_handler CommandTable_t" where
  "cmd name help h = \<lparr>CmdString = Some (bytes name), HelpString = Some (bytes help), Usage = None,
     CmdHandler = Some h\<rparr>"

definition shell_commands :: "shell_handler CommandTable_t list" where
  "shell_commands = [
     cmd ''exit     '' ''Disconnect'' ExitCmd,
     cmd ''autoerase'' ''[ on | off]'' AutoEraseCmd,
     cmd ''dump     '' ''<flash adr> <length>'' DumpCmd,
     cmd ''erase    '' ''<start adr> <end adr>'' EraseCmd,
     cmd ''flash    '' ''<filename> <flash adr>'' FlashCmd,
     cmd ''map      '' ''Display blank regions in flash'' MapCmd,
     cmd ''info     '' ''Board info'' InfoCmd,
     cmd ''reboot   '' ''<flash adr>'' RebootCmd,
     cmd ''save     '' ''<filename> <flash adr> <length>'' SaveCmd,
     cmd ''tftp     '' ''<IP adr of tftp server>'' TftpCmd,
     cmd ''verify   '' ''<filename> <flash adr>'' VerifyCmd,
     cmd ''gpio     '' ''Display GPIO Register'' GPIOStatusCmd,
     cmd ''gset     '' ''<bitmask>'' GPIOSetCmd,
     cmd ''gclr     '' ''<bitmask>'' GPIOClearCmd,
     cmd ''gdir     '' ''<bitmask>'' GPIODirCmd,
     cmd ''awrite   '' ''<addr> <data>'' AXIWriteCmd,
     cmd ''aread    '' ''<addr>'' AXIReadCmd,
     cmd ''i2cstatus'' ''<bus>'' I2CStatusCmd,
     cmd ''i2cwrite '' ''<bus> <dev> <addr> <data>'' I2CWriteCmd,
     cmd ''i2cread  '' ''<bus> <dev> <addr>'' I2CReadCmd,
     cmd ''commit   '' ''Save Defaults'' CommitCmd,
     cmd ''showcfg  '' ''Show Defaults'' ShowConfigCmd,
     \<lparr>CmdString = Some (bytes ''?''), HelpString = None, Usage = None, CmdHandler = Some HelpCmd_h\<rparr>,
     \<lparr>CmdString = Some (bytes ''help''), HelpString = None, Usage = None, CmdHandler = Some HelpCmd_h\<rparr>]"

definition gCmdTable :: "shell_handler CommandTable_t list" where
  "gCmdTable = shell_commands @ [table_end]"

text \<open>The name a user types: the table pads its names with blanks.\<close>

definition typed_name :: "shell_handler CommandTable_t \<Rightarrow> cstr" where
  "typed_name e = takeWhile (\<lambda>c. c \<noteq> 32) (the (CmdString e))"

definition shell_names :: "cstr list" where
  "shell_names = map (\<lambda>e. the (CmdString e)) shell_commands"

text \<open>No name of the table, without its padding, begins another one.\<close>

lemma shell_names_prefix_free:
  "n \<in> set shell_names \<Longrightarrow> n' \<in> set shell_names \<Longrightarrow>
   prefix (takeWhile (\<lambda>c. c \<noteq> 32) n) n' \<longleftrightarrow> n = n'"
proof -
  have "list_all (\<lambda>n. list_all (\<lambda>n'. prefix (takeWhile (\<lambda>c. c \<noteq> 32) n) n' \<longleftrightarrow> n = n') shell_names) shell_names"
    by code_simp
  then show "n \<in> set shell_names \<Longrightarrow> n' \<in> set shell_names \<Longrightarrow>
      prefix (takeWhile (\<lambda>c. c \<noteq> 32) n) n' \<longleftrightarrow> n = n'"
    by (simp add: list_all_iff)
qed

lemma shell_names_plain:
  "\<forall>n \<in> set shell_names. map tolower n = n \<and> n \<noteq> [] \<and> (\<forall>c \<in> set n. c \<noteq> 0 \<and> c \<noteq> 13 \<and> c \<noteq> 10) \<and> \<not> isspace (hd n)"
  "distinct shell_names"
proof -
  have "list_all (\<lambda>n. map tolower n = n \<and> n \<noteq> [] \<and> list_all (\<lambda>c. c \<noteq> 0 \<and> c \<noteq> 13 \<and> c \<noteq> 10) n \<and>
      \<not> isspace (hd n)) shell_names"
    by code_simp
  then show "\<forall>n \<in> set shell_names. map tolower n = n \<and> n \<noteq> [] \<and> (\<forall>c \<in> set n. c \<noteq> 0 \<and> c \<noteq> 13 \<and> c \<noteq> 10) \<and>
      \<not> isspace (hd n)"
    by (simp add: list_all_iff)
  show "distinct shell_names"
    by code_simp
qed

lemma SkipSpaces_blanks: "SkipSpaces (replicate n 32 @ l) = SkipSpaces l"
  by (induction n) (simp_all add: isspace_def)

lemma selected_blanks: "selected (replicate n 32 @ l) es = selected l es"
proof -
  have "matches (replicate n 32 @ l) = (matches l :: 'a CommandTable_t \<Rightarrow> nat)"
    by (rule ext) (simp add: matches_def MatchCmd_def SkipSpaces_blanks)
  then show ?thesis by (simp only: selected_def)
qed

lemma selected_unique: "filter (\<lambda>e. matches line e \<noteq> 0) es = [e] \<Longrightarrow> selected line es = Some e"
proof -
  assume u: "filter (\<lambda>e. matches line e \<noteq> 0) es = [e]"
  have "filter (\<lambda>e. matches line e = 2) es = filter (\<lambda>e. matches line e = 2) (filter (\<lambda>e. matches line e \<noteq> 0) es)"
    unfolding filter_filter by (rule filter_cong) auto
  then have x: "filter (\<lambda>e. matches line e = 2) es = filter (\<lambda>e. matches line e = 2) [e]" by (simp only: u)
  show ?thesis unfolding selected_def x u by (cases "matches line e = 2") simp_all
qed

lemma filter_key: "distinct (map f es) \<Longrightarrow> e \<in> set es \<Longrightarrow> filter (\<lambda>x. f x = f e) es = [e]"
  by (induction es) (auto simp: filter_empty_conv, metis imageI)

lemma typed_resolves:
  assumes "e \<in> set shell_commands"
  shows "deref (SkipSpaces (typed_name e)) \<noteq> 0" and "selected (typed_name e) shell_commands = Some e"
proof -
  let ?n = "\<lambda>e. the (CmdString e)"
  have n: "?n e \<in> set shell_names" using assms by (simp add: shell_names_def)
  note plain = bspec [OF shell_names_plain(1) n]
  obtain c cs where "?n e = c # cs"
    using plain by (meson neq_Nil_conv)
  moreover from this plain have "c \<noteq> 0" "\<not> isspace c"
    by (metis list.set_intros(1), metis list.sel(1))
  ultimately have c: "?n e = c # cs" "c \<noteq> 0" "\<not> isspace c"
    by blast+
  have "isspace 32" by (simp add: isspace_def)
  with c have t: "typed_name e = c # takeWhile (\<lambda>c. c \<noteq> 32) cs"
    by (auto simp: typed_name_def)
  then have s: "SkipSpaces (typed_name e) = typed_name e" using c(3) by simp
  then show "deref (SkipSpaces (typed_name e)) \<noteq> 0" using t c(2) by (simp add: deref_def)
  have z: "\<forall>c \<in> set (typed_name e). c \<noteq> 0 \<and> c \<noteq> 32 \<and> c \<noteq> 13 \<and> c \<noteq> 10"
    using shell_names_plain(1) n unfolding typed_name_def by (auto dest: set_takeWhileD)
  then have w: "first_word (typed_name e) = typed_name e"
    by (simp add: first_word_skip s)
  have lw: "map tolower (typed_name e) = typed_name e"
  proof -
    have "map tolower (?n e) = map (\<lambda>c. c) (?n e)" using shell_names_plain(1) n by simp
    then have "\<forall>c \<in> set (?n e). tolower c = c" unfolding map_eq_conv .
    then show ?thesis by (intro map_idI) (auto simp: typed_name_def dest: set_takeWhileD)
  qed
  have "matches (typed_name e) e' \<noteq> 0 \<longleftrightarrow> ?n e' = ?n e" if "e' \<in> set shell_commands" for e'
  proof -
    have n': "?n e' \<in> set shell_names" using that by (simp add: shell_names_def)
    have "0 \<notin> set (typed_name e)" "0 \<notin> set (?n e')" using z shell_names_plain(1) n' by auto
    from MatchCmd_spec [OF this] w lw t have
      "matches (typed_name e) e' \<noteq> 0 \<longleftrightarrow> prefix (typed_name e) (map tolower (?n e'))"
      by (simp add: matches_def Let_def)
    moreover have "map tolower (?n e') = ?n e'" using shell_names_plain(1) n' by blast
    ultimately show ?thesis using shell_names_prefix_free [OF n n'] by (auto simp: typed_name_def)
  qed
  then have "filter (\<lambda>e'. matches (typed_name e) e' \<noteq> 0) shell_commands =
      filter (\<lambda>e'. ?n e' = ?n e) shell_commands"
    by (rule filter_cong [OF refl])
  also have "\<dots> = [e]"
    using shell_names_plain(2) assms unfolding shell_names_def by (rule filter_key)
  finally show "selected (typed_name e) shell_commands = Some e" by (rule selected_unique)
qed

text \<open>
  Every command of the shell can be called by its name: for each entry of the
  table, typing the name without its padding (and any number of blanks before it) selects that
  entry, although no padded name is ever an exact match.
\<close>

theorem shell_command_names:
  assumes "e \<in> set shell_commands"
  shows "FindCmd gCmdTable (replicate n 32 @ typed_name e) True = Inr (Some e, [])"
proof -
  have r: "deref (SkipSpaces (replicate n 32 @ typed_name e)) \<noteq> 0"
    "selected (replicate n 32 @ typed_name e) shell_commands = Some e"
    using typed_resolves [OF assms] by (simp_all add: SkipSpaces_blanks selected_blanks)
  have "\<forall>e \<in> set shell_commands. entry e" by (simp add: shell_commands_def entry_def cmd_def)
  from FindCmd_spec [OF this _ r(1), of table_end "[]"] r(2) show ?thesis
    by (simp add: gCmdTable_def table_end_def)
qed

theorem shell_command_names_witness:
  "cmd ''save     '' ''<filename> <flash adr> <length>'' SaveCmd \<in> set shell_commands \<and>
   FindCmd gCmdTable (bytes '' save'') True =
     Inr (Some (cmd ''save     '' ''<filename> <flash adr> <length>'' SaveCmd), [])"
proof -
  have m: "cmd ''save     '' ''<filename> <flash adr> <length>'' SaveCmd \<in> set shell_commands"
    by (simp add: shell_commands_def)
  have "replicate 1 32 @ typed_name (cmd ''save     '' ''<filename> <flash adr> <length>'' SaveCmd) = bytes '' save''"
    by (simp add: typed_name_def cmd_def bytes_def)
  with shell_command_names [OF m, of 1] m show ?thesis by simp
qed

section \<open>Reading a number\<close>

lemma scan_digits_ok:
  "\<forall>c \<in> set ds. (if bIsHex then isxdigit c else isdigit_c c) \<Longrightarrow>
   tail = [] \<or> isspace (hd tail) \<Longrightarrow> 0 \<notin> set tail \<Longrightarrow>
   scan_digits bIsHex (ds @ tail) = Some (tl tail)"
proof (induction ds)
  case Nil
  then show ?case by (cases tail) auto
next
  case (Cons d ds)
  have x: "\<not> isspace c \<and> c \<noteq> 0" if "isxdigit c" for c
    using that by (auto simp: isxdigit_def isdigit_c_def isspace_def word_le_nat_alt)
  have "isxdigit d" using Cons.prems(1) by (auto simp: isxdigit_def split: if_splits)
  with x Cons show ?case by (auto split: if_splits)
qed

lemma scan_digits_bad:
  "\<forall>c \<in> set ds. (if bIsHex then isxdigit c else isdigit_c c) \<Longrightarrow>
   b \<noteq> 0 \<Longrightarrow> \<not> isspace b \<Longrightarrow> \<not> (if bIsHex then isxdigit b else isdigit_c b) \<Longrightarrow>
   scan_digits bIsHex (ds @ b # tail) = None"
proof (induction ds)
  case (Cons d ds)
  have x: "\<not> isspace c \<and> c \<noteq> 0" if "isxdigit c" for c
    using that by (auto simp: isxdigit_def isdigit_c_def isspace_def word_le_nat_alt)
  have "isxdigit d" using Cons.prems(1) by (auto simp: isxdigit_def split: if_splits)
  with x Cons show ?case by (auto split: if_splits)
qed (cases bIsHex; auto)

lemma ConvertValue_dec:
  "SkipSpaces Arg = cp \<Longrightarrow> deref cp \<noteq> 0 \<Longrightarrow> \<not> (deref cp = 48 \<and> deref (tl cp) = 120) \<Longrightarrow>
   ConvertValue atoi atoi_hex Arg v =
     (case scan_digits False cp of None \<Rightarrow> (1, Arg, v) | Some r \<Rightarrow> (0, r, atoi cp))"
  by (cases "deref cp = 48") (auto simp: ConvertValue_def Let_def)

text \<open>What \<open>atoi\<close> of the C library promises for a decimal number that fits its type.\<close>

definition dec_value :: "cstr \<Rightarrow> nat" where
  "dec_value ds = foldl (\<lambda>n c. 10 * n + (unat c - 48)) 0 ds"

definition reads_decimal :: "(cstr \<Rightarrow> u32) \<Rightarrow> bool" where
  "reads_decimal atoi \<longleftrightarrow> (\<forall>ds tail. ds \<noteq> [] \<longrightarrow> (\<forall>c \<in> set ds. isdigit_c c) \<longrightarrow>
     (tail = [] \<or> \<not> isdigit_c (hd tail)) \<longrightarrow> dec_value ds < 2 ^ 31 \<longrightarrow>
     atoi (ds @ tail) = of_nat (dec_value ds))"

text \<open>
  \<open>ConvertValue\<close> takes one decimal argument off the line: it skips leading blanks,
  yields the number the digits denote and leaves the line after the argument and one blank;
  when a character that is neither a digit nor a blank follows the digits it fails and changes
  neither the line nor the value.
\<close>

theorem ConvertValue_decimal:
  assumes "reads_decimal atoi" and "ds \<noteq> []" and "\<forall>c \<in> set ds. isdigit_c c" and "dec_value ds < 2 ^ 31"
    and "0 \<notin> set tail"
  shows "(if tail = [] \<or> isspace (hd tail)
      then ConvertValue atoi atoi_hex (replicate k 32 @ ds @ tail) v = (0, tl tail, of_nat (dec_value ds))
      else \<not> isdigit_c (hd tail) \<and> \<not> (ds = [48] \<and> hd tail = 120) \<longrightarrow>
        ConvertValue atoi atoi_hex (replicate k 32 @ ds @ tail) v = (1, replicate k 32 @ ds @ tail, v))"
proof -
  obtain d ds' where ds: "ds = d # ds'" using assms(2) by (cases ds) auto
  have dd: "isdigit_c d" "\<not> isspace d" "d \<noteq> 0" using assms(3) ds
    by (auto simp: isdigit_c_def isspace_def word_le_nat_alt)
  then have s: "SkipSpaces (replicate k 32 @ ds @ tail) = ds @ tail"
    by (simp add: SkipSpaces_blanks ds)
  have nx: "\<not> isdigit_c 120" "\<not> isspace 120" by (simp_all add: isdigit_c_def isspace_def)
  have hex: "(deref (ds @ tail) = 48 \<and> deref (tl (ds @ tail)) = 120) \<longleftrightarrow> (ds = [48] \<and> tail \<noteq> [] \<and> hd tail = 120)"
    using assms(3) ds nx by (cases ds'; cases tail) (auto simp: deref_def)
  have z: "deref (ds @ tail) \<noteq> 0" using dd ds by (simp add: deref_def)
  show ?thesis
  proof (cases "tail = [] \<or> isspace (hd tail)")
    case True
    then have nh: "\<not> (deref (ds @ tail) = 48 \<and> deref (tl (ds @ tail)) = 120)" using hex nx by auto
    have sc: "scan_digits False (ds @ tail) = Some (tl tail)"
      using scan_digits_ok [of ds False tail] assms(3,5) True by simp
    have "tail = [] \<or> \<not> isdigit_c (hd tail)"
      using True by (auto simp: isspace_def isdigit_c_def word_le_nat_alt)
    then have v: "atoi (ds @ tail) = of_nat (dec_value ds)"
      using assms(1-4) by (auto simp: reads_decimal_def)
    show ?thesis using True by (simp add: ConvertValue_dec [OF s z nh] sc v)
  next
    case False
    then obtain b tl' where t: "tail = b # tl'" "\<not> isspace b" by (cases tail) auto
    show ?thesis
    proof (cases "\<not> isdigit_c b \<and> \<not> (ds = [48] \<and> b = 120)")
      case True
      then have nh: "\<not> (deref (ds @ tail) = 48 \<and> deref (tl (ds @ tail)) = 120)" using hex t by auto
      have "scan_digits False (ds @ tail) = None"
        using scan_digits_bad [of ds False b tl'] assms(3,5) t True by auto
      then show ?thesis using False by (simp add: ConvertValue_dec [OF s z nh])
    next
      case nb: False
      then show ?thesis using False t by auto
    qed
  qed
qed

definition std_atoi :: "cstr \<Rightarrow> u32" where
  "std_atoi s = of_nat (dec_value (takeWhile isdigit_c s))"

lemma std_atoi_reads: "reads_decimal std_atoi"
proof -
  have "takeWhile isdigit_c (ds @ tail) = ds"
    if "\<forall>c \<in> set ds. isdigit_c c" "tail = [] \<or> \<not> isdigit_c (hd tail)" for ds tail
    using that by (cases tail) (auto simp: takeWhile_append)
  then show ?thesis by (simp add: reads_decimal_def std_atoi_def)
qed

theorem ConvertValue_decimal_witness:
  "reads_decimal std_atoi \<and>
   ConvertValue std_atoi std_atoi (bytes ''  512 7'') 0 = (0, bytes ''7'', 512) \<and>
   ConvertValue std_atoi std_atoi (bytes ''  51z'') 3 = (1, bytes ''  51z'', 3)"
proof -
  have d: "\<forall>c \<in> set (bytes ''512''). isdigit_c c" "bytes ''512'' \<noteq> []" "dec_value (bytes ''512'') = 512"
    "\<forall>c \<in> set (bytes ''51''). isdigit_c c" "bytes ''51'' \<noteq> []" "dec_value (bytes ''51'') = 51"
    by (simp_all add: bytes_def isdigit_c_def dec_value_def)
  have b: "replicate 2 32 @ bytes ''512'' @ bytes '' 7'' = bytes ''  512 7''"
    "replicate 2 32 @ bytes ''51'' @ bytes ''z'' = bytes ''  51z''"
    by (simp_all add: bytes_def numeral_2_eq_2)
  have t: "(0 :: u8) \<notin> set (bytes '' 7'')" "(0 :: u8) \<notin> set (bytes ''z'')"
    "bytes '' 7'' \<noteq> [] \<and> isspace (hd (bytes '' 7''))" "tl (bytes '' 7'') = bytes ''7''"
    "bytes ''z'' \<noteq> [] \<and> \<not> isspace (hd (bytes ''z'')) \<and> \<not> isdigit_c (hd (bytes ''z''))"
    "bytes ''51'' \<noteq> [48]"
    by (simp_all add: bytes_def isspace_def isdigit_c_def)
  from ConvertValue_decimal [OF std_atoi_reads d(2,1) _ t(1), of std_atoi 2 0]
    ConvertValue_decimal [OF std_atoi_reads d(5,4) _ t(2), of std_atoi 2 3]
  show ?thesis using t d std_atoi_reads unfolding b by simp
qed

text \<open>The same for a hexadecimal number, which \<open>0x\<close> introduces, and \<open>atoi_hex\<close>.\<close>

definition xdigit_value :: "u8 \<Rightarrow> nat" where
  "xdigit_value c = (if isdigit_c c then unat c - 48 else if c < 97 then unat c - 55 else unat c - 87)"

definition hex_value :: "cstr \<Rightarrow> nat" where
  "hex_value ds = foldl (\<lambda>n c. 16 * n + xdigit_value c) 0 ds"

definition reads_hex :: "(cstr \<Rightarrow> u32) \<Rightarrow> bool" where
  "reads_hex atoi_hex \<longleftrightarrow> (\<forall>ds tail. ds \<noteq> [] \<longrightarrow> (\<forall>c \<in> set ds. isxdigit c) \<longrightarrow>
     (tail = [] \<or> \<not> isxdigit (hd tail)) \<longrightarrow> hex_value ds < 2 ^ 32 \<longrightarrow>
     atoi_hex (ds @ tail) = of_nat (hex_value ds))"

definition std_atoi_hex :: "cstr \<Rightarrow> u32" where
  "std_atoi_hex s = of_nat (hex_value (takeWhile isxdigit s))"

lemma std_atoi_hex_reads: "reads_hex std_atoi_hex"
proof -
  have "takeWhile isxdigit (ds @ tail) = ds"
    if "\<forall>c \<in> set ds. isxdigit c" "tail = [] \<or> \<not> isxdigit (hd tail)" for ds tail
    using that by (cases tail) (auto simp: takeWhile_append)
  then show ?thesis by (simp add: reads_hex_def std_atoi_hex_def)
qed

text \<open>A number as it is typed, in decimal or in hexadecimal.\<close>

datatype numeral = Dec "u8 list" | Hex "u8 list"

fun typed :: "numeral \<Rightarrow> cstr" where
  "typed (Dec ds) = ds"
| "typed (Hex ds) = [48, 120] @ ds"

fun number_of :: "numeral \<Rightarrow> nat" where
  "number_of (Dec ds) = dec_value ds"
| "number_of (Hex ds) = hex_value ds"

fun digits_ok :: "numeral \<Rightarrow> bool" where
  "digits_ok (Dec ds) = (ds \<noteq> [] \<and> (\<forall>c \<in> set ds. isdigit_c c))"
| "digits_ok (Hex ds) = (ds \<noteq> [] \<and> (\<forall>c \<in> set ds. isxdigit c))"

lemma ConvertValue_typed:
  assumes "reads_decimal atoi" and "reads_hex atoi_hex" and "digits_ok x" and "number_of x < 2 ^ 31"
    and "0 \<notin> set tail" and "tail = [] \<or> isspace (hd tail)"
  shows "ConvertValue atoi atoi_hex (replicate k 32 @ typed x @ tail) v = (0, tl tail, of_nat (number_of x))"
proof (cases x)
  case (Dec ds)
  then show ?thesis
    using ConvertValue_decimal [OF assms(1) _ _ _ assms(5), of ds atoi_hex k v] assms(3,4,6) by auto
next
  case (Hex ds)
  have "tail = [] \<or> \<not> isxdigit (hd tail)"
    using assms(6) by (auto simp: isspace_def isxdigit_def isdigit_c_def word_le_nat_alt)
  then have v: "atoi_hex (ds @ tail) = of_nat (hex_value ds)"
    using assms(2,3,4) Hex by (auto simp: reads_hex_def)
  have d: "\<forall>c \<in> set ds. if True then isxdigit c else isdigit_c c" using assms(3) Hex by simp
  have "scan_digits True (ds @ tail) = Some (tl tail)" by (rule scan_digits_ok [OF d assms(6,5)])
  moreover have "SkipSpaces (replicate k 32 @ typed x @ tail) = 48 # 120 # ds @ tail"
    using Hex by (simp add: SkipSpaces_blanks isspace_def)
  ultimately show ?thesis using v Hex by (simp add: ConvertValue_def deref_def Let_def)
qed

end
