(* ===== verification/Board.thy ===== *)
theory Board
  imports Spi_Flash Cmd_Parser
begin

text \<open>
  The state the shell commands of \<open>main.c\<close> and the TFTP loader share, what they print, and the
  flash driver seen from them. \<open>flash_store\<close> is the interface between the driver and its
  clients; it is interpreted on the driver's own routines, with the device as the environment.
\<close>

section \<open>What the shell prints\<close>

text \<open>
  Printing through the network is recorded as an event: \<open>Printf\<close> is a call of \<open>NetPrintf\<close> with
  its format and arguments, \<open>Puts\<close> a call of \<open>NetPuts\<close> with its text. The output buffer behind
  them is the subject of another theory.
\<close>

datatype arg = Num u32 | Text cstr

datatype msg = Printf string "arg list" | Puts cstr

section \<open>The state of the board\<close>

datatype TransferType_t = TFTP_TYPE_RAM | TFTP_TYPE_FLASH | TFTP_TYPE_COMPARE | TFTP_TYPE_SAVE

datatype TransferResult_t =
    TFTP_OK | TFTP_ERR_BUF_TOO_SMALL | TFTP_ERR_COMPARE_FAIL | TFTP_IN_PROGRESS
  | TFTP_ERR_FAILED | TFTP_ERR_INTERNAL

text \<open>
  \<open>tftp_ldr_internal\<close>; \<open>Ram\<close> always points to \<open>gTemp\<close>, \<open>TransferType\<close> is \<open>None\<close> until it is
  first set. \<open>Filename\<close> is the string before its terminating zero, \<open>ErrMsg\<close> the whole array.
  \<open>BytesTransfered\<close> and \<open>MaxBytes\<close> are \<open>int\<close>: where the code compares them signed, so does the
  model.
\<close>

record tftp_ldr_internal =
  ServerIP :: u32
  Filename :: cstr
  ErrMsg :: cstr
  BytesTransfered :: u32
  MaxBytes :: u32
  SendLen :: u32
  TransferType :: "TransferType_t option"
  FlashAdr :: u32
  LastEraseAdr :: u32
  LastProgress :: u32
  Error :: TransferResult_t
  bAutoErase :: bool

text \<open>
  The globals the shell commands share: \<open>gChip\<close> and the SPI bus of the flash driver, the scratch
  buffer \<open>gTemp\<close>, the transfer \<open>gTftp\<close>, what the board's data sector says of the board, the
  hex dump's position on its line, the writes to the boot registers and the printed messages.
\<close>

record board =
  gChip :: "FlashInfo_t option"
  spi_tr :: "bus list"
  gTemp :: "u8 list"
  gTftp :: tftp_ldr_internal
  gBoardID :: u32
  gEtherMac :: "u8 list"
  gPanoSerial :: "u8 list"
  BytesOnLine :: nat
  gShellCon :: bool
  reboots :: "u32 list"
  out :: "msg list"

definition crlf :: string where "crlf = [CHR 0x0D, CHR 0x0A]"

definition gDefaultFlashAdr :: u32 where "gDefaultFlashAdr = 0x900000"
definition sizeof_gTemp :: u32 where "sizeof_gTemp = 1024"

definition NetPrintf :: "string \<Rightarrow> arg list \<Rightarrow> board \<Rightarrow> board" where
  "NetPrintf fmt xs s = s\<lparr>out := out s @ [Printf fmt xs]\<rparr>"

definition NetPuts :: "cstr \<Rightarrow> board \<Rightarrow> board" where
  "NetPuts t s = s\<lparr>out := out s @ [Puts t]\<rparr>"

text \<open>The flash driver on the board's state; \<open>read_temp\<close> is \<open>spi_read(Adr, gTemp, Len)\<close>.\<close>

definition read_temp :: "device \<Rightarrow> u32 \<Rightarrow> u32 \<Rightarrow> board \<Rightarrow> board res" where
  "read_temp dev Adr Len s =
     rbind (spi_read dev (gChip s) Adr Len (spi_tr s)) (\<lambda>(bs, tr).
       if length bs \<le> length (gTemp s)
       then Inr (s\<lparr>gTemp := bs @ drop (length bs) (gTemp s), spi_tr := tr\<rparr>)
       else Inl OutOfBounds)"

definition write_flash :: "device \<Rightarrow> u32 \<Rightarrow> u8 list \<Rightarrow> u32 \<Rightarrow> board \<Rightarrow> board res" where
  "write_flash dev Adr pData Len s =
     rbind (spi_write dev (gChip s) Adr pData Len (spi_tr s)) (\<lambda>(_, tr). Inr (s\<lparr>spi_tr := tr\<rparr>))"

definition erase_flash :: "device \<Rightarrow> u32 \<Rightarrow> u32 \<Rightarrow> board \<Rightarrow> board res" where
  "erase_flash dev Adr Len s =
     rbind (spi_erase dev (gChip s) Adr Len (spi_tr s)) (\<lambda>(_, tr). Inr (s\<lparr>spi_tr := tr\<rparr>))"

section \<open>The flash as the commands see it\<close>

text \<open>
  \<open>flash_ok\<close>: a chip has been detected, answers as its data sheet says and has no write cycle in progress. The environment is
  the device together with the state behind its traces; \<open>contents\<close> is the memory array.
\<close>

type_synonym env = "device \<times> (bus list \<Rightarrow> flash)"

definition flash_ok :: "env \<Rightarrow> board \<Rightarrow> bool" where
  "flash_ok e s \<longleftrightarrow> length (gTemp s) = 1024 \<and>
     (\<exists>p \<in> set gChipInfo. gChip s = Some p \<and> flash_device p (fst e) (snd e)) \<and> \<not> busy (snd e (spi_tr s))"

definition contents :: "env \<Rightarrow> board \<Rightarrow> nat \<Rightarrow> u8" where
  "contents e s = mem (snd e (spi_tr s))"

definition flash_size :: "board \<Rightarrow> nat" where
  "flash_size s = (case gChip s of None \<Rightarrow> 0 | Some p \<Rightarrow> unat (FlashSize p))"

definition sector_size :: "board \<Rightarrow> nat" where
  "sector_size s = (case gChip s of None \<Rightarrow> 0 | Some p \<Rightarrow> unat (SectorSize p))"

text \<open>
  The contract between the driver and its clients, and what clients derive from it. A read
  fills the buffer from the memory, a write clears bits when it is confined to the bytes it
  names, erasing one sector sets it; none touches anything else.
\<close>

locale flash_store =
  fixes rd :: "'e \<Rightarrow> u32 \<Rightarrow> u32 \<Rightarrow> 's \<Rightarrow> 's res"
    and wr :: "'e \<Rightarrow> u32 \<Rightarrow> u8 list \<Rightarrow> u32 \<Rightarrow> 's \<Rightarrow> 's res"
    and er :: "'e \<Rightarrow> u32 \<Rightarrow> u32 \<Rightarrow> 's \<Rightarrow> 's res"
    and ok :: "'e \<Rightarrow> 's \<Rightarrow> bool"
    and cont :: "'e \<Rightarrow> 's \<Rightarrow> nat \<Rightarrow> u8"
    and size :: "'s \<Rightarrow> nat"
    and sector :: "'s \<Rightarrow> nat"
    and buf :: "'s \<Rightarrow> u8 list"
  assumes geometry: "ok e s \<Longrightarrow> 0 < sector s \<and> sector s \<le> size s \<and> size s \<le> 2 ^ 24 \<and> size s mod sector s = 0"
    and rd_law: "ok e s \<Longrightarrow> unat a + unat n \<le> size s \<Longrightarrow> unat n \<le> length (buf s) \<Longrightarrow>
      \<exists>s'. rd e a n s = Inr s' \<and> ok e s' \<and> size s' = size s \<and> sector s' = sector s \<and>
        cont e s' = cont e s \<and> buf s' = map (cont e s) [unat a ..< unat a + unat n] @ drop (unat n) (buf s)"
    and wr_law: "ok e s \<Longrightarrow> unat a + unat n \<le> size s \<Longrightarrow> write_span (unat n) (unat a) \<le> length ds \<Longrightarrow>
      \<exists>s'. wr e a ds n s = Inr s' \<and> ok e s' \<and> size s' = size s \<and> sector s' = sector s \<and>
        buf s' = buf s \<and> cont e s' = clear_bits (unat a) (take (write_span (unat n) (unat a)) ds) (cont e s)"
    and er_law: "ok e s \<Longrightarrow> unat n = sector s \<Longrightarrow> unat a mod sector s = 0 \<Longrightarrow> unat a + unat n \<le> size s \<Longrightarrow>
      \<exists>s'. er e a n s = Inr s' \<and> ok e s' \<and> size s' = size s \<and> sector s' = sector s \<and>
        buf s' = buf s \<and> cont e s' = erase_sector (sector s) (unat a) (cont e s)"
begin

lemma write_exact:
  assumes "ok e s" and "unat a + length ds \<le> size s" and "unat n = length ds"
    and "unat a mod 256 + length ds \<le> 256 \<or> unat a mod 256 = 0 \<and> length ds mod 256 = 0"
  shows "\<exists>s'. wr e a ds n s = Inr s' \<and> ok e s' \<and> size s' = size s \<and> sector s' = sector s \<and>
    buf s' = buf s \<and> cont e s' = clear_bits (unat a) ds (cont e s)"
  using wr_law [OF assms(1), of a n ds] write_span_exact [OF assms(4)] assms(2,3) by simp

lemma write_blank:
  assumes "ok e s" and "unat a + length ds \<le> size s" and "unat n = length ds"
    and "unat a mod 256 + length ds \<le> 256 \<or> unat a mod 256 = 0 \<and> length ds mod 256 = 0"
    and "\<forall>i < length ds. cont e s (unat a + i) = 0xff"
  shows "\<exists>s'. wr e a ds n s = Inr s' \<and> ok e s' \<and> size s' = size s \<and> sector s' = sector s \<and> buf s' = buf s \<and>
    cont e s' = (\<lambda>x. if unat a \<le> x \<and> x < unat a + length ds then ds ! (x - unat a) else cont e s x)"
proof -
  have m: "(0xff AND (x :: u8)) = x" for x
  proof -
    have "(0xff :: u8) = mask 8" by (simp add: mask_eq_exp_minus_1)
    then show ?thesis by (simp add: bit_eq_iff bit_simps)
  qed
  have "clear_bits (unat a) ds (cont e s) =
      (\<lambda>x. if unat a \<le> x \<and> x < unat a + length ds then ds ! (x - unat a) else cont e s x)"
  proof
    fix x
    show "clear_bits (unat a) ds (cont e s) x =
        (if unat a \<le> x \<and> x < unat a + length ds then ds ! (x - unat a) else cont e s x)"
      using assms(5) [rule_format, of "x - unat a"] m by (auto simp: clear_bits_def)
  qed
  with write_exact [OF assms(1-4)] show ?thesis by simp
qed

end

lemma flash_okE:
  assumes "flash_ok e s"
  obtains p where "p \<in> set gChipInfo" "gChip s = Some p" "flash_device p (fst e) (snd e)" "length (gTemp s) = 1024"
    "\<not> busy (snd e (spi_tr s))"
  using assms by (auto simp: flash_ok_def)

lemma chip_geometry:
  "p \<in> set gChipInfo \<Longrightarrow> 0 < unat (SectorSize p) \<and> unat (SectorSize p) \<le> unat (FlashSize p) \<and>
   unat (FlashSize p) \<le> 2 ^ 24 \<and> unat (FlashSize p) mod unat (SectorSize p) = 0 \<and> EraseSize p = SectorSize p"
  by (auto simp: gChipInfo_def)

interpretation flash: flash_store "\<lambda>e. read_temp (fst e)" "\<lambda>e. write_flash (fst e)" "\<lambda>e. erase_flash (fst e)"
  flash_ok contents flash_size sector_size gTemp
proof
  fix e :: env and s :: board and a n :: u32 and ds :: "u8 list"
  assume ok: "flash_ok e s"
  from ok obtain p where p: "p \<in> set gChipInfo" "gChip s = Some p" "flash_device p (fst e) (snd e)" "length (gTemp s) = 1024"
    "\<not> busy (snd e (spi_tr s))"
    by (rule flash_okE)
  note g = chip_geometry [OF p(1)]
  have sz: "flash_size s = unat (FlashSize p)" "sector_size s = unat (SectorSize p)"
    by (simp_all add: flash_size_def sector_size_def p(2))
  have keep: "flash_ok e (s\<lparr>gTemp := b, spi_tr := tr\<rparr>)" if "length b = 1024" "\<not> busy (snd e tr)" for b tr
    using ok that p by (auto simp: flash_ok_def)
  have keep': "flash_ok e (s\<lparr>spi_tr := tr\<rparr>)" if "\<not> busy (snd e tr)" for tr using ok that by (auto simp: flash_ok_def)
  show "0 < sector_size s \<and> sector_size s \<le> flash_size s \<and> flash_size s \<le> 2 ^ 24 \<and> flash_size s mod sector_size s = 0"
    using g by (simp add: sz)
  show "\<exists>s'. read_temp (fst e) a n s = Inr s' \<and> flash_ok e s' \<and> flash_size s' = flash_size s \<and>
      sector_size s' = sector_size s \<and> contents e s' = contents e s \<and>
      gTemp s' = map (contents e s) [unat a ..< unat a + unat n] @ drop (unat n) (gTemp s)"
    if fit: "unat a + unat n \<le> flash_size s" "unat n \<le> length (gTemp s)"
  proof -
    obtain tr' where r: "spi_read (fst e) (Some p) a n (spi_tr s) =
        Inr (map (contents e s) [unat a ..< unat a + unat n], tr')" "snd e tr' = snd e (spi_tr s)"
      using spi_read_effect [OF p(3,5,1), of a n] fit(1) sz by (auto simp: contents_def)
    show ?thesis
      using r fit(2) p(2,4,5)
      by (auto simp: read_temp_def flash_size_def sector_size_def contents_def intro!: keep)
  qed
  show "\<exists>s'. write_flash (fst e) a ds n s = Inr s' \<and> flash_ok e s' \<and> flash_size s' = flash_size s \<and>
      sector_size s' = sector_size s \<and> gTemp s' = gTemp s \<and>
      contents e s' = clear_bits (unat a) (take (write_span (unat n) (unat a)) ds) (contents e s)"
    if "unat a + unat n \<le> flash_size s" "write_span (unat n) (unat a) \<le> length ds"
    using spi_write_effect [OF p(3,5,1), of a n ds] that sz p(2) keep'
    by (auto simp: write_flash_def flash_size_def sector_size_def contents_def)
  show "\<exists>s'. erase_flash (fst e) a n s = Inr s' \<and> flash_ok e s' \<and> flash_size s' = flash_size s \<and>
      sector_size s' = sector_size s \<and> gTemp s' = gTemp s \<and>
      contents e s' = erase_sector (sector_size s) (unat a) (contents e s)"
    if fit: "unat n = sector_size s" "unat a mod sector_size s = 0" "unat a + unat n \<le> flash_size s"
  proof -
    have "n = EraseSize p" using fit(1) sz g by (simp add: word_unat_eq_iff)
    moreover have "a mod EraseSize p = 0" using fit(2) sz g by (simp add: word_unat_eq_iff unat_mod)
    ultimately obtain tr' where "spi_erase (fst e) (Some p) a n (spi_tr s) = Inr (-1, tr')" "\<not> busy (snd e tr')"
      "mem (snd e tr') = erase_sector (unat (SectorSize p)) (unat a) (mem (snd e (spi_tr s)))"
      using spi_erase_effect [OF p(3,5,1), of a n] fit(3) sz g by auto
    then show ?thesis
      using p(2) keep' sz by (auto simp: erase_flash_def flash_size_def sector_size_def contents_def)
  qed
qed

text \<open>A read beyond the end of the flash returns something too; it only leaves the memory alone.\<close>

lemma read_temp_page:
  assumes "flash_ok e s" and "gChip s = Some p" and "0 < n" and "n \<le> PageSize p"
  shows "\<exists>s' bs. read_temp (fst e) a n s = Inr s' \<and> flash_ok e s' \<and> contents e s' = contents e s \<and>
    length bs = unat n \<and> s' = s\<lparr>gTemp := bs @ drop (unat n) (gTemp s), spi_tr := spi_tr s'\<rparr>"
proof -
  from assms(1) obtain p' where p': "p' \<in> set gChipInfo" "gChip s = Some p'" "flash_device p' (fst e) (snd e)"
    "length (gTemp s) = 1024" "\<not> busy (snd e (spi_tr s))" by (rule flash_okE)
  have "PageSize p = 256" using p'(1,2) assms(2) gChipInfo_geometry by auto
  then have n: "unat n \<le> 1024" using assms(4) by (simp add: word_le_nat_alt)
  let ?bs = "fst (spi_readblock (fst e) (unat n) (send_adr (fst e) CMD_READ_DATA a (spi_tr s)))"
  let ?tr = "spi_tr s @ encode (ReadData a (unat n))"
  have "\<not> n > PageSize p" using assms(4) by simp
  then have "spi_read (fst e) (Some p) a n (spi_tr s) = Inr (?bs, ?tr)"
    using assms(3) unfolding spi_read_def
    by (subst spi_read_loop.simps, subst spi_read_loop.simps)
      (simp add: readblock_eq send_adr_eq CMD_READ_DATA_def spi_cs_def)
  moreover have "length ?bs = unat n" by (simp add: readblock_eq)
  moreover have "snd e ?tr = snd e (spi_tr s)" using p'(3,5) by (rule flash_read)
  ultimately show ?thesis
    using n p'(4) assms(1,2)
    by (intro exI [of _ "s\<lparr>gTemp := ?bs @ drop (unat n) (gTemp s), spi_tr := ?tr\<rparr>"] exI [of _ ?bs])
      (auto simp: read_temp_def contents_def flash_ok_def simp del: encode.simps)
qed

end
