(* ===== verification/Flash_Commands.thy ===== *)
theory Flash_Commands
  imports Board
begin

text \<open>
  The flash commands of the shell (\<open>main.c\<close>): dump, erase, map, reboot and the arguments they
  take. The lemmas show them on the memory of the flash, through the interface \<open>flash_store\<close>:
  what a dump prints, what an erase leaves, which regions a map reports.
\<close>

section \<open>Arguments\<close>

text \<open>
  \<open>GetAdrAndLen\<close>: \<open>bLen\<close> says whether the caller passed a \<open>pLen\<close>. \<open>ai\<close> and \<open>ah\<close> are the C
  library's \<open>atoi\<close> and the hexadecimal conversion. The result is the return code, the rest of the
  command line, \<open>*pAdr\<close> and \<open>*pLen\<close>.
\<close>

definition GetAdrAndLen ::
  "(cstr \<Rightarrow> u32) \<Rightarrow> (cstr \<Rightarrow> u32) \<Rightarrow> bool \<Rightarrow> cstr \<Rightarrow> u32 \<Rightarrow> u32 \<Rightarrow> board \<Rightarrow>
   (CommandResults_t \<times> cstr \<times> u32 \<times> u32) \<times> board" where
  "GetAdrAndLen ai ah bLen cp Adr Len s =
     (case gChip s of
        None \<Rightarrow> ((RESULT_INTERNAL_ERR, cp, Adr, Len), s)
      | Some p \<Rightarrow>
          (case ConvertValue ai ah cp Adr of (err, cp1, Adr1) \<Rightarrow>
             if err \<noteq> 0 then ((RESULT_BAD_ARG, cp1, Adr1, Len), s)
             else if Adr1 > FlashSize p
             then ((RESULT_BAD_ARG, cp1, Adr1, Len),
                   NetPrintf ''Error 0x%x is past end of flash (0x%x).\<newline>'' [Num Adr1, Num (FlashSize p)] s)
             else if \<not> bLen then ((RESULT_OK, cp1, Adr1, Len), s)
             else (case ConvertValue ai ah cp1 Len of (err2, cp2, Len2) \<Rightarrow>
                     if err2 \<noteq> 0 then ((RESULT_BAD_ARG, cp2, Adr1, Len2), s)
                     else if Adr1 + Len2 > FlashSize p
                     then ((RESULT_OK, cp2, Adr1, FlashSize p - Adr1),
                           NetPrintf ''Note: Length reduced to 0x%x to stay within flash\<newline>''
                             [Num (FlashSize p - Adr1)] s)
                     else ((RESULT_OK, cp2, Adr1, Len2), s))))"

section \<open>Dump\<close>

definition hexdigit :: "nat \<Rightarrow> u8" where
  "hexdigit n = (if n < 10 then of_nat (48 + n) else of_nat (87 + n))"

definition hex_digits :: "nat \<Rightarrow> nat \<Rightarrow> cstr" where
  "hex_digits k v = map (\<lambda>i. hexdigit (v div 16 ^ (k - 1 - i) mod 16)) [0..<k]"

text \<open>The loop of \<open>NetDumpHex\<close> over the bytes; \<open>A\<close> is \<open>i + Adr\<close>.\<close>

fun dump_loop_hex :: "bool \<Rightarrow> u32 \<Rightarrow> u8 list \<Rightarrow> board \<Rightarrow> board" where
  "dump_loop_hex bWithAdr A [] s = s"
| "dump_loop_hex bWithAdr A (c # cs) s =
     (let s1 = (if BytesOnLine s = 0
                then (if bWithAdr then NetPuts [32, 32] (NetPuts (hex_digits 8 (unat A)) s) else s)
                else NetPuts [32] s);
          s2 = NetPuts (hex_digits 2 (unat c)) s1;
          s3 = s2\<lparr>BytesOnLine := BytesOnLine s2 + 1\<rparr>
      in dump_loop_hex bWithAdr (A + 1) cs
           (if BytesOnLine s3 = 16 then (NetPuts [10] s3)\<lparr>BytesOnLine := 0\<rparr> else s3))"

definition NetDumpHex :: "u8 list \<Rightarrow> bool \<Rightarrow> u32 \<Rightarrow> board \<Rightarrow> board" where
  "NetDumpHex Data bWithAdr Adr s =
     (if Data = [] then (if 0 < BytesOnLine s then NetPuts [10] s else s)\<lparr>BytesOnLine := 0\<rparr>
      else dump_loop_hex bWithAdr Adr Data s)"

text \<open>
  \<open>DumpCmd\<close>. Printing polls the network, which may close the connection: \<open>con k\<close> says whether
  \<open>gShellCon\<close> is still set when the loop is tested with \<open>BytesRead = k\<close>.
\<close>

partial_function (option) dump_loop ::
  "device \<Rightarrow> (u32 \<Rightarrow> bool) \<Rightarrow> u32 \<Rightarrow> u32 \<Rightarrow> u32 \<Rightarrow> board \<Rightarrow> board res option" where
  "dump_loop dev con Adr Len BytesRead s =
     (if con BytesRead \<and> BytesRead < Len then
        (let Bytes2Read = (if Len > sizeof_gTemp then sizeof_gTemp else Len)
         in case read_temp dev Adr Bytes2Read s of
              Inl f \<Rightarrow> Some (Inl f)
            | Inr s1 \<Rightarrow> dump_loop dev con (Adr + Bytes2Read) Len (BytesRead + Bytes2Read)
                          (NetDumpHex (take (unat Bytes2Read) (gTemp s1)) True Adr s1))
      else Some (Inr s))"

definition DumpCmd ::
  "device \<Rightarrow> (u32 \<Rightarrow> bool) \<Rightarrow> (cstr \<Rightarrow> u32) \<Rightarrow> (cstr \<Rightarrow> u32) \<Rightarrow> cstr \<Rightarrow> board \<Rightarrow> (CommandResults_t \<times> board) res" where
  "DumpCmd dev con ai ah CmdLine s =
     (case GetAdrAndLen ai ah True CmdLine 0 0 s of ((Ret, _, Adr, Len), s1) \<Rightarrow>
        rbind (if Ret \<noteq> RESULT_OK then Inr s1
               else rbind (of_loop (dump_loop dev con Adr Len 0 s1)) (\<lambda>r. r))
          (\<lambda>s2. Inr (Ret, NetDumpHex [] False 0 s2)))"

section \<open>Erase\<close>

partial_function (option) erase_cmd_loop :: "device \<Rightarrow> u32 \<Rightarrow> u32 \<Rightarrow> u32 \<Rightarrow> board \<Rightarrow> board res option" where
  "erase_cmd_loop dev E Adr EndAdr s =
     (if Adr < EndAdr then
        (case erase_flash dev Adr E s of
           Inl f \<Rightarrow> Some (Inl f)
         | Inr s1 \<Rightarrow> erase_cmd_loop dev E (Adr + E) EndAdr (NetPrintf ''.'' [] s1))
      else Some (Inr s))"

definition EraseCmd ::
  "device \<Rightarrow> (cstr \<Rightarrow> u32) \<Rightarrow> (cstr \<Rightarrow> u32) \<Rightarrow> cstr \<Rightarrow> board \<Rightarrow> (CommandResults_t \<times> board) res" where
  "EraseCmd dev ai ah CmdLine s =
     (case gChip s of
        None \<Rightarrow> Inl NullPtr
      | Some p \<Rightarrow>
          (case GetAdrAndLen ai ah False CmdLine 0 0 s of ((Ret, cp, Adr, _), s1) \<Rightarrow>
           if Ret \<noteq> RESULT_OK then Inr (Ret, s1)
           else case GetAdrAndLen ai ah False cp 0 0 s1 of ((Ret2, _, EndAdr, _), s2) \<Rightarrow>
             if Ret2 \<noteq> RESULT_OK then Inr (Ret2, s2)
             else
               let Len = EndAdr - Adr + 1 in
               if Adr mod EraseSize p \<noteq> 0
               then Inr (RESULT_ERR, NetPrintf ''Error - address not at erase boundary\<newline>'' [] s2)
               else if Len mod EraseSize p \<noteq> 0
               then Inr (RESULT_ERR, NetPrintf ''Error - length not a multiple of the erase size\<newline>'' [] s2)
               else rbind (rbind (of_loop (erase_cmd_loop dev (EraseSize p) Adr EndAdr s2)) (\<lambda>r. r))
                 (\<lambda>s3. Inr (RESULT_OK, NetPrintf ''\<newline>Erased %dK\<newline>'' [Num (Len div 1024)] s3))))"

section \<open>Empty sectors\<close>

definition fill :: "nat \<Rightarrow> u8 \<Rightarrow> nat \<Rightarrow> u8 list \<Rightarrow> u8 list" where
  "fill i c n xs = take i xs @ replicate n c @ drop (i + n) xs"

fun check_loop :: "device \<Rightarrow> nat \<Rightarrow> u32 \<Rightarrow> u32 \<Rightarrow> board \<Rightarrow> (bool \<times> board) res" where
  "check_loop dev 0 Adr pg s = Inr (True, s)"
| "check_loop dev (Suc n) Adr pg s =
     (let P = unat pg in
      rbind (read_temp dev Adr pg (s\<lparr>gTemp := fill 0 0xaa P (gTemp s)\<rparr>)) (\<lambda>s1.
        if take P (gTemp s1) \<noteq> take P (drop P (gTemp s1)) then Inr (False, s1)
        else check_loop dev n (Adr + pg) pg s1))"

text \<open>\<open>CheckEmpty\<close> compares with the bytes that follow the first page in \<open>gTemp\<close>.\<close>

definition CheckEmpty :: "device \<Rightarrow> u32 \<Rightarrow> u32 \<Rightarrow> u32 \<Rightarrow> board \<Rightarrow> (bool \<times> board) res" where
  "CheckEmpty dev Adr pg er s =
     (if length (gTemp s) < 2 * unat pg then Inl OutOfBounds
      else check_loop dev (nat (sint (er div pg))) Adr pg s)"

partial_function (option) map_loop ::
  "device \<Rightarrow> FlashInfo_t \<Rightarrow> u32 \<Rightarrow> u32 \<Rightarrow> bool \<Rightarrow> bool \<Rightarrow> board \<Rightarrow> board res option" where
  "map_loop dev p Adr LastAdr bWasEmpty bPrintStart s =
     (if Adr < FlashSize p then
        (let s1 = (if bPrintStart then NetPrintf ''0x%06x -> '' [Num Adr] s else s);
             Adr1 = Adr + EraseSize p
         in case CheckEmpty dev Adr1 (PageSize p) (EraseSize p) s1 of
              Inl f \<Rightarrow> Some (Inl f)
            | Inr (b, s2) \<Rightarrow>
                (let bEmpty = (if bWasEmpty = b \<and> Adr1 = FlashSize p then \<not> b else b)
                 in if bWasEmpty \<noteq> bEmpty
                    then map_loop dev p Adr1 Adr1 bEmpty True
                           (NetPrintf ''0x%06x %4d K %sempty\<newline>''
                             [Num (Adr1 - 1), Num ((Adr1 - LastAdr) div 1024),
                              Text (if \<not> bEmpty then [] else bytes ''not '')] s2)
                    else map_loop dev p Adr1 LastAdr bWasEmpty False s2))
      else Some (Inr s))"

definition MapCmd :: "device \<Rightarrow> board \<Rightarrow> (CommandResults_t \<times> board) res" where
  "MapCmd dev s =
     (case gChip s of
        None \<Rightarrow> Inr (RESULT_INTERNAL_ERR, s)
      | Some p \<Rightarrow>
          (let P = unat (PageSize p) in
           if length (gTemp s) < 2 * P then Inl OutOfBounds
           else rbind (read_temp dev 0 (PageSize p) (s\<lparr>gTemp := fill P 0xff P (gTemp s)\<rparr>)) (\<lambda>s1.
                rbind (CheckEmpty dev 0 (PageSize p) (EraseSize p) s1) (\<lambda>(bEmpty, s2).
                  rbind (rbind (of_loop (map_loop dev p 0 0 bEmpty True
                    (NetPrintf ''%s: %d MB, %d KB sectors\<newline>''
                      [Text (Desc p), Num (FlashSize p div (1024 * 1024)), Num (EraseSize p div 1024)] s2))) (\<lambda>r. r))
                  (\<lambda>s3. Inr (RESULT_OK, s3))))))"

section \<open>Settings and reboot\<close>

definition ReBoot :: "u32 \<Rightarrow> board \<Rightarrow> board" where
  "ReBoot SpiAdr s = s\<lparr>reboots := reboots s @ [SpiAdr]\<rparr>"

text \<open>\<open>strcasecmp\<close> of the C library, in its sign only.\<close>

definition same_nocase :: "cstr \<Rightarrow> cstr \<Rightarrow> bool" where
  "same_nocase x y \<longleftrightarrow> map tolower x = map tolower y"

definition GetOnOff :: "cstr \<Rightarrow> CommandResults_t \<times> bool" where
  "GetOnOff CmdLine =
     (if same_nocase CmdLine (bytes ''on'') then (RESULT_OK, True)
      else if \<not> same_nocase CmdLine (bytes ''off'') then (RESULT_BAD_ARG, False)
      else (RESULT_OK, False))"

definition AutoEraseCmd :: "cstr \<Rightarrow> board \<Rightarrow> CommandResults_t \<times> board" where
  "AutoEraseCmd CmdLine s =
     (let (Ret, s1) =
        (if deref CmdLine = 0 then (RESULT_OK, s)
         else case GetOnOff CmdLine of (r, On) \<Rightarrow>
           if r \<noteq> RESULT_OK then (RESULT_BAD_ARG, s)
           else (RESULT_OK, s\<lparr>gTftp := (gTftp s)\<lparr>bAutoErase := On\<rparr>\<rparr>))
      in if Ret = RESULT_OK
         then (Ret, NetPrintf ''AutoErase o%s\<newline>'' [Text (if bAutoErase (gTftp s1) then bytes ''n'' else bytes ''ff'')] s1)
         else (Ret, s1))"

text \<open>
  \<open>ExitCmd\<close> and the end of \<open>RebootCmd\<close> close the connection. \<open>RebootCmd\<close> returns its local
  \<open>Ret\<close>, which no branch assigns when there is no argument: the result is \<open>None\<close> then.
\<close>

definition ExitCmd :: "board \<Rightarrow> CommandResults_t \<times> board" where
  "ExitCmd s = (RESULT_OK, s\<lparr>gShellCon := False\<rparr>)"

definition RebootCmd ::
  "(cstr \<Rightarrow> u32) \<Rightarrow> (cstr \<Rightarrow> u32) \<Rightarrow> cstr \<Rightarrow> board \<Rightarrow> CommandResults_t option \<times> board" where
  "RebootCmd ai ah CmdLine s =
     (let (Ret, Adr, s1) =
        (if deref CmdLine = 0 then (None, gDefaultFlashAdr, s)
         else case GetAdrAndLen ai ah False CmdLine 0 0 s of ((r, _, a, _), s') \<Rightarrow> (Some r, a, s'))
      in if Ret \<noteq> None \<and> Ret \<noteq> Some RESULT_OK then (Ret, s1)
         else (Ret, ReBoot Adr ((NetPrintf ''Booting bitstream @ 0x%x\<newline>'' [] s1)\<lparr>gShellCon := False\<rparr>)))"

section \<open>What the commands leave alone\<close>

lemma flash_ok_printing [simp]:
  "flash_ok e (s\<lparr>out := x\<rparr>) = flash_ok e s" "contents e (s\<lparr>out := x\<rparr>) = contents e s"
  "flash_size (s\<lparr>out := x\<rparr>) = flash_size s" "sector_size (s\<lparr>out := x\<rparr>) = sector_size s"
  "flash_ok e (s\<lparr>BytesOnLine := k\<rparr>) = flash_ok e s" "contents e (s\<lparr>BytesOnLine := k\<rparr>) = contents e s"
  "flash_size (s\<lparr>BytesOnLine := k\<rparr>) = flash_size s" "sector_size (s\<lparr>BytesOnLine := k\<rparr>) = sector_size s"
  by (simp_all add: flash_ok_def contents_def flash_size_def sector_size_def)

lemma NetPuts_flash [simp]:
  "flash_ok e (NetPuts t s) = flash_ok e s" "contents e (NetPuts t s) = contents e s"
  "flash_size (NetPuts t s) = flash_size s" "sector_size (NetPuts t s) = sector_size s"
  by (simp_all add: NetPuts_def)

lemma NetPrintf_flash [simp]:
  "flash_ok e (NetPrintf fmt xs s) = flash_ok e s" "contents e (NetPrintf fmt xs s) = contents e s"
  "flash_size (NetPrintf fmt xs s) = flash_size s" "sector_size (NetPrintf fmt xs s) = sector_size s"
  by (simp_all add: NetPrintf_def)

lemma read_temp_frame:
  "read_temp dev a n s = Inr s' \<Longrightarrow>
   out s' = out s \<and> BytesOnLine s' = BytesOnLine s \<and> gChip s' = gChip s \<and> gTftp s' = gTftp s"
  by (auto simp: read_temp_def rbind_Inr_iff split: if_splits prod.splits)

lemma erase_flash_frame:
  "erase_flash dev a n s = Inr s' \<Longrightarrow> out s' = out s \<and> gChip s' = gChip s"
  by (auto simp: erase_flash_def rbind_Inr_iff split: prod.splits)

section \<open>A board for the examples\<close>

definition no_transfer :: tftp_ldr_internal where
  "no_transfer = \<lparr>ServerIP = 0, Filename = [], ErrMsg = replicate 33 0, BytesTransfered = 0, MaxBytes = 0, SendLen = 0,
     TransferType = None, FlashAdr = 0, LastEraseAdr = 0, LastProgress = 0, Error = TFTP_OK, bAutoErase = True\<rparr>"

definition demo_board :: "FlashInfo_t \<Rightarrow> board" where
  "demo_board p = \<lparr>gChip = Some p, spi_tr = [], gTemp = replicate 1024 0, gTftp = no_transfer, gBoardID = 0,
     gEtherMac = replicate 6 0, gPanoSerial = bytes ''1170000000-0PLC0'', BytesOnLine = 0, gShellCon = True,
     reboots = [], out = []\<rparr>"

definition demo_env :: "FlashInfo_t \<Rightarrow> (nat \<Rightarrow> u8) \<Rightarrow> env" where
  "demo_env p m = (model_device p m, model_flash p m)"

lemma demo_ok:
  "p \<in> set gChipInfo \<Longrightarrow> flash_ok (demo_env p m) (demo_board p)"
  "contents (demo_env p m) (demo_board p) = m"
  "flash_size (demo_board p) = unat (FlashSize p)" "sector_size (demo_board p) = unat (SectorSize p)"
  using model_device_laws [of p m] chip_geometry [of p]
  by (auto simp: flash_ok_def demo_env_def demo_board_def contents_def model_flash_def power_on_def flash_size_def sector_size_def)

lemma chip_members: "gChipInfo ! 0 \<in> set gChipInfo" "gChipInfo ! 1 \<in> set gChipInfo"
  by (simp_all add: gChipInfo_def)

lemmas parse_simps = GetAdrAndLen_def ConvertValue_def Let_def deref_def isspace_def isdigit_c_def bytes_def
  demo_board_def gChipInfo_def

section \<open>Arguments stay inside the flash\<close>

text \<open>
  Claim C39. \<open>GetAdrAndLen\<close> yields a range inside the flash. For two numbers below \<open>2 ^ 31\<close>, in
  decimal or hexadecimal, it takes both off the line; an address beyond the end of the chip is refused, and otherwise the
  address is the first number and the length the second one, reduced to what is left of the chip.
\<close>

theorem GetAdrAndLen_bounds:
  assumes "gChip s = Some p" and "reads_decimal ai" and "reads_hex ah"
    and "digits_ok x" and "number_of x < 2 ^ 31" and "digits_ok y" and "number_of y < 2 ^ 31"
    and "0 \<notin> set tail" and "tail = [] \<or> isspace (hd tail)"
  shows "fst (GetAdrAndLen ai ah True (replicate i 32 @ typed x @ 32 # replicate j 32 @ typed y @ tail) a0 l0 s) =
    (let A = number_of x; size = unat (FlashSize p) in
     if size < A then (RESULT_BAD_ARG, replicate j 32 @ typed y @ tail, of_nat A, l0)
     else (RESULT_OK, tl tail, of_nat A, of_nat (min (number_of y) (size - A))))"
proof -
  have t: "(0 :: u8) \<notin> set (typed y)"
  proof -
    have "\<not> isxdigit 0" "\<not> isdigit_c 0" by (simp_all add: isxdigit_def isdigit_c_def)
    then show ?thesis using assms(6) by (cases y) auto
  qed
  have c1: "ConvertValue ai ah (replicate i 32 @ typed x @ 32 # replicate j 32 @ typed y @ tail) a0 =
      (0, replicate j 32 @ typed y @ tail, of_nat (number_of x))"
    using ConvertValue_typed [OF assms(2-5), of "32 # replicate j 32 @ typed y @ tail" i a0] t assms(8)
    by (simp add: isspace_def)
  have c2: "ConvertValue ai ah (replicate j 32 @ typed y @ tail) l0 = (0, tl tail, of_nat (number_of y))"
    using ConvertValue_typed [OF assms(2,3,6,7,8,9)] .
  let ?A = "of_nat (number_of x) :: u32" and ?L = "of_nat (number_of y) :: u32"
  have u: "unat ?A = number_of x" "unat ?L = number_of y" "unat (?A + ?L) = number_of x + number_of y"
    using assms(5,7) by (simp_all add: unat_word_ariths unsigned_of_nat take_bit_nat_eq_self)
  have past: "FlashSize p < ?A \<longleftrightarrow> unat (FlashSize p) < number_of x" by (simp add: word_less_nat_alt u)
  show ?thesis
  proof (cases "unat (FlashSize p) < number_of x")
    case True
    then show ?thesis using assms(1) c1 past by (simp add: GetAdrAndLen_def Let_def)
  next
    case False
    have more: "FlashSize p < ?A + ?L \<longleftrightarrow> unat (FlashSize p) - number_of x < number_of y"
      using False unfolding word_less_nat_alt u(3) by auto
    have d: "FlashSize p - ?A = of_nat (unat (FlashSize p) - number_of x)"
      using False by (simp add: of_nat_diff)
    show ?thesis
      using assms(1) c1 c2 past more d False by (simp add: GetAdrAndLen_def Let_def min_def)
  qed
qed

theorem GetAdrAndLen_bounds_witness:
  "fst (GetAdrAndLen std_atoi std_atoi_hex True (bytes '' 0x10 512'') 0 0 (demo_board (gChipInfo ! 0))) = (RESULT_OK, [], 16, 512) \<and>
   unat (FlashSize (gChipInfo ! 0)) \<ge> 528"
proof -
  let ?x = "Hex [49, 48]" and ?y = "Dec [53, 49, 50]"
  have g: "gChip (demo_board (gChipInfo ! 0)) = Some (gChipInfo ! 0)" by (simp add: demo_board_def)
  have n: "digits_ok ?x" "number_of ?x < 2 ^ 31" "digits_ok ?y" "number_of ?y < 2 ^ 31" "number_of ?x = 16" "number_of ?y = 512"
    by (simp_all add: isxdigit_def isdigit_c_def hex_value_def xdigit_value_def dec_value_def)
  have l: "bytes '' 0x10 512'' = replicate 1 32 @ typed ?x @ 32 # replicate 0 32 @ typed ?y @ []" by (simp add: bytes_def)
  have z: "unat (FlashSize (gChipInfo ! 0)) \<ge> 528" by (simp add: gChipInfo_def)
  show ?thesis
    using GetAdrAndLen_bounds [OF g std_atoi_reads std_atoi_hex_reads n(1-4), of "[]" 1 0 0 0] z unfolding l n(5,6)
    by (simp add: Let_def min_def)
qed

section \<open>The layout of a dump\<close>

text \<open>
  Rows of 16 bytes: the address, two blanks, the bytes in hexadecimal separated by blanks, and
  a line feed.
\<close>

fun row_text :: "u8 list \<Rightarrow> cstr" where
  "row_text [] = []"
| "row_text (c # cs) = hex_digits 2 (unat c) @ concat (map (\<lambda>d. 32 # hex_digits 2 (unat d)) cs)"

function dump_text :: "u32 \<Rightarrow> u8 list \<Rightarrow> cstr" where
  "dump_text A bs =
     (if bs = [] then []
      else hex_digits 8 (unat A) @ [32, 32] @ row_text (take 16 bs) @ [10] @ dump_text (A + 16) (drop 16 bs))"
  by pat_completeness auto
termination
  by (relation "measure (\<lambda>(A, bs). length bs)") auto

declare dump_text.simps [simp del]

text \<open>
  What the loop of \<open>NetDumpHex\<close> prints for one byte at position \<open>j\<close> of a line, and for all.
\<close>

definition cell_text :: "nat \<Rightarrow> u32 \<Rightarrow> u8 \<Rightarrow> cstr list" where
  "cell_text j A c =
     (if j = 0 then [hex_digits 8 (unat A), [32, 32]] else [[32]]) @ [hex_digits 2 (unat c)] @
     (if j + 1 = 16 then [[10]] else [])"

definition next_pos :: "nat \<Rightarrow> nat" where
  "next_pos j = (if j + 1 = 16 then 0 else j + 1)"

fun dput :: "nat \<Rightarrow> u32 \<Rightarrow> u8 list \<Rightarrow> cstr list" where
  "dput j A [] = []"
| "dput j A (c # cs) = cell_text j A c @ dput (next_pos j) (A + 1) cs"

fun dpos :: "nat \<Rightarrow> u8 list \<Rightarrow> nat" where
  "dpos j [] = j"
| "dpos j (c # cs) = dpos (next_pos j) cs"

lemma dump_loop_hex_puts:
  "dump_loop_hex True A cs s =
   s\<lparr>out := out s @ map Puts (dput (BytesOnLine s) A cs), BytesOnLine := dpos (BytesOnLine s) cs\<rparr>"
  by (induction cs arbitrary: A s) (simp_all add: Let_def NetPuts_def cell_text_def next_pos_def)

lemma dput_append: "dput j A (xs @ ys) = dput j A xs @ dput (dpos j xs) (A + of_nat (length xs)) ys"
  by (induction xs arbitrary: j A) (simp_all add: add.assoc)

lemma dpos_append: "dpos j (xs @ ys) = dpos (dpos j xs) ys"
  by (induction xs arbitrary: j) simp_all

lemma dput_row:
  "0 < j \<Longrightarrow> j + length cs < 16 \<Longrightarrow>
   concat (dput j A cs) = concat (map (\<lambda>d. 32 # hex_digits 2 (unat d)) cs) \<and> dpos j cs = j + length cs"
  by (induction cs arbitrary: j A) (simp_all add: cell_text_def next_pos_def)

lemma dput_last:
  "0 < j \<Longrightarrow> j + length cs = 16 \<Longrightarrow> cs \<noteq> [] \<Longrightarrow>
   concat (dput j A cs) = concat (map (\<lambda>d. 32 # hex_digits 2 (unat d)) cs) @ [10] \<and> dpos j cs = 0"
proof (induction cs arbitrary: j A)
  case (Cons c cs)
  show ?case
  proof (cases "cs = []")
    case True
    with Cons.prems show ?thesis by (simp add: cell_text_def next_pos_def)
  next
    case False
    then have "j + 1 \<noteq> 16" using Cons.prems by (cases cs) auto
    with False Cons.prems Cons.IH [of "j + 1" "A + 1"] show ?thesis
      by (simp add: cell_text_def next_pos_def)
  qed
qed simp

lemma dput_dump_text:
  "concat (dput 0 A bs) @ (if dpos 0 bs = 0 then [] else [10]) = dump_text A bs"
proof (induction A bs rule: dump_text.induct)
  case (1 A bs)
  show ?case
  proof (cases bs)
    case Nil
    then show ?thesis by (simp add: dump_text.simps)
  next
    case (Cons c cs)
    show ?thesis
    proof (cases "length bs < 16")
      case True
      then have "concat (dput 0 A bs) = hex_digits 8 (unat A) @ [32, 32] @ row_text bs" "dpos 0 bs = length bs"
        using Cons dput_row [of 1 cs "A + 1"] by (simp_all add: cell_text_def next_pos_def)
      then show ?thesis using Cons True by (subst dump_text.simps) (simp add: dump_text.simps [of _ "[]"])
    next
      case False
      define xs ys where "xs = take 16 bs" and "ys = drop 16 bs"
      have bs: "bs = xs @ ys" "length xs = 16" using False by (simp_all add: xs_def ys_def)
      obtain xs' where xs': "xs = c # xs'" "length xs' = 15" using bs Cons by (cases xs) auto
      then have "xs' \<noteq> []" by auto
      have x: "concat (dput 0 A xs) = hex_digits 8 (unat A) @ [32, 32] @ row_text xs @ [10]" "dpos 0 xs = 0"
        using xs' \<open>xs' \<noteq> []\<close> dput_last [of 1 xs' "A + 1"] by (auto simp: cell_text_def next_pos_def)
      have "bs \<noteq> []" using Cons by simp
      have "concat (dput 0 (A + 16) ys) @ (if dpos 0 ys = 0 then [] else [10]) = dump_text (A + 16) ys"
        using 1 Cons by (simp add: ys_def)
      then show ?thesis
        using x bs \<open>bs \<noteq> []\<close> by (subst dump_text.simps) (simp add: dput_append dpos_append xs_def [symmetric] ys_def [symmetric])
    qed
  qed
qed

section \<open>What a dump prints\<close>

lemma sizeof_gTemp_unat [simp]: "unat sizeof_gTemp = 1024"
  by (simp add: sizeof_gTemp_def)

definition dump_chunk :: "u32 \<Rightarrow> u32" where
  "dump_chunk Len = (if Len > sizeof_gTemp then sizeof_gTemp else Len)"

lemma dump_loop_prints:
  assumes "0 < Len" and "\<forall>k. con k"
  shows "flash_ok e s \<Longrightarrow> unat BytesRead = unat (dump_chunk Len) * k \<Longrightarrow>
    unat (dump_chunk Len) * (k + m) < 2 ^ 32 \<Longrightarrow>
    unat Len \<le> unat (dump_chunk Len) * (k + m) \<Longrightarrow>
    (0 < m \<longrightarrow> unat (dump_chunk Len) * (k + m - 1) < unat Len) \<Longrightarrow>
    unat Adr + unat (dump_chunk Len) * m \<le> flash_size s \<Longrightarrow>
    \<exists>s'. dump_loop (fst e) con Adr Len BytesRead s = Some (Inr s') \<and> flash_ok e s' \<and> contents e s' = contents e s \<and>
      (let bs = map (contents e s) [unat Adr ..< unat Adr + unat (dump_chunk Len) * m] in
       out s' = out s @ map Puts (dput (BytesOnLine s) Adr bs) \<and> BytesOnLine s' = dpos (BytesOnLine s) bs)"
proof (induction m arbitrary: BytesRead Adr s k)
  case 0
  then have "\<not> BytesRead < Len" by (simp add: word_less_nat_alt)
  then show ?case using 0 by (subst dump_loop.simps) (simp add: Let_def)
next
  case (Suc m)
  let ?n = "dump_chunk Len"
  define n where "n = unat ?n"
  have n: "0 < n" "n \<le> 1024"
    using assms(1) by (auto simp: n_def dump_chunk_def word_less_nat_alt word_le_nat_alt not_less sizeof_gTemp_def)
  have lt: "BytesRead < Len"
    using Suc.prems(2,5) unfolding word_less_nat_alt n_def [symmetric] by (simp add: add_mult_distrib2)
  have fit: "unat Adr + n \<le> flash_size s"
    using Suc.prems(6) unfolding n_def [symmetric] by simp
  have "flash_size s \<le> 2 ^ 24" using flash.geometry [OF Suc.prems(1)] by simp
  then have uA: "unat (Adr + ?n) = unat Adr + n"
    using fit n by (simp add: unat_word_ariths n_def)
  have uB: "unat (BytesRead + ?n) = n * (k + 1)"
  proof -
    have "n * (k + 1) \<le> n * (k + Suc m)" by simp
    then have "n * k + n < 2 ^ 32" using Suc.prems(3) unfolding n_def [symmetric] by (simp add: add_mult_distrib2)
    then show ?thesis using Suc.prems(2) by (simp add: unat_word_ariths n_def add_mult_distrib2)
  qed
  obtain s1 where s1: "read_temp (fst e) Adr ?n s = Inr s1" "flash_ok e s1" "flash_size s1 = flash_size s"
    "contents e s1 = contents e s"
    "gTemp s1 = map (contents e s) [unat Adr ..< unat Adr + n] @ drop n (gTemp s)"
  proof -
    have "length (gTemp s) = 1024" using Suc.prems(1) by (rule flash_okE)
    then show ?thesis
      using flash.rd_law [OF Suc.prems(1), of Adr ?n] fit n that unfolding n_def by auto
  qed
  note fr = read_temp_frame [OF s1(1)]
  define row1 where "row1 = map (contents e s) [unat Adr ..< unat Adr + n]"
  have t: "take (unat ?n) (gTemp s1) = row1" using s1(5) by (simp add: row1_def n_def)
  have "row1 \<noteq> []" using n by (simp add: row1_def)
  define s2 where "s2 = NetDumpHex row1 True Adr s1"
  have s2: "s2 = s1\<lparr>out := out s @ map Puts (dput (BytesOnLine s) Adr row1), BytesOnLine := dpos (BytesOnLine s) row1\<rparr>"
    using \<open>row1 \<noteq> []\<close> fr by (simp add: s2_def NetDumpHex_def dump_loop_hex_puts)
  have ok2: "flash_ok e s2" "contents e s2 = contents e s" "flash_size s2 = flash_size s"
    using s1 by (simp_all add: s2)
  have run: "dump_loop (fst e) con Adr Len BytesRead s = dump_loop (fst e) con (Adr + ?n) Len (BytesRead + ?n) s2"
    using lt assms(2) s1(1) by (subst dump_loop.simps) (simp add: Let_def dump_chunk_def [symmetric] t s2_def)
  let ?rest = "map (contents e s) [unat Adr + n ..< unat Adr + n + n * m]"
  obtain s' where s': "dump_loop (fst e) con (Adr + ?n) Len (BytesRead + ?n) s2 = Some (Inr s')" "flash_ok e s'"
    "contents e s' = contents e s" "out s' = out s2 @ map Puts (dput (BytesOnLine s2) (Adr + ?n) ?rest)"
    "BytesOnLine s' = dpos (BytesOnLine s2) ?rest"
    using Suc.IH [OF ok2(1), of "BytesRead + ?n" "k + 1" "Adr + ?n"] Suc.prems(3-6) uA uB ok2
    unfolding Let_def n_def [symmetric] by (auto simp: algebra_simps)
  have split: "map (contents e s) [unat Adr ..< unat Adr + n * Suc m] = row1 @ ?rest"
    using upt_add_eq_append [of "unat Adr" "unat Adr + n" "n * m"] by (simp add: row1_def algebra_simps)
  have "of_nat (length row1) = ?n" by (simp add: row1_def n_def)
  then show ?case
    unfolding Let_def n_def [symmetric] split run dput_append dpos_append
    using s' by (auto simp: s2)
qed

text \<open>
  The bytes a dump covers. The chunk size is computed from the whole length, not from what is
  left, so a length above 1024 is rounded up to a multiple of 1024.
\<close>

definition dump_span :: "nat \<Rightarrow> nat" where
  "dump_span len = (if len \<le> 1024 then len else (len + 1023) div 1024 * 1024)"

lemma dump_span_chunks:
  assumes "0 < Len"
  obtains m where "0 < m" "unat (dump_chunk Len) * m = dump_span (unat Len)"
    "unat Len \<le> dump_span (unat Len)" "unat (dump_chunk Len) * (m - 1) < unat Len"
proof (cases "unat Len \<le> 1024")
  case True
  then have "dump_chunk Len = Len" by (simp add: dump_chunk_def word_less_nat_alt)
  with True assms show ?thesis by (intro that [of 1]) (simp_all add: dump_span_def word_less_nat_alt)
next
  case False
  define m where "m = (unat Len + 1023) div 1024"
  have c: "unat (dump_chunk Len) = 1024" using False by (simp add: dump_chunk_def word_less_nat_alt)
  have "unat Len + 1023 = m * 1024 + (unat Len + 1023) mod 1024" by (simp add: m_def)
  moreover have "(unat Len + 1023) mod 1024 < 1024" by simp
  ultimately have b: "unat Len \<le> m * 1024" "m * 1024 < unat Len + 1024" by linarith+
  have "0 < m" using b(1) False by (cases m) auto
  with b have "1024 * (m - 1) < unat Len" by (cases m) auto
  with b \<open>0 < m\<close> False c show ?thesis by (intro that [of m]) (simp_all add: dump_span_def m_def)
qed

text \<open>
  The dump command prints the memory: for a range that lies in the flash and a
  connection that stays open, what the shell receives is the layout \<open>dump_text\<close> of the
  \<open>dump_span\<close> bytes from the address on, and the flash is unchanged.
\<close>

theorem DumpCmd_prints:
  assumes "flash_ok e s" and "\<forall>k. con k" and "BytesOnLine s = 0"
    and "GetAdrAndLen ai ah True line 0 0 s = ((RESULT_OK, cp, Adr, Len), s)" and "0 < Len"
    and "unat Adr + dump_span (unat Len) \<le> flash_size s"
  shows "\<exists>s' ts. DumpCmd (fst e) con ai ah line s = Inr (RESULT_OK, s') \<and> flash_ok e s' \<and>
     contents e s' = contents e s \<and> out s' = out s @ map Puts ts \<and>
     concat ts = dump_text Adr (map (contents e s) [unat Adr ..< unat Adr + dump_span (unat Len)])"
proof -
  let ?bs = "map (contents e s) [unat Adr ..< unat Adr + dump_span (unat Len)]"
  obtain m where m: "0 < m" "unat (dump_chunk Len) * m = dump_span (unat Len)"
    "unat Len \<le> dump_span (unat Len)" "unat (dump_chunk Len) * (m - 1) < unat Len"
    using dump_span_chunks [OF assms(5)] .
  have small: "dump_span (unat Len) < 2 ^ 32"
    using assms(6) flash.geometry [OF assms(1)] by simp
  obtain s1 where s1: "dump_loop (fst e) con Adr Len 0 s = Some (Inr s1)" "flash_ok e s1"
    "contents e s1 = contents e s" "out s1 = out s @ map Puts (dput 0 Adr ?bs)" "BytesOnLine s1 = dpos 0 ?bs"
    using dump_loop_prints [OF assms(5,2,1), of 0 0 m Adr] m small assms(3,6) by (auto simp: Let_def)
  define s2 where "s2 = NetDumpHex [] False 0 s1"
  define ts where "ts = dput 0 Adr ?bs @ (if dpos 0 ?bs = 0 then [] else [[10]])"
  have "out s2 = out s @ map Puts ts" "flash_ok e s2" "contents e s2 = contents e s"
    using s1 by (simp_all add: s2_def ts_def NetDumpHex_def NetPuts_def)
  moreover have "DumpCmd (fst e) con ai ah line s = Inr (RESULT_OK, s2)"
    using assms(4) s1(1) by (simp add: DumpCmd_def s2_def)
  moreover have "concat ts = dump_text Adr ?bs"
    using dput_dump_text [of Adr ?bs] by (auto simp: ts_def split: if_splits)
  ultimately show ?thesis by blast
qed

theorem DumpCmd_prints_witness:
  "\<exists>s' ts. DumpCmd (fst (demo_env (gChipInfo ! 0) of_nat)) (\<lambda>_. True) (\<lambda>_. 3) (\<lambda>_. 3) (bytes ''3 3'')
       (demo_board (gChipInfo ! 0)) = Inr (RESULT_OK, s') \<and>
     concat ts = dump_text 3 [3, 4, 5] \<and> out s' = map Puts ts"
proof -
  have g: "GetAdrAndLen (\<lambda>_. 3) (\<lambda>_. 3) True (bytes ''3 3'') 0 0 (demo_board (gChipInfo ! 0)) =
      ((RESULT_OK, [], 3, 3), demo_board (gChipInfo ! 0))" by (simp add: parse_simps)
  have b: "BytesOnLine (demo_board (gChipInfo ! 0)) = 0" "out (demo_board (gChipInfo ! 0)) = []"
    by (simp_all add: demo_board_def)
  have "unat (FlashSize (gChipInfo ! 0)) = 8388608" by (simp add: gChipInfo_def)
  moreover have "[3 ..< 6 :: nat] = [3, 4, 5]" by (simp add: upt_rec)
  ultimately show ?thesis
    using DumpCmd_prints [OF demo_ok(1) [OF chip_members(1)] _ b(1) g, of "\<lambda>_. True" of_nat]
    by (simp add: demo_ok dump_span_def b(2)) metis
qed

section \<open>What an erase leaves\<close>

lemma erase_flash_size: "erase_flash dev a n s = Inr s' \<Longrightarrow> flash_size s' = flash_size s \<and> sector_size s' = sector_size s"
  by (drule erase_flash_frame) (simp add: flash_size_def sector_size_def)

lemma sector_ge_2: "flash_ok e s \<Longrightarrow> 2 \<le> sector_size s"
  by (auto simp: flash_ok_def sector_size_def gChipInfo_def)

lemma same_sector: "(a :: nat) mod S = 0 \<Longrightarrow> 0 < S \<Longrightarrow> x div S = a div S \<longleftrightarrow> a \<le> x \<and> x < a + S"
proof -
  assume a: "a mod S = 0" "0 < S"
  define q where "q = a div S"
  have q: "a = q * S" using div_mult_mod_eq [of a S] a(1) by (simp add: q_def)
  show ?thesis
  proof
    assume "x div S = a div S"
    then have "x div S = q" using q a(2) by simp
    then have "x = q * S + x mod S" by (metis div_mult_mod_eq)
    moreover have "x mod S < S" using a(2) by simp
    ultimately show "a \<le> x \<and> x < a + S" unfolding q by linarith
  next
    assume "a \<le> x \<and> x < a + S"
    then have "x div S = q" unfolding q by (intro div_nat_eqI) (simp_all add: mult.commute)
    then show "x div S = a div S" using q a(2) by simp
  qed
qed

lemma erase_cmd_loop_erases:
  assumes "unat E = S" and "0 < S"
  shows "flash_ok e s \<Longrightarrow> sector_size s = S \<Longrightarrow> unat Adr mod S = 0 \<Longrightarrow> unat Adr + S * m = unat EndAdr + 1 \<Longrightarrow>
    unat EndAdr < flash_size s \<Longrightarrow>
    \<exists>s'. erase_cmd_loop (fst e) E Adr EndAdr s = Some (Inr s') \<and> flash_ok e s' \<and>
      out s' = out s @ replicate m (Printf ''.'' []) \<and> gChip s' = gChip s \<and>
      contents e s' = (\<lambda>x. if unat Adr \<le> x \<and> x \<le> unat EndAdr then 0xff else contents e s x)"
proof (induction m arbitrary: Adr s)
  case 0
  then have "\<not> Adr < EndAdr" "\<not> unat Adr \<le> unat EndAdr" by (simp_all add: word_less_nat_alt)
  then show ?case using 0 by (intro exI [of _ s]) (subst erase_cmd_loop.simps, auto simp: fun_eq_iff)
next
  case (Suc m)
  have "2 \<le> S" using sector_ge_2 [OF Suc.prems(1)] Suc.prems(2) by simp
  then have lt: "Adr < EndAdr" using Suc.prems(4) by (simp add: word_less_nat_alt)
  have fit: "unat Adr + S \<le> flash_size s" using Suc.prems(4,5) by simp
  have "flash_size s \<le> 2 ^ 24" using flash.geometry [OF Suc.prems(1)] by simp
  then have uA: "unat (Adr + E) = unat Adr + S" using fit assms by (simp add: unat_word_ariths)
  obtain s1 where s1: "erase_flash (fst e) Adr E s = Inr s1" "flash_ok e s1" "flash_size s1 = flash_size s"
    "sector_size s1 = S" "contents e s1 = erase_sector S (unat Adr) (contents e s)"
    using flash.er_law [OF Suc.prems(1), of E Adr] assms Suc.prems(2,3) fit by auto
  let ?s2 = "NetPrintf ''.'' [] s1"
  have al: "unat (Adr + E) mod S = 0" using Suc.prems(3) by (simp add: uA)
  obtain s' where s': "erase_cmd_loop (fst e) E (Adr + E) EndAdr ?s2 = Some (Inr s')" "flash_ok e s'"
    "out s' = out ?s2 @ replicate m (Printf ''.'' [])" "gChip s' = gChip ?s2"
    "contents e s' = (\<lambda>x. if unat (Adr + E) \<le> x \<and> x \<le> unat EndAdr then 0xff else contents e s1 x)"
  proof -
    have p: "flash_ok e ?s2" "sector_size ?s2 = S" "unat (Adr + E) + S * m = unat EndAdr + 1"
      "unat EndAdr < flash_size ?s2"
      using s1(2,3,4) Suc.prems(4,5) uA by simp_all
    show ?thesis using Suc.IH [OF p(1,2) al p(3,4)] that unfolding NetPrintf_flash by blast
  qed
  have "contents e s' = (\<lambda>x. if unat Adr \<le> x \<and> x \<le> unat EndAdr then 0xff else contents e s x)"
  proof
    fix x
    have "x div S = unat Adr div S \<longleftrightarrow> unat Adr \<le> x \<and> x < unat Adr + S"
      using Suc.prems(3) assms(2) by (rule same_sector)
    then show "contents e s' x = (if unat Adr \<le> x \<and> x \<le> unat EndAdr then 0xff else contents e s x)"
      using Suc.prems(4) by (auto simp: s'(5) s1(5) erase_sector_def uA)
  qed
  then show ?case
    using lt s1(1) s' erase_flash_frame [OF s1(1)]
    by (subst erase_cmd_loop.simps) (auto simp: NetPrintf_def)
qed

text \<open>
  The erase command sets every byte from the start to the end address to \<open>0xFF\<close>,
  leaves every other byte of the flash as it was, and reports the number of kilobytes, when the
  start is a sector boundary and the end is the last byte of a sector.
\<close>

theorem EraseCmd_erases:
  assumes "flash_ok e s" and "gChip s = Some p"
    and "GetAdrAndLen ai ah False line 0 0 s = ((RESULT_OK, line2, Adr, l1), s)"
    and "GetAdrAndLen ai ah False line2 0 0 s = ((RESULT_OK, line3, EndAdr, l2), s)"
    and "unat Adr mod sector_size s = 0" and "(unat EndAdr + 1) mod sector_size s = 0"
    and "Adr \<le> EndAdr" and "unat EndAdr < flash_size s"
  shows "\<exists>s'. EraseCmd (fst e) ai ah line s = Inr (RESULT_OK, s') \<and> flash_ok e s' \<and>
     contents e s' = (\<lambda>x. if unat Adr \<le> x \<and> x \<le> unat EndAdr then 0xff else contents e s x) \<and>
     last (out s') = Printf ''\<newline>Erased %dK\<newline>'' [Num ((EndAdr - Adr + 1) div 1024)]"
proof -
  define S where "S = sector_size s"
  have g: "0 < S" "flash_size s \<le> 2 ^ 24" using flash.geometry [OF assms(1)] by (simp_all add: S_def)
  have E: "unat (EraseSize p) = S"
    using flash_okE [OF assms(1)] assms(2) chip_geometry by (metis S_def option.inject option.simps(5) sector_size_def)
  have le: "unat Adr \<le> unat EndAdr" using assms(7) by (simp add: word_le_nat_alt)
  have uL: "unat (EndAdr - Adr + 1) = unat EndAdr + 1 - unat Adr"
    using le assms(8) g by (simp add: unat_word_ariths unat_sub word_le_nat_alt)
  obtain m where m: "unat Adr + S * m = unat EndAdr + 1"
  proof -
    have "S dvd unat EndAdr + 1" "S dvd unat Adr" using assms(5,6) by (simp_all add: S_def mod_eq_0_iff_dvd)
    then have "S dvd unat EndAdr + 1 - unat Adr" by (rule dvd_diff_nat)
    then obtain m where "unat EndAdr + 1 - unat Adr = S * m" by (auto simp: dvd_def)
    then show ?thesis using le that [of m] by simp
  qed
  have al: "Adr mod EraseSize p = 0" "(EndAdr - Adr + 1) mod EraseSize p = 0"
    using assms(5) m by (simp_all add: word_unat_eq_iff unat_mod E uL S_def)
      (metis add_diff_cancel_left' mod_mult_self1_is_0)
  obtain s1 where s1: "erase_cmd_loop (fst e) (EraseSize p) Adr EndAdr s = Some (Inr s1)" "flash_ok e s1"
    "contents e s1 = (\<lambda>x. if unat Adr \<le> x \<and> x \<le> unat EndAdr then 0xff else contents e s x)"
    using erase_cmd_loop_erases [OF E g(1) assms(1) S_def [symmetric] assms(5) [folded S_def] m assms(8)] by blast
  then show ?thesis
    using assms(2,3,4) al by (simp add: EraseCmd_def Let_def) (simp add: NetPrintf_def)
qed

theorem EraseCmd_erases_witness:
  "\<exists>s'. EraseCmd (fst (demo_env (gChipInfo ! 0) (\<lambda>_. 0))) (\<lambda>t. if length t = 3 then 0 else 0xffff) (\<lambda>_. 0) (bytes ''0 9'')
       (demo_board (gChipInfo ! 0)) = Inr (RESULT_OK, s') \<and>
     contents (demo_env (gChipInfo ! 0) (\<lambda>_. 0)) s' = (\<lambda>x. if x \<le> 0xffff then 0xff else 0)"
proof -
  let ?s = "demo_board (gChipInfo ! 0)"
  let ?a = "\<lambda>t :: cstr. if length t = 3 then 0 else 0xffff :: u32"
  have g: "GetAdrAndLen ?a (\<lambda>_. 0) False (bytes ''0 9'') 0 0 ?s = ((RESULT_OK, bytes ''9'', 0, 0), ?s)"
    "GetAdrAndLen ?a (\<lambda>_. 0) False (bytes ''9'') 0 0 ?s = ((RESULT_OK, [], 0xffff, 0), ?s)"
    by (simp_all add: parse_simps)
  have p: "gChip ?s = Some (gChipInfo ! 0)" by (simp add: demo_board_def)
  have sz: "unat (FlashSize (gChipInfo ! 0)) = 8388608" "unat (SectorSize (gChipInfo ! 0)) = 65536"
    by (simp_all add: gChipInfo_def)
  have h: "unat (0 :: u32) mod sector_size ?s = 0" "(unat (0xffff :: u32) + 1) mod sector_size ?s = 0"
    "(0 :: u32) \<le> 0xffff" "unat (0xffff :: u32) < flash_size ?s" by (simp_all add: demo_ok sz)
  obtain s' where s': "EraseCmd (fst (demo_env (gChipInfo ! 0) (\<lambda>_. 0))) ?a (\<lambda>_. 0) (bytes ''0 9'') ?s = Inr (RESULT_OK, s')"
    "contents (demo_env (gChipInfo ! 0) (\<lambda>_. 0)) s' =
      (\<lambda>x. if unat (0 :: u32) \<le> x \<and> x \<le> unat (0xffff :: u32) then 0xff
        else contents (demo_env (gChipInfo ! 0) (\<lambda>_. 0)) ?s x)"
    using EraseCmd_erases [OF demo_ok(1) [OF chip_members(1)] p g h, of "\<lambda>_. 0"] by blast
  have "contents (demo_env (gChipInfo ! 0) (\<lambda>_. 0)) s' = (\<lambda>x. if x \<le> 0xffff then 0xff else 0)"
    unfolding s'(2) by (simp add: demo_ok fun_eq_iff)
  with s'(1) show ?thesis by blast
qed

section \<open>The map of blank regions\<close>

definition blank :: "(nat \<Rightarrow> u8) \<Rightarrow> nat \<Rightarrow> nat \<Rightarrow> bool" where
  "blank m a n \<longleftrightarrow> (\<forall>x. a \<le> x \<and> x < a + n \<longrightarrow> m x = 0xff)"

lemma blank_0 [simp]: "blank m a 0"
  by (auto simp: blank_def)

lemma blank_append: "blank m a (k + n) \<longleftrightarrow> blank m a k \<and> blank m (a + k) n"
proof -
  have "a \<le> x \<and> x < a + (k + n) \<longleftrightarrow> (a \<le> x \<and> x < a + k) \<or> (a + k \<le> x \<and> x < a + k + n)" for x by auto
  then show ?thesis unfolding blank_def by blast
qed

lemma blank_list: "blank m a n \<longleftrightarrow> map m [a ..< a + n] = replicate n 0xff"
proof
  assume "map m [a ..< a + n] = replicate n 0xff"
  then have "map m [a ..< a + n] ! i = 0xff" if "i < n" for i using that by simp
  then have "m (a + i) = 0xff" if "i < n" for i using that by simp
  note nth = this
  show "blank m a n" unfolding blank_def
  proof (intro allI impI)
    fix x assume "a \<le> x \<and> x < a + n"
    then obtain i where "x = a + i" "i < n" by (metis le_Suc_ex nat_add_left_cancel_less)
    then show "m x = 0xff" using nth [of i] by simp
  qed
qed (auto simp: blank_def intro: nth_equalityI)

definition ff_page :: "u8 list" where
  "ff_page = replicate 256 0xff"

lemma blank_page: "blank m a 256 \<longleftrightarrow> map m [a ..< a + 256] = ff_page"
  unfolding ff_page_def by (rule blank_list)

definition page_two :: "board \<Rightarrow> u8 list" where
  "page_two s = take 256 (drop 256 (gTemp s))"

text \<open>The states between which a check for emptiness leads.\<close>

definition checked :: "env \<Rightarrow> board \<Rightarrow> board \<Rightarrow> bool" where
  "checked e s s' \<longleftrightarrow> flash_ok e s' \<and> contents e s' = contents e s \<and> gChip s' = gChip s \<and>
     out s' = out s \<and> page_two s' = page_two s"

lemma checked_trans: "checked e s s1 \<Longrightarrow> checked e s1 s2 \<Longrightarrow> checked e s s2"
  by (simp add: checked_def)

lemma flash_size_chip: "gChip s' = gChip s \<Longrightarrow> flash_size s' = flash_size s"
  by (simp add: flash_size_def)

lemma read_page:
  assumes "flash_ok e s" and "gChip s = Some p"
  shows "\<exists>s'. read_temp (fst e) a (PageSize p) (s\<lparr>gTemp := fill 0 c 256 (gTemp s)\<rparr>) = Inr s' \<and> checked e s s' \<and>
    length (take 256 (gTemp s')) = 256 \<and>
    (unat a + 256 \<le> flash_size s \<longrightarrow> take 256 (gTemp s') = map (contents e s) [unat a ..< unat a + 256])"
proof -
  from assms(1) obtain q where q: "q \<in> set gChipInfo" "gChip s = Some q" "flash_device q (fst e) (snd e)"
    "length (gTemp s) = 1024" by (rule flash_okE)
  have P: "PageSize p = 256" using q(1,2) assms(2) gChipInfo_geometry by auto
  define t where "t = s\<lparr>gTemp := fill 0 c 256 (gTemp s)\<rparr>"
  have t: "flash_ok e t" "contents e t = contents e s" "flash_size t = flash_size s"
    "gChip t = Some p" "page_two t = page_two s" "gTemp t = replicate 256 c @ drop 256 (gTemp s)" "out t = out s"
    using assms q(4) by (simp_all add: t_def flash_ok_def contents_def flash_size_def fill_def page_two_def)
  have ps: "0 < (256 :: u32)" "(256 :: u32) \<le> PageSize p" by (simp_all add: P)
  obtain s' bs where s': "read_temp (fst e) a 256 t = Inr s'" "flash_ok e s'" "contents e s' = contents e t"
    "length bs = 256" "s' = t\<lparr>gTemp := bs @ drop 256 (gTemp t), spi_tr := spi_tr s'\<rparr>"
    using read_temp_page [OF t(1,4) ps, of a] by auto
  have g: "gTemp s' = bs @ drop 256 (gTemp t)" by (subst s'(5)) simp
  have "take 256 (gTemp s') = map (contents e s) [unat a ..< unat a + 256]" if "unat a + 256 \<le> flash_size s"
    proof -
    have "gTemp s' = map (contents e t) [unat a ..< unat a + unat (256 :: u32)] @ drop (unat (256 :: u32)) (gTemp t)"
      using flash.rd_law [OF t(1), of a 256] that q(4) s'(1) t(3,6) by auto
    then show ?thesis by (simp add: t(2))
  qed
  moreover have "checked e s s'"
    using s'(2,3) t read_temp_frame [OF s'(1)] g s'(4) assms(2)
    by (simp add: checked_def page_two_def)
  ultimately show ?thesis using s'(1,4) g unfolding P t_def by auto
qed

lemma check_loop_blank:
  assumes "gChip s0 = Some p" and "page_two s0 = ff_page"
  shows "checked e s0 s \<Longrightarrow>
    \<exists>b s'. check_loop (fst e) n Adr (PageSize p) s = Inr (b, s') \<and> checked e s0 s' \<and>
      (unat Adr + 256 * n \<le> flash_size s0 \<longrightarrow> b = blank (contents e s0) (unat Adr) (256 * n))"
proof (induction n arbitrary: Adr s)
  case 0
  then show ?case by (intro exI [of _ True] exI [of _ s]) simp
next
  case (Suc n)
  have ok: "flash_ok e s" "gChip s = Some p" "contents e s = contents e s0" "page_two s = page_two s0"
    "flash_size s = flash_size s0"
    using Suc.prems assms(1) by (simp_all add: checked_def flash_size_def)
  then have P: "PageSize p = 256" using gChipInfo_geometry by (auto simp: flash_ok_def)
  obtain s1 where s1: "read_temp (fst e) Adr (PageSize p) (s\<lparr>gTemp := fill 0 0xaa 256 (gTemp s)\<rparr>) = Inr s1"
    "checked e s s1" "length (take 256 (gTemp s1)) = 256"
    "unat Adr + 256 \<le> flash_size s \<Longrightarrow> take 256 (gTemp s1) = map (contents e s) [unat Adr ..< unat Adr + 256]"
    using read_page [OF ok(1,2)] by blast
  have c1: "checked e s0 s1" using checked_trans [OF Suc.prems s1(2)] .
  have p1: "take 256 (drop 256 (gTemp s1)) = ff_page"
    using c1 assms(2) by (simp add: checked_def page_two_def)
  show ?case
  proof (cases "take 256 (gTemp s1) = ff_page")
    case False
    have "check_loop (fst e) (Suc n) Adr (PageSize p) s = Inr (False, s1)"
      using s1(1) False p1 by (simp add: P Let_def)
    moreover have "\<not> blank (contents e s0) (unat Adr) (256 * Suc n)" if "unat Adr + 256 * Suc n \<le> flash_size s0"
      using that s1(4) False ok blank_append [of "contents e s0" "unat Adr" 256 "256 * n"]
        blank_page [of "contents e s0" "unat Adr"] by simp
    ultimately show ?thesis using c1 by blast
  next
    case True
    have run: "check_loop (fst e) (Suc n) Adr (PageSize p) s = check_loop (fst e) n (Adr + PageSize p) (PageSize p) s1"
      using s1(1) True p1 by (simp add: P Let_def)
    obtain b s' where s': "check_loop (fst e) n (Adr + PageSize p) (PageSize p) s1 = Inr (b, s')" "checked e s0 s'"
      "unat (Adr + PageSize p) + 256 * n \<le> flash_size s0 \<longrightarrow>
         b = blank (contents e s0) (unat (Adr + PageSize p)) (256 * n)"
      using Suc.IH [OF c1] by blast
    have "b = blank (contents e s0) (unat Adr) (256 * Suc n)" if fit: "unat Adr + 256 * Suc n \<le> flash_size s0"
    proof -
      have "flash_size s0 \<le> 2 ^ 24" using flash.geometry [OF ok(1)] ok(5) by simp
      then have uA: "unat (Adr + 256) = unat Adr + 256" using fit by (simp add: unat_word_ariths)
      have "blank (contents e s0) (unat Adr) 256"
        using s1(4) True fit ok by (simp add: blank_page)
      then show ?thesis
        using s'(3) fit blank_append [of "contents e s0" "unat Adr" 256 "256 * n"] by (simp add: P uA)
    qed
    then show ?thesis using run s' by auto
  qed
qed

lemma CheckEmpty_blank:
  assumes "checked e s0 s" and "gChip s0 = Some p" and "page_two s0 = ff_page"
  shows "\<exists>b s'. CheckEmpty (fst e) Adr (PageSize p) (EraseSize p) s = Inr (b, s') \<and> checked e s0 s' \<and>
    (unat Adr + sector_size s0 \<le> flash_size s0 \<longrightarrow> b = blank (contents e s0) (unat Adr) (sector_size s0))"
proof -
  have ok: "flash_ok e s" "gChip s = Some p" using assms(1,2) by (simp_all add: checked_def)
  then have p: "PageSize p = 256" "p \<in> set gChipInfo" "length (gTemp s) = 1024"
    using gChipInfo_geometry by (auto simp: flash_ok_def)
  have "256 * nat (sint (EraseSize p div PageSize p)) = sector_size s0"
    using p(2) assms(2) by (auto simp: gChipInfo_def sector_size_def)
  with check_loop_blank [OF assms(2,3,1), of "nat (sint (EraseSize p div PageSize p))" Adr] p
  show ?thesis by (simp add: CheckEmpty_def)
qed

text \<open>
  The specification of the map: the maximal runs of blank and of used sectors, each with its
  first sector, the sector after its last one, and whether it is blank.
\<close>

fun regions :: "nat \<Rightarrow> bool \<Rightarrow> nat \<Rightarrow> bool list \<Rightarrow> (nat \<times> nat \<times> bool) list" where
  "regions a v k [] = [(a, k, v)]"
| "regions a v k (b # bs) = (if b = v then regions a v (k + 1) bs else (a, k, v) # regions k b (k + 1) bs)"

definition region_start :: "nat \<Rightarrow> nat \<Rightarrow> msg" where
  "region_start S a = Printf ''0x%06x -> '' [Num (of_nat (a * S))]"

definition region_end :: "nat \<Rightarrow> nat \<Rightarrow> nat \<Rightarrow> bool \<Rightarrow> msg" where
  "region_end S a k v = Printf ''0x%06x %4d K %sempty\<newline>''
     [Num (of_nat (k * S - 1)), Num (of_nat ((k - a) * S div 1024)), Text (if v then [] else bytes ''not '')]"

definition region_msgs :: "nat \<Rightarrow> (nat \<times> nat \<times> bool) list \<Rightarrow> msg list" where
  "region_msgs S rs = concat (map (\<lambda>(a, k, v). [region_start S a, region_end S a k v]) rs)"

lemma regions_head: "\<exists>k' v' rs. regions a v k bs = (a, k', v') # rs"
  by (induction bs arbitrary: a v k) auto

lemma region_msgs_head: "region_msgs S (regions a v k bs) = region_start S a # tl (region_msgs S (regions a v k bs))"
  using regions_head [of a v k bs] by (auto simp: region_msgs_def)

lemma region_end_word:
  assumes "a < k" and "k * S \<le> 2 ^ 24" and "0 < S"
  shows "Printf ''0x%06x %4d K %sempty\<newline>''
     [Num (of_nat (k * S) - 1), Num ((of_nat (k * S) - of_nat (a * S)) div 1024), Text (if v then [] else bytes ''not '')] =
     region_end S a k v"
proof -
  have pos: "0 < k * S" using assms by simp
  have 1: "(of_nat (k * S) - 1 :: u32) = of_nat (k * S - 1)" using pos by (simp add: of_nat_diff)
  have le: "a * S \<le> k * S" using assms(1) by simp
  have 2: "(of_nat (k * S) - of_nat (a * S) :: u32) = of_nat (k * S - a * S)" using le by (simp add: of_nat_diff)
  have 3: "(of_nat (k * S - a * S) :: u32) div 1024 = of_nat ((k - a) * S div 1024)"
  proof -
    have "unat (of_nat (k * S - a * S) :: u32) = k * S - a * S"
      using assms(2) by (simp add: unsigned_of_nat take_bit_nat_eq_self)
    moreover have "unat (of_nat ((k * S - a * S) div 1024) :: u32) = (k * S - a * S) div 1024"
      using assms(2) by (simp add: unsigned_of_nat take_bit_nat_eq_self div_le_dividend le_less_trans)
    ultimately show ?thesis by (simp add: word_unat_eq_iff unat_div diff_mult_distrib)
  qed
  show ?thesis unfolding region_end_def 1 2 3 by simp
qed

lemma checked_printing: "checked e s0 s1 \<Longrightarrow> checked e (s0\<lparr>out := x\<rparr>) (s1\<lparr>out := x\<rparr>)"
  by (auto simp: checked_def page_two_def)

definition map_state :: "env \<Rightarrow> board \<Rightarrow> board \<Rightarrow> bool" where
  "map_state e s0 s \<longleftrightarrow> flash_ok e s \<and> contents e s = contents e s0 \<and> gChip s = gChip s0 \<and> page_two s = ff_page"

lemma map_state_print: "map_state e s0 s \<Longrightarrow> map_state e s0 (NetPrintf fmt xs s)"
  by (simp add: map_state_def NetPrintf_def page_two_def)

lemma word_of_unat: "unat (w :: u32) = n \<Longrightarrow> w = of_nat n"
  by auto

lemma map_loop_step:
  assumes g: "gChip s0 = Some p" "sector_size s0 = S" "flash_size s0 = N * S" "N * S \<le> 2 ^ 24" "0 < S"
    and s: "map_state e s0 s" and k: "a \<le> k" "k < N"
  obtains b s2 where "map_state e s0 s2" and "out s2 = out s @ (if a = k then [region_start S a] else [])"
    and "k + 1 < N \<Longrightarrow> b = blank (contents e s0) ((k + 1) * S) S"
    and "v \<noteq> b \<or> k + 1 = N \<Longrightarrow>
      map_loop (fst e) p (of_nat (k * S)) (of_nat (a * S)) v (a = k) s =
      map_loop (fst e) p (of_nat ((k + 1) * S)) (of_nat ((k + 1) * S)) (\<not> v) True
        (s2\<lparr>out := out s2 @ [region_end S a (k + 1) v]\<rparr>)"
    and "v = b \<Longrightarrow> k + 1 < N \<Longrightarrow>
      map_loop (fst e) p (of_nat (k * S)) (of_nat (a * S)) v (a = k) s =
      map_loop (fst e) p (of_nat ((k + 1) * S)) (of_nat (a * S)) v False s2"
proof -
  define s1 where "s1 = (if a = k then NetPrintf ''0x%06x -> '' [Num (of_nat (k * S))] s else s)"
  have m1: "map_state e s0 s1" using s by (simp add: s1_def map_state_print)
  then have "checked e s1 s1" "gChip s1 = Some p" "page_two s1 = ff_page"
    using g(1) by (simp_all only: map_state_def checked_def simp_thms)
  note ce = CheckEmpty_blank [OF this]
  have "flash_ok e s0 \<Longrightarrow> EraseSize p = of_nat S" using g(1,2) chip_geometry
    by (auto simp: flash_ok_def sector_size_def)
  have E: "EraseSize p = of_nat S" "FlashSize p = of_nat (N * S)"
  proof -
    have "p \<in> set gChipInfo" using s g(1) by (auto simp: map_state_def flash_ok_def)
    from chip_geometry [OF this] g(1,2) show "EraseSize p = of_nat S" by (auto simp: sector_size_def)
    from g(1,3) have "unat (FlashSize p) = N * S" by (simp add: flash_size_def)
    then show "FlashSize p = of_nat (N * S)" by (rule word_of_unat)
  qed
  define A1 where "A1 = (of_nat ((k + 1) * S) :: u32)"
  have small: "j * S \<le> 2 ^ 24" if "j \<le> N" for j
    using that g(4) mult_le_mono1 [of j N S] by linarith
  have uj: "unat (of_nat (j * S) :: u32) = j * S" if "j \<le> N" for j
    using small [OF that] by (intro unat_of_nat_u32) simp
  have A1: "of_nat (k * S) + EraseSize p = A1" "unat A1 = (k + 1) * S"
    using uj [of "k + 1"] k by (simp_all add: A1_def E algebra_simps)
  obtain b s2 where c: "CheckEmpty (fst e) A1 (PageSize p) (EraseSize p) s1 = Inr (b, s2)" "checked e s1 s2"
    "unat A1 + sector_size s1 \<le> flash_size s1 \<longrightarrow> b = blank (contents e s1) (unat A1) (sector_size s1)"
    using ce [of A1] by blast
  have m2: "map_state e s0 s2" using c(2) m1 by (simp add: checked_def map_state_def)
  have sz: "sector_size s1 = S" "flash_size s1 = N * S" "contents e s1 = contents e s0"
    using m1 g by (simp_all add: map_state_def sector_size_def flash_size_def)
  have b: "b = blank (contents e s0) ((k + 1) * S) S" if "k + 1 < N"
  proof -
    have "(k + 1) * S + S \<le> N * S" using that mult_le_mono1 [of "k + 2" N S] by simp
    then show ?thesis using c(3) by (simp only: sz A1 simp_thms)
  qed
  have lt: "(of_nat (k * S) :: u32) < FlashSize p"
    using uj [of k] uj [of N] k g(5) by (simp add: E word_less_nat_alt)
  have end_iff: "A1 = FlashSize p \<longleftrightarrow> k + 1 = N"
  proof -
    have "A1 = FlashSize p \<longleftrightarrow> (k + 1) * S = N * S"
      unfolding E(2) word_unat_eq_iff A1(2) uj [OF order_refl] ..
    also have "\<dots> \<longleftrightarrow> k + 1 = N" using g(5) by (simp only: mult_cancel2) simp
    finally show ?thesis .
  qed
  have o2: "out s2 = out s @ (if a = k then [region_start S a] else [])"
    using c(2) by (simp add: checked_def s1_def NetPrintf_def region_start_def)
  have msg: "NetPrintf ''0x%06x %4d K %sempty\<newline>''
      [Num (A1 - 1), Num ((A1 - of_nat (a * S)) div 1024), Text (if v then [] else bytes ''not '')] s2 =
      s2\<lparr>out := out s2 @ [region_end S a (k + 1) v]\<rparr>"
    using region_end_word [of a "k + 1" S v] k small [of "k + 1"] g(5) by (simp add: A1_def NetPrintf_def)
  have run: "map_loop (fst e) p (of_nat (k * S)) (of_nat (a * S)) v (a = k) s =
     (let b' = (if v = b \<and> A1 = FlashSize p then \<not> b else b) in
      if v \<noteq> b' then map_loop (fst e) p A1 A1 b' True
          (NetPrintf ''0x%06x %4d K %sempty\<newline>'' [Num (A1 - 1), Num ((A1 - of_nat (a * S)) div 1024),
             Text (if \<not> b' then [] else bytes ''not '')] s2)
      else map_loop (fst e) p A1 (of_nat (a * S)) v False s2)"
    using lt c(1) by (subst map_loop.simps) (simp only: if_True Let_def A1(1) s1_def [symmetric] sum.case prod.case)
  show ?thesis
  proof (rule that [OF m2 o2 b])
    assume "v \<noteq> b \<or> k + 1 = N"
    then have "(if v = b \<and> A1 = FlashSize p then \<not> b else b) = (\<not> v)" using end_iff by auto
    then show "map_loop (fst e) p (of_nat (k * S)) (of_nat (a * S)) v (a = k) s =
      map_loop (fst e) p (of_nat ((k + 1) * S)) (of_nat ((k + 1) * S)) (\<not> v) True
        (s2\<lparr>out := out s2 @ [region_end S a (k + 1) v]\<rparr>)"
      unfolding run Let_def A1_def [symmetric] msg [symmetric] by simp
  next
    assume "v = b" "k + 1 < N"
    then have "(if v = b \<and> A1 = FlashSize p then \<not> b else b) = v" using end_iff by auto
    then show "map_loop (fst e) p (of_nat (k * S)) (of_nat (a * S)) v (a = k) s =
      map_loop (fst e) p (of_nat ((k + 1) * S)) (of_nat (a * S)) v False s2"
      unfolding run Let_def A1_def [symmetric] by simp
  qed
qed

lemma map_loop_end:
  assumes "gChip s0 = Some p" "flash_size s0 = n" and "map_state e s0 s"
  shows "map_loop (fst e) p (of_nat n) l v c s = Some (Inr s)"
proof -
  have "FlashSize p = of_nat n" using assms(1,2) by (auto simp: flash_size_def)
  then show ?thesis by (subst map_loop.simps) simp
qed

lemma map_loop_regions:
  assumes g: "gChip s0 = Some p" "sector_size s0 = S" "flash_size s0 = N * S" "N * S \<le> 2 ^ 24" "0 < S"
  shows "map_state e s0 s \<Longrightarrow> a \<le> k \<Longrightarrow> k + 1 + length bs = N \<Longrightarrow>
    bs = map (\<lambda>i. blank (contents e s0) (i * S) S) [k + 1 ..< N] \<Longrightarrow>
    \<exists>s'. map_loop (fst e) p (of_nat (k * S)) (of_nat (a * S)) v (a = k) s = Some (Inr s') \<and> map_state e s0 s' \<and>
      out s' = out s @ (if a = k then id else tl) (region_msgs S (regions a v (k + 1) bs))"
proof (induction bs arbitrary: a k v s)
  case Nil
  then have k: "k + 1 = N" "k < N" by simp_all
  obtain b s2 where st: "map_state e s0 s2" "out s2 = out s @ (if a = k then [region_start S a] else [])"
    "map_loop (fst e) p (of_nat (k * S)) (of_nat (a * S)) v (a = k) s =
      map_loop (fst e) p (of_nat ((k + 1) * S)) (of_nat ((k + 1) * S)) (\<not> v) True
        (s2\<lparr>out := out s2 @ [region_end S a (k + 1) v]\<rparr>)"
    using map_loop_step [OF g Nil.prems(1,2) k(2), of v] k(1) by metis
  let ?s3 = "s2\<lparr>out := out s2 @ [region_end S a (k + 1) v]\<rparr>"
  have m3: "map_state e s0 ?s3" using st(1) by (simp add: map_state_def page_two_def)
  have kN: "(k + 1) * S = N * S" using k(1) by simp
  have "map_loop (fst e) p (of_nat (k * S)) (of_nat (a * S)) v (a = k) s = Some (Inr ?s3)"
    unfolding st(3) by (simp only: kN map_loop_end [OF g(1,3) m3])
  with m3 st(2) show ?case by (auto simp: region_msgs_def)
next
  case (Cons b' bs)
  have k: "k < N" "k + 1 < N" using Cons.prems(3) by simp_all
  have tail: "b' = blank (contents e s0) ((k + 1) * S) S"
    "bs = map (\<lambda>i. blank (contents e s0) (i * S) S) [k + 1 + 1 ..< N]"
    using Cons.prems(4) k(2) by (simp_all add: upt_conv_Cons)
  obtain b s2 where st: "map_state e s0 s2" "out s2 = out s @ (if a = k then [region_start S a] else [])"
    "b = b'"
    "v \<noteq> b \<Longrightarrow> map_loop (fst e) p (of_nat (k * S)) (of_nat (a * S)) v (a = k) s =
      map_loop (fst e) p (of_nat ((k + 1) * S)) (of_nat ((k + 1) * S)) (\<not> v) True
        (s2\<lparr>out := out s2 @ [region_end S a (k + 1) v]\<rparr>)"
    "v = b \<Longrightarrow> map_loop (fst e) p (of_nat (k * S)) (of_nat (a * S)) v (a = k) s =
      map_loop (fst e) p (of_nat ((k + 1) * S)) (of_nat (a * S)) v False s2"
    using map_loop_step [OF g Cons.prems(1,2) k(1), of v] k(2) tail(1) by metis
  have len: "k + 1 + 1 + length bs = N" using Cons.prems(3) by simp
  show ?case
  proof (cases "v = b")
    case True
    have ak: "(a = k + 1) = False" "a \<le> k + 1" using Cons.prems(2) by simp_all
    obtain s' where s': "map_loop (fst e) p (of_nat ((k + 1) * S)) (of_nat (a * S)) v False s2 = Some (Inr s')"
      "map_state e s0 s'" "out s' = out s2 @ tl (region_msgs S (regions a v (k + 1 + 1) bs))"
      using Cons.IH [OF st(1) ak(2) len tail(2), of v] unfolding ak(1) if_False by blast
    have "regions a v (k + 1) (b' # bs) = regions a v (k + 1 + 1) bs" using True st(3) by simp
    then show ?thesis
      using st(5) [OF True] s' st(2) region_msgs_head [of S a v "k + 1 + 1" bs] by auto
  next
    case False
    let ?s3 = "s2\<lparr>out := out s2 @ [region_end S a (k + 1) v]\<rparr>"
    have m3: "map_state e s0 ?s3" using st(1) by (simp add: map_state_def page_two_def)
    obtain s' where s': "map_loop (fst e) p (of_nat ((k + 1) * S)) (of_nat ((k + 1) * S)) (\<not> v) True ?s3 = Some (Inr s')"
      "map_state e s0 s'" "out s' = out ?s3 @ region_msgs S (regions (k + 1) (\<not> v) (k + 1 + 1) bs)"
      using Cons.IH [OF m3 order_refl len tail(2), of "\<not> v"] by auto
    have "regions a v (k + 1) (b' # bs) = (a, k + 1, v) # regions (k + 1) (\<not> v) (k + 1 + 1) bs"
      using False st(3) by auto
    then have "region_msgs S (regions a v (k + 1) (b' # bs)) =
        region_start S a # region_end S a (k + 1) v # region_msgs S (regions (k + 1) (\<not> v) (k + 1 + 1) bs)"
      by (simp add: region_msgs_def)
    then show ?thesis using st(4) [OF False] s' st(2) by auto
  qed
qed

definition blank_sectors :: "env \<Rightarrow> board \<Rightarrow> bool list" where
  "blank_sectors e s =
     map (\<lambda>i. blank (contents e s) (i * sector_size s) (sector_size s)) [0 ..< flash_size s div sector_size s]"

text \<open>
  The map command reports the flash: after its headline it prints one line per
  maximal run of blank or of used sectors, in ascending order, with the run's first and last
  address, its size in kilobytes and whether it is blank, and it changes nothing.
\<close>

theorem MapCmd_reports_regions:
  assumes "flash_ok e s"
  shows "\<exists>s' headline. MapCmd (fst e) s = Inr (RESULT_OK, s') \<and> flash_ok e s' \<and> contents e s' = contents e s \<and>
     out s' = out s @ headline # region_msgs (sector_size s) (regions 0 (hd (blank_sectors e s)) 1 (tl (blank_sectors e s)))"
proof -
  from assms obtain p where p: "p \<in> set gChipInfo" "gChip s = Some p" "flash_device p (fst e) (snd e)"
    "length (gTemp s) = 1024" by (rule flash_okE)
  have P: "PageSize p = 256" using gChipInfo_geometry [OF p(1)] by simp
  define S N where "S = sector_size s" and "N = flash_size s div S"
  have g: "0 < S" "S \<le> flash_size s" "flash_size s = N * S" "N * S \<le> 2 ^ 24"
    using flash.geometry [OF assms] by (auto simp: S_def N_def)
  then have N: "0 < N" by (cases N) auto
  define s0 where "s0 = s\<lparr>gTemp := fill 256 0xff 256 (gTemp s)\<rparr>"
  have s0: "flash_ok e s0" "contents e s0 = contents e s" "gChip s0 = Some p" "out s0 = out s"
    "sector_size s0 = S" "flash_size s0 = N * S" "page_two s0 = ff_page"
    using assms p(2,4) g(3)
    by (simp_all add: s0_def flash_ok_def contents_def sector_size_def flash_size_def S_def fill_def page_two_def ff_page_def)
  have P': "0 < PageSize p" "PageSize p \<le> PageSize p" by (simp_all add: P)
  obtain s1 where s1: "read_temp (fst e) 0 (PageSize p) s0 = Inr s1" "checked e s0 s1"
  proof -
    obtain s' bs where r: "read_temp (fst e) 0 (PageSize p) s0 = Inr s'" "flash_ok e s'" "contents e s' = contents e s0"
      "length bs = 256" "s' = s0\<lparr>gTemp := bs @ drop 256 (gTemp s0), spi_tr := spi_tr s'\<rparr>"
      using read_temp_page [OF s0(1,3) P', of 0] by (auto simp: P)
    have "gTemp s' = bs @ drop 256 (gTemp s0)" by (subst r(5)) simp
    then have "page_two s' = page_two s0" using r(4) by (simp add: page_two_def)
    then have "checked e s0 s'" using r(2,3) read_temp_frame [OF r(1)] by (simp add: checked_def)
    from that [OF r(1) this] show ?thesis .
  qed
  obtain b s2 where s2: "CheckEmpty (fst e) 0 (PageSize p) (EraseSize p) s1 = Inr (b, s2)" "checked e s0 s2"
    "b = blank (contents e s) 0 S"
    using CheckEmpty_blank [OF s1(2) s0(3,7), of 0] s0 g by auto
  define h where "h = Printf ''%s: %d MB, %d KB sectors\<newline>''
     [Text (Desc p), Num (FlashSize p div (1024 * 1024)), Num (EraseSize p div 1024)]"
  let ?s3 = "s2\<lparr>out := out s2 @ [h]\<rparr>"
  have m3: "map_state e s0 ?s3" using s2(2) s0 by (simp add: map_state_def checked_def page_two_def)
  let ?bs = "map (\<lambda>i. blank (contents e s0) (i * S) S) [0 + 1 ..< N]"
  obtain s4 where s4: "map_loop (fst e) p (of_nat (0 * S)) (of_nat (0 * S)) b (0 = (0 :: nat)) ?s3 = Some (Inr s4)"
    "map_state e s0 s4" "out s4 = out ?s3 @ (if 0 = (0 :: nat) then id else tl) (region_msgs S (regions 0 b (0 + 1) ?bs))"
    using map_loop_regions [OF s0(3,5,6) g(4,1) m3 order_refl _ refl, of 0 b] N by auto
  have bl: "blank_sectors e s = b # ?bs"
    using N by (simp add: blank_sectors_def S_def [symmetric] N_def [symmetric] upt_conv_Cons s2(3) s0(2))
  have run: "MapCmd (fst e) s = Inr (RESULT_OK, s4)"
    using p(2,4) P s1(1) s2(1) s4(1)
    by (simp add: MapCmd_def Let_def s0_def [symmetric] h_def NetPrintf_def)
  have "out s4 = out s @ h # region_msgs S (regions 0 (hd (blank_sectors e s)) 1 (tl (blank_sectors e s)))"
    using s4(3) s2(2) s0(4) by (simp add: bl checked_def)
  then show ?thesis using run s4(2) s0(2) by (auto simp: map_state_def S_def)
qed

theorem MapCmd_reports_regions_witness:
  "\<exists>s' headline. MapCmd (fst (demo_env (gChipInfo ! 1) (\<lambda>_. 0xff))) (demo_board (gChipInfo ! 1)) = Inr (RESULT_OK, s') \<and>
     length (out s') \<ge> 3 \<and> out s' ! 0 = headline \<and> out s' ! 1 = Printf ''0x%06x -> '' [Num 0]"
proof -
  let ?e = "demo_env (gChipInfo ! 1) (\<lambda>_. 0xff)" and ?s = "demo_board (gChipInfo ! 1)"
  obtain s' h where "MapCmd (fst ?e) ?s = Inr (RESULT_OK, s')"
    "out s' = out ?s @ h # region_msgs (sector_size ?s) (regions 0 (hd (blank_sectors ?e ?s)) 1 (tl (blank_sectors ?e ?s)))"
    using MapCmd_reports_regions [OF demo_ok(1) [OF chip_members(2)], of "\<lambda>_. 0xff"] by blast
  moreover obtain k v rs where "regions 0 (hd (blank_sectors ?e ?s)) 1 (tl (blank_sectors ?e ?s)) = (0, k, v) # rs"
    using regions_head by blast
  moreover have "out ?s = []" by (simp add: demo_board_def)
  ultimately show ?thesis by (intro exI [of _ s'] exI [of _ h]) (simp add: region_msgs_def region_start_def)
qed

end
