(* ===== verification/Data_Block.thy ===== *)
theory Data_Block
  imports Flash_Commands
begin

text \<open>
  The two blocks of settings kept in flash (\<open>main.c\<close>): the board information block with the MAC
  address and serial number, and the data block, a list of tagged values to which entries are
  only ever appended. The lemmas relate the walk over the raw buffer to the list of entries it
  encodes, and follow an entry through \<open>AddBoardInfo\<close> and the flash back into the settings.
\<close>

section \<open>Words in memory\<close>

text \<open>The RISC-V core is little endian. \<open>ld32\<close> is a load from the scratch buffer at a byte offset.\<close>

definition le32 :: "u8 list \<Rightarrow> u32" where
  "le32 bs = of_nat (unat (bs ! 0) + 256 * unat (bs ! 1) + 65536 * unat (bs ! 2) + 16777216 * unat (bs ! 3))"

definition le_bytes :: "u32 \<Rightarrow> u8 list" where
  "le_bytes w = [ucast w, ucast (drop_bit 8 w), ucast (drop_bit 16 w), ucast (drop_bit 24 w)]"

definition ld32 :: "u8 list \<Rightarrow> u32 \<Rightarrow> u32 option" where
  "ld32 xs off = (if unat off + 4 \<le> length xs then Some (le32 (take 4 (drop (unat off) xs))) else None)"

definition ld16 :: "u8 list \<Rightarrow> nat \<Rightarrow> u16" where
  "ld16 xs i = of_nat (unat (xs ! i) + 256 * unat (xs ! (i + 1)))"

definition htonl :: "u32 \<Rightarrow> u32" where
  "htonl w = le32 (rev (le_bytes w))"

section \<open>The board information block\<close>

record PanoInfoBlock_t =
  Type :: u16
  Register :: u16
  Value :: u32

definition INFO_TYPE_CFG_WR :: u16 where "INFO_TYPE_CFG_WR = 0x10"
definition CFG_REG_BRD_ID :: u16 where "CFG_REG_BRD_ID = 0x0000"
definition CFG_REG_SERIAL0 :: u16 where "CFG_REG_SERIAL0 = 0x0400"
definition CFG_REG_SERIAL1 :: u16 where "CFG_REG_SERIAL1 = 0x0500"
definition CFG_REG_SERIAL2 :: u16 where "CFG_REG_SERIAL2 = 0x0600"
definition CFG_REG_SERIAL3 :: u16 where "CFG_REG_SERIAL3 = 0x0700"
definition CFG_REG_MAC_MSB :: u16 where "CFG_REG_MAC_MSB = 0x1000"
definition CFG_REG_MAC_LSB :: u16 where "CFG_REG_MAC_LSB = 0x1100"

lemmas info_consts = INFO_TYPE_CFG_WR_def CFG_REG_BRD_ID_def CFG_REG_SERIAL0_def CFG_REG_SERIAL1_def
  CFG_REG_SERIAL2_def CFG_REG_SERIAL3_def CFG_REG_MAC_MSB_def CFG_REG_MAC_LSB_def

definition byte_of :: "nat \<Rightarrow> u32 \<Rightarrow> u8" where
  "byte_of k w = ucast (drop_bit (8 * k) w)"

text \<open>The two \<open>switch\<close> statements on one entry of the block.\<close>

definition info_entry :: "PanoInfoBlock_t \<Rightarrow> board \<Rightarrow> board" where
  "info_entry b s =
     (let v = Value b; r = Register b in
      if Type b \<noteq> INFO_TYPE_CFG_WR then s
      else if r = CFG_REG_BRD_ID then s\<lparr>gBoardID := htonl v\<rparr>
      else if r = CFG_REG_MAC_MSB
      then s\<lparr>gEtherMac := (gEtherMac s)[1 := byte_of 3 v, 0 := byte_of 2 v]\<rparr>
      else if r = CFG_REG_MAC_LSB
      then s\<lparr>gEtherMac := (gEtherMac s)[5 := byte_of 3 v, 4 := byte_of 2 v, 3 := byte_of 1 v, 2 := byte_of 0 v]\<rparr>
      else if r = CFG_REG_SERIAL0 \<or> r = CFG_REG_SERIAL1 \<or> r = CFG_REG_SERIAL2 \<or> r = CFG_REG_SERIAL3
      then let SerialByte = unat (drop_bit 6 r AND 0xC) in
           s\<lparr>gPanoSerial := (gPanoSerial s)[SerialByte := byte_of 3 v, SerialByte + 1 := byte_of 2 v,
                                            SerialByte + 2 := byte_of 1 v, SerialByte + 3 := byte_of 0 v]\<rparr>
      else s)"

text \<open>The first entry is always taken; the loop ends at the buffer's end or at a type \<open>0xFFFF\<close>.\<close>

fun info_loop :: "PanoInfoBlock_t list \<Rightarrow> board \<Rightarrow> board" where
  "info_loop [] s = s"
| "info_loop (b # bs) s =
     (let s1 = info_entry b s in
      if bs \<noteq> [] \<and> Type (hd bs) \<noteq> 0xffff then info_loop bs s1 else s1)"

definition info_entries :: "u8 list \<Rightarrow> PanoInfoBlock_t list" where
  "info_entries xs =
     map (\<lambda>i. \<lparr>Type = ld16 xs (8 * i), Register = ld16 xs (8 * i + 2), Value = le32 (take 4 (drop (8 * i + 4) xs))\<rparr>)
       [0 ..< length xs div 8]"

definition ParseInfoBlock :: "device \<Rightarrow> board \<Rightarrow> (u32 \<times> board) res" where
  "ParseInfoBlock dev s =
     rbind (read_temp dev 0x8c0000 sizeof_gTemp (s\<lparr>gBoardID := 0\<rparr>)) (\<lambda>s1.
       let s2 = info_loop (info_entries (gTemp s1)) s1 in Inr (gBoardID s2, s2))"

section \<open>The data block\<close>

definition TAG_AUTO_BOOT :: u32 where "TAG_AUTO_BOOT = 449220"
definition TAG_AUTO_BOOT_ADR :: u32 where "TAG_AUTO_BOOT_ADR = 449221"
definition TAG_TFTP_SRV :: u32 where "TAG_TFTP_SRV = 449222"

text \<open>\<open>ValueLen\<close> rounded up to a multiple of four, with its wrap around.\<close>

definition round4 :: "u32 \<Rightarrow> u32" where
  "round4 n = (if n AND 3 \<noteq> 0 then n + (4 - (n AND 3)) else n)"

definition set_server :: "u32 \<Rightarrow> board \<Rightarrow> board" where
  "set_server v s = s\<lparr>gTftp := (gTftp s)\<lparr>ServerIP := v\<rparr>\<rparr>"

definition show_server :: "u32 \<Rightarrow> board \<Rightarrow> board" where
  "show_server v s = NetPrintf (''TFTP Server: %d.%d.%d.%d'' @ crlf)
     [Num (v AND 0xff), Num (drop_bit 8 (v AND 0xff00)), Num (drop_bit 16 (v AND 0xff0000)),
      Num (drop_bit 24 (v AND 0xff000000))] s"

text \<open>What \<open>ParseDataBlock\<close> does with a tag whose value is at \<open>pValue\<close>.\<close>

definition data_tag :: "bool \<Rightarrow> bool \<Rightarrow> u32 \<Rightarrow> u32 \<Rightarrow> board \<Rightarrow> board res" where
  "data_tag apl verbose Tag pValue s =
     (if Tag = TAG_TFTP_SRV \<and> (verbose \<or> apl) then
        (case ld32 (gTemp s) pValue of
           None \<Rightarrow> Inl OutOfBounds
         | Some v \<Rightarrow>
             let s1 = (if verbose then show_server v s else s)
             in Inr (if apl then set_server v s1 else s1))
      else Inr s)"

text \<open>
  The walk over the tags; \<open>off\<close> is \<open>pU32 - gTemp\<close>, an address difference and so a 32-bit word.
  The result is the offset of the first free word, or \<open>None\<close> where the code sets \<open>pU32\<close> to
  \<open>NULL\<close>.
\<close>

partial_function (option) data_loop :: "bool \<Rightarrow> bool \<Rightarrow> u32 \<Rightarrow> board \<Rightarrow> (u32 option \<times> board) res option" where
  "data_loop apl verbose off s =
     (case (ld32 (gTemp s) off, ld32 (gTemp s) (off + 4)) of
        (None, _) \<Rightarrow> Some (Inl OutOfBounds)
      | (Some Tag, len) \<Rightarrow>
          if Tag = 0xffffffff then Some (Inr (Some off, s))
          else (case len of
             None \<Rightarrow> Some (Inl OutOfBounds)
           | Some ValueLen \<Rightarrow>
               (let pValue = off + 8; off' = pValue + round4 ValueLen in
                if off' > sizeof_gTemp - 4 then Some (Inr (None, s))
                else case data_tag apl verbose Tag pValue s of
                       Inl f \<Rightarrow> Some (Inl f)
                     | Inr s1 \<Rightarrow> data_loop apl verbose off' s1)))"

definition data_page :: "FlashInfo_t \<Rightarrow> u32" where
  "data_page p = FlashSize p - EraseSize p"

definition ParseDataBlock :: "device \<Rightarrow> bool \<Rightarrow> bool \<Rightarrow> board \<Rightarrow> (u32 \<times> board) res" where
  "ParseDataBlock dev apl verbose s =
     (case gChip s of
        None \<Rightarrow> Inl NullPtr
      | Some p \<Rightarrow>
          rbind (read_temp dev (data_page p) sizeof_gTemp s) (\<lambda>s1.
          rbind (rbind (of_loop (data_loop apl verbose 0 s1)) (\<lambda>r. r)) (\<lambda>(pU32, s2).
            case pU32 of
              Some off \<Rightarrow> Inr (data_page p + off, s2)
            | None \<Rightarrow> rbind (CheckEmpty dev (data_page p) (PageSize p) (EraseSize p) s2) (\<lambda>(empty, s3).
                        Inr (if empty then data_page p else 0, s3)))))"

text \<open>The walk of \<open>CheckDataTag\<close>; its result is \<open>TagDirty\<close>.\<close>

partial_function (option) check_tag_loop ::
  "u8 list \<Rightarrow> u32 \<Rightarrow> u8 list \<Rightarrow> u32 \<Rightarrow> bool \<Rightarrow> bool res option" where
  "check_tag_loop buf cTag cData off dirty =
     (case (ld32 buf off, ld32 buf (off + 4)) of
        (None, _) \<Rightarrow> Some (Inl OutOfBounds)
      | (Some Tag, len) \<Rightarrow>
          if Tag = 0xffffffff then Some (Inr dirty)
          else (case len of
             None \<Rightarrow> Some (Inl OutOfBounds)
           | Some DataLen \<Rightarrow>
               (let pValue = off + 8; off' = pValue + round4 DataLen in
                if off' > sizeof_gTemp - 4 then Some (Inr dirty)
                else if Tag = cTag then
                  (if unat DataLen \<noteq> length cData then check_tag_loop buf cTag cData off' True
                   else if length buf < unat pValue + length cData then Some (Inl OutOfBounds)
                   else check_tag_loop buf cTag cData off'
                          (take (length cData) (drop (unat pValue) buf) \<noteq> cData))
                else check_tag_loop buf cTag cData off' dirty)))"

definition CheckDataTag :: "device \<Rightarrow> u32 \<Rightarrow> u8 list \<Rightarrow> u8 list option \<Rightarrow> board \<Rightarrow> (bool \<times> board) res" where
  "CheckDataTag dev cTag cTagData cDefaultData s =
     (case gChip s of
        None \<Rightarrow> Inl NullPtr
      | Some p \<Rightarrow>
          (let dirty = (case cDefaultData of None \<Rightarrow> True | Some d \<Rightarrow> cTagData \<noteq> d) in
           rbind (read_temp dev (data_page p) sizeof_gTemp s) (\<lambda>s1.
           rbind (rbind (of_loop (check_tag_loop (gTemp s1) cTag cTagData 0 dirty)) (\<lambda>r. r)) (\<lambda>d. Inr (d, s1)))))"

text \<open>
  \<open>AddBoardInfo\<close>: the entry is put into the buffer behind the last one and written from there.
  \<open>BytesAvailable\<close> is unsigned.
\<close>

definition AddBoardInfo :: "device \<Rightarrow> u32 \<Rightarrow> u8 list \<Rightarrow> board \<Rightarrow> board res" where
  "AddBoardInfo dev Tag TagData s =
     rbind (ParseDataBlock dev False False s) (\<lambda>(WriteOffset, s1).
       case gChip s1 of
         None \<Rightarrow> Inl NullPtr
       | Some p \<Rightarrow>
           if WriteOffset = 0 then Inr s1
           else
             (let BufOffset = WriteOffset - data_page p;
                  EntryLen = 8 + of_nat (length TagData);
                  BytesAvailable = sizeof_gTemp - BufOffset - EntryLen;
                  entry = le_bytes Tag @ le_bytes (of_nat (length TagData)) @ TagData;
                  b = unat BufOffset
              in if BytesAvailable < 4 then Inr s1
                 else if length (gTemp s1) < b + length entry then Inl OutOfBounds
                 else
                   (let s2 = s1\<lparr>gTemp := take b (gTemp s1) @ entry @ drop (b + length entry) (gTemp s1)\<rparr> in
                    rbind (write_flash dev WriteOffset (drop b (gTemp s2)) EntryLen s2) (\<lambda>s3.
                    rbind (ParseDataBlock dev True False s3) (\<lambda>(_, s4). Inr s4)))))"

definition UpdateDataTag :: "device \<Rightarrow> u32 \<Rightarrow> u8 list \<Rightarrow> u8 list option \<Rightarrow> board \<Rightarrow> board res" where
  "UpdateDataTag dev Tag TagData DefaultData s =
     rbind (CheckDataTag dev Tag TagData DefaultData s) (\<lambda>(dirty, s1).
       if dirty then AddBoardInfo dev Tag TagData s1 else Inr s1)"

definition UpdateDataTag32 :: "device \<Rightarrow> u32 \<Rightarrow> u32 \<Rightarrow> u32 \<Rightarrow> board \<Rightarrow> board res" where
  "UpdateDataTag32 dev Tag TagData DefaultData s =
     UpdateDataTag dev Tag (le_bytes TagData) (Some (le_bytes DefaultData)) s"

definition UpdateDataTag32NoDefault :: "device \<Rightarrow> u32 \<Rightarrow> u32 \<Rightarrow> board \<Rightarrow> board res" where
  "UpdateDataTag32NoDefault dev Tag TagData s = UpdateDataTag dev Tag (le_bytes TagData) None s"

definition CommitCmd :: "device \<Rightarrow> board \<Rightarrow> (CommandResults_t \<times> board) res" where
  "CommitCmd dev s =
     rbind (UpdateDataTag32NoDefault dev TAG_TFTP_SRV (ServerIP (gTftp s)) s) (\<lambda>s1. Inr (RESULT_OK, s1))"

definition ShowConfigCmd :: "device \<Rightarrow> board \<Rightarrow> (CommandResults_t \<times> board) res" where
  "ShowConfigCmd dev s = rbind (ParseDataBlock dev False True s) (\<lambda>(_, s1). Inr (RESULT_OK, s1))"

text \<open>\<open>TftpCmd\<close>; \<open>aton\<close> and \<open>ntoa\<close> are lwIP's conversions between addresses and text.\<close>

definition TftpCmd ::
  "device \<Rightarrow> (cstr \<Rightarrow> u32 option) \<Rightarrow> (u32 \<Rightarrow> cstr) \<Rightarrow> cstr \<Rightarrow> board \<Rightarrow> (CommandResults_t \<times> board) res" where
  "TftpCmd dev aton ntoa CmdLine s =
     (if deref CmdLine = 0 then
        (if ServerIP (gTftp s) \<noteq> 0 then Inr (RESULT_OK, NetPrintf ''%s\<newline>'' [Text (ntoa (ServerIP (gTftp s)))] s)
         else Inr (RESULT_USAGE, s))
      else case aton CmdLine of
             None \<Rightarrow> Inr (RESULT_BAD_ARG, s)
           | Some ip \<Rightarrow> rbind (AddBoardInfo dev TAG_TFTP_SRV (le_bytes ip) s) (\<lambda>s1. Inr (RESULT_OK, s1)))"

section \<open>Loads, stores and padding\<close>

lemma unat_ucast_u8: "unat (ucast (a :: u32) :: u8) = unat a mod 256"
  by (simp add: unsigned_ucast_eq take_bit_eq_mod)

lemma length_le_bytes [simp]: "length (le_bytes w) = 4"
  by (simp add: le_bytes_def)

lemma le32_le_bytes [simp]: "le32 (le_bytes w) = w"
proof -
  define n where "n = unat w"
  have lt: "n < 4294967296" using unsigned_less [of w] by (simp add: n_def)
  have "n div 16777216 mod 256 = n div 16777216" using lt by simp
  moreover have "n div 65536 = n div 16777216 * 256 + n div 65536 mod 256"
    using div_mult_mod_eq [of "n div 65536" 256] by (simp add: div_mult2_eq [symmetric])
  moreover have "n div 256 = n div 65536 * 256 + n div 256 mod 256"
    using div_mult_mod_eq [of "n div 256" 256] by (simp add: div_mult2_eq [symmetric])
  moreover have "n = n div 256 * 256 + n mod 256" by simp
  ultimately have "n mod 256 + 256 * (n div 256 mod 256) + 65536 * (n div 65536 mod 256) + 16777216 * (n div 16777216 mod 256) = n"
    by linarith
  moreover have "unat (le_bytes w ! 0) = n mod 256" "unat (le_bytes w ! 1) = n div 256 mod 256"
    "unat (le_bytes w ! 2) = n div 65536 mod 256" "unat (le_bytes w ! 3) = n div 16777216 mod 256"
    unfolding le_bytes_def n_def using unat_ucast_u8 [of w] unat_ucast_u8 [of "drop_bit 8 w"]
      unat_ucast_u8 [of "drop_bit 16 w"] unat_ucast_u8 [of "drop_bit 24 w"]
    by (simp_all add: unat_drop_bit)
  ultimately have "le32 (le_bytes w) = of_nat n" unfolding le32_def by (simp only:)
  then show ?thesis by (simp add: n_def)
qed

lemma ld32_at: "unat off = length pre \<Longrightarrow> ld32 (pre @ le_bytes w @ rest) off = Some w"
  by (simp add: ld32_def)

definition pad :: "nat \<Rightarrow> nat" where
  "pad n = (4 - n mod 4) mod 4"

lemma pad_less: "pad n < 4"
  by (simp add: pad_def)

lemma unat_round4: "unat n + 4 < 2 ^ 32 \<Longrightarrow> unat (round4 n) = unat n + pad (unat n)"
proof -
  assume a: "unat n + 4 < 2 ^ 32"
  have m: "n AND 3 = take_bit 2 n"
  proof -
    have "(3 :: u32) = mask 2" by (simp add: mask_eq_exp_minus_1)
    then show ?thesis by (simp add: take_bit_eq_mask)
  qed
  have u: "unat (n AND 3) = unat n mod 4" unfolding m unsigned_take_bit_eq by (simp add: take_bit_eq_mod)
  show ?thesis
  proof (cases "unat n mod 4 = 0")
    case True
    then show ?thesis using u by (simp add: round4_def pad_def word_unat_eq_iff)
  next
    case False
    have lt: "unat n mod 4 < 4" by simp
    then have "unat (n AND 3) \<le> unat (4 :: u32)" by (simp add: u)
    then have "unat (4 - (n AND 3)) = 4 - unat n mod 4" by (subst unat_sub) (simp_all add: word_le_nat_alt u)
    then have "unat (n + (4 - (n AND 3))) = unat n + (4 - unat n mod 4)" using a False lt
      by (simp add: unat_word_ariths)
    then show ?thesis using False u by (simp add: round4_def pad_def word_unat_eq_iff)
  qed
qed

section \<open>Blocks as lists of entries\<close>

type_synonym entry = "u32 \<times> u8 list"

definition enc_entry :: "entry \<Rightarrow> u8 list" where
  "enc_entry x = le_bytes (fst x) @ le_bytes (of_nat (length (snd x))) @ snd x @ replicate (pad (length (snd x))) 0xff"

definition enc :: "entry list \<Rightarrow> u8 list" where
  "enc es = concat (map enc_entry es)"

lemma enc_simps [simp]: "enc [] = []" "enc (x # es) = enc_entry x @ enc es" "enc (es @ fs) = enc es @ enc fs"
  by (simp_all add: enc_def)

lemma length_enc_entry: "length (enc_entry x) = 8 + length (snd x) + pad (length (snd x))"
  by (simp add: enc_entry_def)

text \<open>An entry the code can tell from free space, and whose value is as long as its reader takes it.\<close>

definition wf_entry :: "entry \<Rightarrow> bool" where
  "wf_entry x \<longleftrightarrow> fst x \<noteq> 0xffffffff \<and> (fst x = TAG_TFTP_SRV \<longrightarrow> length (snd x) = 4)"

definition server_of :: "entry list \<Rightarrow> u32 \<Rightarrow> u32" where
  "server_of es a = fold (\<lambda>x a. if fst x = TAG_TFTP_SRV then le32 (snd x) else a) es a"

lemma server_of_simps [simp]:
  "server_of [] a = a"
  "server_of (x # es) a = server_of es (if fst x = TAG_TFTP_SRV then le32 (snd x) else a)"
  "server_of (es @ fs) a = server_of fs (server_of es a)"
  by (simp_all add: server_of_def)

lemma set_server_simps [simp]:
  "set_server v (set_server w s) = set_server v s" "set_server (ServerIP (gTftp s)) s = s"
  "ServerIP (gTftp (set_server v s)) = v" "gTemp (set_server v s) = gTemp s" "gChip (set_server v s) = gChip s"
  "out (set_server v s) = out s"
  by (simp_all add: set_server_def)

lemma set_server_flash [simp]:
  "flash_ok e (set_server v s) = flash_ok e s" "contents e (set_server v s) = contents e s"
  "flash_size (set_server v s) = flash_size s" "sector_size (set_server v s) = sector_size s"
  by (simp_all add: set_server_def flash_ok_def contents_def flash_size_def sector_size_def)

text \<open>The tag and the length of the entry at an offset, and where the next one is.\<close>

lemma entry_header:
  assumes "buf = pre @ enc_entry x @ rest" and "unat off = length pre" and "length buf \<le> 1024"
  shows "ld32 buf off = Some (fst x)" and "ld32 buf (off + 4) = Some (of_nat (length (snd x)))"
    and "unat (off + 8) = length pre + 8" and "unat (off + 8 + round4 (of_nat (length (snd x)))) = length pre + length (enc_entry x)"
    and "unat (of_nat (length (snd x)) :: u32) = length (snd x)"
proof -
  have len: "length pre + 8 + length (snd x) + pad (length (snd x)) \<le> 1024"
    using assms(1,3) by (simp add: length_enc_entry)
  show 1: "ld32 buf off = Some (fst x)"
    using assms(2) unfolding assms(1) enc_entry_def append_assoc by (rule ld32_at)
  have "unat (off + 4) = length (pre @ le_bytes (fst x))"
    using assms(2) len by (simp add: unat_word_ariths)
  then have "ld32 ((pre @ le_bytes (fst x)) @ le_bytes (of_nat (length (snd x))) @
      (snd x @ replicate (pad (length (snd x))) 0xff) @ rest) (off + 4) = Some (of_nat (length (snd x)))"
    by (rule ld32_at)
  then show "ld32 buf (off + 4) = Some (of_nat (length (snd x)))"
    by (simp add: assms(1) enc_entry_def)
  show 3: "unat (off + 8) = length pre + 8" using assms(2) len by (simp add: unat_word_ariths)
  show 5: "unat (of_nat (length (snd x)) :: u32) = length (snd x)"
    using len by (intro unat_of_nat_u32) simp
  then have r: "unat (round4 (of_nat (length (snd x)))) = length (snd x) + pad (length (snd x))"
    using len by (subst unat_round4) simp_all
  show "unat (off + 8 + round4 (of_nat (length (snd x)))) = length pre + length (enc_entry x)"
    using 3 r len by (subst unat_add_small) (simp_all add: length_enc_entry)
qed

lemma sizeof_less: "off > sizeof_gTemp - 4 \<longleftrightarrow> 1020 < unat off"
  by (simp add: word_less_nat_alt sizeof_gTemp_def)

lemma data_loop_entries:
  assumes "free = le_bytes 0xffffffff @ rest"
  shows "\<forall>x \<in> set es. wf_entry x \<Longrightarrow> gTemp s = pre @ enc es @ free \<Longrightarrow> unat off = length pre \<Longrightarrow>
    length (gTemp s) = 1024 \<Longrightarrow>
    data_loop apl False off s =
      Some (Inr (Some (off + of_nat (length (enc es))),
        if apl then set_server (server_of es (ServerIP (gTftp s))) s else s))"
proof (induction es arbitrary: pre off s)
  case Nil
  then have "ld32 (gTemp s) off = Some 0xffffffff" by (simp add: assms ld32_at)
  then show ?case by (subst data_loop.simps) simp
next
  case (Cons x es)
  have buf: "gTemp s = pre @ enc_entry x @ (enc es @ free)" using Cons.prems(2) by simp
  note h = entry_header [OF buf Cons.prems(3)]
  let ?off = "off + 8 + round4 (of_nat (length (snd x)))"
  have small: "\<not> ?off > sizeof_gTemp - 4"
    using h(4) Cons.prems(4) buf assms by (simp only: sizeof_less) simp
  have wf: "fst x \<noteq> 0xffffffff" "fst x = TAG_TFTP_SRV \<Longrightarrow> length (snd x) = 4"
    using Cons.prems(1) by (auto simp: wf_entry_def)
  let ?s1 = "if apl \<and> fst x = TAG_TFTP_SRV then set_server (le32 (snd x)) s else s"
  have tag: "data_tag apl False (fst x) (off + 8) s = Inr ?s1"
  proof (cases "apl \<and> fst x = TAG_TFTP_SRV")
    case True
    then have l: "length (snd x) = 4" using wf(2) by simp
    have "ld32 (gTemp s) (off + 8) = Some (le32 (take 4 (drop (length pre + 8) (gTemp s))))"
      using h(3) Cons.prems(4) buf l by (simp add: ld32_def length_enc_entry)
    also have "take 4 (drop (length pre + 8) (gTemp s)) = snd x"
      using l by (simp add: buf enc_entry_def)
    finally show ?thesis using True by (simp add: data_tag_def)
  qed (auto simp: data_tag_def)
  have step: "data_loop apl False off s = data_loop apl False ?off ?s1"
    using h(1,2) Cons.prems(4) small wf(1) tag
    by (subst data_loop.simps) (simp add: Let_def del: if_split)
  have g1: "gTemp ?s1 = (pre @ enc_entry x) @ enc es @ free" using buf by simp
  have o1: "unat ?off = length (pre @ enc_entry x)" using h(4) Cons.prems(4) by simp
  have "data_loop apl False ?off ?s1 =
      Some (Inr (Some (?off + of_nat (length (enc es))),
        if apl then set_server (server_of es (ServerIP (gTftp ?s1))) ?s1 else ?s1))"
    using Cons.prems(1,4) by (intro Cons.IH [OF _ g1 o1]) simp_all
  moreover have "?off = off + of_nat (length (enc_entry x))"
  proof -
    have l: "length pre + length (enc_entry x) \<le> 1024" using Cons.prems(4) buf by simp
    then have u: "unat (of_nat (length (enc_entry x)) :: u32) = length (enc_entry x)"
      by (intro unat_of_nat_u32) simp
    then have "unat (off + of_nat (length (enc_entry x))) = length pre + length (enc_entry x)"
      using l Cons.prems(3) by (subst unat_add_small) simp_all
    then show ?thesis unfolding word_unat_eq_iff o1 by simp
  qed
  ultimately show ?case unfolding step by (simp add: add.assoc)
qed

lemma check_tag_loop_entries:
  assumes "free = le_bytes 0xffffffff @ rest" and "length buf = 1024"
  shows "\<forall>x \<in> set es. wf_entry x \<Longrightarrow> buf = pre @ enc es @ free \<Longrightarrow> unat off = length pre \<Longrightarrow>
    check_tag_loop buf cTag cData off d =
      Some (Inr (fold (\<lambda>x d. if fst x = cTag then snd x \<noteq> cData else d) es d))"
proof (induction es arbitrary: pre off d)
  case Nil
  then have "ld32 buf off = Some 0xffffffff" by (simp add: assms ld32_at)
  then show ?case by (subst check_tag_loop.simps) simp
next
  case (Cons x es)
  have buf: "buf = pre @ enc_entry x @ (enc es @ free)" using Cons.prems(2) by simp
  have le: "length buf \<le> 1024" using assms(2) by simp
  note h = entry_header [OF buf Cons.prems(3) le]
  let ?off = "off + 8 + round4 (of_nat (length (snd x)))"
  have small: "\<not> ?off > sizeof_gTemp - 4"
    using h(4) assms(2) buf assms(1) by (simp only: sizeof_less) simp
  have wf: "fst x \<noteq> 0xffffffff" using Cons.prems(1) by (auto simp: wf_entry_def)
  have val: "take (length (snd x)) (drop (unat (off + 8)) buf) = snd x"
    unfolding h(3) by (simp add: buf enc_entry_def)
  have len: "unat (off + 8) + length (snd x) \<le> length buf"
    unfolding h(3) by (simp add: buf length_enc_entry)
  have dirty: "(if fst x = cTag then snd x \<noteq> cData else d) = (if fst x = cTag then
      (if length (snd x) \<noteq> length cData then True else take (length cData) (drop (unat (off + 8)) buf) \<noteq> cData) else d)"
    using val by auto
  have g1: "buf = (pre @ enc_entry x) @ enc es @ free" using buf by simp
  have o1: "unat ?off = length (pre @ enc_entry x)" using h(4) by simp
  have IH: "check_tag_loop buf cTag cData ?off d' =
      Some (Inr (fold (\<lambda>x d. if fst x = cTag then snd x \<noteq> cData else d) es d'))" for d'
    using Cons.prems(1) by (intro Cons.IH [OF _ g1 o1]) simp
  show ?case
    using h(1,2,5) wf small len IH dirty by (subst check_tag_loop.simps) (auto simp: Let_def not_less)
qed

section \<open>The data block in flash\<close>

text \<open>The data block is at the start of the last sector: the entries, and free space behind them.\<close>

definition block_base :: "board \<Rightarrow> nat" where
  "block_base s = flash_size s - sector_size s"

definition data_block :: "env \<Rightarrow> board \<Rightarrow> entry list \<Rightarrow> bool" where
  "data_block e s es \<longleftrightarrow> (\<forall>x \<in> set es. wf_entry x) \<and> length (enc es) + 4 \<le> 1024 \<and>
     map (contents e s) [block_base s ..< block_base s + 1024] = enc es @ replicate (1024 - length (enc es)) 0xff"

lemma free_space: "4 \<le> n \<Longrightarrow> replicate n (0xff :: u8) = le_bytes 0xffffffff @ replicate (n - 4) 0xff"
proof -
  assume "4 \<le> n"
  then have "replicate n (0xff :: u8) = replicate 4 0xff @ replicate (n - 4) 0xff"
    by (simp add: replicate_add [symmetric])
  moreover have "replicate 4 (0xff :: u8) = [0xff, 0xff, 0xff, 0xff]" by (simp add: eval_nat_numeral)
  moreover have "le_bytes 0xffffffff = [0xff, 0xff, 0xff, 0xff]" by (simp add: le_bytes_def)
  ultimately show ?thesis by simp
qed

lemma data_page_base:
  assumes "flash_ok e s" and "gChip s = Some p"
  shows "unat (data_page p) = block_base s" and "0 < block_base s" and "block_base s + 1024 \<le> flash_size s"
    and "block_base s mod 256 = 0" and "flash_size s \<le> 2 ^ 24"
  using assms by (auto simp: flash_ok_def gChipInfo_def data_page_def block_base_def flash_size_def sector_size_def)

lemma read_block:
  assumes "flash_ok e s" and "gChip s = Some p" and "data_block e s es"
  obtains s' where "read_temp (fst e) (data_page p) sizeof_gTemp s = Inr s'" and "flash_ok e s'"
    and "contents e s' = contents e s" and "gTemp s' = enc es @ replicate (1024 - length (enc es)) 0xff"
    and "gChip s' = Some p" and "gTftp s' = gTftp s" and "out s' = out s"
proof -
  note b = data_page_base [OF assms(1,2)]
  have l: "length (gTemp s) = 1024" using assms(1) by (rule flash_okE)
  obtain s' where s': "read_temp (fst e) (data_page p) sizeof_gTemp s = Inr s'" "flash_ok e s'"
    "contents e s' = contents e s"
    "gTemp s' = map (contents e s) [block_base s ..< block_base s + 1024] @ drop 1024 (gTemp s)"
    using flash.rd_law [OF assms(1), of "data_page p" sizeof_gTemp] b l by auto
  have "gTemp s' = enc es @ replicate (1024 - length (enc es)) 0xff"
    using s'(4) assms(3) l by (simp add: data_block_def)
  with read_temp_frame [OF s'(1)] assms(2) show ?thesis by (intro that [OF s'(1-3)]) simp_all
qed

lemma block_parses:
  assumes "flash_ok e s" and "gChip s = Some p" and "data_block e s es"
  obtains s' where "ParseDataBlock (fst e) apl False s = Inr (data_page p + of_nat (length (enc es)), s')"
    and "flash_ok e s'" and "contents e s' = contents e s" and "gChip s' = Some p"
    and "gTemp s' = enc es @ replicate (1024 - length (enc es)) 0xff" and "out s' = out s"
    and "ServerIP (gTftp s') = (if apl then server_of es (ServerIP (gTftp s)) else ServerIP (gTftp s))"
proof -
  have d: "\<forall>x \<in> set es. wf_entry x" "length (enc es) + 4 \<le> 1024" using assms(3) by (simp_all add: data_block_def)
  obtain s1 where s1: "read_temp (fst e) (data_page p) sizeof_gTemp s = Inr s1" "flash_ok e s1"
    "contents e s1 = contents e s" "gTemp s1 = enc es @ replicate (1024 - length (enc es)) 0xff"
    "gChip s1 = Some p" "gTftp s1 = gTftp s" "out s1 = out s"
    using read_block [OF assms] .
  have f: "replicate (1024 - length (enc es)) (0xff :: u8) = le_bytes 0xffffffff @ replicate (1020 - length (enc es)) 0xff"
    using d(2) free_space [of "1024 - length (enc es)"] by simp
  have l: "length (gTemp s1) = 1024" using s1(2) by (rule flash_okE)
  let ?s2 = "if apl then set_server (server_of es (ServerIP (gTftp s))) s1 else s1"
  have "data_loop apl False 0 s1 = Some (Inr (Some (0 + of_nat (length (enc es))), ?s2))"
    using data_loop_entries [OF f d(1), of s1 "[]" 0 apl] s1(4,6) l by simp
  then have "ParseDataBlock (fst e) apl False s = Inr (data_page p + of_nat (length (enc es)), ?s2)"
    using assms(2) s1(1) by (simp add: ParseDataBlock_def)
  then show ?thesis using s1 by (intro that [of ?s2]) auto
qed

lemma block_parses_ex:
  assumes "flash_ok e s" and "gChip s = Some p" and "data_block e s es"
  shows "\<exists>s'. ParseDataBlock (fst e) apl False s = Inr (data_page p + of_nat (length (enc es)), s') \<and> flash_ok e s' \<and>
    contents e s' = contents e s \<and> gChip s' = Some p \<and>
    gTemp s' = enc es @ replicate (1024 - length (enc es)) 0xff \<and> out s' = out s \<and>
    ServerIP (gTftp s') = (if apl then server_of es (ServerIP (gTftp s)) else ServerIP (gTftp s))"
  by (rule block_parses [OF assms, of apl]) blast

lemma write_span_ge: "len \<le> write_span len a"
  using write_end_done [of len a 0] by (auto simp: write_end_span)

lemma and_ff [simp]: "(0xff AND x) = (x :: u8)" "(x AND 0xff) = (x :: u8)"
proof -
  have "(0xff :: u8) = mask 8" by (simp add: mask_eq_exp_minus_1)
  then show "(0xff AND x) = x" "(x AND 0xff) = x" by (simp_all add: bit_eq_iff bit_simps)
qed

text \<open>
  Writing behind the used part of a block: the driver may program more bytes than it is told,
  but these are free bytes it has just read.
\<close>

lemma clear_behind:
  assumes m: "map m [base ..< base + 1024] = used @ replicate (1024 - length used) 0xff"
    and ds: "ds = en @ replicate (1024 - length used - length en) 0xff"
    and fit: "length used + length en \<le> 1024" and n: "length en \<le> n" "n \<le> 1024 - length used"
  shows "map (clear_bits (base + length used) (take n ds) m) [base ..< base + 1024] =
      used @ en @ replicate (1024 - length used - length en) 0xff"
    and "\<And>x. x < base \<or> base + 1024 \<le> x \<Longrightarrow> clear_bits (base + length used) (take n ds) m x = m x"
proof -
  have mi: "m (base + i) = (used @ replicate (1024 - length used) 0xff) ! i" if "i < 1024" for i
  proof -
    have "map m [base ..< base + 1024] ! i = m (base + i)" using that by simp
    then show ?thesis by (simp only: m)
  qed
  have lds: "length ds = 1024 - length used" using fit by (simp add: ds)
  have lt: "length (take n ds) = n" using n(2) lds by simp
  show "map (clear_bits (base + length used) (take n ds) m) [base ..< base + 1024] =
      used @ en @ replicate (1024 - length used - length en) 0xff" (is "?l = ?r")
  proof (rule nth_equalityI)
    show "length ?l = length ?r" using fit by simp
    fix i assume "i < length ?l"
    then have i: "i < 1024" by simp
    have "?l ! i = clear_bits (base + length used) (take n ds) m (base + i)" using i by simp
    also have "\<dots> = (used @ ds) ! i"
    proof (cases "i < length used")
      case True
      then show ?thesis using mi [OF i] by (simp add: clear_bits_def nth_append)
    next
      case False
      then have ff: "m (base + i) = 0xff" using mi [OF i] i by (simp add: nth_append)
      show ?thesis
      proof (cases "i < length used + n")
        case True
        then show ?thesis using False ff lt by (simp add: clear_bits_def nth_append)
      next
        case nolt: False
        then have "\<not> i - length used < length en" "i - length used < 1024 - length used" using n(1) i False by linarith+
        then have "ds ! (i - length used) = 0xff" by (simp add: ds nth_append)
        then show ?thesis using False nolt ff lt by (simp add: clear_bits_def nth_append)
      qed
    qed
    finally show "?l ! i = ?r ! i" by (simp add: ds)
  qed
  show "clear_bits (base + length used) (take n ds) m x = m x" if "x < base \<or> base + 1024 \<le> x" for x
    using that lt n(2) by (auto simp: clear_bits_def)
qed

lemma AddBoardInfo_effect:
  assumes "flash_ok e s" and "data_block e s es" and "wf_entry (Tag, val)"
    and "length (enc (es @ [(Tag, val)])) + 4 \<le> 1024"
  shows "\<exists>s'. AddBoardInfo (fst e) Tag val s = Inr s' \<and> flash_ok e s' \<and>
     data_block e s' (es @ [(Tag, val)]) \<and> gChip s' = gChip s \<and>
     (\<forall>x. x < block_base s \<or> block_base s + 1024 \<le> x \<longrightarrow> contents e s' x = contents e s x) \<and>
     ServerIP (gTftp s') = server_of (es @ [(Tag, val)]) (ServerIP (gTftp s))"
proof -
  from assms(1) obtain p where p: "gChip s = Some p" by (rule flash_okE)
  note b = data_page_base [OF assms(1) p]
  let ?used = "enc es" and ?len = "length (enc es)"
  define en where "en = le_bytes Tag @ le_bytes (of_nat (length val)) @ val"
  have le: "length en = 8 + length val" by (simp add: en_def)
  have fit: "?len + 8 + length val + pad (length val) + 4 \<le> 1024"
    using assms(4) by (simp add: length_enc_entry)
  obtain s1 where s1: "ParseDataBlock (fst e) False False s = Inr (data_page p + of_nat ?len, s1)" "flash_ok e s1"
    "contents e s1 = contents e s" "gChip s1 = Some p" "gTemp s1 = ?used @ replicate (1024 - ?len) 0xff"
    "ServerIP (gTftp s1) = ServerIP (gTftp s)"
    using block_parses_ex [OF assms(1) p assms(2), of False] unfolding if_False by blast
  let ?W = "data_page p + of_nat ?len" and ?E = "8 + of_nat (length val) :: u32"
  have uW: "unat ?W = block_base s + ?len" using b fit by (simp add: unat_word_ariths unsigned_of_nat take_bit_nat_eq_self)
  have uE: "unat ?E = length en" using fit le by (simp add: unat_word_ariths unsigned_of_nat take_bit_nat_eq_self)
  have ub: "unat (?W - data_page p) = ?len" using fit by (simp add: unsigned_of_nat take_bit_nat_eq_self)
  have avail: "\<not> sizeof_gTemp - (?W - data_page p) - ?E < 4"
  proof -
    have "unat (sizeof_gTemp - (?W - data_page p)) = 1024 - ?len"
      using ub fit by (subst unat_sub) (simp_all add: word_le_nat_alt sizeof_gTemp_def)
    then have "unat (sizeof_gTemp - (?W - data_page p) - ?E) = 1024 - ?len - length en"
      using uE le fit by (subst unat_sub) (simp_all add: word_le_nat_alt)
    then show ?thesis using fit le by (simp add: word_less_nat_alt)
  qed
  define ds where "ds = en @ replicate (1024 - ?len - length en) 0xff"
  let ?s2 = "s1\<lparr>gTemp := take ?len (gTemp s1) @ en @ drop (?len + length en) (gTemp s1)\<rparr>"
  have g2: "gTemp ?s2 = ?used @ ds" using fit le s1(5) by (simp add: ds_def)
  have ok2: "flash_ok e ?s2" "contents e ?s2 = contents e s" "flash_size ?s2 = flash_size s" "gChip ?s2 = Some p"
    "block_base ?s2 = block_base s"
    using s1 p fit le by (simp_all add: flash_ok_def contents_def flash_size_def block_base_def sector_size_def)
  define n where "n = write_span (length en) (block_base s + ?len)"
  have n: "length en \<le> n" "n \<le> 1024 - ?len"
  proof -
    show "length en \<le> n" unfolding n_def by (rule write_span_ge)
    have "(block_base s + 1024) mod 256 = 0" using b(4) by (simp add: mod_add_eq [symmetric])
    then have "block_base s + ?len + n \<le> block_base s + 1024"
      unfolding n_def using fit le by (intro write_span_fits) simp_all
    then show "n \<le> 1024 - ?len" by simp
  qed
  have dl: "length ds = 1024 - ?len" using fit le by (simp add: ds_def)
  obtain s3 where s3: "write_flash (fst e) ?W ds ?E ?s2 = Inr s3" "flash_ok e s3" "flash_size s3 = flash_size s"
    "sector_size s3 = sector_size ?s2" "contents e s3 = clear_bits (block_base s + ?len) (take n ds) (contents e s)"
    using flash.wr_law [OF ok2(1), of ?W ?E ds] ok2 uW uE b(3) fit le n dl unfolding n_def by auto
  have c3: "gChip s3 = Some p" "gTftp s3 = gTftp s1"
    using s3(1) s1(4) by (auto simp: write_flash_def rbind_Inr_iff split: prod.splits)
  have base3: "block_base s3 = block_base s" using ok2(5) c3 ok2(4) by (simp add: block_base_def flash_size_def sector_size_def)
  have m: "map (contents e s) [block_base s ..< block_base s + 1024] = ?used @ replicate (1024 - ?len) 0xff"
    using assms(2) by (simp add: data_block_def)
  have fit': "?len + length en \<le> 1024" using fit le by simp
  note cl = clear_behind [OF m ds_def fit' n]
  have blk: "enc (es @ [(Tag, val)]) @ replicate (1024 - length (enc (es @ [(Tag, val)]))) 0xff =
      ?used @ en @ replicate (1024 - ?len - length en) 0xff"
    using fit le by (simp add: enc_entry_def en_def replicate_add [symmetric])
  have d3: "data_block e s3 (es @ [(Tag, val)])"
    unfolding data_block_def base3 s3(5) cl(1) blk using assms(2-4) by (simp add: data_block_def)
  obtain s4 r where s4: "ParseDataBlock (fst e) True False s3 = Inr (r, s4)" "flash_ok e s4" "contents e s4 = contents e s3"
    "gChip s4 = Some p" "ServerIP (gTftp s4) = server_of (es @ [(Tag, val)]) (ServerIP (gTftp s3))"
    using block_parses_ex [OF s3(2) c3(1) d3, of True] unfolding if_True by blast
  have base4: "block_base s4 = block_base s" using s4(4) p by (simp add: block_base_def flash_size_def sector_size_def)
  have d4: "data_block e s4 (es @ [(Tag, val)])" using d3 by (simp add: data_block_def base4 base3 s4(3))
  have "?W \<noteq> 0" using uW b(2) by auto
  then have "AddBoardInfo (fst e) Tag val s = Inr s4"
    using s1(1,4) avail ub fit le s3(1) s4(1) g2 s1(5)
    by (simp add: AddBoardInfo_def Let_def en_def [symmetric])
  moreover have "ServerIP (gTftp s4) = server_of (es @ [(Tag, val)]) (ServerIP (gTftp s))"
    using s4(5) c3(2) s1(6) by simp
  ultimately show ?thesis using s4 d4 cl(2) s3(5) p by auto
qed

text \<open>
  Claim C30. \<open>AddBoardInfo\<close> makes a setting permanent: an entry that fits is appended to the data
  block in flash, byte for byte behind the entries that are there, also when it crosses a page;
  nothing outside the block changes, and the block is read back into the settings.
\<close>

theorem AddBoardInfo_stores:
  assumes "flash_ok e s" and "data_block e s es" and "wf_entry (Tag, val)"
    and "length (enc (es @ [(Tag, val)])) + 4 \<le> 1024"
  shows "\<exists>s'. AddBoardInfo (fst e) Tag val s = Inr s' \<and> flash_ok e s' \<and>
     data_block e s' (es @ [(Tag, val)]) \<and> gChip s' = gChip s \<and>
     (\<forall>x. x < block_base s \<or> block_base s + 1024 \<le> x \<longrightarrow> contents e s' x = contents e s x) \<and>
     ServerIP (gTftp s') = server_of (es @ [(Tag, val)]) (ServerIP (gTftp s))"
  using assms by (rule AddBoardInfo_effect)

lemma int_mod_wrap: "x < 0 \<Longrightarrow> - m \<le> x \<Longrightarrow> x mod m = x + (m :: int)"
proof -
  assume "x < 0" "- m \<le> x"
  then have "(x + m) mod m = x + m" by (intro mod_pos_pos_trivial) simp_all
  then show ?thesis by simp
qed

lemma blank_block:
  assumes "p \<in> set gChipInfo"
  shows "data_block (demo_env p (\<lambda>_. 0xff)) (demo_board p) []"
  by (simp add: data_block_def demo_ok map_replicate_const)

theorem AddBoardInfo_stores_witness:
  "\<exists>s'. AddBoardInfo (fst (demo_env (gChipInfo ! 0) (\<lambda>_. 0xff))) TAG_TFTP_SRV [192, 168, 0, 1] (demo_board (gChipInfo ! 0)) = Inr s' \<and>
     data_block (demo_env (gChipInfo ! 0) (\<lambda>_. 0xff)) s' [(TAG_TFTP_SRV, [192, 168, 0, 1])] \<and>
     ServerIP (gTftp s') = 0x0100a8c0"
proof -
  have w: "wf_entry (TAG_TFTP_SRV, [192, 168, 0, 1])" by (simp add: wf_entry_def TAG_TFTP_SRV_def)
  have l: "length (enc ([] @ [(TAG_TFTP_SRV, [192, 168, 0, 1])])) + 4 \<le> 1024"
    by (simp add: length_enc_entry pad_def)
  have v: "le32 [192, 168, 0, 1] = 0x0100a8c0" by (simp add: le32_def)
  show ?thesis
    using AddBoardInfo_stores [OF demo_ok(1) [OF chip_members(1)] blank_block [OF chip_members(1)] w l] v by auto
qed

definition dirty_of :: "u32 \<Rightarrow> u8 list \<Rightarrow> entry list \<Rightarrow> bool" where
  "dirty_of cTag cData es = fold (\<lambda>x d. if fst x = cTag then snd x \<noteq> cData else d) es True"

lemma CheckDataTag_block:
  assumes "flash_ok e s" and "data_block e s es"
  shows "\<exists>s'. CheckDataTag (fst e) cTag cData None s = Inr (dirty_of cTag cData es, s') \<and> flash_ok e s' \<and>
    contents e s' = contents e s \<and> gChip s' = gChip s \<and> gTftp s' = gTftp s \<and> data_block e s' es"
proof -
  from assms(1) obtain p where p: "gChip s = Some p" by (rule flash_okE)
  have d: "\<forall>x \<in> set es. wf_entry x" "length (enc es) + 4 \<le> 1024" using assms(2) by (simp_all add: data_block_def)
  obtain s1 where s1: "read_temp (fst e) (data_page p) sizeof_gTemp s = Inr s1" "flash_ok e s1"
    "contents e s1 = contents e s" "gTemp s1 = enc es @ replicate (1024 - length (enc es)) 0xff"
    "gChip s1 = Some p" "gTftp s1 = gTftp s"
    by (rule read_block [OF assms(1) p assms(2)])
  have f: "replicate (1024 - length (enc es)) (0xff :: u8) = le_bytes 0xffffffff @ replicate (1020 - length (enc es)) 0xff"
    using d(2) free_space [of "1024 - length (enc es)"] by simp
  have l: "length (gTemp s1) = 1024" using s1(2) by (rule flash_okE)
  have "check_tag_loop (gTemp s1) cTag cData 0 True = Some (Inr (dirty_of cTag cData es))"
    unfolding dirty_of_def using check_tag_loop_entries [OF f l d(1), of "[]" 0] s1(4) by simp
  then have "CheckDataTag (fst e) cTag cData None s = Inr (dirty_of cTag cData es, s1)"
    using p s1(1) by (simp add: CheckDataTag_def)
  moreover have "data_block e s1 es"
    using assms(2) p s1(3,5) by (simp add: data_block_def block_base_def flash_size_def sector_size_def)
  ultimately show ?thesis using s1 p by auto
qed

lemma dirty_of_snoc [simp]: "dirty_of t v (es @ [(t', v')]) = (if t' = t then v' \<noteq> v else dirty_of t v es)"
  by (simp add: dirty_of_def)

text \<open>
  Claim C29. \<open>CommitCmd\<close> saves the server address once. When the last address in the data block is already
  the current one the flash stays as it is; otherwise, if the block has 16 free bytes (an entry of 12 and the
  end mark), the address is appended and the flash outside the block stays as it is. In both cases the
  block then says the current address is the saved one, so a second commit writes nothing.
\<close>

theorem CommitCmd_saves:
  assumes "flash_ok e s" and "data_block e s es"
    and "dirty_of TAG_TFTP_SRV (le_bytes (ServerIP (gTftp s))) es \<longrightarrow> length (enc es) + 16 \<le> 1024"
  shows "\<exists>s' es'. CommitCmd (fst e) s = Inr (RESULT_OK, s') \<and> flash_ok e s' \<and> data_block e s' es' \<and>
     (if dirty_of TAG_TFTP_SRV (le_bytes (ServerIP (gTftp s))) es
      then es' = es @ [(TAG_TFTP_SRV, le_bytes (ServerIP (gTftp s)))] \<and>
        (\<forall>x. x < block_base s \<or> block_base s + 1024 \<le> x \<longrightarrow> contents e s' x = contents e s x)
      else es' = es \<and> contents e s' = contents e s) \<and>
     ServerIP (gTftp s') = ServerIP (gTftp s) \<and>
     \<not> dirty_of TAG_TFTP_SRV (le_bytes (ServerIP (gTftp s'))) es'"
proof -
  let ?v = "le_bytes (ServerIP (gTftp s))"
  obtain s1 where s1: "CheckDataTag (fst e) TAG_TFTP_SRV ?v None s = Inr (dirty_of TAG_TFTP_SRV ?v es, s1)"
    "flash_ok e s1" "gTftp s1 = gTftp s" "data_block e s1 es" "contents e s1 = contents e s" "gChip s1 = gChip s"
    using CheckDataTag_block [OF assms(1,2)] by blast
  have bb: "block_base s1 = block_base s" using s1(6) by (simp add: block_base_def flash_size_def sector_size_def)
  show ?thesis
  proof (cases "dirty_of TAG_TFTP_SRV ?v es")
    case False
    then have "CommitCmd (fst e) s = Inr (RESULT_OK, s1)"
      using s1(1) by (simp add: CommitCmd_def UpdateDataTag32NoDefault_def UpdateDataTag_def)
    then show ?thesis using False s1 by auto
  next
    case True
    have w: "wf_entry (TAG_TFTP_SRV, ?v)" by (simp add: wf_entry_def TAG_TFTP_SRV_def)
    have l: "length (enc (es @ [(TAG_TFTP_SRV, ?v)])) + 4 \<le> 1024"
      using assms(3) True by (simp add: length_enc_entry pad_def)
    obtain s2 where s2: "AddBoardInfo (fst e) TAG_TFTP_SRV ?v s1 = Inr s2" "flash_ok e s2"
      "data_block e s2 (es @ [(TAG_TFTP_SRV, ?v)])"
      "ServerIP (gTftp s2) = server_of (es @ [(TAG_TFTP_SRV, ?v)]) (ServerIP (gTftp s1))"
      "\<forall>x. x < block_base s \<or> block_base s + 1024 \<le> x \<longrightarrow> contents e s2 x = contents e s x"
      using AddBoardInfo_effect [OF s1(2,4) w l] unfolding bb s1(5) by blast
    have "CommitCmd (fst e) s = Inr (RESULT_OK, s2)"
      using True s1(1) s2(1) by (simp add: CommitCmd_def UpdateDataTag32NoDefault_def UpdateDataTag_def)
    then show ?thesis using True s2 by auto
  qed
qed

theorem CommitCmd_saves_witness:
  "\<exists>s'. CommitCmd (fst (demo_env (gChipInfo ! 0) (\<lambda>_. 0xff))) (demo_board (gChipInfo ! 0)) = Inr (RESULT_OK, s') \<and>
     data_block (demo_env (gChipInfo ! 0) (\<lambda>_. 0xff)) s' [(TAG_TFTP_SRV, [0, 0, 0, 0])]"
proof -
  have "ServerIP (gTftp (demo_board (gChipInfo ! 0))) = 0" by (simp add: demo_board_def no_transfer_def)
  moreover have "le_bytes 0 = [0, 0, 0, 0]" by (simp add: le_bytes_def)
  ultimately show ?thesis
    using CommitCmd_saves [OF demo_ok(1) [OF chip_members(1)] blank_block [OF chip_members(1)]]
    by (auto simp: dirty_of_def)
qed

text \<open>
  Claim C40. \<open>AddBoardInfo\<close> writes past \<open>gTemp\<close> when the block is nearly full: the space left is
  computed as an unsigned difference, so an entry longer than what is left wraps around to a
  large number and is copied behind the end of the buffer.
\<close>

theorem AddBoardInfo_overflow:
  assumes "flash_ok e s" and "data_block e s es" and "1024 < length (enc es) + 8 + length val" and "length val < 2 ^ 16"
  shows "AddBoardInfo (fst e) Tag val s = Inl OutOfBounds"
proof -
  from assms(1) obtain p where p: "gChip s = Some p" by (rule flash_okE)
  note b = data_page_base [OF assms(1) p]
  let ?len = "length (enc es)"
  have d: "?len + 4 \<le> 1024" using assms(2) by (simp add: data_block_def)
  obtain s1 where s1: "ParseDataBlock (fst e) False False s = Inr (data_page p + of_nat ?len, s1)" "gChip s1 = Some p"
    "flash_ok e s1"
    using block_parses_ex [OF assms(1) p assms(2), of False] by blast
  have l: "length (gTemp s1) = 1024" using s1(3) by (rule flash_okE)
  let ?W = "data_page p + of_nat ?len" and ?E = "8 + of_nat (length val) :: u32"
  have uW: "unat ?W = block_base s + ?len" using b d by (simp add: unat_word_ariths unsigned_of_nat take_bit_nat_eq_self)
  have ub: "unat (?W - data_page p) = ?len" using d by (simp add: unsigned_of_nat take_bit_nat_eq_self)
  have uE: "unat ?E = 8 + length val" using assms(4) by (simp add: unat_word_ariths unsigned_of_nat take_bit_nat_eq_self)
  have "\<not> sizeof_gTemp - (?W - data_page p) - ?E < 4"
  proof -
    have "uint sizeof_gTemp = 1024" by (simp add: sizeof_gTemp_def)
    moreover have "uint (?W - data_page p) = int ?len" "uint ?E = 8 + int (length val)"
      using ub uE by (simp_all add: uint_nat)
    ultimately have "uint (sizeof_gTemp - (?W - data_page p) - ?E) = (1024 - int ?len - (8 + int (length val))) mod 2 ^ 32"
      by (simp add: uint_word_ariths mod_simps)
    also have "\<dots> = 1024 - int ?len - (8 + int (length val)) + 2 ^ 32"
      using assms(3,4) d by (intro int_mod_wrap) simp_all
    finally show ?thesis using assms(4) d by (simp add: word_less_def)
  qed
  moreover have "?W \<noteq> 0" using uW b(2) by auto
  ultimately show ?thesis
    using s1(1,2) ub l assms(3) by (simp add: AddBoardInfo_def Let_def)
qed

definition full_entries :: "entry list" where
  "full_entries = [(1, replicate 1008 0)]"

definition full_flash :: "nat \<Rightarrow> nat \<Rightarrow> u8" where
  "full_flash base x = (if base \<le> x \<and> x < base + 1016 then enc full_entries ! (x - base) else 0xff)"

lemma full_block:
  assumes "p \<in> set gChipInfo"
  shows "data_block (demo_env p (full_flash (block_base (demo_board p)))) (demo_board p) full_entries"
    and "length (enc full_entries) = 1016"
proof -
  show l: "length (enc full_entries) = 1016"
    by (simp add: full_entries_def length_enc_entry pad_def)
  let ?b = "block_base (demo_board p)"
  have "map (full_flash ?b) [?b ..< ?b + 1024] = enc full_entries @ replicate (1024 - length (enc full_entries)) 0xff"
    by (rule nth_equalityI) (auto simp: l full_flash_def nth_append)
  moreover have "\<forall>x \<in> set full_entries. wf_entry x"
    by (simp add: full_entries_def wf_entry_def TAG_TFTP_SRV_def)
  ultimately show "data_block (demo_env p (full_flash ?b)) (demo_board p) full_entries"
    using l by (simp add: data_block_def demo_ok)
qed

theorem AddBoardInfo_overflow_witness:
  "AddBoardInfo (fst (demo_env (gChipInfo ! 0) (full_flash (block_base (demo_board (gChipInfo ! 0))))))
     TAG_TFTP_SRV [192, 168, 0, 1] (demo_board (gChipInfo ! 0)) = Inl OutOfBounds"
  using AddBoardInfo_overflow [OF demo_ok(1) [OF chip_members(1)] full_block(1) [OF chip_members(1)], of "[192, 168, 0, 1]" TAG_TFTP_SRV]
    full_block(2) [OF chip_members(1)] by simp

lemma data_loop_stuck:
  assumes "ld32 (gTemp s) 0 = Some t" and "t \<noteq> 0xffffffff" and "t \<noteq> TAG_TFTP_SRV"
    and "ld32 (gTemp s) 4 = Some 0xfffffff8"
  shows "data_loop apl verbose 0 s = None"
proof -
  have wraps: "8 + round4 0xfffffff8 = 0"
  proof -
    have "8 + round4 0xfffffff8 = (4294967296 :: u32)" by (simp add: round4_def)
    then show ?thesis by simp
  qed
  have "data_loop apl' verbose' off' s' = Some r \<Longrightarrow> \<not> (off' = 0 \<and> s' = s)" for apl' verbose' off' s' r
  proof (induction rule: data_loop.raw_induct [rotated 1, consumes 1, case_names Step])
    case (Step dl apl verbose off s'' r)
    then show ?case
      using assms wraps by (auto simp: Let_def data_tag_def sizeof_gTemp_def) metis
  qed
  then show ?thesis by (metis not_Some_eq)
qed

text \<open>
  A data block can stop the machine at boot: when its first entry has another tag than
  the server address and the length \<open>0xFFFFFFF8\<close>, the walk over the tags steps back to the entry
  it comes from and never ends.
\<close>

theorem ParseDataBlock_hangs:
  assumes "flash_ok e s" and "t \<noteq> 0xffffffff" and "t \<noteq> TAG_TFTP_SRV"
    and "map (contents e s) [block_base s ..< block_base s + 8] = le_bytes t @ le_bytes 0xfffffff8"
  shows "ParseDataBlock (fst e) apl verbose s = Inl Hang"
proof -
  from assms(1) obtain p where p: "gChip s = Some p" by (rule flash_okE)
  note b = data_page_base [OF assms(1) p]
  have l: "length (gTemp s) = 1024" using assms(1) by (rule flash_okE)
  obtain s' where s': "read_temp (fst e) (data_page p) sizeof_gTemp s = Inr s'"
    "gTemp s' = map (contents e s) [block_base s ..< block_base s + 1024] @ drop 1024 (gTemp s)"
    using flash.rd_law [OF assms(1), of "data_page p" sizeof_gTemp] b l by auto
  have "[block_base s ..< block_base s + 1024] = [block_base s ..< block_base s + 8] @ [block_base s + 8 ..< block_base s + 1024]"
    using upt_add_eq_append [of "block_base s" "block_base s + 8" 1016] by (simp add: add.commute)
  then have g: "gTemp s' = le_bytes t @ le_bytes 0xfffffff8 @ map (contents e s) [block_base s + 8 ..< block_base s + 1024]"
    using s'(2) assms(4) l by simp
  have 1: "ld32 (gTemp s') 0 = Some t" unfolding g using ld32_at [of 0 "[]" t] by simp
  have 2: "ld32 (gTemp s') 4 = Some 0xfffffff8" unfolding g using ld32_at [of 4 "le_bytes t"] by simp
  have "data_loop apl verbose 0 s' = None" using data_loop_stuck [OF 1 assms(2,3) 2] .
  then show ?thesis using p s'(1) by (simp add: ParseDataBlock_def)
qed

theorem ParseDataBlock_hangs_witness:
  "ParseDataBlock (fst (demo_env (gChipInfo ! 0) (\<lambda>x. if x mod 8 < 4 then 1 else if x mod 8 = 4 then 0xf8 else 0xff)))
     True False (demo_board (gChipInfo ! 0)) = Inl Hang"
proof -
  let ?m = "\<lambda>x :: nat. if x mod 8 < 4 then 1 else if x mod 8 = 4 then 0xf8 else 0xff :: u8"
  have b: "block_base (demo_board (gChipInfo ! 0)) = 8323072"
    by (simp add: block_base_def demo_ok gChipInfo_def)
  have "map ?m [8323072 ..< 8323072 + 8] = le_bytes 0x01010101 @ le_bytes 0xfffffff8"
    by (simp add: upt_rec le_bytes_def)
  then show ?thesis
    using ParseDataBlock_hangs [OF demo_ok(1) [OF chip_members(1)], of "0x01010101" ?m True False]
    by (simp add: demo_ok b TAG_TFTP_SRV_def)
qed

end
