(* ===== verification/Tftp.thy ===== *)
theory Tftp
  imports Data_Block
begin

text \<open>
  The TFTP loader (\<open>tftp_ldr.c\<close>) and the commands of \<open>main.c\<close> that run it. lwIP's client calls
  the callbacks \<open>tftp_read\<close>, \<open>tftp_write\<close>, \<open>tftp_close\<close> and \<open>tftp_error\<close>; what it calls them with
  is an input of the model. A \<open>pbuf\<close> chain is the list of the payloads of its buffers.
\<close>

section \<open>The callbacks of the TFTP client\<close>

definition INVALID_FLASH_ADR :: u32 where "INVALID_FLASH_ADR = 0xffffffff"
definition PROGRESS_SIZE :: u32 where "PROGRESS_SIZE = 64 * 1024"
definition MAX_FILENAME_LEN :: nat where "MAX_FILENAME_LEN = 32"
definition MAX_ERR_MSG_LEN :: nat where "MAX_ERR_MSG_LEN = 32"

definition on_tftp :: "(tftp_ldr_internal \<Rightarrow> tftp_ldr_internal) \<Rightarrow> board \<Rightarrow> board" where
  "on_tftp f s = s\<lparr>gTftp := f (gTftp s)\<rparr>"

definition tftp_close :: "board \<Rightarrow> board" where
  "tftp_close s =
     (if Error (gTftp s) = TFTP_IN_PROGRESS then on_tftp (\<lambda>p. p\<lparr>Error := TFTP_OK\<rparr>) s else s)"

text \<open>\<open>tftp_read\<close>: the return value, and the bytes put into \<open>Buf\<close>.\<close>

definition tftp_read :: "device \<Rightarrow> u32 \<Rightarrow> board \<Rightarrow> (int \<times> u8 list \<times> board) res" where
  "tftp_read dev Len s =
     (let p = gTftp s in
      if TransferType p = Some TFTP_TYPE_SAVE then
        (let n = (if BytesTransfered p + Len > SendLen p then SendLen p - BytesTransfered p else Len) in
         rbind (spi_read dev (gChip s) (FlashAdr p + BytesTransfered p) n (spi_tr s)) (\<lambda>(bs, tr).
           Inr (sint n, bs, (on_tftp (\<lambda>p. p\<lparr>BytesTransfered := BytesTransfered p + n\<rparr>) s)\<lparr>spi_tr := tr\<rparr>)))
      else Inr (-1, [], s))"

text \<open>The \<open>switch\<close> of \<open>tftp_write\<close> for one buffer of the chain.\<close>

definition write_ram :: "u32 \<Rightarrow> u8 list \<Rightarrow> board \<Rightarrow> board res" where
  "write_ram TotalLen payload s =
     (let p = gTftp s; b = unat (BytesTransfered p) in
      if sint (BytesTransfered p + TotalLen) > sint (MaxBytes p)
      then Inr (on_tftp (\<lambda>p. p\<lparr>Error := TFTP_ERR_BUF_TOO_SMALL\<rparr>) s)
      else if length (gTemp s) < b + length payload then Inl OutOfBounds
      else Inr (s\<lparr>gTemp := take b (gTemp s) @ payload @ drop (b + length payload) (gTemp s)\<rparr>))"

definition flash_block :: "device \<Rightarrow> u32 \<Rightarrow> u8 list \<Rightarrow> board \<Rightarrow> board res" where
  "flash_block dev Adr payload s =
     (case gChip s of
        None \<Rightarrow> Inl NullPtr
      | Some pInfo \<Rightarrow>
          (let BufLen = of_nat (length payload);
               E = EraseSize pInfo;
               LastAdr = Adr + BufLen - 1;
               EraseEnd = LastAdr - LastAdr mod E;
               p = gTftp s
           in rbind
                (if bAutoErase p \<and> LastEraseAdr p \<noteq> EraseEnd
                 then (let s1 = on_tftp (\<lambda>p. p\<lparr>LastEraseAdr :=
                                  (if LastEraseAdr p = INVALID_FLASH_ADR then Adr - Adr mod E
                                   else LastEraseAdr p + E)\<rparr>) s
                       in erase_flash dev (LastEraseAdr (gTftp s1)) E s1)
                 else Inr s)
                (\<lambda>s2. write_flash dev Adr payload BufLen s2)))"

text \<open>The loop that finds the first byte that differs.\<close>

fun first_diff :: "u8 list \<Rightarrow> u8 list \<Rightarrow> nat" where
  "first_diff (x # xs) (y # ys) = (if x \<noteq> y then 0 else Suc (first_diff xs ys))"
| "first_diff _ _ = 0"

definition compare_block :: "device \<Rightarrow> u32 \<Rightarrow> u8 list \<Rightarrow> board \<Rightarrow> board res" where
  "compare_block dev Adr payload s =
     (let BufLen = of_nat (length payload) in
      if sint BufLen > sint (MaxBytes (gTftp s))
      then Inr (on_tftp (\<lambda>p. p\<lparr>Error := TFTP_ERR_BUF_TOO_SMALL\<rparr>) s)
      else rbind (read_temp dev Adr BufLen s) (\<lambda>s1.
        let Ram = take (length payload) (gTemp s1) in
        if Ram \<noteq> payload
        then Inr (on_tftp (\<lambda>p. p\<lparr>BytesTransfered := BytesTransfered p + of_nat (first_diff Ram payload),
                                 Error := TFTP_ERR_COMPARE_FAIL\<rparr>) s1)
        else Inr s1))"

definition write_one :: "device \<Rightarrow> u32 \<Rightarrow> u32 \<Rightarrow> u8 list \<Rightarrow> board \<Rightarrow> board res" where
  "write_one dev Adr TotalLen payload s =
     (case TransferType (gTftp s) of
        Some TFTP_TYPE_RAM \<Rightarrow> write_ram TotalLen payload s
      | Some TFTP_TYPE_FLASH \<Rightarrow> flash_block dev Adr payload s
      | Some TFTP_TYPE_COMPARE \<Rightarrow> compare_block dev Adr payload s
      | _ \<Rightarrow> Inr (on_tftp (\<lambda>p. p\<lparr>Error := TFTP_ERR_INTERNAL\<rparr>) s))"

text \<open>
  The loop over the chain of buffers. \<open>Adr\<close> is computed once, before the loop. A chain that is
  shorter than its total length makes \<open>pBuf\<close> null.
\<close>

fun tftp_write_loop :: "device \<Rightarrow> u32 \<Rightarrow> u16 \<Rightarrow> u16 \<Rightarrow> u8 list list \<Rightarrow> board \<Rightarrow> (int \<times> board) res" where
  "tftp_write_loop dev Adr TotalLen Len [] s = (if Len < TotalLen then Inl NullPtr else Inr (0, s))"
| "tftp_write_loop dev Adr TotalLen Len (payload # next) s =
     (if Len < TotalLen then
        rbind (write_one dev Adr (ucast TotalLen) payload s) (\<lambda>s1.
          if Error (gTftp s1) \<noteq> TFTP_IN_PROGRESS then Inr (-1, s1)
          else tftp_write_loop dev Adr TotalLen (Len + of_nat (length payload)) next
                 (on_tftp (\<lambda>p. p\<lparr>BytesTransfered := BytesTransfered p + of_nat (length payload)\<rparr>) s1))
      else Inr (0, s))"

definition tftp_write :: "device \<Rightarrow> u16 \<Rightarrow> u8 list list \<Rightarrow> board \<Rightarrow> (int \<times> board) res" where
  "tftp_write dev tot_len pBuf s =
     tftp_write_loop dev (FlashAdr (gTftp s) + BytesTransfered (gTftp s)) tot_len 0 pBuf s"

definition tftp_error :: "u8 list \<Rightarrow> nat \<Rightarrow> board \<Rightarrow> board res" where
  "tftp_error Msg sz s =
     (let n = (if sz > MAX_ERR_MSG_LEN then MAX_ERR_MSG_LEN else sz) in
      if length Msg < n then Inl OutOfBounds
      else Inr (on_tftp (\<lambda>p. p\<lparr>ErrMsg := (take n Msg @ drop n (ErrMsg p))[MAX_ERR_MSG_LEN := 0],
                              Error := TFTP_ERR_FAILED\<rparr>) s))"

section \<open>Starting and ending a transfer\<close>

text \<open>
  lwIP's results are parameters: \<open>init_err\<close> of \<open>tftp_init_client\<close>, \<open>start_err\<close> of \<open>tftp_put\<close> or
  \<open>tftp_get\<close>; 0 is \<open>ERR_OK\<close>. An unset \<open>TransferType\<close> is the enumeration's value 0, which the
  test of the range lets pass.
\<close>

definition ERR_VAL :: int where "ERR_VAL = -6"

definition ldr_tftp_init :: "int \<Rightarrow> int \<Rightarrow> board \<Rightarrow> int \<times> board" where
  "ldr_tftp_init init_err start_err s =
     (if ServerIP (gTftp s) = 0 then (ERR_VAL, s)
      else
        let s1 = on_tftp (\<lambda>p. p\<lparr>Error := TFTP_OK, LastEraseAdr := INVALID_FLASH_ADR, BytesTransfered := 0,
                               LastProgress := 0, ErrMsg := (ErrMsg p)[0 := 0]\<rparr>) s
        in if init_err \<noteq> 0 then (init_err, s1)
           else if start_err \<noteq> 0 then (start_err, s1)
           else (0, on_tftp (\<lambda>p. p\<lparr>Error := TFTP_IN_PROGRESS\<rparr>) s1))"

text \<open>
  \<open>GetTftpTransferVals\<close> splits the line at the first blank by storing a zero there. Without a
  blank the pointer steps over the line's own terminator: \<open>beyond\<close> is what the line buffer holds
  behind it. The result is the return code and the new state.
\<close>

definition GetTftpTransferVals ::
  "(cstr \<Rightarrow> u32) \<Rightarrow> (cstr \<Rightarrow> u32) \<Rightarrow> cstr \<Rightarrow> cstr \<Rightarrow> TransferType_t \<Rightarrow> board \<Rightarrow> CommandResults_t \<times> board" where
  "GetTftpTransferVals ai ah beyond CmdLine ttype s =
     (if deref CmdLine = 0 then (RESULT_USAGE, s)
      else if ServerIP (gTftp s) = 0
      then (RESULT_ERR, NetPrintf ''Error - TFTP server address not set\<newline>'' [] s)
      else
        (let r = Skip2Space CmdLine;
             name = take (length CmdLine - length r) CmdLine;
             cp = (if r = [] then beyond else tl r)
         in if length name > MAX_FILENAME_LEN
            then (RESULT_ERR, NetPrintf ''Filename too long, max %d characters\<newline>'' [Num (of_nat MAX_FILENAME_LEN)] s)
            else
              (case GetAdrAndLen ai ah False cp (FlashAdr (gTftp s)) 0 (on_tftp (\<lambda>p. p\<lparr>Filename := name\<rparr>) s) of
                 ((Ret, cp1, Adr, _), s1) \<Rightarrow>
                   (let s2 = on_tftp (\<lambda>p. p\<lparr>FlashAdr := (if Ret \<noteq> RESULT_OK then gDefaultFlashAdr else Adr)\<rparr>) s1 in
                    case (if ttype = TFTP_TYPE_SAVE then ConvertValue ai ah cp1 (SendLen (gTftp s2))
                          else (0, cp1, SendLen (gTftp s2))) of
                      (err, _, len) \<Rightarrow>
                        if err \<noteq> 0 then (RESULT_OK, s2)
                        else (RESULT_OK, on_tftp (\<lambda>p. p\<lparr>SendLen := len, MaxBytes := sizeof_gTemp,
                                                        TransferType := Some ttype\<rparr>) s2)))))"

text \<open>
  The loop of \<open>TftpTranserWait\<close>. What each \<open>pano_netif_poll\<close> does is a parameter, a list of the
  effects of the polls: the callbacks they run. When they end before the transfer does, the
  loop goes on for ever.
\<close>

definition show_progress :: "nat \<Rightarrow> board \<Rightarrow> nat \<times> board" where
  "show_progress n s =
     (let p = gTftp s in
      if BytesTransfered p - LastProgress p > PROGRESS_SIZE then
        (let s1 = on_tftp (\<lambda>p. p\<lparr>LastProgress := LastProgress p + PROGRESS_SIZE\<rparr>) s in
         if n > 64 then (0, NetPrintf ''.'' [] (NetPrintf ''\<newline>'' [] s1))
         else (n + 1, NetPrintf ''.'' [] s1))
      else (n, s))"

fun wait_loop :: "(board \<Rightarrow> board res) list \<Rightarrow> nat \<Rightarrow> board \<Rightarrow> (nat \<times> board) res" where
  "wait_loop [] n s = (if Error (gTftp s) = TFTP_IN_PROGRESS then Inl Hang else Inr (n, s))"
| "wait_loop (ev # evs) n s =
     (if Error (gTftp s) = TFTP_IN_PROGRESS then
        rbind (ev s) (\<lambda>s1. case show_progress n s1 of (n1, s2) \<Rightarrow> wait_loop evs n1 s2)
      else Inr (n, s))"

definition TftpTranserWait :: "(board \<Rightarrow> board res) list \<Rightarrow> board \<Rightarrow> (CommandResults_t \<times> board) res" where
  "TftpTranserWait evs s =
     rbind (wait_loop evs 0 s) (\<lambda>(n, s1).
       let s2 = (if 0 < n then NetPrintf ''\<newline>'' [] s1 else s1); p = gTftp s2 in
       Inr (if ErrMsg p ! 0 \<noteq> 0
            then (RESULT_ERR, NetPrintf ''%s\<newline>'' [Text (takeWhile (\<lambda>c. c \<noteq> 0) (ErrMsg p))] s2)
            else if Error p = TFTP_ERR_COMPARE_FAIL
            then (RESULT_OK, NetPrintf ''Compare failed @ 0x%0lx\<newline>'' [Num (FlashAdr p + BytesTransfered p)] s2)
            else if Error p \<noteq> TFTP_OK
            then (RESULT_ERR, NetPrintf ''Failed %d\<newline>'' [] s2)
            else (RESULT_OK, s2)))"

section \<open>The transfer commands\<close>

text \<open>\<open>FlashCmd\<close> and \<open>SaveCmd\<close> differ in the type of the transfer and the last message.\<close>

definition transfer_cmd ::
  "TransferType_t \<Rightarrow> string \<Rightarrow> (cstr \<Rightarrow> u32) \<Rightarrow> (cstr \<Rightarrow> u32) \<Rightarrow> cstr \<Rightarrow> int \<Rightarrow> int \<Rightarrow> (board \<Rightarrow> board res) list \<Rightarrow>
   cstr \<Rightarrow> board \<Rightarrow> (CommandResults_t \<times> board) res" where
  "transfer_cmd ttype done_msg ai ah beyond init_err start_err evs CmdLine s =
     (case GetTftpTransferVals ai ah beyond CmdLine ttype s of (Ret, s1) \<Rightarrow>
        if Ret \<noteq> RESULT_OK then Inr (Ret, s1)
        else case ldr_tftp_init init_err start_err s1 of (Err, s2) \<Rightarrow>
          if Err \<noteq> 0 then Inr (RESULT_ERR, NetPrintf ''tftp transfer failed %d\<newline>'' [Num (of_int Err)] s2)
          else rbind (TftpTranserWait evs s2) (\<lambda>(r, s3).
            Inr (r, if r = RESULT_OK then NetPrintf done_msg [Num (BytesTransfered (gTftp s3))] s3 else s3)))"

definition FlashCmd where
  "FlashCmd = transfer_cmd TFTP_TYPE_FLASH ''\<newline>Flashed %d bytes\<newline>''"

definition SaveCmd where
  "SaveCmd = transfer_cmd TFTP_TYPE_SAVE ''\<newline>Saved %d bytes\<newline>''"

text \<open>\<open>VerifyCmd\<close> goes on when the transfer cannot be started.\<close>

definition VerifyCmd ::
  "(cstr \<Rightarrow> u32) \<Rightarrow> (cstr \<Rightarrow> u32) \<Rightarrow> cstr \<Rightarrow> int \<Rightarrow> int \<Rightarrow> (board \<Rightarrow> board res) list \<Rightarrow>
   cstr \<Rightarrow> board \<Rightarrow> (CommandResults_t \<times> board) res" where
  "VerifyCmd ai ah beyond init_err start_err evs CmdLine s =
     (case GetTftpTransferVals ai ah beyond CmdLine TFTP_TYPE_COMPARE s of (Ret, s1) \<Rightarrow>
        if Ret \<noteq> RESULT_OK then Inr (Ret, s1)
        else case ldr_tftp_init init_err start_err s1 of (Err, s2) \<Rightarrow>
          (let s3 = (if Err \<noteq> 0 then NetPrintf ''tftp transfer failed %d:%d\<newline>'' [Num (of_int Err)] s2 else s2)
           in rbind (TftpTranserWait evs s3) (\<lambda>(r, s4).
                Inr (r, if r = RESULT_OK then NetPrintf ''%d bytes verified\<newline>'' [Num (BytesTransfered (gTftp s4))] s4
                        else s4))))"

section \<open>Flashing a file\<close>

lemma write_flash_frame: "write_flash dev a ds n s = Inr s' \<Longrightarrow> s' = s\<lparr>spi_tr := spi_tr s'\<rparr>"
  by (auto simp: write_flash_def res_simps)

lemma erase_flash_frame': "erase_flash dev a n s = Inr s' \<Longrightarrow> s' = s\<lparr>spi_tr := spi_tr s'\<rparr>"
  by (auto simp: erase_flash_def res_simps)

lemma on_tftp_flash [simp]:
  "flash_ok e (on_tftp f s) = flash_ok e s" "contents e (on_tftp f s) = contents e s"
  "flash_size (on_tftp f s) = flash_size s" "sector_size (on_tftp f s) = sector_size s"
  "gChip (on_tftp f s) = gChip s" "gTftp (on_tftp f s) = f (gTftp s)" "gTemp (on_tftp f s) = gTemp s"
  by (simp_all add: on_tftp_def flash_ok_def contents_def flash_size_def sector_size_def)

lemma sector_blocks: "flash_ok e s \<Longrightarrow> \<exists>k. sector_size s = 512 * k \<and> 0 < k"
proof -
  assume "flash_ok e s"
  then obtain p where "p \<in> set gChipInfo" "gChip s = Some p" by (rule flash_okE)
  then have "sector_size s = 512 * 128 \<or> sector_size s = 512 * 512"
    by (auto simp: gChipInfo_def sector_size_def)
  then show ?thesis by auto
qed

lemma sector_start: "unat (w - w mod (E :: u32)) = unat w div unat E * unat E"
proof -
  have "w mod E \<le> w" by (simp add: word_le_nat_alt unat_mod)
  then show ?thesis by (simp add: unat_sub unat_mod flip: minus_mod_eq_div_mult)
qed

text \<open>
  Sectors are erased ahead of the data: with \<open>k\<close> bytes written from the sector boundary \<open>A\<close>, the
  first \<open>n\<close> sectors have been erased, the least number that holds the bytes. The last of them is
  what \<open>LastEraseAdr\<close> names.
\<close>

definition sectors_for :: "nat \<Rightarrow> nat \<Rightarrow> nat" where
  "sectors_for E k = (k + E - 1) div E"

definition erase_mark :: "nat \<Rightarrow> nat \<Rightarrow> nat \<Rightarrow> u32" where
  "erase_mark E A k = (if k = 0 then INVALID_FLASH_ADR else of_nat (A + E * (sectors_for E k - 1)))"

lemma sectors_for_0 [simp]: "0 < E \<Longrightarrow> sectors_for E 0 = 0"
  by (simp add: sectors_for_def)

lemma sectors_for_iff: "0 < E \<Longrightarrow> sectors_for E k = n \<longleftrightarrow> k \<le> E * n \<and> E * n < k + E"
proof -
  assume E: "0 < E"
  have "k + E - 1 = E * sectors_for E k + (k + E - 1) mod E" unfolding sectors_for_def by simp
  moreover have "(k + E - 1) mod E < E" using E by simp
  ultimately have b: "k \<le> E * sectors_for E k" "E * sectors_for E k < k + E" using E by linarith+
  show ?thesis
  proof
    assume h: "k \<le> E * n \<and> E * n < k + E"
    have "E * n < E * (sectors_for E k + 1)" "E * sectors_for E k < E * (n + 1)"
      using b h unfolding distrib_left by linarith+
    then have "n < sectors_for E k + 1" "sectors_for E k < n + 1" using mult_less_cancel1 by metis+
    then show "sectors_for E k = n" by simp
  qed (use b in auto)
qed

lemma sectors_for_block:
  assumes "0 < c" and "0 < len" and "len \<le> 512"
  shows "sectors_for (512 * c) (512 * j + len) = j div c + 1"
    and "sectors_for (512 * c) (512 * j) = (if j mod c = 0 then j div c else j div c + 1)"
proof -
  have j: "j = c * (j div c) + j mod c" "j mod c < c" using assms(1) by simp_all
  then have j5: "512 * j = 512 * c * (j div c) + 512 * (j mod c)" by (metis distrib_left mult.assoc)
  have r: "512 * (j mod c) + 512 \<le> 512 * c" using j(2) by linarith
  show "sectors_for (512 * c) (512 * j + len) = j div c + 1"
    using assms j5 r by (subst sectors_for_iff) (simp_all add: distrib_left)
  show "sectors_for (512 * c) (512 * j) = (if j mod c = 0 then j div c else j div c + 1)"
    using assms j5 r by (subst sectors_for_iff) (auto simp: distrib_left)
qed

lemma flash_block_step:
  assumes "flash_ok e s" and "sector_size s = 512 * c" and "bAutoErase (gTftp s)"
    and "A mod sector_size s = 0" and "unat Adr = A + 512 * j"
    and "0 < length d" and "length d \<le> 512" and "length d \<le> 256 \<or> length d = 512"
    and "A + 512 * j + length d \<le> flash_size s"
    and "LastEraseAdr (gTftp s) = erase_mark (512 * c) A (512 * j)"
    and "\<forall>x. A + 512 * j \<le> x \<and> x < A + 512 * c * sectors_for (512 * c) (512 * j) \<longrightarrow> contents e s x = 0xff"
  shows "\<exists>s' tr. flash_block (fst e) Adr d s = Inr s' \<and> flash_ok e s' \<and>
    s' = (on_tftp (\<lambda>p. p\<lparr>LastEraseAdr := erase_mark (512 * c) A (512 * j + length d)\<rparr>) s)\<lparr>spi_tr := tr\<rparr> \<and>
    contents e s' = (\<lambda>x. if A + 512 * j \<le> x \<and> x < A + 512 * j + length d then d ! (x - (A + 512 * j))
       else if A + 512 * j \<le> x \<and> x < A + 512 * c * sectors_for (512 * c) (512 * j + length d) then 0xff
       else contents e s x)"
proof -
  from assms(1) obtain p where p: "p \<in> set gChipInfo" "gChip s = Some p" by (rule flash_okE)
  have g: "0 < sector_size s" "flash_size s \<le> 2 ^ 24" "flash_size s mod sector_size s = 0"
    using flash.geometry [OF assms(1)] by simp_all
  have c: "0 < c" using g(1) assms(2) by simp
  have E: "unat (EraseSize p) = 512 * c"
    using chip_geometry [OF p(1)] p(2) assms(2) by (simp add: sector_size_def)
  obtain a where a: "A = 512 * c * a" using assms(2,4) by (auto simp: mod_eq_0_iff_dvd dvd_def)
  have j: "j = c * (j div c) + j mod c" "j mod c < c" using c by simp_all
  define m where "m = a + j div c"
  have Am: "A + 512 * j = 512 * c * m + 512 * (j mod c)"
    unfolding a m_def using j(1) by (metis add.assoc distrib_left mult.assoc)
  have r: "512 * (j mod c) + 512 \<le> 512 * c" using j(2) by linarith
  have B: "A + 512 * j + length d \<le> 2 ^ 24" using assms(9) g(2) by simp
  have u: "unat (Adr + of_nat (length d) - 1) = A + 512 * j + length d - 1"
  proof -
    have v: "unat (Adr + of_nat (length d)) = A + 512 * j + length d"
      using assms(5,7) B by (simp add: unat_add_small unat_of_nat_u32)
    have "1 \<le> A + 512 * j + length d" using assms(6) by linarith
    with v have "(1 :: u32) \<le> Adr + of_nat (length d)" by (simp add: word_le_nat_alt)
    then show ?thesis using v by (simp add: unat_sub)
  qed
  have k: "sectors_for (512 * c) (512 * j + length d) = j div c + 1"
    using sectors_for_block(1) [OF c assms(6,7)] .
  have k0: "sectors_for (512 * c) (512 * j) = (if j mod c = 0 then j div c else j div c + 1)"
    using sectors_for_block(2) [OF c assms(6,7)] .
  have q: "(A + 512 * j + i) div (512 * c) = m" if "i < 512" for i
  proof -
    have "A + 512 * j + i = (512 * (j mod c) + i) + 512 * c * m" using Am by simp
    moreover have "512 * (j mod c) + i < 512 * c" using r that by simp
    moreover have "(x + 512 * c * m) div (512 * c) = m" if "x < 512 * c" for x
      using div_mult_self2 [of "512 * c" x m] that c by simp
    ultimately show ?thesis by presburger
  qed
  define EndAdr where "EndAdr = Adr + of_nat (length d) - 1 - (Adr + of_nat (length d) - 1) mod EraseSize p"
  have e1: "unat EndAdr = 512 * c * m"
    unfolding EndAdr_def sector_start E u using q [of "length d - 1"] assms(6,7) by (simp add: mult.commute)
  have s1: "unat (Adr - Adr mod EraseSize p) = 512 * c * m"
    unfolding sector_start E assms(5) using q [of 0] by (simp add: mult.commute)
  have mB: "512 * c * m < 16777216"
  proof -
    have "A + 512 * j + length d \<le> 16777216" using B by simp
    then show ?thesis using Am assms(6) by linarith
  qed
  have Am': "A + 512 * c * (j div c) = 512 * c * m" unfolding a m_def by (simp add: distrib_left)
  have mark: "erase_mark (512 * c) A (512 * j + length d) = of_nat (512 * c * m)"
    using assms(6) k Am' by (simp add: erase_mark_def)
  have EndAdr: "EndAdr = of_nat (512 * c * m)" by (rule word_of_unat [OF e1])
  have sec_fit: "512 * c * m + 512 * c \<le> flash_size s"
  proof -
    obtain z where z: "flash_size s = 512 * c * z" using g(3) assms(2) by (auto simp: mod_eq_0_iff_dvd dvd_def)
    have "512 * c * m < 512 * c * z" using Am assms(6,9) z by linarith
    then have "m < z" by simp
    then have "512 * c * (m + 1) \<le> 512 * c * z" by (intro mult_le_mono2) simp
    then show ?thesis using z by (simp add: distrib_left)
  qed
  define s1 where "s1 = on_tftp (\<lambda>p. p\<lparr>LastEraseAdr := of_nat (512 * c * m)\<rparr>) s"
  have done_: ?thesis
    if s2: "flash_ok e s2" "s2 = s1\<lparr>spi_tr := tr2\<rparr>" "flash_size s2 = flash_size s"
      "flash_block (fst e) Adr d s = write_flash (fst e) Adr d (of_nat (length d)) s2"
      "contents e s2 = (\<lambda>x. if A + 512 * j \<le> x \<and> x < 512 * c * m + 512 * c then 0xff else contents e s x)"
    for s2 tr2
  proof -
    have al: "unat Adr mod 256 + length d \<le> 256 \<or> unat Adr mod 256 = 0 \<and> length d mod 256 = 0"
    proof -
      have "unat Adr = 256 * (2 * c * m + 2 * (j mod c))" using assms(5) Am by simp
      then have "unat Adr mod 256 = 0" by simp
      then show ?thesis using assms(8) by auto
    qed
    have bl: "\<forall>i < length d. contents e s2 (unat Adr + i) = 0xff"
      unfolding s2(5) assms(5) using Am r assms(7) by auto
    have fit: "unat Adr + length d \<le> flash_size s2" "unat (of_nat (length d) :: u32) = length d"
      using assms(5,7,9) s2(3) by (simp_all add: unat_of_nat_u32)
    obtain s' where w: "write_flash (fst e) Adr d (of_nat (length d)) s2 = Inr s'" "flash_ok e s'"
      "contents e s' = (\<lambda>x. if unat Adr \<le> x \<and> x < unat Adr + length d then d ! (x - unat Adr) else contents e s2 x)"
      using flash.write_blank [OF s2(1) fit al bl] by blast
    have "s' = s1\<lparr>spi_tr := spi_tr s'\<rparr>" using write_flash_frame [OF w(1)] s2(2) by simp
    moreover have "contents e s' = (\<lambda>x. if A + 512 * j \<le> x \<and> x < A + 512 * j + length d then d ! (x - (A + 512 * j))
       else if A + 512 * j \<le> x \<and> x < A + 512 * c * (j div c + 1) then 0xff else contents e s x)"
      unfolding w(3) s2(5) assms(5) using Am' by (auto simp: distrib_left fun_eq_iff)
    ultimately show ?thesis using w(1,2) s2(4) mark k unfolding s1_def by auto
  qed
  show ?thesis
  proof (cases "j mod c = 0")
    case True
    have last: "unat (LastEraseAdr (gTftp s)) = 512 * c * m - 512 * c \<and> 512 * c \<le> 512 * c * m" if "j \<noteq> 0"
    proof -
      have jc: "0 < j div c" using True j(1) that by (metis add.right_neutral gr0I mult_0_right)
      then obtain i where i: "j div c = Suc i" using gr0_implies_Suc by blast
      have am: "A + 512 * c * i + 512 * c = 512 * c * m" using Am' unfolding i by simp
      have "LastEraseAdr (gTftp s) = of_nat (A + 512 * c * i)"
        using assms(10) that k0 True i by (simp add: erase_mark_def)
      moreover have "A + 512 * c * i < 4294967296" using am mB by linarith
      ultimately have "unat (LastEraseAdr (gTftp s)) = A + 512 * c * i" by (simp add: unat_of_nat_u32 del: of_nat_add of_nat_mult)
      then show ?thesis using am by linarith
    qed
    have first: "LastEraseAdr (gTftp s) = INVALID_FLASH_ADR" if "j = 0"
      using assms(10) that by (simp add: erase_mark_def)
    have ne: "LastEraseAdr (gTftp s) \<noteq> EndAdr"
    proof (cases "j = 0")
      case True
      then have "unat (LastEraseAdr (gTftp s)) = 4294967295" using first by (simp add: INVALID_FLASH_ADR_def)
      then show ?thesis using e1 mB by auto
    next
      case False
      have "0 < 512 * c" using c by simp
      then have "unat (LastEraseAdr (gTftp s)) < 512 * c * m" using last [OF False] by linarith
      then show ?thesis using e1 by auto
    qed
    have next_sec: "(if LastEraseAdr (gTftp s) = INVALID_FLASH_ADR then Adr - Adr mod EraseSize p
        else LastEraseAdr (gTftp s) + EraseSize p) = EndAdr"
    proof (cases "j = 0")
      case True
      then show ?thesis using first e1 s1 by (simp add: word_unat_eq_iff)
    next
      case False
      have "unat (LastEraseAdr (gTftp s)) < 4294967295" using last [OF False] mB by linarith
      then have "LastEraseAdr (gTftp s) \<noteq> INVALID_FLASH_ADR" by (auto simp: INVALID_FLASH_ADR_def)
      moreover have "unat (LastEraseAdr (gTftp s) + EraseSize p) = 512 * c * m"
        using last [OF False] mB E by (subst unat_add_small) simp_all
      ultimately show ?thesis using e1 by (simp add: word_unat_eq_iff)
    qed
    have upd: "on_tftp (\<lambda>p'. p'\<lparr>LastEraseAdr := if LastEraseAdr p' = INVALID_FLASH_ADR then Adr - Adr mod EraseSize p
        else LastEraseAdr p' + EraseSize p\<rparr>) s = s1"
      using next_sec EndAdr by (simp add: on_tftp_def s1_def)
    have l1: "LastEraseAdr (gTftp s1) = EndAdr" using EndAdr by (simp add: s1_def)
    have f: "flash_ok e s1" "unat (EraseSize p) = sector_size s1" "unat EndAdr mod sector_size s1 = 0"
      "unat EndAdr + unat (EraseSize p) \<le> flash_size s1"
      using assms(1,2) E e1 sec_fit by (simp_all add: s1_def)
    obtain s2 where s2: "erase_flash (fst e) EndAdr (EraseSize p) s1 = Inr s2" "flash_ok e s2" "flash_size s2 = flash_size s1"
      "contents e s2 = erase_sector (sector_size s1) (unat EndAdr) (contents e s1)"
      using flash.er_law [OF f] by blast
    have ss: "(x div (512 * c) = m) = (512 * c * m \<le> x \<and> x < 512 * c * m + 512 * c)" for x
      using same_sector [of "512 * c * m" "512 * c" x] c by simp
    show ?thesis
    proof (rule done_ [of s2 "spi_tr s2"])
      show "s2 = s1\<lparr>spi_tr := spi_tr s2\<rparr>" by (rule erase_flash_frame' [OF s2(1)])
      show "flash_block (fst e) Adr d s = write_flash (fst e) Adr d (word_of_nat (length d)) s2"
        unfolding flash_block_def p(2) Let_def EndAdr_def [symmetric] option.case upd l1 s2(1)
        using assms(3) ne s2(1) by simp
      show "contents e s2 = (\<lambda>x. if A + 512 * j \<le> x \<and> x < 512 * c * m + 512 * c then 0xff else contents e s x)"
        unfolding s2(4) e1 using True Am ss c assms(2) by (auto simp: erase_sector_def s1_def fun_eq_iff)
      show "flash_size s2 = flash_size s" using s2(3) by (simp add: s1_def)
    qed (rule s2(2))
  next
    case False
    then have "j \<noteq> 0" by (metis mod_0)
    then have "LastEraseAdr (gTftp s) = EndAdr" using assms(10) False k0 Am' EndAdr by (simp add: erase_mark_def)
    moreover from this have "s1 = s" using EndAdr by (simp add: s1_def on_tftp_def)
    moreover have "contents e s = (\<lambda>x. if A + 512 * j \<le> x \<and> x < 512 * c * m + 512 * c then 0xff else contents e s x)"
      using assms(11) False k0 Am' by (auto simp: fun_eq_iff distrib_left)
    ultimately show ?thesis
      using assms(1) p(2) unfolding EndAdr_def
      by (intro done_ [of s "spi_tr s"]) (simp_all add: flash_block_def Let_def)
  qed
qed

text \<open>
  The blocks of a file as a server sends them: 512 bytes each, the last one shorter. \<open>receive\<close> is
  what a poll does when one of them arrives, in one buffer.
\<close>

definition receive :: "device \<Rightarrow> u8 list \<Rightarrow> board \<Rightarrow> board res" where
  "receive dev d s = rbind (tftp_write dev (of_nat (length d)) [d] s) (\<lambda>(_, s1). Inr s1)"

definition closing :: "board \<Rightarrow> board res" where
  "closing s = Inr (tftp_close s)"

fun whole_pages :: "u8 list list \<Rightarrow> bool" where
  "whole_pages [] = True"
| "whole_pages [d] = (length d = 512 \<or> length d \<le> 256)"
| "whole_pages (d # ds) = (length d = 512 \<and> whole_pages ds)"

definition flashing :: "board \<Rightarrow> nat \<Rightarrow> nat \<Rightarrow> bool" where
  "flashing s A k \<longleftrightarrow> TransferType (gTftp s) = Some TFTP_TYPE_FLASH \<and> Error (gTftp s) = TFTP_IN_PROGRESS \<and>
     bAutoErase (gTftp s) \<and> FlashAdr (gTftp s) = of_nat A \<and> BytesTransfered (gTftp s) = of_nat k \<and>
     LastEraseAdr (gTftp s) = erase_mark (sector_size s) A k \<and> ErrMsg (gTftp s) ! 0 = 0"

lemma tftp_write_flash:
  assumes "flash_ok e s" and "sector_size s = 512 * c" and "flashing s A (512 * j)" and "A mod sector_size s = 0"
    and "0 < length d" and "length d = 512 \<or> length d \<le> 256" and "A + 512 * j + length d \<le> flash_size s"
    and "\<forall>x. A + 512 * j \<le> x \<and> x < A + 512 * c * sectors_for (512 * c) (512 * j) \<longrightarrow> contents e s x = 0xff"
  shows "\<exists>s'. tftp_write (fst e) (of_nat (length d)) [d] s = Inr (0, s') \<and> flash_ok e s' \<and>
    gChip s' = gChip s \<and> flashing s' A (512 * j + length d) \<and>
    contents e s' = (\<lambda>x. if A + 512 * j \<le> x \<and> x < A + 512 * j + length d then d ! (x - (A + 512 * j))
       else if A + 512 * j \<le> x \<and> x < A + 512 * c * sectors_for (512 * c) (512 * j + length d) then 0xff
       else contents e s x)"
proof -
  have f: "TransferType (gTftp s) = Some TFTP_TYPE_FLASH" "Error (gTftp s) = TFTP_IN_PROGRESS"
    "bAutoErase (gTftp s)" "FlashAdr (gTftp s) = of_nat A" "BytesTransfered (gTftp s) = of_nat (512 * j)"
    "LastEraseAdr (gTftp s) = erase_mark (512 * c) A (512 * j)" "ErrMsg (gTftp s) ! 0 = 0"
    using assms(2,3) by (simp_all add: flashing_def)
  have l: "length d \<le> 512" using assms(6) by auto
  have b: "A + 512 * j + length d \<le> 16777216" using assms(7) flash.geometry [OF assms(1)] by simp
  have "FlashAdr (gTftp s) + BytesTransfered (gTftp s) = of_nat (A + 512 * j)" using f by simp
  then have adr: "unat (FlashAdr (gTftp s) + BytesTransfered (gTftp s)) = A + 512 * j"
    using b by (simp add: unat_of_nat_u32 del: of_nat_add)
  obtain s' tr where s': "flash_block (fst e) (FlashAdr (gTftp s) + BytesTransfered (gTftp s)) d s = Inr s'" "flash_ok e s'"
    "s' = (on_tftp (\<lambda>p. p\<lparr>LastEraseAdr := erase_mark (512 * c) A (512 * j + length d)\<rparr>) s)\<lparr>spi_tr := tr\<rparr>"
    "contents e s' = (\<lambda>x. if A + 512 * j \<le> x \<and> x < A + 512 * j + length d then d ! (x - (A + 512 * j))
       else if A + 512 * j \<le> x \<and> x < A + 512 * c * sectors_for (512 * c) (512 * j + length d) then 0xff
       else contents e s x)"
    using flash_block_step [OF assms(1,2) f(3) assms(4) adr assms(5) l _ assms(7) f(6) assms(8)] assms(6) by blast
  have n: "(of_nat (length d) :: u16) \<noteq> 0" "(0 :: u16) < of_nat (length d)"
  proof -
    have "unat (of_nat (length d) :: u16) = length d"
      using l by (simp add: unsigned_of_nat take_bit_nat_eq_self)
    then show "(of_nat (length d) :: u16) \<noteq> 0" using assms(5) by auto
    then show "(0 :: u16) < of_nat (length d)" by (simp add: word_neq_0_conv)
  qed
  have g: "gTftp s' = (gTftp s)\<lparr>LastEraseAdr := erase_mark (512 * c) A (512 * j + length d)\<rparr>" "gChip s' = gChip s"
    by (subst s'(3), simp)+
  let ?s2 = "on_tftp (\<lambda>p. p\<lparr>BytesTransfered := BytesTransfered p + of_nat (length d)\<rparr>) s'"
  have "tftp_write (fst e) (of_nat (length d)) [d] s = Inr (0, ?s2)"
    using f n s'(1) g by (simp add: tftp_write_def write_one_def)
  moreover have "flashing ?s2 A (512 * j + length d)"
    using f g assms(2) by (simp add: flashing_def sector_size_def)
  ultimately show ?thesis using s'(2,4) g by (intro exI [of _ ?s2]) simp
qed

lemma show_progress_flash [simp]:
  "flash_ok e (snd (show_progress n s)) = flash_ok e s" "contents e (snd (show_progress n s)) = contents e s"
  "flash_size (snd (show_progress n s)) = flash_size s" "sector_size (snd (show_progress n s)) = sector_size s"
  "gChip (snd (show_progress n s)) = gChip s" "flashing (snd (show_progress n s)) A k = flashing s A k"
  "Error (gTftp (snd (show_progress n s))) = Error (gTftp s)"
  "BytesTransfered (gTftp (snd (show_progress n s))) = BytesTransfered (gTftp s)"
  "ErrMsg (gTftp (snd (show_progress n s))) = ErrMsg (gTftp s)"
  by (auto simp: show_progress_def Let_def on_tftp_def NetPrintf_def flashing_def flash_ok_def contents_def
      flash_size_def sector_size_def)

lemma wait_loop_step:
  "Error (gTftp s) = TFTP_IN_PROGRESS \<Longrightarrow> ev s = Inr s1 \<Longrightarrow>
   wait_loop (ev # evs) n s = wait_loop evs (fst (show_progress n s1)) (snd (show_progress n s1))"
  by (simp split: prod.split)

lemma wait_closing:
  assumes "Error (gTftp s) = TFTP_IN_PROGRESS"
  shows "\<exists>n' s'. wait_loop [closing] n s = Inr (n', s') \<and> (flash_ok e s' = flash_ok e s) \<and> contents e s' = contents e s \<and>
    Error (gTftp s') = TFTP_OK \<and> BytesTransfered (gTftp s') = BytesTransfered (gTftp s) \<and>
    ErrMsg (gTftp s') = ErrMsg (gTftp s)"
proof -
  let ?s = "on_tftp (\<lambda>p. p\<lparr>Error := TFTP_OK\<rparr>) s"
  have "wait_loop [closing] n s = wait_loop [] (fst (show_progress n ?s)) (snd (show_progress n ?s))"
    using assms by (intro wait_loop_step) (simp_all add: closing_def tftp_close_def)
  then show ?thesis
    by (intro exI [of _ "fst (show_progress n ?s)"] exI [of _ "snd (show_progress n ?s)"]) simp
qed

lemma wait_receive:
  assumes "flash_ok e s" and "sector_size s = 512 * c" and "flashing s A (512 * j)" and "A mod sector_size s = 0"
    and "length d = 512 \<or> length d \<le> 256" and "A + 512 * j + length d \<le> flash_size s"
    and "\<forall>x. A + 512 * j \<le> x \<and> x < A + 512 * c * sectors_for (512 * c) (512 * j) \<longrightarrow> contents e s x = 0xff"
  shows "\<exists>n2 s2. wait_loop (receive (fst e) d # evs) n s = wait_loop evs n2 s2 \<and> flash_ok e s2 \<and>
    flash_size s2 = flash_size s \<and> sector_size s2 = sector_size s \<and> flashing s2 A (512 * j + length d) \<and>
    contents e s2 = (\<lambda>x. if A + 512 * j \<le> x \<and> x < A + 512 * j + length d then d ! (x - (A + 512 * j))
       else if A + 512 * j \<le> x \<and> x < A + 512 * c * sectors_for (512 * c) (512 * j + length d) then 0xff
       else contents e s x)"
proof -
  have f: "Error (gTftp s) = TFTP_IN_PROGRESS" using assms(3) by (simp add: flashing_def)
  show ?thesis
  proof (cases "d = []")
    case True
    then have "receive (fst e) d s = Inr s" by (simp add: receive_def tftp_write_def)
    from wait_loop_step [where ev = "receive (fst e) d", OF f this] show ?thesis
      using assms True
      by (intro exI [of _ "fst (show_progress n s)"] exI [of _ "snd (show_progress n s)"]) (auto simp: fun_eq_iff)
  next
    case False
    then have "0 < length d" by simp
    from tftp_write_flash [OF assms(1-4) this assms(5-7)]
    obtain s1 where s1: "tftp_write (fst e) (of_nat (length d)) [d] s = Inr (0, s1)" "flash_ok e s1" "gChip s1 = gChip s"
      "flashing s1 A (512 * j + length d)"
      "contents e s1 = (\<lambda>x. if A + 512 * j \<le> x \<and> x < A + 512 * j + length d then d ! (x - (A + 512 * j))
         else if A + 512 * j \<le> x \<and> x < A + 512 * c * sectors_for (512 * c) (512 * j + length d) then 0xff
         else contents e s x)" by blast
    have "receive (fst e) d s = Inr s1" using s1(1) by (simp add: receive_def)
    from wait_loop_step [where ev = "receive (fst e) d", OF f this] show ?thesis
      using s1(2-5)
      by (intro exI [of _ "fst (show_progress n s1)"] exI [of _ "snd (show_progress n s1)"])
        (simp add: flash_size_def sector_size_def)
  qed
qed

lemma next_segment:
  "length d = n \<Longrightarrow> T1 \<le> T2 \<Longrightarrow>
   (\<lambda>x. if B + n \<le> x \<and> x < B + n + length r then r ! (x - (B + n)) else if B + n \<le> x \<and> x < T2 then 0xff
      else if B \<le> x \<and> x < B + n then d ! (x - B) else if B \<le> x \<and> x < T1 then 0xff else m x) =
   (\<lambda>x :: nat. if B \<le> x \<and> x < B + length (d @ r) then (d @ r) ! (x - B)
      else if B \<le> x \<and> x < T2 then (0xff :: u8) else m x)"
  by (rule ext) (auto simp: nth_append)

lemma wait_flash:
  assumes "A mod (512 * c) = 0" and "0 < c"
  shows "whole_pages ds \<Longrightarrow> flash_ok e s \<Longrightarrow> sector_size s = 512 * c \<Longrightarrow> flashing s A (512 * j) \<Longrightarrow>
    A + 512 * j + length (concat ds) \<le> flash_size s \<Longrightarrow>
    \<forall>x. A + 512 * j \<le> x \<and> x < A + 512 * c * sectors_for (512 * c) (512 * j) \<longrightarrow> contents e s x = 0xff \<Longrightarrow>
    \<exists>n' s'. wait_loop (map (receive (fst e)) ds @ [closing]) n s = Inr (n', s') \<and> flash_ok e s' \<and>
      Error (gTftp s') = TFTP_OK \<and> BytesTransfered (gTftp s') = of_nat (512 * j + length (concat ds)) \<and>
      ErrMsg (gTftp s') ! 0 = 0 \<and>
      contents e s' = (\<lambda>x. if A + 512 * j \<le> x \<and> x < A + 512 * j + length (concat ds)
         then concat ds ! (x - (A + 512 * j))
         else if A + 512 * j \<le> x \<and> x < A + 512 * c * sectors_for (512 * c) (512 * j + length (concat ds)) then 0xff
         else contents e s x)"
proof (induction ds arbitrary: s j n rule: whole_pages.induct)
  case 1
  then have f: "Error (gTftp s) = TFTP_IN_PROGRESS" "BytesTransfered (gTftp s) = of_nat (512 * j)" "ErrMsg (gTftp s) ! 0 = 0"
    by (simp_all add: flashing_def)
  show ?case using wait_closing [OF f(1), of n e] f 1 by (fastforce simp: fun_eq_iff)
next
  case (2 d)
  have m: "A mod sector_size s = 0" "length d = 512 \<or> length d \<le> 256" "A + 512 * j + length d \<le> flash_size s"
    using 2 assms by simp_all
  obtain n2 s2 where s2: "wait_loop (receive (fst e) d # [closing]) n s = wait_loop [closing] n2 s2" "flash_ok e s2"
    "flashing s2 A (512 * j + length d)"
    "contents e s2 = (\<lambda>x. if A + 512 * j \<le> x \<and> x < A + 512 * j + length d then d ! (x - (A + 512 * j))
       else if A + 512 * j \<le> x \<and> x < A + 512 * c * sectors_for (512 * c) (512 * j + length d) then 0xff
       else contents e s x)"
    using wait_receive [OF 2(2,3,4) m 2(6)] by blast
  then have f: "Error (gTftp s2) = TFTP_IN_PROGRESS" "BytesTransfered (gTftp s2) = of_nat (512 * j + length d)"
    "ErrMsg (gTftp s2) ! 0 = 0" by (simp_all add: flashing_def)
  show ?case using wait_closing [OF f(1), of n2 e] f s2(1,2) unfolding s2(4) by fastforce
next
  case (3 d d' ds)
  have l: "length d = 512" "whole_pages (d' # ds)" using 3 by simp_all
  have m: "A mod sector_size s = 0" "length d = 512 \<or> length d \<le> 256" "A + 512 * j + length d \<le> flash_size s"
    using 3 assms l by simp_all
  let ?r = "concat (d' # ds)"
  obtain n2 s2 where s2: "wait_loop (map (receive (fst e)) (d # d' # ds) @ [closing]) n s =
      wait_loop (map (receive (fst e)) (d' # ds) @ [closing]) n2 s2" "flash_ok e s2"
    "flash_size s2 = flash_size s" "sector_size s2 = sector_size s" "flashing s2 A (512 * j + length d)"
    "contents e s2 = (\<lambda>x. if A + 512 * j \<le> x \<and> x < A + 512 * j + length d then d ! (x - (A + 512 * j))
       else if A + 512 * j \<le> x \<and> x < A + 512 * c * sectors_for (512 * c) (512 * j + length d) then 0xff
       else contents e s x)"
    using wait_receive [OF 3(3,4,5) m 3(7), of "map (receive (fst e)) (d' # ds) @ [closing]" n]
    unfolding list.map append_Cons by blast
  have j: "512 * j + length d = 512 * (j + 1)" using l by simp
  have p: "sector_size s2 = 512 * c" "flashing s2 A (512 * (j + 1))" "A + 512 * (j + 1) + length ?r \<le> flash_size s2"
    "\<forall>x. A + 512 * (j + 1) \<le> x \<and> x < A + 512 * c * sectors_for (512 * c) (512 * (j + 1)) \<longrightarrow> contents e s2 x = 0xff"
    using s2(3-5) 3(4,6) l unfolding s2(6) j by auto
  from 3(1) [OF l(2) s2(2) p] obtain n' s' where s': "wait_loop (map (receive (fst e)) (d' # ds) @ [closing]) n2 s2 = Inr (n', s')"
    "flash_ok e s'" "Error (gTftp s') = TFTP_OK"
    "BytesTransfered (gTftp s') = of_nat (512 * (j + 1) + length ?r)" "ErrMsg (gTftp s') ! 0 = 0"
    "contents e s' = (\<lambda>x. if A + 512 * (j + 1) \<le> x \<and> x < A + 512 * (j + 1) + length ?r then ?r ! (x - (A + 512 * (j + 1)))
       else if A + 512 * (j + 1) \<le> x \<and> x < A + 512 * c * sectors_for (512 * c) (512 * (j + 1) + length ?r) then 0xff
       else contents e s2 x)" by blast
  have le: "sectors_for (512 * c) (512 * (j + 1)) \<le> sectors_for (512 * c) (512 * (j + 1) + length ?r)"
    unfolding sectors_for_def by (intro div_le_mono) simp
  then have le': "512 * c * sectors_for (512 * c) (512 * (j + 1)) \<le> 512 * c * sectors_for (512 * c) (512 * (j + 1) + length ?r)"
    by (rule mult_le_mono2)
  have cc: "concat (d # d' # ds) = d @ ?r" "512 * j + length (d @ ?r) = 512 * (j + 1) + length ?r" using l by simp_all
  have "contents e s' = (\<lambda>x. if A + 512 * j \<le> x \<and> x < A + 512 * j + length (d @ ?r) then (d @ ?r) ! (x - (A + 512 * j))
       else if A + 512 * j \<le> x \<and> x < A + 512 * c * sectors_for (512 * c) (512 * j + length (d @ ?r)) then 0xff
       else contents e s x)"
    unfolding s'(6) s2(6) cc(2) j using l(1) le'
    by (subst next_segment [of d 512 _ _ "A + 512 * j", symmetric]) (simp_all only: distrib_left add.assoc mult_1_right add_left_mono)
  then show ?case unfolding s2(1) cc using s' by blast
qed

text \<open>What a successful \<open>GetTftpTransferVals\<close> has done.\<close>

lemma GetAdrAndLen_frame: "GetAdrAndLen ai ah b cp a l s = (r, s') \<Longrightarrow> s' = s\<lparr>out := out s'\<rparr>"
  by (auto simp: GetAdrAndLen_def NetPrintf_def split: option.splits if_splits prod.splits)

lemma GetTftpTransferVals_ok:
  assumes "GetTftpTransferVals ai ah beyond line ttype s = (RESULT_OK, s1)" and "ttype \<noteq> TFTP_TYPE_SAVE"
  shows "\<exists>nm adr o'. s1 = (on_tftp (\<lambda>p. p\<lparr>Filename := nm, FlashAdr := adr, MaxBytes := sizeof_gTemp,
      TransferType := Some ttype\<rparr>) s)\<lparr>out := o'\<rparr> \<and> ServerIP (gTftp s) \<noteq> 0"
proof -
  let ?r = "Skip2Space line"
  let ?nm = "take (length line - length ?r) line"
  let ?cp = "if ?r = [] then beyond else tl ?r"
  obtain Ret cp1 Adr l s0 where g: "GetAdrAndLen ai ah False ?cp (FlashAdr (gTftp s)) 0
      (on_tftp (\<lambda>p. p\<lparr>Filename := ?nm\<rparr>) s) = ((Ret, cp1, Adr, l), s0)"
    by (metis prod.collapse)
  have f: "s0 = (on_tftp (\<lambda>p. p\<lparr>Filename := ?nm\<rparr>) s)\<lparr>out := out s0\<rparr>" by (rule GetAdrAndLen_frame [OF g])
  define adr where "adr = (if Ret \<noteq> RESULT_OK then gDefaultFlashAdr else Adr)"
  have c: "deref line \<noteq> 0" "ServerIP (gTftp s) \<noteq> 0"
    using assms(1) unfolding GetTftpTransferVals_def by (auto split: if_splits)
  have "s1 = on_tftp (\<lambda>p. p\<lparr>MaxBytes := sizeof_gTemp, TransferType := Some ttype\<rparr>)
      (on_tftp (\<lambda>p. p\<lparr>FlashAdr := adr\<rparr>) s0)"
    using assms c g unfolding GetTftpTransferVals_def Let_def adr_def
    by (auto simp: on_tftp_def split: if_splits)
  also have "\<dots> = (on_tftp (\<lambda>p. p\<lparr>Filename := ?nm, FlashAdr := adr, MaxBytes := sizeof_gTemp,
      TransferType := Some ttype\<rparr>) s)\<lparr>out := out s0\<rparr>"
    by (subst f) (simp add: on_tftp_def)
  finally show ?thesis using c(2) by blast
qed

text \<open>
  Claim C13. Flashing a file: when the flash command finds a server, automatic erasing is on, its address
  is the start of a sector and the file fits, and the file comes in blocks of 512 bytes of which the last
  has 512 or at most 256, then, whatever the flash held before, the file is in it afterwards, the rest
  of the last sector is blank and nothing else has changed; the command reports the length of the
  file. A last block of 257 to 511 bytes is outside: there \<open>spi_write\<close> takes more than it was given.
\<close>

theorem FlashCmd_flashes:
  assumes "flash_ok e s" and "bAutoErase (gTftp s)" and "length (ErrMsg (gTftp s)) = 33"
    and "GetTftpTransferVals ai ah beyond line TFTP_TYPE_FLASH s = (RESULT_OK, s1)"
    and "A = unat (FlashAdr (gTftp s1))" and "A mod sector_size s = 0" and "whole_pages ds"
    and "A + length (concat ds) \<le> flash_size s"
  shows "\<exists>s'. FlashCmd ai ah beyond 0 0 (map (receive (fst e)) ds @ [closing]) line s = Inr (RESULT_OK, s') \<and>
    contents e s' = (\<lambda>x. if A \<le> x \<and> x < A + length (concat ds) then concat ds ! (x - A)
       else if A \<le> x \<and> x < A + sector_size s * sectors_for (sector_size s) (length (concat ds)) then 0xff
       else contents e s x) \<and>
    last (out s') = Printf ''\<newline>Flashed %d bytes\<newline>'' [Num (of_nat (length (concat ds)))]"
proof -
  obtain c where c: "sector_size s = 512 * c" "0 < c" using sector_blocks [OF assms(1)] by blast
  obtain nm adr o' where s1: "s1 = (on_tftp (\<lambda>p. p\<lparr>Filename := nm, FlashAdr := adr, MaxBytes := sizeof_gTemp,
      TransferType := Some TFTP_TYPE_FLASH\<rparr>) s)\<lparr>out := o'\<rparr>" "ServerIP (gTftp s) \<noteq> 0"
    using GetTftpTransferVals_ok [OF assms(4)] by auto
  define s2 where "s2 = snd (ldr_tftp_init 0 0 s1)"
  have init: "ldr_tftp_init 0 0 s1 = (0, s2)" and fl: "flashing s2 A (512 * 0)"
    and s2: "flash_ok e s2" "sector_size s2 = 512 * c" "flash_size s2 = flash_size s" "contents e s2 = contents e s"
    using s1 assms(1,2,3,5) c by (simp_all add: s2_def ldr_tftp_init_def Let_def flashing_def erase_mark_def)
  have b: "A + 512 * 0 + length (concat ds) \<le> flash_size s2" using assms(8) s2(3) by simp
  have al: "A mod (512 * c) = 0" using assms(6) c(1) by simp
  have e0: "\<forall>x. A + 512 * 0 \<le> x \<and> x < A + 512 * c * sectors_for (512 * c) (512 * 0) \<longrightarrow> contents e s2 x = 0xff"
    using c(2) by auto
  obtain n' s3 where s3: "wait_loop (map (receive (fst e)) ds @ [closing]) 0 s2 = Inr (n', s3)" "Error (gTftp s3) = TFTP_OK"
    "BytesTransfered (gTftp s3) = of_nat (512 * 0 + length (concat ds))" "ErrMsg (gTftp s3) ! 0 = 0"
    "contents e s3 = (\<lambda>x. if A + 512 * 0 \<le> x \<and> x < A + 512 * 0 + length (concat ds) then concat ds ! (x - (A + 512 * 0))
       else if A + 512 * 0 \<le> x \<and> x < A + 512 * c * sectors_for (512 * c) (512 * 0 + length (concat ds)) then 0xff
       else contents e s2 x)"
    using wait_flash [OF al c(2) assms(7) s2(1,2) fl b e0, of 0] by blast
  let ?s3 = "if 0 < n' then NetPrintf ''\<newline>'' [] s3 else s3"
  have k: "gTftp ?s3 = gTftp s3" "contents e ?s3 = contents e s3" by (simp_all add: NetPrintf_def)
  have "TftpTranserWait (map (receive (fst e)) ds @ [closing]) s2 = Inr (RESULT_OK, ?s3)"
    unfolding TftpTranserWait_def s3(1) rbind.simps prod.case Let_def using k s3(2,4) by simp
  then have "FlashCmd ai ah beyond 0 0 (map (receive (fst e)) ds @ [closing]) line s =
      Inr (RESULT_OK, NetPrintf ''\<newline>Flashed %d bytes\<newline>'' [Num (BytesTransfered (gTftp s3))] ?s3)"
    using assms(4) init k(1) unfolding FlashCmd_def transfer_cmd_def by simp
  moreover have "contents e (NetPrintf fmt xs ?s3) = (\<lambda>x. if A \<le> x \<and> x < A + length (concat ds) then concat ds ! (x - A)
       else if A \<le> x \<and> x < A + sector_size s * sectors_for (sector_size s) (length (concat ds)) then 0xff
       else contents e s x)" for fmt xs
    unfolding NetPrintf_flash k(2) s3(5) s2(4) c(1) mult_0_right add_0_right add_0 ..
  ultimately show ?thesis using s3(3) by (simp add: NetPrintf_def)
qed

definition server_board :: "FlashInfo_t \<Rightarrow> board" where
  "server_board p = on_tftp (\<lambda>q. q\<lparr>ServerIP := 1\<rparr>) (demo_board p)"

lemma server_board_ok:
  "p \<in> set gChipInfo \<Longrightarrow> flash_ok (demo_env p m) (server_board p)"
  "contents (demo_env p m) (server_board p) = m"
  "flash_size (server_board p) = unat (FlashSize p)" "sector_size (server_board p) = unat (SectorSize p)"
  by (simp_all add: server_board_def demo_ok)

theorem FlashCmd_flashes_witness:
  "\<exists>s'. FlashCmd (\<lambda>_. 0) (\<lambda>_. 0) [] 0 0 [receive (fst (demo_env (gChipInfo ! 0) (\<lambda>_. 9))) (replicate 512 7),
       receive (fst (demo_env (gChipInfo ! 0) (\<lambda>_. 9))) [1, 2, 3], closing] (bytes ''f 0'') (server_board (gChipInfo ! 0)) =
       Inr (RESULT_OK, s') \<and>
     map (contents (demo_env (gChipInfo ! 0) (\<lambda>_. 9)) s') [511, 512, 514, 515, 65535, 65536] = [7, 1, 3, 0xff, 0xff, 9]"
proof -
  let ?s = "server_board (gChipInfo ! 0)"
  let ?e = "demo_env (gChipInfo ! 0) (\<lambda>_. 9)"
  let ?ds = "[replicate 512 7, [1, 2, 3]] :: u8 list list"
  let ?s1 = "on_tftp (\<lambda>p. p\<lparr>Filename := bytes ''f'', FlashAdr := 0, MaxBytes := sizeof_gTemp,
      TransferType := Some TFTP_TYPE_FLASH\<rparr>) ?s"
  have g: "GetTftpTransferVals (\<lambda>_. 0) (\<lambda>_. 0) [] (bytes ''f 0'') TFTP_TYPE_FLASH ?s = (RESULT_OK, ?s1)"
    by (simp add: GetTftpTransferVals_def server_board_def no_transfer_def on_tftp_def MAX_FILENAME_LEN_def parse_simps)
  have sz: "sector_size ?s = 65536" "flash_size ?s = 8388608" unfolding server_board_ok by (simp_all add: gChipInfo_def)
  have h: "bAutoErase (gTftp ?s)" "length (ErrMsg (gTftp ?s)) = 33" "0 = unat (FlashAdr (gTftp ?s1))"
    "0 mod sector_size ?s = 0" "whole_pages ?ds" "0 + length (concat ?ds) \<le> flash_size ?s"
    by (simp_all add: sz) (simp_all add: server_board_def demo_board_def no_transfer_def)
  obtain s' where s': "FlashCmd (\<lambda>_. 0) (\<lambda>_. 0) [] 0 0 (map (receive (fst ?e)) ?ds @ [closing]) (bytes ''f 0'') ?s = Inr (RESULT_OK, s')"
    "contents ?e s' = (\<lambda>x. if 0 \<le> x \<and> x < 0 + length (concat ?ds) then concat ?ds ! (x - 0)
       else if 0 \<le> x \<and> x < 0 + sector_size ?s * sectors_for (sector_size ?s) (length (concat ?ds)) then 0xff
       else contents ?e ?s x)"
    using FlashCmd_flashes [OF server_board_ok(1) [OF chip_members(1)] h(1,2) g h(3-6)] by blast
  have "map (contents ?e s') [511, 512, 514, 515, 65535, 65536] = [7, 1, 3, 0xff, 0xff, 9]"
    unfolding s'(2) sz server_board_ok(2) by (simp add: sectors_for_def nth_append)
  with s'(1) show ?thesis by auto
qed

section \<open>Saving and verifying\<close>

text \<open>The reads of a transfer: the lengths lwIP asks for, and the bytes it gets.\<close>

fun tftp_reads :: "device \<Rightarrow> u32 list \<Rightarrow> board \<Rightarrow> (u8 list \<times> board) res" where
  "tftp_reads dev [] s = Inr ([], s)"
| "tftp_reads dev (l # ls) s =
     rbind (tftp_read dev l s) (\<lambda>(_, bs, s1). rbind (tftp_reads dev ls s1) (\<lambda>(cs, s2). Inr (bs @ cs, s2)))"

lemma spi_read_board:
  assumes "flash_ok e s" and "unat a + unat n \<le> flash_size s"
  shows "\<exists>tr. spi_read (fst e) (gChip s) a n (spi_tr s) = Inr (map (contents e s) [unat a ..< unat a + unat n], tr) \<and>
    snd e tr = snd e (spi_tr s)"
proof -
  obtain p where p: "p \<in> set gChipInfo" "gChip s = Some p" "flash_device p (fst e) (snd e)" "\<not> busy (snd e (spi_tr s))"
    using assms(1) by (rule flash_okE)
  then show ?thesis
    using spi_read_effect [OF p(3,4,1), of a n] assms(2) by (auto simp: contents_def flash_size_def)
qed

text \<open>
  Saving streams the flash: whatever lengths the client asks for, the buffers it gets
  hold, one after the other, the bytes from the start address on, and stop at the length to be sent.
\<close>

theorem tftp_read_streams:
  assumes "flash_ok e s" and "TransferType (gTftp s) = Some TFTP_TYPE_SAVE" and "FlashAdr (gTftp s) = of_nat A"
    and "BytesTransfered (gTftp s) = of_nat k" and "k \<le> unat (SendLen (gTftp s))"
    and "A + unat (SendLen (gTftp s)) \<le> flash_size s" and "list_all (\<lambda>l. l < 2 ^ 31) ls"
  shows "\<exists>s'. tftp_reads (fst e) ls s = Inr (map (contents e s)
      [A + k ..< A + min (k + sum_list (map unat ls)) (unat (SendLen (gTftp s)))], s') \<and>
    contents e s' = contents e s \<and>
    BytesTransfered (gTftp s') = of_nat (min (k + sum_list (map unat ls)) (unat (SendLen (gTftp s))))"
  using assms
proof (induction ls arbitrary: s k)
  case Nil
  then show ?case by (simp add: min_def)
next
  case (Cons l ls)
  let ?N = "unat (SendLen (gTftp s))"
  let ?p = "gTftp s"
  have N: "A + ?N \<le> 16777216" using Cons.prems(1,6) flash.geometry [of e s] by fastforce
  have kb: "unat (BytesTransfered ?p) = k" using Cons.prems(4,5) N by (simp add: unat_of_nat_u32)
  have l: "unat l < 2 ^ 31" using Cons.prems(7) by (simp add: word_less_nat_alt)
  have sum: "unat (BytesTransfered ?p + l) = k + unat l" using kb l Cons.prems(5) N by (subst unat_add_small) simp_all
  define n where "n = (if BytesTransfered ?p + l > SendLen ?p then SendLen ?p - BytesTransfered ?p else l)"
  have n: "unat n = min (k + unat l) ?N - k"
  proof (cases "BytesTransfered ?p + l > SendLen ?p")
    case True
    then have "?N < k + unat l" using sum by (simp add: word_less_nat_alt)
    moreover have "BytesTransfered ?p \<le> SendLen ?p" using kb Cons.prems(5) by (simp add: word_le_nat_alt)
    ultimately show ?thesis using True kb by (simp add: n_def unat_sub)
  next
    case False
    then have "k + unat l \<le> ?N" using sum by (simp add: word_less_nat_alt not_less)
    then show ?thesis using False by (simp add: n_def)
  qed
  have ad: "unat (FlashAdr ?p + BytesTransfered ?p) = A + k"
  proof -
    have "FlashAdr ?p + BytesTransfered ?p = of_nat (A + k)" using Cons.prems(3,4) by simp
    then show ?thesis using N Cons.prems(5) by (simp add: unat_of_nat_u32 del: of_nat_add)
  qed
  have kn: "k + unat n = min (k + unat l) ?N" using n Cons.prems(5) by simp
  then have fit: "unat (FlashAdr ?p + BytesTransfered ?p) + unat n \<le> flash_size s" using ad Cons.prems(6) by linarith
  obtain tr where r: "spi_read (fst e) (gChip s) (FlashAdr ?p + BytesTransfered ?p) n (spi_tr s) =
      Inr (map (contents e s) [A + k ..< A + k + unat n], tr)" "snd e tr = snd e (spi_tr s)"
    using spi_read_board [OF Cons.prems(1) fit] unfolding ad by blast
  define s1 where "s1 = (on_tftp (\<lambda>p. p\<lparr>BytesTransfered := BytesTransfered p + n\<rparr>) s)\<lparr>spi_tr := tr\<rparr>"
  have rd: "tftp_read (fst e) l s = Inr (sint n, map (contents e s) [A + k ..< A + k + unat n], s1)"
    using Cons.prems(2) r(1) by (simp add: tftp_read_def Let_def n_def [symmetric] s1_def)
  have s1: "flash_ok e s1" "flash_size s1 = flash_size s" "contents e s1 = contents e s"
    "gTftp s1 = ?p\<lparr>BytesTransfered := of_nat (k + unat n)\<rparr>"
    using Cons.prems(1,4) r(2) by (simp_all add: s1_def on_tftp_def flash_ok_def flash_size_def contents_def)
  have h: "TransferType (gTftp s1) = Some TFTP_TYPE_SAVE" "FlashAdr (gTftp s1) = of_nat A"
    "BytesTransfered (gTftp s1) = of_nat (k + unat n)" "k + unat n \<le> unat (SendLen (gTftp s1))"
    "A + unat (SendLen (gTftp s1)) \<le> flash_size s1" "list_all (\<lambda>l. l < 2 ^ 31) ls"
    using Cons.prems s1(2,4) kn by simp_all
  obtain s' where s': "tftp_reads (fst e) ls s1 = Inr (map (contents e s1)
      [A + (k + unat n) ..< A + min (k + unat n + sum_list (map unat ls)) ?N], s')"
    "contents e s' = contents e s1"
    "BytesTransfered (gTftp s') = of_nat (min (k + unat n + sum_list (map unat ls)) ?N)"
    using Cons.IH [OF s1(1) h] s1(4) by auto
  have m: "min (k + unat n + sum_list (map unat ls)) ?N = min (k + sum_list (map unat (l # ls))) ?N"
    unfolding kn by auto
  have "[A + k ..< A + k + unat n] @ [A + (k + unat n) ..< A + min (k + sum_list (map unat (l # ls))) ?N] =
      [A + k ..< A + min (k + sum_list (map unat (l # ls))) ?N]"
  proof -
    have "k + unat n \<le> min (k + sum_list (map unat (l # ls))) ?N" unfolding kn by simp
    then obtain i where "min (k + sum_list (map unat (l # ls))) ?N = k + unat n + i" using le_Suc_ex by blast
    then show ?thesis using upt_add_eq_append [of "A + k" "A + k + unat n" i] by (simp add: add.assoc)
  qed
  then show ?case using rd s' s1(3) unfolding m by (simp flip: map_append)
qed

theorem tftp_read_streams_witness:
  "\<exists>s'. tftp_reads (fst (demo_env (gChipInfo ! 0) of_nat)) [2, 512, 512]
       (on_tftp (\<lambda>p. p\<lparr>TransferType := Some TFTP_TYPE_SAVE, FlashAdr := 5, SendLen := 4\<rparr>) (demo_board (gChipInfo ! 0))) =
     Inr ([5, 6, 7, 8], s')"
proof -
  let ?s = "on_tftp (\<lambda>p. p\<lparr>TransferType := Some TFTP_TYPE_SAVE, FlashAdr := 5, SendLen := 4\<rparr>) (demo_board (gChipInfo ! 0))"
  let ?e = "demo_env (gChipInfo ! 0) of_nat"
  have ok: "flash_ok ?e ?s" by (simp add: demo_ok chip_members)
  have sz: "flash_size ?s = 8388608" by (simp add: demo_ok) (simp add: gChipInfo_def)
  have h: "TransferType (gTftp ?s) = Some TFTP_TYPE_SAVE" "FlashAdr (gTftp ?s) = of_nat 5"
    "BytesTransfered (gTftp ?s) = of_nat 0" "0 \<le> unat (SendLen (gTftp ?s))"
    "5 + unat (SendLen (gTftp ?s)) \<le> flash_size ?s" "list_all (\<lambda>l. l < 2 ^ 31) [2, 512, 512 :: u32]"
    unfolding sz by (simp_all add: demo_board_def no_transfer_def)
  obtain s' where "tftp_reads (fst ?e) [2, 512, 512] ?s = Inr (map (contents ?e ?s)
      [5 + 0 ..< 5 + min (0 + sum_list (map unat [2, 512, 512 :: u32])) (unat (SendLen (gTftp ?s)))], s')"
    using tftp_read_streams [OF ok h] by blast
  then show ?thesis by (simp add: demo_ok upt_rec)
qed

lemma first_diff_spec:
  "length xs = length ys \<Longrightarrow> xs \<noteq> ys \<Longrightarrow>
   first_diff xs ys < length xs \<and> take (first_diff xs ys) xs = take (first_diff xs ys) ys \<and>
   xs ! first_diff xs ys \<noteq> ys ! first_diff xs ys"
  by (induction xs ys rule: first_diff.induct) auto

definition comparing :: "board \<Rightarrow> nat \<Rightarrow> nat \<Rightarrow> bool" where
  "comparing s A k \<longleftrightarrow> TransferType (gTftp s) = Some TFTP_TYPE_COMPARE \<and> Error (gTftp s) = TFTP_IN_PROGRESS \<and>
     MaxBytes (gTftp s) = sizeof_gTemp \<and> FlashAdr (gTftp s) = of_nat A \<and> BytesTransfered (gTftp s) = of_nat k \<and>
     ErrMsg (gTftp s) ! 0 = 0"

lemma tftp_write_compare:
  assumes "flash_ok e s" and "comparing s A k" and "length d \<le> 1024" and "A + k + length d \<le> flash_size s"
  defines "bs \<equiv> map (contents e s) [A + k ..< A + k + length d]"
  shows "\<exists>s'. receive (fst e) d s = Inr s' \<and> flash_ok e s' \<and> flash_size s' = flash_size s \<and>
    contents e s' = contents e s \<and>
    (if bs = d then comparing s' A (k + length d)
     else Error (gTftp s') = TFTP_ERR_COMPARE_FAIL \<and> FlashAdr (gTftp s') = of_nat A \<and> ErrMsg (gTftp s') ! 0 = 0 \<and>
       BytesTransfered (gTftp s') = of_nat (k + first_diff bs d))"
proof -
  have c: "TransferType (gTftp s) = Some TFTP_TYPE_COMPARE" "Error (gTftp s) = TFTP_IN_PROGRESS"
    "MaxBytes (gTftp s) = 1024" "FlashAdr (gTftp s) = of_nat A" "BytesTransfered (gTftp s) = of_nat k"
    "ErrMsg (gTftp s) ! 0 = 0"
    using assms(2) by (simp_all add: comparing_def sizeof_gTemp_def)
  have b: "A + k + length d \<le> 16777216" using assms(4) flash.geometry [OF assms(1)] by simp
  let ?a = "FlashAdr (gTftp s) + BytesTransfered (gTftp s)"
  have "?a = of_nat (A + k)" using c by simp
  then have ad: "unat ?a = A + k" using b by (simp add: unat_of_nat_u32 del: of_nat_add)
  let ?n = "of_nat (length d) :: u32"
  have n: "unat ?n = length d" using b by (simp add: unat_of_nat_u32)
  show ?thesis
  proof (cases "d = []")
    case True
    then show ?thesis using assms(1,2) by (intro exI [of _ s]) (simp add: receive_def tftp_write_def bs_def)
  next
    case False
    have d16: "(0 :: u16) < of_nat (length d)"
    proof -
      have "unat (of_nat (length d) :: u16) = length d"
        using assms(3) by (simp add: unsigned_of_nat take_bit_nat_eq_self)
      then show ?thesis using False by (simp add: word_neq_0_conv [symmetric]) (metis length_0_conv unat_0)
    qed
    have small: "\<not> sint ?n > sint (MaxBytes (gTftp s))"
    proof -
      have "?n < 2 ^ 31" "MaxBytes (gTftp s) < 2 ^ 31" using n assms(3) c(3) by (simp_all add: word_less_nat_alt)
      then have "sint ?n = int (unat ?n)" "sint (MaxBytes (gTftp s)) = int (unat (MaxBytes (gTftp s)))"
        by (simp_all only: sint_small)
      then show ?thesis using n assms(3) c(3) by simp
    qed
    have g: "length (gTemp s) = 1024" using assms(1) by (simp add: flash_ok_def)
    have f: "unat ?a + unat ?n \<le> flash_size s" "unat ?n \<le> length (gTemp s)" using ad n assms(3,4) g by simp_all
    obtain s1 where s1: "read_temp (fst e) ?a ?n s = Inr s1" "flash_ok e s1" "flash_size s1 = flash_size s"
      "contents e s1 = contents e s" "gTemp s1 = bs @ drop (unat ?n) (gTemp s)"
      using flash.rd_law [OF assms(1) f] unfolding bs_def ad n by blast
    have t: "gTftp s1 = gTftp s" using read_temp_frame [OF s1(1)] by simp
    have ram: "take (length d) (gTemp s1) = bs" using s1(5) by (simp add: bs_def)
    show ?thesis
    proof (cases "bs = d")
      case True
      let ?s2 = "on_tftp (\<lambda>p. p\<lparr>BytesTransfered := BytesTransfered p + of_nat (length d)\<rparr>) s1"
      have "receive (fst e) d s = Inr ?s2"
        using c d16 small s1(1) ram t True
        by (simp add: receive_def tftp_write_def write_one_def compare_block_def Let_def)
      moreover have "comparing ?s2 A (k + length d)" using t c by (simp add: comparing_def sizeof_gTemp_def)
      ultimately show ?thesis using s1 True by (intro exI [of _ ?s2]) simp
    next
      case False
      let ?s2 = "on_tftp (\<lambda>p. p\<lparr>BytesTransfered := BytesTransfered p + of_nat (first_diff bs d),
        Error := TFTP_ERR_COMPARE_FAIL\<rparr>) s1"
      have "receive (fst e) d s = Inr ?s2"
        using c d16 small s1(1) ram t False
        by (simp add: receive_def tftp_write_def write_one_def compare_block_def Let_def)
      then show ?thesis using s1 False t c by (intro exI [of _ ?s2]) simp
    qed
  qed
qed

lemma first_diff_append:
  "length xs = length ys \<Longrightarrow>
   first_diff (xs @ r) (ys @ t) = (if xs = ys then length xs + first_diff r t else first_diff xs ys)"
  by (induction xs ys rule: list_induct2) auto

lemma show_progress_compare [simp]:
  "comparing (snd (show_progress n s)) A k = comparing s A k"
  "FlashAdr (gTftp (snd (show_progress n s))) = FlashAdr (gTftp s)"
  by (auto simp: show_progress_def Let_def on_tftp_def NetPrintf_def comparing_def)

lemma wait_compare:
  assumes "list_all (\<lambda>d. length d \<le> 1024) ds"
  shows "flash_ok e s \<Longrightarrow> comparing s A k \<Longrightarrow> A + k + length (concat ds) \<le> flash_size s \<Longrightarrow>
    \<exists>n' s'. wait_loop (map (receive (fst e)) ds @ [closing]) n s = Inr (n', s') \<and> contents e s' = contents e s \<and>
      ErrMsg (gTftp s') ! 0 = 0 \<and>
      (if map (contents e s) [A + k ..< A + k + length (concat ds)] = concat ds
       then Error (gTftp s') = TFTP_OK \<and> BytesTransfered (gTftp s') = of_nat (k + length (concat ds))
       else Error (gTftp s') = TFTP_ERR_COMPARE_FAIL \<and> FlashAdr (gTftp s') = of_nat A \<and>
         BytesTransfered (gTftp s') =
           of_nat (k + first_diff (map (contents e s) [A + k ..< A + k + length (concat ds)]) (concat ds)))"
  using assms
proof (induction ds arbitrary: s k n)
  case Nil
  then have f: "Error (gTftp s) = TFTP_IN_PROGRESS" "BytesTransfered (gTftp s) = of_nat k" "ErrMsg (gTftp s) ! 0 = 0"
    by (simp_all add: comparing_def)
  show ?case using wait_closing [OF f(1), of n e] f by fastforce
next
  case (Cons d ds)
  let ?r = "concat ds"
  let ?x = "map (contents e s) [A + k ..< A + k + length d]"
  let ?y = "map (contents e s) [A + k + length d ..< A + k + length d + length ?r]"
  have xy: "map (contents e s) [A + k ..< A + k + length (concat (d # ds))] = ?x @ ?y"
    using upt_add_eq_append [of "A + k" "A + k + length d" "length ?r"] by (simp add: add.assoc flip: map_append)
  have e: "Error (gTftp s) = TFTP_IN_PROGRESS" using Cons.prems by (simp add: comparing_def)
  have l: "length d \<le> 1024" "A + k + length d \<le> flash_size s" "list_all (\<lambda>d. length d \<le> 1024) ds" using Cons.prems by simp_all
  obtain s1 where s1: "receive (fst e) d s = Inr s1" "flash_ok e s1" "flash_size s1 = flash_size s"
    "contents e s1 = contents e s"
    "if ?x = d then comparing s1 A (k + length d)
     else Error (gTftp s1) = TFTP_ERR_COMPARE_FAIL \<and> FlashAdr (gTftp s1) = of_nat A \<and> ErrMsg (gTftp s1) ! 0 = 0 \<and>
       BytesTransfered (gTftp s1) = of_nat (k + first_diff ?x d)"
    using tftp_write_compare [OF Cons.prems(1,2) l(1,2)] by blast
  define n2 where "n2 = fst (show_progress n s1)"
  define s2 where "s2 = snd (show_progress n s1)"
  have w: "wait_loop (map (receive (fst e)) (d # ds) @ [closing]) n s = wait_loop (map (receive (fst e)) ds @ [closing]) n2 s2"
    unfolding n2_def s2_def list.map append_Cons by (rule wait_loop_step [where ev = "receive (fst e) d", OF e s1(1)])
  show ?case
  proof (cases "?x = d")
    case True
    have p: "flash_ok e s2" "comparing s2 A (k + length d)" "A + (k + length d) + length ?r \<le> flash_size s2"
      "contents e s2 = contents e s"
      using s1 True Cons.prems(3) by (simp_all add: s2_def)
    have fd: "first_diff (?x @ ?y) (d @ ?r) = length d + first_diff ?y ?r"
      using True by (subst first_diff_append) simp_all
    have eq: "(?x @ ?y = concat (d # ds)) = (?y = ?r)" using True by simp
    obtain n' s' where "wait_loop (map (receive (fst e)) ds @ [closing]) n2 s2 = Inr (n', s')" "contents e s' = contents e s"
      "ErrMsg (gTftp s') ! 0 = 0"
      "if ?y = ?r then Error (gTftp s') = TFTP_OK \<and> BytesTransfered (gTftp s') = of_nat (k + length d + length ?r)
       else Error (gTftp s') = TFTP_ERR_COMPARE_FAIL \<and> FlashAdr (gTftp s') = of_nat A \<and>
         BytesTransfered (gTftp s') = of_nat (k + length d + first_diff ?y ?r)"
      using Cons.IH [OF p(1-3) l(3), of n2, unfolded p(4) add.assoc [symmetric]] by blast
    moreover have "k + length (concat (d # ds)) = k + length d + length ?r" by simp
    moreover have "k + first_diff (?x @ ?y) (concat (d # ds)) = k + length d + first_diff ?y ?r" using fd by simp
    ultimately show ?thesis unfolding w xy eq by auto
  next
    case False
    then have "Error (gTftp s2) = TFTP_ERR_COMPARE_FAIL" using s1(5) by (simp add: s2_def)
    then have "wait_loop (map (receive (fst e)) ds @ [closing]) n2 s2 = Inr (n2, s2)" by (cases ds) simp_all
    moreover have "?x @ ?y \<noteq> concat (d # ds)" using False by simp
    moreover have "first_diff (?x @ ?y) (concat (d # ds)) = first_diff ?x d"
      using False by (simp add: first_diff_append)
    ultimately show ?thesis using s1(4,5) False unfolding w xy by (simp add: s2_def)
  qed
qed

text \<open>
  Verifying a file: the flash is not changed, and when it differs from the file the
  command prints the address of the first byte that differs. It then still prints the number of
  bytes before it as verified and returns success, as it does when all bytes agree.
\<close>

theorem VerifyCmd_compares:
  assumes "flash_ok e s" and "length (ErrMsg (gTftp s)) = 33"
    and "GetTftpTransferVals ai ah beyond line TFTP_TYPE_COMPARE s = (RESULT_OK, s1)"
    and "A = unat (FlashAdr (gTftp s1))" and "list_all (\<lambda>d. length d \<le> 1024) ds"
    and "A + length (concat ds) \<le> flash_size s"
  defines "bs \<equiv> map (contents e s) [A ..< A + length (concat ds)]"
  shows "\<exists>s'. VerifyCmd ai ah beyond 0 0 (map (receive (fst e)) ds @ [closing]) line s = Inr (RESULT_OK, s') \<and>
    contents e s' = contents e s \<and>
    (if bs = concat ds
     then last (out s') = Printf ''%d bytes verified\<newline>'' [Num (of_nat (length (concat ds)))]
     else bs ! first_diff bs (concat ds) \<noteq> concat ds ! first_diff bs (concat ds) \<and>
       take (first_diff bs (concat ds)) bs = take (first_diff bs (concat ds)) (concat ds) \<and>
       (\<exists>o'. out s' = o' @ [Printf ''Compare failed @ 0x%0lx\<newline>'' [Num (of_nat (A + first_diff bs (concat ds)))],
         Printf ''%d bytes verified\<newline>'' [Num (of_nat (first_diff bs (concat ds)))]]))"
proof -
  obtain nm adr o' where s1: "s1 = (on_tftp (\<lambda>p. p\<lparr>Filename := nm, FlashAdr := adr, MaxBytes := sizeof_gTemp,
      TransferType := Some TFTP_TYPE_COMPARE\<rparr>) s)\<lparr>out := o'\<rparr>" "ServerIP (gTftp s) \<noteq> 0"
    using GetTftpTransferVals_ok [OF assms(3)] by auto
  define s2 where "s2 = snd (ldr_tftp_init 0 0 s1)"
  have init: "ldr_tftp_init 0 0 s1 = (0, s2)" and cm: "comparing s2 A 0"
    and s2: "flash_ok e s2" "flash_size s2 = flash_size s" "contents e s2 = contents e s"
    using s1 assms(1,2,4) by (simp_all add: s2_def ldr_tftp_init_def Let_def comparing_def)
  have b: "A + 0 + length (concat ds) \<le> flash_size s2" using assms(6) s2(2) by simp
  obtain n' s3 where s3: "wait_loop (map (receive (fst e)) ds @ [closing]) 0 s2 = Inr (n', s3)"
    "contents e s3 = contents e s" "ErrMsg (gTftp s3) ! 0 = 0"
    "if bs = concat ds
     then Error (gTftp s3) = TFTP_OK \<and> BytesTransfered (gTftp s3) = of_nat (length (concat ds))
     else Error (gTftp s3) = TFTP_ERR_COMPARE_FAIL \<and> FlashAdr (gTftp s3) = of_nat A \<and>
       BytesTransfered (gTftp s3) = of_nat (first_diff bs (concat ds))"
    using wait_compare [OF assms(5) s2(1) cm b, of 0] unfolding bs_def s2(3) add_0_right add_0 by blast
  define s4 where "s4 = (if 0 < n' then NetPrintf ''\<newline>'' [] s3 else s3)"
  have k: "gTftp s4 = gTftp s3" "contents e s4 = contents e s3" by (simp_all add: s4_def NetPrintf_def)
  have len: "length bs = length (concat ds)" by (simp add: bs_def)
  let ?w = "TftpTranserWait (map (receive (fst e)) ds @ [closing]) s2"
  show ?thesis
  proof (cases "bs = concat ds")
    case True
    have "?w = Inr (RESULT_OK, s4)"
      unfolding TftpTranserWait_def s3(1) rbind.simps prod.case Let_def s4_def [symmetric] using k s3(3,4) True by simp
    then show ?thesis
      using assms(3) init k s3(2,4) True unfolding VerifyCmd_def by (simp add: NetPrintf_def)
  next
    case False
    have "?w = Inr (RESULT_OK, NetPrintf ''Compare failed @ 0x%0lx\<newline>'' [Num (of_nat (A + first_diff bs (concat ds)))] s4)"
      unfolding TftpTranserWait_def s3(1) rbind.simps prod.case Let_def s4_def [symmetric] using k s3(3,4) False by simp
    moreover have "bs ! first_diff bs (concat ds) \<noteq> concat ds ! first_diff bs (concat ds)"
      "take (first_diff bs (concat ds)) bs = take (first_diff bs (concat ds)) (concat ds)"
      using first_diff_spec [of bs "concat ds"] False len by blast+
    ultimately show ?thesis
      using assms(3) init k s3(2,4) False unfolding VerifyCmd_def by (simp add: NetPrintf_def)
  qed
qed

theorem VerifyCmd_compares_witness:
  "\<exists>s' o'. VerifyCmd (\<lambda>_. 0) (\<lambda>_. 0) [] 0 0 [receive (fst (demo_env (gChipInfo ! 0) of_nat)) [0, 1],
       receive (fst (demo_env (gChipInfo ! 0) of_nat)) [2, 9, 4], closing] (bytes ''f 0'') (server_board (gChipInfo ! 0)) =
       Inr (RESULT_OK, s') \<and>
     out s' = o' @ [Printf ''Compare failed @ 0x%0lx\<newline>'' [Num 3], Printf ''%d bytes verified\<newline>'' [Num 3]]"
proof -
  let ?s = "server_board (gChipInfo ! 0)"
  let ?e = "demo_env (gChipInfo ! 0) of_nat"
  let ?ds = "[[0, 1], [2, 9, 4]] :: u8 list list"
  let ?s1 = "on_tftp (\<lambda>p. p\<lparr>Filename := bytes ''f'', FlashAdr := 0, MaxBytes := sizeof_gTemp,
      TransferType := Some TFTP_TYPE_COMPARE\<rparr>) ?s"
  have g: "GetTftpTransferVals (\<lambda>_. 0) (\<lambda>_. 0) [] (bytes ''f 0'') TFTP_TYPE_COMPARE ?s = (RESULT_OK, ?s1)"
    by (simp add: GetTftpTransferVals_def server_board_def no_transfer_def on_tftp_def MAX_FILENAME_LEN_def parse_simps)
  have sz: "flash_size ?s = 8388608" unfolding server_board_ok by (simp add: gChipInfo_def)
  have h: "length (ErrMsg (gTftp ?s)) = 33" "0 = unat (FlashAdr (gTftp ?s1))"
    "list_all (\<lambda>d. length d \<le> 1024) ?ds" "0 + length (concat ?ds) \<le> flash_size ?s"
    by (simp_all add: sz) (simp_all add: server_board_def demo_board_def no_transfer_def)
  from VerifyCmd_compares [OF server_board_ok(1) [OF chip_members(1), of of_nat] h(1) g h(2-4)] show ?thesis
    by (auto simp: server_board_ok upt_rec)
qed

end
