(* ===== verification/Net_Print.thy ===== *)
theory Net_Print
  imports Board
begin

text \<open>
  Output to a network connection: the buffer between the firmware and lwIP's TCP, how it is filled,
  sent and acknowledged, and \<open>NetPuts\<close> and \<open>NetPrintf\<close> that wait for it. \<open>tcp_sndbuf\<close> and
  \<open>tcp_write\<close> are parameters: how much room there is, and whether the write fails.
\<close>

section \<open>The output buffer of a connection\<close>

text \<open>
  \<open>NetPrintInternal_t\<close> without the column of the hex dump. The counters are \<open>int\<close> and never
  negative.
\<close>

record NetPrintInternal_t =
  PrintBuf :: "u8 list"
  Len :: nat
  BytesQueued :: nat
  BytesSent :: nat

definition NET_PRINT_BUF_LEN :: nat where "NET_PRINT_BUF_LEN = 120"

text \<open>
  One connection: whether it is still there (\<open>gShellCon\<close> is not null), its buffer, and the bytes
  \<open>tcp_write\<close> has accepted so far, which are what the peer reads.
\<close>

record net =
  con :: bool
  buf :: NetPrintInternal_t
  stream :: "u8 list"

definition on_buf :: "(NetPrintInternal_t \<Rightarrow> NetPrintInternal_t) \<Rightarrow> net \<Rightarrow> net" where
  "on_buf f s = s\<lparr>buf := f (buf s)\<rparr>"

text \<open>
  \<open>NetPrintFillPcb\<close> for a connection \<open>tpcb\<close> (\<open>False\<close> is a null pointer, which \<open>tcp_sndbuf\<close>
  dereferences). \<open>CanSend\<close> is the room \<open>tcp_sndbuf\<close> reports, \<open>Err\<close> whether \<open>tcp_write\<close> fails.
\<close>

definition NetPrintFillPcb :: "bool \<Rightarrow> nat \<Rightarrow> bool \<Rightarrow> net \<Rightarrow> net res" where
  "NetPrintFillPcb tpcb CanSend Err s =
     (let p = buf s in
      if \<not> tpcb then Inl NullPtr
      else if Len p > BytesQueued p then
        (let Byte2Write = (if Len p - BytesQueued p > CanSend then CanSend else Len p - BytesQueued p) in
         if length (PrintBuf p) < BytesSent p + Byte2Write then Inl OutOfBounds
         else if Err then Inr s
         else Inr ((on_buf (\<lambda>p. p\<lparr>BytesQueued := BytesQueued p + Byte2Write\<rparr>) s)
               \<lparr>stream := stream s @ take Byte2Write (drop (BytesSent p) (PrintBuf p))\<rparr>))
      else Inr s)"

text \<open>\<open>ShellSent\<close> and \<open>TermSent\<close>: the peer has acknowledged \<open>n\<close> bytes.\<close>

definition ShellSent :: "nat \<Rightarrow> nat \<Rightarrow> bool \<Rightarrow> net \<Rightarrow> net res" where
  "ShellSent n CanSend Err s =
     (let s1 = on_buf (\<lambda>p. p\<lparr>BytesSent := BytesSent p + n\<rparr>) s in
      if BytesSent (buf s1) = Len (buf s1)
      then Inr (on_buf (\<lambda>p. p\<lparr>BytesSent := 0, Len := 0, BytesQueued := 0\<rparr>) s1)
      else NetPrintFillPcb True CanSend Err s1)"

definition TermSent :: "nat \<Rightarrow> nat \<Rightarrow> bool \<Rightarrow> net \<Rightarrow> net res" where
  "TermSent = ShellSent"

definition ShellPoll :: "nat \<Rightarrow> bool \<Rightarrow> net \<Rightarrow> net res" where
  "ShellPoll CanSend Err s = NetPrintFillPcb True CanSend Err s"

definition TermPoll :: "nat \<Rightarrow> bool \<Rightarrow> net \<Rightarrow> net res" where
  "TermPoll CanSend Err s = NetPrintFillPcb True CanSend Err s"

text \<open>
  What a call of \<open>pano_netif_poll\<close> can do to a connection: nothing, an acknowledgement, a timer
  tick of lwIP, or the end of the connection (\<open>ShellRecv\<close> without a buffer).
\<close>

datatype net_ev = Nothing | Sent nat nat bool | Tick nat bool | Closed

fun net_event :: "net_ev \<Rightarrow> net \<Rightarrow> net res" where
  "net_event Nothing s = Inr s"
| "net_event (Sent n CanSend Err) s = ShellSent n CanSend Err s"
| "net_event (Tick CanSend Err) s = ShellPoll CanSend Err s"
| "net_event Closed s = Inr (s\<lparr>con := False\<rparr>)"

text \<open>
  \<open>NetWaitBufEmpty\<close> polls until the counters agree; \<open>tpcb\<close> is tested once, before the loop. The
  events are those of the polls to come; without further events the loop goes on for ever.
\<close>

fun net_wait :: "net_ev list \<Rightarrow> net \<Rightarrow> (net \<times> net_ev list) res" where
  "net_wait [] s = (if Len (buf s) \<noteq> BytesSent (buf s) then Inl Hang else Inr (s, []))"
| "net_wait (ev # evs) s =
     (if Len (buf s) \<noteq> BytesSent (buf s) then rbind (net_event ev s) (net_wait evs) else Inr (s, ev # evs))"

definition NetWaitBufEmpty :: "bool \<Rightarrow> net_ev list \<Rightarrow> net \<Rightarrow> (net \<times> net_ev list) res" where
  "NetWaitBufEmpty tpcb evs s = (if tpcb then net_wait evs s else Inr (s, evs))"

text \<open>
  \<open>NetPrintf\<close> with the text that \<open>vsnprintf\<close> renders: what does not fit is cut off in the buffer,
  but \<open>Len\<close> is the length of the whole text.
\<close>

definition NetPrintf_text :: "cstr \<Rightarrow> nat \<Rightarrow> bool \<Rightarrow> net_ev list \<Rightarrow> net \<Rightarrow> (net \<times> net_ev list) res" where
  "NetPrintf_text text CanSend Err evs s =
     rbind (NetWaitBufEmpty (con s) evs s) (\<lambda>(s1, evs1).
       let cut = take (NET_PRINT_BUF_LEN - 1) text @ [0];
           s2 = on_buf (\<lambda>p. p\<lparr>PrintBuf := cut @ drop (length cut) (PrintBuf p), Len := length text\<rparr>) s1
       in rbind (NetPrintFillPcb (con s2) CanSend Err s2) (\<lambda>s3. Inr (s3, evs1)))"

text \<open>
  \<open>NetPuts\<close>: \<open>k\<close> is the offset of \<open>cp\<close> in the buffer. \<open>fills\<close> is what lwIP answers the fills of the
  routine itself, in order: the room \<open>tcp_sndbuf\<close> reports and whether \<open>tcp_write\<close> fails.
\<close>

type_synonym fills = "nat \<Rightarrow> nat \<times> bool"

definition fill_next :: "fills \<Rightarrow> net \<Rightarrow> net res" where
  "fill_next fills s = NetPrintFillPcb (con s) (fst (fills 0)) (snd (fills 0)) s"

fun puts_loop :: "fills \<Rightarrow> cstr \<Rightarrow> nat \<Rightarrow> net_ev list \<Rightarrow> net \<Rightarrow> (net \<times> net_ev list \<times> fills) res" where
  "puts_loop fills [] k evs s = Inr (s, evs, fills)"
| "puts_loop fills (c # String) k evs s =
     (if \<not> con s then Inr (s, evs, fills)
      else rbind
        (if Len (buf s) \<ge> NET_PRINT_BUF_LEN
         then rbind (fill_next fills s) (\<lambda>s1.
              rbind (NetWaitBufEmpty (con s1) evs s1) (\<lambda>(s2, evs2). Inr (0, s2, evs2, fills \<circ> Suc)))
         else Inr (k, s, evs, fills))
        (\<lambda>(k1, s1, evs1, fills1).
           if length (PrintBuf (buf s1)) \<le> k1 then Inl OutOfBounds
           else puts_loop fills1 String (k1 + 1) evs1
                  (on_buf (\<lambda>p. p\<lparr>PrintBuf := (PrintBuf p)[k1 := c], Len := Len p + 1\<rparr>) s1)))"

definition NetPuts_text :: "cstr \<Rightarrow> fills \<Rightarrow> net_ev list \<Rightarrow> net \<Rightarrow> (net \<times> net_ev list) res" where
  "NetPuts_text String fills evs s =
     rbind (puts_loop fills String (Len (buf s)) evs s) (\<lambda>(s1, evs1, fills1).
       if Len (buf s1) > 0
       then rbind (fill_next fills1 s1) (\<lambda>s2. NetWaitBufEmpty (con s2) evs1 s2)
       else Inr (s1, evs1))"

text \<open>\<open>ConPuts\<close> and \<open>ConPrintf\<close> also write to the terminal; that part is \<open>vt100_puts\<close>.\<close>

definition ConPuts_net :: "cstr \<Rightarrow> fills \<Rightarrow> net_ev list \<Rightarrow> net \<Rightarrow> (net \<times> net_ev list) res" where
  "ConPuts_net String fills evs s =
     (if String = [] \<or> \<not> con s then Inr (s, evs) else NetPuts_text String fills evs s)"

text \<open>
  \<open>ShellAccept\<close> and \<open>TermAccept\<close> reset the counters of the buffer for a new connection; what a
  connection was still to be sent is forgotten.
\<close>

definition accept_net :: "net \<Rightarrow> net" where
  "accept_net s = (on_buf (\<lambda>p. p\<lparr>BytesSent := 0, Len := 0, BytesQueued := 0\<rparr>) s)\<lparr>con := True\<rparr>"

section \<open>The counters\<close>

text \<open>
  The steps of a connection, each an operation of the code: a \<open>NetPrintf\<close> of at most \<open>N\<close>
  characters that finds the previous output acknowledged, the next character of a \<open>NetPuts\<close>, a
  fill (from \<open>NetPuts\<close>, \<open>NetDumpHex\<close> or lwIP's timer), an acknowledgement of bytes that were sent,
  the end of the connection and the next one. What \<open>NetWaitBufEmpty\<close> waits for are the other steps.
\<close>

definition idle :: "net \<Rightarrow> bool" where
  "idle s \<longleftrightarrow> Len (buf s) = 0 \<and> BytesQueued (buf s) = 0 \<and> BytesSent (buf s) = 0"

inductive net_step :: "nat \<Rightarrow> net \<Rightarrow> net \<Rightarrow> bool" for N where
  printf: "length text \<le> N \<Longrightarrow> NetPrintf_text text CanSend Err [] s = Inr (s', []) \<Longrightarrow> net_step N s s'"
| putc: "puts_loop fills [c] (Len (buf s)) [] s = Inr (s', [], fills') \<Longrightarrow> net_step N s s'"
| fill: "NetPrintFillPcb True CanSend Err s = Inr s' \<Longrightarrow> net_step N s s'"
| ack: "0 < n \<Longrightarrow> BytesSent (buf s) + n \<le> BytesQueued (buf s) \<Longrightarrow> ShellSent n CanSend Err s = Inr s' \<Longrightarrow> net_step N s s'"
| closed: "net_step N s (s\<lparr>con := False\<rparr>)"
| accepted: "net_step N s (accept_net s)"

definition net_start :: "net \<Rightarrow> bool" where
  "net_start s \<longleftrightarrow> idle s \<and> length (PrintBuf (buf s)) = NET_PRINT_BUF_LEN"

definition net_inv :: "nat \<Rightarrow> net \<Rightarrow> bool" where
  "net_inv N s \<longleftrightarrow> length (PrintBuf (buf s)) = NET_PRINT_BUF_LEN \<and> BytesSent (buf s) \<le> BytesQueued (buf s) \<and>
     BytesQueued (buf s) \<le> Len (buf s) \<and> Len (buf s) \<le> max N NET_PRINT_BUF_LEN \<and>
     (BytesSent (buf s) = Len (buf s) \<longrightarrow> Len (buf s) = 0)"

lemma on_buf_sel [simp]: "buf (on_buf f s) = f (buf s)" "con (on_buf f s) = con s" "stream (on_buf f s) = stream s"
  by (simp_all add: on_buf_def)

lemma fill_inv: "net_inv N s \<Longrightarrow> NetPrintFillPcb tpcb CanSend Err s = Inr s' \<Longrightarrow> net_inv N s'"
  by (auto simp: NetPrintFillPcb_def net_inv_def Let_def split: if_splits)

lemma fill_never_outside: "net_inv N s \<Longrightarrow> N \<le> NET_PRINT_BUF_LEN \<Longrightarrow> \<exists>s'. NetPrintFillPcb True CanSend Err s = Inr s'"
  by (auto simp: NetPrintFillPcb_def net_inv_def Let_def)

lemma sent_inv:
  assumes "net_inv N s" and "0 < n" and "BytesSent (buf s) + n \<le> BytesQueued (buf s)"
    and "ShellSent n CanSend Err s = Inr s'"
  shows "net_inv N s'"
proof -
  let ?s1 = "on_buf (\<lambda>p. p\<lparr>BytesSent := BytesSent p + n\<rparr>) s"
  have "net_inv N ?s1" if "BytesSent (buf ?s1) \<noteq> Len (buf ?s1)" using assms(1-3) that by (simp add: net_inv_def)
  then show ?thesis
    using assms(1,4) fill_inv [of N ?s1] by (auto simp: ShellSent_def Let_def net_inv_def split: if_splits)
qed

lemma printf_inv:
  assumes "net_inv N s" and "length text \<le> N" and "NetPrintf_text text CanSend Err [] s = Inr (s', [])"
  shows "net_inv N s'"
proof -
  let ?s2 = "on_buf (\<lambda>p. p\<lparr>PrintBuf := (take (NET_PRINT_BUF_LEN - 1) text @ [0]) @
      drop (length (take (NET_PRINT_BUF_LEN - 1) text @ [0])) (PrintBuf p), Len := length text\<rparr>) s"
  have c: "con s"
  proof (rule ccontr)
    assume n: "\<not> con s"
    have "NetPrintFillPcb False CanSend Err ?s2 = Inl NullPtr" by (simp add: NetPrintFillPcb_def)
    with n show False using assms(3) by (simp add: NetPrintf_text_def NetWaitBufEmpty_def Let_def)
  qed
  have f: "Len (buf s) = BytesSent (buf s)" using assms(3) c
    by (auto simp: NetPrintf_text_def NetWaitBufEmpty_def split: if_splits)
  then have g: "NetPrintFillPcb True CanSend Err ?s2 = Inr s'" using assms(3) c
    by (auto simp: NetPrintf_text_def NetWaitBufEmpty_def Let_def rbind_Inr_iff)
  have "BytesSent (buf s) = 0" "BytesQueued (buf s) = 0" "length (PrintBuf (buf s)) = NET_PRINT_BUF_LEN"
    using assms(1) f by (auto simp: net_inv_def)
  then have "net_inv N ?s2" using assms(2) by (simp add: net_inv_def NET_PRINT_BUF_LEN_def min_def)
  then show ?thesis using g by (rule fill_inv)
qed

lemma putc_inv:
  assumes "net_inv N s" and "puts_loop fills [c] (Len (buf s)) [] s = Inr (s', [], fills')"
  shows "net_inv N s'"
proof (cases "con s \<and> Len (buf s) < NET_PRINT_BUF_LEN")
  case True
  then show ?thesis using assms by (auto simp: net_inv_def)
next
  case False
  have "net_wait [] s1 = Inl Hang" if "fill_next fills s = Inr s1" "NET_PRINT_BUF_LEN \<le> Len (buf s)" for s1
  proof -
    have i: "net_inv N s1" using assms(1) that(1) unfolding fill_next_def by (rule fill_inv)
    have "Len (buf s1) = Len (buf s)"
      using that(1) by (auto simp: fill_next_def NetPrintFillPcb_def Let_def split: if_splits)
    with that(2) have "Len (buf s1) \<noteq> 0" by (auto simp: NET_PRINT_BUF_LEN_def)
    with i show ?thesis by (auto simp: net_inv_def)
  qed
  moreover have "con s1 = con s" if "fill_next fills s = Inr s1" for s1
    using that by (auto simp: fill_next_def NetPrintFillPcb_def Let_def split: if_splits)
  ultimately have "\<not> con s"
    using assms(2) False by (auto simp: NetWaitBufEmpty_def rbind_Inr_iff)
  then show ?thesis using assms by simp
qed

lemma net_step_inv: "net_step N s s' \<Longrightarrow> net_inv N s \<Longrightarrow> net_inv N s'"
proof (erule net_step.cases, goal_cases)
  case 1
  then show ?case using printf_inv by blast
next
  case 2
  then show ?case using putc_inv by blast
next
  case 3
  then show ?case using fill_inv by blast
next
  case 4
  then show ?case using sent_inv by blast
qed (simp_all add: net_inv_def accept_net_def)


definition empty_net :: net where
  "empty_net = \<lparr>con = True, buf = \<lparr>PrintBuf = replicate 120 0, Len = 0, BytesQueued = 0, BytesSent = 0\<rparr>, stream = []\<rparr>"

lemma empty_net_start: "net_start empty_net" "con empty_net"
  by (simp_all add: net_start_def idle_def empty_net_def NET_PRINT_BUF_LEN_def)


text \<open>
  A text longer than the buffer: \<open>NetPrintf\<close> cuts it off in the buffer but not in \<open>Len\<close>, and the
  fill it makes reads behind the end of the buffer.
\<close>

theorem long_printf_reads_outside:
  assumes "net_start s" and "con s" and "NET_PRINT_BUF_LEN < length text" and "length text \<le> CanSend"
  shows "NetPrintf_text text CanSend Err [] s = Inl OutOfBounds"
  using assms
  by (auto simp: NetPrintf_text_def NetWaitBufEmpty_def net_start_def idle_def NetPrintFillPcb_def Let_def
      NET_PRINT_BUF_LEN_def)

theorem long_printf_reads_outside_witness:
  "NetPrintf_text (replicate 200 46) 1072 False [] empty_net = Inl OutOfBounds"
  by (rule long_printf_reads_outside) (simp_all add: empty_net_start NET_PRINT_BUF_LEN_def)

section \<open>What the peer reads\<close>

text \<open>
  How the polls of \<open>NetWaitBufEmpty\<close> serve a message of \<open>L\<close> bytes of which \<open>q\<close> are queued and \<open>b\<close>
  acknowledged: the peer acknowledges what it was sent in pieces of any size until all is, other
  events come between, and lwIP has any room at any fill and may refuse any, except that no fill
  adds bytes while earlier ones are not acknowledged (\<open>fill_repeats\<close> below is that case).
\<close>

definition added :: "nat \<Rightarrow> nat \<Rightarrow> nat \<Rightarrow> bool \<Rightarrow> nat" where
  "added L q room err = (if err then 0 else min (L - q) room)"

definition fill_in_turn :: "nat \<Rightarrow> nat \<Rightarrow> nat \<Rightarrow> nat \<Rightarrow> bool \<Rightarrow> bool" where
  "fill_in_turn L q b room err \<longleftrightarrow> b = q \<or> added L q room err = 0"

fun served :: "nat \<Rightarrow> nat \<Rightarrow> nat \<Rightarrow> net_ev list \<Rightarrow> bool" where
  "served L q b [] = False"
| "served L q b (Nothing # evs) = served L q b evs"
| "served L q b (Tick room err # evs) = (fill_in_turn L q b room err \<and> served L (q + added L q room err) b evs)"
| "served L q b (Sent k room err # evs) =
     (0 < k \<and> b + k \<le> q \<and>
      (if b + k = L then evs = []
       else fill_in_turn L q (b + k) room err \<and> served L (q + added L q room err) (b + k) evs))"
| "served L q b (Closed # evs) = False"

definition filled :: "net \<Rightarrow> cstr \<Rightarrow> net" where
  "filled s t = on_buf (\<lambda>p. p\<lparr>PrintBuf := t @ drop (length t) (PrintBuf p), Len := length t\<rparr>) s"

definition sending :: "net \<Rightarrow> cstr \<Rightarrow> nat \<Rightarrow> nat \<Rightarrow> net" where
  "sending s t q b = (on_buf (\<lambda>p. p\<lparr>BytesQueued := q, BytesSent := b\<rparr>) (filled s t))\<lparr>stream := stream s @ take q t\<rparr>"

definition flushed :: "net \<Rightarrow> cstr \<Rightarrow> net" where
  "flushed s t = (on_buf (\<lambda>p. p\<lparr>PrintBuf := t @ drop (length t) (PrintBuf p)\<rparr>) s)\<lparr>stream := stream s @ t\<rparr>"

definition ready :: "net \<Rightarrow> bool" where
  "ready s \<longleftrightarrow> con s \<and> idle s \<and> length (PrintBuf (buf s)) = NET_PRINT_BUF_LEN"

lemma filled_Nil: "ready s \<Longrightarrow> filled s [] = s"
  by (cases s, cases "buf s") (simp add: filled_def on_buf_def ready_def idle_def)

lemma ready_flushed: "ready s \<Longrightarrow> length t \<le> NET_PRINT_BUF_LEN \<Longrightarrow> ready (flushed s t)"
  by (simp add: ready_def flushed_def idle_def on_buf_def)

lemma sending_sel:
  assumes "ready s" and "length t \<le> NET_PRINT_BUF_LEN"
  shows "con (sending s t q b)" "Len (buf (sending s t q b)) = length t" "BytesQueued (buf (sending s t q b)) = q"
    "BytesSent (buf (sending s t q b)) = b" "length (PrintBuf (buf (sending s t q b))) = NET_PRINT_BUF_LEN"
    "PrintBuf (buf (sending s t q b)) = t @ drop (length t) (PrintBuf (buf s))"
  using assms by (simp_all add: sending_def filled_def on_buf_def ready_def)

lemma fill_adds:
  assumes "BytesQueued (buf s) < Len (buf s)" and "B = min (Len (buf s) - BytesQueued (buf s)) room"
    and "BytesSent (buf s) + B \<le> length (PrintBuf (buf s))"
  shows "NetPrintFillPcb True room False s =
    Inr ((on_buf (\<lambda>p. p\<lparr>BytesQueued := BytesQueued p + B\<rparr>) s)
      \<lparr>stream := stream s @ take B (drop (BytesSent (buf s)) (PrintBuf (buf s)))\<rparr>)"
proof (cases "room < Len (buf s) - BytesQueued (buf s)")
  case True
  then have "B = room" using assms(2) by simp
  then show ?thesis using True assms by (simp add: NetPrintFillPcb_def Let_def)
next
  case False
  then have "B = Len (buf s) - BytesQueued (buf s)" using assms(2) by simp
  then show ?thesis using False assms by (simp add: NetPrintFillPcb_def Let_def)
qed

lemma fill_sending:
  assumes "ready s" and "length t \<le> NET_PRINT_BUF_LEN" and "b \<le> q" and "q \<le> length t"
    and "fill_in_turn (length t) q b room err"
  shows "NetPrintFillPcb True room err (sending s t q b) = Inr (sending s t (q + added (length t) q room err) b)"
proof -
  note s = sending_sel [OF assms(1,2), of q b]
  consider (all) "q = length t" | (err) "q < length t" "err" | (more) "q < length t" "\<not> err" using assms(4) by linarith
  then show ?thesis
  proof cases
    case all
    then show ?thesis using s by (simp add: NetPrintFillPcb_def added_def)
  next
    case err
    then have "b + (if length t - q > room then room else length t - q) \<le> NET_PRINT_BUF_LEN"
      using assms(2,3) by (auto split: if_splits)
    then show ?thesis using s err by (auto simp: NetPrintFillPcb_def added_def Let_def split: if_splits)
  next
    case more
    define B where "B = min (length t - q) room"
    have B: "added (length t) q room err = B" "q + B \<le> length t" "b = q \<or> B = 0"
      using more assms(5) by (auto simp: added_def fill_in_turn_def B_def)
    have t: "take q t @ take B (drop b (PrintBuf (buf (sending s t q b)))) = take (q + B) t"
      using B(2,3) s(6) by (auto simp: take_add)
    have "NetPrintFillPcb True room False (sending s t q b) =
        Inr ((on_buf (\<lambda>p. p\<lparr>BytesQueued := BytesQueued p + B\<rparr>) (sending s t q b))
          \<lparr>stream := stream (sending s t q b) @ take B (drop b (PrintBuf (buf (sending s t q b))))\<rparr>)"
      using fill_adds [of "sending s t q b" B room] more assms(2,3) B(2) s(2-5) by (simp add: B_def)
    also have "\<dots> = Inr (sending s t (q + B) b)"
      using t by (simp add: sending_def on_buf_def)
    finally show ?thesis using B(1) more by simp
  qed
qed

lemma added_le: "q \<le> L \<Longrightarrow> q + added L q room err \<le> L"
  by (auto simp: added_def min_def)

lemma net_wait_served:
  assumes "ready s" and "length t \<le> NET_PRINT_BUF_LEN"
  shows "served (length t) q b evs \<Longrightarrow> b \<le> q \<Longrightarrow> q \<le> length t \<Longrightarrow> b < length t \<Longrightarrow>
    net_wait (evs @ rest) (sending s t q b) = Inr (flushed s t, rest)"
proof (induction "length t" q b evs rule: served.induct)
  case (3 q b room err evs)
  have f: "NetPrintFillPcb True room err (sending s t q b) = Inr (sending s t (q + added (length t) q room err) b)"
    using 3 by (intro fill_sending [OF assms]) simp_all
  show ?case using 3 f sending_sel [OF assms] added_le [of q "length t" room err] by (simp add: ShellPoll_def)
next
  case (4 q b k room err evs)
  have n: "Len (buf (sending s t q b)) \<noteq> BytesSent (buf (sending s t q b))" using 4 sending_sel [OF assms] by simp
  have m: "on_buf (\<lambda>p. p\<lparr>BytesSent := BytesSent p + k\<rparr>) (sending s t q b) = sending s t q (b + k)"
    by (simp add: sending_def on_buf_def)
  show ?case
  proof (cases "b + k = length t")
    case True
    then have q: "q = length t" "evs = []" using 4 by auto
    have "on_buf (\<lambda>p. p\<lparr>BytesSent := 0, Len := 0, BytesQueued := 0\<rparr>) (sending s t q (b + k)) = flushed s t"
      using q(1) assms(1) by (cases s, cases "buf s") (simp add: sending_def filled_def flushed_def on_buf_def ready_def idle_def)
    then have "ShellSent k room err (sending s t q b) = Inr (flushed s t)"
      using True sending_sel [OF assms, of q "b + k"] m by (simp add: ShellSent_def Let_def)
    moreover have "Len (buf (flushed s t)) = BytesSent (buf (flushed s t))"
      using assms(1) by (simp add: flushed_def ready_def idle_def)
    ultimately show ?thesis using n q(2) by (cases rest) simp_all
  next
    case False
    then have "ShellSent k room err (sending s t q b) = Inr (sending s t (q + added (length t) q room err) (b + k))"
      using 4 m sending_sel [OF assms, of q "b + k"] fill_sending [OF assms, of "b + k" q room err]
      by (simp add: ShellSent_def Let_def)
    then show ?thesis using 4 n False added_le [of q "length t" room err] by simp
  qed
qed (use sending_sel [OF assms] in simp_all)

lemma flush_filled:
  assumes "ready s" and "0 < length t" and "length t \<le> NET_PRINT_BUF_LEN"
    and "served (length t) (added (length t) 0 (fst (fills 0)) (snd (fills 0))) 0 evs"
  shows "rbind (fill_next fills (filled s t)) (\<lambda>s1. NetWaitBufEmpty (con s1) (evs @ rest) s1) = Inr (flushed s t, rest)"
proof -
  have z: "filled s t = sending s t 0 0"
    using assms(1) by (cases s, cases "buf s") (simp add: filled_def sending_def on_buf_def ready_def idle_def)
  have c: "con (filled s t)" using assms(1) by (simp add: filled_def ready_def)
  have "fill_next fills (filled s t) = Inr (sending s t (added (length t) 0 (fst (fills 0)) (snd (fills 0))) 0)"
    using fill_sending [OF assms(1,3), of 0 0 "fst (fills 0)" "snd (fills 0)"] c z
    by (simp add: fill_next_def fill_in_turn_def)
  then show ?thesis
    using net_wait_served [OF assms(1,3,4), of rest] assms(2) sending_sel(1) [OF assms(1,3)] added_le [of 0 "length t"]
    by (simp add: NetWaitBufEmpty_def)
qed

lemma puts_many:
  assumes "ready s"
  shows "length (t @ a) \<le> NET_PRINT_BUF_LEN \<Longrightarrow>
    puts_loop fills (a @ b) (length t) evs (filled s t) = puts_loop fills b (length (t @ a)) evs (filled s (t @ a))"
proof (induction a arbitrary: t)
  case (Cons c a)
  have l: "length t < NET_PRINT_BUF_LEN" "length (PrintBuf (buf s)) = NET_PRINT_BUF_LEN" "con s"
    using Cons.prems assms by (simp_all add: ready_def)
  have "on_buf (\<lambda>p. p\<lparr>PrintBuf := (PrintBuf p)[length t := c], Len := Len p + 1\<rparr>) (filled s t) = filled s (t @ [c])"
  proof -
    have "drop (length t) (PrintBuf (buf s)) = PrintBuf (buf s) ! length t # drop (length t + 1) (PrintBuf (buf s))"
      using l by (simp add: Cons_nth_drop_Suc)
    then have "(t @ drop (length t) (PrintBuf (buf s)))[length t := c] = (t @ [c]) @ drop (length (t @ [c])) (PrintBuf (buf s))"
      by (simp add: list_update_append)
    then show ?thesis by (simp add: filled_def on_buf_def)
  qed
  then have "puts_loop fills ((c # a) @ b) (length t) evs (filled s t) =
      puts_loop fills (a @ b) (length (t @ [c])) evs (filled s (t @ [c]))"
    using l by (simp add: filled_def on_buf_def)
  then show ?case using Cons.IH [of "t @ [c]"] Cons.prems by simp
qed simp

text \<open>One list of polls for every 120 bytes of the string, after the fill that starts them.\<close>

fun served_all :: "cstr \<Rightarrow> fills \<Rightarrow> net_ev list list \<Rightarrow> bool" where
  "served_all t fills [] = (t = [])"
| "served_all t fills (e # es) =
     (t \<noteq> [] \<and> (let L = min NET_PRINT_BUF_LEN (length t) in served L (added L 0 (fst (fills 0)) (snd (fills 0))) 0 e) \<and>
      served_all (drop NET_PRINT_BUF_LEN t) (fills \<circ> Suc) es)"

lemma served_all_Nil: "served_all [] fills es = (es = [])"
  by (cases es) simp_all

lemma puts_delivers:
  "served_all String fills evss \<Longrightarrow> ready s \<Longrightarrow>
    \<exists>s'. NetPuts_text String fills (concat evss @ rest) s = Inr (s', rest) \<and> ready s' \<and> stream s' = stream s @ String"
proof (induction evss arbitrary: String fills s)
  case Nil
  then show ?case by (auto simp: NetPuts_text_def ready_def idle_def)
next
  case (Cons e es)
  have l0: "Len (buf s) = 0" using Cons.prems(2) by (simp add: ready_def idle_def)
  show ?case
  proof (cases "length String \<le> NET_PRINT_BUF_LEN")
    case True
    then have e: "es = []" "0 < length String"
      "served (length String) (added (length String) 0 (fst (fills 0)) (snd (fills 0))) 0 e"
      using Cons.prems(1) by (auto simp: served_all_Nil min_def Let_def split: if_splits)
    have "puts_loop fills String 0 (concat (e # es) @ rest) s = Inr (filled s String, e @ rest, fills)"
      using puts_many [OF Cons.prems(2), of "[]" String fills "[]"] True e(1) filled_Nil [OF Cons.prems(2)] by simp
    moreover have "Len (buf (filled s String)) = length String"
      using Cons.prems(2) by (simp add: filled_def on_buf_def)
    ultimately have "NetPuts_text String fills (concat (e # es) @ rest) s = Inr (flushed s String, rest)"
      using flush_filled [where fills = fills and rest = rest, OF Cons.prems(2) e(2) True e(3)] e(2) l0 by (simp add: NetPuts_text_def)
    then show ?thesis
      using ready_flushed [OF Cons.prems(2) True] by (simp add: flushed_def)
  next
    case False
    define a where "a = take NET_PRINT_BUF_LEN String"
    define b where "b = drop NET_PRINT_BUF_LEN String"
    have ab: "String = a @ b" "length a = NET_PRINT_BUF_LEN" "b \<noteq> []" using False by (simp_all add: a_def b_def)
    then obtain c r where b: "b = c # r" by (cases b) auto
    have ac: "served (length a) (added (length a) 0 (fst (fills 0)) (snd (fills 0))) 0 e" "served_all b (fills \<circ> Suc) es"
        "0 < length a"
      using Cons.prems(1) False ab(2) unfolding b_def by (simp_all add: NET_PRINT_BUF_LEN_def Let_def)
    let ?s1 = "flushed s a"
    have r1: "ready ?s1" using ready_flushed [OF Cons.prems(2)] ab(2) by simp
    have "puts_loop fills String 0 (e @ concat es @ rest) s = puts_loop fills b (length a) (e @ concat es @ rest) (filled s a)"
      using puts_many [OF Cons.prems(2), of "[]" a fills b] ab filled_Nil [OF Cons.prems(2)] by simp
    also have "\<dots> = puts_loop (fills \<circ> Suc) b 0 (concat es @ rest) ?s1"
    proof -
      have f: "con (filled s a)" "Len (buf (filled s a)) = NET_PRINT_BUF_LEN"
        using Cons.prems(2) ab(2) by (simp_all add: filled_def on_buf_def ready_def)
      obtain s0 where ff: "fill_next fills (filled s a) = Inr s0"
        "NetWaitBufEmpty (con s0) (e @ concat es @ rest) s0 = Inr (?s1, concat es @ rest)"
        using flush_filled [where fills = fills and rest = "concat es @ rest", OF Cons.prems(2) ac(3) _ ac(1)] ab(2)
        unfolding rbind_Inr_iff by auto
      have s1: "con ?s1" "Len (buf ?s1) = 0" using r1 by (simp_all add: ready_def idle_def)
      show ?thesis
        using ff f s1 unfolding b by (simp add: NET_PRINT_BUF_LEN_def)
    qed
    finally have "NetPuts_text String fills (concat (e # es) @ rest) s = NetPuts_text b (fills \<circ> Suc) (concat es @ rest) ?s1"
      using l0 r1 by (simp add: NetPuts_text_def ready_def idle_def)
    moreover obtain s' where "NetPuts_text b (fills \<circ> Suc) (concat es @ rest) ?s1 = Inr (s', rest)" "ready s'"
      "stream s' = stream ?s1 @ b"
      using Cons.IH [OF ac(2) r1] by blast
    moreover have "stream ?s1 = stream s @ a" by (simp add: flushed_def)
    ultimately show ?thesis unfolding ab(1) by (metis append_assoc)
  qed
qed

text \<open>
  Claim C22. \<open>NetPuts\<close> delivers. On an idle buffer, whatever room lwIP has at each fill and whichever
  fills \<open>tcp_write\<close> refuses, as long as the polls end up acknowledging every message of 120 bytes, in pieces of any
  size, and no fill adds bytes while earlier ones are not acknowledged: \<open>NetPuts\<close> returns, the peer has
  read exactly the string, however long it is, and the buffer is idle again.
\<close>

theorem NetPuts_delivers:
  assumes "con s" and "net_start s" and "served_all String fills evss"
  shows "\<exists>s'. NetPuts_text String fills (concat evss @ rest) s = Inr (s', rest) \<and>
    con s' \<and> net_start s' \<and> stream s' = stream s @ String"
  using puts_delivers [OF assms(3)] assms(1,2) by (auto simp: ready_def net_start_def)

theorem NetPuts_delivers_witness:
  "\<exists>s'. NetPuts_text [72, 105, 33] (\<lambda>_. (2, False))
     [Nothing, Sent 1 0 False, Tick 9 True, Sent 1 9 True, Tick 9 False, Sent 1 9 False, Closed] empty_net =
     Inr (s', [Closed]) \<and> stream s' = [72, 105, 33]"
proof -
  have "served_all [72, 105, 33] (\<lambda>_. (2, False))
      [[Nothing, Sent 1 0 False, Tick 9 True, Sent 1 9 True, Tick 9 False, Sent 1 9 False]]"
    by (simp add: NET_PRINT_BUF_LEN_def Let_def added_def fill_in_turn_def)
  from NetPuts_delivers [OF empty_net_start(2,1) this, of "[Closed]"] show ?thesis by (auto simp: empty_net_def)
qed

text \<open>
  A fill that finds room for only a part of the message sends the same part again when
  it is repeated before an acknowledgement: it takes the bytes from what was acknowledged, not
  from what was queued.
\<close>

theorem fill_repeats:
  assumes "idle s" and "length t \<le> length (PrintBuf (buf s))" and "2 * n \<le> length t" and "0 < n"
  shows "\<exists>s1 s2. NetPrintFillPcb True n False (filled s t) = Inr s1 \<and> NetPrintFillPcb True n False s1 = Inr s2 \<and>
    stream s2 = stream s @ take n t @ take n t \<and> BytesQueued (buf s2) = 2 * n"
proof -
  have i: "BytesQueued (buf s) = 0" "BytesSent (buf s) = 0" using assms(1) by (simp_all add: idle_def)
  let ?s1 = "(on_buf (\<lambda>p. p\<lparr>BytesQueued := n\<rparr>) (filled s t))\<lparr>stream := stream s @ take n t\<rparr>"
  let ?s2 = "(on_buf (\<lambda>p. p\<lparr>BytesQueued := 2 * n\<rparr>) (filled s t))\<lparr>stream := stream s @ take n t @ take n t\<rparr>"
  have l: "length (PrintBuf (buf (filled s t))) = length (PrintBuf (buf s))" "t \<noteq> []"
    using assms(2-4) by (auto simp: filled_def)
  have "NetPrintFillPcb True n False (filled s t) = Inr ?s1"
    using assms i l by (simp add: NetPrintFillPcb_def filled_def on_buf_def Let_def)
  moreover have "NetPrintFillPcb True n False ?s1 = Inr ?s2"
  proof (cases "n < length t - n")
    case True
    then show ?thesis using assms i l by (auto simp: NetPrintFillPcb_def filled_def on_buf_def Let_def)
  next
    case False
    then have "length t = 2 * n" using assms(3) by simp
    then show ?thesis using assms i l by (auto simp: NetPrintFillPcb_def filled_def on_buf_def Let_def)
  qed
  ultimately show ?thesis by (intro exI [of _ ?s1] exI [of _ ?s2]) (simp add: on_buf_def)
qed

theorem fill_repeats_witness:
  "\<exists>s1 s2. NetPrintFillPcb True 1 False (filled \<lparr>con = True,
       buf = \<lparr>PrintBuf = [0, 0, 0], Len = 0, BytesQueued = 0, BytesSent = 0\<rparr>, stream = []\<rparr> [72, 105]) = Inr s1 \<and>
     NetPrintFillPcb True 1 False s1 = Inr s2 \<and> stream s2 = [72, 72]"
  using fill_repeats [of "\<lparr>con = True, buf = \<lparr>PrintBuf = [0, 0, 0], Len = 0, BytesQueued = 0, BytesSent = 0\<rparr>, stream = []\<rparr>"
      "[72, 105]" 1]
  by (auto simp: idle_def)

section \<open>A peer that goes away\<close>

text \<open>
  A connection that closes while output is waiting hangs the firmware: the loop looks
  at the counters only, and without acknowledgements no poll changes them.
\<close>

theorem wait_after_close_hangs:
  assumes "Len (buf s) \<noteq> BytesSent (buf s)" and "BytesQueued (buf s) = Len (buf s)"
    and "list_all (\<lambda>ev. case ev of Sent _ _ _ \<Rightarrow> False | _ \<Rightarrow> True) evs"
  shows "NetWaitBufEmpty True (Closed # evs) s = Inl Hang"
proof -
  have "net_wait evs s = Inl Hang"
    if "Len (buf s) \<noteq> BytesSent (buf s)" "BytesQueued (buf s) = Len (buf s)" for s
    using assms(3) that
  proof (induction evs arbitrary: s)
    case (Cons ev evs)
    then show ?case by (cases ev) (simp_all add: ShellPoll_def NetPrintFillPcb_def)
  qed simp
  from this [of "s\<lparr>con := False\<rparr>"] assms(1,2) show ?thesis by (simp add: NetWaitBufEmpty_def)
qed

theorem wait_after_close_hangs_witness:
  "NetWaitBufEmpty True [Closed, Nothing, Tick 100 False] \<lparr>con = True,
     buf = \<lparr>PrintBuf = [72, 105], Len = 2, BytesQueued = 2, BytesSent = 0\<rparr>, stream = [72, 105]\<rparr> = Inl Hang"
  by (rule wait_after_close_hangs) simp_all

end
