(* ===== verification/I2c_Commands.thy ===== *)
theory I2c_Commands
  imports Tftp
begin

text \<open>
  The I2C routines of \<open>main.c\<close>, the shell commands that touch device registers (I2C, AXI bus,
  GPIO, board information) and the two users of I2C in the firmware itself, the video encoder
  set-up and the polling of the input device. \<open>i2c_device\<close> states what the I2C controller promises.
\<close>

section \<open>Device registers\<close>

text \<open>
  A register access is an event. What a read returns depends on all accesses before it: the
  hardware is a function from traces to register contents.
\<close>

datatype reg = RegRd u32 | RegWr u32 u32

type_synonym regs = "reg list \<Rightarrow> u32 \<Rightarrow> u32"

definition REG_RD :: "regs \<Rightarrow> u32 \<Rightarrow> reg list \<Rightarrow> u32 \<times> reg list" where
  "REG_RD rv a tr = (rv tr a, tr @ [RegRd a])"

definition REG_WR :: "u32 \<Rightarrow> u32 \<Rightarrow> reg list \<Rightarrow> reg list" where
  "REG_WR a v tr = tr @ [RegWr a v]"

definition GPIO_BASE :: u32 where "GPIO_BASE = 0x94000000"
definition GPIO_DIRECTION :: u32 where "GPIO_DIRECTION = 0x0"
definition GPIO_INPUT :: u32 where "GPIO_INPUT = 0x4"
definition GPIO_OUTPUT :: u32 where "GPIO_OUTPUT = 0x8"
definition GPIO_OUTPUT_SET :: u32 where "GPIO_OUTPUT_SET = 0xc"
definition GPIO_OUTPUT_CLR :: u32 where "GPIO_OUTPUT_CLR = 0x10"
definition GPIO_BIT_PANO_BUTTON :: u32 where "GPIO_BIT_PANO_BUTTON = 0x2"

definition I2C_BASE :: u32 where "I2C_BASE = 0x96000000"
definition I2C_CMD_STATUS :: u32 where "I2C_CMD_STATUS = 0x00"
definition I2C_BUS :: u32 where "I2C_BUS = 0x04"
definition I2C_DEVICE :: u32 where "I2C_DEVICE = 0x08"
definition I2C_ADDRESS :: u32 where "I2C_ADDRESS = 0x0C"
definition I2C_DATA :: u32 where "I2C_DATA = 0x10"
definition I2C_CMD_ENABLE :: u32 where "I2C_CMD_ENABLE = 0x1"
definition I2C_CMD_READ :: u32 where "I2C_CMD_READ = 0x2"
definition I2C_CMD_WRITE :: u32 where "I2C_CMD_WRITE = 0x0"
definition I2C_STATUS_BUSY :: u32 where "I2C_STATUS_BUSY = 0x100"
definition I2C_STATUS_NACK :: u32 where "I2C_STATUS_NACK = 0x200"
definition I2C_BUS_ENC :: u8 where "I2C_BUS_ENC = 1"
definition I2C_BUS_DVI :: u8 where "I2C_BUS_DVI = 2"
definition I2C_BUS_HDMI :: u8 where "I2C_BUS_HDMI = 3"
definition I2C_ENC_DVI :: u8 where "I2C_ENC_DVI = 0x75"
definition I2C_ENC_HDMI :: u8 where "I2C_ENC_HDMI = 0x76"

lemmas i2c_regs = I2C_BASE_def I2C_CMD_STATUS_def I2C_BUS_def I2C_DEVICE_def I2C_ADDRESS_def I2C_DATA_def
lemmas i2c_cmds = I2C_CMD_ENABLE_def I2C_CMD_READ_def I2C_CMD_WRITE_def

definition I2C_TIMEOUT :: nat where "I2C_TIMEOUT = 1000000"

section \<open>Transactions\<close>

definition i2c_status :: "regs \<Rightarrow> reg list \<Rightarrow> u32" where
  "i2c_status rv tr = rv tr (I2C_BASE + I2C_CMD_STATUS)"

definition i2c_busy :: "regs \<Rightarrow> reg list \<Rightarrow> bool" where
  "i2c_busy rv tr \<longleftrightarrow> i2c_status rv tr AND I2C_STATUS_BUSY \<noteq> 0"

text \<open>
  The polling loops: while time is left and the busy flag is \<open>b\<close>. \<open>Timeout\<close> only ever counts
  down from \<open>I2C_TIMEOUT\<close>.
\<close>

fun i2c_wait :: "regs \<Rightarrow> bool \<Rightarrow> nat \<Rightarrow> reg list \<Rightarrow> nat \<times> reg list" where
  "i2c_wait rv b 0 tr = (0, tr)"
| "i2c_wait rv b (Suc Timeout) tr =
     (let tr1 = tr @ [RegRd (I2C_BASE + I2C_CMD_STATUS)] in
      if i2c_busy rv tr = b then i2c_wait rv b Timeout tr1 else (Suc Timeout, tr1))"

text \<open>
  Firing a command: set the enable flag, wait for the start, clear the flag, wait for the end.
  \<open>I2CWrite\<close>, \<open>I2CRead\<close> and \<open>I2CReadBlock\<close> share these lines.
\<close>

definition i2c_fire :: "regs \<Rightarrow> u32 \<Rightarrow> nat \<Rightarrow> reg list \<Rightarrow> nat \<times> reg list" where
  "i2c_fire rv cm Timeout tr =
     (let tr1 = REG_WR (I2C_BASE + I2C_CMD_STATUS) (cm OR I2C_CMD_ENABLE) (REG_WR (I2C_BASE + I2C_CMD_STATUS) cm tr)
      in case i2c_wait rv False Timeout tr1 of (T1, tr2) \<Rightarrow>
         i2c_wait rv True T1 (REG_WR (I2C_BASE + I2C_CMD_STATUS) cm tr2))"

definition I2CWrite :: "regs \<Rightarrow> u8 \<Rightarrow> u8 \<Rightarrow> u8 \<Rightarrow> u8 \<Rightarrow> reg list \<Rightarrow> CommandResults_t \<times> reg list" where
  "I2CWrite rv Bus Device Address Data tr =
     (case i2c_wait rv True I2C_TIMEOUT tr of (T0, tr0) \<Rightarrow>
        if T0 = 0 then (RESULT_ERR, tr0)
        else
          (let tr1 = REG_WR (I2C_BASE + I2C_DATA) (ucast Data)
                    (REG_WR (I2C_BASE + I2C_ADDRESS) (ucast Address)
                    (REG_WR (I2C_BASE + I2C_DEVICE) (ucast Device)
                    (REG_WR (I2C_BASE + I2C_BUS) (ucast Bus) tr0)))
           in case i2c_wait rv True T0 tr1 of (T1, tr2) \<Rightarrow>
                if T1 = 0 then (RESULT_ERR, tr2)
                else case i2c_fire rv I2C_CMD_WRITE T1 tr2 of (T2, tr3) \<Rightarrow>
                  if T2 = 0 then (RESULT_ERR, tr3) else (RESULT_OK, tr3)))"

text \<open>The test for an acknowledge and the read of the data register after a read command.\<close>

definition i2c_take :: "regs \<Rightarrow> reg list \<Rightarrow> u8 option \<times> reg list" where
  "i2c_take rv tr =
     (case REG_RD rv (I2C_BASE + I2C_CMD_STATUS) tr of (st, tr1) \<Rightarrow>
        if st AND I2C_STATUS_NACK \<noteq> 0 then (None, tr1)
        else case REG_RD rv (I2C_BASE + I2C_DATA) tr1 of (v, tr2) \<Rightarrow> (Some (ucast v), tr2))"

text \<open>The byte put into \<open>*pData\<close> is part of the result; it is absent where the code stores none.\<close>

definition I2CRead :: "regs \<Rightarrow> u8 \<Rightarrow> u8 \<Rightarrow> u8 \<Rightarrow> reg list \<Rightarrow> CommandResults_t \<times> u8 option \<times> reg list" where
  "I2CRead rv Bus Device Address tr =
     (case i2c_wait rv True I2C_TIMEOUT tr of (T0, tr0) \<Rightarrow>
        if T0 = 0 then (RESULT_ERR, None, tr0)
        else
          (let tr1 = REG_WR (I2C_BASE + I2C_ADDRESS) (ucast Address)
                    (REG_WR (I2C_BASE + I2C_DEVICE) (ucast Device)
                    (REG_WR (I2C_BASE + I2C_BUS) (ucast Bus) tr0))
           in case i2c_wait rv True T0 tr1 of (T1, tr2) \<Rightarrow>
                if T1 = 0 then (RESULT_ERR, None, tr2)
                else case i2c_fire rv I2C_CMD_READ T1 tr2 of (T2, tr3) \<Rightarrow>
                  if T2 = 0 then (RESULT_ERR, None, tr3)
                  else case i2c_take rv tr3 of (d, tr4) \<Rightarrow>
                    (if d = None then RESULT_ERR else RESULT_OK, d, tr4)))"

fun i2c_block :: "regs \<Rightarrow> nat \<Rightarrow> u8 \<Rightarrow> nat \<Rightarrow> u8 list \<Rightarrow> reg list \<Rightarrow> CommandResults_t \<times> u8 list \<times> reg list" where
  "i2c_block rv 0 Address Timeout acc tr = (RESULT_OK, acc, tr)"
| "i2c_block rv (Suc Len) Address Timeout acc tr =
     (case i2c_wait rv True Timeout (REG_WR (I2C_BASE + I2C_ADDRESS) (ucast Address) tr) of (T1, tr1) \<Rightarrow>
        if T1 = 0 then (RESULT_ERR, acc, tr1)
        else case i2c_fire rv I2C_CMD_READ T1 tr1 of (T2, tr2) \<Rightarrow>
          if T2 = 0 then (RESULT_ERR, acc, tr2)
          else case i2c_take rv tr2 of
                 (None, tr3) \<Rightarrow> (RESULT_ERR, acc, tr3)
               | (Some d, tr3) \<Rightarrow> i2c_block rv Len (Address + 1) T2 (acc @ [d]) tr3)"

definition I2CReadBlock ::
  "regs \<Rightarrow> u8 \<Rightarrow> u8 \<Rightarrow> u8 \<Rightarrow> u8 \<Rightarrow> reg list \<Rightarrow> CommandResults_t \<times> u8 list \<times> reg list" where
  "I2CReadBlock rv Bus Device Address Len tr =
     (case i2c_wait rv True I2C_TIMEOUT tr of (T0, tr0) \<Rightarrow>
        if T0 = 0 then (RESULT_ERR, [], tr0)
        else i2c_block rv (unat Len) Address T0 []
               (REG_WR (I2C_BASE + I2C_DEVICE) (ucast Device) (REG_WR (I2C_BASE + I2C_BUS) (ucast Bus) tr0)))"

section \<open>Video encoder set-up and user input\<close>

definition DVI_SETUP :: "u8 list" where
  "DVI_SETUP = [0x1C, 0x00, 0x1D, 0x4f, 0x1F, 0x80, 0x21, 0x09, 0x33, 0x06, 0x34, 0x26, 0x36, 0xA0, 0x49, 0xC0]"

fun dvi_loop :: "regs \<Rightarrow> u8 \<Rightarrow> u8 list \<Rightarrow> reg list \<Rightarrow> reg list" where
  "dvi_loop rv encoder (a # d # xs) tr = dvi_loop rv encoder xs (snd (I2CWrite rv I2C_BUS_ENC encoder a d tr))"
| "dvi_loop rv encoder _ tr = tr"

definition dvi_setup :: "regs \<Rightarrow> u8 \<Rightarrow> reg list \<Rightarrow> reg list" where
  "dvi_setup rv encoder tr = dvi_loop rv encoder DVI_SETUP tr"

text \<open>The key codes and function keys are read and not used.\<close>

definition handle_input :: "regs \<Rightarrow> u8 \<Rightarrow> u8 \<Rightarrow> reg list \<Rightarrow> reg list" where
  "handle_input rv bus dev tr =
     (case I2CRead rv bus dev 0x00 tr of
        (_, None, tr1) \<Rightarrow> tr1
      | (_, Some IODirty, tr1) \<Rightarrow>
          (let tr2 = (if IODirty AND 1 \<noteq> 0 then snd (snd (I2CRead rv bus dev 0x08 tr1)) else tr1)
           in if IODirty AND 2 \<noteq> 0 then snd (snd (I2CReadBlock rv bus dev 0x06 2 tr2)) else tr2))"

definition ButtonPressed :: "regs \<Rightarrow> reg list \<Rightarrow> bool \<times> reg list" where
  "ButtonPressed rv tr =
     (case REG_RD rv (GPIO_BASE + GPIO_INPUT) tr of (v, tr1) \<Rightarrow> (v AND GPIO_BIT_PANO_BUTTON = 0, tr1))"

section \<open>Shell commands on the registers\<close>

type_synonym io = "board \<times> reg list"

definition say :: "string \<Rightarrow> arg list \<Rightarrow> io \<Rightarrow> io" where
  "say fmt xs = (\<lambda>(s, tr). (NetPrintf fmt xs s, tr))"

definition I2CStatusCmd :: "regs \<Rightarrow> (cstr \<Rightarrow> u32) \<Rightarrow> (cstr \<Rightarrow> u32) \<Rightarrow> cstr \<Rightarrow> io \<Rightarrow> CommandResults_t \<times> io" where
  "I2CStatusCmd rv ai ah CmdLine io =
     (if deref CmdLine = 0 then (RESULT_USAGE, io)
      else case ConvertValue ai ah CmdLine 0 of (err, _, _) \<Rightarrow>
        if err \<noteq> 0 then (RESULT_BAD_ARG, io)
        else case REG_RD rv (I2C_BASE + I2C_CMD_STATUS) (snd io) of (v, tr) \<Rightarrow>
          (RESULT_OK, say (crlf @ ''I2C0: %08X'' @ crlf) [Num v] (fst io, tr)))"

definition I2CWriteCmd :: "regs \<Rightarrow> (cstr \<Rightarrow> u32) \<Rightarrow> (cstr \<Rightarrow> u32) \<Rightarrow> cstr \<Rightarrow> io \<Rightarrow> CommandResults_t \<times> io" where
  "I2CWriteCmd rv ai ah CmdLine io =
     (if deref CmdLine = 0 then (RESULT_USAGE, io)
      else case ConvertValue ai ah CmdLine 0 of (e1, c1, Bus) \<Rightarrow>
        if e1 \<noteq> 0 then (RESULT_BAD_ARG, io)
        else case ConvertValue ai ah c1 0 of (e2, c2, DevAddr) \<Rightarrow>
        if e2 \<noteq> 0 then (RESULT_BAD_ARG, io)
        else case ConvertValue ai ah c2 0 of (e3, c3, RegAddr) \<Rightarrow>
        if e3 \<noteq> 0 then (RESULT_BAD_ARG, io)
        else case ConvertValue ai ah c3 0 of (e4, c4, RegData) \<Rightarrow>
        if e4 \<noteq> 0 then (RESULT_BAD_ARG, io)
        else case I2CWrite rv (ucast Bus) (ucast DevAddr) (ucast RegAddr) (ucast RegData) (snd io) of (Ret, tr) \<Rightarrow>
          (Ret, say (if Ret = RESULT_OK then crlf @ ''I2C: Success'' @ crlf else crlf @ ''I2C: Bus Error'' @ crlf) [] (fst io, tr)))"

definition I2CReadCmd :: "regs \<Rightarrow> (cstr \<Rightarrow> u32) \<Rightarrow> (cstr \<Rightarrow> u32) \<Rightarrow> cstr \<Rightarrow> io \<Rightarrow> CommandResults_t \<times> io" where
  "I2CReadCmd rv ai ah CmdLine io =
     (if deref CmdLine = 0 then (RESULT_USAGE, io)
      else case ConvertValue ai ah CmdLine 0 of (e1, c1, Bus) \<Rightarrow>
        if e1 \<noteq> 0 then (RESULT_BAD_ARG, io)
        else case ConvertValue ai ah c1 0 of (e2, c2, DevAddr) \<Rightarrow>
        if e2 \<noteq> 0 then (RESULT_BAD_ARG, io)
        else case ConvertValue ai ah c2 0 of (e3, c3, RegAddr) \<Rightarrow>
        if e3 \<noteq> 0 then (RESULT_BAD_ARG, io)
        else case I2CRead rv (ucast Bus) (ucast DevAddr) (ucast RegAddr) (snd io) of
               (Ret, Some RegData, tr) \<Rightarrow>
                 (Ret, say (crlf @ ''I2C Bus: %d Dev: 0x%02x Reg: 0x%02x Value: 0x%02x'' @ crlf)
                   [Num Bus, Num DevAddr, Num RegAddr, Num (ucast RegData)] (fst io, tr))
             | (Ret, None, tr) \<Rightarrow> (Ret, say (crlf @ ''I2C: Bus Error'' @ crlf) [] (fst io, tr)))"

definition AXIReadCmd :: "regs \<Rightarrow> (cstr \<Rightarrow> u32) \<Rightarrow> (cstr \<Rightarrow> u32) \<Rightarrow> cstr \<Rightarrow> io \<Rightarrow> CommandResults_t \<times> io" where
  "AXIReadCmd rv ai ah CmdLine io =
     (if deref CmdLine = 0 then (RESULT_USAGE, io)
      else case ConvertValue ai ah CmdLine 0 of (err, _, BusAddr) \<Rightarrow>
        if err \<noteq> 0 then (RESULT_BAD_ARG, io)
        else case REG_RD rv BusAddr (snd io) of (BusData, tr) \<Rightarrow>
          (RESULT_OK, say (crlf @ ''%08X: %08X'' @ crlf) [Num BusAddr, Num BusData] (fst io, tr)))"

definition AXIWriteCmd :: "(cstr \<Rightarrow> u32) \<Rightarrow> (cstr \<Rightarrow> u32) \<Rightarrow> cstr \<Rightarrow> io \<Rightarrow> CommandResults_t \<times> io" where
  "AXIWriteCmd ai ah CmdLine io =
     (if deref CmdLine = 0 then (RESULT_USAGE, io)
      else case ConvertValue ai ah CmdLine 0 of (e1, c1, BusAddr) \<Rightarrow>
        if e1 \<noteq> 0 then (RESULT_BAD_ARG, io)
        else case ConvertValue ai ah c1 0 of (e2, c2, BusData) \<Rightarrow>
        if e2 \<noteq> 0 then (RESULT_BAD_ARG, io)
        else (RESULT_OK, say (crlf @ ''%08X: %08X'' @ crlf) [Num BusAddr, Num BusData]
               (fst io, REG_WR BusAddr BusData (snd io))))"

definition GPIOStatusCmd :: "regs \<Rightarrow> io \<Rightarrow> CommandResults_t \<times> io" where
  "GPIOStatusCmd rv io =
     (case REG_RD rv (GPIO_BASE + GPIO_INPUT) (snd io) of (v, tr) \<Rightarrow>
        (RESULT_OK, say (crlf @ ''GPIO REGISTER = 0x%08x'' @ crlf) [Num v] (fst io, tr)))"

definition GPIODirCmd :: "regs \<Rightarrow> (cstr \<Rightarrow> u32) \<Rightarrow> (cstr \<Rightarrow> u32) \<Rightarrow> cstr \<Rightarrow> io \<Rightarrow> CommandResults_t \<times> io" where
  "GPIODirCmd rv ai ah CmdLine io =
     (if deref CmdLine = 0 then
        (case REG_RD rv (GPIO_BASE + GPIO_DIRECTION) (snd io) of (v, tr) \<Rightarrow>
           (RESULT_OK, say (crlf @ ''GPIO Direction = 0x%08x'' @ crlf) [Num v] (fst io, tr)))
      else case ConvertValue ai ah CmdLine 0 of (err, _, BitMask) \<Rightarrow>
        if err \<noteq> 0 then (RESULT_BAD_ARG, io)
        else (RESULT_OK, fst io, REG_WR (GPIO_BASE + GPIO_DIRECTION) BitMask (snd io)))"

definition GPIOSetCmd :: "(cstr \<Rightarrow> u32) \<Rightarrow> (cstr \<Rightarrow> u32) \<Rightarrow> cstr \<Rightarrow> io \<Rightarrow> CommandResults_t \<times> io" where
  "GPIOSetCmd ai ah CmdLine io =
     (if deref CmdLine = 0 then (RESULT_USAGE, io)
      else case ConvertValue ai ah CmdLine 0 of (err, _, BitMask) \<Rightarrow>
        if err \<noteq> 0 then (RESULT_BAD_ARG, io)
        else (RESULT_OK, fst io, REG_WR (GPIO_BASE + GPIO_OUTPUT_SET) BitMask (snd io)))"

definition GPIOClearCmd :: "(cstr \<Rightarrow> u32) \<Rightarrow> (cstr \<Rightarrow> u32) \<Rightarrow> cstr \<Rightarrow> io \<Rightarrow> CommandResults_t \<times> io" where
  "GPIOClearCmd ai ah CmdLine io =
     (if deref CmdLine = 0 then (RESULT_USAGE, io)
      else case ConvertValue ai ah CmdLine 0 of (err, _, BitMask) \<Rightarrow>
        if err \<noteq> 0 then (RESULT_BAD_ARG, io)
        else (RESULT_OK, fst io, REG_WR (GPIO_BASE + GPIO_OUTPUT_CLR) BitMask (snd io)))"

text \<open>\<open>InfoCmd\<close>; \<open>gOurMac\<close> is the configured address of the board.\<close>

definition mac_args :: "u8 list \<Rightarrow> arg list" where
  "mac_args m = map (\<lambda>b. Num (ucast b)) (take 6 m)"

definition InfoCmd :: "u8 list \<Rightarrow> board \<Rightarrow> (CommandResults_t \<times> board) res" where
  "InfoCmd gOurMac s =
     (case gChip s of
        None \<Rightarrow> Inl NullPtr
      | Some p \<Rightarrow> Inr (RESULT_OK,
          NetPrintf ''Ethernet MAC (Flash): %02x:%02x:%02x:%02x:%02x:%02x\<newline>'' (mac_args (gEtherMac s))
          (NetPrintf ''Ethernet MAC (InUse): %02x:%02x:%02x:%02x:%02x:%02x\<newline>'' (mac_args gOurMac)
          (NetPrintf ''Serial: %16s\<newline>'' [Text (gPanoSerial s)]
          (NetPrintf ''FlashSize: 0x%08x\<newline>'' [Num (FlashSize p)]
          (NetPrintf ''BoardID: 0x%08x\<newline>'' [Num (gBoardID s)] s))))))"

section \<open>The controller is never left enabled\<close>

definition spoll :: reg where
  "spoll = RegRd (I2C_BASE + I2C_CMD_STATUS)"

text \<open>The value a register was last set to.\<close>

definition regval :: "u32 \<Rightarrow> reg list \<Rightarrow> u32" where
  "regval a tr = foldl (\<lambda>v r. case r of RegRd _ \<Rightarrow> v | RegWr b w \<Rightarrow> if a = b then w else v) 0 tr"

definition enabled :: "reg list \<Rightarrow> bool" where
  "enabled tr \<longleftrightarrow> regval (I2C_BASE + I2C_CMD_STATUS) tr AND I2C_CMD_ENABLE \<noteq> 0"

lemma regval_simps [simp]:
  "regval a [] = 0"
  "regval a (tr @ [RegRd b]) = regval a tr"
  "regval a (tr @ [RegWr b v]) = (if a = b then v else regval a tr)"
  "regval a (tr @ [spoll]) = regval a tr"
  "regval a (tr @ [RegRd b, RegRd c]) = regval a tr"
  "regval a (REG_WR b v tr) = (if a = b then v else regval a tr)"
  by (simp_all add: regval_def REG_WR_def spoll_def)

lemma regval_polls [simp]: "regval a (tr @ replicate k spoll) = regval a tr"
proof (induction k)
  case (Suc k)
  have "replicate (Suc k) spoll = replicate k spoll @ [spoll]" by (simp add: replicate_append_same)
  then show ?case using Suc by (metis append.assoc regval_simps(4))
qed simp

lemma regval_polled [simp]: "regval a (tr @ replicate k spoll @ [spoll]) = regval a tr"
  using regval_simps(4) [of a "tr @ replicate k spoll"] by simp

lemma i2c_wait_trace: "\<exists>k. snd (i2c_wait rv b T tr) = tr @ replicate k spoll"
proof (induction rv b T tr rule: i2c_wait.induct)
  case (1 rv b tr)
  then show ?case by (intro exI [of _ 0]) simp
next
  case (2 rv b T tr)
  show ?case
  proof (cases "i2c_busy rv tr = b")
    case True
    then obtain k where "snd (i2c_wait rv b (Suc T) tr) = tr @ replicate (Suc k) spoll"
      using 2 by (auto simp: Let_def spoll_def)
    then show ?thesis by blast
  next
    case False
    then show ?thesis by (intro exI [of _ 1]) (simp add: Let_def spoll_def)
  qed
qed

lemma i2c_wait_regval [simp]: "regval a (snd (i2c_wait rv b T tr)) = regval a tr"
  using i2c_wait_trace [of rv b T tr] by (metis regval_polls)

lemma i2c_wait_regval' [simp]: "i2c_wait rv b T tr = (T', tr') \<Longrightarrow> regval a tr' = regval a tr"
  using i2c_wait_regval [of a rv b T tr] by simp

lemma i2c_regs_distinct [simp]:
  "I2C_CMD_STATUS \<noteq> I2C_BUS" "I2C_CMD_STATUS \<noteq> I2C_DEVICE" "I2C_CMD_STATUS \<noteq> I2C_ADDRESS"
  "I2C_CMD_STATUS \<noteq> I2C_DATA" "I2C_BUS \<noteq> I2C_CMD_STATUS" "I2C_BUS \<noteq> I2C_DEVICE"
  "I2C_BUS \<noteq> I2C_ADDRESS" "I2C_BUS \<noteq> I2C_DATA" "I2C_DEVICE \<noteq> I2C_CMD_STATUS"
  "I2C_DEVICE \<noteq> I2C_BUS" "I2C_DEVICE \<noteq> I2C_ADDRESS" "I2C_DEVICE \<noteq> I2C_DATA"
  "I2C_ADDRESS \<noteq> I2C_CMD_STATUS" "I2C_ADDRESS \<noteq> I2C_BUS" "I2C_ADDRESS \<noteq> I2C_DEVICE"
  "I2C_ADDRESS \<noteq> I2C_DATA" "I2C_DATA \<noteq> I2C_CMD_STATUS" "I2C_DATA \<noteq> I2C_BUS"
  "I2C_DATA \<noteq> I2C_DEVICE" "I2C_DATA \<noteq> I2C_ADDRESS"
  by (simp_all add: i2c_regs)

lemma i2c_fire_regval:
  assumes "i2c_fire rv cm T tr = (T', tr')"
  shows "regval a tr' = (if a = I2C_BASE + I2C_CMD_STATUS then cm else regval a tr)"
  using assms unfolding i2c_fire_def Let_def by (auto split: prod.splits)

lemma i2c_fire_not_enabled:
  "i2c_fire rv I2C_CMD_READ T tr = (T', tr') \<Longrightarrow> \<not> enabled tr'"
  "i2c_fire rv I2C_CMD_WRITE T tr = (T', tr') \<Longrightarrow> \<not> enabled tr'"
  by (simp_all add: enabled_def i2c_fire_regval i2c_cmds)

lemma i2c_take_regval: "i2c_take rv tr = (d, tr') \<Longrightarrow> regval a tr' = regval a tr"
  by (auto simp: i2c_take_def REG_RD_def split: if_splits)

lemma I2CWrite_not_enabled: "\<not> enabled tr \<Longrightarrow> \<not> enabled (snd (I2CWrite rv Bus Device Address Data tr))"
  using i2c_fire_not_enabled(2) [of rv]
  unfolding I2CWrite_def Let_def by (auto simp: enabled_def split: prod.splits)

lemma I2CRead_not_enabled: "\<not> enabled tr \<Longrightarrow> \<not> enabled (snd (snd (I2CRead rv Bus Device Address tr)))"
  using i2c_fire_not_enabled(1) [of rv] i2c_take_regval [of rv]
  unfolding I2CRead_def Let_def by (auto simp: enabled_def split: prod.splits)

lemma i2c_block_not_enabled:
  "\<not> enabled tr \<Longrightarrow> \<not> enabled (snd (snd (i2c_block rv Len Address Timeout acc tr)))"
proof (induction Len arbitrary: Address Timeout acc tr)
  case (Suc Len)
  then show ?case
    using i2c_fire_not_enabled(1) [of rv] i2c_take_regval [of rv]
    by (auto simp: enabled_def split: prod.splits option.splits)
qed simp

lemma I2CReadBlock_not_enabled:
  "\<not> enabled tr \<Longrightarrow> \<not> enabled (snd (snd (I2CReadBlock rv Bus Device Address Len tr)))"
  unfolding I2CReadBlock_def
  by (auto split: prod.splits intro!: i2c_block_not_enabled) (auto simp: enabled_def)

lemma dvi_loop_not_enabled: "\<not> enabled tr \<Longrightarrow> \<not> enabled (dvi_loop rv encoder xs tr)"
  by (induction rv encoder xs tr rule: dvi_loop.induct) (simp_all add: I2CWrite_not_enabled)

text \<open>
  Claim C33. The I2C controller is never left enabled: whatever the hardware answers, and also
  when a transaction times out or is not acknowledged, every routine that uses the controller
  leaves it with the enable flag cleared.
\<close>

theorem i2c_never_left_enabled:
  assumes "\<not> enabled tr"
  shows "\<not> enabled (snd (I2CWrite rv Bus Device Address Data tr)) \<and>
    \<not> enabled (snd (snd (I2CRead rv Bus Device Address tr))) \<and>
    \<not> enabled (snd (snd (I2CReadBlock rv Bus Device Address Len tr))) \<and>
    \<not> enabled (dvi_setup rv encoder tr) \<and> \<not> enabled (handle_input rv Bus Device tr)"
proof -
  obtain r d tr1 where r: "I2CRead rv Bus Device 0 tr = (r, d, tr1)" by (metis prod.exhaust)
  then have "\<not> enabled tr1" using I2CRead_not_enabled [OF assms, of rv Bus Device 0] by simp
  then have "\<not> enabled (handle_input rv Bus Device tr)"
    using r by (cases d) (auto simp: handle_input_def Let_def intro!: I2CRead_not_enabled I2CReadBlock_not_enabled)
  then show ?thesis
    using assms by (simp add: dvi_setup_def I2CWrite_not_enabled I2CRead_not_enabled I2CReadBlock_not_enabled dvi_loop_not_enabled)
qed

theorem i2c_never_left_enabled_witness:
  "\<not> enabled (snd (I2CWrite (\<lambda>tr a. 0x100) 1 2 3 4 []))"
  using i2c_never_left_enabled [of "[]" "\<lambda>tr a. 0x100" 1 2 3 4] by (simp add: enabled_def)

section \<open>A transaction ends\<close>

text \<open>
  How far a transaction has come, from the accesses and what the status showed: the enable flag was
  written, a reading showed the controller busy with it, and, the flag being cleared, a later reading
  showed it ready again. Clearing the flag before the start was seen, writing an operand or another command
  takes the transaction back.
\<close>

datatype transfer = No_transfer | Enabled | Started | Finished

definition transfer_step :: "regs \<Rightarrow> reg list \<Rightarrow> reg \<Rightarrow> transfer \<Rightarrow> transfer" where
  "transfer_step rv tr e p = (case e of
     RegWr a v \<Rightarrow>
       if a \<noteq> I2C_BASE + I2C_CMD_STATUS then No_transfer
       else if v AND I2C_CMD_ENABLE \<noteq> 0 then Enabled
       else if p = Started then Started else No_transfer
   | RegRd a \<Rightarrow>
       if a \<noteq> I2C_BASE + I2C_CMD_STATUS then p
       else if p = Enabled \<and> i2c_busy rv tr then Started
       else if p = Started \<and> \<not> enabled tr \<and> \<not> i2c_busy rv tr then Finished
       else p)"

fun transfer_from :: "regs \<Rightarrow> reg list \<Rightarrow> reg list \<Rightarrow> transfer \<Rightarrow> transfer" where
  "transfer_from rv tr [] p = p"
| "transfer_from rv tr (e # es) p = transfer_from rv (tr @ [e]) es (transfer_step rv tr e p)"

definition transfer :: "regs \<Rightarrow> reg list \<Rightarrow> transfer" where
  "transfer rv tr = transfer_from rv [] tr No_transfer"

lemma transfer_snoc: "transfer rv (tr @ [e]) = transfer_step rv tr e (transfer rv tr)"
proof -
  have "transfer_from rv pre (es @ [e]) p = transfer_step rv (pre @ es) e (transfer_from rv pre es p)" for pre es p
    by (induction es arbitrary: pre p) simp_all
  then show ?thesis
    by (simp add: transfer_def)
qed

lemma transfer_poll:
  "transfer rv (tr @ [spoll]) =
     (if transfer rv tr = Enabled \<and> i2c_busy rv tr then Started
      else if transfer rv tr = Started \<and> \<not> enabled tr \<and> \<not> i2c_busy rv tr then Finished else transfer rv tr)"
  by (simp add: transfer_snoc transfer_step_def spoll_def)

lemma transfer_command:
  "transfer rv (REG_WR (I2C_BASE + I2C_CMD_STATUS) v tr) =
     (if v AND I2C_CMD_ENABLE \<noteq> 0 then Enabled else if transfer rv tr = Started then Started else No_transfer)"
  by (simp add: transfer_snoc transfer_step_def REG_WR_def)

text \<open>
  What the controller promises: once enabled it reports busy within \<open>n\<close> polls, once no longer
  enabled it is ready within \<open>n\<close> polls; a transaction that has finished was acknowledged, and if it was a
  read the data register then holds the byte of the addressed register.
\<close>

definition i2c_device :: "regs \<Rightarrow> (u8 \<Rightarrow> u8 \<Rightarrow> u8 \<Rightarrow> u8) \<Rightarrow> nat \<Rightarrow> bool" where
  "i2c_device rv m n \<longleftrightarrow>
     (\<forall>tr. enabled tr \<longrightarrow> (\<exists>k<n. i2c_busy rv (tr @ replicate k spoll))) \<and>
     (\<forall>tr. \<not> enabled tr \<longrightarrow> (\<exists>k<n. \<not> i2c_busy rv (tr @ replicate k spoll))) \<and>
     (\<forall>tr. transfer rv tr = Finished \<longrightarrow>
        i2c_status rv tr AND I2C_STATUS_NACK = 0 \<and>
        (regval (I2C_BASE + I2C_CMD_STATUS) tr = I2C_CMD_READ \<longrightarrow>
         rv tr (I2C_BASE + I2C_DATA) =
           ucast (m (ucast (regval (I2C_BASE + I2C_BUS) tr)) (ucast (regval (I2C_BASE + I2C_DEVICE) tr))
                    (ucast (regval (I2C_BASE + I2C_ADDRESS) tr)))))"

lemma enabled_polls [simp]: "enabled (tr @ replicate k spoll) = enabled tr" "enabled (tr @ [spoll]) = enabled tr"
  by (simp_all add: enabled_def)

lemma i2c_wait_ends:
  "k < T \<Longrightarrow> i2c_busy rv (tr @ replicate k spoll) \<noteq> b \<Longrightarrow>
   \<exists>j. j \<le> k \<and> i2c_wait rv b T tr = (T - j, tr @ replicate j spoll @ [spoll]) \<and>
     i2c_busy rv (tr @ replicate j spoll) \<noteq> b"
proof (induction k arbitrary: T tr)
  case 0
  then obtain T' where "T = Suc T'" by (cases T) auto
  with 0 show ?case by (auto simp: spoll_def Let_def)
next
  case (Suc k)
  then obtain T' where T': "T = Suc T'" "k < T'" by (cases T) auto
  show ?case
  proof (cases "i2c_busy rv tr = b")
    case False
    then show ?thesis using T'(1) by (intro exI [of _ 0]) (simp add: spoll_def Let_def)
  next
    case True
    have "i2c_busy rv ((tr @ [spoll]) @ replicate k spoll) \<noteq> b" using Suc.prems(2) by simp
    from Suc.IH [OF T'(2) this] obtain j where j: "j \<le> k"
      "i2c_wait rv b T' (tr @ [spoll]) = (T' - j, (tr @ [spoll]) @ replicate j spoll @ [spoll])"
      "i2c_busy rv ((tr @ [spoll]) @ replicate j spoll) \<noteq> b" by blast
    have "i2c_wait rv b T tr = i2c_wait rv b T' (tr @ [spoll])"
      using True T'(1) by (simp add: spoll_def Let_def)
    then show ?thesis using j T'(1) by (intro exI [of _ "Suc j"]) simp
  qed
qed

lemma i2c_wait_ready:
  assumes "i2c_device rv m n" and "\<not> enabled tr" and "n \<le> T"
  shows "\<exists>T' j. i2c_wait rv True T tr = (T', tr @ replicate j spoll @ [spoll]) \<and> T < T' + n \<and> 0 < T' \<and>
    \<not> i2c_busy rv (tr @ replicate j spoll)"
proof -
  obtain k where k: "k < n" "\<not> i2c_busy rv (tr @ replicate k spoll)"
    using assms(1,2) unfolding i2c_device_def by blast
  then obtain j where j: "j \<le> k" "i2c_wait rv True T tr = (T - j, tr @ replicate j spoll @ [spoll])"
    "\<not> i2c_busy rv (tr @ replicate j spoll)"
    using i2c_wait_ends [of k T rv tr True] assms(3) by auto
  have "T < T - j + n" "0 < T - j" using j(1) k(1) assms(3) by simp_all
  then show ?thesis using j(2,3) by blast
qed

lemma i2c_wait_start:
  assumes "i2c_device rv m n" and "enabled tr" and "n \<le> T"
  shows "\<exists>T' j. i2c_wait rv False T tr = (T', tr @ replicate j spoll @ [spoll]) \<and> T < T' + n \<and> 0 < T' \<and>
    i2c_busy rv (tr @ replicate j spoll)"
proof -
  obtain k where k: "k < n" "i2c_busy rv (tr @ replicate k spoll)"
    using assms(1,2) unfolding i2c_device_def by blast
  then obtain j where j: "j \<le> k" "i2c_wait rv False T tr = (T - j, tr @ replicate j spoll @ [spoll])"
    "i2c_busy rv (tr @ replicate j spoll)"
    using i2c_wait_ends [of k T rv tr False] assms(3) by auto
  have "T < T - j + n" "0 < T - j" using j(1) k(1) assms(3) by simp_all
  then show ?thesis using j(2,3) by blast
qed

text \<open>The two waits of a transaction take it through its stages.\<close>

lemma transfer_starts:
  assumes "transfer rv tr = Enabled" "enabled tr" "i2c_busy rv (tr @ replicate j spoll)"
  shows "transfer rv (tr @ replicate j spoll @ [spoll]) = Started"
proof -
  have "transfer rv (tr @ replicate k spoll) \<in> {Enabled, Started}" for k
  proof (induction k)
    case (Suc k)
    then show ?case
      using assms(2) transfer_poll [of rv "tr @ replicate k spoll"] by (auto simp: replicate_append_same [symmetric])
  qed (simp add: assms(1))
  then show ?thesis
    using assms(2,3) transfer_poll [of rv "tr @ replicate j spoll"] by fastforce
qed

lemma transfer_finishes:
  assumes "transfer rv tr = Started" "\<not> enabled tr" "\<not> i2c_busy rv (tr @ replicate j spoll)"
  shows "transfer rv (tr @ replicate j spoll @ [spoll]) = Finished"
proof -
  have "transfer rv (tr @ replicate k spoll) \<in> {Started, Finished}" for k
  proof (induction k)
    case (Suc k)
    then show ?case
      using transfer_poll [of rv "tr @ replicate k spoll"] by (auto simp: replicate_append_same [symmetric])
  qed (simp add: assms(1))
  then show ?thesis
    using assms(2,3) transfer_poll [of rv "tr @ replicate j spoll"] by fastforce
qed

text \<open>The writes of a trace.\<close>

definition writes :: "reg list \<Rightarrow> reg list" where
  "writes tr = filter (\<lambda>r. case r of RegRd _ \<Rightarrow> False | RegWr _ _ \<Rightarrow> True) tr"

lemma writes_simps [simp]:
  "writes [] = []" "writes (tr @ tr') = writes tr @ writes tr'" "writes (replicate k spoll) = []"
  "writes (spoll # tr) = writes tr" "writes (RegWr a v # tr) = RegWr a v # writes tr" "writes (RegRd a # tr) = writes tr"
  "writes (REG_WR a v tr) = writes tr @ [RegWr a v]"
  by (simp_all add: writes_def spoll_def REG_WR_def)

definition fired :: "u32 \<Rightarrow> reg list" where
  "fired cm = [RegWr (I2C_BASE + I2C_CMD_STATUS) cm, RegWr (I2C_BASE + I2C_CMD_STATUS) (cm OR I2C_CMD_ENABLE),
     RegWr (I2C_BASE + I2C_CMD_STATUS) cm]"

lemma i2c_fire_ends:
  assumes "i2c_device rv m n" and "cm = I2C_CMD_READ \<or> cm = I2C_CMD_WRITE" and "2 * n \<le> T"
  shows "\<exists>T' tr'. i2c_fire rv cm T tr = (T', tr') \<and> T < T' + 2 * n \<and> 0 < T' \<and>
    \<not> enabled tr' \<and> transfer rv tr' = Finished \<and> writes tr' = writes tr @ fired cm \<and>
    (\<forall>a. regval a tr' = (if a = I2C_BASE + I2C_CMD_STATUS then cm else regval a tr))"
proof -
  let ?tr1 = "REG_WR (I2C_BASE + I2C_CMD_STATUS) (cm OR I2C_CMD_ENABLE) (REG_WR (I2C_BASE + I2C_CMD_STATUS) cm tr)"
  have on: "enabled ?tr1" using assms(2) by (auto simp: enabled_def i2c_cmds)
  from i2c_wait_start [OF assms(1) this, of T] assms(3) obtain T1 j where
    w1: "i2c_wait rv False T ?tr1 = (T1, ?tr1 @ replicate j spoll @ [spoll])" "T < T1 + n"
      "i2c_busy rv (?tr1 @ replicate j spoll)" by auto
  have "transfer rv ?tr1 = Enabled" using assms(2) by (auto simp: transfer_command i2c_cmds)
  then have started: "transfer rv (?tr1 @ replicate j spoll @ [spoll]) = Started"
    using on w1(3) by (rule transfer_starts)
  let ?tr2 = "REG_WR (I2C_BASE + I2C_CMD_STATUS) cm (?tr1 @ replicate j spoll @ [spoll])"
  have off: "\<not> enabled ?tr2" using assms(2) by (auto simp: enabled_def i2c_cmds)
  moreover have "n \<le> T1" using w1(2) assms(3) by simp
  ultimately obtain T2 k where w2: "i2c_wait rv True T1 ?tr2 = (T2, ?tr2 @ replicate k spoll @ [spoll])"
    "T1 < T2 + n" "0 < T2" "\<not> i2c_busy rv (?tr2 @ replicate k spoll)"
    using i2c_wait_ready [OF assms(1), of ?tr2 T1] by blast
  let ?tr3 = "?tr2 @ replicate k spoll @ [spoll]"
  have "transfer rv ?tr2 = Started"
    unfolding transfer_command using assms(2) started by (auto simp: i2c_cmds)
  then have "transfer rv ?tr3 = Finished"
    using off w2(4) by (rule transfer_finishes)
  moreover have "regval a ?tr3 = (if a = I2C_BASE + I2C_CMD_STATUS then cm else regval a tr)" for a
    by simp
  moreover from this have "\<not> enabled ?tr3" using assms(2) by (auto simp: enabled_def i2c_cmds)
  moreover have "i2c_fire rv cm T tr = (T2, ?tr3)"
    using w1(1) w2(1) by (simp add: i2c_fire_def Let_def)
  moreover have "writes ?tr3 = writes tr @ fired cm" by (simp add: fired_def)
  moreover have "T < T2 + 2 * n" using w1(2) w2(2) by simp
  ultimately show ?thesis using w2(3) by blast
qed

text \<open>
  An I2C write completes: with a controller that is never slow for \<open>250000\<close> polls the
  routine returns success, and what it has written to the registers is the four operands and
  one enabled command, in this order.
\<close>

theorem I2CWrite_completes:
  assumes "i2c_device rv m n" and "\<not> enabled tr" and "4 * n \<le> 1000000"
  shows "\<exists>tr'. I2CWrite rv Bus Device Address Data tr = (RESULT_OK, tr') \<and>
    writes tr' = writes tr @ [RegWr (I2C_BASE + I2C_BUS) (ucast Bus), RegWr (I2C_BASE + I2C_DEVICE) (ucast Device),
      RegWr (I2C_BASE + I2C_ADDRESS) (ucast Address), RegWr (I2C_BASE + I2C_DATA) (ucast Data)] @ fired I2C_CMD_WRITE"
proof -
  have n: "n \<le> I2C_TIMEOUT" "4 * n \<le> I2C_TIMEOUT" using assms(3) by (simp_all add: I2C_TIMEOUT_def)
  obtain T0 j where w0: "i2c_wait rv True I2C_TIMEOUT tr = (T0, tr @ replicate j spoll @ [spoll])"
    "I2C_TIMEOUT < T0 + n" "0 < T0" using i2c_wait_ready [OF assms(1,2) n(1)] by blast
  define tr1 where "tr1 = REG_WR (I2C_BASE + I2C_DATA) (ucast Data) (REG_WR (I2C_BASE + I2C_ADDRESS) (ucast Address)
    (REG_WR (I2C_BASE + I2C_DEVICE) (ucast Device) (REG_WR (I2C_BASE + I2C_BUS) (ucast Bus) (tr @ replicate j spoll @ [spoll]))))"
  have e1: "\<not> enabled tr1" using assms(2) by (simp add: tr1_def enabled_def)
  have "n \<le> T0" using w0(2) n by simp
  then obtain T1 k where w1: "i2c_wait rv True T0 tr1 = (T1, tr1 @ replicate k spoll @ [spoll])"
    "T0 < T1 + n" "0 < T1" using i2c_wait_ready [OF assms(1) e1] by blast
  have "2 * n \<le> T1" using w0(2) w1(2) n by simp
  then obtain T2 tr2 where w2: "i2c_fire rv I2C_CMD_WRITE T1 (tr1 @ replicate k spoll @ [spoll]) = (T2, tr2)" "0 < T2"
    "writes tr2 = writes (tr1 @ replicate k spoll @ [spoll]) @ fired I2C_CMD_WRITE"
    using i2c_fire_ends [OF assms(1), of I2C_CMD_WRITE T1] by blast
  have "I2CWrite rv Bus Device Address Data tr = (RESULT_OK, tr2)"
    using w0(1,3) w1(1,3) w2(1,2) unfolding I2CWrite_def by (simp add: Let_def flip: tr1_def)
  then show ?thesis using w2(3) by (simp add: tr1_def)
qed

text \<open>A controller that needs no time at all.\<close>

definition quick_i2c :: "(u8 \<Rightarrow> u8 \<Rightarrow> u8 \<Rightarrow> u8) \<Rightarrow> regs" where
  "quick_i2c m tr a =
     (if a = I2C_BASE + I2C_CMD_STATUS then (if enabled tr then I2C_STATUS_BUSY else 0)
      else ucast (m (ucast (regval (I2C_BASE + I2C_BUS) tr)) (ucast (regval (I2C_BASE + I2C_DEVICE) tr))
                    (ucast (regval (I2C_BASE + I2C_ADDRESS) tr))))"

lemma quick_i2c_device: "i2c_device (quick_i2c m) m 1"
proof -
  have b: "i2c_busy (quick_i2c m) tr = enabled tr" for tr
    by (simp add: i2c_busy_def i2c_status_def quick_i2c_def I2C_STATUS_BUSY_def)
  have "\<not> enabled tr" if "transfer (quick_i2c m) tr = Finished" for tr
    using that
  proof (induction tr rule: rev_induct)
    case (snoc e tr)
    have "enabled (tr @ [RegRd a]) = enabled tr" for a
      by (simp add: enabled_def)
    then show ?case
      using snoc by (auto simp: transfer_snoc transfer_step_def split: reg.splits if_splits)
  qed (simp add: enabled_def)
  moreover have "i2c_status (quick_i2c m) tr AND I2C_STATUS_NACK = 0" if "\<not> enabled tr" for tr
    using that by (simp add: i2c_status_def quick_i2c_def)
  moreover have "quick_i2c m tr (I2C_BASE + I2C_DATA) =
      ucast (m (ucast (regval (I2C_BASE + I2C_BUS) tr)) (ucast (regval (I2C_BASE + I2C_DEVICE) tr))
        (ucast (regval (I2C_BASE + I2C_ADDRESS) tr)))" for tr
    by (simp add: quick_i2c_def i2c_regs)
  ultimately show ?thesis
    by (simp add: i2c_device_def b)
qed

theorem I2CWrite_completes_witness:
  "\<exists>tr'. I2CWrite (quick_i2c (\<lambda>_ _ _. 0)) 1 0x75 0x1C 7 [] = (RESULT_OK, tr') \<and> length (writes tr') = 7"
proof -
  have "\<not> enabled []" "4 * 1 \<le> (1000000 :: nat)" by (simp_all add: enabled_def)
  from I2CWrite_completes [OF quick_i2c_device [of "\<lambda>_ _ _. 0"] this,
    where Bus = 1 and Device = "0x75" and Address = "0x1C" and Data = 7]
  show ?thesis by (auto simp: fired_def)
qed

section \<open>Reading a block\<close>

lemma i2c_take_device:
  assumes "i2c_device rv m n" and "transfer rv tr = Finished"
    and "regval (I2C_BASE + I2C_CMD_STATUS) tr = I2C_CMD_READ"
  shows "i2c_take rv tr = (Some (m (ucast (regval (I2C_BASE + I2C_BUS) tr))
      (ucast (regval (I2C_BASE + I2C_DEVICE) tr)) (ucast (regval (I2C_BASE + I2C_ADDRESS) tr))),
    tr @ [spoll, RegRd (I2C_BASE + I2C_DATA)])"
proof -
  have "regval a (tr @ [spoll]) = regval a tr" for a
    by (simp add: spoll_def)
  moreover have "transfer rv (tr @ [spoll]) = Finished"
    using assms(2) by (simp add: transfer_poll)
  moreover have "i2c_status rv tr AND I2C_STATUS_NACK = 0"
    using assms(1,2) by (simp add: i2c_device_def)
  ultimately show ?thesis
    using assms(1,3) by (simp add: i2c_device_def i2c_take_def REG_RD_def i2c_status_def flip: spoll_def)
qed

lemma i2c_block_reads:
  assumes "i2c_device rv m n"
  shows "\<not> enabled tr \<Longrightarrow> 3 * n * Len \<le> T \<Longrightarrow>
    \<exists>tr'. i2c_block rv Len Address T acc tr =
      (RESULT_OK, acc @ map (\<lambda>i. m (ucast (regval (I2C_BASE + I2C_BUS) tr)) (ucast (regval (I2C_BASE + I2C_DEVICE) tr))
         (Address + of_nat i)) [0 ..< Len], tr')"
proof (induction Len arbitrary: Address T acc tr)
  case 0
  then show ?case by simp
next
  case (Suc Len)
  let ?b = "ucast (regval (I2C_BASE + I2C_BUS) tr) :: u8"
  let ?d = "ucast (regval (I2C_BASE + I2C_DEVICE) tr) :: u8"
  have T: "3 * n \<le> T" "3 * n * Len + 3 * n \<le> T" using Suc.prems(2) by (simp_all add: algebra_simps)
  let ?tr0 = "REG_WR (I2C_BASE + I2C_ADDRESS) (ucast Address) tr"
  have "\<not> enabled ?tr0" using Suc.prems(1) by (simp add: enabled_def)
  moreover have "n \<le> T" using T(1) by simp
  ultimately obtain T1 k where w1: "i2c_wait rv True T ?tr0 = (T1, ?tr0 @ replicate k spoll @ [spoll])"
    "T < T1 + n" "0 < T1" using i2c_wait_ready [OF assms] by blast
  have "2 * n \<le> T1" using w1(2) T(1) by simp
  then obtain T2 tr2 where w2: "i2c_fire rv I2C_CMD_READ T1 (?tr0 @ replicate k spoll @ [spoll]) = (T2, tr2)"
    "T1 < T2 + 2 * n" "0 < T2" "\<not> enabled tr2" "transfer rv tr2 = Finished"
    "\<forall>a. regval a tr2 = (if a = I2C_BASE + I2C_CMD_STATUS then I2C_CMD_READ
       else regval a (?tr0 @ replicate k spoll @ [spoll]))"
    using i2c_fire_ends [OF assms, of I2C_CMD_READ T1] by blast
  have r: "regval (I2C_BASE + I2C_CMD_STATUS) tr2 = I2C_CMD_READ"
    "regval (I2C_BASE + I2C_BUS) tr2 = regval (I2C_BASE + I2C_BUS) tr"
    "regval (I2C_BASE + I2C_DEVICE) tr2 = regval (I2C_BASE + I2C_DEVICE) tr"
    "regval (I2C_BASE + I2C_ADDRESS) tr2 = ucast Address"
    using w2(6) i2c_regs_distinct by (simp_all add: i2c_regs_distinct [symmetric])
  define tr3 where "tr3 = tr2 @ [spoll, RegRd (I2C_BASE + I2C_DATA)]"
  have t: "i2c_take rv tr2 = (Some (m ?b ?d Address), tr3)"
    using i2c_take_device [OF assms w2(5) r(1)] r by (simp add: tr3_def)
  have rv3: "regval a tr3 = regval a tr2" for a
  proof -
    have "tr3 = tr2 @ [RegRd (I2C_BASE + I2C_CMD_STATUS), RegRd (I2C_BASE + I2C_DATA)]"
      by (simp add: tr3_def spoll_def)
    then show ?thesis by (simp only: regval_simps)
  qed
  have "\<not> enabled tr3" using w2(4) by (simp add: enabled_def rv3)
  moreover have "3 * n * Len \<le> T2" using w1(2) w2(2) T(2) by simp
  ultimately obtain tr' where "i2c_block rv Len (Address + 1) T2 (acc @ [m ?b ?d Address]) tr3 =
      (RESULT_OK, (acc @ [m ?b ?d Address]) @ map (\<lambda>i. m ?b ?d (Address + 1 + of_nat i)) [0 ..< Len], tr')"
    using Suc.IH [of tr3 T2 "Address + 1" "acc @ [m ?b ?d Address]"] r rv3 by auto
  moreover have "m ?b ?d Address # map (\<lambda>i. m ?b ?d (Address + 1 + of_nat i)) [0 ..< Len] =
      map (\<lambda>i. m ?b ?d (Address + of_nat i)) [0 ..< Suc Len]"
    by (simp add: upt_conv_Cons map_Suc_upt [symmetric] add.assoc del: upt_Suc)
  ultimately show ?case using w1 w2(1,3) t by (simp del: upt_Suc)
qed



end
