(* ===== verification/Shell_Session.thy ===== *)
theory Shell_Session
  imports Board Vt100_Streams
begin

text \<open>
  The two telnet servers of \<open>main.c\<close>: the shell, whose input is edited into a line for the command
  parser, and the terminal, whose input goes to the VT100 emulation. lwIP's callbacks hand over
  one packet at a time (the payload of its first buffer), or nothing when the peer has closed.
\<close>

section \<open>The shell's connection\<close>

text \<open>
  The board with what the shell's callbacks keep: the line typed so far in \<open>gRxBuf\<close> and its
  length, whether a complete line or the welcome message is due. \<open>gShellCon\<close> says whether a
  client is connected.
\<close>

record session = board +
  gRxBuf :: "u8 list"
  gRxCount :: nat
  gInputReady :: bool
  gSendWelcome :: bool

definition RX_BUF_LEN :: nat where "RX_BUF_LEN = 80"

definition echo :: "cstr \<Rightarrow> session \<Rightarrow> session" where
  "echo t s = s\<lparr>out := out s @ [Puts t]\<rparr>"

text \<open>
  \<open>ShellInit\<close> and \<open>TermInit\<close>: \<open>newpcb\<close> is whether lwIP has a free control block, \<open>bind_err\<close> the
  result of binding the port. The result is the port listened on.
\<close>

definition listen :: "nat \<Rightarrow> bool \<Rightarrow> int \<Rightarrow> nat option" where
  "listen port newpcb bind_err = (if newpcb \<and> bind_err = 0 then Some port else None)"

definition ShellInit :: "bool \<Rightarrow> int \<Rightarrow> nat option" where "ShellInit = listen 23"
definition TermInit :: "bool \<Rightarrow> int \<Rightarrow> nat option" where "TermInit = listen 10023"

text \<open>
  \<open>ShellAccept\<close>; \<open>newpcb\<close> is the address of the peer. The counters of the output buffer, which
  it also resets, are those of another theory.
\<close>

definition ShellAccept :: "u32 option \<Rightarrow> int \<Rightarrow> session \<Rightarrow> int \<times> session" where
  "ShellAccept newpcb err s =
     (case newpcb of
        Some remote_ip \<Rightarrow>
          if err = 0
          then (0, s\<lparr>gShellCon := True, gInputReady := False, gSendWelcome := True, gRxCount := 0,
                     gTftp := (if ServerIP (gTftp s) = 0 then (gTftp s)\<lparr>ServerIP := remote_ip\<rparr> else gTftp s)\<rparr>)
          else (-6, s)
      | None \<Rightarrow> (-6, s))"

text \<open>
  The loop of \<open>ShellRecv\<close>: \<open>i\<close> counts the bytes, \<open>c\<close> is the offset of \<open>cp\<close>. The code that handles
  a backspace or the end of a line does not advance \<open>cp\<close>.
\<close>

definition rubout :: "session \<Rightarrow> session" where
  "rubout s = (if gRxCount s > 0 then echo [8, 32, 8] (s\<lparr>gRxCount := gRxCount s - 1\<rparr>) else echo [7] s)"

function recv_loop :: "u8 list \<Rightarrow> nat \<Rightarrow> nat \<Rightarrow> session \<Rightarrow> session res" where
  "recv_loop payload i c s =
     (if i < length payload \<and> \<not> gInputReady s then
        (if length payload \<le> c then Inl OutOfBounds
         else if payload ! c = 0xff then recv_loop payload (i + 3) (c + 3) s
         else if payload ! c = 8 \<or> payload ! c = 127 then recv_loop payload (i + 1) c (rubout s)
         else if length (gRxBuf s) \<le> gRxCount s then Inl OutOfBounds
         else if payload ! c = 13
         then recv_loop payload (i + 1) c (s\<lparr>gInputReady := True, gRxBuf := (gRxBuf s)[gRxCount s := 0]\<rparr>)
         else recv_loop payload (i + 1) (c + 1)
                (s\<lparr>gRxBuf := (gRxBuf s)[gRxCount s := payload ! c],
                   gRxCount := (if gRxCount s < RX_BUF_LEN - 1 then gRxCount s + 1 else gRxCount s)\<rparr>))
      else Inr s)"
  by pat_completeness auto

termination
  by (relation "measure (\<lambda>(payload, i, c, s). length payload - i)") auto

declare recv_loop.simps [simp del]

definition ShellRecv :: "u8 list option \<Rightarrow> session \<Rightarrow> session res" where
  "ShellRecv p s =
     (case p of None \<Rightarrow> Inr (s\<lparr>gShellCon := False\<rparr>) | Some payload \<Rightarrow> recv_loop payload 0 0 s)"

section \<open>The terminal's connection\<close>

text \<open>\<open>TermAccept\<close> on whether a client is connected, and the loop of \<open>TermRecv\<close>.\<close>

definition TermAccept :: "bool \<Rightarrow> int \<Rightarrow> bool \<Rightarrow> int \<times> bool" where
  "TermAccept newpcb err gTermCon = (if err = 0 \<and> newpcb then (0, True) else (-6, gTermCon))"

function term_loop :: "u8 list \<Rightarrow> nat \<Rightarrow> nat \<Rightarrow> console \<Rightarrow> console res" where
  "term_loop payload i c s =
     (if i < length payload then
        (if length payload \<le> c then Inl OutOfBounds
         else if payload ! c = 0xff then term_loop payload (i + 3) (c + 3) s
         else rbind (vt100_buffer (payload ! c) s) (term_loop payload (i + 1) (c + 1)))
      else Inr s)"
  by pat_completeness auto

termination
  by (relation "measure (\<lambda>(payload, i, c, s). length payload - i)") auto

declare term_loop.simps [simp del]

definition TermRecv :: "u8 list option \<Rightarrow> bool \<times> console \<Rightarrow> (bool \<times> console) res" where
  "TermRecv p = (\<lambda>(gTermCon, s).
     case p of None \<Rightarrow> Inr (False, s)
             | Some payload \<Rightarrow> rbind (term_loop payload 0 0 s) (\<lambda>s1. Inr (gTermCon, s1)))"

section \<open>Telnet commands\<close>

text \<open>
  A telnet command is an \<open>0xff\<close> and the two bytes behind it. \<open>strip\<close> takes the commands out of a stream of
  bytes, whatever packets it travels in; \<open>whole\<close> says that no command is cut off at the end.
\<close>

fun strip :: "u8 list \<Rightarrow> u8 list" where
  "strip [] = []"
| "strip (b # bs) = (if b = 0xff then (case bs of x # y # r \<Rightarrow> strip r | _ \<Rightarrow> []) else b # strip bs)"

lemma strip_append_plain: "0xff \<notin> set xs \<Longrightarrow> strip (xs @ ys) = xs @ strip ys"
  by (induction xs) auto

lemma strip_command: "strip (0xff # bs) = strip (drop 2 bs)"
  by (cases bs; cases "tl bs") auto

lemma term_loop_strips:
  "term_loop payload i i s = run_list vt100_buffer (strip (drop i payload)) s"
proof (induction "length payload - i" arbitrary: i s rule: less_induct)
  case less
  show ?case
  proof (cases "i < length payload")
    case False
    then show ?thesis by (simp add: term_loop.simps)
  next
    case True
    then have d: "drop i payload = payload ! i # drop (i + 1) payload" by (simp add: Cons_nth_drop_Suc)
    show ?thesis
    proof (cases "payload ! i = 0xff")
      case ff: True
      have "drop 2 (drop (i + 1) payload) = drop (i + 3) payload" by (simp add: eval_nat_numeral)
      then have "strip (drop i payload) = strip (drop (i + 3) payload)" using d ff strip_command by metis
      then show ?thesis using less [of "i + 3"] True ff by (subst term_loop.simps) simp
    next
      case False
      then have "strip (drop i payload) = payload ! i # strip (drop (i + 1) payload)" using d by simp
      then show ?thesis using less [of "i + 1"] True False
        by (subst term_loop.simps) (auto intro!: rbind_cong)
    qed
  qed
qed

fun whole :: "u8 list \<Rightarrow> bool" where
  "whole [] = True"
| "whole (b # bs) = (if b = 0xff then (case bs of x # y # r \<Rightarrow> whole r | _ \<Rightarrow> False) else whole bs)"

lemma strip_append: "whole p \<Longrightarrow> strip (p @ q) = strip p @ strip q"
proof (induction p rule: whole.induct)
  case (2 b bs)
  show ?case
  proof (cases "b = 0xff")
    case True
    then obtain x y r where "bs = x # y # r"
      using 2 by (cases bs; cases "tl bs") auto
    then show ?thesis using 2 True by simp
  qed (use 2 in simp)
qed simp

lemma strip_concat: "list_all whole ps \<Longrightarrow> concat (map strip ps) = strip (concat ps)"
  by (induction ps) (simp_all add: strip_append)

lemma TermRecv_run:
  "run_list (\<lambda>p. TermRecv (Some p)) ps (c, s) =
     rbind (run_list vt100_buffer (concat (map strip ps)) s) (\<lambda>s1. Inr (c, s1))"
proof (induction ps arbitrary: s)
  case (Cons p ps)
  then show ?case
    using term_loop_strips [of p 0 s]
    by (simp add: TermRecv_def run_list_append rbind_assoc)
qed simp

text \<open>
  Claim C23. Terminal input end to end: the client's bytes may be cut into packets anywhere but inside a
  telnet command; after the flush the terminals and the video memory are as if the stream, without its
  telnet commands, had been sent to the terminal byte by byte.
\<close>

theorem TermRecv_streams:
  assumes "stream_ok s" and "list_all whole ps" and "run_list vt100_putc (buffered s @ strip (concat ps)) s = Inr s3"
  shows "\<exists>s1 s2. run_list (\<lambda>p. TermRecv (Some p)) ps (c, s) = Inr (c, s1) \<and> vt100_flush s1 = Inr s2 \<and>
    tm s2 = tm s3 \<and> vram s2 = vram s3"
proof -
  from buffer_run [OF assms(1,3)] obtain s1 B k where
    1: "run_list vt100_buffer (strip (concat ps)) s = Inr s1" "stream_ok s1"
      "run_list vt100_putc (buffered s1) s1 = Inr (with_stream B k s3)" by blast
  from flush_run [OF 1(2,3)] 1(1) show ?thesis
    unfolding TermRecv_run strip_concat [OF assms(2)] by auto
qed

theorem TermRecv_streams_witness:
  "\<exists>s1 s2 s3. run_list (\<lambda>p. TermRecv (Some p)) [[72, 0xff, 0xfd, 3], [105], [0xff, 0xfb, 1]] (True, booted) = Inr (True, s1) \<and>
     vt100_flush s1 = Inr s2 \<and> run_list vt100_putc [72, 105] booted = Inr s3 \<and> vram s2 = vram s3"
proof -
  let ?ps = "[[72, 0xff, 0xfd, 3], [105], [0xff, 0xfb, 1 :: u8]]"
  have s: "stream_ok booted" "buffered booted = []"
    by (simp_all add: stream_ok_def buffered_def booted_def vt100_init_def vt100_reset_def bss_console_def Let_def)
  have "guarded tty_ok vt100_putc [72, 105] booted" by (rule guarded_text) simp
  from teletype.run_refines [OF booted_tty this] obtain s3 where
    r: "run_list vt100_putc [72, 105] booted = Inr s3" by auto
  then have "run_list vt100_putc (buffered booted @ strip (concat ?ps)) booted = Inr s3"
    using s(2) by simp
  moreover have "list_all whole ?ps" by simp
  ultimately show ?thesis using TermRecv_streams [OF s(1), of ?ps s3 True] r by auto
qed

text \<open>
  A command cut into two packets: the loop starts every packet outside a command, and the two bytes
  behind the \<open>0xff\<close> go to the terminal.
\<close>

theorem split_command_leaks:
  "run_list (\<lambda>p. TermRecv (Some p)) [[0xff], [0xfd, 3]] (c, s) =
     rbind (run_list vt100_buffer [0xfd, 3] s) (\<lambda>s1. Inr (c, s1))"
  by (subst TermRecv_run) simp

section \<open>Typing a line\<close>

definition quiet_session :: session where
  "quiet_session = \<lparr>gChip = None, spi_tr = [], gTemp = replicate 1024 0,
     gTftp = \<lparr>ServerIP = 0, Filename = [], ErrMsg = replicate 33 0, BytesTransfered = 0, MaxBytes = 0, SendLen = 0,
       TransferType = None, FlashAdr = 0, LastEraseAdr = 0, LastProgress = 0, Error = TFTP_OK, bAutoErase = True\<rparr>,
     gBoardID = 0, gEtherMac = replicate 6 0, gPanoSerial = [], BytesOnLine = 0, gShellCon = True, reboots = [], out = [],
     gRxBuf = replicate 80 0, gRxCount = 0, gInputReady = False, gSendWelcome = False\<rparr>"

definition line_ok :: "session \<Rightarrow> bool" where
  "line_ok s \<longleftrightarrow> length (gRxBuf s) = RX_BUF_LEN \<and> gRxCount s < RX_BUF_LEN"

lemma echo_sel [simp]:
  "gRxBuf (echo t s) = gRxBuf s" "gRxCount (echo t s) = gRxCount s" "gInputReady (echo t s) = gInputReady s"
  by (simp_all add: echo_def)

lemma rubout_sel [simp]:
  "gRxBuf (rubout s) = gRxBuf s" "gRxCount (rubout s) = gRxCount s - 1" "gInputReady (rubout s) = gInputReady s"
  by (simp_all add: rubout_def)

lemma rubout_ok: "line_ok s \<Longrightarrow> line_ok (rubout s)"
  by (auto simp: line_ok_def)

lemma recv_loop_ok:
  "c \<le> i \<Longrightarrow> line_ok s \<Longrightarrow> \<exists>s'. recv_loop payload i c s = Inr s' \<and> line_ok s'"
proof (induction payload i c s rule: recv_loop.induct)
  case (1 payload i c s)
  show ?case
  proof (cases "i < length payload \<and> \<not> gInputReady s")
    case False
    then show ?thesis using 1 by (subst recv_loop.simps) auto
  next
    case True
    then have n: "\<not> length payload \<le> c" "\<not> length (gRxBuf s) \<le> gRxCount s" using 1 by (auto simp: line_ok_def)
    note IH = "1.IH" [OF True n(1)]
    consider "payload ! c = 0xff" | "payload ! c \<noteq> 0xff" "payload ! c = 8 \<or> payload ! c = 127"
      | "payload ! c \<noteq> 0xff" "\<not> (payload ! c = 8 \<or> payload ! c = 127)" "payload ! c = 13"
      | "payload ! c \<noteq> 0xff" "\<not> (payload ! c = 8 \<or> payload ! c = 127)" "payload ! c \<noteq> 13" by blast
    then show ?thesis
    proof cases
      case 1
      then show ?thesis using IH(1) "1.prems" True n by (subst recv_loop.simps) simp
    next
      case 2
      then show ?thesis using IH(2) "1.prems" True n by (subst recv_loop.simps) (simp add: rubout_ok)
    next
      case 3
      then show ?thesis using IH(3) n "1.prems" True by (subst recv_loop.simps) (simp add: line_ok_def)
    next
      case 4
      then show ?thesis using IH(4) n "1.prems" True
        by (subst recv_loop.simps) (simp add: line_ok_def RX_BUF_LEN_def)
    qed
  qed
qed

text \<open>
  Claim C35. The shell's input routine is safe: whatever a packet holds, \<open>ShellRecv\<close> reads only
  inside the packet and writes only inside the line buffer, and the length of the line stays
  below the size of the buffer.
\<close>

theorem ShellRecv_safe:
  assumes "line_ok s"
  shows "\<exists>s'. ShellRecv p s = Inr s' \<and> line_ok s'"
  using recv_loop_ok [of 0 0 s] assms
  by (cases p) (auto simp: ShellRecv_def line_ok_def)

theorem ShellRecv_safe_witness:
  "\<exists>s'. ShellRecv (Some [100, 0xff]) quiet_session = Inr s' \<and> line_ok s'"
  by (rule ShellRecv_safe) (simp add: line_ok_def quiet_session_def RX_BUF_LEN_def)

text \<open>The line editor as the user sees it.\<close>

definition line_key :: "u8 \<Rightarrow> u8 list \<Rightarrow> u8 list" where
  "line_key b l = (if b = 8 \<or> b = 127 then butlast l else if length l < RX_BUF_LEN - 1 then l @ [b] else l)"

definition line_of :: "session \<Rightarrow> u8 list" where
  "line_of s = take (gRxCount s) (gRxBuf s)"

lemma ShellRecv_key:
  assumes "line_ok s" and "\<not> gInputReady s" and "b \<noteq> 0xff" and "b \<noteq> 13"
  shows "\<exists>s'. ShellRecv (Some [b]) s = Inr s' \<and> line_ok s' \<and> \<not> gInputReady s' \<and> line_of s' = line_key b (line_of s)"
proof -
  have l: "length (gRxBuf s) = 80" "gRxCount s < 80" using assms(1) by (simp_all add: line_ok_def RX_BUF_LEN_def)
  show ?thesis
  proof (cases "b = 8 \<or> b = 127")
    case True
    then have "ShellRecv (Some [b]) s = Inr (rubout s)"
      using assms by (auto simp: ShellRecv_def recv_loop.simps [of "[b]"])
    moreover have "line_of (rubout s) = butlast (line_of s)" using l by (simp add: line_of_def butlast_take)
    ultimately show ?thesis using assms(1,2) True by (simp add: line_key_def rubout_ok)
  next
    case False
    let ?s = "s\<lparr>gRxBuf := (gRxBuf s)[gRxCount s := b],
      gRxCount := (if gRxCount s < RX_BUF_LEN - 1 then gRxCount s + 1 else gRxCount s)\<rparr>"
    have "ShellRecv (Some [b]) s = Inr ?s"
      using assms l False by (auto simp: ShellRecv_def recv_loop.simps [of "[b]"])
    moreover have "line_of ?s = line_key b (line_of s)"
      using l False by (auto simp: line_of_def line_key_def RX_BUF_LEN_def take_Suc_conv_app_nth)
    ultimately show ?thesis using assms(2) l by (simp add: line_ok_def RX_BUF_LEN_def)
  qed
qed

text \<open>
  Claim C24. Typing a line: when every key arrives in a packet of its own, the line that is handed
  to the command parser is what the keys amount to on the user's screen, with backspace and delete
  taking the last character back, and keys beyond 79 characters without effect.
\<close>

theorem ShellRecv_types_line:
  assumes "line_ok s" and "\<not> gInputReady s" and "list_all (\<lambda>b. b \<noteq> 0xff \<and> b \<noteq> 13) keys"
  defines "l \<equiv> fold line_key keys (line_of s)"
  shows "\<exists>s'. run_list (\<lambda>b. ShellRecv (Some [b])) (keys @ [13]) s = Inr s' \<and> gInputReady s' \<and>
    length l < RX_BUF_LEN \<and> take (length l + 1) (gRxBuf s') = l @ [0]"
proof -
  have "\<exists>s'. run_list (\<lambda>b. ShellRecv (Some [b])) keys s = Inr s' \<and> line_ok s' \<and> \<not> gInputReady s' \<and>
      line_of s' = fold line_key keys (line_of s)"
    using assms(1-3)
  proof (induction keys arbitrary: s)
    case (Cons b keys)
    then have "b \<noteq> 0xff" "b \<noteq> 13" "list_all (\<lambda>b. b \<noteq> 0xff \<and> b \<noteq> 13) keys" by simp_all
    with ShellRecv_key [OF Cons.prems(1,2), of b] obtain s1 where
      s1: "ShellRecv (Some [b]) s = Inr s1" "line_ok s1" "\<not> gInputReady s1" "line_of s1 = line_key b (line_of s)" by blast
    from Cons.IH [OF s1(2,3)] Cons.prems(3) s1 show ?case by auto
  qed simp
  then obtain s1 where s1: "run_list (\<lambda>b. ShellRecv (Some [b])) keys s = Inr s1" "line_ok s1" "\<not> gInputReady s1"
    "line_of s1 = l" by (auto simp: l_def)
  then have n: "length (gRxBuf s1) = 80" "gRxCount s1 < 80" "length l = gRxCount s1"
    by (auto simp: line_ok_def RX_BUF_LEN_def line_of_def)
  let ?s2 = "s1\<lparr>gInputReady := True, gRxBuf := (gRxBuf s1)[gRxCount s1 := 0]\<rparr>"
  have "recv_loop [13] (0 + 1) 0 ?s2 = Inr ?s2" by (subst recv_loop.simps) simp
  then have "ShellRecv (Some [13]) s1 = Inr ?s2"
    using s1(3) n by (simp add: ShellRecv_def recv_loop.simps [of "[13]" 0])
  moreover have "take (length l + 1) (gRxBuf ?s2) = l @ [0]"
    using n s1(4) by (simp add: take_Suc_conv_app_nth line_of_def)
  ultimately show ?thesis using s1(1) n by (auto simp: run_list_append RX_BUF_LEN_def)
qed

theorem ShellRecv_types_line_witness:
  "\<exists>s'. run_list (\<lambda>b. ShellRecv (Some [b])) [109, 97, 8, 97, 112, 13] quiet_session = Inr s' \<and> gInputReady s' \<and>
     take 4 (gRxBuf s') = [109, 97, 112, 0]"
proof -
  have h: "line_ok quiet_session" "\<not> gInputReady quiet_session"
    "list_all (\<lambda>b. b \<noteq> 0xff \<and> b \<noteq> 13) [109, 97, 8, 97, 112 :: u8]"
    by (simp_all add: line_ok_def quiet_session_def RX_BUF_LEN_def)
  have "fold line_key [109, 97, 8, 97, 112] (line_of quiet_session) = [109, 97, 112]"
    by (simp add: line_key_def line_of_def quiet_session_def RX_BUF_LEN_def)
  with ShellRecv_types_line [OF h] show ?thesis by (auto simp: eval_nat_numeral)
qed

lemma recv_rubouts:
  "c < length p \<Longrightarrow> p ! c = 8 \<Longrightarrow> \<not> gInputReady s \<Longrightarrow> recv_loop p i c s = Inr ((rubout ^^ (length p - i)) s)"
proof (induction "length p - i" arbitrary: i s)
  case 0
  then show ?case by (simp add: recv_loop.simps)
next
  case (Suc n)
  then have "recv_loop p i c s = recv_loop p (i + 1) c (rubout s)" by (simp add: recv_loop.simps [of p i])
  also have "\<dots> = Inr ((rubout ^^ (length p - (i + 1))) (rubout s))" using Suc by (intro Suc.hyps(1)) simp_all
  finally show ?case using Suc.hyps(2) by (metis Suc_diff_Suc Suc_eq_plus1 comp_apply diff_Suc_1 funpow_Suc_right zero_less_Suc zero_less_diff)
qed

lemma recv_plain_prefix:
  assumes "length p = length q" and "n < length p" and "p ! n = 8" and "q ! n = 8"
    and "\<And>k. k < n \<Longrightarrow> p ! k = q ! k \<and> p ! k \<notin> {0xff, 8, 127, 13}"
  shows "i \<le> n \<Longrightarrow> \<not> gInputReady s \<Longrightarrow> recv_loop p i i s = recv_loop q i i s"
proof (induction "n - i" arbitrary: i s)
  case 0
  then show ?case using assms(1-4) recv_rubouts [of n p s n] recv_rubouts [of n q s n] by simp
next
  case (Suc m)
  then have i: "i < n" by simp
  then have "p ! i = q ! i" "q ! i \<noteq> 0xff" "q ! i \<noteq> 8" "q ! i \<noteq> 127" "q ! i \<noteq> 13" using assms(5) [OF i] by auto
  then show ?case
    using i Suc assms(1,2) by (simp add: recv_loop.simps [of p i] recv_loop.simps [of q i])
qed

text \<open>
  A backspace in the middle of a packet swallows the rest of it: the bytes behind it
  have the effect of as many further backspaces, whatever they are.
\<close>

theorem ShellRecv_rubout_swallows:
  assumes "\<not> gInputReady s" and "list_all (\<lambda>b. b \<notin> {0xff, 8, 127, 13}) pre"
  shows "ShellRecv (Some (pre @ 8 # post)) s = ShellRecv (Some (pre @ replicate (Suc (length post)) 8)) s"
  unfolding ShellRecv_def option.case
  by (rule recv_plain_prefix [of _ _ "length pre"])
    (use assms in \<open>auto simp: nth_append list_all_length\<close>)

theorem ShellRecv_rubout_swallows_witness:
  "\<exists>s'. ShellRecv (Some [109, 97, 8, 112, 13]) quiet_session = Inr s' \<and> gRxCount s' = 0 \<and> \<not> gInputReady s'"
proof -
  have "ShellRecv (Some ([109, 97] @ 8 # [112, 13])) quiet_session =
      ShellRecv (Some ([109, 97] @ replicate (Suc (length [112, 13 :: u8])) 8)) quiet_session"
    by (rule ShellRecv_rubout_swallows) (simp_all add: quiet_session_def)
  moreover have "\<exists>s'. ShellRecv (Some [109, 97, 8, 8, 8]) quiet_session = Inr s' \<and> gRxCount s' = 0 \<and> \<not> gInputReady s'"
    by (simp add: ShellRecv_def recv_loop.simps quiet_session_def RX_BUF_LEN_def rubout_def echo_def)
  ultimately show ?thesis by (simp add: numeral_2_eq_2)
qed

end
