(* ===== verification/Ethernet.thy ===== *)
theory Ethernet
  imports Prelude
begin

text \<open>
  The Ethernet side of \<open>main.c\<close>: frames between lwIP's buffers and the FIFO registers of the MAC.
\<close>

section \<open>The frame registers\<close>

text \<open>
  The receive FIFO as the bytes it holds, the bytes the transmit FIFO has taken and how many more it can
  take, and the frames handed to lwIP. What a read of the empty FIFO gives is up to the hardware (\<open>junk\<close>);
  a byte written to the full one is lost (\<open>tx_full\<close> of \<open>eth_axi4lite.v\<close>, which the status register shows
  as \<open>ETH_STATUS_TXFULL\<close>). That the MAC empties the FIFO meanwhile only makes more room.
\<close>

record eth =
  rx_fifo :: "u8 list"
  tx_out :: "u8 list"
  tx_room :: nat
  frames :: "u8 list list"

definition MAX_ETH_FRAME_LEN :: nat where "MAX_ETH_FRAME_LEN = 1518"

definition ETH_RX :: "u8 \<Rightarrow> eth \<Rightarrow> u8 \<times> eth" where
  "ETH_RX junk s = (case rx_fifo s of [] \<Rightarrow> (junk, s) | b # bs \<Rightarrow> (b, s\<lparr>rx_fifo := bs\<rparr>))"

definition ETH_TX :: "u8 \<Rightarrow> eth \<Rightarrow> eth" where
  "ETH_TX b s = (if tx_room s = 0 then s else s\<lparr>tx_out := tx_out s @ [b], tx_room := tx_room s - 1\<rparr>)"

fun clear_loop :: "u8 \<Rightarrow> nat \<Rightarrow> eth \<Rightarrow> eth" where
  "clear_loop junk 0 s = s"
| "clear_loop junk (Suc n) s = (if rx_fifo s = [] then s else clear_loop junk n (snd (ETH_RX junk s)))"

definition ClearRxFifo :: "u8 \<Rightarrow> eth \<Rightarrow> eth" where
  "ClearRxFifo junk s = (if rx_fifo s = [] then s else clear_loop junk 2048 s)"

section \<open>Sending a frame\<close>

text \<open>
  The loop of \<open>pano_netif_output\<close>: \<open>n\<close> bytes are left to send, \<open>bs\<close> is what is left of the current
  buffer and \<open>chain\<close> the buffers behind it. An empty buffer in the chain is read from and its
  length counted below zero.
\<close>

fun output_loop :: "nat \<Rightarrow> u8 list \<Rightarrow> u8 list list \<Rightarrow> eth \<Rightarrow> eth res" where
  "output_loop 0 bs chain s = Inr s"
| "output_loop (Suc n) (b # bs) chain s = output_loop n bs chain (ETH_TX b s)"
| "output_loop (Suc n) [] [] s = Inr s"
| "output_loop (Suc n) [] ([] # chain) s = Inl OutOfBounds"
| "output_loop (Suc n) [] ((b # bs) # chain) s = output_loop n bs chain (ETH_TX b s)"

definition pano_netif_output :: "u16 \<Rightarrow> u8 list \<Rightarrow> u8 list list \<Rightarrow> eth \<Rightarrow> eth res" where
  "pano_netif_output tot_len payload chain s =
     output_loop (unat tot_len) payload chain
       (ETH_TX (ucast (tot_len AND 0xff)) (ETH_TX (ucast (drop_bit 8 tot_len AND 0xff)) s))"

section \<open>Receiving a frame\<close>

fun rx_bytes :: "u8 \<Rightarrow> nat \<Rightarrow> eth \<Rightarrow> u8 list \<times> eth" where
  "rx_bytes junk 0 s = ([], s)"
| "rx_bytes junk (Suc n) s =
     (case ETH_RX junk s of (b, s1) \<Rightarrow> case rx_bytes junk n s1 of (bs, s2) \<Rightarrow> (b # bs, s2))"

text \<open>
  \<open>pano_netif_poll\<close>: \<open>alloc\<close> is lwIP's \<open>pbuf_alloc\<close>, the size of the first buffer of the chain it
  gives for a length, or \<open>None\<close>. The frame is stored through one pointer, so it must fit into that
  buffer; at least one byte is stored. An invalid length is reported and then used. C does not say
  in which order the two reads of \<open>(ETH_RX() << 8) + ETH_RX()\<close> are made; \<open>left_first\<close> is the compiler's choice.
\<close>

definition pano_netif_poll :: "bool \<Rightarrow> u8 \<Rightarrow> (nat \<Rightarrow> nat option) \<Rightarrow> eth \<Rightarrow> eth res" where
  "pano_netif_poll left_first junk alloc s =
     (if rx_fifo s = [] then Inr s
      else case ETH_RX junk s of (b1, s1) \<Rightarrow> case ETH_RX junk s1 of (b2, s2) \<Rightarrow>
        (let (hi, lo) = (if left_first then (b1, b2) else (b2, b1));
             Count = unat hi * 256 + unat lo;
             s3 = (if Count = 0 \<or> MAX_ETH_FRAME_LEN < Count then ClearRxFifo junk s2 else s2)
         in case alloc Count of
              None \<Rightarrow> Inr (snd (rx_bytes junk Count s3))
            | Some cap \<Rightarrow>
                (case rx_bytes junk (max 1 Count) s3 of (bs, s4) \<Rightarrow>
                   if cap < max 1 Count then Inl OutOfBounds
                   else Inr (s4\<lparr>frames := frames s4 @ [take Count bs]\<rparr>))))"

section \<open>What is sent can be received\<close>

lemma output_loop_sends:
  "n = length bs + length (concat chain) \<Longrightarrow> [] \<notin> set chain \<Longrightarrow>
   output_loop n bs chain s = Inr (s\<lparr>tx_out := tx_out s @ take (tx_room s) (bs @ concat chain), tx_room := tx_room s - n\<rparr>)"
proof (induction n bs chain s rule: output_loop.induct)
  case (2 n b bs chain s)
  then show ?case by (cases "tx_room s") (simp_all add: ETH_TX_def)
next
  case (5 n b bs chain s)
  then show ?case by (cases "tx_room s") (simp_all add: ETH_TX_def)
qed auto

lemma rx_bytes_fifo: "rx_fifo s = bs @ rest \<Longrightarrow> rx_bytes junk (length bs) s = (bs, s\<lparr>rx_fifo := rest\<rparr>)"
proof (induction bs arbitrary: s)
  case (Cons b bs)
  then have "rx_bytes junk (length bs) (s\<lparr>rx_fifo := bs @ rest\<rparr>) = (bs, s\<lparr>rx_fifo := rest\<rparr>)"
    using Cons.IH [of "s\<lparr>rx_fifo := bs @ rest\<rparr>"] by simp
  then show ?case using Cons.prems by (simp add: ETH_RX_def)
qed simp

lemma length_bytes: "unat (ucast (drop_bit 8 w AND 0xff) :: u8) * 256 + unat (ucast (w AND 0xff) :: u8) = unat (w :: u16)"
proof -
  have hi: "unat (ucast (drop_bit 8 w AND 0xff) :: u8) = unat w div 256"
  proof -
    have "(ucast (drop_bit 8 w AND 0xff) :: u8) = ucast (drop_bit 8 w)"
      by (rule bit_word_eqI) (auto simp: bit_simps numeral_eq_Suc less_Suc_eq)
    moreover have "unat (ucast (drop_bit 8 w) :: u8) = unat w div 256"
    proof -
      have "unat w < 65536" using unsigned_less [of w] by simp
      then have "unat w div 256 < 256" by (simp add: less_mult_imp_div_less)
      then show ?thesis by (simp add: unsigned_ucast_eq take_bit_eq_mod unsigned_drop_bit_eq drop_bit_eq_div unat_div)
    qed
    ultimately show ?thesis by simp
  qed
  have "(ucast (w AND 0xff) :: u8) = ucast w"
    by (rule bit_word_eqI) (auto simp: bit_simps numeral_eq_Suc less_Suc_eq)
  then have lo: "unat (ucast (w AND 0xff) :: u8) = unat w mod 256"
    by (simp add: unsigned_ucast_eq take_bit_eq_mod)
  show ?thesis unfolding hi lo by (rule div_mult_mod_eq)
qed

lemma poll_frame:
  assumes "unat hi * 256 + unat lo = length d" and "0 < length d" and "length d \<le> MAX_ETH_FRAME_LEN"
    and "alloc (length d) = Some cap" and "length d \<le> cap"
  shows "pano_netif_poll True junk alloc (r\<lparr>rx_fifo := hi # lo # (d @ rest)\<rparr>) =
    Inr (r\<lparr>rx_fifo := rest, frames := frames r @ [d]\<rparr>)"
proof -
  have "max 1 (length d) = length d" using assms(2) by (cases d) simp_all
  moreover have "rx_bytes junk (length d) (r\<lparr>rx_fifo := d @ rest\<rparr>) = (d, r\<lparr>rx_fifo := rest\<rparr>)"
    using rx_bytes_fifo [of "r\<lparr>rx_fifo := d @ rest\<rparr>" d rest] by simp
  moreover have "\<not> (unat hi = 0 \<and> unat lo = 0)" using assms(1,2) by linarith
  ultimately show ?thesis
    using assms by (auto simp: pano_netif_poll_def ETH_RX_def Let_def)
qed

text \<open>What \<open>pano_netif_output\<close> writes for a packet, as far as the transmit FIFO takes it.\<close>

lemma output_sends:
  assumes "unat tot_len = length (payload @ concat chain)" and "[] \<notin> set chain"
  shows "pano_netif_output tot_len payload chain s =
    Inr (s\<lparr>tx_out := tx_out s @ take (tx_room s)
        (ucast (drop_bit 8 tot_len AND 0xff) # ucast (tot_len AND 0xff) # payload @ concat chain),
      tx_room := tx_room s - (unat tot_len + 2)\<rparr>)"
proof -
  note o = output_loop_sends [OF _ assms(2), of "unat tot_len" payload] assms(1)
  consider "tx_room s = 0" | "tx_room s = 1" | n where "tx_room s = Suc (Suc n)"
    by (metis One_nat_def not0_implies_Suc)
  then show ?thesis by cases (use o in \<open>simp_all add: pano_netif_output_def ETH_TX_def\<close>)
qed

text \<open>
  Claim C31. Sending and receiving are inverse: when the transmit FIFO has room for the packet and its
  length, the bytes \<open>pano_netif_output\<close> writes for a packet, in however many buffers it is held, put into
  a receive FIFO give the packet back to lwIP as one frame, and leave the FIFO at the next frame. The frame
  must fit the first buffer lwIP gives, and the compiler must read the first byte of the length first.
\<close>

theorem frame_roundtrip:
  assumes "unat tot_len = length (payload @ concat chain)" and "[] \<notin> set chain" and "0 < unat tot_len"
    and "unat tot_len \<le> MAX_ETH_FRAME_LEN" and "alloc (unat tot_len) = Some cap" and "unat tot_len \<le> cap"
    and "unat tot_len + 2 \<le> tx_room s" and "left_first"
  shows "\<exists>s1. pano_netif_output tot_len payload chain s = Inr s1 \<and>
    pano_netif_poll left_first junk alloc (r\<lparr>rx_fifo := drop (length (tx_out s)) (tx_out s1) @ rest\<rparr>) =
      Inr (r\<lparr>rx_fifo := rest, frames := frames r @ [payload @ concat chain]\<rparr>)"
proof -
  let ?hi = "ucast (drop_bit 8 tot_len AND 0xff) :: u8"
  let ?lo = "ucast (tot_len AND 0xff) :: u8"
  let ?d = "payload @ concat chain"
  have "take (tx_room s) (?hi # ?lo # ?d) = ?hi # ?lo # ?d" using assms(1,7) by (intro take_all) simp
  then have o1: "pano_netif_output tot_len payload chain s =
      Inr (s\<lparr>tx_out := tx_out s @ ?hi # ?lo # ?d, tx_room := tx_room s - (unat tot_len + 2)\<rparr>)"
    using output_sends [OF assms(1,2), of s] by simp
  have n: "unat ?hi * 256 + unat ?lo = length ?d" using length_bytes [of tot_len] assms(1) by simp
  have "pano_netif_poll True junk alloc (r\<lparr>rx_fifo := ?hi # ?lo # (?d @ rest)\<rparr>) =
      Inr (r\<lparr>rx_fifo := rest, frames := frames r @ [?d]\<rparr>)"
  proof (rule poll_frame)
    show "0 < length ?d" "length ?d \<le> MAX_ETH_FRAME_LEN" "length ?d \<le> cap" "alloc (length ?d) = Some cap"
      using assms(1,3-6) by simp_all
  qed (rule n)
  with o1 assms(8) show ?thesis by simp
qed

theorem frame_roundtrip_witness:
  "\<exists>s1. pano_netif_output 5 [1, 2] [[3], [4, 5]] \<lparr>rx_fifo = [], tx_out = [9], tx_room = 2000, frames = []\<rparr> = Inr s1 \<and>
     pano_netif_poll True 0 (\<lambda>_. Some 592) \<lparr>rx_fifo = drop 1 (tx_out s1) @ [7], tx_out = [], tx_room = 0, frames = []\<rparr> =
     Inr \<lparr>rx_fifo = [7], tx_out = [], tx_room = 0, frames = [[1, 2, 3, 4, 5]]\<rparr>"
  using frame_roundtrip [where tot_len = 5 and payload = "[1, 2]" and chain = "[[3], [4, 5]]" and alloc = "\<lambda>_. Some 592"
      and cap = 592 and s = "\<lparr>rx_fifo = [], tx_out = [9], tx_room = 2000, frames = []\<rparr>" and junk = 0
      and r = "\<lparr>rx_fifo = [], tx_out = [], tx_room = 0, frames = []\<rparr>" and rest = "[7]" and left_first = True]
  by (simp add: MAX_ETH_FRAME_LEN_def)

text \<open>
  Without room the rest of the packet is lost: the length that was announced is followed by fewer bytes, and the
  routine, which never looks at \<open>ETH_STATUS_TXFULL\<close>, reports success.
\<close>

theorem full_fifo_truncates:
  assumes "unat tot_len = length payload" and "tx_room s < length payload + 2"
  shows "\<exists>s1. pano_netif_output tot_len payload [] s = Inr s1 \<and> length (tx_out s1) < length (tx_out s) + 2 + length payload"
  using output_sends [of tot_len payload "[]" s] assms by simp

text \<open>A compiler that makes the right read first takes the length with its bytes exchanged.\<close>

theorem right_read_first:
  assumes "rx_fifo s = 0 # 2 # bs" and "alloc 512 = None"
  shows "pano_netif_poll False junk alloc s = Inr (snd (rx_bytes junk 512 (s\<lparr>rx_fifo := bs\<rparr>)))"
  using assms by (simp add: pano_netif_poll_def ETH_RX_def MAX_ETH_FRAME_LEN_def)

definition PBUF_POOL_BUFSIZE :: nat where "PBUF_POOL_BUFSIZE = 592"

text \<open>
  A frame that is longer than one buffer of lwIP's pool overruns it: the configured
  buffers hold 592 bytes, a longer frame gets a chain of them, and the routine stores the whole
  frame behind the first one's start.
\<close>

theorem poll_overruns_pool_buffer:
  assumes "rx_fifo s = [hi, lo] @ bs" and "unat hi * 256 + unat lo = n" and "PBUF_POOL_BUFSIZE < n"
    and "n \<le> MAX_ETH_FRAME_LEN" and "alloc n = Some PBUF_POOL_BUFSIZE"
  shows "pano_netif_poll True junk alloc s = Inl OutOfBounds"
proof -
  have "max 1 n = n" "n \<noteq> 0" using assms(3) by auto
  then show ?thesis
    using assms by (simp add: pano_netif_poll_def ETH_RX_def Let_def split: prod.split)
qed

theorem poll_overruns_pool_buffer_witness:
  "pano_netif_poll True 0 (\<lambda>n. Some PBUF_POOL_BUFSIZE) \<lparr>rx_fifo = [2, 0x58, 1, 2, 3], tx_out = [], tx_room = 0, frames = []\<rparr> = Inl OutOfBounds"
  by (rule poll_overruns_pool_buffer [of _ 2 "0x58" "[1, 2, 3]" 600])
    (simp_all add: PBUF_POOL_BUFSIZE_def MAX_ETH_FRAME_LEN_def)

end
