(* ===== verification/Time_Base.thy ===== *)
theory Time_Base
  imports Prelude
begin

text \<open>
  The time base: the millisecond timer over the cycle counter, the waiting loops, and the up time
  \<open>main.c\<close> gives to lwIP. The cycle counter is an input.
\<close>

section \<open>The timers\<close>

text \<open>\<open>CPU_KHZ\<close> is the default of \<open>timer.h\<close>; the cycle counter is read as 32 bits.\<close>

definition CPU_KHZ :: u32 where "CPU_KHZ = 28320"

definition timer_now :: "u32 \<Rightarrow> u32" where
  "timer_now cycles = cycles div CPU_KHZ"

definition timer_diff :: "u32 \<Rightarrow> u32 \<Rightarrow> int" where
  "timer_diff a b = sint (a - b)"

definition ticks_us :: "u32 \<Rightarrow> u32 \<Rightarrow> u32" where
  "ticks_us CYCLE_PER_US cycles = cycles div CYCLE_PER_US"

definition ticks_ms :: "u32 \<Rightarrow> u32 \<Rightarrow> u32" where
  "ticks_ms CYCLE_PER_US cycles = cycles div CYCLE_PER_US div 1000"

text \<open>
  The waiting loops read the counter again and again; the readings are a list. The result is the
  readings left when the loop has ended, \<open>None\<close> if it has not yet. In \<open>timer_sleep_us\<close> the product is one
  of signed integers, which stands for its value while it does not overflow.
\<close>

fun spin :: "(u32 \<Rightarrow> u32) \<Rightarrow> u32 \<Rightarrow> u32 \<Rightarrow> u32 list \<Rightarrow> u32 list option" where
  "spin rd start target [] = None"
| "spin rd start target (c # cs) = (if rd c - start < target then spin rd start target cs else Some cs)"

fun timer_sleep :: "u32 \<Rightarrow> u32 list \<Rightarrow> u32 list option" where
  "timer_sleep timeMs [] = None"
| "timer_sleep timeMs (c # cs) = spin timer_now (timer_now c) timeMs cs"

fun timer_sleep_us :: "u32 \<Rightarrow> u32 list \<Rightarrow> u32 list option" where
  "timer_sleep_us timeUs [] = None"
| "timer_sleep_us timeUs (c # cs) = spin (\<lambda>c. c) c (timeUs * (CPU_KHZ div 1000)) cs"

fun delay_us :: "u32 \<Rightarrow> u32 \<Rightarrow> u32 list \<Rightarrow> u32 list option" where
  "delay_us CYCLE_PER_US us [] = None"
| "delay_us CYCLE_PER_US us (c # cs) = spin (\<lambda>c. c) c (CYCLE_PER_US * us) cs"

fun delay_ms :: "u32 \<Rightarrow> nat \<Rightarrow> u32 list \<Rightarrow> u32 list option" where
  "delay_ms CYCLE_PER_US 0 cs = Some cs"
| "delay_ms CYCLE_PER_US (Suc ms) cs =
     (case delay_us CYCLE_PER_US 1000 cs of None \<Rightarrow> None | Some cs1 \<Rightarrow> delay_ms CYCLE_PER_US ms cs1)"

section \<open>Delays end\<close>

text \<open>A counter that advances between readings by at least one and at most \<open>D\<close>, modulo \<open>2 ^ 32\<close>.\<close>

fun advancing :: "nat \<Rightarrow> u32 \<Rightarrow> u32 list \<Rightarrow> bool" where
  "advancing D c [] = True"
| "advancing D c (c' # cs) = (0 < unat (c' - c) \<and> unat (c' - c) \<le> D \<and> advancing D c' cs)"

lemma spin_ends:
  "advancing D cur cs \<Longrightarrow> unat (cur - start) < unat target \<Longrightarrow> unat target + D < 2 ^ 32 \<Longrightarrow>
   unat target \<le> unat (cur - start) + length cs \<Longrightarrow>
   \<exists>pre x rest. cs = pre @ x # rest \<and> spin (\<lambda>c. c) start target cs = Some rest \<and>
     unat target \<le> unat (x - start) \<and> unat (x - start) < unat target + D \<and>
     unat (cur - start) + length pre < unat target"
proof (induction cs arbitrary: cur)
  case (Cons c cs)
  have e: "unat (c - start) = unat (cur - start) + unat (c - cur)"
  proof -
    have "c - start = (cur - start) + (c - cur)" by simp
    moreover have "unat (cur - start) + unat (c - cur) < 2 ^ 32" using Cons.prems(1-3) by simp
    ultimately show ?thesis by (simp only: unat_add_small)
  qed
  show ?case
  proof (cases "c - start < target")
    case False
    then have "unat target \<le> unat (c - start)" by (simp add: word_less_nat_alt)
    moreover have "unat (c - start) < unat target + D" using e Cons.prems(1,2) by simp
    ultimately show ?thesis using False Cons.prems(2) by (intro exI [of _ "[]"] exI [of _ c] exI [of _ cs]) auto
  next
    case True
    then have lt: "unat (c - start) < unat target" by (simp add: word_less_nat_alt)
    have "advancing D c cs" "unat target \<le> unat (c - start) + length cs" using Cons.prems e by simp_all
    from Cons.IH [OF this(1) lt Cons.prems(3) this(2)] obtain pre x rest where
      "cs = pre @ x # rest" "spin (\<lambda>c. c) start target cs = Some rest" "unat target \<le> unat (x - start)"
      "unat (x - start) < unat target + D" "unat (c - start) + length pre < unat target" by blast
    moreover from this(5) have "unat (cur - start) + length (c # pre) < unat target" using e Cons.prems(1) by simp
    ultimately show ?thesis using True by (intro exI [of _ "c # pre"] exI [of _ x] exI [of _ rest]) simp
  qed
qed simp

text \<open>
  Claim C37. \<open>delay_us\<close> ends and waits as long as asked for, also when the cycle counter wraps
  around: for a wait whose cycles, with a margin of \<open>D\<close>, fit the 32 bits of the counter, and with a
  counter that advances by one to \<open>D\<close> cycles between readings, it returns after at most as many
  readings as cycles are to pass, at the first reading that is \<open>us\<close> microseconds or more after the
  start, which is less than \<open>D\<close> cycles too late.
\<close>

theorem delay_us_ends:
  assumes "advancing D c cs" and "unat CYCLE_PER_US * unat us + D < 2 ^ 32"
    and "0 < unat CYCLE_PER_US * unat us" and "unat CYCLE_PER_US * unat us \<le> length cs"
  shows "\<exists>pre x rest. cs = pre @ x # rest \<and> delay_us CYCLE_PER_US us (c # cs) = Some rest \<and>
    unat CYCLE_PER_US * unat us \<le> unat (x - c) \<and> unat (x - c) < unat CYCLE_PER_US * unat us + D \<and>
    length pre < unat CYCLE_PER_US * unat us"
proof -
  have cycles: "unat (CYCLE_PER_US * us) = unat CYCLE_PER_US * unat us"
    using assms(2) by (simp add: unat_word_ariths)
  show ?thesis
    using spin_ends [OF assms(1), of c "CYCLE_PER_US * us"] assms(2-4) unfolding cycles by auto
qed

theorem delay_us_ends_witness:
  "\<exists>rest. delay_us 2 3 [0xfffffffd, 0xffffffff, 2, 4, 7, 9, 11] = Some rest"
proof -
  have "advancing 3 0xfffffffd [0xffffffff, 2, 4, 7, 9, 11]" "unat (2 :: u32) * unat (3 :: u32) + 3 < 2 ^ 32"
    "0 < unat (2 :: u32) * unat (3 :: u32)"
    "unat (2 :: u32) * unat (3 :: u32) \<le> length [0xffffffff, 2, 4, 7, 9, 11 :: u32]" by simp_all
  from delay_us_ends [OF this] show ?thesis by blast
qed

text \<open>
  The product of cycles and microseconds wraps around: at 50 cycles per microsecond a wait of 85.9
  seconds ends after four cycles.
\<close>

lemma delay_us_wraps: "c' - c = 4 \<Longrightarrow> delay_us 50 85899346 (c # c' # cs) = Some cs"
proof -
  have "(50 :: u32) * 85899346 = 4"
    by simp
  then show "c' - c = 4 \<Longrightarrow> delay_us 50 85899346 (c # c' # cs) = Some cs"
    by simp
qed

section \<open>The time lwIP sees\<close>

text \<open>\<open>sys_now\<close> with its two static variables, \<open>LastTimerNow\<close> and \<open>UptimeMillsecs\<close>.\<close>

definition sys_now :: "u32 \<Rightarrow> u32 \<times> u32 \<Rightarrow> u32 \<times> u32 \<times> u32" where
  "sys_now TimerNow = (\<lambda>(LastTimerNow, UptimeMillsecs).
     let Uptime = UptimeMillsecs + (TimerNow - LastTimerNow) in (Uptime, TimerNow, Uptime))"

definition after_calls :: "u32 list \<Rightarrow> u32 \<times> u32" where
  "after_calls ts = fold (\<lambda>t st. snd (sys_now t st)) ts (0, 0)"

lemma after_calls_eq: "after_calls ts = (last (0 # ts), last (0 # ts))"
proof -
  have "fold (\<lambda>t st. snd (sys_now t st)) ts (a, a) = (last (a # ts), last (a # ts))" for a
    by (induction ts arbitrary: a) (simp_all add: sys_now_def)
  then show ?thesis by (simp add: after_calls_def)
qed

text \<open>
  The up time does not outlast the cycle counter: the differences \<open>sys_now\<close> adds up
  telescope, so that whatever calls were made before, it returns the value of the timer itself,
  which starts again at zero after 151658 milliseconds.
\<close>

theorem sys_now_is_timer:
  "fst (sys_now (timer_now c) (after_calls (map timer_now cs))) = timer_now c \<and> unat (timer_now c) \<le> 151658"
proof -
  have "unat c div 28320 \<le> 4294967295 div 28320"
  proof (rule div_le_mono)
    have "(unat c :: nat) < 2 ^ LENGTH(32)" by (rule unsigned_less)
    then show "unat c \<le> 4294967295" by simp
  qed
  then have "unat (timer_now c) \<le> 151658" by (simp add: timer_now_def CPU_KHZ_def unat_div)
  then show ?thesis by (simp add: after_calls_eq sys_now_def Let_def)
qed

end
