(* ===== verification/Main_Loop.thy ===== *)
theory Main_Loop
  imports I2c_Commands Data_Block Shell_Session Ethernet Time_Base
begin

text \<open>
  \<open>main\<close>: start-up and the main loop, with the status LED, the link status and the points where
  the shell and the terminal are served. It composes the other components.
\<close>

section \<open>The state of the firmware\<close>

text \<open>
  What \<open>main\<close> and the routines it calls share: the shell session with the board, the VT100
  consoles, the registers' trace, the Ethernet FIFOs, the static variables of \<open>UpdateLEDs\<close> and the
  link status. \<open>links\<close> are the calls of \<open>netif_set_link_up\<close> and \<open>netif_set_link_down\<close>.
\<close>

record firmware =
  ses :: session
  cons :: console
  trace :: "reg list"
  eth_st :: eth
  LastUpdate :: u32
  Led :: u32
  LastLoop :: u32
  gEthStatus :: u32
  gIsDZ22 :: bool
  links :: "bool list"
  listening :: "nat option list"
  shell_parser :: "shell_handler parser"

definition LED_BLINK_RATE :: u32 where "LED_BLINK_RATE = 250"
definition GPIO_BIT_RED_LED :: u32 where "GPIO_BIT_RED_LED = 0x4"
definition GPIO_BIT_GREEN_LED :: u32 where "GPIO_BIT_GREEN_LED = 0x8"
definition GPIO_BIT_BLUE_LED :: u32 where "GPIO_BIT_BLUE_LED = 0x10"
definition GPIO_LED_BITS :: u32 where "GPIO_LED_BITS = 0x1C"
definition GPIO_PWR_STATUS_BITS :: u32 where "GPIO_PWR_STATUS_BITS = 0xF00"
definition GPIO_BIT_PWR_STATUS2 :: u32 where "GPIO_BIT_PWR_STATUS2 = 0x400"
definition ETH_STATUS_LINK_UP :: u32 where "ETH_STATUS_LINK_UP = 0x20"
definition ETH_STATUS_LINK_SPEED :: u32 where "ETH_STATUS_LINK_SPEED = 0xC0"
definition BOARD_ID_DZ22_2 :: u32 where "BOARD_ID_DZ22_2 = 0x08011000"

lemmas led_consts = GPIO_BIT_RED_LED_def GPIO_BIT_GREEN_LED_def GPIO_BIT_BLUE_LED_def GPIO_LED_BITS_def

section \<open>The status LED\<close>

text \<open>
  \<open>UpdateLEDs\<close> at the time \<open>Now\<close>; \<open>dhcp\<close> is what \<open>dhcp_supplied_address\<close> says. The LED to show
  next is computed first, as the branches of the code do.
\<close>

definition UpdateLEDs :: "u32 \<Rightarrow> bool \<Rightarrow> bool \<Rightarrow> bool \<Rightarrow> u32 \<times> u32 \<times> reg list \<Rightarrow> u32 \<times> u32 \<times> reg list" where
  "UpdateLEDs Now connected link dhcp = (\<lambda>(LastUpdate, Led, tr).
     if Now - LastUpdate > LED_BLINK_RATE then
       (let clr = REG_WR (GPIO_BASE + GPIO_OUTPUT_CLR) Led;
            (Led1, tr1) =
              (if connected then (GPIO_BIT_GREEN_LED, clr tr)
               else if Led \<noteq> 0 then (0, clr tr)
               else if \<not> link then (GPIO_BIT_RED_LED, tr)
               else if \<not> dhcp then (GPIO_BIT_BLUE_LED, tr)
               else (GPIO_BIT_GREEN_LED, tr))
        in (Now, Led1, if Led1 \<noteq> 0 then REG_WR (GPIO_BASE + GPIO_OUTPUT_SET) Led1 tr1 else tr1))
     else (LastUpdate, Led, tr))"

section \<open>Start-up\<close>

definition lift_board :: "(board \<Rightarrow> ('a \<times> board) res) \<Rightarrow> session \<Rightarrow> ('a \<times> session) res" where
  "lift_board f s = rbind (f (board.truncate s)) (\<lambda>(r, b).
     Inr (r, board.extend b (session.fields (gRxBuf s) (gRxCount s) (gInputReady s) (gSendWelcome s))))"

text \<open>
  \<open>main\<close> up to its loop. Inputs are the flash device \<open>dev\<close>, the registers \<open>rv\<close>, the version
  string, the result of lwIP's \<open>listen\<close> calls, what reads of an empty FIFO give, and the times and
  the DHCP state \<open>UpdateLEDs\<close> sees. lwIP's and the SPI master's own initialisation and the log
  output are left out.
\<close>

definition set_gpio_dir :: "regs \<Rightarrow> u32 \<Rightarrow> reg list \<Rightarrow> reg list" where
  "set_gpio_dir rv bits tr =
     (case REG_RD rv (GPIO_BASE + GPIO_DIRECTION) tr of (Temp, tr1) \<Rightarrow>
        REG_WR (GPIO_BASE + GPIO_DIRECTION) (Temp OR bits) tr1)"

definition boot_board :: "device \<Rightarrow> board \<Rightarrow> (unit \<times> board) res" where
  "boot_board dev s =
     (case spi_chip_init dev (gChip s) (spi_tr s) of (_, chip, tr) \<Rightarrow>
        rbind (ParseInfoBlock dev (s\<lparr>gChip := chip, spi_tr := tr, gTftp := (gTftp s)\<lparr>bAutoErase := True\<rparr>\<rparr>)) (\<lambda>(_, s1).
        rbind (ParseDataBlock dev True False s1) (\<lambda>(_, s2). Inr ((), s2))))"

definition boot_dz22 :: "regs \<Rightarrow> reg list \<Rightarrow> reg list" where
  "boot_dz22 rv tr =
     REG_WR 0x97000010 1050
       (REG_WR (GPIO_BASE + GPIO_OUTPUT_SET) GPIO_BIT_PWR_STATUS2 (set_gpio_dir rv GPIO_PWR_STATUS_BITS tr))"

definition boot ::
  "device \<Rightarrow> regs \<Rightarrow> cstr \<Rightarrow> bool \<times> int \<Rightarrow> bool \<times> int \<Rightarrow> u8 \<Rightarrow> u32 \<Rightarrow> bool \<Rightarrow> u32 \<Rightarrow> firmware \<Rightarrow> firmware res" where
  "boot dev rv gVerStr shell_pcb term_pcb junk now1 dhcp now2 f =
     (let tr1 = REG_WR (GPIO_BASE + GPIO_OUTPUT) 0
                  (set_gpio_dir rv (GPIO_BIT_RED_LED OR GPIO_BIT_GREEN_LED OR GPIO_BIT_BLUE_LED) (trace f));
          tr2 = dvi_setup rv I2C_ENC_HDMI (dvi_setup rv I2C_ENC_DVI tr1)
      in rbind (lift_board (boot_board dev) (ses f)) (\<lambda>(_, s1).
         rbind (vt100_puts [0x1b, 91, 72] (vt100_init (cons f))) (\<lambda>c1.
         rbind (status_puts gVerStr c1) (\<lambda>c2.
           let dz = (gBoardID s1 = BOARD_ID_DZ22_2);
               tr3 = (if dz then boot_dz22 rv tr2 else tr2);
               (lu, led, tr4) = UpdateLEDs now1 (gShellCon s1) (gEthStatus f AND ETH_STATUS_LINK_UP \<noteq> 0) dhcp
                                  (LastUpdate f, Led f, tr3)
           in Inr (f\<lparr>ses := s1, cons := c2, trace := tr4, LastUpdate := lu, Led := led, LastLoop := now2,
                     gIsDZ22 := dz \<or> gIsDZ22 f, eth_st := ClearRxFifo junk (eth_st f),
                     listening := [case shell_pcb of (n, e) \<Rightarrow> ShellInit n e, case term_pcb of (n, e) \<Rightarrow> TermInit n e],
                     shell_parser := CmdParserInit (Some gCmdTable) True (shell_parser f)\<rparr>)))))"

section \<open>The main loop\<close>

text \<open>
  The inputs of one round: the times read, the DHCP state, the Ethernet status register, and
  what the callbacks run by \<open>pano_netif_poll\<close> do. \<open>call\<close> are the shell's command handlers.
\<close>

record round =
  this_loop :: u32
  led_now :: u32
  has_address :: bool
  eth_status :: u32
  netif_poll :: "firmware \<Rightarrow> firmware res"

definition poll_input :: "regs \<Rightarrow> u32 \<Rightarrow> firmware \<Rightarrow> firmware" where
  "poll_input rv ThisLoop f =
     (if ThisLoop - LastLoop f > 15
      then f\<lparr>LastLoop := ThisLoop,
             trace := handle_input rv (if gIsDZ22 f then I2C_BUS_HDMI else I2C_BUS_DVI) 0x2D (trace f)\<rparr>
      else f)"

definition update_leds :: "u32 \<Rightarrow> bool \<Rightarrow> firmware \<Rightarrow> firmware" where
  "update_leds now dhcp f =
     (case UpdateLEDs now (gShellCon (ses f)) (gEthStatus f AND ETH_STATUS_LINK_UP \<noteq> 0) dhcp (LastUpdate f, Led f, trace f) of
        (lu, led, tr) \<Rightarrow> f\<lparr>LastUpdate := lu, Led := led, trace := tr\<rparr>)"

definition check_link :: "u32 \<Rightarrow> firmware \<Rightarrow> firmware" where
  "check_link status f =
     (let NewEthStatus = status AND (ETH_STATUS_LINK_UP OR ETH_STATUS_LINK_SPEED) in
      if gEthStatus f \<noteq> NewEthStatus
      then f\<lparr>gEthStatus := NewEthStatus, links := links f @ [NewEthStatus AND ETH_STATUS_LINK_UP \<noteq> 0]\<rparr>
      else f)"

text \<open>
  \<open>NetPrintf\<close> of the shell: before it prints it waits until what was printed before is acknowledged
  (\<open>NetWaitBufEmpty\<close>), and the polls it makes may run any callback. \<open>wait\<close> is what they do to the
  session; the buffer and lwIP's side of it are in \<open>Net_Print\<close>.
\<close>

type_synonym wait = "session \<Rightarrow> session res"

definition net_printf :: "wait \<Rightarrow> string \<Rightarrow> session \<Rightarrow> session res" where
  "net_printf wait fmt s = rbind (wait s) (\<lambda>s1. Inr (s1\<lparr>out := out s1 @ [Printf fmt []]\<rparr>))"

definition NetSendPrompt :: "wait \<Rightarrow> session \<Rightarrow> session res" where
  "NetSendPrompt wait = net_printf wait ''PT> ''"

definition send_welcome :: "wait \<Rightarrow> string \<Rightarrow> session \<Rightarrow> session res" where
  "send_welcome wait gVerStr s =
     (if gSendWelcome s
      then rbind (net_printf wait gVerStr (s\<lparr>gSendWelcome := False\<rparr>)) (\<lambda>s1.
           rbind (net_printf wait crlf s1) (NetSendPrompt wait))
      else Inr s)"

definition run_command ::
  "wait \<Rightarrow> (shell_handler, session) handlers \<Rightarrow> shell_handler parser \<Rightarrow> session \<Rightarrow> session res" where
  "run_command wait call ps s =
     (if gInputReady s
      then rbind (ParseCmd call ps (takeWhile (\<lambda>c. c \<noteq> 0) (gRxBuf s)) (s\<lparr>gInputReady := False\<rparr>)) (\<lambda>(_, s1, t).
             NetSendPrompt wait (s1\<lparr>gRxCount := 0, out := out s1 @ [Puts t]\<rparr>))
      else Inr s)"

definition main_loop_body ::
  "regs \<Rightarrow> string \<Rightarrow> wait \<Rightarrow> (shell_handler, session) handlers \<Rightarrow> round \<Rightarrow> firmware \<Rightarrow> firmware res" where
  "main_loop_body rv gVerStr wait call r f =
     (let f1 = poll_input rv (this_loop r) f in
      rbind (vt100_flush (cons f1)) (\<lambda>c.
      rbind (netif_poll r (update_leds (led_now r) (has_address r) (f1\<lparr>cons := c\<rparr>))) (\<lambda>f2.
        let f3 = check_link (eth_status r) f2 in
        rbind (send_welcome wait gVerStr (ses f3)) (\<lambda>s1.
        rbind (run_command wait call (shell_parser f3) s1) (\<lambda>s2.
          Inr (f3\<lparr>ses := s2\<rparr>))))))"

definition main_loop ::
  "regs \<Rightarrow> string \<Rightarrow> wait \<Rightarrow> (shell_handler, session) handlers \<Rightarrow> round list \<Rightarrow> firmware \<Rightarrow> firmware res" where
  "main_loop rv gVerStr wait call = run_list (main_loop_body rv gVerStr wait call)"

section \<open>What the LED shows\<close>

text \<open>The LEDs that are lit after a trace of register accesses.\<close>

definition led_write :: "u32 \<Rightarrow> reg \<Rightarrow> u32" where
  "led_write v r = (case r of
     RegRd _ \<Rightarrow> v
   | RegWr a w \<Rightarrow> if a = GPIO_BASE + GPIO_OUTPUT then w
                  else if a = GPIO_BASE + GPIO_OUTPUT_SET then v OR w
                  else if a = GPIO_BASE + GPIO_OUTPUT_CLR then v AND NOT w else v)"

definition lit :: "reg list \<Rightarrow> u32" where
  "lit tr = foldl led_write 0 tr AND GPIO_LED_BITS"

definition led_inv :: "u32 \<times> u32 \<times> reg list \<Rightarrow> bool" where
  "led_inv = (\<lambda>(_, Led, tr).
     (lit tr = Led \<and> Led \<in> {0, GPIO_BIT_RED_LED, GPIO_BIT_GREEN_LED, GPIO_BIT_BLUE_LED}) \<or>
     (lit tr = 0 \<and> Led = GPIO_LED_BITS))"

lemma lit_write:
  "lit (REG_WR (GPIO_BASE + GPIO_OUTPUT_CLR) w tr) = lit tr AND NOT w"
  "lit (REG_WR (GPIO_BASE + GPIO_OUTPUT_SET) w tr) = lit tr OR (w AND GPIO_LED_BITS)"
  by (simp_all add: lit_def REG_WR_def led_write_def GPIO_BASE_def GPIO_OUTPUT_def GPIO_OUTPUT_SET_def
      GPIO_OUTPUT_CLR_def) (rule bit_word_eqI, auto simp: bit_simps)+

lemma led_bits [simp]:
  "GPIO_BIT_RED_LED AND GPIO_LED_BITS = GPIO_BIT_RED_LED" "GPIO_BIT_GREEN_LED AND GPIO_LED_BITS = GPIO_BIT_GREEN_LED"
  "GPIO_BIT_BLUE_LED AND GPIO_LED_BITS = GPIO_BIT_BLUE_LED" "w AND NOT (w :: u32) = 0"
  "GPIO_BIT_RED_LED \<noteq> 0" "GPIO_BIT_GREEN_LED \<noteq> 0" "GPIO_BIT_BLUE_LED \<noteq> 0" "GPIO_LED_BITS \<noteq> 0"
  by (simp_all add: led_consts)

definition due :: "u32 \<Rightarrow> u32 \<times> u32 \<times> reg list \<Rightarrow> bool" where
  "due Now st \<longleftrightarrow> Now - fst st > LED_BLINK_RATE"

lemma UpdateLEDs_lit:
  assumes "led_inv (LU, L, tr)"
  shows "led_inv (UpdateLEDs Now connected link dhcp (LU, L, tr)) \<and>
    (due Now (LU, L, tr) \<longrightarrow>
      lit (snd (snd (UpdateLEDs Now connected link dhcp (LU, L, tr)))) =
        (if connected then GPIO_BIT_GREEN_LED
         else if L \<noteq> 0 then 0
         else if \<not> link then GPIO_BIT_RED_LED else if \<not> dhcp then GPIO_BIT_BLUE_LED else GPIO_BIT_GREEN_LED))"
proof (cases "Now - LU > LED_BLINK_RATE")
  case False
  then show ?thesis using assms by (simp add: UpdateLEDs_def due_def)
next
  case True
  have "lit tr AND NOT L = 0" "L = 0 \<Longrightarrow> lit tr = 0" using assms by (auto simp: led_inv_def)
  then show ?thesis using True assms by (auto simp: UpdateLEDs_def due_def led_inv_def lit_write Let_def)
qed

text \<open>
  The status LED tells the state of the network: at most one of the three LEDs is ever
  lit; while a user is connected an update makes it green, else updates blink it, red without a
  link, blue without an address and green with one.
\<close>

theorem UpdateLEDs_shows_state:
  assumes "led_inv st"
  shows "led_inv (UpdateLEDs Now connected link dhcp st) \<and>
    lit (snd (snd (UpdateLEDs Now connected link dhcp st))) \<in> {0, GPIO_BIT_RED_LED, GPIO_BIT_GREEN_LED, GPIO_BIT_BLUE_LED} \<and>
    (due Now st \<longrightarrow> lit (snd (snd (UpdateLEDs Now connected link dhcp st))) =
        (if connected then GPIO_BIT_GREEN_LED
         else if fst (snd st) \<noteq> 0 then 0
         else if \<not> link then GPIO_BIT_RED_LED else if \<not> dhcp then GPIO_BIT_BLUE_LED else GPIO_BIT_GREEN_LED))"
proof -
  obtain LU L tr where st: "st = (LU, L, tr)" by (metis prod.exhaust)
  define st' where "st' = UpdateLEDs Now connected link dhcp st"
  have "led_inv st'" using UpdateLEDs_lit [of LU L tr] assms by (simp add: st st'_def)
  moreover from this have "lit (snd (snd st')) \<in> {0, GPIO_BIT_RED_LED, GPIO_BIT_GREEN_LED, GPIO_BIT_BLUE_LED}"
    by (cases st') (auto simp: led_inv_def)
  ultimately show ?thesis
    using UpdateLEDs_lit [of LU L tr Now connected link dhcp] assms unfolding st'_def by (simp add: st)
qed

theorem UpdateLEDs_shows_state_witness:
  "lit (snd (snd (UpdateLEDs 1000 False False False (0, 0, [])))) = GPIO_BIT_RED_LED"
proof -
  have "led_inv (0, 0, [])" "due 1000 (0, 0, [])" by (simp_all add: led_inv_def lit_def due_def LED_BLINK_RATE_def)
  with UpdateLEDs_shows_state [of "(0, 0, [])" 1000 False False False] show ?thesis by simp
qed

section \<open>A typed line is answered\<close>

text \<open>
  What a client does: it connects, types a key, or nothing. lwIP hands a connection to
  \<open>ShellAccept\<close> and a key to \<open>ShellRecv\<close>.
\<close>

datatype user = Connect u32 | Key u8 | No_input

fun deliver :: "user \<Rightarrow> session \<Rightarrow> session res" where
  "deliver (Connect ip) s = Inr (snd (ShellAccept (Some ip) 0 s))"
| "deliver (Key b) s = ShellRecv (Some [b]) s"
| "deliver No_input s = Inr s"

definition brings :: "user \<Rightarrow> round \<Rightarrow> bool" where
  "brings u r \<longleftrightarrow> netif_poll r = (\<lambda>f. rbind (deliver u (ses f)) (\<lambda>s. Inr (f\<lparr>ses := s\<rparr>)))"

text \<open>Command handlers of the board, which leave the line editor alone.\<close>

definition put_board :: "board \<Rightarrow> session \<Rightarrow> session" where
  "put_board b s = board.extend b (session.fields (gRxBuf s) (gRxCount s) (gInputReady s) (gSendWelcome s))"

definition on_board :: "(shell_handler, board) handlers \<Rightarrow> (shell_handler, session) handlers" where
  "on_board call h arg s = (case call h arg (board.truncate s) of (Ret, b, t) \<Rightarrow> (Ret, put_board b s, t))"

text \<open>
  The shell as its user sees it: the line on the screen and the board. A key edits the line, the
  return key runs it as a command and is answered with a prompt, a connection with the welcome.
\<close>

definition prompt :: msg where
  "prompt = Printf ''PT> '' []"

definition prints :: "msg list \<Rightarrow> board \<Rightarrow> board" where
  "prints ms b = b\<lparr>out := out b @ ms\<rparr>"

fun user_step ::
  "(shell_handler, board) handlers \<Rightarrow> shell_handler parser \<Rightarrow> string \<Rightarrow> user \<Rightarrow> u8 list \<times> board \<Rightarrow> (u8 list \<times> board) res"
where
  "user_step call ps ver (Connect ip) (l, b) =
     Inr ([], prints [Printf ver [], Printf crlf [], prompt] (b\<lparr>gShellCon := True,
       gTftp := (if ServerIP (gTftp b) = 0 then (gTftp b)\<lparr>ServerIP := ip\<rparr> else gTftp b)\<rparr>))"
| "user_step call ps ver (Key k) (l, b) =
     (if k = 13
      then rbind (ParseCmd call ps (takeWhile (\<lambda>c. c \<noteq> 0) l) b) (\<lambda>(_, b1, t). Inr ([], prints [Puts t, prompt] b1))
      else Inr (line_key k l,
        if k = 8 \<or> k = 127 then prints [Puts (if l = [] then [7] else [8, 32, 8])] b else b))"
| "user_step call ps ver No_input (l, b) = Inr (l, b)"

definition shell_of :: "session \<Rightarrow> u8 list \<times> board" where
  "shell_of s = (line_of s, board.truncate s)"

definition at_prompt :: "session \<Rightarrow> bool" where
  "at_prompt s \<longleftrightarrow> line_ok s \<and> \<not> gInputReady s \<and> \<not> gSendWelcome s"

lemma put_board_own: "put_board (board.truncate s) s = s"
  by (cases s) (simp add: put_board_def board.defs session.defs)

lemma put_board_sel [simp]:
  "gRxBuf (put_board b s) = gRxBuf s" "gRxCount (put_board b s) = gRxCount s"
  "gInputReady (put_board b s) = gInputReady s" "gSendWelcome (put_board b s) = gSendWelcome s"
  "board.truncate (put_board b s) = b" "board.out (put_board b s) = board.out b"
  by (simp_all add: put_board_def board.defs session.defs)

lemma truncate_upd [simp]:
  "board.truncate (gRxBuf_update g s) = board.truncate s"
  "board.truncate (gRxCount_update n s) = board.truncate s"
  "board.truncate (gInputReady_update i s) = board.truncate s"
  "board.truncate (gSendWelcome_update i s) = board.truncate s"
  "board.truncate (board.out_update m s) = board.out_update m (board.truncate s)"
  "board.out (board.truncate s) = board.out s"
  by (simp_all add: board.defs)

lemma prints_prints [simp]: "prints ms (prints ns b) = prints (ns @ ms) b"
  by (simp add: prints_def)

lemma ParseCmd_on_board:
  "ParseCmd (on_board call) ps line s =
     rbind (ParseCmd call ps line (board.truncate s)) (\<lambda>(Ret, b, t). Inr (Ret, put_board b s, t))"
proof (cases "gPrintf ps \<and> gCmdTbl ps \<noteq> None")
  case False
  then show ?thesis by (cases "gCmdTbl ps"; cases "gPrintf ps") (simp_all add: ParseCmd_def put_board_own)
next
  case True
  then obtain tbl where tbl: "gPrintf ps" "gCmdTbl ps = Some tbl" by auto
  show ?thesis
  proof (cases "FindCmd tbl (SkipSpaces line) False")
    case (Inr r)
    obtain found out1 where r: "r = (found, out1)" by (cases r)
    show ?thesis
    proof (cases found)
      case None
      then show ?thesis using tbl Inr r by (simp add: ParseCmd_def put_board_own)
    next
      case (Some e)
      define arg where "arg = SkipSpaces (Skip2Space (SkipSpaces line))"
      show ?thesis
      proof (cases "CmdHandler e")
        case (Some h)
        obtain Ret b out2 where c: "call h arg (board.truncate s) = (Ret, b, out2)" by (metis prod.exhaust)
        then show ?thesis
          using tbl Inr r \<open>found = Some e\<close> Some
          by (cases "usage_text e") (simp_all add: ParseCmd_def on_board_def arg_def)
      qed (use tbl Inr r Some in \<open>simp add: ParseCmd_def\<close>)
    qed
  qed (use tbl in \<open>simp add: ParseCmd_def\<close>)
qed

lemma deliver_key:
  assumes "at_prompt s" and "k \<noteq> 0xff" and "k \<noteq> 13"
  shows "\<exists>s'. deliver (Key k) s = Inr s' \<and> at_prompt s' \<and>
    user_step call ps ver (Key k) (shell_of s) = Inr (shell_of s')"
proof -
  have s: "line_ok s" "\<not> gInputReady s" "\<not> gSendWelcome s" using assms(1) by (simp_all add: at_prompt_def)
  obtain s' where s': "ShellRecv (Some [k]) s = Inr s'" "line_ok s'" "\<not> gInputReady s'" "line_of s' = line_key k (line_of s)"
    using ShellRecv_key [OF s(1,2) assms(2,3)] by blast
  have n: "length (gRxBuf s) = 80" "gRxCount s < 80" using s(1) by (simp_all add: line_ok_def RX_BUF_LEN_def)
  have "\<not> gSendWelcome s' \<and> board.truncate s' =
      (if k = 8 \<or> k = 127 then prints [Puts (if line_of s = [] then [7] else [8, 32, 8])] (board.truncate s) else board.truncate s)"
  proof (cases "k = 8 \<or> k = 127")
    case True
    then have "s' = rubout s" using s'(1) s(2) by (auto simp: ShellRecv_def recv_loop.simps [of "[8]"] recv_loop.simps [of "[127]"])
    moreover have "line_of s = [] \<longleftrightarrow> gRxCount s = 0" using n by (auto simp: line_of_def)
    ultimately show ?thesis using True s(3) by (auto simp: rubout_def echo_def prints_def)
  next
    case False
    then have "s' = s\<lparr>gRxBuf := (gRxBuf s)[gRxCount s := k],
        gRxCount := (if gRxCount s < RX_BUF_LEN - 1 then gRxCount s + 1 else gRxCount s)\<rparr>"
      using s'(1) s(2) n assms(2,3) by (simp add: ShellRecv_def recv_loop.simps [of "[k]"])
    then show ?thesis using False s(3) by simp
  qed
  then show ?thesis using s' assms(3) by (auto simp: at_prompt_def shell_of_def)
qed

lemma deliver_return:
  assumes "at_prompt s"
  shows "\<exists>s'. deliver (Key 13) s = Inr s' \<and> length (gRxBuf s') = RX_BUF_LEN \<and> gInputReady s' \<and> \<not> gSendWelcome s' \<and>
    takeWhile (\<lambda>c. c \<noteq> 0) (gRxBuf s') = takeWhile (\<lambda>c. c \<noteq> 0) (line_of s) \<and> board.truncate s' = board.truncate s"
proof -
  have n: "length (gRxBuf s) = 80" "gRxCount s < 80" "\<not> gInputReady s" "\<not> gSendWelcome s"
    using assms by (simp_all add: at_prompt_def line_ok_def RX_BUF_LEN_def)
  let ?s' = "s\<lparr>gInputReady := True, gRxBuf := (gRxBuf s)[gRxCount s := 0]\<rparr>"
  have "recv_loop [13] (0 + 1) 0 ?s' = Inr ?s'" by (subst recv_loop.simps) simp
  then have d: "deliver (Key 13) s = Inr ?s'"
    using n by (simp add: ShellRecv_def recv_loop.simps [of "[13]" 0])
  have "(gRxBuf s)[gRxCount s := 0] = line_of s @ 0 # drop (Suc (gRxCount s)) (gRxBuf s)"
    using n by (simp add: upd_conv_take_nth_drop line_of_def)
  then have "takeWhile (\<lambda>c. c \<noteq> 0) (gRxBuf ?s') = takeWhile (\<lambda>c. c \<noteq> 0) (line_of s)"
    by (simp add: takeWhile_tail)
  with d n show ?thesis by (auto simp: RX_BUF_LEN_def)
qed

lemma welcome_waits: "net_printf Inr fmt s = Inr (s\<lparr>out := out s @ [Printf fmt []]\<rparr>)"
  by (simp add: net_printf_def)

text \<open>One round of the shell: what the client did is delivered, then the welcome and the command.\<close>

lemma shell_round:
  assumes "at_prompt s" and "u \<noteq> Key 0xff"
    and res_def: "res = rbind (deliver u s) (\<lambda>s1. rbind (send_welcome Inr ver s1) (run_command Inr (on_board call) ps))"
  shows "rbind res (\<lambda>s'. Inr (shell_of s')) = user_step call ps ver u (shell_of s) \<and>
    (\<forall>s'. res = Inr s' \<longrightarrow> at_prompt s')"
proof (cases u)
  case (Connect ip)
  then show ?thesis
    using assms(1) unfolding res_def
    by (auto simp: ShellAccept_def send_welcome_def run_command_def welcome_waits NetSendPrompt_def shell_of_def
        line_of_def at_prompt_def line_ok_def RX_BUF_LEN_def prints_def prompt_def board.defs)
next
  case No_input
  then show ?thesis
    using assms(1) unfolding res_def by (auto simp: send_welcome_def run_command_def at_prompt_def shell_of_def)
next
  case (Key k)
  show ?thesis
  proof (cases "k = 13")
    case False
    then have "k \<noteq> 0xff" using Key assms(2) by auto
    from deliver_key [OF assms(1) this False] obtain s' where
      s': "deliver (Key k) s = Inr s'" "at_prompt s'" "user_step call ps ver (Key k) (shell_of s) = Inr (shell_of s')" by blast
    then show ?thesis unfolding res_def Key by (auto simp: send_welcome_def run_command_def at_prompt_def)
  next
    case True
    obtain s1 where s1: "deliver u s = Inr s1" "length (gRxBuf s1) = RX_BUF_LEN" "gInputReady s1" "\<not> gSendWelcome s1"
      "takeWhile (\<lambda>c. c \<noteq> 0) (gRxBuf s1) = takeWhile (\<lambda>c. c \<noteq> 0) (line_of s)" "board.truncate s1 = board.truncate s"
      using deliver_return [OF assms(1)] True Key by auto
    show ?thesis
    proof (cases "ParseCmd call ps (takeWhile (\<lambda>c. c \<noteq> 0) (line_of s)) (board.truncate s)")
      case (Inl e)
      then show ?thesis
        using s1 True Key unfolding res_def
        by (simp add: send_welcome_def run_command_def ParseCmd_on_board shell_of_def)
    next
      case (Inr r)
      obtain Ret b t where r: "r = (Ret, b, t)" by (metis prod.exhaust)
      then show ?thesis
        using s1 True Key Inr unfolding res_def
        by (auto simp: send_welcome_def run_command_def ParseCmd_on_board shell_of_def NetSendPrompt_def welcome_waits
            line_of_def prompt_def prints_def at_prompt_def line_ok_def RX_BUF_LEN_def)
    qed
  qed
qed

definition quiet :: "firmware \<Rightarrow> bool" where
  "quiet f \<longleftrightarrow> at_prompt (ses f) \<and> stream_ok (cons f) \<and> buffered (cons f) = []"

lemma flush_nothing: "stream_ok c \<Longrightarrow> buffered c = [] \<Longrightarrow> vt100_flush c = Inr c"
  using flush_run [of c c] with_stream_own [of c]
  by (auto simp: stream_ok_def buffered_def)

lemma round_shell:
  assumes "quiet f" and "brings u r" and "u \<noteq> Key 0xff"
  shows "rbind (main_loop_body rv ver Inr (on_board call) r f) (\<lambda>f'. Inr (shell_of (ses f'))) =
      user_step call (shell_parser f) ver u (shell_of (ses f)) \<and>
    (\<forall>f'. main_loop_body rv ver Inr (on_board call) r f = Inr f' \<longrightarrow> quiet f' \<and> shell_parser f' = shell_parser f)"
proof -
  define f1 where "f1 = update_leds (led_now r) (has_address r) (poll_input rv (this_loop r) f)"
  have c: "cons (poll_input rv (this_loop r) f) = cons f" by (simp add: poll_input_def)
  have keep: "ses f1 = ses f" "cons f1 = cons f" "shell_parser f1 = shell_parser f"
    by (simp_all add: f1_def update_leds_def poll_input_def split: prod.split)
  have l: "ses (check_link st g) = ses g" "cons (check_link st g) = cons g" "shell_parser (check_link st g) = shell_parser g"
    for st g by (simp_all add: check_link_def Let_def)
  have fl: "vt100_flush (cons (poll_input rv (this_loop r) f)) = Inr (cons f)"
    using assms(1) by (simp add: c quiet_def flush_nothing)
  have u: "(poll_input rv (this_loop r) f)\<lparr>cons := cons f\<rparr> = poll_input rv (this_loop r) f"
    by (metis c firmware.surjective firmware.update_convs(2) firmware.select_convs(2))
  define res where "res = rbind (deliver u (ses f)) (\<lambda>s1. rbind (send_welcome Inr ver s1)
      (run_command Inr (on_board call) (shell_parser f)))"
  have b: "main_loop_body rv ver Inr (on_board call) r f =
      rbind (deliver u (ses f)) (\<lambda>s1. rbind (send_welcome Inr ver s1) (\<lambda>s2.
        rbind (run_command Inr (on_board call) (shell_parser f) s2) (\<lambda>s.
          Inr ((check_link (eth_status r) (f1\<lparr>ses := s1\<rparr>))\<lparr>ses := s\<rparr>))))"
    using assms(2) unfolding main_loop_body_def Let_def fl rbind.simps u f1_def [symmetric]
    by (simp add: brings_def rbind_assoc l keep)
  have sr: "rbind res (\<lambda>s'. Inr (shell_of s')) = user_step call (shell_parser f) ver u (shell_of (ses f))"
    "\<And>s'. res = Inr s' \<Longrightarrow> at_prompt s'"
    using shell_round [OF _ assms(3) res_def] assms(1) unfolding quiet_def by auto
  have "rbind (main_loop_body rv ver Inr (on_board call) r f) (\<lambda>f'. Inr (shell_of (ses f'))) = rbind res (\<lambda>s'. Inr (shell_of s'))"
    unfolding b res_def by (simp add: rbind_assoc)
  moreover have "quiet f' \<and> shell_parser f' = shell_parser f" if r: "main_loop_body rv ver Inr (on_board call) r f = Inr f'" for f'
  proof -
    obtain s1 s where "res = Inr s" "f' = (check_link (eth_status r) (f1\<lparr>ses := s1\<rparr>))\<lparr>ses := s\<rparr>"
      using r unfolding b res_def by (auto simp: rbind_Inr_iff)
    then show ?thesis using sr(2) assms(1) by (simp add: quiet_def l keep)
  qed
  ultimately show ?thesis using sr(1) by simp
qed

text \<open>
  Claim C25. The shell answers: over any rounds of the main loop, with a client that types one key at a
  time and nothing while a command runs (the polls inside \<open>NetPrintf\<close> leave the session as it is), the shell
  behaves as its user sees it. Every line is run as a
  command exactly once, as it was edited, and answered with a prompt; a connection is answered with the welcome and a
  prompt; in between the loop waits for input, with no line pending.
\<close>

theorem main_loop_answers:
  assumes "quiet f" and "list_all2 brings us rs" and "Key 0xff \<notin> set us"
  shows "rbind (main_loop rv ver Inr (on_board call) rs f) (\<lambda>f'. Inr (shell_of (ses f'))) =
      run_list (user_step call (shell_parser f) ver) us (shell_of (ses f)) \<and>
    (\<forall>f'. main_loop rv ver Inr (on_board call) rs f = Inr f' \<longrightarrow> quiet f')"
  using assms(2,1,3)
proof (induction us rs arbitrary: f rule: list_all2_induct)
  case Nil
  then show ?case by (simp add: main_loop_def)
next
  case (Cons u us r rs)
  have u: "u \<noteq> Key 0xff" "Key 0xff \<notin> set us" using Cons.prems(2) by auto
  note one = round_shell [OF Cons.prems(1) Cons.hyps(1) u(1), of rv ver call]
  show ?case
  proof (cases "main_loop_body rv ver Inr (on_board call) r f")
    case (Inl e)
    then have "user_step call (shell_parser f) ver u (shell_of (ses f)) = Inl e" using one by (metis rbind.simps(1))
    with Inl show ?thesis by (simp add: main_loop_def)
  next
    case (Inr f1)
    then have f1: "user_step call (shell_parser f) ver u (shell_of (ses f)) = Inr (shell_of (ses f1))"
      "quiet f1" "shell_parser f1 = shell_parser f" using one by auto
    have "main_loop rv ver Inr (on_board call) (r # rs) f = main_loop rv ver Inr (on_board call) rs f1"
      using Inr by (simp add: main_loop_def)
    then show ?thesis using Cons.IH [OF f1(2) u(2)] f1 by simp
  qed
qed

definition quiet_firmware :: firmware where
  "quiet_firmware = \<lparr>ses = quiet_session, cons = booted, trace = [],
     eth_st = \<lparr>rx_fifo = [], tx_out = [], tx_room = 2000, frames = []\<rparr>, LastUpdate = 0, Led = GPIO_LED_BITS, LastLoop = 0, gEthStatus = 0,
     gIsDZ22 = False, links = [], listening = [], shell_parser = \<lparr>gPrintf = True, gCmdTbl = Some gCmdTable\<rparr>\<rparr>"

definition round_of :: "user \<Rightarrow> round" where
  "round_of u = \<lparr>this_loop = 0, led_now = 0, has_address = False, eth_status = 0x20,
     netif_poll = \<lambda>f. rbind (deliver u (ses f)) (\<lambda>s. Inr (f\<lparr>ses := s\<rparr>))\<rparr>"

text \<open>A client connects, types \<open>go\<close>, rubs out a slip and ends the line, which is not a command.\<close>

theorem main_loop_answers_witness:
  "\<exists>f'. main_loop (\<lambda>_ _. 0) ''v'' Inr (on_board (\<lambda>_ _ b. (RESULT_OK, b, [])))
       (map round_of [Connect 7, Key 103, Key 112, Key 8, No_input, Key 111, Key 13]) quiet_firmware = Inr f' \<and>
     out (ses f') = [Printf ''v'' [], Printf crlf [], prompt, Puts [8, 32, 8],
       Puts (bytes ''Error: Unknown command.'' @ [10]), prompt]"
proof -
  let ?us = "[Connect 7, Key 103, Key 112, Key 8, No_input, Key 111, Key 13]"
  let ?call = "\<lambda>_ _ b. (RESULT_OK, b, []) :: CommandResults_t \<times> board \<times> cstr"
  have q: "quiet quiet_firmware"
    by (simp add: quiet_def quiet_firmware_def at_prompt_def line_ok_def quiet_session_def RX_BUF_LEN_def
        stream_ok_def buffered_def booted_def vt100_init_def vt100_reset_def bss_console_def Let_def)
  have b: "list_all2 brings ?us (map round_of ?us)" by (simp add: brings_def round_of_def)
  have k: "Key 0xff \<notin> set ?us" by simp
  have p: "ParseCmd ?call \<lparr>gPrintf = True, gCmdTbl = Some gCmdTable\<rparr> [103, 111] bd =
      Inr (RESULT_OK, bd, bytes ''Error: Unknown command.'' @ [10])" for bd
  proof -
    have "FindCmd gCmdTable [103, 111] False = Inr (None, bytes ''Error: Unknown command.'' @ [10])" by code_simp
    then show ?thesis by (simp add: ParseCmd_def isspace_def)
  qed
  have "\<exists>b. run_list (user_step ?call (shell_parser quiet_firmware) ''v'') ?us (shell_of (ses quiet_firmware)) = Inr ([], b) \<and>
      out b = [Printf ''v'' [], Printf crlf [], prompt, Puts [8, 32, 8], Puts (bytes ''Error: Unknown command.'' @ [10]), prompt]"
    by (simp add: quiet_firmware_def quiet_session_def shell_of_def line_of_def line_key_def RX_BUF_LEN_def p prints_def board.defs)
  then obtain bd where bd: "run_list (user_step ?call (shell_parser quiet_firmware) ''v'') ?us (shell_of (ses quiet_firmware)) = Inr ([], bd)"
    "out bd = [Printf ''v'' [], Printf crlf [], prompt, Puts [8, 32, 8], Puts (bytes ''Error: Unknown command.'' @ [10]), prompt]"
    by blast
  obtain f' where "main_loop (\<lambda>_ _. 0) ''v'' Inr (on_board ?call) (map round_of ?us) quiet_firmware = Inr f'"
    "shell_of (ses f') = ([], bd)"
    using main_loop_answers [OF q b k, of "\<lambda>_ _. 0" "''v''" ?call] bd(1) by (auto simp: rbind_Inr_iff)
  moreover from this have "out (ses f') = out bd" by (auto simp: shell_of_def board.defs)
  ultimately show ?thesis using bd(2) by auto
qed

text \<open>
  Keys typed while a command runs: the line is still in \<open>gRxBuf\<close> and its count is not yet reset, so the first
  of them overwrites the zero that ends the line being parsed, and when the command is done all of
  them are forgotten.
\<close>

theorem type_ahead_lost:
  assumes "line_ok s" and "\<not> gInputReady s" and "k \<notin> {0xff, 8, 127, 13}"
  shows "\<exists>s1. ShellRecv (Some [k]) s = Inr s1 \<and> gRxBuf s1 = (gRxBuf s)[gRxCount s := k]"
    and "gInputReady s2 \<Longrightarrow> run_command Inr call ps s2 = Inr s3 \<Longrightarrow> line_of s3 = []"
proof -
  show "\<exists>s1. ShellRecv (Some [k]) s = Inr s1 \<and> gRxBuf s1 = (gRxBuf s)[gRxCount s := k]"
    using assms by (auto simp: ShellRecv_def recv_loop.simps [of "[k]"] line_ok_def)
  show "gInputReady s2 \<Longrightarrow> run_command Inr call ps s2 = Inr s3 \<Longrightarrow> line_of s3 = []"
    by (auto simp: run_command_def NetSendPrompt_def net_printf_def rbind_Inr_iff line_of_def)
qed

end
