(* ===== verification/Riscv_Isa.thy ===== *)
theory Riscv_Isa
  imports Prelude
begin

text \<open>
  The instruction set of the simulator under \<open>cores/cpu/riscv/isa_sim\<close> (\<open>riscv_isa.h\<close>): the
  instructions with their masks and match values, in the order in which \<open>Riscv::execute\<close>
  (\<open>riscv.cpp\<close>) tests them, the fields of an opcode, and the constants of the status register,
  the interrupts and the page tables.

  A C++ \<open>int\<close> is a 32-bit word read as signed where the code compares, divides or shifts it to
  the right. Shifting a negative \<open>int\<close> to the left is taken as GCC documents it (two's
  complement).
\<close>

section \<open>Instructions\<close>

datatype (plugins only: code size) eInstructions =
    ENUM_INST_ANDI | ENUM_INST_ADDI | ENUM_INST_SLTI | ENUM_INST_SLTIU | ENUM_INST_ORI
    | ENUM_INST_XORI | ENUM_INST_SLLI | ENUM_INST_SRLI | ENUM_INST_SRAI | ENUM_INST_LUI
    | ENUM_INST_AUIPC | ENUM_INST_ADD | ENUM_INST_SUB | ENUM_INST_SLT | ENUM_INST_SLTU
    | ENUM_INST_XOR | ENUM_INST_OR | ENUM_INST_AND | ENUM_INST_SLL | ENUM_INST_SRL
    | ENUM_INST_SRA | ENUM_INST_JAL | ENUM_INST_JALR | ENUM_INST_BEQ | ENUM_INST_BNE
    | ENUM_INST_BLT | ENUM_INST_BGE | ENUM_INST_BLTU | ENUM_INST_BGEU | ENUM_INST_LB
    | ENUM_INST_LH | ENUM_INST_LW | ENUM_INST_LBU | ENUM_INST_LHU | ENUM_INST_LWU
    | ENUM_INST_SB | ENUM_INST_SH | ENUM_INST_SW | ENUM_INST_ECALL | ENUM_INST_EBREAK
    | ENUM_INST_MRET | ENUM_INST_SRET | ENUM_INST_CSRRW | ENUM_INST_CSRRS | ENUM_INST_CSRRC
    | ENUM_INST_CSRRWI | ENUM_INST_CSRRSI | ENUM_INST_CSRRCI | ENUM_INST_MUL | ENUM_INST_MULH
    | ENUM_INST_MULHSU | ENUM_INST_MULHU | ENUM_INST_DIV | ENUM_INST_DIVU | ENUM_INST_REM
    | ENUM_INST_REMU | ENUM_INST_FENCE | ENUM_INST_WFI

fun inst_names :: "eInstructions \<Rightarrow> string" where
  "inst_names ENUM_INST_ANDI = ''andi''"
| "inst_names ENUM_INST_ADDI = ''addi''"
| "inst_names ENUM_INST_SLTI = ''slti''"
| "inst_names ENUM_INST_SLTIU = ''sltiu''"
| "inst_names ENUM_INST_ORI = ''ori''"
| "inst_names ENUM_INST_XORI = ''xori''"
| "inst_names ENUM_INST_SLLI = ''slli''"
| "inst_names ENUM_INST_SRLI = ''srli''"
| "inst_names ENUM_INST_SRAI = ''srai''"
| "inst_names ENUM_INST_LUI = ''lui''"
| "inst_names ENUM_INST_AUIPC = ''auipc''"
| "inst_names ENUM_INST_ADD = ''add''"
| "inst_names ENUM_INST_SUB = ''sub''"
| "inst_names ENUM_INST_SLT = ''slt''"
| "inst_names ENUM_INST_SLTU = ''sltu''"
| "inst_names ENUM_INST_XOR = ''xor''"
| "inst_names ENUM_INST_OR = ''or''"
| "inst_names ENUM_INST_AND = ''and''"
| "inst_names ENUM_INST_SLL = ''sll''"
| "inst_names ENUM_INST_SRL = ''srl''"
| "inst_names ENUM_INST_SRA = ''sra''"
| "inst_names ENUM_INST_JAL = ''jal''"
| "inst_names ENUM_INST_JALR = ''jalr''"
| "inst_names ENUM_INST_BEQ = ''beq''"
| "inst_names ENUM_INST_BNE = ''bne''"
| "inst_names ENUM_INST_BLT = ''blt''"
| "inst_names ENUM_INST_BGE = ''bge''"
| "inst_names ENUM_INST_BLTU = ''bltu''"
| "inst_names ENUM_INST_BGEU = ''bgeu''"
| "inst_names ENUM_INST_LB = ''lb''"
| "inst_names ENUM_INST_LH = ''lh''"
| "inst_names ENUM_INST_LW = ''lw''"
| "inst_names ENUM_INST_LBU = ''lbu''"
| "inst_names ENUM_INST_LHU = ''lhu''"
| "inst_names ENUM_INST_LWU = ''lwu''"
| "inst_names ENUM_INST_SB = ''sb''"
| "inst_names ENUM_INST_SH = ''sh''"
| "inst_names ENUM_INST_SW = ''sw''"
| "inst_names ENUM_INST_ECALL = ''ecall''"
| "inst_names ENUM_INST_EBREAK = ''ebreak''"
| "inst_names ENUM_INST_MRET = ''mret''"
| "inst_names ENUM_INST_SRET = ''sret''"
| "inst_names ENUM_INST_CSRRW = ''csrw''"
| "inst_names ENUM_INST_CSRRS = ''csrs''"
| "inst_names ENUM_INST_CSRRC = ''csrc''"
| "inst_names ENUM_INST_CSRRWI = ''csrwi''"
| "inst_names ENUM_INST_CSRRSI = ''csrsi''"
| "inst_names ENUM_INST_CSRRCI = ''csrci''"
| "inst_names ENUM_INST_MUL = ''mul''"
| "inst_names ENUM_INST_MULH = ''mulh''"
| "inst_names ENUM_INST_MULHSU = ''mulhsu''"
| "inst_names ENUM_INST_MULHU = ''mulhu''"
| "inst_names ENUM_INST_DIV = ''div''"
| "inst_names ENUM_INST_DIVU = ''divu''"
| "inst_names ENUM_INST_REM = ''rem''"
| "inst_names ENUM_INST_REMU = ''remu''"
| "inst_names ENUM_INST_FENCE = ''fence''"
| "inst_names ENUM_INST_WFI = ''wfi''"

text \<open>An instruction is recognised by \<open>(opcode & MASK) == VALUE\<close>: the name, the mask, the value.\<close>

type_synonym encoding = "eInstructions \<times> u32 \<times> u32"

definition inst_imm :: "encoding list" where
  "inst_imm = [
     (ENUM_INST_ANDI, 0x707f, 0x7013),
     (ENUM_INST_ORI, 0x707f, 0x6013),
     (ENUM_INST_XORI, 0x707f, 0x4013),
     (ENUM_INST_ADDI, 0x707f, 0x13),
     (ENUM_INST_SLTI, 0x707f, 0x2013),
     (ENUM_INST_SLTIU, 0x707f, 0x3013),
     (ENUM_INST_SLLI, 0xfc00707f, 0x1013),
     (ENUM_INST_SRLI, 0xfc00707f, 0x5013),
     (ENUM_INST_SRAI, 0xfc00707f, 0x40005013),
     (ENUM_INST_LUI, 0x7f, 0x37),
     (ENUM_INST_AUIPC, 0x7f, 0x17)]"

definition inst_reg :: "encoding list" where
  "inst_reg = [
     (ENUM_INST_ADD, 0xfe00707f, 0x33),
     (ENUM_INST_SUB, 0xfe00707f, 0x40000033),
     (ENUM_INST_SLT, 0xfe00707f, 0x2033),
     (ENUM_INST_SLTU, 0xfe00707f, 0x3033),
     (ENUM_INST_XOR, 0xfe00707f, 0x4033),
     (ENUM_INST_OR, 0xfe00707f, 0x6033),
     (ENUM_INST_AND, 0xfe00707f, 0x7033),
     (ENUM_INST_SLL, 0xfe00707f, 0x1033),
     (ENUM_INST_SRL, 0xfe00707f, 0x5033),
     (ENUM_INST_SRA, 0xfe00707f, 0x40005033)]"

definition inst_jump :: "encoding list" where
  "inst_jump = [
     (ENUM_INST_JAL, 0x7f, 0x6f),
     (ENUM_INST_JALR, 0x707f, 0x67),
     (ENUM_INST_BEQ, 0x707f, 0x63),
     (ENUM_INST_BNE, 0x707f, 0x1063),
     (ENUM_INST_BLT, 0x707f, 0x4063),
     (ENUM_INST_BGE, 0x707f, 0x5063),
     (ENUM_INST_BLTU, 0x707f, 0x6063),
     (ENUM_INST_BGEU, 0x707f, 0x7063)]"

definition inst_mem :: "encoding list" where
  "inst_mem = [
     (ENUM_INST_LB, 0x707f, 0x3),
     (ENUM_INST_LH, 0x707f, 0x1003),
     (ENUM_INST_LW, 0x707f, 0x2003),
     (ENUM_INST_LBU, 0x707f, 0x4003),
     (ENUM_INST_LHU, 0x707f, 0x5003),
     (ENUM_INST_LWU, 0x707f, 0x6003),
     (ENUM_INST_SB, 0x707f, 0x23),
     (ENUM_INST_SH, 0x707f, 0x1023),
     (ENUM_INST_SW, 0x707f, 0x2023)]"

definition inst_muldiv :: "encoding list" where
  "inst_muldiv = [
     (ENUM_INST_MUL, 0xfe00707f, 0x2000033),
     (ENUM_INST_MULH, 0xfe00707f, 0x2001033),
     (ENUM_INST_MULHSU, 0xfe00707f, 0x2002033),
     (ENUM_INST_MULHU, 0xfe00707f, 0x2003033),
     (ENUM_INST_DIV, 0xfe00707f, 0x2004033),
     (ENUM_INST_DIVU, 0xfe00707f, 0x2005033),
     (ENUM_INST_REM, 0xfe00707f, 0x2006033),
     (ENUM_INST_REMU, 0xfe00707f, 0x2007033)]"

definition inst_system :: "encoding list" where
  "inst_system = [
     (ENUM_INST_ECALL, 0xffffffff, 0x73),
     (ENUM_INST_EBREAK, 0xffffffff, 0x100073),
     (ENUM_INST_MRET, 0xffffffff, 0x30200073),
     (ENUM_INST_SRET, 0xffffffff, 0x10200073),
     (ENUM_INST_FENCE, 0xfe007fff, 0x12000073),
     (ENUM_INST_FENCE, 0x707f, 0xf),
     (ENUM_INST_FENCE, 0x707f, 0x100f),
     (ENUM_INST_CSRRW, 0x707f, 0x1073),
     (ENUM_INST_CSRRS, 0x707f, 0x2073),
     (ENUM_INST_CSRRC, 0x707f, 0x3073),
     (ENUM_INST_CSRRWI, 0x707f, 0x5073),
     (ENUM_INST_CSRRSI, 0x707f, 0x6073),
     (ENUM_INST_CSRRCI, 0x707f, 0x7073)]"

definition inst_wfi :: "encoding list" where
  "inst_wfi = [
     (ENUM_INST_WFI, 0xffff8fff, 0x10500073)]"

definition decode_table :: "encoding list" where
  "decode_table =
     inst_imm @ inst_reg @ inst_jump @ inst_mem @ inst_muldiv @ inst_system @ inst_wfi"

text \<open>The chain of tests of \<open>execute\<close>: the first encoding that fits the opcode decides.\<close>

definition rv_decode :: "u32 \<Rightarrow> eInstructions option" where
  "rv_decode opcode =
     map_option fst (find (\<lambda>(i, m, v). opcode AND m = v) decode_table)"

section \<open>Fields of an opcode\<close>

definition OPCODE_MAKE_MASK :: "nat \<Rightarrow> nat \<Rightarrow> u64" where
  "OPCODE_MAKE_MASK a b = (push_bit (a + 1) 1 - 1) AND NOT (push_bit b 1 - 1)"

definition OPCODE_SHIFT_MASK :: "u32 \<Rightarrow> nat \<Rightarrow> nat \<Rightarrow> u32" where
  "OPCODE_SHIFT_MASK x s n = drop_bit s x AND (push_bit n 1 - 1)"

definition OPCODE_IMM_SIGN :: "u32 \<Rightarrow> u32" where
  "OPCODE_IMM_SIGN x = - (drop_bit 31 x AND 1)"

definition OPCODE_STYPE_IMM :: "u32 \<Rightarrow> u32" where
  "OPCODE_STYPE_IMM x =
     OPCODE_SHIFT_MASK x 7 5 OR push_bit 5 (OPCODE_SHIFT_MASK x 25 7)
       OR push_bit 12 (OPCODE_IMM_SIGN x)"

definition OPCODE_SBTYPE_IMM :: "u32 \<Rightarrow> u32" where
  "OPCODE_SBTYPE_IMM x =
     push_bit 1 (OPCODE_SHIFT_MASK x 8 4) OR push_bit 5 (OPCODE_SHIFT_MASK x 25 6)
       OR push_bit 11 (OPCODE_SHIFT_MASK x 7 1) OR push_bit 12 (OPCODE_IMM_SIGN x)"

definition OPCODE_UJTYPE_IMM :: "u32 \<Rightarrow> u32" where
  "OPCODE_UJTYPE_IMM x =
     push_bit 1 (OPCODE_SHIFT_MASK x 21 10) OR push_bit 11 (OPCODE_SHIFT_MASK x 20 1)
       OR push_bit 12 (OPCODE_SHIFT_MASK x 12 8) OR push_bit 20 (OPCODE_IMM_SIGN x)"

text \<open>\<open>(opcode & MASK) >> s\<close>, and \<open>((signed)(opcode & MASK)) >> s\<close> with its sign.\<close>

definition opcode_bits :: "u32 \<Rightarrow> u64 \<Rightarrow> nat \<Rightarrow> u32" where
  "opcode_bits x m s = ucast (drop_bit s (ucast x AND m))"

definition opcode_signed :: "u32 \<Rightarrow> u64 \<Rightarrow> nat \<Rightarrow> u32" where
  "opcode_signed x m s = signed_drop_bit s (ucast ((ucast x :: u64) AND m))"

record opcode_fields =
  rd :: u32
  rs1 :: u32
  rs2 :: u32
  imm20 :: u32
  imm12 :: u32
  bimm :: u32
  jimm20 :: u32
  storeimm :: u32
  shamt :: u32

definition extract_fields :: "u32 \<Rightarrow> opcode_fields" where
  "extract_fields opcode =
     (let typei_imm = opcode_signed opcode (OPCODE_MAKE_MASK 31 20) 20;
          typeu_imm = opcode_signed opcode (OPCODE_MAKE_MASK 31 12) 12
      in \<lparr> rd = opcode_bits opcode (OPCODE_MAKE_MASK 11 7) 7,
           rs1 = opcode_bits opcode (OPCODE_MAKE_MASK 19 15) 15,
           rs2 = opcode_bits opcode (OPCODE_MAKE_MASK 24 20) 20,
           imm20 = push_bit 12 typeu_imm,
           imm12 = typei_imm,
           bimm = OPCODE_SBTYPE_IMM opcode,
           jimm20 = OPCODE_UJTYPE_IMM opcode,
           storeimm = OPCODE_STYPE_IMM opcode,
           shamt = opcode_signed opcode (OPCODE_MAKE_MASK 25 20) 20 \<rparr>)"

section \<open>Constants\<close>

abbreviation (input) PRIV_USER :: u32 where "PRIV_USER \<equiv> 0"
abbreviation (input) PRIV_SUPER :: u32 where "PRIV_SUPER \<equiv> 1"
abbreviation (input) PRIV_MACHINE :: u32 where "PRIV_MACHINE \<equiv> 3"

abbreviation (input) SR_SIE :: u32 where "SR_SIE \<equiv> 0x2"
abbreviation (input) SR_MIE :: u32 where "SR_MIE \<equiv> 0x8"
abbreviation (input) SR_SPIE :: u32 where "SR_SPIE \<equiv> 0x20"
abbreviation (input) SR_MPIE :: u32 where "SR_MPIE \<equiv> 0x80"
abbreviation (input) SR_SPP :: u32 where "SR_SPP \<equiv> 0x100"
abbreviation (input) SR_MPP :: u32 where "SR_MPP \<equiv> 0x1800"
abbreviation (input) SR_SUM :: u32 where "SR_SUM \<equiv> 0x40000"
abbreviation (input) SR_SMODE_MASK :: u32 where "SR_SMODE_MASK \<equiv> 0x40133"

abbreviation (input) IRQ_MASK :: u32 where "IRQ_MASK \<equiv> 0xAAA"
abbreviation (input) IRQ_S_MASK :: u32 where "IRQ_S_MASK \<equiv> 0x222"
abbreviation (input) SR_IP_STIP :: u32 where "SR_IP_STIP \<equiv> 0x20"
abbreviation (input) SR_IP_MTIP :: u32 where "SR_IP_MTIP \<equiv> 0x80"
abbreviation (input) SR_IP_MEIP :: u32 where "SR_IP_MEIP \<equiv> 0x800"

abbreviation (input) MCAUSE_ILLEGAL_INSTRUCTION :: u32 where "MCAUSE_ILLEGAL_INSTRUCTION \<equiv> 2"
abbreviation (input) MCAUSE_BREAKPOINT :: u32 where "MCAUSE_BREAKPOINT \<equiv> 3"
abbreviation (input) MCAUSE_ECALL_U :: u32 where "MCAUSE_ECALL_U \<equiv> 8"
abbreviation (input) MCAUSE_PAGE_FAULT_INST :: u32 where "MCAUSE_PAGE_FAULT_INST \<equiv> 12"
abbreviation (input) MCAUSE_PAGE_FAULT_LOAD :: u32 where "MCAUSE_PAGE_FAULT_LOAD \<equiv> 13"
abbreviation (input) MCAUSE_PAGE_FAULT_STORE :: u32 where "MCAUSE_PAGE_FAULT_STORE \<equiv> 15"
abbreviation (input) MCAUSE_INTERRUPT :: u32 where "MCAUSE_INTERRUPT \<equiv> 0x80000000"

abbreviation (input) SATP_MODE :: u32 where "SATP_MODE \<equiv> 0x80000000"
abbreviation (input) SATP_PPN_MASK :: u32 where "SATP_PPN_MASK \<equiv> 0x3FFFFF"
abbreviation (input) PAGE_PRESENT :: u32 where "PAGE_PRESENT \<equiv> 0x1"
abbreviation (input) PAGE_READ :: u32 where "PAGE_READ \<equiv> 0x2"
abbreviation (input) PAGE_WRITE :: u32 where "PAGE_WRITE \<equiv> 0x4"
abbreviation (input) PAGE_EXEC :: u32 where "PAGE_EXEC \<equiv> 0x8"
abbreviation (input) PAGE_USER :: u32 where "PAGE_USER \<equiv> 0x10"
abbreviation (input) PAGE_FLAGS :: u32 where "PAGE_FLAGS \<equiv> 0x3FF"

section \<open>The encodings exclude each other\<close>

text \<open>
  Two encodings clash in a bit that both masks select and the two values set differently. All
  encodings but \<open>wfi\<close>, whose mask leaves out the bits that tell it from the CSR instructions,
  clash pairwise, so the order of the tests matters for \<open>wfi\<close> only.
\<close>

fun encodings_clash :: "encoding \<Rightarrow> encoding \<Rightarrow> bool" where
  "encodings_clash (i, m, v) (j, n, w) = (i = j \<or> (v XOR w) AND m AND n \<noteq> 0)"

fun all_clash :: "encoding list \<Rightarrow> bool" where
  "all_clash [] = True"
| "all_clash (e # es) = (list_all (encodings_clash e) es \<and> all_clash es)"

lemma encodings_clashD:
  "\<lbrakk>encodings_clash (i, m, v) (j, n, w); x AND m = v; x AND n = w\<rbrakk> \<Longrightarrow> i = j"
proof -
  assume clash: "encodings_clash (i, m, v) (j, n, w)" and v: "x AND m = v" and w: "x AND n = w"
  have "(v XOR w) AND m AND n = 0"
    by (auto simp: v [symmetric] w [symmetric] intro!: bit_word_eqI simp: bit_simps)
  then show "i = j"
    using clash by simp
qed

lemma encodings_clash_sym: "encodings_clash e f \<Longrightarrow> encodings_clash f e"
  by (cases e; cases f) (auto simp: ac_simps)

lemma all_clash_unique:
  "\<lbrakk>all_clash es; (i, m, v) \<in> set es; (j, n, w) \<in> set es; x AND m = v; x AND n = w\<rbrakk> \<Longrightarrow> i = j"
proof (induction es)
  case (Cons e es)
  show ?case
  proof (cases "(i, m, v) \<in> set es \<and> (j, n, w) \<in> set es \<or> (i, m, v) = (j, n, w)")
    case True
    then show ?thesis
      using Cons by auto
  next
    case False
    then have "encodings_clash (i, m, v) (j, n, w)"
      using Cons.prems(1,2,3) encodings_clash_sym
      by (auto simp: list_all_iff simp del: encodings_clash.simps)
    then show ?thesis
      using Cons.prems(4,5) by (rule encodings_clashD)
  qed
qed simp

lemma groups_clash:
  "all_clash inst_imm" "all_clash (inst_reg @ inst_muldiv)" "all_clash inst_jump"
  "all_clash inst_mem" "all_clash inst_system"
  by code_simp+

text \<open>Every mask selects the low seven bits, and the groups differ in them.\<close>

definition low_bits :: "encoding list \<Rightarrow> u32 set" where
  "low_bits es = (\<lambda>(i, m, v). v AND 0x7f) ` set es"

lemma masks_low: "list_all (\<lambda>(i, m, v). m AND 0x7f = 0x7f) decode_table"
  by code_simp

lemma low_bits_match:
  assumes "(i, m, v) \<in> set es" "set es \<subseteq> set decode_table" "x AND m = v"
  shows "x AND 0x7f \<in> low_bits es"
proof -
  have "m AND 0x7f = 0x7f"
    using masks_low assms(1,2) by (auto simp: list_all_iff)
  then have "x AND 0x7f = v AND 0x7f"
    using assms(3) by (metis and.assoc)
  then show ?thesis
    using assms(1) by (force simp: low_bits_def)
qed

lemma low_bits_groups:
  "low_bits inst_imm = {0x13, 0x37, 0x17}"
  "low_bits (inst_reg @ inst_muldiv) = {0x33}"
  "low_bits inst_jump = {0x6f, 0x67, 0x63}"
  "low_bits inst_mem = {0x03, 0x23}"
  "low_bits inst_system = {0x73, 0x0f}"
  by (auto simp: low_bits_def inst_imm_def inst_reg_def inst_muldiv_def inst_jump_def
      inst_mem_def inst_system_def)

definition plain_table :: "encoding list" where
  "plain_table = inst_imm @ (inst_reg @ inst_muldiv) @ inst_jump @ inst_mem @ inst_system"

lemma set_decode_table: "set decode_table = set plain_table \<union> set inst_wfi"
  by (auto simp: decode_table_def plain_table_def)

lemma plain_unique:
  assumes "(i, m, v) \<in> set plain_table" "(j, n, w) \<in> set plain_table"
    and "x AND m = v" "x AND n = w"
  shows "i = j"
proof -
  define groups where "groups = [inst_imm, inst_reg @ inst_muldiv, inst_jump, inst_mem, inst_system]"
  have clash: "\<forall>g \<in> set groups. all_clash g"
    using groups_clash by (simp add: groups_def)
  have split: "set plain_table = (\<Union>g \<in> set groups. set g)"
    by (auto simp: plain_table_def groups_def)
  have disjoint: "g = h" if "g \<in> set groups" "h \<in> set groups" "low_bits g \<inter> low_bits h \<noteq> {}" for g h
    using that by (auto simp: groups_def low_bits_groups)
  obtain g h where g: "g \<in> set groups" "(i, m, v) \<in> set g" and h: "h \<in> set groups" "(j, n, w) \<in> set h"
    using assms(1,2) split by auto
  have "set g \<subseteq> set decode_table" "set h \<subseteq> set decode_table"
    using g h split set_decode_table by auto
  then have "x AND 0x7f \<in> low_bits g \<inter> low_bits h"
    using low_bits_match [OF g(2) _ assms(3)] low_bits_match [OF h(2) _ assms(4)] by simp
  then have "g = h"
    using disjoint g(1) h(1) by blast
  then show ?thesis
    using all_clash_unique clash g h assms(3,4) by blast
qed

lemma find_match:
  "\<lbrakk>e \<in> set es; P e\<rbrakk> \<Longrightarrow> \<exists>f. find P (es @ fs) = Some f \<and> f \<in> set es \<and> P f"
  by (induction es) auto

theorem decode_plain:
  assumes "(i, m, v) \<in> set plain_table" "x AND m = v"
  shows "rv_decode x = Some i"
proof -
  let ?P = "\<lambda>(i, m, v). x AND m = v"
  let ?es = "inst_imm @ inst_reg @ inst_jump @ inst_mem @ inst_muldiv @ inst_system"
  have "(i, m, v) \<in> set ?es"
    using assms(1) by (auto simp: plain_table_def)
  then obtain f where f: "find ?P (?es @ inst_wfi) = Some f" "f \<in> set ?es" "?P f"
    using find_match [of "(i, m, v)" ?es ?P inst_wfi] assms(2) by auto
  obtain j n w where j: "f = (j, n, w)"
    by (cases f)
  have "(j, n, w) \<in> set plain_table" "x AND n = w"
    using f j by (auto simp: plain_table_def)
  then show ?thesis
    using f(1) j plain_unique [OF assms(1) _ assms(2)] by (simp add: rv_decode_def decode_table_def)
qed

end
