(* ===== verification/Riscv_Memory.thy ===== *)
theory Riscv_Memory
  imports Riscv_Isa
begin

text \<open>
  The memory of the simulator (\<open>memory.h\<close>): an array of 32-bit words with loads and stores of
  one, two and four bytes. It is shown to be a little-endian array of bytes.
\<close>

section \<open>Ways a simulation ends\<close>

text \<open>
  \<open>Exit\<close> is a call of \<open>exit\<close> with its code (\<open>Riscv::error\<close> always exits with \<open>-1\<close>),
  \<open>Assertion\<close> a failed \<open>assert\<close>, \<open>Undefined\<close> an operation whose behaviour the C++ standard
  leaves undefined: a shift by the width or more, an overflow of a signed product, an access
  outside an array.
\<close>

datatype sim_stop = Exit int | Assertion | Undefined

type_synonym 'a sim = "sim_stop + 'a"

section \<open>SimpleMemory\<close>

text \<open>
  The words of the array and the size in bytes. \<open>words\<close> is what the array holds before
  \<open>reset\<close> clears it: a fresh array is not initialised.
\<close>

record simple_memory =
  Mem :: "u32 list"
  Size :: nat

definition SimpleMemory :: "(nat \<Rightarrow> u32) \<Rightarrow> nat \<Rightarrow> simple_memory" where
  "SimpleMemory words n = \<lparr> Mem = map words [0..<(n + 3) div 4], Size = n \<rparr>"

text \<open>\<open>memset(Mem, 0, Size)\<close>: in the last word only the bytes below \<open>Size\<close> are cleared.\<close>

definition mem_reset :: "simple_memory \<Rightarrow> simple_memory" where
  "mem_reset m =
     m\<lparr>Mem := map (\<lambda>i. Mem m ! i AND NOT (mask (8 * (Size m - 4 * i)))) [0..<length (Mem m)]\<rparr>"

definition mem_get :: "simple_memory \<Rightarrow> u32 \<Rightarrow> u32 sim" where
  "mem_get m address =
     (let i = unat (address div 4)
      in if i < length (Mem m) then Inr (Mem m ! i) else Inl Undefined)"

definition mem_set :: "simple_memory \<Rightarrow> u32 \<Rightarrow> u32 \<Rightarrow> simple_memory" where
  "mem_set m address w = m\<lparr>Mem := (Mem m)[unat (address div 4) := w]\<rparr>"

text \<open>The shift that selects the byte or half word of an address in its word.\<close>

definition mem_load :: "simple_memory \<Rightarrow> u32 \<Rightarrow> nat \<Rightarrow> bool \<Rightarrow> u32 sim" where
  "mem_load m address width signedLoad =
     (if width = 4 then
        if address AND 3 \<noteq> 0 then Inl Assertion else mem_get m address
      else if width = 2 then
        if address AND 1 \<noteq> 0 then Inl Assertion
        else rbind (mem_get m address) (\<lambda>w.
          let data = (if address AND 2 \<noteq> 0 then drop_bit 16 w AND 0xFFFF else drop_bit 0 w AND 0xFFFF)
          in Inr (if signedLoad \<and> data AND 0x8000 \<noteq> 0 then data OR 0xFFFF0000 else data))
      else if width = 1 then
        rbind (mem_get m address) (\<lambda>w.
          let data = (if address AND 3 = 3 then drop_bit 24 w AND 0xFF
                      else if address AND 3 = 2 then drop_bit 16 w AND 0xFF
                      else if address AND 3 = 1 then drop_bit 8 w AND 0xFF
                      else drop_bit 0 w AND 0xFF)
          in Inr (if signedLoad \<and> data AND 0x80 \<noteq> 0 then data OR 0xFFFFFF00 else data))
      else Inr 0)"

definition mem_store :: "simple_memory \<Rightarrow> u32 \<Rightarrow> u32 \<Rightarrow> nat \<Rightarrow> simple_memory sim" where
  "mem_store m address data width =
     (if width = 4 then
        if address AND 3 \<noteq> 0 then Inl Assertion
        else rbind (mem_get m address) (\<lambda>w. Inr (mem_set m address data))
      else if width = 2 then
        if address AND 1 \<noteq> 0 then Inl Assertion
        else rbind (mem_get m address) (\<lambda>w. Inr (mem_set m address
          (if address AND 2 \<noteq> 0 then (w AND 0x0000FFFF) OR (push_bit 16 data AND 0xFFFF0000)
           else (w AND 0xFFFF0000) OR (push_bit 0 data AND 0x0000FFFF))))
      else if width = 1 then
        rbind (mem_get m address) (\<lambda>w. Inr (mem_set m address
          (if address AND 3 = 3 then (w AND 0x00FFFFFF) OR (push_bit 24 data AND 0xFF000000)
           else if address AND 3 = 2 then (w AND 0xFF00FFFF) OR (push_bit 16 data AND 0x00FF0000)
           else if address AND 3 = 1 then (w AND 0xFFFF00FF) OR (push_bit 8 data AND 0x0000FF00)
           else (w AND 0xFFFFFF00) OR (push_bit 0 data AND 0x000000FF))))
      else Inr m)"

section \<open>The memory as bytes\<close>

text \<open>
  Byte \<open>a\<close> of the memory, the little-endian value of \<open>n\<close> bytes (extended with its sign for a
  signed load), and the store as an update of \<open>n\<close> bytes.
\<close>

definition mem_byte :: "simple_memory \<Rightarrow> nat \<Rightarrow> u8" where
  "mem_byte m a = ucast (drop_bit (8 * (a mod 4)) (Mem m ! (a div 4)))"

fun le_value :: "(nat \<Rightarrow> u8) \<Rightarrow> nat \<Rightarrow> nat \<Rightarrow> u32" where
  "le_value f a 0 = 0"
| "le_value f a (Suc n) = ucast (f a) + 256 * le_value f (a + 1) n"

definition le_load :: "(nat \<Rightarrow> u8) \<Rightarrow> nat \<Rightarrow> nat \<Rightarrow> bool \<Rightarrow> u32" where
  "le_load f a n s =
     (if s then signed_take_bit (8 * n - 1) (le_value f a n) else le_value f a n)"

definition le_store :: "(nat \<Rightarrow> u8) \<Rightarrow> nat \<Rightarrow> nat \<Rightarrow> u32 \<Rightarrow> nat \<Rightarrow> u8" where
  "le_store f a n d b = (if a \<le> b \<and> b < a + n then ucast (drop_bit (8 * (b - a)) d) else f b)"

lemma byte_plus_256: "ucast (b :: u8) + 256 * w = (ucast b OR push_bit 8 w :: u32)"
proof -
  have "ucast b + push_bit 8 w = (ucast b OR push_bit 8 w :: u32)"
    by (rule disjunctive_add) (auto simp: bit_simps dest: bit_imp_le_length)
  then show ?thesis
    by (simp add: push_bit_eq_mult mult.commute)
qed

lemma bit_le_value:
  "n \<le> 4 \<Longrightarrow> bit (le_value f a n) k \<longleftrightarrow> k < 8 * n \<and> bit (f (a + k div 8)) (k mod 8)"
proof (induction n arbitrary: a k)
  case (Suc n)
  show ?case
  proof (cases "k < 8")
    case True
    then show ?thesis
      by (simp add: byte_plus_256 bit_simps)
  next
    case False
    then obtain j where j: "k = j + 8"
      by (metis le_add_diff_inverse2 linorder_not_less)
    have next_byte: "(j + 8) div 8 = Suc (j div 8)"
      by simp
    have "\<not> bit (f a) k"
      using False by (auto dest: bit_imp_le_length)
    then show ?thesis
      using Suc.prems Suc.IH [of "a + 1" j] next_byte
      by (auto simp: byte_plus_256 bit_simps j div_add_self2)
  qed
qed simp

lemma bits_of_mod_4: "unat (a :: u32) mod 4 = of_bool (bit a 0) + 2 * of_bool (bit a 1)"
proof -
  have "unat a mod 4 = take_bit 2 (unat a)"
    by (simp add: take_bit_nat_def)
  also have "\<dots> = of_bool (bit (unat a) 0) + 2 * of_bool (bit (unat a) 1)"
    by (simp add: numeral_2_eq_2 take_bit_Suc_from_most bit_0)
  finally show ?thesis
    by (simp add: bit_unsigned_iff)
qed

lemma and_low:
  "(a :: u32) AND 3 = 2 * of_bool (bit a 1) + of_bool (bit a 0)"
  "(a :: u32) AND 2 = 2 * of_bool (bit a 1)"
  "(a :: u32) AND 1 = of_bool (bit a 0)"
proof -
  have exp: "a AND 2 ^ n = 2 ^ n * of_bool (bit a n)" for n
    by (rule bit_word_eqI) (auto simp: bit_simps)
  show two: "a AND 2 = 2 * of_bool (bit a 1)" and one: "a AND 1 = of_bool (bit a 0)"
    using exp [of 1] exp [of 0] by simp_all
  have "a AND 3 = (a AND 2) OR (a AND 1)"
    by (simp flip: bit.conj_disj_distrib)
  then show "a AND 3 = 2 * of_bool (bit a 1) + of_bool (bit a 0)"
    by (simp only: one two) auto
qed

lemma mem_get_in:
  "unat a < 4 * length (Mem m) \<Longrightarrow> mem_get m a = Inr (Mem m ! (unat a div 4))"
  by (simp add: mem_get_def unat_div Let_def div_less_iff_less_mult mult.commute)

text \<open>The byte offset of an aligned address in its word, as the bits the code tests.\<close>

lemma byte_in_word:
  assumes "i < 4 - unat (a :: u32) mod 4"
  shows "(unat a + i) div 4 = unat a div 4" "(unat a + i) mod 4 = unat a mod 4 + i"
proof -
  have "unat a + i = 4 * (unat a div 4) + (unat a mod 4 + i)"
    by simp
  moreover have "unat a mod 4 + i < 4"
    using assms by simp
  ultimately show "(unat a + i) div 4 = unat a div 4" "(unat a + i) mod 4 = unat a mod 4 + i"
    by (metis add.right_neutral div_less div_mult_self4 zero_neq_numeral,
        metis mod_less mod_mult_self4)
qed

lemma bit_low_byte: "bit (ucast (w :: u32) :: u8) j \<longleftrightarrow> j < 8 \<and> bit w j"
  by (simp add: bit_ucast_iff)

lemma bit_mem_byte:
  assumes "k < 8 * n" "unat a mod 4 + n \<le> 4"
  shows "bit (mem_byte m (unat (a :: u32) + k div 8)) (k mod 8) =
    bit (Mem m ! (unat a div 4)) (8 * (unat a mod 4) + k)"
proof -
  have "k div 8 < 4 - unat a mod 4"
    using assms by linarith
  then show ?thesis
    using byte_in_word [of "k div 8" a]
    by (simp add: mem_byte_def bit_low_byte bit_drop_bit_eq algebra_simps)
qed

lemma le_value_word:
  assumes "unat a mod 4 + n \<le> 4"
  shows "le_value (mem_byte m) (unat (a :: u32)) n =
    take_bit (8 * n) (drop_bit (8 * (unat a mod 4)) (Mem m ! (unat a div 4)))"
  using assms
  by (intro bit_word_eqI) (auto simp: bit_le_value bit_simps bit_mem_byte)

lemma sign_extend:
  fixes x :: u32
  assumes "take_bit (8 * n) x = x" "n = 1 \<or> n = 2"
  shows "(if x AND 2 ^ (8 * n - 1) \<noteq> 0 then x OR NOT (mask (8 * n)) else x) =
    signed_take_bit (8 * n - 1) x"
proof -
  have high: "\<not> bit x k" if "8 * n \<le> k" for k
    using assms(1) that by (metis bit_take_bit_iff linorder_not_less)
  have "x AND 2 ^ (8 * n - 1) \<noteq> 0 \<longleftrightarrow> bit x (8 * n - 1)"
    by (simp add: and_exp_eq_0_iff_not_bit)
  moreover have "bit (if bit x (8 * n - 1) then x OR NOT (mask (8 * n)) else x) k =
      bit (signed_take_bit (8 * n - 1) x) k" if "k < 32" for k
  proof -
    consider "k < 8 * n - 1" | "k = 8 * n - 1" | "8 * n \<le> k" "8 * n - 1 \<le> k"
      using assms(2) by linarith
    then show ?thesis
      using that high [of k] assms(2)
      by cases (auto simp: bit_signed_take_bit_iff bit_or_iff bit_not_iff bit_mask_iff min_def)
  qed
  ultimately show ?thesis
    by (intro bit_word_eqI) simp
qed

text \<open>The accesses the simulator performs: an aligned address inside the array.\<close>

definition access_ok :: "simple_memory \<Rightarrow> u32 \<Rightarrow> nat \<Rightarrow> bool" where
  "access_ok m a n \<longleftrightarrow>
     n \<in> {1, 2, 4} \<and> unat a mod n = 0 \<and> unat a < 4 * length (Mem m)"

lemma access_inside: "access_ok m a n \<Longrightarrow> unat a mod 4 + n \<le> 4"
proof -
  assume "access_ok m a n"
  then have "n \<in> {1, 2, 4}" "unat a mod n = 0"
    by (simp_all add: access_ok_def)
  then show ?thesis
    by auto presburger
qed

lemma aligned_bits:
  "unat (a :: u32) mod 4 = 0 \<longleftrightarrow> \<not> bit a 0 \<and> \<not> bit a 1"
  "unat (a :: u32) mod 2 = 0 \<longleftrightarrow> \<not> bit a 0"
proof -
  have "unat a mod 2 = unat a mod 4 mod 2"
    by (simp add: mod_mod_cancel)
  then show "unat a mod 4 = 0 \<longleftrightarrow> \<not> bit a 0 \<and> \<not> bit a 1" "unat a mod 2 = 0 \<longleftrightarrow> \<not> bit a 0"
    by (simp_all only: bits_of_mod_4) auto
qed

lemma low_masks:
  "(x :: u32) AND 0xFF = take_bit 8 x" "(x :: u32) AND 0xFFFF = take_bit 16 x"
  "(0xFFFFFF00 :: u32) = NOT (mask 8)" "(0xFFFF0000 :: u32) = NOT (mask 16)"
  by (simp_all add: take_bit_eq_mask mask_eq_exp_minus_1)

lemma narrow_extend:
  fixes x :: u32
  shows "\<lbrakk>take_bit 8 x = x; x AND 0x80 = 0\<rbrakk> \<Longrightarrow> signed_take_bit 7 x = x"
    and "\<lbrakk>take_bit 8 x = x; x AND 0x80 \<noteq> 0\<rbrakk> \<Longrightarrow> signed_take_bit 7 x = x OR NOT (mask 8)"
    and "\<lbrakk>take_bit 16 x = x; x AND 0x8000 = 0\<rbrakk> \<Longrightarrow> signed_take_bit 15 x = x"
    and "\<lbrakk>take_bit 16 x = x; x AND 0x8000 \<noteq> 0\<rbrakk> \<Longrightarrow> signed_take_bit 15 x = x OR NOT (mask 16)"
  using sign_extend [of 1 x] sign_extend [of 2 x] by auto

lemma signed_31: "signed_take_bit 31 (x :: u32) = x"
proof (rule bit_word_eqI)
  fix k assume "k < LENGTH(32)"
  then have "k < 31 \<or> k = 31"
    by auto
  then show "bit (signed_take_bit 31 x) k = bit x k"
    by (auto simp: bit_signed_take_bit_iff)
qed

theorem mem_load_bytes:
  assumes "access_ok m a n"
  shows "mem_load m a n s = Inr (le_load (mem_byte m) (unat a) n s)"
proof -
  have get: "mem_get m a = Inr (Mem m ! (unat a div 4))"
    using assms by (simp add: access_ok_def mem_get_in)
  let ?w = "Mem m ! (unat a div 4)"
  note bytes = le_value_word [OF access_inside [OF assms], of m]
  consider "n = 4" "unat a mod 4 = 0" | "n = 2" "unat a mod 2 = 0" | "n = 1"
    using assms by (auto simp: access_ok_def)
  then show ?thesis
  proof cases
    case 1
    have "le_value (mem_byte m) (unat a) 4 = ?w"
      using bytes 1 by (simp add: take_bit_word_eq_self)
    then show ?thesis
      using 1 get by (simp add: mem_load_def le_load_def and_low aligned_bits signed_31)
  next
    case 2
    then show ?thesis
      using bytes get
      by (cases "bit a 1"; simp add: mem_load_def le_load_def and_low aligned_bits bits_of_mod_4
          low_masks Let_def narrow_extend)
  next
    case 3
    then show ?thesis
      using bytes get
      by (cases "bit a 1"; cases "bit a 0"; simp add: mem_load_def le_load_def and_low aligned_bits
          bits_of_mod_4 low_masks Let_def narrow_extend)
  qed
qed

lemma mem_byte_set:
  "unat a div 4 < length (Mem m) \<Longrightarrow> mem_byte (mem_set m a w) b =
    (if b div 4 = unat a div 4 then ucast (drop_bit (8 * (b mod 4)) w) else mem_byte m b)"
  by (simp add: mem_byte_def mem_set_def unat_div)

text \<open>One word with its \<open>n\<close> bytes from offset \<open>j\<close> on replaced by the low bytes of \<open>d\<close>.\<close>

lemma merged_byte:
  fixes w d :: u32
  assumes "unat a mod 4 + n \<le> 4"
    and "\<And>k. k < 32 \<Longrightarrow> bit w' k =
      (if 8 * (unat a mod 4) \<le> k \<and> k < 8 * (unat a mod 4) + 8 * n then bit d (k - 8 * (unat a mod 4))
       else bit (Mem m ! (unat a div 4)) k)"
    and "unat a div 4 < length (Mem m)"
  shows "mem_byte (mem_set m a w') = le_store (mem_byte m) (unat a) n d"
proof
  fix b
  show "mem_byte (mem_set m a w') b = le_store (mem_byte m) (unat a) n d b"
  proof (cases "b div 4 = unat a div 4")
    case False
    have "\<not> (unat a \<le> b \<and> b < unat a + n)"
    proof
      assume b: "unat a \<le> b \<and> b < unat a + n"
      then have "b - unat a < 4 - unat a mod 4"
        using assms(1) by linarith
      then show False
        using byte_in_word(1) [of "b - unat a" a] b False by simp
    qed
    then show ?thesis
      using False assms(3) by (auto simp: mem_byte_set le_store_def)
  next
    case True
    have inside: "unat a \<le> b \<and> b < unat a + n \<longleftrightarrow> unat a mod 4 \<le> b mod 4 \<and> b mod 4 < unat a mod 4 + n"
      "unat a \<le> b \<Longrightarrow> b - unat a = b mod 4 - unat a mod 4"
    proof -
      have "unat a = 4 * (b div 4) + unat a mod 4" "b = 4 * (b div 4) + b mod 4"
        using True by (metis mult_div_mod_eq)+
      then show "unat a \<le> b \<and> b < unat a + n \<longleftrightarrow> unat a mod 4 \<le> b mod 4 \<and> b mod 4 < unat a mod 4 + n"
        "unat a \<le> b \<Longrightarrow> b - unat a = b mod 4 - unat a mod 4"
        by linarith+
    qed
    have "bit (ucast (drop_bit (8 * (b mod 4)) w') :: u8) k = bit (le_store (mem_byte m) (unat a) n d b) k"
      if k: "k < 8" for k
    proof -
      have "8 * (b mod 4) + k < 32"
        using k mod_less_divisor [of 4 b] by linarith
      then have bits: "bit w' (8 * (b mod 4) + k) =
          (if 8 * (unat a mod 4) \<le> 8 * (b mod 4) + k \<and> 8 * (b mod 4) + k < 8 * (unat a mod 4) + 8 * n
           then bit d (8 * (b mod 4) + k - 8 * (unat a mod 4))
           else bit (Mem m ! (unat a div 4)) (8 * (b mod 4) + k))"
        by (rule assms(2))
      show ?thesis
      proof (cases "unat a mod 4 \<le> b mod 4 \<and> b mod 4 < unat a mod 4 + n")
        case True
        then have "8 * (unat a mod 4) \<le> 8 * (b mod 4) + k"
          "8 * (b mod 4) + k < 8 * (unat a mod 4) + 8 * n"
          "8 * (b mod 4) + k - 8 * (unat a mod 4) = 8 * (b mod 4 - unat a mod 4) + k"
          using k by linarith+
        then show ?thesis
          using bits True inside k by (simp add: bit_low_byte bit_drop_bit_eq le_store_def)
      next
        case outside: False
        then have "\<not> (8 * (unat a mod 4) \<le> 8 * (b mod 4) + k \<and>
            8 * (b mod 4) + k < 8 * (unat a mod 4) + 8 * n)"
          using k by linarith
        then show ?thesis
          using bits outside inside(1) k True
          by (auto simp: bit_low_byte bit_drop_bit_eq le_store_def mem_byte_def)
      qed
    qed
    then have "ucast (drop_bit (8 * (b mod 4)) w') = le_store (mem_byte m) (unat a) n d b"
      by (intro bit_word_eqI) simp
    then show ?thesis
      using True assms(3) by (simp add: mem_byte_set)
  qed
qed

lemma lane_masks:
  "(0x0000FFFF :: u32) = mask 16" "(0xFFFF0000 :: u32) = NOT (mask 16)"
  "(0x00FFFFFF :: u32) = mask 24" "(0xFF000000 :: u32) = NOT (mask 24)"
  "(0x00FF0000 :: u32) = push_bit 16 (mask 8)" "(0xFF00FFFF :: u32) = NOT (push_bit 16 (mask 8))"
  "(0x0000FF00 :: u32) = push_bit 8 (mask 8)" "(0xFFFF00FF :: u32) = NOT (push_bit 8 (mask 8))"
  "(0x000000FF :: u32) = mask 8" "(0xFFFFFF00 :: u32) = NOT (mask 8)"
  by (simp_all add: mask_eq_exp_minus_1)

lemma store_byte:
  assumes "access_ok m a n" "mem_store m a d n = Inr (mem_set m a w')"
    and "\<And>k. k < 32 \<Longrightarrow> bit w' k =
      (if 8 * (unat a mod 4) \<le> k \<and> k < 8 * (unat a mod 4) + 8 * n then bit d (k - 8 * (unat a mod 4))
       else bit (Mem m ! (unat a div 4)) k)"
  shows "\<exists>m'. mem_store m a d n = Inr m' \<and> mem_byte m' = le_store (mem_byte m) (unat a) n d \<and>
    length (Mem m') = length (Mem m) \<and> Size m' = Size m"
proof -
  have "unat a div 4 < length (Mem m)"
    using assms(1) by (simp add: access_ok_def div_less_iff_less_mult mult.commute)
  then have "mem_byte (mem_set m a w') = le_store (mem_byte m) (unat a) n d"
    using merged_byte [OF access_inside [OF assms(1)] assms(3)] by blast
  then show ?thesis
    using assms(2) by (simp add: mem_set_def)
qed

theorem mem_store_bytes:
  assumes "access_ok m a n"
  shows "\<exists>m'. mem_store m a d n = Inr m' \<and> mem_byte m' = le_store (mem_byte m) (unat a) n d \<and>
    length (Mem m') = length (Mem m) \<and> Size m' = Size m"
proof -
  have get: "mem_get m a = Inr (Mem m ! (unat a div 4))"
    using assms by (simp add: access_ok_def mem_get_in)
  consider "n = 4" "unat a mod 4 = 0" | "n = 2" "unat a mod 2 = 0" | "n = 1"
    using assms by (auto simp: access_ok_def)
  then show ?thesis
  proof cases
    case 1
    then show ?thesis
      using get by (intro store_byte [OF assms, where w' = d])
        (auto simp: mem_store_def and_low aligned_bits bits_of_mod_4)
  next
    case 2
    then show ?thesis
      using get
      by (cases "bit a 1"; intro store_byte [OF assms])
        (auto simp: mem_store_def and_low aligned_bits bits_of_mod_4 lane_masks bit_simps
          not_le not_less)
  next
    case 3
    then show ?thesis
      using get
      by (cases "bit a 1"; cases "bit a 0"; intro store_byte [OF assms])
        (auto simp: mem_store_def and_low aligned_bits bits_of_mod_4 lane_masks bit_simps
          not_le not_less)
  qed
qed

lemma reset_bytes:
  assumes "a < n"
  shows "mem_byte (mem_reset (SimpleMemory words n)) a = 0"
proof -
  have "a div 4 < (n + 3) div 4" "a mod 4 < n - 4 * (a div 4)"
    using assms by presburger+
  then have "8 * (a mod 4) + k < 8 * (n - 4 * (a div 4))" if "k < 8" for k
    using that by linarith
  then show ?thesis
    using \<open>a div 4 < (n + 3) div 4\<close>
    by (intro bit_word_eqI) (simp add: mem_byte_def mem_reset_def SimpleMemory_def bit_low_byte
        bit_drop_bit_eq bit_and_iff bit_not_iff bit_mask_iff)
qed

end
