(* ===== verification/Riscv_Cpu.thy ===== *)
theory Riscv_Cpu
  imports Riscv_Memory
begin

text \<open>
  The processor of the simulator (\<open>riscv.h\<close>, \<open>riscv.cpp\<close>): its state, reset, the memory
  regions, address translation (the build of the makefile, with \<open>CONFIG_MMU\<close>), loads and
  stores, the control and status registers, and traps. Trace output (\<open>DPRINTF\<close>) and the
  statistics interface, which only observes, are left out.
\<close>

section \<open>State\<close>

record mem_region =
  m_mem :: simple_memory
  m_mem_base :: u32
  m_mem_size :: u32

datatype cosim_event = COSIM_EVENT_LOAD | COSIM_EVENT_LOAD_RESULT | COSIM_EVENT_STORE

text \<open>
  What the simulated program prints: a character, or a \<open>printf\<close> with its format string and four
  arguments, which the C library renders. \<open>m_console\<close> is \<open>None\<close> for the null pointer, else
  the characters its \<open>getchar\<close> will return.
\<close>

datatype console_out = Putc u8 | Printf "u8 list" "u32 list"

record riscv =
  m_gpr :: "u32 list"
  m_pc :: u32
  m_pc_x :: u32
  m_csr_mepc :: u32
  m_csr_mcause :: u32
  m_csr_msr :: u32
  m_csr_mpriv :: u32
  m_csr_mevec :: u32
  m_csr_mie :: u32
  m_csr_mip :: u32
  m_csr_mtime :: u64
  m_csr_mtimecmp :: u64
  m_csr_mscratch :: u32
  m_csr_mideleg :: u32
  m_csr_medeleg :: u32
  m_csr_sepc :: u32
  m_csr_sevec :: u32
  m_csr_scause :: u32
  m_csr_stval :: u32
  m_csr_satp :: u32
  m_csr_sscratch :: u32
  m_regions :: "mem_region list"
  m_fault :: bool
  m_break :: bool
  m_trace :: u32
  m_has_breakpoints :: bool
  m_breakpoints :: "u32 list"
  m_stats :: "u32 list"
  m_console :: "(nat \<Rightarrow> u32) option"
  console :: "console_out list"
  event_q :: "cosim_event \<Rightarrow> (u32 \<times> u32) list"

definition STATS_INSTRUCTIONS :: nat where "STATS_INSTRUCTIONS = 0"
definition STATS_LOADS :: nat where "STATS_LOADS = 1"
definition STATS_STORES :: nat where "STATS_STORES = 2"
definition STATS_BRANCHES :: nat where "STATS_BRANCHES = 3"

definition count_stat :: "nat \<Rightarrow> riscv \<Rightarrow> riscv" where
  "count_stat i c = c\<lparr>m_stats := (m_stats c)[i := m_stats c ! i + 1]\<rparr>"

definition event_push :: "cosim_event \<Rightarrow> u32 \<Rightarrow> u32 \<Rightarrow> riscv \<Rightarrow> riscv" where
  "event_push ev arg1 arg2 c =
     c\<lparr>event_q := (event_q c)(ev := event_q c ev @ [(arg1, arg2)])\<rparr>"

definition stats_reset :: "riscv \<Rightarrow> riscv" where
  "stats_reset c = c\<lparr>m_stats := replicate 4 0\<rparr>"

definition rv_reset :: "u32 \<Rightarrow> riscv \<Rightarrow> riscv" where
  "rv_reset start_addr c = stats_reset
     (c\<lparr>m_pc := start_addr, m_pc_x := start_addr, m_gpr := replicate 32 0,
        m_csr_mpriv := PRIV_MACHINE, m_csr_msr := 0, m_csr_mideleg := 0, m_csr_medeleg := 0,
        m_csr_mepc := 0, m_csr_mie := 0, m_csr_mip := 0, m_csr_mcause := 0, m_csr_mevec := 0,
        m_csr_mtime := 0, m_csr_mtimecmp := 0, m_csr_mscratch := 0,
        m_csr_sepc := 0, m_csr_sevec := 0, m_csr_scause := 0, m_csr_stval := 0,
        m_csr_satp := 0, m_csr_sscratch := 0,
        m_fault := False, m_break := False, m_trace := 0\<rparr>)"

section \<open>Memory regions\<close>

text \<open>
  \<open>new uint32_t[(size + 3) / 4]\<close> with an \<open>int\<close> size: from \<open>2\<^sup>3\<^sup>1 - 3\<close> bytes on the sum
  overflows or the size is negative. \<open>words\<close> is what the array holds before it is cleared.
\<close>

definition attach_memory :: "simple_memory \<Rightarrow> u32 \<Rightarrow> u32 \<Rightarrow> riscv \<Rightarrow> bool \<times> riscv" where
  "attach_memory memory baseAddr len c =
     (if length (m_regions c) < 16
      then (True, c\<lparr>m_regions := m_regions c @
              [\<lparr>m_mem = mem_reset memory, m_mem_base = baseAddr, m_mem_size = len\<rparr>]\<rparr>)
      else (False, c))"

definition create_memory :: "(nat \<Rightarrow> u32) \<Rightarrow> u32 \<Rightarrow> u32 \<Rightarrow> riscv \<Rightarrow> (bool \<times> riscv) sim" where
  "create_memory words baseAddr len c =
     (if unat len < 2 ^ 31 - 3
      then Inr (attach_memory (SimpleMemory words (unat len)) baseAddr len c)
      else Inl Undefined)"

definition in_region :: "u32 \<Rightarrow> mem_region \<Rightarrow> bool" where
  "in_region address r \<longleftrightarrow> m_mem_base r \<le> address \<and> address < m_mem_base r + m_mem_size r"

definition valid_addr :: "u32 \<Rightarrow> riscv \<Rightarrow> bool" where
  "valid_addr address c = list_ex (in_region address) (m_regions c)"

text \<open>The loop over the regions: the number of the first one that holds the address.\<close>

fun region_of :: "u32 \<Rightarrow> mem_region list \<Rightarrow> nat \<Rightarrow> nat option" where
  "region_of address [] j = None"
| "region_of address (r # rs) j =
     (if in_region address r then Some j else region_of address rs (j + 1))"

definition region_load :: "u32 \<Rightarrow> nat \<Rightarrow> bool \<Rightarrow> nat \<Rightarrow> riscv \<Rightarrow> u32 sim" where
  "region_load address width signedLoad j c =
     (let r = m_regions c ! j in mem_load (m_mem r) (address - m_mem_base r) width signedLoad)"

definition region_store :: "u32 \<Rightarrow> u32 \<Rightarrow> nat \<Rightarrow> nat \<Rightarrow> riscv \<Rightarrow> riscv sim" where
  "region_store address data width j c =
     (let r = m_regions c ! j
      in rbind (mem_store (m_mem r) (address - m_mem_base r) data width) (\<lambda>m.
           Inr (c\<lparr>m_regions := (m_regions c)[j := r\<lparr>m_mem := m\<rparr>]\<rparr>)))"

definition rv_write :: "u32 \<Rightarrow> u8 \<Rightarrow> riscv \<Rightarrow> riscv sim" where
  "rv_write address data c =
     (case region_of address (m_regions c) 0 of
        Some j \<Rightarrow> region_store address (ucast data) 1 j c
      | None \<Rightarrow> Inl (Exit (- 1)))"

definition rv_write32 :: "u32 \<Rightarrow> u32 \<Rightarrow> riscv \<Rightarrow> riscv sim" where
  "rv_write32 address data c =
     (case region_of address (m_regions c) 0 of
        Some j \<Rightarrow> region_store address data 4 j c
      | None \<Rightarrow> Inl (Exit (- 1)))"

definition rv_read :: "u32 \<Rightarrow> riscv \<Rightarrow> u8 sim" where
  "rv_read address c =
     (case region_of address (m_regions c) 0 of
        Some j \<Rightarrow> rbind (region_load address 1 False j c) (\<lambda>w. Inr (ucast w))
      | None \<Rightarrow> Inr 0)"

definition rv_read32 :: "u32 \<Rightarrow> riscv \<Rightarrow> u32 sim" where
  "rv_read32 address c =
     (case region_of address (m_regions c) 0 of
        Some j \<Rightarrow> region_load address 4 False j c
      | None \<Rightarrow> Inr 0)"

definition get_opcode :: "u32 \<Rightarrow> riscv \<Rightarrow> u32 sim" where
  "get_opcode address = rv_read32 address"

section \<open>Traps\<close>

definition rv_exception :: "u32 \<Rightarrow> u32 \<Rightarrow> u32 \<Rightarrow> riscv \<Rightarrow> riscv sim" where
  "rv_exception cause pc badaddr c =
     (let interrupt = (MCAUSE_INTERRUPT \<le> cause);
          deleg = (if interrupt then m_csr_mideleg c else m_csr_medeleg c);
          n = unat (if interrupt then cause - MCAUSE_INTERRUPT else cause)
      in if 32 \<le> n then Inl Undefined
         else if m_csr_mpriv c \<le> PRIV_SUPER \<and> deleg AND push_bit n 1 \<noteq> 0 then
           (let s = m_csr_msr c AND NOT SR_SPIE;
                s = s OR (if s AND SR_SIE \<noteq> 0 then SR_SPIE else 0);
                s = s AND NOT SR_SIE;
                s = s AND NOT SR_SPP;
                s = s OR (if m_csr_mpriv c = PRIV_SUPER then SR_SPP else 0)
            in Inr (c\<lparr>m_csr_mpriv := PRIV_SUPER, m_csr_msr := s, m_csr_sepc := pc,
                      m_csr_scause := cause, m_csr_stval := badaddr, m_pc := m_csr_sevec c\<rparr>))
         else
           (let s = m_csr_msr c AND NOT SR_MPIE;
                s = s OR (if s AND SR_MIE \<noteq> 0 then SR_MPIE else 0);
                s = s AND NOT SR_MIE;
                s = s AND NOT SR_MPP;
                s = s OR push_bit 11 (m_csr_mpriv c)
            in Inr (c\<lparr>m_csr_mpriv := PRIV_MACHINE, m_csr_msr := s, m_csr_mepc := pc,
                      m_csr_mcause := cause, m_pc := m_csr_mevec c\<rparr>)))"

section \<open>Address translation\<close>

definition mmu_read_word :: "u32 \<Rightarrow> riscv \<Rightarrow> (u32 option) sim" where
  "mmu_read_word address c =
     (case region_of address (m_regions c) 0 of
        Some m \<Rightarrow> rbind (region_load address 4 False m c) (\<lambda>w. Inr (Some w))
      | None \<Rightarrow> Inr None)"

text \<open>
  One entry that is not a pointer to the next level: its address, with the permission bits, for
  a page of \<open>2 ^ ptshift\<close> base pages.
\<close>

definition leaf_pte :: "u32 \<Rightarrow> u32 \<Rightarrow> nat \<Rightarrow> u64" where
  "leaf_pte pte addr ptshift =
     (let ppn = drop_bit 10 pte;
          vpn = ucast (drop_bit 12 addr)
      in push_bit 12 (ucast ppn OR (vpn AND (push_bit ptshift 1 - 1)))
           OR ucast (pte AND PAGE_FLAGS))"

text \<open>
  The loop of the walk. The counter \<open>i\<close> is unsigned, so \<open>i >= 0\<close> always holds: after level 0
  the walk goes on with \<open>ptshift = -10\<close>, and then with a negative shift, which is undefined.
  \<open>ptshift\<close> is the integer \<open>i * MMU_PTIDXBITS\<close>.
\<close>

function walk_levels :: "riscv \<Rightarrow> u32 \<Rightarrow> int \<Rightarrow> u32 \<Rightarrow> u32 sim" where
  "walk_levels c addr ptshift base =
     (if 12 + ptshift < 0 then Inl Undefined
      else
        let idx = drop_bit (nat (12 + ptshift)) addr AND 0x3FF;
            pte_addr = base + idx * 4
        in rbind (mmu_read_word pte_addr c) (\<lambda>entry. case entry of
             None \<Rightarrow> Inr 0
           | Some pte \<Rightarrow>
               if pte AND PAGE_PRESENT = 0 then Inr 0
               else if pte AND (PAGE_READ OR PAGE_WRITE OR PAGE_EXEC) = 0 then
                 walk_levels c addr (ptshift - 10) (push_bit 12 (drop_bit 10 pte))
               else if ptshift < 0 then Inl Undefined
               else
                 let value = leaf_pte pte addr (nat ptshift)
                 in if drop_bit 32 value \<noteq> 0 then Inl Assertion
                    else rbind (mmu_read_word (push_bit 12 (drop_bit 12 (ucast value))) c)
                      (\<lambda>target. if target = None then Inl (Exit (- 1)) else Inr (ucast value))))"
  by pat_completeness auto
termination
  by (relation "measure (\<lambda>(c, addr, ptshift, base). nat (ptshift + 20))") auto

declare walk_levels.simps [simp del]

text \<open>With 32 address bits the test for a canonical address shifts by zero and always holds.\<close>

definition mmu_walk :: "u32 \<Rightarrow> riscv \<Rightarrow> u32 sim" where
  "mmu_walk addr c =
     (if signed_drop_bit (32 - 32) (push_bit (32 - 32) addr) \<noteq> addr then Inl (Exit (- 1))
      else if m_csr_satp c AND SATP_MODE = 0 then
        Inr (PAGE_PRESENT OR PAGE_READ OR PAGE_WRITE OR PAGE_EXEC OR push_bit 12 (drop_bit 12 addr))
      else
        let base = (m_csr_satp c AND SATP_PPN_MASK) * 4096
        in walk_levels c addr 10 base)"

text \<open>A translation yields the physical address, or \<open>None\<close> with the page fault taken.\<close>

definition page_address :: "u32 \<Rightarrow> u32 \<Rightarrow> u32" where
  "page_address pte addr = push_bit 12 (drop_bit 12 pte) + (addr AND 0xFFF)"

definition mmu_i_translate :: "u32 \<Rightarrow> riscv \<Rightarrow> (u32 option \<times> riscv) sim" where
  "mmu_i_translate addr c =
     (if PRIV_SUPER < m_csr_mpriv c then Inr (Some addr, c)
      else rbind (mmu_walk addr c) (\<lambda>pte.
        let rwx = pte AND (PAGE_EXEC OR PAGE_READ OR PAGE_WRITE);
            fault = rbind (rv_exception MCAUSE_PAGE_FAULT_INST addr addr c) (\<lambda>c. Inr (None, c));
            success = Inr (Some (page_address pte addr), c)
        in if rwx = PAGE_WRITE \<or> rwx = PAGE_EXEC OR PAGE_WRITE then fault
           else if m_csr_mpriv c = PRIV_SUPER then
             if pte AND PAGE_USER \<noteq> 0 then Inl (Exit (- 1))
             else if pte AND PAGE_EXEC \<noteq> PAGE_EXEC then fault
             else success
           else if pte AND (PAGE_EXEC OR PAGE_USER) \<noteq> PAGE_EXEC OR PAGE_USER then fault
           else success))"

definition mmu_d_translate :: "u32 \<Rightarrow> u32 \<Rightarrow> bool \<Rightarrow> riscv \<Rightarrow> (u32 option \<times> riscv) sim" where
  "mmu_d_translate pc addr writeNotRead c =
     (if PRIV_SUPER < m_csr_mpriv c then Inr (Some addr, c)
      else rbind (mmu_walk addr c) (\<lambda>pte.
        let rwx = pte AND (PAGE_EXEC OR PAGE_READ OR PAGE_WRITE);
            cause = (if writeNotRead then MCAUSE_PAGE_FAULT_STORE else MCAUSE_PAGE_FAULT_LOAD);
            fault = rbind (rv_exception cause pc addr c) (\<lambda>c. Inr (None, c));
            success = Inr (Some (page_address pte addr), c);
            need = (if writeNotRead then PAGE_WRITE else PAGE_READ)
        in if rwx = PAGE_WRITE \<or> rwx = PAGE_EXEC OR PAGE_WRITE then fault
           else if m_csr_mpriv c = PRIV_SUPER then
             if pte AND PAGE_USER \<noteq> 0 \<and> m_csr_msr c AND SR_SUM = 0 then Inl (Exit (- 1))
             else if pte AND need \<noteq> need then fault
             else success
           else if pte AND (need OR PAGE_USER) \<noteq> need OR PAGE_USER then fault
           else success))"

section \<open>Loads and stores\<close>

text \<open>The loaded value, or \<open>None\<close> when a page fault was taken.\<close>

definition rv_load :: "u32 \<Rightarrow> u32 \<Rightarrow> nat \<Rightarrow> bool \<Rightarrow> riscv \<Rightarrow> (u32 option \<times> riscv) sim" where
  "rv_load pc address width signedLoad c =
     rbind (mmu_d_translate pc address False c) (\<lambda>(physical, c). case physical of
       None \<Rightarrow> Inr (None, c)
     | Some physical \<Rightarrow>
         let c = count_stat STATS_LOADS (event_push COSIM_EVENT_LOAD (physical AND NOT 3) 0 c)
         in case region_of physical (m_regions c) 0 of
              None \<Rightarrow> Inl (Exit (- 1))
            | Some j \<Rightarrow> rbind (region_load physical width signedLoad j c) (\<lambda>result.
                Inr (Some result, event_push COSIM_EVENT_LOAD_RESULT result 0 c)))"

definition rv_store :: "u32 \<Rightarrow> u32 \<Rightarrow> u32 \<Rightarrow> nat \<Rightarrow> riscv \<Rightarrow> (bool \<times> riscv) sim" where
  "rv_store pc address data width c =
     rbind (mmu_d_translate pc address True c) (\<lambda>(physical, c). case physical of
       None \<Rightarrow> Inr (False, c)
     | Some physical \<Rightarrow>
         let c = count_stat STATS_STORES c;
             c = (if width = 1 then event_push COSIM_EVENT_STORE (physical AND NOT 3) (data AND 0xFF) c
                  else if width = 2 then
                    event_push COSIM_EVENT_STORE (physical AND NOT 3) (data AND 0xFFFF) c
                  else event_push COSIM_EVENT_STORE physical data c)
         in case region_of physical (m_regions c) 0 of
              None \<Rightarrow> Inl (Exit (- 1))
            | Some j \<Rightarrow> rbind (region_store physical data width j c) (\<lambda>c. Inr (True, c)))"

section \<open>Control and status registers\<close>

abbreviation (input) CSR_SSTATUS :: u32 where "CSR_SSTATUS \<equiv> 0x100"
abbreviation (input) CSR_SIE :: u32 where "CSR_SIE \<equiv> 0x104"
abbreviation (input) CSR_STVEC :: u32 where "CSR_STVEC \<equiv> 0x105"
abbreviation (input) CSR_SSCRATCH :: u32 where "CSR_SSCRATCH \<equiv> 0x140"
abbreviation (input) CSR_SEPC :: u32 where "CSR_SEPC \<equiv> 0x141"
abbreviation (input) CSR_SCAUSE :: u32 where "CSR_SCAUSE \<equiv> 0x142"
abbreviation (input) CSR_STVAL :: u32 where "CSR_STVAL \<equiv> 0x143"
abbreviation (input) CSR_SIP :: u32 where "CSR_SIP \<equiv> 0x144"
abbreviation (input) CSR_SATP :: u32 where "CSR_SATP \<equiv> 0x180"
abbreviation (input) CSR_MSTATUS :: u32 where "CSR_MSTATUS \<equiv> 0x300"
abbreviation (input) CSR_MISA :: u32 where "CSR_MISA \<equiv> 0x301"
abbreviation (input) CSR_MEDELEG :: u32 where "CSR_MEDELEG \<equiv> 0x302"
abbreviation (input) CSR_MIDELEG :: u32 where "CSR_MIDELEG \<equiv> 0x303"
abbreviation (input) CSR_MIE :: u32 where "CSR_MIE \<equiv> 0x304"
abbreviation (input) CSR_MTVEC :: u32 where "CSR_MTVEC \<equiv> 0x305"
abbreviation (input) CSR_MSCRATCH :: u32 where "CSR_MSCRATCH \<equiv> 0x340"
abbreviation (input) CSR_MEPC :: u32 where "CSR_MEPC \<equiv> 0x341"
abbreviation (input) CSR_MCAUSE :: u32 where "CSR_MCAUSE \<equiv> 0x342"
abbreviation (input) CSR_MIP :: u32 where "CSR_MIP \<equiv> 0x344"
abbreviation (input) CSR_PMPCFG0 :: u32 where "CSR_PMPCFG0 \<equiv> 0x3a0"
abbreviation (input) CSR_PMPCFG1 :: u32 where "CSR_PMPCFG1 \<equiv> 0x3a1"
abbreviation (input) CSR_PMPCFG2 :: u32 where "CSR_PMPCFG2 \<equiv> 0x3a2"
abbreviation (input) CSR_PMPADDR0 :: u32 where "CSR_PMPADDR0 \<equiv> 0x3b0"
abbreviation (input) CSR_DSCRATCH :: u32 where "CSR_DSCRATCH \<equiv> 0x7b2"
abbreviation (input) CSR_SIM_CTRL :: u32 where "CSR_SIM_CTRL \<equiv> 0x8b2"
abbreviation (input) CSR_MTIME :: u32 where "CSR_MTIME \<equiv> 0xc01"
abbreviation (input) CSR_MTIMEH :: u32 where "CSR_MTIMEH \<equiv> 0xc81"
abbreviation (input) CSR_MHARTID :: u32 where "CSR_MHARTID \<equiv> 0xF14"

text \<open>\<open>RV32\<close> with the extensions I, M, S and U.\<close>

abbreviation (input) MISA_VALUE :: u32 where "MISA_VALUE \<equiv> 0x40141100"

text \<open>
  The loop that copies the format string: at most 1023 characters, and \<open>sprintf\<close> reads beyond
  them when none of them is the terminating zero.
\<close>

fun read_format :: "nat \<Rightarrow> u32 \<Rightarrow> riscv \<Rightarrow> u8 list sim" where
  "read_format 0 addr c = Inl Undefined"
| "read_format (Suc n) addr c =
     rbind (rv_read addr c) (\<lambda>b.
       if b = 0 then Inr [] else rbind (read_format n (addr + 1) c) (\<lambda>bs. Inr (b # bs)))"

definition sim_control :: "u32 \<Rightarrow> riscv \<Rightarrow> (u32 \<times> riscv) sim" where
  "sim_control data c =
     (let op = data AND 0xFF000000
      in if op = 0 then Inl (Exit (uint (data AND 0xFF)))
         else if op = 0x01000000 then
           Inr (0, c\<lparr>console := console c @ [Putc (ucast (data AND 0xFF))]\<rparr>)
         else if op = 0x02000000 then
           (case m_console c of
              Some input \<Rightarrow> Inr (input 0, c\<lparr>m_console := Some (\<lambda>n. input (n + 1))\<rparr>)
            | None \<Rightarrow> Inr (0, c))
         else if op = 0x04000000 then Inr (0, c\<lparr>m_trace := data AND 0xFF\<rparr>)
         else if op = 0x05000000 then
           rbind (mmu_walk (m_gpr c ! 10) c) (\<lambda>pte.
             let fmt_addr = (if pte \<noteq> 0 then page_address pte (m_gpr c ! 10) else m_gpr c ! 10)
             in rbind (read_format 1023 fmt_addr c) (\<lambda>fmt_str.
                  Inr (0, c\<lparr>console := console c @ [Printf fmt_str (take 4 (drop 11 (m_gpr c)))]\<rparr>)))
         else Inr (0, c))"

text \<open>The macro \<open>CSR_STD\<close>: the value read and the new value of the variable.\<close>

definition csr_std :: "u32 \<Rightarrow> u32 \<Rightarrow> u32 \<Rightarrow> bool \<Rightarrow> bool \<Rightarrow> u32 \<times> u32" where
  "csr_std msk var data setb clrb =
     (let data = data AND msk
      in (var AND msk,
          if setb \<and> clrb then data else if setb then var OR data
          else if clrb then var AND NOT data else var))"

definition csr_time :: "u32 \<Rightarrow> bool \<Rightarrow> riscv \<Rightarrow> u32 \<times> riscv" where
  "csr_time data setb c =
     (ucast (m_csr_mtime c),
      if setb \<and> data \<noteq> 0
      then c\<lparr>m_csr_mtimecmp := ucast data,
             m_csr_mip := m_csr_mip c AND
               NOT (if m_csr_mideleg c AND SR_IP_STIP \<noteq> 0 then SR_IP_STIP else SR_IP_MTIP)\<rparr>
      else c)"

definition access_csr :: "u32 \<Rightarrow> u32 \<Rightarrow> bool \<Rightarrow> bool \<Rightarrow> riscv \<Rightarrow> (u32 \<times> riscv) sim" where
  "access_csr address data setb clrb c =
     (let csr = address AND 0xFFF;
          std = (\<lambda>msk var update.
            let (result, v) = csr_std msk var data setb clrb in Inr (result, update (\<lambda>_. v) c))
      in if csr = CSR_DSCRATCH \<or> csr = CSR_SIM_CTRL then sim_control data c
         else if csr = CSR_MEPC then std 0xFFFFFFFF (m_csr_mepc c) m_csr_mepc_update
         else if csr = CSR_MTVEC then std 0xFFFFFFFF (m_csr_mevec c) m_csr_mevec_update
         else if csr = CSR_MCAUSE then std 0x8000000F (m_csr_mcause c) m_csr_mcause_update
         else if csr = CSR_MSTATUS then std 0xFFFFFFFF (m_csr_msr c) m_csr_msr_update
         else if csr = CSR_MIP then std IRQ_MASK (m_csr_mip c) m_csr_mip_update
         else if csr = CSR_MIE then std IRQ_MASK (m_csr_mie c) m_csr_mie_update
         else if csr = CSR_MISA then Inr (MISA_VALUE, c)
         else if csr = CSR_MIDELEG then std 0xFFFFFFFF (m_csr_mideleg c) m_csr_mideleg_update
         else if csr = CSR_MEDELEG then std 0xFFFFFFFF (m_csr_medeleg c) m_csr_medeleg_update
         else if csr = CSR_MSCRATCH then std 0xFFFFFFFF (m_csr_mscratch c) m_csr_mscratch_update
         else if csr = CSR_MHARTID then Inr (0, c)
         else if csr = CSR_SEPC then std 0xFFFFFFFF (m_csr_sepc c) m_csr_sepc_update
         else if csr = CSR_STVEC then std 0xFFFFFFFF (m_csr_sevec c) m_csr_sevec_update
         else if csr = CSR_SCAUSE then std 0x8000000F (m_csr_scause c) m_csr_scause_update
         else if csr = CSR_SIP then std IRQ_S_MASK (m_csr_mip c) m_csr_mip_update
         else if csr = CSR_SIE then std IRQ_S_MASK (m_csr_mie c) m_csr_mie_update
         else if csr = CSR_SATP then std 0xFFFFFFFF (m_csr_satp c) m_csr_satp_update
         else if csr = CSR_STVAL then std 0xFFFFFFFF (m_csr_stval c) m_csr_stval_update
         else if csr = CSR_SSCRATCH then std 0xFFFFFFFF (m_csr_sscratch c) m_csr_sscratch_update
         else if csr = CSR_SSTATUS then std SR_SMODE_MASK (m_csr_msr c) m_csr_msr_update
         else if csr = CSR_PMPCFG0 \<or> csr = CSR_PMPCFG1 \<or> csr = CSR_PMPCFG2 \<or> csr = CSR_PMPADDR0
         then Inr (0, c)
         else if csr = CSR_MTIME then Inr (csr_time data setb c)
         else if csr = CSR_MTIMEH then Inr (ucast (drop_bit 32 (m_csr_mtime c)), c)
         else Inl (Exit (- 1)))"

section \<open>The debugger's view\<close>

definition set_pc :: "u32 \<Rightarrow> riscv \<Rightarrow> riscv" where
  "set_pc pc c = c\<lparr>m_pc := pc, m_pc_x := pc\<rparr>"

definition set_register :: "int \<Rightarrow> u32 \<Rightarrow> riscv \<Rightarrow> riscv sim" where
  "set_register r v c =
     (if r < 0 then Inl Undefined
      else if r \<le> 31 then Inr (c\<lparr>m_gpr := (m_gpr c)[nat r := v]\<rparr>)
      else if r = 32 then Inr (c\<lparr>m_pc := v\<rparr>)
      else if r = 65 + uint CSR_MEPC then Inr (c\<lparr>m_csr_mepc := v\<rparr>)
      else if r = 65 + uint CSR_MCAUSE then Inr (c\<lparr>m_csr_mcause := v\<rparr>)
      else if r = 65 + uint CSR_MSTATUS then Inr (c\<lparr>m_csr_msr := v\<rparr>)
      else if r = 65 + uint CSR_MTVEC then Inr (c\<lparr>m_csr_mevec := v\<rparr>)
      else if r = 65 + uint CSR_MIE then Inr (c\<lparr>m_csr_mie := v\<rparr>)
      else if r = 65 + uint CSR_MIP then Inr (c\<lparr>m_csr_mip := v\<rparr>)
      else if r = 65 + uint CSR_MTIME then Inr (c\<lparr>m_csr_mtime := ucast v\<rparr>)
      else if r = 65 + uint CSR_MTIMEH then Inr (c\<lparr>m_csr_mtimecmp := ucast v\<rparr>)
      else if r = 65 + uint CSR_MSCRATCH then Inr (c\<lparr>m_csr_mscratch := v\<rparr>)
      else if r = 65 + uint CSR_MIDELEG then Inr (c\<lparr>m_csr_mideleg := v\<rparr>)
      else if r = 65 + uint CSR_MEDELEG then Inr (c\<lparr>m_csr_medeleg := v\<rparr>)
      else if r = 65 + uint CSR_SEPC then Inr (c\<lparr>m_csr_sepc := v\<rparr>)
      else if r = 65 + uint CSR_STVEC then Inr (c\<lparr>m_csr_sevec := v\<rparr>)
      else if r = 65 + uint CSR_SCAUSE then Inr (c\<lparr>m_csr_scause := v\<rparr>)
      else if r = 65 + uint CSR_STVAL then Inr (c\<lparr>m_csr_stval := v\<rparr>)
      else if r = 65 + uint CSR_SATP then Inr (c\<lparr>m_csr_satp := v\<rparr>)
      else if r = 65 + uint CSR_SSCRATCH then Inr (c\<lparr>m_csr_sscratch := v\<rparr>)
      else if r = 4161 then Inr (c\<lparr>m_csr_mpriv := v\<rparr>)
      else Inr c)"

definition get_register :: "int \<Rightarrow> riscv \<Rightarrow> u32 sim" where
  "get_register r c =
     (if r < 0 then Inl Undefined
      else if r \<le> 31 then Inr (m_gpr c ! nat r)
      else if r = 32 then Inr (m_pc c)
      else if r = 65 + uint CSR_MEPC then Inr (m_csr_mepc c)
      else if r = 65 + uint CSR_MCAUSE then Inr (m_csr_mcause c)
      else if r = 65 + uint CSR_MSTATUS then Inr (m_csr_msr c)
      else if r = 65 + uint CSR_MTVEC then Inr (m_csr_mevec c)
      else if r = 65 + uint CSR_MIE then Inr (m_csr_mie c)
      else if r = 65 + uint CSR_MIP then Inr (m_csr_mip c)
      else if r = 65 + uint CSR_MTIME then Inr (ucast (m_csr_mtime c))
      else if r = 65 + uint CSR_MTIMEH then Inr (ucast (m_csr_mtimecmp c))
      else if r = 65 + uint CSR_MSCRATCH then Inr (m_csr_mscratch c)
      else if r = 65 + uint CSR_MIDELEG then Inr (m_csr_mideleg c)
      else if r = 65 + uint CSR_MEDELEG then Inr (m_csr_medeleg c)
      else if r = 65 + uint CSR_SEPC then Inr (m_csr_sepc c)
      else if r = 65 + uint CSR_STVEC then Inr (m_csr_sevec c)
      else if r = 65 + uint CSR_SCAUSE then Inr (m_csr_scause c)
      else if r = 65 + uint CSR_STVAL then Inr (m_csr_stval c)
      else if r = 65 + uint CSR_SATP then Inr (m_csr_satp c)
      else if r = 65 + uint CSR_SSCRATCH then Inr (m_csr_sscratch c)
      else if r = 4161 then Inr (m_csr_mpriv c)
      else Inr 0)"

definition get_break :: "riscv \<Rightarrow> bool \<times> riscv" where
  "get_break c = (m_break c, c\<lparr>m_break := False\<rparr>)"

definition set_breakpoint :: "u32 \<Rightarrow> riscv \<Rightarrow> bool \<times> riscv" where
  "set_breakpoint pc c =
     (True, c\<lparr>m_breakpoints := m_breakpoints c @ [pc], m_has_breakpoints := True\<rparr>)"

text \<open>The first breakpoint at \<open>pc\<close> is erased.\<close>

definition clr_breakpoint :: "u32 \<Rightarrow> riscv \<Rightarrow> bool \<times> riscv" where
  "clr_breakpoint pc c =
     (if pc \<in> set (m_breakpoints c)
      then let rest = remove1 pc (m_breakpoints c)
           in (True, c\<lparr>m_breakpoints := rest, m_has_breakpoints := rest \<noteq> []\<rparr>)
      else (False, c))"

definition check_breakpoint :: "u32 \<Rightarrow> riscv \<Rightarrow> bool" where
  "check_breakpoint pc c = list_ex (\<lambda>b. b = pc) (m_breakpoints c)"

definition set_interrupt :: "int \<Rightarrow> riscv \<Rightarrow> riscv sim" where
  "set_interrupt irq c =
     (if irq = 0 then Inr (c\<lparr>m_csr_mip := m_csr_mip c OR SR_IP_MEIP\<rparr>) else Inl Assertion)"

end
