(* ===== verification/Riscv_Execute.thy ===== *)
theory Riscv_Execute
  imports Riscv_Cpu
begin

text \<open>
  Execution of one instruction (\<open>Riscv::execute\<close> and \<open>Riscv::step\<close> in \<open>riscv.cpp\<close>). The chain
  of \<open>else if\<close> tests is cut into its sections: each section is a function of the decoded
  instruction that gives \<open>None\<close> for the instructions of the other sections.
\<close>

section \<open>Shifts and products\<close>

text \<open>A shift by 32 or more, and an overflow of the \<open>int\<close> product, are undefined in C++.\<close>

definition cpp_shl :: "u32 \<Rightarrow> u32 \<Rightarrow> u32 sim" where
  "cpp_shl a n = (if unat n < 32 then Inr (push_bit (unat n) a) else Inl Undefined)"

definition cpp_shr :: "u32 \<Rightarrow> u32 \<Rightarrow> u32 sim" where
  "cpp_shr a n = (if unat n < 32 then Inr (drop_bit (unat n) a) else Inl Undefined)"

definition cpp_sar :: "u32 \<Rightarrow> u32 \<Rightarrow> u32 sim" where
  "cpp_sar a n = (if unat n < 32 then Inr (signed_drop_bit (unat n) a) else Inl Undefined)"

definition cpp_int :: "int \<Rightarrow> u32 sim" where
  "cpp_int x = (if - (2 ^ 31) \<le> x \<and> x < 2 ^ 31 then Inr (word_of_int x) else Inl Undefined)"

section \<open>The sections of the chain\<close>

text \<open>The value of \<open>reg_rd\<close>; all of these go on with the next instruction.\<close>

definition exec_imm :: "eInstructions \<Rightarrow> opcode_fields \<Rightarrow> u32 \<Rightarrow> u32 \<Rightarrow> u32 sim option" where
  "exec_imm i f reg_rs1 pc = (case i of
     ENUM_INST_ANDI \<Rightarrow> Some (Inr (reg_rs1 AND imm12 f))
   | ENUM_INST_ORI \<Rightarrow> Some (Inr (reg_rs1 OR imm12 f))
   | ENUM_INST_XORI \<Rightarrow> Some (Inr (reg_rs1 XOR imm12 f))
   | ENUM_INST_ADDI \<Rightarrow> Some (Inr (reg_rs1 + imm12 f))
   | ENUM_INST_SLTI \<Rightarrow> Some (Inr (of_bool (sint reg_rs1 < sint (imm12 f))))
   | ENUM_INST_SLTIU \<Rightarrow> Some (Inr (of_bool (reg_rs1 < imm12 f)))
   | ENUM_INST_SLLI \<Rightarrow> Some (cpp_shl reg_rs1 (shamt f))
   | ENUM_INST_SRLI \<Rightarrow> Some (cpp_shr reg_rs1 (shamt f))
   | ENUM_INST_SRAI \<Rightarrow> Some (cpp_sar reg_rs1 (shamt f))
   | ENUM_INST_LUI \<Rightarrow> Some (Inr (imm20 f))
   | ENUM_INST_AUIPC \<Rightarrow> Some (Inr (imm20 f + pc))
   | _ \<Rightarrow> None)"

definition exec_reg :: "eInstructions \<Rightarrow> u32 \<Rightarrow> u32 \<Rightarrow> u32 sim option" where
  "exec_reg i reg_rs1 reg_rs2 = (case i of
     ENUM_INST_ADD \<Rightarrow> Some (Inr (reg_rs1 + reg_rs2))
   | ENUM_INST_SUB \<Rightarrow> Some (Inr (reg_rs1 - reg_rs2))
   | ENUM_INST_SLT \<Rightarrow> Some (Inr (of_bool (sint reg_rs1 < sint reg_rs2)))
   | ENUM_INST_SLTU \<Rightarrow> Some (Inr (of_bool (reg_rs1 < reg_rs2)))
   | ENUM_INST_XOR \<Rightarrow> Some (Inr (reg_rs1 XOR reg_rs2))
   | ENUM_INST_OR \<Rightarrow> Some (Inr (reg_rs1 OR reg_rs2))
   | ENUM_INST_AND \<Rightarrow> Some (Inr (reg_rs1 AND reg_rs2))
   | ENUM_INST_SLL \<Rightarrow> Some (cpp_shl reg_rs1 reg_rs2)
   | ENUM_INST_SRL \<Rightarrow> Some (cpp_shr reg_rs1 reg_rs2)
   | ENUM_INST_SRA \<Rightarrow> Some (cpp_sar reg_rs1 reg_rs2)
   | _ \<Rightarrow> None)"

definition exec_muldiv :: "eInstructions \<Rightarrow> u32 \<Rightarrow> u32 \<Rightarrow> u32 sim option" where
  "exec_muldiv i reg_rs1 reg_rs2 =
     (let overflow = (sint reg_rs1 = - (2 ^ 31) \<and> sint reg_rs2 = - 1)
      in case i of
     ENUM_INST_MUL \<Rightarrow> Some (cpp_int (sint reg_rs1 * sint reg_rs2))
   | ENUM_INST_MULH \<Rightarrow> Some (Inr (word_of_int ((sint reg_rs1 * sint reg_rs2) div 2 ^ 32)))
   | ENUM_INST_MULHSU \<Rightarrow>
       Some (Inr (ucast (signed_drop_bit 32 ((scast reg_rs1 :: u64) * ucast reg_rs2))))
   | ENUM_INST_MULHU \<Rightarrow>
       Some (Inr (ucast (drop_bit 32 ((ucast reg_rs1 :: u64) * ucast reg_rs2))))
   | ENUM_INST_DIV \<Rightarrow> Some (Inr
       (if overflow then reg_rs1
        else if reg_rs2 \<noteq> 0 then word_of_int (sint reg_rs1 sdiv sint reg_rs2) else - 1))
   | ENUM_INST_DIVU \<Rightarrow> Some (Inr (if reg_rs2 \<noteq> 0 then reg_rs1 div reg_rs2 else - 1))
   | ENUM_INST_REM \<Rightarrow> Some (Inr
       (if overflow then 0
        else if reg_rs2 \<noteq> 0 then word_of_int (sint reg_rs1 smod sint reg_rs2) else reg_rs1))
   | ENUM_INST_REMU \<Rightarrow> Some (Inr (if reg_rs2 \<noteq> 0 then reg_rs1 mod reg_rs2 else reg_rs1))
   | _ \<Rightarrow> None)"

text \<open>The two jumps: \<open>reg_rd\<close> and the new \<open>pc\<close>. The branches: the new \<open>pc\<close>.\<close>

definition exec_jump ::
  "eInstructions \<Rightarrow> opcode_fields \<Rightarrow> u32 \<Rightarrow> u32 \<Rightarrow> (u32 \<times> u32) option" where
  "exec_jump i f reg_rs1 pc = (case i of
     ENUM_INST_JAL \<Rightarrow> Some (pc + 4, pc + jimm20 f)
   | ENUM_INST_JALR \<Rightarrow> Some (pc + 4, (reg_rs1 + imm12 f) AND NOT 1)
   | _ \<Rightarrow> None)"

definition exec_branch ::
  "eInstructions \<Rightarrow> opcode_fields \<Rightarrow> u32 \<Rightarrow> u32 \<Rightarrow> u32 \<Rightarrow> u32 option" where
  "exec_branch i f reg_rs1 reg_rs2 pc =
     (let goto = (\<lambda>taken. Some (if taken then pc + bimm f else pc + 4))
      in case i of
     ENUM_INST_BEQ \<Rightarrow> goto (reg_rs1 = reg_rs2)
   | ENUM_INST_BNE \<Rightarrow> goto (reg_rs1 \<noteq> reg_rs2)
   | ENUM_INST_BLT \<Rightarrow> goto (sint reg_rs1 < sint reg_rs2)
   | ENUM_INST_BGE \<Rightarrow> goto (sint reg_rs1 \<ge> sint reg_rs2)
   | ENUM_INST_BLTU \<Rightarrow> goto (reg_rs1 < reg_rs2)
   | ENUM_INST_BGEU \<Rightarrow> goto (reg_rs1 \<ge> reg_rs2)
   | _ \<Rightarrow> None)"

text \<open>The loads: the width and whether the value is signed. The stores: the width.\<close>

definition load_kind :: "eInstructions \<Rightarrow> (nat \<times> bool) option" where
  "load_kind i = (case i of
     ENUM_INST_LB \<Rightarrow> Some (1, True)
   | ENUM_INST_LH \<Rightarrow> Some (2, True)
   | ENUM_INST_LW \<Rightarrow> Some (4, True)
   | ENUM_INST_LBU \<Rightarrow> Some (1, False)
   | ENUM_INST_LHU \<Rightarrow> Some (2, False)
   | ENUM_INST_LWU \<Rightarrow> Some (4, False)
   | _ \<Rightarrow> None)"

definition store_kind :: "eInstructions \<Rightarrow> nat option" where
  "store_kind i = (case i of
     ENUM_INST_SB \<Rightarrow> Some 1
   | ENUM_INST_SH \<Rightarrow> Some 2
   | ENUM_INST_SW \<Rightarrow> Some 4
   | _ \<Rightarrow> None)"

text \<open>
  How a branch of the chain ends: it falls through to the write-back with its values of \<open>rd\<close>,
  \<open>reg_rd\<close>, \<open>pc\<close> and \<open>take_exception\<close>, or it returns from \<open>execute\<close>.
\<close>

datatype outcome = Continue u32 u32 u32 bool riscv | Return riscv

definition do_mret :: "u32 \<Rightarrow> riscv \<Rightarrow> outcome sim" where
  "do_mret r c =
     (if m_csr_mpriv c \<noteq> PRIV_MACHINE then Inl Assertion
      else
        let prev_prv = drop_bit 11 (m_csr_msr c) AND 3;
            s = m_csr_msr c AND NOT SR_MIE;
            s = s OR (if s AND SR_MPIE \<noteq> 0 then SR_MIE else 0);
            s = s OR SR_MPIE;
            s = s AND NOT SR_MPP
        in Inr (Continue r 0 (m_csr_mepc c) False (c\<lparr>m_csr_mpriv := prev_prv, m_csr_msr := s\<rparr>)))"

definition do_sret :: "u32 \<Rightarrow> riscv \<Rightarrow> outcome sim" where
  "do_sret r c =
     (if m_csr_mpriv c \<noteq> PRIV_SUPER then Inl Assertion
      else
        let prev_prv = (if m_csr_msr c AND SR_SPP \<noteq> 0 then PRIV_SUPER else PRIV_USER);
            s = m_csr_msr c AND NOT SR_SIE;
            s = s OR (if s AND SR_SPIE \<noteq> 0 then SR_SIE else 0);
            s = s OR SR_SPIE;
            s = s AND NOT SR_SPP
        in Inr (Continue r 0 (m_csr_sepc c) False (c\<lparr>m_csr_mpriv := prev_prv, m_csr_msr := s\<rparr>)))"

definition exec_system ::
  "eInstructions \<Rightarrow> opcode_fields \<Rightarrow> u32 \<Rightarrow> u32 \<Rightarrow> riscv \<Rightarrow> outcome sim option" where
  "exec_system i f reg_rs1 pc c =
     (let next = (\<lambda>(v, c). Inr (Continue (rd f) v (pc + 4) False c));
          csr = (\<lambda>data setb clrb. Some (rbind (access_csr (imm12 f) data setb clrb c) next))
      in case i of
     ENUM_INST_ECALL \<Rightarrow> Some (rbind (rv_exception (MCAUSE_ECALL_U + m_csr_mpriv c) pc 0 c) (\<lambda>c.
       Inr (Continue (rd f) 0 pc True c)))
   | ENUM_INST_EBREAK \<Rightarrow> Some (rbind (rv_exception MCAUSE_BREAKPOINT pc 0 c) (\<lambda>c.
       Inr (Continue (rd f) 0 pc True (c\<lparr>m_break := True\<rparr>))))
   | ENUM_INST_MRET \<Rightarrow> Some (do_mret (rd f) c)
   | ENUM_INST_SRET \<Rightarrow> Some (do_sret (rd f) c)
   | ENUM_INST_FENCE \<Rightarrow> Some (next (0, c))
   | ENUM_INST_CSRRW \<Rightarrow> csr reg_rs1 True True
   | ENUM_INST_CSRRS \<Rightarrow> csr reg_rs1 True False
   | ENUM_INST_CSRRC \<Rightarrow> csr reg_rs1 False True
   | ENUM_INST_CSRRWI \<Rightarrow> csr (rs1 f) True True
   | ENUM_INST_CSRRSI \<Rightarrow> csr (rs1 f) True False
   | ENUM_INST_CSRRCI \<Rightarrow> csr (rs1 f) False True
   | ENUM_INST_WFI \<Rightarrow> Some (next (0, c))
   | _ \<Rightarrow> None)"

definition gpr :: "riscv \<Rightarrow> u32 \<Rightarrow> u32" where
  "gpr c r = m_gpr c ! unat r"

text \<open>The chain itself. The error of an instruction that no section knows exits.\<close>

definition exec_insn :: "eInstructions \<Rightarrow> opcode_fields \<Rightarrow> riscv \<Rightarrow> outcome sim" where
  "exec_insn i f c =
     (let reg_rs1 = gpr c (rs1 f);
          reg_rs2 = gpr c (rs2 f);
          pc = m_pc c;
          next = (\<lambda>v. Inr (Continue (rd f) v (pc + 4) False c))
      in (case exec_imm i f reg_rs1 pc of Some r \<Rightarrow> rbind r next
       | None \<Rightarrow> (case exec_reg i reg_rs1 reg_rs2 of Some r \<Rightarrow> rbind r next
       | None \<Rightarrow> (case exec_jump i f reg_rs1 pc of
           Some (v, pc') \<Rightarrow> Inr (Continue (rd f) v pc' False (count_stat STATS_BRANCHES c))
       | None \<Rightarrow> (case exec_branch i f reg_rs1 reg_rs2 pc of
           Some pc' \<Rightarrow> Inr (Continue 0 0 pc' False (count_stat STATS_BRANCHES c))
       | None \<Rightarrow> (case load_kind i of
           Some (width, signedLoad) \<Rightarrow>
             rbind (rv_load pc (reg_rs1 + imm12 f) width signedLoad c) (\<lambda>(v, c).
               Inr (case v of Some v \<Rightarrow> Continue (rd f) v (pc + 4) False c | None \<Rightarrow> Return c))
       | None \<Rightarrow> (case store_kind i of
           Some width \<Rightarrow>
             rbind (rv_store pc (reg_rs1 + storeimm f) reg_rs2 width c) (\<lambda>(stored, c).
               Inr (if stored then Continue 0 0 (pc + 4) False c else Return c))
       | None \<Rightarrow> (case exec_muldiv i reg_rs1 reg_rs2 of Some r \<Rightarrow> rbind r next
       | None \<Rightarrow> (case exec_system i f reg_rs1 pc c of Some r \<Rightarrow> r
       | None \<Rightarrow> Inl (Exit (- 1)))))))))))"

section \<open>Pending interrupts\<close>

definition enabled_interrupts :: "riscv \<Rightarrow> u32" where
  "enabled_interrupts c =
     (let pending_interrupts = m_csr_mip c AND m_csr_mie c;
          m_enabled = (of_bool (m_csr_mpriv c < PRIV_MACHINE \<or>
            m_csr_mpriv c = PRIV_MACHINE \<and> m_csr_msr c AND SR_MIE \<noteq> 0) :: u32);
          s_enabled = (of_bool (m_csr_mpriv c < PRIV_SUPER \<or>
            m_csr_mpriv c = PRIV_SUPER \<and> m_csr_msr c AND SR_SIE \<noteq> 0) :: u32);
          m_interrupts = pending_interrupts AND NOT (m_csr_mideleg c) AND - m_enabled;
          s_interrupts = pending_interrupts AND m_csr_mideleg c AND - s_enabled
      in if m_interrupts \<noteq> 0 then m_interrupts else s_interrupts)"

text \<open>The first of the interrupts 1 to 11 that is set is taken.\<close>

definition take_interrupt :: "u32 \<Rightarrow> bool \<Rightarrow> riscv \<Rightarrow> (bool \<times> riscv) sim" where
  "take_interrupt pc take_exception c =
     (if \<not> take_exception \<and> m_csr_mip c AND m_csr_mie c \<noteq> 0 then
        case find (\<lambda>i. enabled_interrupts c AND push_bit i 1 \<noteq> 0) [1..<12] of
          Some i \<Rightarrow> rbind (rv_exception (MCAUSE_INTERRUPT + of_nat i) pc 0 c) (\<lambda>c. Inr (True, c))
        | None \<Rightarrow> Inr (False, c)
      else Inr (take_exception, c))"

section \<open>One step\<close>

definition write_back :: "u32 \<Rightarrow> u32 \<Rightarrow> riscv \<Rightarrow> riscv" where
  "write_back r reg_rd c = (if r \<noteq> 0 then c\<lparr>m_gpr := (m_gpr c)[unat r := reg_rd]\<rparr> else c)"

definition finish_execute :: "outcome \<Rightarrow> riscv sim" where
  "finish_execute oc = (case oc of
     Return c \<Rightarrow> Inr c
   | Continue r reg_rd pc take_exception c \<Rightarrow>
       rbind (take_interrupt pc take_exception (write_back r reg_rd c)) (\<lambda>(take_exception, c).
         Inr (if take_exception then c else c\<lparr>m_pc := pc\<rparr>)))"

definition rv_execute :: "riscv \<Rightarrow> riscv sim" where
  "rv_execute c =
     rbind (mmu_i_translate (m_pc c) c) (\<lambda>(phy_pc, c). case phy_pc of
       None \<Rightarrow> Inr c
     | Some phy_pc \<Rightarrow>
         rbind (get_opcode phy_pc c) (\<lambda>opcode.
           let c = c\<lparr>m_pc_x := m_pc c\<rparr>
           in if opcode = 0 then Inl (Exit (- 1))
              else case rv_decode opcode of
                None \<Rightarrow> Inl (Exit (- 1))
              | Some i \<Rightarrow> rbind (exec_insn i (extract_fields opcode) c) finish_execute))"

definition rv_step :: "riscv \<Rightarrow> riscv sim" where
  "rv_step c =
     rbind (rv_execute (count_stat STATS_INSTRUCTIONS c)) (\<lambda>c.
       let c = c\<lparr>m_csr_mtime := (m_csr_mtime c + 1) AND 0xFFFFFFFF\<rparr>;
           c = (if m_csr_mtime c = m_csr_mtimecmp c
                then c\<lparr>m_csr_mip := m_csr_mip c OR
                  (if m_csr_mideleg c AND SR_IP_STIP \<noteq> 0 then SR_IP_STIP else SR_IP_MTIP)\<rparr>
                else c)
       in Inr (if m_has_breakpoints c \<and> check_breakpoint (m_pc_x c) c
               then c\<lparr>m_break := True\<rparr> else c))"

fun rv_steps :: "nat \<Rightarrow> riscv \<Rightarrow> riscv sim" where
  "rv_steps 0 c = Inr c"
| "rv_steps (Suc n) c = rbind (rv_step c) (rv_steps n)"

end
