(* ===== verification/Riscv_Encode.thy ===== *)
theory Riscv_Encode
  imports Riscv_Execute
begin

text \<open>
  The instruction formats of RV32IM as an assembler: each base instruction with its operands, its
  encoding by fields, and the proof that the simulator's masks and shifts recover instruction
  and operands from the encoding.
\<close>

section \<open>Instructions with their operands\<close>

type_synonym gpreg = "5 word"

datatype imm_op = ADDI | SLTI | SLTIU | XORI | ORI | ANDI

datatype shift_op = SLLI | SRLI | SRAI

datatype reg_op =
    R_ADD | R_SUB | R_SLL | R_SLT | R_SLTU | R_XOR | R_SRL | R_SRA | R_OR | R_AND
  | R_MUL | R_MULH | R_MULHSU | R_MULHU | R_DIV | R_DIVU | R_REM | R_REMU

datatype branch_op = BEQ | BNE | BLT | BGE | BLTU | BGEU

datatype load_op = LB | LH | LW | LBU | LHU

datatype store_op = SB | SH | SW

text \<open>
  The operands in the order of the assembler: the destination first, and a store or branch with
  its two sources. Branch and jump offsets are even; they are given in units of two bytes, as
  the formats hold them.
\<close>

datatype insn =
    OP_IMM imm_op gpreg gpreg "12 word"
  | SHIFT_IMM shift_op gpreg gpreg "5 word"
  | LUI gpreg "20 word"
  | AUIPC gpreg "20 word"
  | OP reg_op gpreg gpreg gpreg
  | JAL gpreg "20 word"
  | JALR gpreg gpreg "12 word"
  | BRANCH branch_op gpreg gpreg "12 word"
  | LOAD load_op gpreg gpreg "12 word"
  | STORE store_op gpreg gpreg "12 word"

section \<open>Formats\<close>

definition fmt_R :: "7 word \<Rightarrow> gpreg \<Rightarrow> gpreg \<Rightarrow> 3 word \<Rightarrow> gpreg \<Rightarrow> 7 word \<Rightarrow> u32" where
  "fmt_R funct7 s2 s1 funct3 d opc =
     push_bit 25 (ucast funct7) OR push_bit 20 (ucast s2) OR push_bit 15 (ucast s1)
       OR push_bit 12 (ucast funct3) OR push_bit 7 (ucast d) OR ucast opc"

definition fmt_I :: "12 word \<Rightarrow> gpreg \<Rightarrow> 3 word \<Rightarrow> gpreg \<Rightarrow> 7 word \<Rightarrow> u32" where
  "fmt_I imm s1 funct3 d opc =
     push_bit 20 (ucast imm) OR push_bit 15 (ucast s1)
       OR push_bit 12 (ucast funct3) OR push_bit 7 (ucast d) OR ucast opc"

definition fmt_S :: "12 word \<Rightarrow> gpreg \<Rightarrow> gpreg \<Rightarrow> 3 word \<Rightarrow> 7 word \<Rightarrow> u32" where
  "fmt_S imm s2 s1 funct3 opc =
     fmt_R (ucast (drop_bit 5 imm)) s2 s1 funct3 (ucast imm) opc"

definition fmt_B :: "12 word \<Rightarrow> gpreg \<Rightarrow> gpreg \<Rightarrow> 3 word \<Rightarrow> 7 word \<Rightarrow> u32" where
  "fmt_B imm s2 s1 funct3 opc =
     fmt_R (push_bit 6 (of_bool (bit imm 11)) OR take_bit 6 (ucast (drop_bit 4 imm))) s2 s1 funct3
       (push_bit 1 (ucast imm) OR of_bool (bit imm 10)) opc"

definition fmt_U :: "20 word \<Rightarrow> gpreg \<Rightarrow> 7 word \<Rightarrow> u32" where
  "fmt_U imm d opc = push_bit 12 (ucast imm) OR push_bit 7 (ucast d) OR ucast opc"

definition fmt_J :: "20 word \<Rightarrow> gpreg \<Rightarrow> 7 word \<Rightarrow> u32" where
  "fmt_J imm d opc =
     fmt_U (push_bit 19 (of_bool (bit imm 19)) OR push_bit 9 (take_bit 10 imm)
       OR push_bit 8 (of_bool (bit imm 10)) OR take_bit 8 (drop_bit 11 imm)) d opc"

section \<open>Fields recovered\<close>

lemma bit_MAKE_MASK:
  assumes "a < 63"
  shows "bit (OPCODE_MAKE_MASK a b) n \<longleftrightarrow> b \<le> n \<and> n \<le> a"
proof -
  have "OPCODE_MAKE_MASK a b = mask (a + 1) AND NOT (mask b)"
    by (simp add: OPCODE_MAKE_MASK_def mask_eq_exp_minus_1 push_bit_eq_mult)
  then show ?thesis
    using assms by (auto simp: bit_simps)
qed

lemma bit_IMM_SIGN: "bit (OPCODE_IMM_SIGN x) n \<longleftrightarrow> n < 32 \<and> bit x 31"
proof -
  have "drop_bit 31 x AND 1 = of_bool (bit x 31)"
    by (rule bit_word_eqI) (auto simp: bit_simps)
  then show ?thesis
    by (auto simp: OPCODE_IMM_SIGN_def)
qed

lemma bit_SHIFT_MASK: "bit (OPCODE_SHIFT_MASK x s n) k \<longleftrightarrow> k < n \<and> bit x (s + k)"
proof -
  have "OPCODE_SHIFT_MASK x s n = drop_bit s x AND mask n"
    by (simp add: OPCODE_SHIFT_MASK_def mask_eq_exp_minus_1 push_bit_eq_mult)
  then show ?thesis
    by (auto simp: bit_simps dest: bit_imp_le_length)
qed

lemma bit_opcode_bits:
  assumes "a < 32"
  shows "bit (opcode_bits x (OPCODE_MAKE_MASK a b) s) k \<longleftrightarrow> b \<le> s + k \<and> s + k \<le> a \<and> bit x (s + k)"
  using assms
  by (auto simp: opcode_bits_def bit_MAKE_MASK bit_simps dest: bit_imp_le_length)

lemma bit_opcode_signed:
  assumes "a < 32" "s < 32"
  shows "bit (opcode_signed x (OPCODE_MAKE_MASK a b) s) k \<longleftrightarrow>
    k < 32 \<and> (let j = (if s + k < 32 then s + k else 31) in b \<le> j \<and> j \<le> a \<and> bit x j)"
  using assms
  by (auto simp: opcode_signed_def bit_MAKE_MASK bit_simps Let_def min_def dest: bit_imp_le_length)


lemma bit_fmt_R:
  "bit (fmt_R funct7 s2 s1 funct3 d opc) n \<longleftrightarrow>
     (if n < 7 then bit opc n else if n < 12 then bit d (n - 7) else if n < 15 then bit funct3 (n - 12)
      else if n < 20 then bit s1 (n - 15) else if n < 25 then bit s2 (n - 20)
      else n < 32 \<and> bit funct7 (n - 25))"
  by (auto simp: fmt_R_def bit_simps dest: bit_imp_le_length)

lemma bit_fmt_I:
  "bit (fmt_I imm s1 funct3 d opc) n \<longleftrightarrow>
     (if n < 7 then bit opc n else if n < 12 then bit d (n - 7) else if n < 15 then bit funct3 (n - 12)
      else if n < 20 then bit s1 (n - 15) else n < 32 \<and> bit imm (n - 20))"
  by (auto simp: fmt_I_def bit_simps dest: bit_imp_le_length)

lemma bit_fmt_U:
  "bit (fmt_U imm d opc) n \<longleftrightarrow>
     (if n < 7 then bit opc n else if n < 12 then bit d (n - 7) else n < 32 \<and> bit imm (n - 12))"
  by (auto simp: fmt_U_def bit_simps dest: bit_imp_le_length)

lemma bit_short: "bit (x :: gpreg) k \<Longrightarrow> k < 5" "bit (i :: 12 word) k \<Longrightarrow> k < 12" "bit (u :: 20 word) k \<Longrightarrow> k < 20"
  by (auto dest: bit_imp_le_length)

lemma bits_eqI: "(\<And>k. k < 32 \<Longrightarrow> bit (x :: u32) k = bit y k) \<Longrightarrow> x = y"
  by (rule bit_word_eqI) simp

lemma bit_scast:
  "k < 12 \<Longrightarrow> bit (scast (i :: 12 word) :: u32) k = bit i k"
  "\<lbrakk>11 \<le> k; k < 32\<rbrakk> \<Longrightarrow> bit (scast (i :: 12 word) :: u32) k = bit i 11"
  "k < 20 \<Longrightarrow> bit (scast (u :: 20 word) :: u32) k = bit u k"
  "\<lbrakk>19 \<le> k; k < 32\<rbrakk> \<Longrightarrow> bit (scast (u :: 20 word) :: u32) k = bit u 19"
proof -
  have edge: "k < 12 \<Longrightarrow> 11 \<le> k \<Longrightarrow> k = 11" "k < 20 \<Longrightarrow> 19 \<le> k \<Longrightarrow> k = 19"
    by simp_all
  show "k < 12 \<Longrightarrow> bit (scast i :: u32) k = bit i k" "k < 20 \<Longrightarrow> bit (scast u :: u32) k = bit u k"
    by (cases "k < 11"; cases "k < 19"; auto simp: bit_simps min_def dest: edge)+
  show "\<lbrakk>11 \<le> k; k < 32\<rbrakk> \<Longrightarrow> bit (scast i :: u32) k = bit i 11"
    "\<lbrakk>19 \<le> k; k < 32\<rbrakk> \<Longrightarrow> bit (scast u :: u32) k = bit u 19"
    by (auto simp: bit_simps min_def)
qed

lemma fields_R:
  "rd (extract_fields (fmt_R funct7 s2 s1 funct3 d opc)) = ucast d"
  "rs1 (extract_fields (fmt_R funct7 s2 s1 funct3 d opc)) = ucast s1"
  "rs2 (extract_fields (fmt_R funct7 s2 s1 funct3 d opc)) = ucast s2"
  by (rule bits_eqI; auto simp: extract_fields_def Let_def bit_opcode_bits bit_fmt_R bit_simps
      dest: bit_short)+

lemma fields_I:
  "rd (extract_fields (fmt_I imm s1 funct3 d opc)) = ucast d"
  "rs1 (extract_fields (fmt_I imm s1 funct3 d opc)) = ucast s1"
  by (rule bits_eqI; auto simp: extract_fields_def Let_def bit_opcode_bits bit_fmt_I
      bit_ucast_iff dest: bit_short)+

lemma imm_I: "imm12 (extract_fields (fmt_I imm s1 funct3 d opc)) = scast imm"
proof (rule bits_eqI)
  fix k :: nat assume "k < 32"
  then show "bit (imm12 (extract_fields (fmt_I imm s1 funct3 d opc))) k = bit (scast imm :: u32) k"
    by (cases "k < 12")
      (auto simp: extract_fields_def Let_def bit_opcode_signed bit_fmt_I bit_scast)
qed

lemma fields_U:
  "rd (extract_fields (fmt_U imm d opc)) = ucast d"
  "imm20 (extract_fields (fmt_U imm d opc)) = push_bit 12 (ucast imm)"
  by (rule bits_eqI; auto simp: extract_fields_def Let_def bit_opcode_bits bit_opcode_signed bit_fmt_U
      bit_simps min_def dest: bit_short)+

lemma shamt_I:
  "shamt (extract_fields (fmt_R 0 n s1 funct3 d opc)) = ucast n"
  "shamt (extract_fields (fmt_R 0x20 n s1 funct3 d opc)) = ucast n"
  by (rule bits_eqI; auto simp: extract_fields_def Let_def bit_opcode_signed bit_fmt_R bit_simps
      dest: bit_short)+

lemma fields_S: "storeimm (extract_fields (fmt_S imm s2 s1 funct3 opc)) = scast imm"
proof (rule bits_eqI)
  fix k :: nat assume "k < 32"
  then show "bit (storeimm (extract_fields (fmt_S imm s2 s1 funct3 opc))) k = bit (scast imm :: u32) k"
    by (cases "k < 12")
      (auto simp: extract_fields_def Let_def OPCODE_STYPE_IMM_def fmt_S_def bit_IMM_SIGN bit_SHIFT_MASK
        bit_or_iff bit_push_bit_iff bit_fmt_R bit_scast bit_ucast_iff bit_drop_bit_eq dest: bit_short)
qed

lemma bit_times_2:
  "bit (x * 2 :: 'a::len word) k \<longleftrightarrow> k < LENGTH('a) \<and> k \<noteq> 0 \<and> bit x (k - 1)"
  by (simp add: bit_double_iff mult.commute [of x])

text \<open>The scattered bits of branch and jump offsets, where the simulator looks for them.\<close>

lemma fmt_B_bits:
  "bit (fmt_B imm s2 s1 funct3 opc) 31 = bit imm 11"
  "k < 6 \<Longrightarrow> bit (fmt_B imm s2 s1 funct3 opc) (25 + k) = bit imm (k + 4)"
  "k < 4 \<Longrightarrow> bit (fmt_B imm s2 s1 funct3 opc) (8 + k) = bit imm k"
  "bit (fmt_B imm s2 s1 funct3 opc) 7 = bit imm 10"
  by (auto simp: fmt_B_def bit_fmt_R bit_simps bit_times_2 add.commute)

lemma fmt_J_bits:
  "bit (fmt_J imm d opc) 31 = bit imm 19"
  "k < 10 \<Longrightarrow> bit (fmt_J imm d opc) (21 + k) = bit imm k"
  "bit (fmt_J imm d opc) 20 = bit imm 10"
  "k < 8 \<Longrightarrow> bit (fmt_J imm d opc) (12 + k) = bit imm (k + 11)"
  by (auto simp: fmt_J_def bit_fmt_U bit_simps add.commute)

lemma bit_SBTYPE:
  "bit (OPCODE_SBTYPE_IMM x) k \<longleftrightarrow> k < 32 \<and>
    (1 \<le> k \<and> k < 5 \<and> bit x (8 + (k - 1)) \<or> 5 \<le> k \<and> k < 11 \<and> bit x (25 + (k - 5)) \<or>
     k = 11 \<and> bit x 7 \<or> 12 \<le> k \<and> bit x 31)"
  by (auto simp: OPCODE_SBTYPE_IMM_def bit_or_iff bit_push_bit_iff bit_SHIFT_MASK bit_IMM_SIGN
      bit_times_2)

lemma bit_UJTYPE:
  "bit (OPCODE_UJTYPE_IMM x) k \<longleftrightarrow> k < 32 \<and>
    (1 \<le> k \<and> k < 11 \<and> bit x (21 + (k - 1)) \<or> k = 11 \<and> bit x 20 \<or>
     12 \<le> k \<and> k < 20 \<and> bit x (12 + (k - 12)) \<or> 20 \<le> k \<and> bit x 31)"
  by (auto simp: OPCODE_UJTYPE_IMM_def bit_or_iff bit_push_bit_iff bit_SHIFT_MASK bit_IMM_SIGN
      bit_times_2)

lemma fields_B:
  "bimm (extract_fields (fmt_B imm s2 s1 funct3 opc)) = push_bit 1 (scast imm)"
proof -
  have "bit (OPCODE_SBTYPE_IMM (fmt_B imm s2 s1 funct3 opc)) k = bit (push_bit 1 (scast imm) :: u32) k"
    if k: "k < 32" for k
  proof -
    consider "k = 0" | "1 \<le> k" "k < 5" | "5 \<le> k" "k < 11" | "k = 11" | "12 \<le> k"
      by linarith
    then show ?thesis
      using k fmt_B_bits(1,4) [of imm s2 s1 funct3 opc]
        fmt_B_bits(2) [of "k - 5" imm s2 s1 funct3 opc] fmt_B_bits(3) [of "k - 1" imm s2 s1 funct3 opc]
      by cases (simp_all add: bit_SBTYPE bit_times_2 bit_scast)
  qed
  then show ?thesis
    by (auto simp: extract_fields_def Let_def intro!: bits_eqI)
qed

lemma fields_J:
  "jimm20 (extract_fields (fmt_J imm d opc)) = push_bit 1 (scast imm)"
proof -
  have "bit (OPCODE_UJTYPE_IMM (fmt_J imm d opc)) k = bit (push_bit 1 (scast imm) :: u32) k"
    if k: "k < 32" for k
  proof -
    consider "k = 0" | "1 \<le> k" "k < 11" | "k = 11" | "12 \<le> k" "k < 20" | "20 \<le> k"
      by linarith
    then show ?thesis
      using k fmt_J_bits(1,3) [of imm d opc] fmt_J_bits(2) [of "k - 1" imm d opc]
        fmt_J_bits(4) [of "k - 12" imm d opc]
      by cases (simp_all add: bit_UJTYPE bit_times_2 bit_scast)
  qed
  then show ?thesis
    by (auto simp: extract_fields_def Let_def intro!: bits_eqI)
qed

section \<open>The assembler\<close>

fun imm_funct3 :: "imm_op \<Rightarrow> 3 word" where
  "imm_funct3 ADDI = 0" | "imm_funct3 SLTI = 2" | "imm_funct3 SLTIU = 3"
| "imm_funct3 XORI = 4" | "imm_funct3 ORI = 6" | "imm_funct3 ANDI = 7"

fun shift_funct :: "shift_op \<Rightarrow> 7 word \<times> 3 word" where
  "shift_funct SLLI = (0, 1)" | "shift_funct SRLI = (0, 5)" | "shift_funct SRAI = (0x20, 5)"

fun reg_funct :: "reg_op \<Rightarrow> 7 word \<times> 3 word" where
  "reg_funct R_ADD = (0, 0)" | "reg_funct R_SUB = (0x20, 0)" | "reg_funct R_SLL = (0, 1)"
| "reg_funct R_SLT = (0, 2)" | "reg_funct R_SLTU = (0, 3)" | "reg_funct R_XOR = (0, 4)"
| "reg_funct R_SRL = (0, 5)" | "reg_funct R_SRA = (0x20, 5)" | "reg_funct R_OR = (0, 6)"
| "reg_funct R_AND = (0, 7)"
| "reg_funct R_MUL = (1, 0)" | "reg_funct R_MULH = (1, 1)" | "reg_funct R_MULHSU = (1, 2)"
| "reg_funct R_MULHU = (1, 3)" | "reg_funct R_DIV = (1, 4)" | "reg_funct R_DIVU = (1, 5)"
| "reg_funct R_REM = (1, 6)" | "reg_funct R_REMU = (1, 7)"

fun branch_funct3 :: "branch_op \<Rightarrow> 3 word" where
  "branch_funct3 BEQ = 0" | "branch_funct3 BNE = 1" | "branch_funct3 BLT = 4"
| "branch_funct3 BGE = 5" | "branch_funct3 BLTU = 6" | "branch_funct3 BGEU = 7"

fun load_funct3 :: "load_op \<Rightarrow> 3 word" where
  "load_funct3 LB = 0" | "load_funct3 LH = 1" | "load_funct3 LW = 2"
| "load_funct3 LBU = 4" | "load_funct3 LHU = 5"

fun store_funct3 :: "store_op \<Rightarrow> 3 word" where
  "store_funct3 SB = 0" | "store_funct3 SH = 1" | "store_funct3 SW = 2"

fun assemble :: "insn \<Rightarrow> u32" where
  "assemble (OP_IMM i d s imm) = fmt_I imm s (imm_funct3 i) d 0x13"
| "assemble (SHIFT_IMM i d s n) = fmt_R (fst (shift_funct i)) n s (snd (shift_funct i)) d 0x13"
| "assemble (LUI d imm) = fmt_U imm d 0x37"
| "assemble (AUIPC d imm) = fmt_U imm d 0x17"
| "assemble (OP i d s1 s2) = fmt_R (fst (reg_funct i)) s2 s1 (snd (reg_funct i)) d 0x33"
| "assemble (JAL d imm) = fmt_J imm d 0x6f"
| "assemble (JALR d s imm) = fmt_I imm s 0 d 0x67"
| "assemble (BRANCH i s1 s2 imm) = fmt_B imm s2 s1 (branch_funct3 i) 0x63"
| "assemble (LOAD i d s imm) = fmt_I imm s (load_funct3 i) d 0x03"
| "assemble (STORE i s2 s1 imm) = fmt_S imm s2 s1 (store_funct3 i) 0x23"

section \<open>Decoding an encoding\<close>

fun imm_enum :: "imm_op \<Rightarrow> eInstructions" where
  "imm_enum ADDI = ENUM_INST_ADDI" | "imm_enum SLTI = ENUM_INST_SLTI"
| "imm_enum SLTIU = ENUM_INST_SLTIU" | "imm_enum XORI = ENUM_INST_XORI"
| "imm_enum ORI = ENUM_INST_ORI" | "imm_enum ANDI = ENUM_INST_ANDI"

fun shift_enum :: "shift_op \<Rightarrow> eInstructions" where
  "shift_enum SLLI = ENUM_INST_SLLI" | "shift_enum SRLI = ENUM_INST_SRLI"
| "shift_enum SRAI = ENUM_INST_SRAI"

fun reg_enum :: "reg_op \<Rightarrow> eInstructions" where
  "reg_enum R_ADD = ENUM_INST_ADD" | "reg_enum R_SUB = ENUM_INST_SUB"
| "reg_enum R_SLL = ENUM_INST_SLL" | "reg_enum R_SLT = ENUM_INST_SLT"
| "reg_enum R_SLTU = ENUM_INST_SLTU" | "reg_enum R_XOR = ENUM_INST_XOR"
| "reg_enum R_SRL = ENUM_INST_SRL" | "reg_enum R_SRA = ENUM_INST_SRA"
| "reg_enum R_OR = ENUM_INST_OR" | "reg_enum R_AND = ENUM_INST_AND"
| "reg_enum R_MUL = ENUM_INST_MUL" | "reg_enum R_MULH = ENUM_INST_MULH"
| "reg_enum R_MULHSU = ENUM_INST_MULHSU" | "reg_enum R_MULHU = ENUM_INST_MULHU"
| "reg_enum R_DIV = ENUM_INST_DIV" | "reg_enum R_DIVU = ENUM_INST_DIVU"
| "reg_enum R_REM = ENUM_INST_REM" | "reg_enum R_REMU = ENUM_INST_REMU"

fun branch_enum :: "branch_op \<Rightarrow> eInstructions" where
  "branch_enum BEQ = ENUM_INST_BEQ" | "branch_enum BNE = ENUM_INST_BNE"
| "branch_enum BLT = ENUM_INST_BLT" | "branch_enum BGE = ENUM_INST_BGE"
| "branch_enum BLTU = ENUM_INST_BLTU" | "branch_enum BGEU = ENUM_INST_BGEU"

fun load_enum :: "load_op \<Rightarrow> eInstructions" where
  "load_enum LB = ENUM_INST_LB" | "load_enum LH = ENUM_INST_LH" | "load_enum LW = ENUM_INST_LW"
| "load_enum LBU = ENUM_INST_LBU" | "load_enum LHU = ENUM_INST_LHU"

fun store_enum :: "store_op \<Rightarrow> eInstructions" where
  "store_enum SB = ENUM_INST_SB" | "store_enum SH = ENUM_INST_SH" | "store_enum SW = ENUM_INST_SW"

fun insn_enum :: "insn \<Rightarrow> eInstructions" where
  "insn_enum (OP_IMM i d s imm) = imm_enum i"
| "insn_enum (SHIFT_IMM i d s n) = shift_enum i"
| "insn_enum (LUI d imm) = ENUM_INST_LUI"
| "insn_enum (AUIPC d imm) = ENUM_INST_AUIPC"
| "insn_enum (OP i d s1 s2) = reg_enum i"
| "insn_enum (JAL d imm) = ENUM_INST_JAL"
| "insn_enum (JALR d s imm) = ENUM_INST_JALR"
| "insn_enum (BRANCH i s1 s2 imm) = branch_enum i"
| "insn_enum (LOAD i d s imm) = load_enum i"
| "insn_enum (STORE i s2 s1 imm) = store_enum i"

text \<open>The masks of the formats keep the opcode and the function codes.\<close>

lemma format_masks:
  "(0x7f :: u32) = mask 7"
  "(0x707f :: u32) = mask 7 OR push_bit 12 (mask 3)"
  "(0xfe00707f :: u32) = mask 7 OR push_bit 12 (mask 3) OR push_bit 25 (mask 7)"
  "(0xfc00707f :: u32) = mask 7 OR push_bit 12 (mask 3) OR push_bit 26 (mask 6)"
  by (simp_all add: mask_eq_exp_minus_1)

lemma drop_one: "26 \<le> k \<Longrightarrow> Suc (k - 26) = k - 25"
  by simp

lemma mask_fmt_R:
  "fmt_R funct7 s2 s1 funct3 d opc AND 0x707f = push_bit 12 (ucast funct3) OR ucast opc"
  "fmt_R funct7 s2 s1 funct3 d opc AND 0xfe00707f =
     push_bit 25 (ucast funct7) OR push_bit 12 (ucast funct3) OR ucast opc"
  "fmt_R funct7 n s1 funct3 d opc AND 0xfc00707f =
     push_bit 26 (ucast (drop_bit 1 funct7)) OR push_bit 12 (ucast funct3) OR ucast opc"
  by (rule bits_eqI; auto simp: format_masks bit_fmt_R bit_simps drop_one
      dest: bit_imp_le_length)+

lemma mask_fmt_I:
  "fmt_I imm s1 funct3 d opc AND 0x707f = push_bit 12 (ucast funct3) OR ucast opc"
  by (rule bits_eqI; auto simp: format_masks bit_fmt_I bit_simps dest: bit_imp_le_length)

lemma mask_fmt_U: "fmt_U imm d opc AND 0x7f = ucast opc"
  by (rule bits_eqI; auto simp: format_masks bit_fmt_U bit_simps dest: bit_imp_le_length)

theorem decode_assemble: "rv_decode (assemble i) = Some (insn_enum i)"
proof (cases i)
  case (OP_IMM k d s imm)
  then show ?thesis
    by (cases k) (auto intro!: decode_plain simp: plain_table_def inst_imm_def mask_fmt_I)
next
  case (SHIFT_IMM k d s n)
  then show ?thesis
    by (cases k) (auto intro!: decode_plain simp: plain_table_def inst_imm_def mask_fmt_R)
next
  case (OP k d s1 s2)
  then show ?thesis
    by (cases k) (auto intro!: decode_plain simp: plain_table_def inst_reg_def inst_muldiv_def mask_fmt_R)
next
  case (LUI d imm)
  then show ?thesis
    by (auto intro!: decode_plain simp: plain_table_def inst_imm_def mask_fmt_U)
next
  case (AUIPC d imm)
  then show ?thesis
    by (auto intro!: decode_plain simp: plain_table_def inst_imm_def mask_fmt_U)
next
  case (JAL d imm)
  then show ?thesis
    by (auto intro!: decode_plain simp: plain_table_def inst_jump_def mask_fmt_U fmt_J_def)
next
  case (JALR d s imm)
  then show ?thesis
    by (auto intro!: decode_plain simp: plain_table_def inst_jump_def mask_fmt_I)
next
  case (BRANCH k s1 s2 imm)
  then show ?thesis
    by (cases k) (auto intro!: decode_plain simp: plain_table_def inst_jump_def mask_fmt_R fmt_B_def)
next
  case (LOAD k d s imm)
  then show ?thesis
    by (cases k) (auto intro!: decode_plain simp: plain_table_def inst_mem_def mask_fmt_I)
next
  case (STORE k s2 s1 imm)
  then show ?thesis
    by (cases k) (auto intro!: decode_plain simp: plain_table_def inst_mem_def mask_fmt_R fmt_S_def)
qed

lemma sources_S_B:
  "rs1 (extract_fields (fmt_S imm s2 s1 funct3 opc)) = ucast s1"
  "rs2 (extract_fields (fmt_S imm s2 s1 funct3 opc)) = ucast s2"
  "rs1 (extract_fields (fmt_B i s2 s1 funct3 opc)) = ucast s1"
  "rs2 (extract_fields (fmt_B i s2 s1 funct3 opc)) = ucast s2"
  "rd (extract_fields (fmt_J u d opc)) = ucast d"
  by (simp_all add: fmt_S_def fmt_B_def fmt_J_def fields_R fields_U)

lemmas assemble_fields = fields_R fields_I imm_I fields_U shamt_I fields_S fields_B fields_J sources_S_B

end
