(* ===== verification/Riscv_Refine.thy ===== *)
theory Riscv_Refine
  imports Riscv_Encode
begin

text \<open>
  The simulator implements RV32IM: a reference machine of 32 registers, a program counter and a
  memory of bytes, whose instructions are stated over the integers, and the proof that the
  simulator in machine mode executes every program as the reference machine does.
\<close>

section \<open>The reference machine\<close>

record arch =
  a_pc :: u32
  a_regs :: "gpreg \<Rightarrow> u32"
  a_mem :: "u32 \<Rightarrow> u8 option"

text \<open>Register 0 reads zero and ignores writes.\<close>

definition get_reg :: "arch \<Rightarrow> gpreg \<Rightarrow> u32" where
  "get_reg a r = (if r = 0 then 0 else a_regs a r)"

definition put_reg :: "gpreg \<Rightarrow> u32 \<Rightarrow> arch \<Rightarrow> arch" where
  "put_reg r v a = (if r = 0 then a else a\<lparr>a_regs := (a_regs a)(r := v)\<rparr>)"

fun imm_ref :: "imm_op \<Rightarrow> u32 \<Rightarrow> u32 \<Rightarrow> u32" where
  "imm_ref ADDI x y = word_of_int (sint x + sint y)"
| "imm_ref SLTI x y = of_bool (sint x < sint y)"
| "imm_ref SLTIU x y = of_bool (uint x < uint y)"
| "imm_ref XORI x y = x XOR y"
| "imm_ref ORI x y = x OR y"
| "imm_ref ANDI x y = x AND y"

fun shift_ref :: "shift_op \<Rightarrow> u32 \<Rightarrow> nat \<Rightarrow> u32" where
  "shift_ref SLLI x n = word_of_int (uint x * 2 ^ n)"
| "shift_ref SRLI x n = word_of_int (uint x div 2 ^ n)"
| "shift_ref SRAI x n = word_of_int (sint x div 2 ^ n)"

fun reg_ref :: "reg_op \<Rightarrow> u32 \<Rightarrow> u32 \<Rightarrow> u32" where
  "reg_ref R_ADD x y = word_of_int (sint x + sint y)"
| "reg_ref R_SUB x y = word_of_int (sint x - sint y)"
| "reg_ref R_SLL x y = word_of_int (uint x * 2 ^ (unat y mod 32))"
| "reg_ref R_SLT x y = of_bool (sint x < sint y)"
| "reg_ref R_SLTU x y = of_bool (uint x < uint y)"
| "reg_ref R_XOR x y = x XOR y"
| "reg_ref R_SRL x y = word_of_int (uint x div 2 ^ (unat y mod 32))"
| "reg_ref R_SRA x y = word_of_int (sint x div 2 ^ (unat y mod 32))"
| "reg_ref R_OR x y = x OR y"
| "reg_ref R_AND x y = x AND y"
| "reg_ref R_MUL x y = word_of_int (sint x * sint y)"
| "reg_ref R_MULH x y = word_of_int (sint x * sint y div 2 ^ 32)"
| "reg_ref R_MULHSU x y = word_of_int (sint x * uint y div 2 ^ 32)"
| "reg_ref R_MULHU x y = word_of_int (uint x * uint y div 2 ^ 32)"
| "reg_ref R_DIV x y = (if y = 0 then - 1 else word_of_int (sint x sdiv sint y))"
| "reg_ref R_DIVU x y = (if y = 0 then - 1 else word_of_int (uint x div uint y))"
| "reg_ref R_REM x y = (if y = 0 then x else word_of_int (sint x smod sint y))"
| "reg_ref R_REMU x y = (if y = 0 then x else word_of_int (uint x mod uint y))"

fun branch_ref :: "branch_op \<Rightarrow> u32 \<Rightarrow> u32 \<Rightarrow> bool" where
  "branch_ref BEQ x y = (x = y)"
| "branch_ref BNE x y = (x \<noteq> y)"
| "branch_ref BLT x y = (sint x < sint y)"
| "branch_ref BGE x y = (sint y \<le> sint x)"
| "branch_ref BLTU x y = (uint x < uint y)"
| "branch_ref BGEU x y = (uint y \<le> uint x)"

fun load_ref :: "load_op \<Rightarrow> nat \<times> bool" where
  "load_ref LB = (1, True)" | "load_ref LH = (2, True)" | "load_ref LW = (4, True)"
| "load_ref LBU = (1, False)" | "load_ref LHU = (2, False)"

fun store_ref :: "store_op \<Rightarrow> nat" where
  "store_ref SB = 1" | "store_ref SH = 2" | "store_ref SW = 4"

text \<open>An access that is not aligned, or leaves the memory, has no result.\<close>

definition mapped :: "(u32 \<Rightarrow> u8 option) \<Rightarrow> u32 \<Rightarrow> nat \<Rightarrow> bool" where
  "mapped m a n \<longleftrightarrow> unat a mod n = 0 \<and> (\<forall>i < n. m (a + of_nat i) \<noteq> None)"

definition ref_load :: "(u32 \<Rightarrow> u8 option) \<Rightarrow> u32 \<Rightarrow> nat \<Rightarrow> bool \<Rightarrow> u32 option" where
  "ref_load m a n s =
     (if mapped m a n then Some (le_load (\<lambda>k. the (m (a + of_nat k))) 0 n s) else None)"

definition ref_store :: "(u32 \<Rightarrow> u8 option) \<Rightarrow> u32 \<Rightarrow> nat \<Rightarrow> u32 \<Rightarrow> (u32 \<Rightarrow> u8 option) option" where
  "ref_store m a n d =
     (if mapped m a n
      then Some (\<lambda>b. if unat (b - a) < n then Some (ucast (drop_bit (8 * unat (b - a)) d)) else m b)
      else None)"

definition next_insn :: "arch \<Rightarrow> arch" where
  "next_insn a = a\<lparr>a_pc := a_pc a + 4\<rparr>"

fun ref_step :: "insn \<Rightarrow> arch \<Rightarrow> arch option" where
  "ref_step (OP_IMM i d s imm) a = Some (next_insn (put_reg d (imm_ref i (get_reg a s) (scast imm)) a))"
| "ref_step (SHIFT_IMM i d s n) a = Some (next_insn (put_reg d (shift_ref i (get_reg a s) (unat n)) a))"
| "ref_step (LUI d imm) a = Some (next_insn (put_reg d (push_bit 12 (ucast imm)) a))"
| "ref_step (AUIPC d imm) a = Some (next_insn (put_reg d (a_pc a + push_bit 12 (ucast imm)) a))"
| "ref_step (OP i d s1 s2) a =
     Some (next_insn (put_reg d (reg_ref i (get_reg a s1) (get_reg a s2)) a))"
| "ref_step (JAL d imm) a =
     Some ((put_reg d (a_pc a + 4) a)\<lparr>a_pc := a_pc a + 2 * scast imm\<rparr>)"
| "ref_step (JALR d s imm) a =
     Some ((put_reg d (a_pc a + 4) a)\<lparr>a_pc := (get_reg a s + scast imm) AND NOT 1\<rparr>)"
| "ref_step (BRANCH i s1 s2 imm) a =
     Some (if branch_ref i (get_reg a s1) (get_reg a s2)
           then a\<lparr>a_pc := a_pc a + 2 * scast imm\<rparr> else next_insn a)"
| "ref_step (LOAD i d s imm) a =
     (case ref_load (a_mem a) (get_reg a s + scast imm) (fst (load_ref i)) (snd (load_ref i)) of
        Some v \<Rightarrow> Some (next_insn (put_reg d v a)) | None \<Rightarrow> None)"
| "ref_step (STORE i s2 s1 imm) a =
     (case ref_store (a_mem a) (get_reg a s1 + scast imm) (store_ref i) (get_reg a s2) of
        Some m \<Rightarrow> Some (next_insn (a\<lparr>a_mem := m\<rparr>)) | None \<Rightarrow> None)"

text \<open>
  The operands for which C++ defines the simulator's shifts and product: RV32 takes a register
  shift modulo 32 and wraps the product, the simulator leaves that to the C++ compiler.
\<close>

fun portable_op :: "reg_op \<Rightarrow> u32 \<Rightarrow> u32 \<Rightarrow> bool" where
  "portable_op R_SLL x y = (unat y < 32)"
| "portable_op R_SRL x y = (unat y < 32)"
| "portable_op R_SRA x y = (unat y < 32)"
| "portable_op R_MUL x y = (- (2 ^ 31) \<le> sint x * sint y \<and> sint x * sint y < 2 ^ 31)"
| "portable_op _ x y = True"

fun portable :: "insn \<Rightarrow> arch \<Rightarrow> bool" where
  "portable (OP i d s1 s2) a = portable_op i (get_reg a s1) (get_reg a s2)"
| "portable _ a = True"

text \<open>Runs: the instruction at \<open>pc\<close> is fetched from the memory, and it executes.\<close>

inductive rv32_runs :: "nat \<Rightarrow> arch \<Rightarrow> arch \<Rightarrow> bool" where
  rv32_stop: "rv32_runs 0 a a"
| rv32_step: "\<lbrakk>ref_load (a_mem a) (a_pc a) 4 False = Some (assemble i); portable i a;
     ref_step i a = Some b; rv32_runs n b c\<rbrakk> \<Longrightarrow> rv32_runs (Suc n) a c"

section \<open>The simulator's state as a reference state\<close>

definition byte_at :: "riscv \<Rightarrow> u32 \<Rightarrow> u8 option" where
  "byte_at c a = map_option (\<lambda>j. let r = m_regions c ! j
     in mem_byte (m_mem r) (unat (a - m_mem_base r))) (region_of a (m_regions c) 0)"

definition arch_of :: "riscv \<Rightarrow> arch" where
  "arch_of c = \<lparr>a_pc = m_pc c, a_regs = (\<lambda>r. m_gpr c ! unat r), a_mem = byte_at c\<rparr>"

text \<open>Regions of whole words that do not reach the end of the address space.\<close>

definition region_ok :: "mem_region \<Rightarrow> bool" where
  "region_ok r \<longleftrightarrow> unat (m_mem_base r) mod 4 = 0 \<and> unat (m_mem_size r) mod 4 = 0 \<and>
     unat (m_mem_base r) + unat (m_mem_size r) < 2 ^ 32 \<and>
     4 * length (Mem (m_mem r)) = unat (m_mem_size r)"

text \<open>The register file: 32 registers, the first of them zero.\<close>

definition regs_ok :: "riscv \<Rightarrow> bool" where
  "regs_ok c \<longleftrightarrow> length (m_gpr c) = 32 \<and> m_gpr c ! 0 = 0"

definition machine_ok :: "riscv \<Rightarrow> bool" where
  "machine_ok c \<longleftrightarrow> regs_ok c \<and> m_csr_mpriv c = PRIV_MACHINE \<and> m_csr_mie c = 0 \<and>
     list_all region_ok (m_regions c)"

lemma gpr_get_reg: "regs_ok c \<Longrightarrow> gpr c (ucast r) = get_reg (arch_of c) r"
proof -
  have "unat (ucast (r :: gpreg) :: u32) = unat r"
    using unsigned_less [of r, where ?'a = nat] by (simp add: unsigned_ucast_eq take_bit_nat_eq_self)
  then show "regs_ok c \<Longrightarrow> gpr c (ucast r) = get_reg (arch_of c) r"
    by (auto simp: gpr_def get_reg_def arch_of_def regs_ok_def)
qed

section \<open>Regions\<close>

lemma word_bounds:
  "4 * p \<le> x \<longleftrightarrow> p \<le> x div (4 :: nat)" "x < 4 * q \<longleftrightarrow> x div (4 :: nat) < q"
  by auto

lemma in_region_word:
  assumes "region_ok r" "unat a div 4 = unat b div 4"
  shows "in_region a r = in_region b r"
proof -
  obtain p where p: "unat (m_mem_base r) = 4 * p"
    using assms(1) by (metis region_ok_def mod_0_imp_dvd dvd_def)
  obtain q where q: "unat (m_mem_size r) = 4 * q"
    using assms(1) by (metis region_ok_def mod_0_imp_dvd dvd_def)
  define e where "e = p + q"
  have "unat (m_mem_base r + m_mem_size r) = 4 * e"
    using assms(1) p q by (simp add: region_ok_def unat_add_small e_def)
  then have "in_region x r \<longleftrightarrow> p \<le> unat x div 4 \<and> unat x div 4 < e" for x
    by (simp add: in_region_def word_le_nat_alt word_less_nat_alt p word_bounds)
  then show ?thesis
    using assms(2) by simp
qed

lemma region_of_word:
  "\<lbrakk>list_all region_ok rs; unat a div 4 = unat b div 4\<rbrakk> \<Longrightarrow> region_of a rs k = region_of b rs k"
proof (induction rs arbitrary: k)
  case (Cons r rs)
  then show ?case
    using in_region_word [of r a b] by simp
qed simp

lemma region_of_some:
  "region_of a rs k = Some j \<Longrightarrow> k \<le> j \<and> j - k < length rs \<and> in_region a (rs ! (j - k))"
proof (induction rs arbitrary: k)
  case (Cons r rs)
  show ?case
  proof (cases "in_region a r")
    case True
    then show ?thesis
      using Cons.prems by simp
  next
    case False
    then have "k + 1 \<le> j \<and> j - (k + 1) < length rs \<and> in_region a (rs ! (j - (k + 1)))"
      using Cons by simp
    then show ?thesis
      by (cases "j - k") (auto simp: Suc_diff_Suc dest: arg_cong [of _ _ "\<lambda>n. n - 1"])
  qed
qed simp

lemma region_of_found:
  assumes "region_of a (m_regions c) 0 = Some j" "list_all region_ok (m_regions c)"
    and r_def: "r = m_regions c ! j"
  shows "j < length (m_regions c)" "region_ok r" "m_mem_base r \<le> a"
    "unat (a - m_mem_base r) = unat a - unat (m_mem_base r)"
    "unat (a - m_mem_base r) < 4 * length (Mem (m_mem r))"
proof -
  show j: "j < length (m_regions c)"
    using region_of_some [OF assms(1)] by simp
  then show ok: "region_ok r"
    using assms(2) by (simp add: list_all_length r_def)
  have "in_region a r"
    using region_of_some [OF assms(1)] by (simp add: r_def)
  then show base: "m_mem_base r \<le> a" and "unat (a - m_mem_base r) < 4 * length (Mem (m_mem r))"
    using ok by (auto simp: in_region_def region_ok_def word_less_nat_alt word_le_nat_alt
        unat_add_small unat_sub)
  then show "unat (a - m_mem_base r) = unat a - unat (m_mem_base r)"
    by (simp add: unat_sub)
qed

text \<open>The bytes of an aligned access lie in one word, hence in one region.\<close>

lemma aligned_word:
  assumes "n \<in> {1, 2, 4}" "unat (a :: u32) mod n = 0" "i < n"
  shows "unat (a + of_nat i) = unat a + i" "unat (a + of_nat i) div 4 = unat a div 4"
proof -
  have low: "unat a mod 4 + i < 4"
    using assms by auto presburger
  then have "unat a + i = 4 * (unat a div 4) + (unat a mod 4 + i)"
    by simp
  moreover have "4 * (unat a div 4) + 4 \<le> 2 ^ 32"
    using unsigned_less [of a, where ?'a = nat] by simp
  ultimately have small: "unat a + i < 2 ^ 32"
    using low by linarith
  have "unat (of_nat i :: u32) = i"
    using assms by (auto simp: unat_of_nat_u32)
  then show sum: "unat (a + of_nat i) = unat a + i"
    using small by (simp add: unat_add_small)
  show "unat (a + of_nat i) div 4 = unat a div 4"
    unfolding sum using byte_in_word(1) [of i a] low by simp
qed

section \<open>Accesses\<close>

lemma le_value_cong:
  "(\<And>i. i < n \<Longrightarrow> f (x + i) = g (y + i)) \<Longrightarrow> le_value f x n = le_value g y n"
proof (induction n arbitrary: x y)
  case (Suc n)
  have "le_value f (x + 1) n = le_value g (y + 1) n"
    using Suc.prems [of "Suc i" for i] by (intro Suc.IH) simp
  then show ?case
    using Suc.prems [of 0] by simp
qed simp

lemma mappedD:
  assumes "mapped (byte_at c) a n" "0 < n"
  obtains j where "region_of a (m_regions c) 0 = Some j"
  using assms by (force simp: mapped_def byte_at_def)

lemma region_access:
  assumes ok: "list_all region_ok (m_regions c)" and n: "n \<in> {1, 2, 4}" "unat a mod n = 0"
    and j: "region_of a (m_regions c) 0 = Some j"
  defines "r \<equiv> m_regions c ! j"
  shows "access_ok (m_mem r) (a - m_mem_base r) n"
    and "i < n \<Longrightarrow> byte_at c (a + of_nat i) =
      Some (mem_byte (m_mem r) (unat (a - m_mem_base r) + i))"
proof -
  note r = region_of_found [OF j ok, of r, unfolded r_def, OF refl]
  have base: "unat (m_mem_base (m_regions c ! j)) mod 4 = 0"
    using r(2) by (simp add: region_ok_def)
  then have "unat (a - m_mem_base (m_regions c ! j)) mod n = 0"
    using n r(3,4) by (auto simp: word_le_nat_alt mod_diff_eq)
  then show "access_ok (m_mem r) (a - m_mem_base r) n"
    using n r(5) by (simp add: access_ok_def r_def)
  assume i: "i < n"
  note word = aligned_word [OF n i]
  have "region_of (a + of_nat i) (m_regions c) 0 = Some j"
    using region_of_word [OF ok word(2)] j by simp
  moreover have "unat (a + of_nat i - m_mem_base (m_regions c ! j)) =
      unat (a - m_mem_base (m_regions c ! j)) + i"
  proof -
    have "m_mem_base (m_regions c ! j) \<le> a + of_nat i"
      using r(3) word(1) by (simp add: word_le_nat_alt)
    then show ?thesis
      using r(3,4) word(1) by (simp add: unat_sub word_le_nat_alt)
  qed
  ultimately show "byte_at c (a + of_nat i) =
      Some (mem_byte (m_mem r) (unat (a - m_mem_base r) + i))"
    by (simp add: byte_at_def r_def Let_def)
qed

lemma region_load_ref:
  assumes ok: "list_all region_ok (m_regions c)" and n: "n \<in> {1, 2, 4}"
    and load: "ref_load (byte_at c) a n s = Some v"
  obtains j where "region_of a (m_regions c) 0 = Some j" "region_load a n s j c = Inr v"
proof -
  have "mapped (byte_at c) a n"
    using load by (simp add: ref_load_def split: if_splits)
  moreover have "0 < n"
    using n by auto
  ultimately obtain j where j: "region_of a (m_regions c) 0 = Some j" and align: "unat a mod n = 0"
    by (metis mappedD mapped_def)
  note access = region_access [OF ok n align j]
  have "le_value (mem_byte (m_mem (m_regions c ! j))) (unat (a - m_mem_base (m_regions c ! j))) n =
      le_value (\<lambda>k. the (byte_at c (a + of_nat k))) 0 n"
    by (rule le_value_cong) (simp add: access(2))
  then have "region_load a n s j c = Inr v"
    using load mem_load_bytes [OF access(1), of s]
    by (simp add: region_load_def Let_def ref_load_def le_load_def split: if_splits)
  then show thesis
    using j that by blast
qed

lemma region_of_set:
  assumes "m_mem_base r' = m_mem_base (rs ! j)" "m_mem_size r' = m_mem_size (rs ! j)"
  shows "region_of a (rs[j := r']) k = region_of a rs k"
  using assms
proof (induction rs arbitrary: j k)
  case (Cons r rs)
  then show ?case
    by (cases j) (auto simp: in_region_def)
qed simp

lemma region_store_ref:
  assumes ok: "list_all region_ok (m_regions c)" and n: "n \<in> {1, 2, 4}"
    and store: "ref_store (byte_at c) a n d = Some mem'"
  obtains j rs where "region_of a (m_regions c) 0 = Some j"
    "region_store a d n j c = Inr (c\<lparr>m_regions := rs\<rparr>)"
    "list_all region_ok rs" "byte_at (c\<lparr>m_regions := rs\<rparr>) = mem'"
proof -
  have mapped: "mapped (byte_at c) a n"
    using store by (simp add: ref_store_def split: if_splits)
  moreover have "0 < n"
    using n by auto
  ultimately obtain j where j: "region_of a (m_regions c) 0 = Some j" and align: "unat a mod n = 0"
    by (metis mappedD mapped_def)
  define r where "r = m_regions c ! j"
  note access = region_access [OF ok n align j, folded r_def]
  note found = region_of_found [OF j ok r_def]
  obtain m where m: "mem_store (m_mem r) (a - m_mem_base r) d n = Inr m"
    "mem_byte m = le_store (mem_byte (m_mem r)) (unat (a - m_mem_base r)) n d"
    "length (Mem m) = length (Mem (m_mem r))"
    using mem_store_bytes [OF access(1), of d] by blast
  define rs where "rs = (m_regions c)[j := r\<lparr>m_mem := m\<rparr>]"
  have nth: "rs ! k = (if k = j then r\<lparr>m_mem := m\<rparr> else m_regions c ! k)" for k
    using found(1) by (simp add: rs_def nth_list_update)
  have same: "region_of b rs 0 = region_of b (m_regions c) 0" for b
    unfolding rs_def by (rule region_of_set) (simp_all add: r_def)
  have "region_store a d n j c = Inr (c\<lparr>m_regions := rs\<rparr>)"
    using m(1) by (simp add: region_store_def Let_def rs_def r_def)
  moreover have "list_all region_ok rs"
    using ok found(1,2) m(3) by (auto simp: rs_def list_all_length nth_list_update region_ok_def)
  moreover have "byte_at (c\<lparr>m_regions := rs\<rparr>) b = mem' b" for b
  proof (cases "unat (b - a) < n")
    case True
    define i where "i = unat (b - a)"
    have b: "b = a + of_nat i"
      by (simp add: i_def)
    have i: "i < n"
      using True by (simp add: i_def)
    have "region_of b (m_regions c) 0 = Some j"
      using region_of_word [OF ok aligned_word(2) [OF n align i]] j b by simp
    moreover have "unat (b - m_mem_base r) = unat (a - m_mem_base r) + i"
      using found(3,4) aligned_word(1) [OF n align i]
      by (subst unat_sub) (auto simp: b word_le_nat_alt)
    moreover have "mem' b = Some (ucast (drop_bit (8 * i) d))"
      using store mapped True by (auto simp: ref_store_def i_def)
    ultimately show ?thesis
      using i by (simp add: byte_at_def same Let_def nth m(2) le_store_def)
  next
    case False
    have "mem' b = byte_at c b"
      using store mapped False by (auto simp: ref_store_def)
    moreover have "mem_byte m (unat (b - m_mem_base r)) = mem_byte (m_mem r) (unat (b - m_mem_base r))"
      if "region_of b (m_regions c) 0 = Some j"
    proof -
      note b = region_of_found [OF that ok r_def]
      have "\<not> (unat (a - m_mem_base r) \<le> unat (b - m_mem_base r) \<and>
          unat (b - m_mem_base r) < unat (a - m_mem_base r) + n)"
      proof
        assume inside: "unat (a - m_mem_base r) \<le> unat (b - m_mem_base r) \<and>
          unat (b - m_mem_base r) < unat (a - m_mem_base r) + n"
        then have "a \<le> b"
          using b(3,4) found(3,4) unfolding word_le_nat_alt by linarith
        then have "unat (b - a) < n"
          using inside b(3,4) found(3,4) by (simp add: unat_sub word_le_nat_alt) linarith
        then show False
          using False by simp
      qed
      then show ?thesis
        by (auto simp: m(2) le_store_def)
    qed
    ultimately show ?thesis
      by (cases "region_of b (m_regions c) 0") (auto simp: byte_at_def same Let_def nth r_def)
  qed
  ultimately show thesis
    using j that by blast
qed

section \<open>Arithmetic\<close>

lemma exec_imm_ref: "exec_imm (imm_enum i) f x pc = Some (Inr (imm_ref i x (imm12 f)))"
  by (cases i) (simp_all add: exec_imm_def word_less_def)

lemma uint_drop_bit: "uint (drop_bit n (x :: 'a::len word)) = drop_bit n (uint x)"
  by (rule bit_eqI) (auto simp: bit_simps dest: bit_imp_le_length)

lemma shift_words:
  fixes x :: "'a::len word"
  shows "push_bit n x = word_of_int (uint x * 2 ^ n)"
    and "drop_bit n x = word_of_int (uint x div 2 ^ n)"
    and "signed_drop_bit n x = word_of_int (sint x div 2 ^ n)"
proof -
  show "push_bit n x = word_of_int (uint x * 2 ^ n)"
    by (simp add: push_bit_eq_mult)
  show "drop_bit n x = word_of_int (uint x div 2 ^ n)"
    by (metis drop_bit_eq_div of_int_uint ucast_id uint_drop_bit)
  show "signed_drop_bit n x = word_of_int (sint x div 2 ^ n)"
    by (metis drop_bit_eq_div of_int_sint scast_id sint_signed_drop_bit_eq)
qed

lemma exec_shift_ref:
  assumes "unat (shamt f) = n" "n < 32"
  shows "exec_imm (shift_enum i) f x pc = Some (Inr (shift_ref i x n))"
  using assms
  by (cases i) (simp_all add: exec_imm_def cpp_shl_def cpp_shr_def cpp_sar_def shift_words [where 'a = 32])

lemma ucast_of_int_64: "ucast (word_of_int k :: u64) = (word_of_int k :: u32)"
  by (rule bit_word_eqI) (simp add: bit_simps)

lemma high_products:
  fixes x y :: u32
  shows "ucast (signed_drop_bit 32 ((scast x :: u64) * ucast y)) =
      (word_of_int (sint x * uint y div 2 ^ 32) :: u32)"
    and "ucast (drop_bit 32 ((ucast x :: u64) * ucast y)) =
      (word_of_int (uint x * uint y div 2 ^ 32) :: u32)"
proof -
  have x: "- (2 ^ 31) \<le> sint x" "sint x < 2 ^ 31" and y: "0 \<le> uint y" "uint y < 2 ^ 32"
    and x': "0 \<le> uint x" "uint x < 2 ^ 32"
    using sint_range_size [of x] uint_lt2p [of y] uint_lt2p [of x] by (simp_all add: word_size)
  have "\<bar>sint x\<bar> * uint y \<le> 2 ^ 31 * (2 ^ 32 - 1)"
    using x y by (intro mult_mono) auto
  then have bound: "\<bar>sint x * uint y\<bar> \<le> 2 ^ 31 * (2 ^ 32 - 1)"
    using y by (simp add: abs_mult)
  have "(scast x :: u64) * ucast y = word_of_int (sint x * uint y)"
    by simp
  moreover have "sint (word_of_int p :: u64) = p" if "\<bar>p\<bar> \<le> 2 ^ 31 * (2 ^ 32 - 1)" for p :: int
  proof -
    have "- (2 ^ 63) \<le> p" "p < 2 ^ 63"
      using that by auto
    then show ?thesis
      unfolding signed_of_int of_int_eq_id id_apply by (simp add: signed_take_bit_int_eq_self)
  qed
  then have "sint (word_of_int (sint x * uint y) :: u64) = sint x * uint y"
    using bound by blast
  ultimately have "sint ((scast x :: u64) * ucast y) = sint x * uint y"
    by (simp only:)
  then have "signed_drop_bit 32 ((scast x :: u64) * ucast y) =
      word_of_int (sint x * uint y div 2 ^ 32)"
    by (simp only: shift_words(3))
  then show "ucast (signed_drop_bit 32 ((scast x :: u64) * ucast y)) =
      (word_of_int (sint x * uint y div 2 ^ 32) :: u32)"
    by (simp only: ucast_of_int_64)
  have "uint x * uint y \<le> (2 ^ 32 - 1) * (2 ^ 32 - 1)"
    using x' y by (intro mult_mono) auto
  then have "uint ((ucast x :: u64) * ucast y) = uint x * uint y"
    using x' y by (simp add: uint_word_ariths unsigned_ucast_eq take_bit_int_eq_self)
  then have "drop_bit 32 ((ucast x :: u64) * ucast y) = word_of_int (uint x * uint y div 2 ^ 32)"
    by (simp only: shift_words(2))
  then show "ucast (drop_bit 32 ((ucast x :: u64) * ucast y)) =
      (word_of_int (uint x * uint y div 2 ^ 32) :: u32)"
    by (simp only: ucast_of_int_64)
qed

lemma divisions:
  fixes x y :: u32
  shows "sint x = - 2147483648 \<Longrightarrow> x = 2147483648"
    and "(2147483648 :: int) smod 1 = 0"
    and "x div y = word_of_int (uint x div uint y)"
    and "x mod y = word_of_int (uint x mod uint y)"
proof -
  show "x = 2147483648" if "sint x = - 2147483648"
  proof -
    have "x = word_of_int (- 2147483648)"
      using that by (metis of_int_sint scast_id)
    then show ?thesis
      by simp
  qed
qed (simp_all add: signed_modulo_int_def word_div_def word_mod_def)

lemma exec_reg_ref:
  assumes "portable_op i x y"
  shows "(case exec_reg (reg_enum i) x y of None \<Rightarrow> exec_muldiv (reg_enum i) x y | Some r \<Rightarrow> Some r) =
    Some (Inr (reg_ref i x y))"
  using assms
  by (cases i; simp add: exec_reg_def exec_muldiv_def cpp_shl_def cpp_shr_def cpp_sar_def cpp_int_def
      shift_words [where 'a = 32] high_products divisions word_less_def Let_def)

section \<open>One instruction\<close>

lemma write_back_ref:
  assumes "length (m_gpr c) = 32"
  shows "arch_of ((write_back (ucast d) v c)\<lparr>m_pc := p\<rparr>) = (put_reg d v (arch_of c))\<lparr>a_pc := p\<rparr>"
proof -
  have d: "unat (ucast (d :: gpreg) :: u32) = unat d" "(ucast d :: u32) = 0 \<longleftrightarrow> d = 0"
    using unsigned_less [of d, where ?'a = nat]
    by (simp_all add: unsigned_ucast_eq take_bit_nat_eq_self word_unat_eq_iff)
  have "(m_gpr c)[unat d := v] ! unat r = (if r = d then v else m_gpr c ! unat r)" for r :: gpreg
    using unsigned_less [of d, where ?'a = nat] assms by (simp add: nth_list_update word_unat_eq_iff)
  then show ?thesis
    by (auto simp: write_back_def arch_of_def put_reg_def d byte_at_def fun_eq_iff)
qed

lemma arch_fields [simp]:
  "a_pc (arch_of c) = m_pc c" "a_mem (arch_of c) = byte_at c"
  by (simp_all add: arch_of_def)

text \<open>What an instruction leaves of the state besides registers, \<open>pc\<close>, memory and counts.\<close>

definition same_machine :: "riscv \<Rightarrow> riscv \<Rightarrow> bool" where
  "same_machine c c' \<longleftrightarrow> m_gpr c' = m_gpr c \<and> m_csr_mpriv c' = m_csr_mpriv c \<and>
     m_csr_mie c' = m_csr_mie c \<and> list_all region_ok (m_regions c')"

lemma counted:
  "arch_of (count_stat i c) = arch_of c" "arch_of (event_push ev x y c) = arch_of c"
  by (simp_all add: arch_of_def byte_at_def count_stat_def event_push_def fun_eq_iff)

text \<open>Each instruction belongs to one section of the chain.\<close>

lemma section_of_reg:
  "exec_imm (reg_enum k) f x p = None" "exec_jump (reg_enum k) f x p = None"
  "exec_branch (reg_enum k) f x y p = None" "load_kind (reg_enum k) = None"
  "store_kind (reg_enum k) = None"
  by (cases k; simp add: exec_imm_def exec_jump_def exec_branch_def load_kind_def store_kind_def)+

lemma section_of_jump:
  "exec_imm ENUM_INST_JAL f x p = None" "exec_imm ENUM_INST_JALR f x p = None"
  "exec_reg ENUM_INST_JAL x y = None" "exec_reg ENUM_INST_JALR x y = None"
  by (simp_all add: exec_imm_def exec_reg_def)

lemma section_of_branch:
  "exec_imm (branch_enum b) f x p = None" "exec_reg (branch_enum b) x y = None"
  "exec_jump (branch_enum b) f x p = None"
  by (cases b; simp add: exec_imm_def exec_reg_def exec_jump_def)+

lemma section_of_load:
  "exec_imm (load_enum l) f x p = None" "exec_reg (load_enum l) x y = None"
  "exec_jump (load_enum l) f x p = None" "exec_branch (load_enum l) f x y p = None"
  "load_kind (load_enum l) = Some (load_ref l)" "fst (load_ref l) \<in> {1, 2, 4}"
proof -
  show "fst (load_ref l) \<in> {1, 2, 4}"
    by (cases l) simp_all
qed (cases l; simp add: exec_imm_def exec_reg_def exec_jump_def exec_branch_def load_kind_def)+

lemma section_of_store:
  "exec_imm (store_enum t) f x p = None" "exec_reg (store_enum t) x y = None"
  "exec_jump (store_enum t) f x p = None" "exec_branch (store_enum t) f x y p = None"
  "load_kind (store_enum t) = None"
  "store_kind (store_enum t) = Some (store_ref t)" "store_ref t \<in> {1, 2, 4}"
proof -
  show "store_ref t \<in> {1, 2, 4}"
    by (cases t) simp_all
qed (cases t; simp add: exec_imm_def exec_reg_def exec_jump_def exec_branch_def load_kind_def
      store_kind_def)+

lemmas section_of = section_of_reg section_of_jump section_of_branch section_of_load section_of_store

lemma exec_branch_ref:
  "exec_branch (branch_enum b) f x y p =
     Some (if branch_ref b x y then p + bimm f else p + 4)"
  by (cases b) (simp_all add: exec_branch_def Let_def word_less_def word_le_def)

lemma translate_machine:
  "m_csr_mpriv c = PRIV_MACHINE \<Longrightarrow> mmu_d_translate pc a w c = Inr (Some a, c)"
  "m_csr_mpriv c = PRIV_MACHINE \<Longrightarrow> mmu_i_translate a c = Inr (Some a, c)"
  by (simp_all add: mmu_d_translate_def mmu_i_translate_def)

lemma same_machineI:
  "machine_ok c \<Longrightarrow> same_machine c c" "machine_ok c \<Longrightarrow> same_machine c (count_stat i c)"
  by (simp_all add: same_machine_def machine_ok_def count_stat_def)

lemma rv_load_ref:
  assumes c: "machine_ok c" and load: "ref_load (byte_at c) a n s = Some v" and n: "n \<in> {1, 2, 4}"
  shows "\<exists>c'. rv_load pc a n s c = Inr (Some v, c') \<and> same_machine c c' \<and> arch_of c' = arch_of c"
proof -
  have ok: "list_all region_ok (m_regions c)" "m_csr_mpriv c = PRIV_MACHINE"
    using c by (simp_all add: machine_ok_def)
  obtain j where j: "region_of a (m_regions c) 0 = Some j" "region_load a n s j c = Inr v"
    using region_load_ref [OF ok(1) n load] by blast
  let ?c = "count_stat STATS_LOADS (event_push COSIM_EVENT_LOAD (a AND NOT 3) 0 c)"
  have "m_regions ?c = m_regions c"
    by (simp add: count_stat_def event_push_def)
  then have "rv_load pc a n s c = Inr (Some v, event_push COSIM_EVENT_LOAD_RESULT v 0 ?c)"
    using j by (simp add: rv_load_def translate_machine ok(2) Let_def region_load_def)
  moreover have "same_machine c (event_push COSIM_EVENT_LOAD_RESULT v 0 ?c)"
    using ok(1) by (simp add: same_machine_def count_stat_def event_push_def)
  ultimately show ?thesis
    by (metis counted)
qed

lemma rv_store_ref:
  assumes c: "machine_ok c" and store: "ref_store (byte_at c) a n d = Some m" and n: "n \<in> {1, 2, 4}"
  shows "\<exists>c'. rv_store pc a d n c = Inr (True, c') \<and> same_machine c c' \<and>
    arch_of c' = (arch_of c)\<lparr>a_mem := m\<rparr>"
proof -
  have ok: "list_all region_ok (m_regions c)" "m_csr_mpriv c = PRIV_MACHINE"
    using c by (simp_all add: machine_ok_def)
  define c1 where "c1 = (let c = count_stat STATS_STORES c
    in if n = 1 then event_push COSIM_EVENT_STORE (a AND NOT 3) (d AND 0xFF) c
       else if n = 2 then event_push COSIM_EVENT_STORE (a AND NOT 3) (d AND 0xFFFF) c
       else event_push COSIM_EVENT_STORE a d c)"
  have same: "m_regions c1 = m_regions c" "m_gpr c1 = m_gpr c" "m_csr_mpriv c1 = m_csr_mpriv c"
    "m_csr_mie c1 = m_csr_mie c" "m_pc c1 = m_pc c"
    by (simp_all add: c1_def Let_def count_stat_def event_push_def)
  have "byte_at c1 = byte_at c"
    by (simp add: byte_at_def same fun_eq_iff)
  then obtain j rs where j: "region_of a (m_regions c) 0 = Some j"
    "region_store a d n j c1 = Inr (c1\<lparr>m_regions := rs\<rparr>)" "list_all region_ok rs"
    "byte_at (c1\<lparr>m_regions := rs\<rparr>) = m"
    using region_store_ref [of c1 n a d m] ok(1) n store by (auto simp: same)
  have "rv_store pc a d n c = Inr (True, c1\<lparr>m_regions := rs\<rparr>)"
    using j(1,2) same(1) by (simp add: rv_store_def translate_machine ok(2) Let_def c1_def)
  moreover have "same_machine c (c1\<lparr>m_regions := rs\<rparr>)"
    using j(3) by (simp add: same_machine_def same)
  moreover have "arch_of (c1\<lparr>m_regions := rs\<rparr>) = (arch_of c)\<lparr>a_mem := m\<rparr>"
    using j(4) by (simp add: arch_of_def same)
  ultimately show ?thesis
    by blast
qed

lemma exec_insn_ref:
  assumes c: "machine_ok c" and run: "portable i (arch_of c)" "ref_step i (arch_of c) = Some a"
  shows "\<exists>r v p c'. exec_insn (insn_enum i) (extract_fields (assemble i)) c =
      Inr (Continue r v p False c') \<and> same_machine c c' \<and>
      arch_of ((write_back r v c')\<lparr>m_pc := p\<rparr>) = a"
proof -
  have ok: "regs_ok c" "length (m_gpr c) = 32"
    using c by (simp_all add: machine_ok_def regs_ok_def)
  note reads = gpr_get_reg [OF ok(1)]
  note same = same_machineI [OF c]
  have wb: "arch_of ((write_back (ucast d) v c')\<lparr>m_pc := p\<rparr>) = (put_reg d v (arch_of c'))\<lparr>a_pc := p\<rparr>"
    if "same_machine c c'" for d :: gpreg and v p c'
    using that ok(2) by (intro write_back_ref) (simp add: same_machine_def)
  have wb_none: "arch_of ((write_back 0 v b)\<lparr>m_pc := p\<rparr>) = (arch_of b)\<lparr>a_pc := p\<rparr>" for v b p
    by (simp add: write_back_def arch_of_def byte_at_def fun_eq_iff)
  have next_pc: "next_insn (put_reg d v b) = (put_reg d v b)\<lparr>a_pc := a_pc b + 4\<rparr>" for d v b
    by (simp add: next_insn_def put_reg_def)
  show ?thesis
  proof (cases i)
    case (OP_IMM k d s imm)
    then show ?thesis
      using run same(1) wb [OF same(1)]
      by (auto simp: exec_insn_def Let_def exec_imm_ref assemble_fields reads next_pc)
  next
    case (SHIFT_IMM k d s n)
    have "unat (ucast n :: u32) = unat n" "unat n < 32"
      using unsigned_less [of n, where ?'a = nat]
      by (simp_all add: unsigned_ucast_eq take_bit_nat_eq_self)
    then have "exec_imm (shift_enum k) (extract_fields (assemble i)) x p =
        Some (Inr (shift_ref k x (unat n)))" for x p
      using SHIFT_IMM by (intro exec_shift_ref) (cases k; simp add: assemble_fields)+
    then show ?thesis
      using run same(1) wb [OF same(1)] SHIFT_IMM
      by (auto simp: exec_insn_def Let_def assemble_fields reads next_pc)
  next
    case (LUI d imm)
    then show ?thesis
      using run same(1) wb [OF same(1)]
      by (auto simp: exec_insn_def Let_def exec_imm_def assemble_fields next_pc)
  next
    case (AUIPC d imm)
    then show ?thesis
      using run same(1) wb [OF same(1)]
      by (auto simp: exec_insn_def Let_def exec_imm_def assemble_fields next_pc add.commute)
  next
    case (OP k d s1 s2)
    then show ?thesis
      using run same(1) wb [OF same(1)] exec_reg_ref [of k "get_reg (arch_of c) s1" "get_reg (arch_of c) s2"]
      by (auto simp: exec_insn_def Let_def section_of assemble_fields reads next_pc split: option.splits)
  next
    case (JAL d imm)
    then show ?thesis
      using run same(2) wb [OF same(2)]
      by (auto simp: exec_insn_def Let_def section_of exec_jump_def assemble_fields counted)
  next
    case (JALR d s imm)
    then show ?thesis
      using run same(2) wb [OF same(2)]
      by (auto simp: exec_insn_def Let_def section_of exec_jump_def assemble_fields reads counted)
  next
    case (BRANCH k s1 s2 imm)
    then show ?thesis
      using run same(2)
      by (auto simp: exec_insn_def Let_def section_of exec_branch_ref assemble_fields reads counted
          wb_none next_insn_def mult.commute)
  next
    case (LOAD k d s imm)
    then obtain v where v: "ref_load (byte_at c) (get_reg (arch_of c) s + scast imm) (fst (load_ref k))
        (snd (load_ref k)) = Some v" "a = next_insn (put_reg d v (arch_of c))"
      using run(2) by (auto split: option.splits)
    obtain c' where "rv_load (m_pc c) (get_reg (arch_of c) s + scast imm) (fst (load_ref k))
        (snd (load_ref k)) c = Inr (Some v, c')" "same_machine c c'" "arch_of c' = arch_of c"
      using rv_load_ref [OF c v(1) section_of_load(6)] by blast
    then show ?thesis
      using LOAD v(2) wb [of c']
      by (auto simp: exec_insn_def Let_def section_of assemble_fields reads next_pc split: prod.splits)
  next
    case (STORE k s2 s1 imm)
    then obtain m where m: "ref_store (byte_at c) (get_reg (arch_of c) s1 + scast imm) (store_ref k)
        (get_reg (arch_of c) s2) = Some m" "a = next_insn ((arch_of c)\<lparr>a_mem := m\<rparr>)"
      using run(2) by (auto split: option.splits)
    obtain c' where "rv_store (m_pc c) (get_reg (arch_of c) s1 + scast imm) (get_reg (arch_of c) s2)
        (store_ref k) c = Inr (True, c')" "same_machine c c'" "arch_of c' = (arch_of c)\<lparr>a_mem := m\<rparr>"
      using rv_store_ref [OF c m(1) section_of_store(7)] by blast
    then show ?thesis
      using STORE m(2)
      by (auto simp: exec_insn_def Let_def section_of assemble_fields reads next_insn_def wb_none)
  qed
qed

section \<open>Programs\<close>

lemma assemble_not_0: "assemble i \<noteq> 0"
proof
  assume "assemble i = 0"
  moreover have "rv_decode 0 = None"
    by code_simp
  ultimately show False
    using decode_assemble [of i] by simp
qed

lemma finish_ref:
  assumes "machine_ok c" "same_machine c c'"
  shows "finish_execute (Continue r v p False c') = Inr ((write_back r v c')\<lparr>m_pc := p\<rparr>)"
    and "machine_ok ((write_back r v c')\<lparr>m_pc := p\<rparr>)"
  using assms
  by (auto simp: finish_execute_def take_interrupt_def write_back_def same_machine_def machine_ok_def
      regs_ok_def unat_eq_0)

lemma fetch_ref:
  assumes "machine_ok c" "ref_load (byte_at c) a 4 False = Some w"
  shows "get_opcode a c = Inr w"
proof -
  obtain j where "region_of a (m_regions c) 0 = Some j" "region_load a 4 False j c = Inr w"
    using region_load_ref [of c 4 a False w] assms by (auto simp: machine_ok_def)
  then show ?thesis
    by (simp add: get_opcode_def rv_read32_def)
qed

lemma execute_ref:
  assumes c: "machine_ok c" and fetch: "ref_load (byte_at c) (m_pc c) 4 False = Some (assemble i)"
    and run: "portable i (arch_of c)" "ref_step i (arch_of c) = Some a"
  shows "\<exists>c'. rv_execute c = Inr c' \<and> machine_ok c' \<and> arch_of c' = a"
proof -
  let ?c = "c\<lparr>m_pc_x := m_pc c\<rparr>"
  have same: "arch_of ?c = arch_of c" "machine_ok ?c"
    using c by (simp_all add: arch_of_def byte_at_def fun_eq_iff machine_ok_def regs_ok_def)
  obtain r v p c' where exec: "exec_insn (insn_enum i) (extract_fields (assemble i)) ?c =
      Inr (Continue r v p False c')" "same_machine ?c c'" "arch_of ((write_back r v c')\<lparr>m_pc := p\<rparr>) = a"
    using exec_insn_ref [OF same(2), unfolded same(1), OF run] by blast
  note finish = finish_ref [OF same(2) exec(2)]
  have "m_csr_mpriv c = PRIV_MACHINE"
    using c by (simp add: machine_ok_def)
  then have "rv_execute c = Inr ((write_back r v c')\<lparr>m_pc := p\<rparr>)"
    by (simp add: rv_execute_def translate_machine fetch_ref [OF c fetch] Let_def assemble_not_0
        decode_assemble exec(1) finish(1))
  then show ?thesis
    using exec(3) finish(2) by blast
qed

lemma step_ref:
  assumes c: "machine_ok c" and fetch: "ref_load (byte_at c) (m_pc c) 4 False = Some (assemble i)"
    and run: "portable i (arch_of c)" "ref_step i (arch_of c) = Some a"
  shows "\<exists>c'. rv_step c = Inr c' \<and> machine_ok c' \<and> arch_of c' = a"
proof -
  let ?c = "count_stat STATS_INSTRUCTIONS c"
  have same: "m_pc ?c = m_pc c" "byte_at ?c = byte_at c" "machine_ok ?c"
    using c by (simp_all add: count_stat_def byte_at_def fun_eq_iff machine_ok_def regs_ok_def)
  obtain d where d: "rv_execute ?c = Inr d" "machine_ok d" "arch_of d = a"
    using execute_ref [OF same(3)] fetch run by (auto simp: same counted)
  obtain e where "rv_step c = Inr e" "m_gpr e = m_gpr d" "m_pc e = m_pc d" "m_regions e = m_regions d"
    "m_csr_mpriv e = m_csr_mpriv d" "m_csr_mie e = m_csr_mie d"
    by (simp add: rv_step_def d(1) Let_def)
  then show ?thesis
    using d(2,3) by (auto simp: machine_ok_def regs_ok_def arch_of_def byte_at_def)
qed

lemma steps_ref:
  assumes "machine_ok c" "rv32_runs n (arch_of c) a"
  shows "\<exists>c'. rv_steps n c = Inr c' \<and> machine_ok c' \<and> arch_of c' = a"
proof -
  have "\<exists>c'. rv_steps n c = Inr c' \<and> machine_ok c' \<and> arch_of c' = a"
    if "rv32_runs n b a" "arch_of c = b" "machine_ok c" for n b c
    using that
  proof (induction arbitrary: c rule: rv32_runs.induct)
    case (rv32_stop a)
    then show ?case
      by auto
  next
    case (rv32_step a i b n a')
    obtain d where "rv_step c = Inr d" "machine_ok d" "arch_of d = b"
      using step_ref [of c i b] rv32_step by auto
    then show ?case
      using rv32_step.IH by auto
  qed
  then show ?thesis
    using assms by blast
qed


text \<open>A machine of 16 bytes with the program \<open>addi x1, x0, -7; mulh x2, x1, x1\<close>.\<close>

definition demo_program :: "insn list" where
  "demo_program = [OP_IMM ADDI 1 0 (- 7), OP R_MULH 2 1 1]"

definition demo_machine :: riscv where
  "demo_machine = rv_reset 0
     \<lparr> m_gpr = [], m_pc = 0, m_pc_x = 0, m_csr_mepc = 0, m_csr_mcause = 0, m_csr_msr = 0,
       m_csr_mpriv = 0, m_csr_mevec = 0, m_csr_mie = 0, m_csr_mip = 0, m_csr_mtime = 0,
       m_csr_mtimecmp = 0, m_csr_mscratch = 0, m_csr_mideleg = 0, m_csr_medeleg = 0,
       m_csr_sepc = 0, m_csr_sevec = 0, m_csr_scause = 0, m_csr_stval = 0, m_csr_satp = 0,
       m_csr_sscratch = 0,
       m_regions = [\<lparr>m_mem = \<lparr>Mem = map assemble demo_program @ [0, 0], Size = 16\<rparr>,
         m_mem_base = 0, m_mem_size = 16\<rparr>],
       m_fault = False, m_break = False, m_trace = 0, m_has_breakpoints = False,
       m_breakpoints = [], m_stats = [], m_console = None, console = [], event_q = (\<lambda>e. []) \<rparr>"

lemma demo_machine_ok: "machine_ok demo_machine"
  by (simp add: machine_ok_def regs_ok_def demo_machine_def demo_program_def rv_reset_def
      stats_reset_def region_ok_def)

lemma demo_words:
  "assemble (OP_IMM ADDI 1 0 (- 7)) = 0xff900093" "assemble (OP R_MULH 2 1 1) = 0x02109133"
  by (simp_all add: fmt_I_def fmt_R_def)

lemma demo_bytes:
  "byte_at demo_machine a = (if unat a < 16 then
     Some (mem_byte \<lparr>Mem = [0xff900093, 0x02109133, 0, 0], Size = 16\<rparr> (unat a)) else None)"
  by (simp add: demo_machine_def demo_program_def demo_words byte_at_def rv_reset_def stats_reset_def
      in_region_def word_less_nat_alt Let_def del: assemble.simps)

lemma all_less_4: "(\<forall>i < 4 :: nat. P i) \<longleftrightarrow> P 0 \<and> P 1 \<and> P 2 \<and> P 3"
  by (simp add: eval_nat_numeral All_less_Suc conj_ac)

lemma mapped_word: "mapped m a 4 \<longleftrightarrow>
    unat a mod 4 = 0 \<and> m a \<noteq> None \<and> m (a + 1) \<noteq> None \<and> m (a + 2) \<noteq> None \<and> m (a + 3) \<noteq> None"
  by (simp add: mapped_def all_less_4)

lemma le_value_4:
  "le_value f a 4 = ucast (f a) + 256 * (ucast (f (a + 1)) + 256 * (ucast (f (a + 2)) + 256 * ucast (f (a + 3))))"
  by (simp add: eval_nat_numeral)

lemma demo_fetch:
  "ref_load (byte_at demo_machine) 0 4 False = Some (assemble (OP_IMM ADDI 1 0 (- 7)))"
  "ref_load (byte_at demo_machine) 4 4 False = Some (assemble (OP R_MULH 2 1 1))"
  by (simp_all add: demo_words ref_load_def mapped_word demo_bytes le_load_def le_value_4 mem_byte_def
      del: assemble.simps)

lemma demo_runs: "\<exists>a. rv32_runs 2 (arch_of demo_machine) a \<and> a_regs a 2 = 0"
proof -
  let ?a = "next_insn (put_reg 1 (- 7) (arch_of demo_machine))"
  have pc: "m_pc demo_machine = 0"
    by (simp add: demo_machine_def rv_reset_def stats_reset_def)
  let ?b = "next_insn (put_reg 2 0 ?a)"
  have "ref_step (OP R_MULH 2 1 1) ?a = Some ?b"
    by (simp add: get_reg_def put_reg_def next_insn_def)
  moreover have "ref_load (a_mem ?a) (a_pc ?a) 4 False = Some (assemble (OP R_MULH 2 1 1))"
    using demo_fetch(2) by (simp add: pc next_insn_def put_reg_def del: assemble.simps)
  ultimately have "rv32_runs (Suc 0) ?a ?b"
    using rv32_step [where i = "OP R_MULH 2 1 1", OF _ _ _ rv32_stop] by simp
  moreover have "ref_step (OP_IMM ADDI 1 0 (- 7)) (arch_of demo_machine) = Some ?a"
    by (simp add: get_reg_def put_reg_def next_insn_def)
  moreover have "ref_load (a_mem (arch_of demo_machine)) (a_pc (arch_of demo_machine)) 4 False =
      Some (assemble (OP_IMM ADDI 1 0 (- 7)))"
    using demo_fetch(1) by (simp add: pc del: assemble.simps)
  ultimately have "rv32_runs 2 (arch_of demo_machine) ?b"
    unfolding numeral_2_eq_2 by - (rule rv32_step [where i = "OP_IMM ADDI 1 0 (- 7)"],
      simp_all del: assemble.simps ref_step.simps)
  then show ?thesis
    by (intro exI conjI) (auto simp: next_insn_def put_reg_def)
qed

end
