(* ===== verification/Riscv_Traps.thy ===== *)
theory Riscv_Traps
  imports Riscv_Refine
begin

text \<open>
  Privilege, traps and interrupts of the simulator: what every step keeps of the register file,
  the return from a trap, and the choice of the interrupt that is taken.
\<close>

section \<open>The invariant of every step\<close>

text \<open>
  32 registers, the first of them zero; a privilege of two bits (the reserved level 2 among them, see \<open>reserved_privilege\<close>); pending and enabled interrupts
  only where an interrupt exists; and memory regions that never move or change size.
\<close>

definition layout :: "riscv \<Rightarrow> (u32 \<times> u32 \<times> nat) list" where
  "layout c = map (\<lambda>r. (m_mem_base r, m_mem_size r, length (Mem (m_mem r)))) (m_regions c)"

definition irqs_only :: "u32 \<Rightarrow> bool" where
  "irqs_only x \<longleftrightarrow> x AND NOT IRQ_MASK = 0"

definition cpu_ok :: "(u32 \<times> u32 \<times> nat) list \<Rightarrow> riscv \<Rightarrow> bool" where
  "cpu_ok l c \<longleftrightarrow> regs_ok c \<and> layout c = l \<and> m_csr_mpriv c \<le> PRIV_MACHINE \<and>
     irqs_only (m_csr_mie c) \<and> irqs_only (m_csr_mip c) \<and> \<not> m_fault c"

lemma cpu_ok_same:
  "\<lbrakk>cpu_ok l c; m_gpr d = m_gpr c; m_regions d = m_regions c; m_csr_mpriv d = m_csr_mpriv c;
    m_csr_mie d = m_csr_mie c; m_csr_mip d = m_csr_mip c; m_fault d = m_fault c\<rbrakk> \<Longrightarrow> cpu_ok l d"
  by (simp add: cpu_ok_def regs_ok_def layout_def)

lemma cpu_ok_upd [simp]:
  "cpu_ok l (count_stat i c) = cpu_ok l c" "cpu_ok l (event_push ev x y c) = cpu_ok l c"
  "cpu_ok l (c\<lparr>m_pc := pc\<rparr>) = cpu_ok l c" "cpu_ok l (c\<lparr>m_pc_x := pc\<rparr>) = cpu_ok l c"
  "cpu_ok l (c\<lparr>m_break := b\<rparr>) = cpu_ok l c" "cpu_ok l (c\<lparr>m_csr_mtime := t\<rparr>) = cpu_ok l c"
  "cpu_ok l (c\<lparr>console := out\<rparr>) = cpu_ok l c" "cpu_ok l (c\<lparr>m_console := inp\<rparr>) = cpu_ok l c"
  "cpu_ok l (c\<lparr>m_trace := v\<rparr>) = cpu_ok l c"
  by (simp_all add: cpu_ok_def regs_ok_def layout_def count_stat_def event_push_def)

lemma exception_ok: "\<lbrakk>rv_exception cause pc badaddr c = Inr d; cpu_ok l c\<rbrakk> \<Longrightarrow> cpu_ok l d"
  by (auto simp: rv_exception_def Let_def cpu_ok_def regs_ok_def layout_def split: if_splits)

lemma i_translate_ok: "\<lbrakk>mmu_i_translate a c = Inr (p, d); cpu_ok l c\<rbrakk> \<Longrightarrow> cpu_ok l d"
  by (auto simp: mmu_i_translate_def Let_def rbind_Inr_iff dest: exception_ok split: if_splits)

lemma d_translate_ok: "\<lbrakk>mmu_d_translate pc a w c = Inr (p, d); cpu_ok l c\<rbrakk> \<Longrightarrow> cpu_ok l d"
  by (auto simp: mmu_d_translate_def Let_def rbind_Inr_iff dest: exception_ok split: if_splits)

lemma load_ok:
  assumes "rv_load pc a n s c = Inr (v, d)" "cpu_ok l c"
  shows "cpu_ok l d"
proof -
  obtain p b where b: "mmu_d_translate pc a False c = Inr (p, b)"
    using assms by (auto simp: rv_load_def rbind_Inr_iff)
  then show ?thesis
    using assms d_translate_ok [OF b]
    by (cases p) (auto simp: rv_load_def Let_def rbind_Inr_iff split: option.splits)
qed

lemma mem_store_length: "mem_store m a w n = Inr m' \<Longrightarrow> length (Mem m') = length (Mem m)"
  by (auto simp: mem_store_def Let_def rbind_Inr_iff mem_set_def split: if_splits)

lemma region_store_ok:
  assumes "region_store a w n j c = Inr d" "cpu_ok l c"
  shows "cpu_ok l d"
proof -
  obtain m where m: "mem_store (m_mem (m_regions c ! j)) (a - m_mem_base (m_regions c ! j)) w n = Inr m"
    and d: "d = c\<lparr>m_regions := (m_regions c)[j := (m_regions c ! j)\<lparr>m_mem := m\<rparr>]\<rparr>"
    using assms(1) by (auto simp: region_store_def Let_def rbind_Inr_iff)
  have "layout d = layout c"
    using mem_store_length [OF m]
      map_update [of "\<lambda>r. (m_mem_base r, m_mem_size r, length (Mem (m_mem r)))" "m_regions c" j
        "m_regions c ! j"]
    by (simp add: layout_def d map_update)
  then show ?thesis
    using assms(2) by (simp add: cpu_ok_def regs_ok_def d)
qed

lemma store_ok:
  assumes "rv_store pc a w n c = Inr (v, d)" "cpu_ok l c"
  shows "cpu_ok l d"
proof -
  obtain p b where b: "mmu_d_translate pc a True c = Inr (p, b)"
    using assms by (auto simp: rv_store_def rbind_Inr_iff)
  then show ?thesis
    using assms d_translate_ok [OF b]
    by (cases p) (auto simp: rv_store_def Let_def rbind_Inr_iff dest!: region_store_ok
        split: option.splits if_splits)
qed

lemma masked_bits: "(x :: u32) AND NOT m = 0 \<longleftrightarrow> (\<forall>n. bit x n \<longrightarrow> bit m n)"
proof
  assume "x AND NOT m = 0"
  then have none: "\<not> bit (x AND NOT m) n" for n
    by simp
  have "bit m n" if "bit x n" for n
    using that none [of n] bit_imp_le_length [OF that] by (simp add: bit_simps)
  then show "\<forall>n. bit x n \<longrightarrow> bit m n"
    by blast
next
  assume "\<forall>n. bit x n \<longrightarrow> bit m n"
  then show "x AND NOT m = 0"
    by (intro bits_eqI) (auto simp: bit_simps)
qed

lemma irqs_only_simps [simp]:
  "irqs_only x \<Longrightarrow> irqs_only (x AND y)" "irqs_only y \<Longrightarrow> irqs_only (x AND y)"
  "irqs_only (x OR y) \<longleftrightarrow> irqs_only x \<and> irqs_only y"
  unfolding irqs_only_def masked_bits by (auto simp: bit_simps)

lemma irqs_only_masks [simp]:
  "irqs_only IRQ_MASK" "irqs_only IRQ_S_MASK" "irqs_only SR_IP_STIP" "irqs_only SR_IP_MTIP"
  "irqs_only SR_IP_MEIP"
  by (simp_all add: irqs_only_def)

lemma csr_std_irqs:
  "\<lbrakk>csr_std msk var data s k = (r, v); irqs_only var; irqs_only msk\<rbrakk> \<Longrightarrow> irqs_only v"
  by (auto simp: csr_std_def Let_def split: if_splits)

lemma cpu_ok_irqs:
  "cpu_ok l c \<Longrightarrow> cpu_ok l (c\<lparr>m_csr_mip := v\<rparr>) \<longleftrightarrow> irqs_only v"
  "cpu_ok l c \<Longrightarrow> cpu_ok l (c\<lparr>m_csr_mie := v\<rparr>) \<longleftrightarrow> irqs_only v"
  by (simp_all add: cpu_ok_def regs_ok_def layout_def)

lemma sim_control_ok: "\<lbrakk>sim_control w c = Inr (v, d); cpu_ok l c\<rbrakk> \<Longrightarrow> cpu_ok l d"
  by (auto simp: sim_control_def Let_def rbind_Inr_iff split: if_splits option.splits)

lemma csr_time_ok: "\<lbrakk>csr_time w b c = (v, d); cpu_ok l c\<rbrakk> \<Longrightarrow> cpu_ok l d"
  by (auto simp: csr_time_def cpu_ok_def regs_ok_def layout_def split: if_splits)

lemma csr_ok:
  assumes "access_csr a w x y c = Inr (v, d)" "cpu_ok l c"
  shows "cpu_ok l d"
proof -
  have other: "cpu_ok l e" if "m_gpr e = m_gpr c" "m_regions e = m_regions c"
    "m_csr_mpriv e = m_csr_mpriv c" "m_csr_mie e = m_csr_mie c" "m_csr_mip e = m_csr_mip c" "m_fault e = m_fault c" for e
    using cpu_ok_same [OF assms(2)] that by blast
  have irqs: "irqs_only (m_csr_mip c)" "irqs_only (m_csr_mie c)"
    using assms(2) by (simp_all add: cpu_ok_def)
  show ?thesis
    using assms(1)
    by (auto simp: access_csr_def Let_def other cpu_ok_irqs [OF assms(2)] irqs assms(2)
        dest: sim_control_ok [OF _ assms(2)] csr_time_ok [OF _ assms(2)] csr_std_irqs
        split: if_splits prod.splits)
qed

lemma rd_bound: "unat (rd (extract_fields w)) < 32"
proof -
  have "rd (extract_fields w) = take_bit 5 (rd (extract_fields w))"
    by (rule bits_eqI) (auto simp: extract_fields_def Let_def bit_opcode_bits bit_take_bit_iff)
  then have "unat (rd (extract_fields w)) = take_bit 5 (unat (rd (extract_fields w)))"
    by (metis unsigned_take_bit_eq)
  then show ?thesis
    using take_bit_nat_less_exp [of 5 "unat (rd (extract_fields w))"] by simp
qed

text \<open>What a section of the chain hands to the write-back.\<close>

definition oc_ok :: "(u32 \<times> u32 \<times> nat) list \<Rightarrow> u32 \<Rightarrow> outcome \<Rightarrow> bool" where
  "oc_ok l r oc \<longleftrightarrow> (case oc of
     Return d \<Rightarrow> cpu_ok l d | Continue r' v pc e d \<Rightarrow> r' \<in> {0, r} \<and> cpu_ok l d)"

lemma returns_ok:
  "\<lbrakk>do_mret r c = Inr oc; cpu_ok l c\<rbrakk> \<Longrightarrow> oc_ok l r oc"
  "\<lbrakk>do_sret r c = Inr oc; cpu_ok l c\<rbrakk> \<Longrightarrow> oc_ok l r oc"
proof -
  have "drop_bit 11 (m_csr_msr c) AND 3 \<le> (3 :: u32)"
    by (rule word_and_le1)
  then show "\<lbrakk>do_mret r c = Inr oc; cpu_ok l c\<rbrakk> \<Longrightarrow> oc_ok l r oc"
    by (auto simp: do_mret_def Let_def oc_ok_def cpu_ok_def regs_ok_def layout_def split: if_splits)
  show "\<lbrakk>do_sret r c = Inr oc; cpu_ok l c\<rbrakk> \<Longrightarrow> oc_ok l r oc"
    by (auto simp: do_sret_def Let_def oc_ok_def cpu_ok_def regs_ok_def layout_def split: if_splits)
qed

lemma exec_system_ok:
  assumes "exec_system i f x pc c = Some (Inr oc)" "cpu_ok l c"
  shows "oc_ok l (rd f) oc"
  using assms
  by (cases i) (auto simp: exec_system_def Let_def rbind_Inr_iff oc_ok_def
      dest!: exception_ok [OF _ assms(2)] csr_ok [OF _ assms(2)]
      dest: returns_ok [OF _ assms(2), unfolded oc_ok_def])

lemma exec_insn_ok:
  assumes "exec_insn i f c = Inr oc" "cpu_ok l c"
  shows "oc_ok l (rd f) oc"
  using assms
  by (auto simp: exec_insn_def Let_def rbind_Inr_iff oc_ok_def
      dest!: load_ok [OF _ assms(2)] store_ok [OF _ assms(2)]
      dest: exec_system_ok [OF _ assms(2), unfolded oc_ok_def]
      split: option.splits prod.splits if_splits)

lemma write_back_ok:
  "\<lbrakk>cpu_ok l c; unat r < 32\<rbrakk> \<Longrightarrow> cpu_ok l (write_back r v c)"
  by (auto simp: write_back_def cpu_ok_def regs_ok_def layout_def unat_eq_0)

lemma take_interrupt_ok: "\<lbrakk>take_interrupt pc e c = Inr (e', d); cpu_ok l c\<rbrakk> \<Longrightarrow> cpu_ok l d"
  by (auto simp: take_interrupt_def rbind_Inr_iff dest: exception_ok split: if_splits option.splits)

lemma finish_ok:
  "\<lbrakk>finish_execute oc = Inr d; oc_ok l r oc; unat r < 32\<rbrakk> \<Longrightarrow> cpu_ok l d"
  by (cases oc) (force simp: finish_execute_def oc_ok_def rbind_Inr_iff
      dest: take_interrupt_ok [OF _ write_back_ok])+

lemma execute_ok:
  assumes "rv_execute c = Inr d" "cpu_ok l c"
  shows "cpu_ok l d"
proof -
  obtain p b where b: "mmu_i_translate (m_pc c) c = Inr (p, b)" "cpu_ok l b"
    using assms i_translate_ok by (fastforce simp: rv_execute_def rbind_Inr_iff)
  show ?thesis
  proof (cases p)
    case None
    then show ?thesis
      using assms(1) b by (simp add: rv_execute_def)
  next
    case (Some q)
    then obtain w i oc where "get_opcode q b = Inr w" "rv_decode w = Some i"
      and oc: "exec_insn i (extract_fields w) (b\<lparr>m_pc_x := m_pc b\<rparr>) = Inr oc"
        "finish_execute oc = Inr d"
      using assms(1) b(1)
      by (auto simp: rv_execute_def rbind_Inr_iff Let_def split: if_splits option.splits)
    then show ?thesis
      using finish_ok [OF oc(2) exec_insn_ok [OF oc(1)] rd_bound] b(2) by simp
  qed
qed

lemma step_ok:
  assumes "rv_step c = Inr d" "cpu_ok l c"
  shows "cpu_ok l d"
proof -
  obtain e where e: "rv_execute (count_stat STATS_INSTRUCTIONS c) = Inr e"
    using assms(1) by (auto simp: rv_step_def rbind_Inr_iff)
  then have "cpu_ok l e"
    using execute_ok assms(2) by simp
  then show ?thesis
    using assms(1) e
    by (auto simp: rv_step_def Let_def cpu_ok_def regs_ok_def layout_def split: if_splits)
qed

text \<open>
  Claim C6. In every mode and with interrupts and translation on, as many steps as the simulator makes keep
  register 0 zero, the register file of 32, the privilege within its two bits, the interrupt registers
  within the interrupts that exist, the fault flag clear, and the place and size of every memory
  region.
\<close>

theorem rv_steps_invariant:
  assumes "cpu_ok l c" "rv_steps n c = Inr d"
  shows "cpu_ok l d"
  using assms by (induction n arbitrary: c) (auto simp: rbind_Inr_iff dest: step_ok)

section \<open>Trap and return\<close>

lemma status_tests:
  "(s :: u32) AND SR_SIE = 0 \<longleftrightarrow> \<not> bit s 1" "s AND SR_MIE = 0 \<longleftrightarrow> \<not> bit s 3"
  "s AND SR_SPIE = 0 \<longleftrightarrow> \<not> bit s 5" "s AND SR_MPIE = 0 \<longleftrightarrow> \<not> bit s 7" "s AND SR_SPP = 0 \<longleftrightarrow> \<not> bit s 8"
  using and_exp_eq_0_iff_not_bit [of s 1] and_exp_eq_0_iff_not_bit [of s 3]
    and_exp_eq_0_iff_not_bit [of s 5] and_exp_eq_0_iff_not_bit [of s 7]
    and_exp_eq_0_iff_not_bit [of s 8] by simp_all

lemma status_updates:
  "(s :: u32) OR SR_SIE = set_bit 1 s" "s OR SR_MIE = set_bit 3 s" "s OR SR_SPIE = set_bit 5 s"
  "s OR SR_MPIE = set_bit 7 s" "s OR SR_SPP = set_bit 8 s"
  "s AND NOT SR_SIE = unset_bit 1 s" "s AND NOT SR_MIE = unset_bit 3 s"
  "s AND NOT SR_SPIE = unset_bit 5 s" "s AND NOT SR_MPIE = unset_bit 7 s"
  "s AND NOT SR_SPP = unset_bit 8 s" "s AND NOT SR_MPP = unset_bit 11 (unset_bit 12 s)"
  by (simp_all add: set_bit_eq_or unset_bit_eq_and_not push_bit_eq_mult and.assoc)

lemma or_if: "(s :: u32) OR (if b then m else 0) = (if b then s OR m else s)"
  by simp

lemmas status_simps = or_if status_updates [simplified] status_tests bit_set_bit_iff bit_unset_bit_iff
  possible_bit_def

lemma bits_priv:
  assumes "p \<le> PRIV_MACHINE" "bit (p :: u32) n"
  shows "n < 2"
proof -
  have "unat p < 4"
    using assms(1) by (simp add: word_le_nat_alt)
  then have "unat (take_bit 2 p) = unat p"
    by (simp add: unsigned_take_bit_eq take_bit_eq_mod unat_mod)
  then have "take_bit 2 p = p"
    by (simp add: word_unat_eq_iff)
  then show ?thesis
    using assms(2) by (metis bit_take_bit_iff)
qed

text \<open>The status register after a trap, and after the return from it.\<close>

definition trap_status :: "u32 \<Rightarrow> u32 \<Rightarrow> u32" where
  "trap_status p s =
     (let s = s AND NOT SR_MPIE;
          s = s OR (if s AND SR_MIE \<noteq> 0 then SR_MPIE else 0);
          s = s AND NOT SR_MIE;
          s = s AND NOT SR_MPP
      in s OR push_bit 11 p)"

lemma bit_trap_status:
  assumes "p \<le> PRIV_MACHINE"
  shows "bit (trap_status p s) n \<longleftrightarrow> (if n = 7 then bit s 3 else if n = 3 then False
    else if n = 11 then bit p 0 else if n = 12 then bit p 1 else bit s n)"
  using bits_priv [OF assms, of "n - 11"]
  by (auto simp: trap_status_def Let_def status_simps bit_or_iff bit_push_bit_iff split: if_splits
      dest: bit_imp_le_length)

lemma trap_privilege:
  assumes "p \<le> PRIV_MACHINE"
  shows "drop_bit 11 (trap_status p s) AND PRIV_MACHINE = p"
proof (rule bits_eqI)
  fix n :: nat
  assume "n < 32"
  have "drop_bit 11 (trap_status p s) AND PRIV_MACHINE = take_bit 2 (drop_bit 11 (trap_status p s))"
    by (simp add: take_bit_eq_mask mask_eq_exp_minus_1)
  then show "bit (drop_bit 11 (trap_status p s) AND PRIV_MACHINE) n = bit p n"
    using bits_priv [OF assms, of n] bit_trap_status [OF assms, of s]
    by (cases "n = 0"; cases "n = 1") (auto simp: bit_take_bit_iff bit_drop_bit_eq)
qed


definition return_status :: "u32 \<Rightarrow> u32" where
  "return_status s =
     (let s = s AND NOT SR_MIE;
          s = s OR (if s AND SR_MPIE \<noteq> 0 then SR_MIE else 0);
          s = s OR SR_MPIE
      in s AND NOT SR_MPP)"

lemma bit_return_status:
  "bit (return_status s) n \<longleftrightarrow> (if n = 3 then bit s 7 else if n = 7 then True
    else if n = 11 \<or> n = 12 then False else bit s n)"
  by (auto simp: return_status_def Let_def status_simps split: if_splits)

lemma return_trap_status:
  assumes "p \<le> PRIV_MACHINE"
  shows "return_status (trap_status p s) = (s OR SR_MPIE) AND NOT SR_MPP"
  by (rule bits_eqI) (auto simp: bit_return_status bit_trap_status [OF assms] status_simps)

text \<open>The same for a trap that is delegated to supervisor mode.\<close>

definition super_trap_status :: "u32 \<Rightarrow> u32 \<Rightarrow> u32" where
  "super_trap_status p s =
     (let s = s AND NOT SR_SPIE;
          s = s OR (if s AND SR_SIE \<noteq> 0 then SR_SPIE else 0);
          s = s AND NOT SR_SIE;
          s = s AND NOT SR_SPP
      in s OR (if p = PRIV_SUPER then SR_SPP else 0))"

definition super_return_status :: "u32 \<Rightarrow> u32" where
  "super_return_status s =
     (let s = s AND NOT SR_SIE;
          s = s OR (if s AND SR_SPIE \<noteq> 0 then SR_SIE else 0);
          s = s OR SR_SPIE
      in s AND NOT SR_SPP)"

lemma super_privilege: "super_trap_status p s AND SR_SPP \<noteq> 0 \<longleftrightarrow> p = PRIV_SUPER"
  by (auto simp: super_trap_status_def Let_def status_simps)

lemma super_return_trap_status:
  "super_return_status (super_trap_status p s) = (s OR SR_SPIE) AND NOT SR_SPP"
  by (rule bits_eqI) (auto simp: super_return_status_def super_trap_status_def Let_def status_simps)

text \<open>The two ways a trap goes.\<close>

definition delegated :: "u32 \<Rightarrow> riscv \<Rightarrow> bool" where
  "delegated cause c \<longleftrightarrow> m_csr_mpriv c \<le> PRIV_SUPER \<and>
     bit (if MCAUSE_INTERRUPT \<le> cause then m_csr_mideleg c else m_csr_medeleg c)
       (unat (if MCAUSE_INTERRUPT \<le> cause then cause - MCAUSE_INTERRUPT else cause))"

definition cause_ok :: "u32 \<Rightarrow> bool" where
  "cause_ok cause \<longleftrightarrow>
     unat (if MCAUSE_INTERRUPT \<le> cause then cause - MCAUSE_INTERRUPT else cause) < 32"

lemma and_push_1: "(x :: u32) AND push_bit n 1 \<noteq> 0 \<longleftrightarrow> bit x n"
  using and_exp_eq_0_iff_not_bit [of x n] by (simp add: push_bit_eq_mult)

lemma exception_cases:
  assumes "cause_ok cause"
  shows "rv_exception cause pc badaddr c = Inr
    (if delegated cause c then
       c\<lparr>m_csr_mpriv := PRIV_SUPER, m_csr_msr := super_trap_status (m_csr_mpriv c) (m_csr_msr c),
         m_csr_sepc := pc, m_csr_scause := cause, m_csr_stval := badaddr, m_pc := m_csr_sevec c\<rparr>
     else
       c\<lparr>m_csr_mpriv := PRIV_MACHINE, m_csr_msr := trap_status (m_csr_mpriv c) (m_csr_msr c),
         m_csr_mepc := pc, m_csr_mcause := cause, m_pc := m_csr_mevec c\<rparr>)"
proof -
  let ?n = "unat (if MCAUSE_INTERRUPT \<le> cause then cause - MCAUSE_INTERRUPT else cause)"
  have "?n < 32"
    using assms by (simp add: cause_ok_def)
  then show ?thesis
    unfolding rv_exception_def delegated_def and_push_1 [symmetric] Let_def trap_status_def
      super_trap_status_def by (simp cong: if_cong)
qed


text \<open>What a trap handler must leave alone: the trap's registers and the privilege.\<close>

definition handled :: "riscv \<Rightarrow> riscv \<Rightarrow> bool" where
  "handled c d \<longleftrightarrow> m_csr_mpriv d = m_csr_mpriv c \<and> m_csr_msr d = m_csr_msr c \<and>
     m_csr_mepc d = m_csr_mepc c \<and> m_csr_sepc d = m_csr_sepc c"

lemma exec_returns:
  "exec_insn ENUM_INST_MRET f c = do_mret (rd f) c"
  "exec_insn ENUM_INST_SRET f c = do_sret (rd f) c"
  by (simp_all add: exec_insn_def Let_def exec_imm_def exec_reg_def exec_jump_def exec_branch_def
      load_kind_def store_kind_def exec_muldiv_def exec_system_def)

lemma do_mret_eq:
  "m_csr_mpriv c = PRIV_MACHINE \<Longrightarrow> do_mret r c = Inr (Continue r 0 (m_csr_mepc c) False
     (c\<lparr>m_csr_mpriv := drop_bit 11 (m_csr_msr c) AND 3, m_csr_msr := return_status (m_csr_msr c)\<rparr>))"
  unfolding do_mret_def return_status_def Let_def by simp

lemma do_sret_eq:
  "m_csr_mpriv c = PRIV_SUPER \<Longrightarrow> do_sret r c = Inr (Continue r 0 (m_csr_sepc c) False
     (c\<lparr>m_csr_mpriv := (if m_csr_msr c AND SR_SPP \<noteq> 0 then PRIV_SUPER else PRIV_USER),
        m_csr_msr := super_return_status (m_csr_msr c)\<rparr>))"
  unfolding do_sret_def super_return_status_def Let_def by simp

text \<open>
  Claim C7. A trap from any privilege, to machine mode or delegated to supervisor mode, whose handler
  leaves the trap registers as they are, is undone by the return instruction of its mode: the
  program counter and the privilege are those of the trap, the interrupt enables are restored,
  and of the other status bits only the previous-enable bit (set) and the previous privilege
  (cleared) differ.
\<close>

theorem trap_returns:
  assumes "cause_ok cause" "m_csr_mpriv c \<le> PRIV_MACHINE"
    and trap: "rv_exception cause pc badaddr c = Inr d" and handler: "handled d e"
  shows "\<exists>e'. exec_insn (if m_csr_mpriv d = PRIV_MACHINE then ENUM_INST_MRET else ENUM_INST_SRET) f e =
      Inr (Continue (rd f) 0 pc False e') \<and> m_csr_mpriv e' = m_csr_mpriv c \<and>
      m_csr_msr e' = (if m_csr_mpriv d = PRIV_MACHINE then (m_csr_msr c OR SR_MPIE) AND NOT SR_MPP
        else (m_csr_msr c OR SR_SPIE) AND NOT SR_SPP)"
proof (cases "delegated cause c")
  case True
  then have "m_csr_mpriv c = 0 \<or> m_csr_mpriv c = 1"
    by (auto simp: delegated_def word_le_nat_alt le_Suc_eq word_unat_eq_iff)
  then have restored: "(if super_trap_status (m_csr_mpriv c) s AND SR_SPP \<noteq> 0 then PRIV_SUPER else PRIV_USER) =
      m_csr_mpriv c" for s
    unfolding super_privilege by auto
  have e: "m_csr_mpriv e = PRIV_SUPER" "m_csr_sepc e = pc" "m_csr_mpriv d = PRIV_SUPER"
    "m_csr_msr e = super_trap_status (m_csr_mpriv c) (m_csr_msr c)"
    using True handler trap by (auto simp: exception_cases [OF assms(1)] handled_def)
  show ?thesis
    unfolding e(3) using do_sret_eq [OF e(1), of "rd f", unfolded e(2,4) restored super_return_trap_status]
    by (simp add: exec_returns)
next
  case False
  have e: "m_csr_mpriv e = PRIV_MACHINE" "m_csr_mepc e = pc" "m_csr_mpriv d = PRIV_MACHINE"
    "m_csr_msr e = trap_status (m_csr_mpriv c) (m_csr_msr c)"
    using False handler trap by (auto simp: exception_cases [OF assms(1)] handled_def)
  show ?thesis
    unfolding e(3) using do_mret_eq [OF e(1), of "rd f", unfolded e(2,4)
        trap_privilege [OF assms(2)] return_trap_status [OF assms(2)]]
    by (simp add: exec_returns)
qed

theorem trap_returns_witness:
  "\<exists>d e'. rv_exception MCAUSE_ECALL_U 0x40 0
      (demo_machine\<lparr>m_csr_mpriv := PRIV_USER, m_csr_msr := SR_MIE\<rparr>) = Inr d \<and>
    exec_insn ENUM_INST_MRET (extract_fields 0x30200073) d =
      Inr (Continue (rd (extract_fields 0x30200073)) 0 0x40 False e') \<and>
    m_csr_mpriv e' = PRIV_USER \<and> m_csr_msr e' = SR_MIE OR SR_MPIE"
proof -
  let ?c = "demo_machine\<lparr>m_csr_mpriv := PRIV_USER, m_csr_msr := SR_MIE\<rparr>"
  have cause: "cause_ok MCAUSE_ECALL_U" "\<not> delegated MCAUSE_ECALL_U ?c"
    by (simp_all add: cause_ok_def delegated_def demo_machine_def rv_reset_def stats_reset_def)
  obtain d where d: "rv_exception MCAUSE_ECALL_U 0x40 0 ?c = Inr d" "m_csr_mpriv d = PRIV_MACHINE"
    using exception_cases [OF cause(1), of "0x40" 0 ?c] cause(2) by simp
  show ?thesis
    using trap_returns [OF cause(1) _ d(1), of d "extract_fields 0x30200073"] d
    by (auto simp: handled_def)
qed

section \<open>Which interrupt is taken\<close>

text \<open>
  An interrupt is deliverable when it is pending and enabled and the privilege it is for does not
  mask it; the candidates are those for machine mode, or if there is none those for supervisor
  mode. Among them the privileged specification (3.1.9) has the order MEI, MSI, MTI, SEI, SSI, STI,
  UEI, USI, UTI; the simulator takes the lowest number.
\<close>

definition deliverable :: "riscv \<Rightarrow> nat \<Rightarrow> bool" where
  "deliverable c i \<longleftrightarrow> bit (m_csr_mip c) i \<and> bit (m_csr_mie c) i \<and>
     (if bit (m_csr_mideleg c) i
      then m_csr_mpriv c < PRIV_SUPER \<or> m_csr_mpriv c = PRIV_SUPER \<and> bit (m_csr_msr c) 1
      else m_csr_mpriv c < PRIV_MACHINE \<or> m_csr_mpriv c = PRIV_MACHINE \<and> bit (m_csr_msr c) 3)"

definition for_machine :: "riscv \<Rightarrow> nat \<Rightarrow> bool" where
  "for_machine c i \<longleftrightarrow> deliverable c i \<and> \<not> bit (m_csr_mideleg c) i"

definition candidate :: "riscv \<Rightarrow> nat \<Rightarrow> bool" where
  "candidate c = (if \<exists>j \<in> {0..<32}. for_machine c j then for_machine c else deliverable c)"

definition priority :: "nat list" where
  "priority = [11, 3, 7, 9, 1, 5, 8, 0, 4]"

definition architected_interrupt :: "riscv \<Rightarrow> nat option" where
  "architected_interrupt c = find (candidate c) priority"

text \<open>The numbers of the candidates follow their priority.\<close>

definition numbered_by_priority :: "riscv \<Rightarrow> bool" where
  "numbered_by_priority c \<longleftrightarrow> list_all (\<lambda>i. list_all (\<lambda>j.
     candidate c i \<and> candidate c j \<and> i < j \<longrightarrow> the (find (\<lambda>k. k = i \<or> k = j) priority) = i) priority) priority"

definition next_interrupt :: "riscv \<Rightarrow> nat option" where
  "next_interrupt c = (case find (for_machine c) [0..<32] of
     Some i \<Rightarrow> Some i | None \<Rightarrow> find (deliverable c) [0..<32])"

lemma and_of_bool: "bit (x AND - of_bool b :: u32) i \<longleftrightarrow> b \<and> bit x i"
  by (cases b) (auto simp: bit_simps)

lemma bit_enabled:
  "bit (enabled_interrupts c) i \<longleftrightarrow>
     (if \<exists>j. for_machine c j then for_machine c i else deliverable c i)"
proof -
  define m where "m = m_csr_mip c AND m_csr_mie c AND NOT (m_csr_mideleg c) AND
    - of_bool (m_csr_mpriv c < PRIV_MACHINE \<or>
      m_csr_mpriv c = PRIV_MACHINE \<and> m_csr_msr c AND SR_MIE \<noteq> 0)"
  define s where "s = m_csr_mip c AND m_csr_mie c AND m_csr_mideleg c AND
    - of_bool (m_csr_mpriv c < PRIV_SUPER \<or>
      m_csr_mpriv c = PRIV_SUPER \<and> m_csr_msr c AND SR_SIE \<noteq> 0)"
  have enabled: "enabled_interrupts c = (if m \<noteq> 0 then m else s)"
    by (simp add: enabled_interrupts_def Let_def m_def s_def and.assoc)
  have m: "bit m i \<longleftrightarrow> for_machine c i" for i
    by (auto simp: m_def and.assoc [symmetric] and_of_bool for_machine_def deliverable_def
        status_tests bit_and_iff bit_not_iff dest: bit_imp_le_length)
  have s: "bit s i \<longleftrightarrow> deliverable c i \<and> bit (m_csr_mideleg c) i" for i
    by (auto simp: s_def and.assoc [symmetric] and_of_bool deliverable_def status_tests bit_and_iff
        dest: bit_imp_le_length)
  have "m = 0 \<longleftrightarrow> (\<forall>i. \<not> for_machine c i)"
    unfolding m [symmetric] using bits_eqI [of m 0] by auto
  then show ?thesis
    using m s by (auto simp: enabled for_machine_def)
qed

lemma find_some: "find P xs = Some x \<Longrightarrow> P x"
  by (induction xs) (auto split: if_splits)

lemma find_append: "find P (xs @ ys) = (case find P xs of None \<Rightarrow> find P ys | Some x \<Rightarrow> Some x)"
  by (induction xs) auto

lemma enabled_pending: "bit (enabled_interrupts c) i \<Longrightarrow> bit (m_csr_mip c) i \<and> bit (m_csr_mie c) i"
  by (auto simp: bit_enabled for_machine_def deliverable_def split: if_splits)

lemma irqs_range: "\<lbrakk>irqs_only x; bit x i\<rbrakk> \<Longrightarrow> 1 \<le> i \<and> i < 12"
proof -
  assume x: "irqs_only x" "bit x i"
  then have i: "bit IRQ_MASK i"
    unfolding irqs_only_def masked_bits by blast
  have "i < 32"
    using bit_imp_le_length [OF x(2)] by simp
  have "\<forall>i < 32. bit IRQ_MASK i \<longrightarrow> 1 \<le> i \<and> i < 12"
    by (simp add: eval_nat_numeral All_less_Suc)
  then show "1 \<le> i \<and> i < 12"
    using i \<open>i < 32\<close> by blast
qed

lemma find_interrupt:
  assumes "cpu_ok l c"
  shows "find (\<lambda>i. enabled_interrupts c AND push_bit i 1 \<noteq> 0) [1..<12] = next_interrupt c"
proof -
  have range: "1 \<le> i \<and> i < 12" if "bit (enabled_interrupts c) i" for i
    using that assms irqs_range enabled_pending by (auto simp: cpu_ok_def)
  have split: "[0..<32] = [0..<1] @ [1..<12] @ [12..<32 :: nat]"
    by code_simp
  have none: "find (bit (enabled_interrupts c)) [0..<1] = None"
    "find (bit (enabled_interrupts c)) [12..<32] = None"
    using range by (fastforce simp: find_None_iff)+
  have "find (bit (enabled_interrupts c)) [1..<12] = find (bit (enabled_interrupts c)) [0..<32]"
    unfolding split find_append none
    by (cases "find (bit (enabled_interrupts c)) [1..<12]") (simp_all only: option.case)
  also have "\<dots> = next_interrupt c"
  proof (cases "\<exists>j. for_machine c j")
    case True
    then obtain k where k: "for_machine c k"
      by blast
    then have "k < 32"
      by (auto simp: for_machine_def deliverable_def dest: bit_imp_le_length)
    then have "k \<in> set [0..<32]"
      unfolding set_upt by (simp only: atLeastLessThan_iff le0 simp_thms)
    then have "find (for_machine c) [0..<32] \<noteq> None"
      unfolding find_None_iff using k by blast
    moreover have "bit (enabled_interrupts c) = for_machine c"
      using True by (simp add: fun_eq_iff bit_enabled)
    ultimately show ?thesis
      unfolding next_interrupt_def by (cases "find (for_machine c) [0..<32]") (simp_all only: option.case simp_thms)
  next
    case False
    then have "find (for_machine c) [0..<32] = None"
      unfolding find_None_iff by blast
    moreover have "bit (enabled_interrupts c) = deliverable c"
      using False by (simp add: fun_eq_iff bit_enabled)
    ultimately show ?thesis
      unfolding next_interrupt_def by (simp only: option.case)
  qed
  finally show ?thesis
    unfolding and_push_1 .
qed

lemma next_interrupt_props:
  assumes "cpu_ok l c" "next_interrupt c = Some i"
  shows "deliverable c i" "1 \<le> i" "i < 12"
proof -
  show d: "deliverable c i"
    using assms(2) unfolding next_interrupt_def
    by (auto simp: for_machine_def simp del: upt_rec_numeral dest!: find_some split: option.splits)
  then show "1 \<le> i" "i < 12"
    using assms(1) irqs_range by (auto simp: cpu_ok_def deliverable_def)
qed

lemma interrupt_cause:
  "i < 12 \<Longrightarrow> MCAUSE_INTERRUPT \<le> MCAUSE_INTERRUPT + of_nat i"
  "i < 12 \<Longrightarrow> unat (of_nat i :: u32) = i"
  by (simp_all add: unat_of_nat_u32 word_le_nat_alt unat_add_small)

lemma deliverable_small: "deliverable c i \<Longrightarrow> i < 32"
  by (auto simp: deliverable_def dest: bit_imp_le_length)

lemma candidate_enabled: "candidate c i = bit (enabled_interrupts c) i"
proof -
  have "(\<exists>j \<in> {0..<32}. for_machine c j) \<longleftrightarrow> (\<exists>j. for_machine c j)"
    using deliverable_small by (fastforce simp: for_machine_def)
  then show ?thesis
    by (simp add: candidate_def bit_enabled)
qed

lemma candidate_listed:
  assumes "cpu_ok l c" "candidate c i"
  shows "i \<in> set [1, 3, 5, 7, 9, 11]"
proof -
  have pending: "bit (m_csr_mip c) i" "irqs_only (m_csr_mip c)"
    using assms by (simp_all add: candidate_enabled enabled_pending cpu_ok_def)
  then have i: "bit IRQ_MASK i"
    unfolding irqs_only_def masked_bits by blast
  have "i < 32"
    using bit_imp_le_length [OF pending(1)] by simp
  have "\<forall>i < 32. bit IRQ_MASK i \<longrightarrow> i \<in> set [1, 3, 5, 7, 9, 11]"
    by (simp add: eval_nat_numeral All_less_Suc)
  then show ?thesis
    using i \<open>i < 32\<close> by blast
qed

lemma candidate_deliverable: "candidate c i \<Longrightarrow> deliverable c i"
  by (auto simp: candidate_def for_machine_def split: if_splits)

lemma candidates_one_mode:
  "candidate c i \<Longrightarrow> candidate c j \<Longrightarrow> bit (m_csr_mideleg c) i = bit (m_csr_mideleg c) j"
  using deliverable_small by (fastforce simp: candidate_def for_machine_def split: if_splits)

lemma next_candidate:
  assumes "cpu_ok l c"
  shows "next_interrupt c = find (candidate c) [1..<12]"
  unfolding find_interrupt [OF assms, symmetric] and_push_1 candidate_enabled by (rule refl)

lemma find_none:
  assumes "\<And>i. P i \<Longrightarrow> i \<in> set xs"
  shows "find P xs = None \<longleftrightarrow> (\<forall>i. \<not> P i)"
  unfolding find_None_iff using assms by blast

lemma find_least:
  "find P [a..<b] = Some i \<Longrightarrow> P j \<Longrightarrow> a \<le> j \<Longrightarrow> j < b \<Longrightarrow> i \<le> j"
proof (induction "b - a" arbitrary: a)
  case (Suc n)
  have "a < b"
    using Suc.hyps(2) by simp
  then have "[a..<b] = a # [Suc a..<b]"
    by (rule upt_conv_Cons)
  then show ?case
    using Suc.hyps(1) [of "Suc a"] Suc.hyps(2) Suc.prems
    by (cases "a = j") (auto split: if_splits simp del: upt_rec_numeral)
qed simp

lemma find_earlier:
  "find P xs = Some a \<Longrightarrow> P i \<Longrightarrow> i \<in> set xs \<Longrightarrow> find (\<lambda>k. k = i \<or> k = a) xs = Some a"
  by (induction xs) (auto split: if_splits)

lemma taken_is_architected:
  assumes "cpu_ok l c" "next_interrupt c = Some i" "architected_interrupt c = Some a" "numbered_by_priority c"
  shows "i = a"
proof (rule ccontr)
  assume "i \<noteq> a"
  have i: "candidate c i"
    using assms(1,2) find_some by (simp add: next_candidate)
  have a: "candidate c a"
    using assms(3) find_some by (simp add: architected_interrupt_def)
  have listed: "i \<in> set priority" "a \<in> set priority" "1 \<le> a" "a < 12"
    using candidate_listed [OF assms(1) i] candidate_listed [OF assms(1) a] by (auto simp: priority_def)
  then have "i < a"
    using find_least [of "candidate c" 1 12 i a] assms(1,2) a \<open>i \<noteq> a\<close> by (simp add: next_candidate)
  then have "the (find (\<lambda>k. k = i \<or> k = a) priority) = i"
    using assms(4) i a listed by (auto simp: numbered_by_priority_def list_all_iff)
  moreover have "find (\<lambda>k. k = i \<or> k = a) priority = Some a"
    using assms(3) i listed(1) unfolding architected_interrupt_def by (rule find_earlier)
  ultimately show False
    using \<open>i \<noteq> a\<close> by simp
qed

lemma same_existence:
  assumes "cpu_ok l c"
  shows "next_interrupt c = None \<longleftrightarrow> architected_interrupt c = None"
proof -
  have "i \<in> set [1..<12]" "i \<in> set priority" if "candidate c i" for i
    using candidate_listed [OF assms that] by (auto simp: priority_def)
  then show ?thesis
    unfolding next_candidate [OF assms] architected_interrupt_def
    using find_none [of "candidate c"] by metis
qed

lemma next_lowest:
  assumes "cpu_ok l c" and "next_interrupt c = Some i" and "candidate c j"
  shows "i \<le> j"
proof -
  have "find (candidate c) [1..<12] = Some i" using assms(2) next_candidate [OF assms(1)] by simp
  then obtain k where k: "k < 11" "i = Suc k" "\<And>m. m < k \<Longrightarrow> \<not> candidate c (Suc m)"
    by (auto simp: find_Some_iff)
  have "1 \<le> j" using candidate_listed [OF assms(1,3)] by auto
  then have "k \<le> j - 1" using k(3) [of "j - 1"] assms(3) by (cases "j - 1 < k") auto
  then show ?thesis using k(2) \<open>1 \<le> j\<close> by simp
qed

text \<open>
  Claim C8. After an instruction without an exception the simulator takes an interrupt exactly when the
  privileged specification names one, in the mode that specification names, which is the mode the
  interrupt is delegated to, with its cause, return address and vector. The interrupt itself is a
  deliverable one for that mode, the one of lowest number, and so the one the specification names
  whenever the numbers of the candidates follow their priority.
\<close>

theorem interrupt_taken:
  assumes "cpu_ok l c"
  shows "case architected_interrupt c of
      None \<Rightarrow> take_interrupt pc False c = Inr (False, c)
    | Some a \<Rightarrow> \<exists>i d. take_interrupt pc False c = Inr (True, d) \<and>
        candidate c i \<and> (\<forall>j. candidate c j \<longrightarrow> i \<le> j) \<and> (numbered_by_priority c \<longrightarrow> i = a) \<and>
        (if bit (m_csr_mideleg c) a
         then m_csr_mpriv d = PRIV_SUPER \<and> m_pc d = m_csr_sevec c \<and> m_csr_sepc d = pc \<and>
           m_csr_scause d = MCAUSE_INTERRUPT + of_nat i
         else m_csr_mpriv d = PRIV_MACHINE \<and> m_pc d = m_csr_mevec c \<and> m_csr_mepc d = pc \<and>
           m_csr_mcause d = MCAUSE_INTERRUPT + of_nat i)"
proof (cases "next_interrupt c")
  case None
  moreover have "architected_interrupt c = None"
    using None same_existence [OF assms] by simp
  ultimately show ?thesis
    unfolding take_interrupt_def find_interrupt [OF assms] by simp
next
  case (Some i)
  obtain a where a: "architected_interrupt c = Some a"
    using same_existence [OF assms] Some by auto
  note i = next_interrupt_props [OF assms Some]
  have cand: "candidate c i" "candidate c a"
    using assms Some a find_some by (simp_all add: next_candidate architected_interrupt_def)
  note cause = interrupt_cause [OF i(3)]
  have "bit (m_csr_mip c AND m_csr_mie c) i"
    using i(1) by (simp add: deliverable_def bit_and_iff)
  then have some: "m_csr_mip c AND m_csr_mie c \<noteq> 0"
    by auto
  have "m_csr_mpriv c \<le> PRIV_SUPER" if "bit (m_csr_mideleg c) i"
    using i(1) that by (auto simp: deliverable_def)
  then have "delegated (MCAUSE_INTERRUPT + of_nat i) c = bit (m_csr_mideleg c) a"
    using cause candidates_one_mode [OF cand] by (auto simp: delegated_def)
  moreover have "cause_ok (MCAUSE_INTERRUPT + of_nat i)"
    using cause i(3) by (simp add: cause_ok_def)
  moreover have "numbered_by_priority c \<longrightarrow> i = a"
    using taken_is_architected [OF assms Some a] by blast
  ultimately show ?thesis
    using Some some cand(1) a next_lowest [OF assms Some] unfolding take_interrupt_def find_interrupt [OF assms]
    by (auto simp: exception_cases intro!: exI [of _ i])
qed

lemma demo_interrupts:
  "m_csr_mpriv demo_machine = PRIV_MACHINE" "m_csr_mideleg demo_machine = 0" "\<not> m_fault demo_machine"
  by (simp_all add: demo_machine_def rv_reset_def stats_reset_def)

lemma demo_candidates:
  "candidate (demo_machine\<lparr>m_csr_msr := SR_MIE, m_csr_mip := p, m_csr_mie := e\<rparr>) i \<longleftrightarrow> bit p i \<and> bit e i"
  using bit_imp_le_length [of p] by (auto simp: candidate_def for_machine_def deliverable_def demo_interrupts)

theorem interrupt_taken_witness:
  "\<exists>d. take_interrupt 0x40 False
      (demo_machine\<lparr>m_csr_msr := SR_MIE, m_csr_mip := 0x8A, m_csr_mie := 0x888\<rparr>) = Inr (True, d) \<and>
    m_csr_mcause d = 0x80000003 \<and> m_csr_mepc d = 0x40"
proof -
  let ?c = "demo_machine\<lparr>m_csr_msr := SR_MIE, m_csr_mip := 0x8A, m_csr_mie := 0x888\<rparr>"
  have "cpu_ok (layout ?c) ?c"
    using demo_machine_ok demo_interrupts(3) by (simp add: machine_ok_def cpu_ok_def regs_ok_def irqs_only_def)
  moreover have "architected_interrupt ?c = Some 3" "numbered_by_priority ?c"
    unfolding architected_interrupt_def numbered_by_priority_def priority_def demo_candidates by simp_all
  ultimately show ?thesis
    using interrupt_taken [of "layout ?c" ?c "0x40"] demo_interrupts by auto
qed

text \<open>
  With the timer and the external interrupt of machine mode pending, the simulator takes the timer
  interrupt where the specification has the external one first.
\<close>

lemma timer_before_external:
  fixes c
  defines "c \<equiv> demo_machine\<lparr>m_csr_msr := SR_MIE, m_csr_mip := 0x880, m_csr_mie := 0x880\<rparr>"
  shows "architected_interrupt c = Some 11"
    and "\<exists>d. take_interrupt pc False c = Inr (True, d) \<and> m_csr_mcause d = MCAUSE_INTERRUPT + 7"
proof -
  have ok: "cpu_ok (layout c) c"
    using demo_machine_ok demo_interrupts(3)
    by (simp add: c_def machine_ok_def cpu_ok_def regs_ok_def irqs_only_def)
  have cand: "candidate c i \<longleftrightarrow> bit (0x880 :: u32) i" for i
    by (simp add: c_def demo_candidates)
  show a: "architected_interrupt c = Some 11"
    by (simp add: architected_interrupt_def priority_def cand)
  have "next_interrupt c = Some 7"
    unfolding next_candidate [OF ok] by (simp add: cand upt_rec)
  then show "\<exists>d. take_interrupt pc False c = Inr (True, d) \<and> m_csr_mcause d = MCAUSE_INTERRUPT + 7"
    unfolding take_interrupt_def find_interrupt [OF ok]
    by (simp add: c_def exception_cases cause_ok_def delegated_def demo_interrupts)
qed

theorem rv_steps_invariant_witness:
  "\<exists>d. rv_steps 2 demo_machine = Inr d \<and> cpu_ok (layout demo_machine) d"
proof -
  have "cpu_ok (layout demo_machine) demo_machine"
    using demo_machine_ok by (simp add: machine_ok_def cpu_ok_def regs_ok_def irqs_only_def
        demo_machine_def rv_reset_def stats_reset_def)
  moreover obtain d where "rv_steps 2 demo_machine = Inr d"
    using demo_runs steps_ref [OF demo_machine_ok] by blast
  ultimately show ?thesis
    using rv_steps_invariant by blast
qed

section \<open>Where the simulator leaves the architecture\<close>

text \<open>
  A write to a supervisor view of a machine register replaces the whole register, so the machine
  bits are cleared with it.
\<close>

lemma sstatus_write_clears_machine:
  "access_csr CSR_SSTATUS d True True c =
     Inr (m_csr_msr c AND SR_SMODE_MASK, c\<lparr>m_csr_msr := d AND SR_SMODE_MASK\<rparr>)"
  "access_csr CSR_SIE d True True c =
     Inr (m_csr_mie c AND IRQ_S_MASK, c\<lparr>m_csr_mie := d AND IRQ_S_MASK\<rparr>)"
  by (simp_all add: access_csr_def csr_std_def Let_def)

text \<open>Reading the debug scratch register (a set of no bits) ends the simulation.\<close>

lemma dscratch_read_exits: "access_csr CSR_DSCRATCH 0 True False c = Inl (Exit 0)"
  by (simp add: access_csr_def sim_control_def Let_def)

text \<open>
  A register shift by 32 or more, which the architecture takes modulo 32, and a product beyond an
  \<open>int\<close> are undefined in the simulator.
\<close>

lemma shift_by_32_undefined:
  "32 \<le> unat y \<Longrightarrow> i \<in> {ENUM_INST_SLL, ENUM_INST_SRL, ENUM_INST_SRA} \<Longrightarrow> exec_reg i x y = Some (Inl Undefined)"
  "sint x * sint y \<ge> 2 ^ 31 \<Longrightarrow> exec_muldiv ENUM_INST_MUL x y = Some (Inl Undefined)"
  by (auto simp: exec_reg_def cpp_shl_def cpp_shr_def cpp_sar_def exec_muldiv_def cpp_int_def)

text \<open>
  The previous privilege in \<open>mstatus\<close> takes any value, so a return can end in the reserved level 2, which
  is neither machine mode nor subject to translation.
\<close>

lemma reserved_privilege:
  assumes "m_csr_mpriv c = PRIV_MACHINE"
  shows "\<exists>d. access_csr CSR_MSTATUS 0x1000 True True c = Inr (m_csr_msr c, d) \<and>
    (\<exists>e. exec_insn ENUM_INST_MRET f d = Inr (Continue (rd f) 0 (m_csr_mepc c) False e) \<and> m_csr_mpriv e = 2)"
proof -
  have "(0xFFFFFFFF :: u32) = - 1"
    by simp
  then have "m_csr_msr c AND 0xFFFFFFFF = m_csr_msr c"
    by (simp only: and.right_neutral)
  then show ?thesis
    using assms by (auto simp: access_csr_def csr_std_def Let_def exec_returns do_mret_def)
qed

text \<open>The return instructions of another mode stop the simulator instead of trapping.\<close>

lemma mret_below_machine_stops:
  "m_csr_mpriv c \<noteq> PRIV_MACHINE \<Longrightarrow> exec_insn ENUM_INST_MRET f c = Inl Assertion"
  by (simp add: exec_returns do_mret_def)

end
