(* ===== verification/Riscv_Mmu.thy ===== *)
theory Riscv_Mmu
  imports Riscv_Traps
begin

text \<open>
  Address translation: the walk of the simulator against the two-level tables of Sv32, stated
  with integer arithmetic, and what user and supervisor code reach through it.
\<close>

section \<open>Sv32\<close>

datatype sv32_walk = Mapped nat u32 | Not_present | Misaligned | Too_deep | Access_fault

text \<open>
  Level \<open>i\<close> of the walk at the table \<open>table\<close>: \<open>Mapped p f\<close> is page number \<open>p\<close> with the flags
  \<open>f\<close>. Only whole pages at their own alignment are mapped, and level 0 has no further table.
\<close>

fun sv32 :: "(nat \<Rightarrow> u32 option) \<Rightarrow> nat \<Rightarrow> nat \<Rightarrow> nat \<Rightarrow> sv32_walk" where
  "sv32 get i table va =
     (let vpn = va div 4096
      in case get (table + vpn div 1024 ^ i mod 1024 * 4) of
           None \<Rightarrow> Access_fault
         | Some pte \<Rightarrow>
             let ppn = unat pte div 1024
             in if \<not> bit pte 0 then Not_present
                else if bit pte 1 \<or> bit pte 2 \<or> bit pte 3 then
                  if ppn mod 1024 ^ i \<noteq> 0 then Misaligned
                  else Mapped (ppn + vpn mod 1024 ^ i) (pte AND PAGE_FLAGS)
                else (case i of 0 \<Rightarrow> Too_deep | Suc j \<Rightarrow> sv32 get j (ppn * 4096) va))"

declare sv32.simps [simp del]

text \<open>A word of the simulator's physical memory.\<close>

definition phys :: "riscv \<Rightarrow> nat \<Rightarrow> u32 option" where
  "phys c a = (if a < 2 ^ 32 then ref_load (byte_at c) (of_nat a) 4 False else None)"

lemma phys_read:
  assumes "list_all region_ok (m_regions c)" "phys c a = Some w"
  shows "a < 2 ^ 32" "mmu_read_word (of_nat a) c = Inr (Some w)"
proof -
  show "a < 2 ^ 32"
    using assms(2) by (simp add: phys_def split: if_splits)
  obtain j where "region_of (of_nat a) (m_regions c) 0 = Some j" "region_load (of_nat a) 4 False j c = Inr w"
    using region_load_ref [of c 4 "of_nat a" False w] assms by (auto simp: phys_def split: if_splits)
  then show "mmu_read_word (of_nat a) c = Inr (Some w)"
    by (simp add: mmu_read_word_def)
qed

section \<open>The walk\<close>

lemma pte_tests:
  "(pte :: u32) AND PAGE_PRESENT = 0 \<longleftrightarrow> \<not> bit pte 0"
  "pte AND (PAGE_READ OR PAGE_WRITE OR PAGE_EXEC) = 0 \<longleftrightarrow> \<not> (bit pte 1 \<or> bit pte 2 \<or> bit pte 3)"
proof -
  show "pte AND PAGE_PRESENT = 0 \<longleftrightarrow> \<not> bit pte 0"
    using and_exp_eq_0_iff_not_bit [of pte 0] by simp
  have "pte AND (PAGE_READ OR PAGE_WRITE OR PAGE_EXEC) = 0 \<longleftrightarrow>
      pte AND 2 ^ 1 = 0 \<and> pte AND 2 ^ 2 = 0 \<and> pte AND 2 ^ 3 = 0"
    by (simp only: bit.conj_disj_distrib or_eq_0_iff) simp
  then show "pte AND (PAGE_READ OR PAGE_WRITE OR PAGE_EXEC) = 0 \<longleftrightarrow>
      \<not> (bit pte 1 \<or> bit pte 2 \<or> bit pte 3)"
    by (simp only: and_exp_eq_0_iff_not_bit) blast
qed

lemma index_word:
  fixes va :: u32
  shows "drop_bit (12 + 10 * i) va AND 0x3FF = of_nat (unat va div 4096 div 1024 ^ i mod 1024)"
proof -
  have pow: "(2 :: nat) ^ (12 + 10 * i) = 4096 * 1024 ^ i"
    by (simp add: power_add power_mult)
  have low: "drop_bit (12 + 10 * i) va AND 0x3FF = take_bit 10 (drop_bit (12 + 10 * i) va)"
    by (simp add: take_bit_eq_mask mask_eq_exp_minus_1 del: drop_bit_take_bit)
  have "unat (drop_bit (12 + 10 * i) va AND 0x3FF) = unat va div 4096 div 1024 ^ i mod 1024"
    unfolding low unsigned_take_bit_eq unat_drop_bit pow
    unfolding take_bit_eq_mod div_mult2_eq by simp
  then show ?thesis
    by (metis of_nat_unat ucast_id)
qed

text \<open>The address with the flags that the walk hands on for page \<open>p\<close>.\<close>

lemma leaf_value:
  fixes pte va :: u32
  assumes low: "unat pte div 1024 mod 1024 ^ i = 0"
  defines "p \<equiv> unat pte div 1024 + unat va div 4096 mod 1024 ^ i"
  assumes p: "p < 2 ^ 20"
  shows "drop_bit 32 (leaf_pte pte va (10 * i)) = 0"
    and "ucast (leaf_pte pte va (10 * i)) = of_nat (p * 4096) OR (pte AND PAGE_FLAGS)"
proof -
  have shifted: "ucast (drop_bit k w) = (of_nat (unat w div 2 ^ k) :: u64)" for k and w :: u32
    unfolding unat_drop_bit [symmetric] of_nat_unat by (rule refl)
  let ?n = "10 * i"
  have pow: "(2 :: nat) ^ ?n = 1024 ^ i"
    by (simp add: power_mult)
  have "take_bit ?n (unat pte div 1024) = 0"
    using low by (simp add: take_bit_eq_mod pow)
  then have "\<not> bit (unat pte div 1024) k" if "k < ?n" for k
    using that bit_take_bit_iff [of ?n "unat pte div 1024" k] by simp
  then have "(unat pte div 1024) AND take_bit ?n (unat va div 4096) = 0"
    by (intro bit_eqI) (auto simp: bit_and_iff bit_take_bit_iff)
  then have sum: "(unat pte div 1024) OR take_bit ?n (unat va div 4096) = p"
    by (simp add: disjunctive_add_eq_or [symmetric] p_def take_bit_eq_mod pow)
  have "ucast (drop_bit 12 va) AND (push_bit ?n 1 - 1) = (of_nat (take_bit ?n (unat va div 4096)) :: u64)"
  proof -
    have "(push_bit ?n 1 - 1 :: u64) = mask ?n"
      by (simp add: mask_eq_exp_minus_1 push_bit_eq_mult)
    moreover have "ucast (drop_bit 12 va) = (of_nat (unat va div 4096) :: u64)"
      by (rule shifted [of 12 va, simplified])
    ultimately show ?thesis
      by (simp add: take_bit_eq_mask [symmetric] take_bit_of_nat)
  qed
  moreover have "ucast (drop_bit 10 pte) = (of_nat (unat pte div 1024) :: u64)"
    by (rule shifted [of 10 pte, simplified])
  ultimately have "(ucast (drop_bit 10 pte) OR (ucast (drop_bit 12 va) AND (push_bit ?n 1 - 1)) :: u64) = of_nat p"
    by (simp add: of_nat_or_eq [symmetric] sum)
  then have leaf: "leaf_pte pte va ?n = push_bit 12 (of_nat p) OR ucast (pte AND PAGE_FLAGS)"
    unfolding leaf_pte_def Let_def by (simp only:)
  have p_bits: "bit p k \<Longrightarrow> k < 20" for k
    using p by (metis bit_take_bit_iff take_bit_nat_eq_self)
  show "drop_bit 32 (leaf_pte pte va ?n) = 0"
    unfolding leaf by (rule bit_word_eqI) (auto simp: bit_simps dest: p_bits bit_imp_le_length)
  have "of_nat (p * 4096) = (push_bit 12 (of_nat p) :: u32)"
    by (simp add: push_bit_eq_mult)
  then show "ucast (leaf_pte pte va ?n) = of_nat (p * 4096) OR (pte AND PAGE_FLAGS)"
    unfolding leaf by (intro bit_word_eqI) (auto simp: bit_simps dest: p_bits bit_imp_le_length)
qed


text \<open>The page an entry maps must be there: the simulator reads its first word.\<close>

definition walked :: "riscv \<Rightarrow> sv32_walk \<Rightarrow> u32 \<Rightarrow> bool" where
  "walked c r pte \<longleftrightarrow> (case r of
     Not_present \<Rightarrow> pte = 0
   | Mapped p f \<Rightarrow> p < 2 ^ 20 \<and> phys c (p * 4096) \<noteq> None \<and> pte = of_nat (p * 4096) OR f
   | _ \<Rightarrow> False)"

lemma page_base:
  fixes pte :: u32
  assumes "f = pte AND PAGE_FLAGS"
  shows "push_bit 12 (drop_bit 12 (of_nat (p * 4096) OR f)) = of_nat (p * 4096)"
proof -
  have page: "of_nat (p * 4096) = (push_bit 12 (of_nat p) :: u32)"
    by (simp add: push_bit_eq_mult)
  have "f = take_bit 10 pte"
    by (simp add: assms take_bit_eq_mask mask_eq_exp_minus_1)
  then show ?thesis
    unfolding page by (intro bits_eqI) (auto simp: bit_simps)
qed

definition table_entry :: "u32 \<Rightarrow> nat \<Rightarrow> u32 \<Rightarrow> nat" where
  "table_entry base i va = unat base + unat va div 4096 div 1024 ^ i mod 1024 * 4"

lemma walk_levels_step:
  assumes ok: "list_all region_ok (m_regions c)" and pte: "phys c (table_entry base i va) = Some pte"
  shows "walk_levels c va (int (10 * i)) base =
    (if \<not> bit pte 0 then Inr 0
     else if \<not> (bit pte 1 \<or> bit pte 2 \<or> bit pte 3) then
       walk_levels c va (int (10 * i) - 10) (push_bit 12 (drop_bit 10 pte))
     else let value = leaf_pte pte va (10 * i)
       in if drop_bit 32 value \<noteq> 0 then Inl Assertion
          else rbind (mmu_read_word (push_bit 12 (drop_bit 12 (ucast value))) c)
            (\<lambda>target. if target = None then Inl (Exit (- 1)) else Inr (ucast value)))"
proof -
  have "base + (drop_bit (12 + 10 * i) va AND 0x3FF) * 4 = of_nat (table_entry base i va)"
    unfolding index_word table_entry_def by simp
  then have read: "mmu_read_word (base + (drop_bit (12 + 10 * i) va AND 0x3FF) * 4) c = Inr (Some pte)"
    using phys_read(2) [OF ok pte] by simp
  have "nat (12 + int (10 * i)) = 12 + 10 * i" "\<not> 12 + int (10 * i) < 0" "\<not> int (10 * i) < 0"
    by simp_all
  then show ?thesis
    using read by (subst walk_levels.simps) (simp only: if_False if_True nat_int Let_def rbind.simps
        option.case pte_tests not_not)
qed

definition entry_walk :: "nat \<Rightarrow> u32 \<Rightarrow> u32 \<Rightarrow> sv32_walk \<Rightarrow> sv32_walk" where
  "entry_walk i va pte deeper =
     (let ppn = unat pte div 1024
      in if \<not> bit pte 0 then Not_present
         else if bit pte 1 \<or> bit pte 2 \<or> bit pte 3 then
           if ppn mod 1024 ^ i \<noteq> 0 then Misaligned
           else Mapped (ppn + unat va div 4096 mod 1024 ^ i) (pte AND PAGE_FLAGS)
         else deeper)"

lemma walked_entry:
  assumes "walked c (sv32 (phys c) i (unat base) (unat va)) w"
  obtains pte where "phys c (table_entry base i va) = Some pte"
    "walked c (entry_walk i va pte (case i of 0 \<Rightarrow> Too_deep
       | Suc j \<Rightarrow> sv32 (phys c) j (unat pte div 1024 * 4096) (unat va))) w"
proof -
  note sv32 = sv32.simps [of "phys c" i "unat base" "unat va", unfolded Let_def,
      folded table_entry_def]
  obtain pte where pte: "phys c (table_entry base i va) = Some pte"
    using assms unfolding sv32 by (auto simp: walked_def split: option.splits)
  show thesis
    using assms that [OF pte] unfolding sv32 pte entry_walk_def Let_def option.case by blast
qed

lemma walk_leaf:
  assumes ok: "list_all region_ok (m_regions c)" and pte: "phys c (table_entry base i va) = Some pte"
    and leaf: "bit pte 0" "bit pte 1 \<or> bit pte 2 \<or> bit pte 3" "unat pte div 1024 mod 1024 ^ i = 0"
    and walk: "walked c (Mapped (unat pte div 1024 + unat va div 4096 mod 1024 ^ i) (pte AND PAGE_FLAGS)) w"
  shows "walk_levels c va (int (10 * i)) base = Inr w"
proof -
  define p where "p = unat pte div 1024 + unat va div 4096 mod 1024 ^ i"
  have p: "p < 2 ^ 20" "phys c (p * 4096) \<noteq> None" "w = of_nat (p * 4096) OR (pte AND PAGE_FLAGS)"
    using walk by (simp_all add: walked_def p_def)
  note value_w = leaf_value [OF leaf(3) p(1) [unfolded p_def], folded p_def p(3)]
  have "push_bit 12 (drop_bit 12 w) = of_nat (p * 4096)"
    unfolding p(3) by (rule page_base) (rule refl)
  moreover obtain target where "phys c (p * 4096) = Some target"
    using p(2) by blast
  ultimately have "mmu_read_word (push_bit 12 (drop_bit 12 w)) c = Inr (Some target)"
    using phys_read(2) [OF ok] by metis
  then show ?thesis
    unfolding walk_levels_step [OF ok pte] Let_def value_w using leaf by simp
qed

lemma walk_levels_sv32:
  assumes ok: "list_all region_ok (m_regions c)"
    and walk: "walked c (sv32 (phys c) i (unat base) (unat va)) w"
  shows "walk_levels c va (int (10 * i)) base = Inr w"
  using walk
proof (induction i arbitrary: base)
  case 0
  obtain pte where pte: "phys c (table_entry base 0 va) = Some pte"
    "walked c (entry_walk 0 va pte Too_deep) w"
    using walked_entry [OF 0, unfolded nat.case] by metis
  show ?case
  proof (cases "bit pte 0 \<and> (bit pte 1 \<or> bit pte 2 \<or> bit pte 3)")
    case True
    then show ?thesis
      using pte by (intro walk_leaf [OF ok pte(1)]) (auto simp: entry_walk_def Let_def)
  next
    case False
    then have "\<not> bit pte 0"
      using pte(2) by (auto simp: walked_def entry_walk_def Let_def)
    then show ?thesis
      using pte(2) unfolding walk_levels_step [OF ok pte(1)] by (simp add: walked_def entry_walk_def)
  qed
next
  case (Suc i)
  obtain pte where pte: "phys c (table_entry base (Suc i) va) = Some pte"
    "walked c (entry_walk (Suc i) va pte (sv32 (phys c) i (unat pte div 1024 * 4096) (unat va))) w"
    using walked_entry [OF Suc.prems, unfolded nat.case] by metis
  show ?case
  proof (cases "bit pte 0 \<and> (bit pte 1 \<or> bit pte 2 \<or> bit pte 3)")
    case True
    then show ?thesis
      using pte by (intro walk_leaf [OF ok pte(1)]) (auto simp: entry_walk_def Let_def walked_def split: if_splits)
  next
    case False
    define ppn where "ppn = unat pte div 1024"
    show ?thesis
    proof (cases "bit pte 0")
      case pointer: True
      then have walk: "walked c (sv32 (phys c) i (ppn * 4096) (unat va)) w"
        using pte(2) False by (auto simp: entry_walk_def Let_def ppn_def)
      have small: "ppn * 4096 < 2 ^ 32"
        using walk by (subst (asm) sv32.simps)
          (auto simp: walked_def Let_def phys_def split: option.splits if_splits)
      have "unat (drop_bit 10 pte) = ppn"
        by (simp add: unat_drop_bit ppn_def)
      then have "drop_bit 10 pte = of_nat ppn"
        by (metis of_nat_unat ucast_id)
      then have "push_bit 12 (drop_bit 10 pte) = of_nat (ppn * 4096)"
        by (simp add: push_bit_eq_mult)
      then have "unat (push_bit 12 (drop_bit 10 pte)) = ppn * 4096"
        using unat_of_nat_u32 [OF small] by simp
      then show ?thesis
        using Suc.IH [of "push_bit 12 (drop_bit 10 pte)"] walk pointer False
        unfolding walk_levels_step [OF ok pte(1)] by simp
    next
      case False
      then show ?thesis
        using pte(2) unfolding walk_levels_step [OF ok pte(1)] by (simp add: walked_def entry_walk_def)
    qed
  qed
qed


section \<open>Translation\<close>

definition satp_table :: "riscv \<Rightarrow> nat" where
  "satp_table c = unat (m_csr_satp c AND SATP_PPN_MASK) * 4096"

definition paging_on :: "riscv \<Rightarrow> bool" where
  "paging_on c \<longleftrightarrow> m_csr_satp c AND SATP_MODE \<noteq> 0 \<and> satp_table c < 2 ^ 32"

lemma mmu_walk_sv32:
  assumes "list_all region_ok (m_regions c)" "paging_on c"
    and "walked c (sv32 (phys c) 1 (satp_table c) (unat va)) w"
  shows "mmu_walk va c = Inr w"
proof -
  let ?base = "(m_csr_satp c AND SATP_PPN_MASK) * 4096"
  have "?base = of_nat (satp_table c)"
    by (simp add: satp_table_def)
  then have "unat ?base = satp_table c"
    using assms(2) by (simp add: paging_on_def unat_of_nat_u32)
  then have "walk_levels c va 10 ?base = Inr w"
    using walk_levels_sv32 [OF assms(1), of 1 ?base va w] assms(3) by simp
  moreover have "signed_drop_bit (32 - 32) (push_bit (32 - 32) va) = va"
    by simp
  ultimately show ?thesis
    using assms(2) unfolding mmu_walk_def paging_on_def Let_def by simp
qed

text \<open>
  What the flags \<open>f\<close> of a page allow, as the privileged specification has it (4.3.2, and 3.1.6.3 for
  the status bits): a writable page is also readable; a load needs the read flag, or the execute flag
  when \<open>MXR\<close> (bit 19) is set; user code needs the user flag, and supervisor code reaches user
  pages only with \<open>SUM\<close> (bit 18); with \<open>MPRV\<close> (bit 17) the access counts as one of the privilege in
  \<open>MPP\<close>; the page must be marked as accessed, and as dirty for a store. Of the two treatments of
  these marks that the specification leaves open this is the page fault.
\<close>

definition access_priv :: "riscv \<Rightarrow> u32" where
  "access_priv c = (if bit (m_csr_msr c) 17 then drop_bit 11 (m_csr_msr c) AND 3 else m_csr_mpriv c)"

definition sv32_allows :: "riscv \<Rightarrow> bool \<Rightarrow> u32 \<Rightarrow> bool" where
  "sv32_allows c store f \<longleftrightarrow>
     (bit f 2 \<longrightarrow> bit f 1) \<and>
     (if store then bit f 2 else bit f 1 \<or> bit f 3 \<and> bit (m_csr_msr c) 19) \<and>
     (access_priv c = PRIV_USER \<longrightarrow> bit f 4) \<and>
     (access_priv c = PRIV_SUPER \<and> bit f 4 \<longrightarrow> bit (m_csr_msr c) 18) \<and>
     bit f 6 \<and> (store \<longrightarrow> bit f 7)"

definition reached :: "riscv \<Rightarrow> bool \<Rightarrow> sv32_walk \<Rightarrow> u32 \<Rightarrow> u32 option" where
  "reached c store r va = (case r of
     Mapped p f \<Rightarrow> if sv32_allows c store f then Some (of_nat (p * 4096 + unat va mod 4096)) else None
   | _ \<Rightarrow> None)"

text \<open>
  The accesses on which the simulator, which knows neither \<open>MPRV\<close> nor \<open>MXR\<close> nor the marks and stops where
  \<open>SUM\<close> forbids an access, can agree with that.
\<close>

definition plain_access :: "riscv \<Rightarrow> bool \<Rightarrow> u32 \<Rightarrow> bool" where
  "plain_access c store f \<longleftrightarrow>
     bit f 6 \<and> (store \<longrightarrow> bit f 7) \<and>
     (\<not> store \<and> bit f 3 \<and> \<not> bit f 1 \<longrightarrow> \<not> bit (m_csr_msr c) 19) \<and>
     (m_csr_mpriv c = PRIV_SUPER \<and> bit f 4 \<longrightarrow> bit (m_csr_msr c) 18)"

text \<open>What the simulator goes by.\<close>

definition page_allows :: "riscv \<Rightarrow> bool \<Rightarrow> u32 \<Rightarrow> bool" where
  "page_allows c store f \<longleftrightarrow> bit f 1 \<and> (store \<longrightarrow> bit f 2) \<and> (m_csr_mpriv c = PRIV_USER \<longrightarrow> bit f 4)"

lemma plain_allows:
  "plain_access c store f \<Longrightarrow> \<not> bit (m_csr_msr c) 17 \<Longrightarrow> sv32_allows c store f = page_allows c store f"
  by (auto simp: plain_access_def sv32_allows_def page_allows_def access_priv_def)

lemma and_power: "(w :: u32) AND 2 ^ k = (if bit w k then 2 ^ k else 0)"
  by (rule bits_eqI) (auto simp: bit_simps)

lemma flag_bits:
  fixes w :: u32
  shows "w AND PAGE_READ = (if bit w 1 then 2 else 0)" "w AND PAGE_WRITE = (if bit w 2 then 4 else 0)"
    "w AND PAGE_EXEC = (if bit w 3 then 8 else 0)" "w AND PAGE_USER = (if bit w 4 then 16 else 0)"
  using and_power [of w 1] and_power [of w 2] and_power [of w 3] and_power [of w 4] by simp_all

lemma flag_tests:
  fixes w :: u32
  shows "w AND (PAGE_EXEC OR PAGE_READ OR PAGE_WRITE) = PAGE_WRITE \<or>
      w AND (PAGE_EXEC OR PAGE_READ OR PAGE_WRITE) = PAGE_EXEC OR PAGE_WRITE \<longleftrightarrow>
      bit w 2 \<and> \<not> bit w 1"
    and "need \<in> {PAGE_READ, PAGE_WRITE} \<Longrightarrow> w AND (need OR PAGE_USER) = need OR PAGE_USER \<longleftrightarrow>
      w AND need = need \<and> bit w 4"
proof -
  show "w AND (PAGE_EXEC OR PAGE_READ OR PAGE_WRITE) = PAGE_WRITE \<or>
      w AND (PAGE_EXEC OR PAGE_READ OR PAGE_WRITE) = PAGE_EXEC OR PAGE_WRITE \<longleftrightarrow>
      bit w 2 \<and> \<not> bit w 1"
    unfolding bit.conj_disj_distrib flag_bits by simp
  show "need \<in> {PAGE_READ, PAGE_WRITE} \<Longrightarrow> w AND (need OR PAGE_USER) = need OR PAGE_USER \<longleftrightarrow>
      w AND need = need \<and> bit w 4"
    unfolding bit.conj_disj_distrib flag_bits by (auto simp: flag_bits split: if_splits)
qed

lemma page_address_mapped:
  assumes "f = pte AND PAGE_FLAGS"
  shows "page_address (of_nat (p * 4096) OR f) va = of_nat (p * 4096 + unat va mod 4096)"
proof -
  have low: "va AND 0xFFF = take_bit 12 va"
    by (simp add: take_bit_eq_mask mask_eq_exp_minus_1)
  have "unat (va AND 0xFFF) = unat va mod 4096"
    unfolding low unsigned_take_bit_eq by (simp add: take_bit_eq_mod)
  then have "va AND 0xFFF = of_nat (unat va mod 4096)"
    by (metis of_nat_unat ucast_id)
  then show ?thesis
    unfolding page_address_def page_base [OF assms(1)] by simp
qed

text \<open>The bits of the entry that the walk hands on are the flags of the page.\<close>

lemma mapped_flags:
  fixes f :: u32
  assumes "k < 10" "f = pte AND PAGE_FLAGS"
  shows "bit (of_nat (p * 4096) OR f) k = bit f k"
proof -
  have page: "of_nat (p * 4096) = (push_bit 12 (of_nat p) :: u32)"
    by (simp add: push_bit_eq_mult)
  show ?thesis
    unfolding page using assms(1) by (simp add: bit_or_iff bit_push_bit_iff)
qed

lemma sv32_flags:
  "sv32 get i table va = Mapped p f \<Longrightarrow> \<exists>pte. f = pte AND PAGE_FLAGS"
proof (induction i arbitrary: table)
  case 0
  then show ?case
    by (subst (asm) sv32.simps) (auto simp: Let_def split: option.splits if_splits)
next
  case (Suc i)
  from Suc.prems show ?case
    by (subst (asm) sv32.simps) (auto simp: Let_def dest: Suc.IH split: option.splits if_splits)
qed

text \<open>Load and store translation below machine mode by the simulator's own rules for a page.\<close>

definition load_store_result :: "bool \<Rightarrow> u32 \<Rightarrow> u32 \<Rightarrow> riscv \<Rightarrow> u32 option \<Rightarrow> (u32 option \<times> riscv) sim" where
  "load_store_result store pc va c target = (case target of
      Some a \<Rightarrow> Inr (Some a, c)
    | None \<Rightarrow> rbind (rv_exception
        (if store then MCAUSE_PAGE_FAULT_STORE else MCAUSE_PAGE_FAULT_LOAD) pc va c)
        (\<lambda>c. Inr (None, c)))"

lemma translate_pages:
  assumes "list_all region_ok (m_regions c)" "paging_on c" "m_csr_mpriv c \<le> PRIV_SUPER"
    and r: "r = sv32 (phys c) 1 (satp_table c) (unat va)" "walked c r w"
    and sum: "\<And>p f. \<lbrakk>r = Mapped p f; bit f 4; m_csr_mpriv c = PRIV_SUPER\<rbrakk> \<Longrightarrow> bit (m_csr_msr c) 18"
  shows "mmu_d_translate pc va store c = load_store_result store pc va c (case r of
     Mapped p f \<Rightarrow> if page_allows c store f then Some (of_nat (p * 4096 + unat va mod 4096)) else None
   | _ \<Rightarrow> None)"
proof -
  have walk: "mmu_walk va c = Inr w"
    using mmu_walk_sv32 [OF assms(1,2)] r by simp
  have priv: "m_csr_mpriv c = 0 \<or> m_csr_mpriv c = 1"
    using assms(3) by (auto simp: word_le_nat_alt le_Suc_eq word_unat_eq_iff)
  show ?thesis
  proof (cases r)
    case (Mapped p f)
    then obtain pte where f: "f = pte AND PAGE_FLAGS"
      using r(1) sv32_flags by metis
    have w: "w = of_nat (p * 4096) OR f"
      using r(2) Mapped by (simp add: walked_def)
    have addr: "page_address w va = of_nat (p * 4096 + unat va mod 4096)"
      unfolding w by (rule page_address_mapped [OF f])
    have bits: "bit w 1 = bit f 1" "bit w 2 = bit f 2" "bit w 4 = bit f 4"
      unfolding w by (rule mapped_flags [OF _ f], simp)+
    have flags: "w AND PAGE_USER \<noteq> 0 \<longleftrightarrow> bit f 4" "w AND PAGE_READ = PAGE_READ \<longleftrightarrow> bit f 1"
      "w AND PAGE_WRITE = PAGE_WRITE \<longleftrightarrow> bit f 2"
      unfolding flag_bits bits by simp_all
    have need: "w AND (PAGE_READ OR PAGE_USER) = PAGE_READ OR PAGE_USER \<longleftrightarrow> bit f 1 \<and> bit f 4"
      "w AND (PAGE_WRITE OR PAGE_USER) = PAGE_WRITE OR PAGE_USER \<longleftrightarrow> bit f 2 \<and> bit f 4"
      using flag_tests(2) [of PAGE_READ w] flag_tests(2) [of PAGE_WRITE w] flags bits by simp_all
    have super: "bit f 4 \<longrightarrow> m_csr_msr c AND SR_SUM \<noteq> 0" if "m_csr_mpriv c = PRIV_SUPER"
      using sum [OF Mapped] that and_power [of "m_csr_msr c" 18] by simp
    have mapped: "mmu_d_translate pc va store c = (if page_allows c store f
        then Inr (Some (page_address w va), c) else rbind (rv_exception
        (if store then MCAUSE_PAGE_FAULT_STORE else MCAUSE_PAGE_FAULT_LOAD) pc va c)
        (\<lambda>c. Inr (None, c)))"
      using priv super
      unfolding mmu_d_translate_def walk rbind.simps Let_def flag_tests(1) page_allows_def
      by (cases store; elim disjE) (simp_all only: if_True if_False bits flags need, auto)
    show ?thesis
      unfolding mapped addr by (simp add: load_store_result_def Mapped)
  next
    case Not_present
    then have "w = 0"
      using r(2) by (simp add: walked_def)
    then show ?thesis
      using Not_present priv assms(3) by (auto simp: mmu_d_translate_def walk Let_def load_store_result_def)
  qed (use r(2) in \<open>simp_all add: walked_def\<close>)
qed


text \<open>
  Claim C5. Load and store translation below machine mode with paging on, through tables and pages that are in
  memory, with aligned large pages and no pointer in the last level: an access to a page that the
  tables map and the privileged specification allows reaches the byte of that page at the offset of
  the address; any other takes the page fault of its kind. This is for what the simulator
  implements: \<open>MPRV\<close> and, where it matters, \<open>MXR\<close> are off, pages are marked as accessed and, for a
  store, as dirty, and supervisor code stays away from user pages unless \<open>SUM\<close> is set.
\<close>

theorem translate_sv32:
  assumes "list_all region_ok (m_regions c)" "paging_on c" "m_csr_mpriv c \<le> PRIV_SUPER"
    and r: "r = sv32 (phys c) 1 (satp_table c) (unat va)" "walked c r w"
    and mprv: "\<not> bit (m_csr_msr c) 17" and plain: "\<And>p f. r = Mapped p f \<Longrightarrow> plain_access c store f"
  shows "mmu_d_translate pc va store c = (case reached c store r va of
      Some a \<Rightarrow> Inr (Some a, c)
    | None \<Rightarrow> rbind (rv_exception
        (if store then MCAUSE_PAGE_FAULT_STORE else MCAUSE_PAGE_FAULT_LOAD) pc va c)
        (\<lambda>c. Inr (None, c)))"
proof -
  have sum: "bit (m_csr_msr c) 18" if "r = Mapped p f" "bit f 4" "m_csr_mpriv c = PRIV_SUPER" for p f
    using plain [OF that(1)] that by (simp add: plain_access_def)
  have pages: "mmu_d_translate pc va store c = load_store_result store pc va c (case r of
     Mapped p f \<Rightarrow> if page_allows c store f then Some (of_nat (p * 4096 + unat va mod 4096)) else None
   | _ \<Rightarrow> None)"
    by (rule translate_pages [OF assms(1-3) r sum])
  have "(case r of
     Mapped p f \<Rightarrow> if page_allows c store f then Some (of_nat (p * 4096 + unat va mod 4096)) else None
   | _ \<Rightarrow> None) = reached c store r va"
    using plain_allows [OF plain mprv] by (simp add: reached_def split: sv32_walk.split)
  then show ?thesis
    unfolding pages load_store_result_def by (simp only:)
qed

text \<open>
  A user machine whose page table, at address 0, maps the first four megabytes to themselves for
  reading: it loads from address 4.
\<close>

definition paged_machine :: riscv where
  "paged_machine = demo_machine\<lparr>m_csr_mpriv := PRIV_USER, m_csr_satp := SATP_MODE,
     m_regions := [\<lparr>m_mem = \<lparr>Mem = [0x53, 0, 0, 0], Size = 16\<rparr>, m_mem_base = 0, m_mem_size = 16\<rparr>]\<rparr>"

lemma paged_bytes:
  "byte_at paged_machine a = (if unat a < 16 then
     Some (mem_byte \<lparr>Mem = [0x53, 0, 0, 0], Size = 16\<rparr> (unat a)) else None)"
  by (simp add: paged_machine_def byte_at_def in_region_def word_less_nat_alt Let_def)

lemma paged_entry: "phys paged_machine 0 = Some 0x53"
  by (simp add: phys_def ref_load_def mapped_word paged_bytes le_load_def le_value_4 mem_byte_def)

theorem translate_sv32_witness:
  "mmu_d_translate 0 4 False paged_machine = Inr (Some 4, paged_machine)"
proof -
  have machine: "list_all region_ok (m_regions paged_machine)" "paging_on paged_machine"
    "m_csr_mpriv paged_machine = PRIV_USER" "satp_table paged_machine = 0"
    "m_csr_msr paged_machine = 0"
    by (simp_all add: demo_machine_def rv_reset_def stats_reset_def paged_machine_def region_ok_def paging_on_def satp_table_def)
  have walk: "sv32 (phys paged_machine) 1 (satp_table paged_machine) (unat (4 :: u32)) = Mapped 0 0x53"
    by (subst sv32.simps) (simp add: machine paged_entry)
  have "walked paged_machine (Mapped 0 0x53) 0x53"
    by (simp add: walked_def paged_entry)
  moreover have "reached paged_machine False (Mapped 0 0x53) 4 = Some 4"
    by (simp add: reached_def sv32_allows_def access_priv_def machine)
  ultimately show ?thesis
    using translate_sv32 [of paged_machine "Mapped 0 0x53" 4 "0x53" False 0] machine walk
    by (simp add: plain_access_def)
qed

section \<open>Where the simulator leaves Sv32\<close>

text \<open>
  With paging off user code has no memory at all: the entry made up for the address lacks the user
  flag, so every access faults.
\<close>

lemma user_without_paging:
  assumes "m_csr_mpriv c = PRIV_USER" "m_csr_satp c AND SATP_MODE = 0"
  shows "mmu_d_translate pc va store c = rbind (rv_exception
    (if store then MCAUSE_PAGE_FAULT_STORE else MCAUSE_PAGE_FAULT_LOAD) pc va c)
    (\<lambda>c. Inr (None, c))"
proof -
  define w where "w = PAGE_PRESENT OR PAGE_READ OR PAGE_WRITE OR PAGE_EXEC OR push_bit 12 (drop_bit 12 va)"
  have "mmu_walk va c = Inr w"
    using assms(2) unfolding mmu_walk_def w_def by simp
  moreover have "\<not> bit w 4"
    by (simp add: w_def bit_or_iff bit_push_bit_iff)
  then have "w AND (PAGE_READ OR PAGE_USER) \<noteq> PAGE_READ OR PAGE_USER"
    "w AND (PAGE_WRITE OR PAGE_USER) \<noteq> PAGE_WRITE OR PAGE_USER"
    using flag_tests(2) [of PAGE_READ w] flag_tests(2) [of PAGE_WRITE w] by simp_all
  ultimately show ?thesis
    using assms(1) unfolding mmu_d_translate_def Let_def by simp
qed

text \<open>
  The accessed and dirty marks are neither tested nor set: a load from a page that was never
  marked succeeds and leaves the machine, and with it the tables, as it was, where Sv32 has a page
  fault or a write of the mark.
\<close>

lemma access_mark_ignored:
  assumes "list_all region_ok (m_regions c)" "paging_on c" "m_csr_mpriv c = PRIV_USER"
    and r: "sv32 (phys c) 1 (satp_table c) (unat va) = Mapped p f" "walked c (Mapped p f) w"
    and "bit f 1" "bit f 4" "\<not> bit f 6"
  shows "mmu_d_translate pc va False c = Inr (Some (of_nat (p * 4096 + unat va mod 4096)), c)"
    and "reached c False (Mapped p f) va = None"
proof -
  show "mmu_d_translate pc va False c = Inr (Some (of_nat (p * 4096 + unat va mod 4096)), c)"
    using translate_pages [OF assms(1,2) _ r(1) [symmetric] r(2), of pc False] assms(3,6,7)
    by (simp add: page_allows_def load_store_result_def)
  show "reached c False (Mapped p f) va = None"
    using assms(8) by (simp add: reached_def sv32_allows_def)
qed

text \<open>A load from a page that is only executable faults although \<open>MXR\<close> makes it readable.\<close>

lemma execute_only_ignored:
  assumes "list_all region_ok (m_regions c)" "paging_on c" "m_csr_mpriv c = PRIV_USER"
    and r: "sv32 (phys c) 1 (satp_table c) (unat va) = Mapped p f" "walked c (Mapped p f) w"
    and "bit (m_csr_msr c) 19" "\<not> bit (m_csr_msr c) 17" "f AND 0xff = 0x59"
  shows "mmu_d_translate pc va False c =
      rbind (rv_exception MCAUSE_PAGE_FAULT_LOAD pc va c) (\<lambda>c. Inr (None, c))"
    and "reached c False (Mapped p f) va \<noteq> None"
proof -
  have "bit (f AND 0xff) k = bit f k" if "k < 8" for k
  proof -
    have "(0xff :: u32) = mask 8" by (simp add: mask_eq_exp_minus_1)
    then have "bit (0xff :: u32) k" using that by (simp only: bit_mask_iff) simp
    then show ?thesis by (simp add: bit_and_iff)
  qed
  then have f: "bit f k = bit (0x59 :: u32) k" if "k < 8" for k
    using that assms(8) by metis
  have bits: "\<not> bit f 1" "\<not> bit f 2" "bit f 3" "bit f 4" "bit f 6"
    by (simp_all add: f)
  show "mmu_d_translate pc va False c =
      rbind (rv_exception MCAUSE_PAGE_FAULT_LOAD pc va c) (\<lambda>c. Inr (None, c))"
    using translate_pages [OF assms(1,2) _ r(1) [symmetric] r(2), of pc False] assms(3) bits
    by (simp add: page_allows_def load_store_result_def)
  show "reached c False (Mapped p f) va \<noteq> None"
    using assms(3,6,7) bits by (simp add: reached_def sv32_allows_def access_priv_def)
qed

text \<open>
  A pointer in a table of level 0, which Sv32 makes a page fault, sends the walk to a third level,
  and a page found there is shifted by a negative amount.
\<close>

lemma third_level:
  assumes ok: "list_all region_ok (m_regions c)" and pte: "phys c (table_entry base 0 va) = Some pte"
    and pointer: "bit pte 0" "\<not> (bit pte 1 \<or> bit pte 2 \<or> bit pte 3)"
    and leaf: "mmu_read_word (push_bit 12 (drop_bit 10 pte) + (drop_bit 2 va AND 0x3FF) * 4) c = Inr (Some w)"
      "bit w 0" "bit w 1 \<or> bit w 2 \<or> bit w 3"
  shows "walk_levels c va 0 base = Inl Undefined"
proof -
  have "walk_levels c va 0 base = walk_levels c va (- 10) (push_bit 12 (drop_bit 10 pte))"
    using walk_levels_step [OF ok pte] pointer by simp
  also have "\<dots> = Inl Undefined"
    using leaf by (subst walk_levels.simps) (simp only: Let_def pte_tests, simp)
  finally show ?thesis .
qed

end
