(* ===== verification/Riscv_Dump.thy ===== *)
theory Riscv_Dump
  imports Riscv_Traps
begin

text \<open>
  The disassembler of the simulator (\<open>riscv_inst_dump.cpp\<close>): the text it prints for an opcode,
  and the proof that for the instructions of RV32IM it is the text of the assembler instruction, but
  for those where it is not: stores, \<open>lui\<close>, \<open>auipc\<close> and \<open>jalr\<close>.
\<close>

section \<open>The conversions of printf\<close>

definition digit_char :: "nat \<Rightarrow> char" where
  "digit_char d = ''0123456789abcdef'' ! d"

fun based :: "nat \<Rightarrow> nat \<Rightarrow> string" where
  "based b n = (if b \<le> 1 \<or> n < b then [digit_char n] else based b (n div b) @ [digit_char (n mod b)])"

declare based.simps [simp del]

text \<open>\<open>%d\<close>, \<open>%x\<close> and \<open>%08x\<close>.\<close>

definition show_int :: "int \<Rightarrow> string" where
  "show_int i = (if i < 0 then ''-'' @ based 10 (nat (- i)) else based 10 (nat i))"

definition show_hex :: "u32 \<Rightarrow> string" where
  "show_hex w = based 16 (unat w)"

definition show_hex8 :: "u32 \<Rightarrow> string" where
  "show_hex8 w = (let s = show_hex w in replicate (8 - length s) (digit_char 0) @ s)"

definition show_d :: "u32 \<Rightarrow> string" where
  "show_d w = show_int (sint w)"

definition show_r :: "u32 \<Rightarrow> string" where
  "show_r w = ''r'' @ show_d w"

section \<open>The text of an instruction\<close>

text \<open>The part of the format behind the name, with the fields it prints.\<close>

type_synonym operands = "opcode_fields \<Rightarrow> string"

definition ops_none :: operands where "ops_none f = []"

definition ops_imm :: operands where
  "ops_imm f = '' '' @ show_r (rd f) @ '', '' @ show_r (rs1 f) @ '', '' @ show_d (imm12 f)"

definition ops_shamt :: operands where
  "ops_shamt f = '' '' @ show_r (rd f) @ '', '' @ show_r (rs1 f) @ '', '' @ show_d (shamt f)"

definition ops_upper :: operands where
  "ops_upper f = '' '' @ show_r (rd f) @ '', 0x'' @ show_hex (imm20 f)"

definition ops_reg :: operands where
  "ops_reg f = '' '' @ show_r (rd f) @ '', '' @ show_r (rs1 f) @ '', '' @ show_r (rs2 f)"

definition ops_jal :: operands where
  "ops_jal f = '' '' @ show_r (rd f) @ '', '' @ show_d (jimm20 f)"

definition ops_jalr :: operands where
  "ops_jalr f = '' '' @ show_r (rs1 f) @ '', '' @ show_r (imm12 f)"

definition ops_branch :: operands where
  "ops_branch f = '' '' @ show_r (rs1 f) @ '', '' @ show_r (rs2 f) @ '', '' @ show_d (bimm f)"

definition ops_load :: operands where
  "ops_load f = '' '' @ show_r (rd f) @ '', '' @ show_d (imm12 f) @ ''('' @ show_r (rs1 f) @ '')''"

definition ops_store :: operands where
  "ops_store f = '' '' @ show_d (storeimm f) @ ''('' @ show_r (rs1 f) @ ''), '' @ show_r (rs2 f)"

definition ops_csr :: operands where
  "ops_csr f = '' '' @ show_r (rd f) @ '', '' @ show_r (rs1 f) @ '', 0x'' @ show_hex (imm12 f)"

definition ops_csri :: operands where
  "ops_csri f = '' '' @ show_r (rd f) @ '', '' @ show_d (rs1 f) @ '', 0x'' @ show_hex (imm12 f)"

text \<open>The chain of tests with what each prints, in its sections.\<close>

type_synonym dump_row = "encoding \<times> string \<times> operands"

definition dump_imm :: "dump_row list" where
  "dump_imm = zip inst_imm [
     (''andi'', ops_imm), (''ori'', ops_imm), (''xori'', ops_imm), (''addi'', ops_imm),
     (''slti'', ops_imm), (''sltiu'', ops_imm), (''slli'', ops_shamt), (''srli'', ops_shamt),
     (''srai'', ops_shamt), (''lui'', ops_upper), (''auipc'', ops_upper)]"

definition dump_reg :: "dump_row list" where
  "dump_reg = zip inst_reg [
     (''add'', ops_reg), (''sub'', ops_reg), (''slt'', ops_reg), (''sltu'', ops_reg),
     (''xor'', ops_reg), (''or'', ops_reg), (''and'', ops_reg), (''sll'', ops_reg),
     (''srl'', ops_reg), (''sra'', ops_reg)]"

definition dump_jump :: "dump_row list" where
  "dump_jump = zip inst_jump [
     (''jal'', ops_jal), (''jalr'', ops_jalr), (''beq'', ops_branch), (''bne'', ops_branch),
     (''blt'', ops_branch), (''bge'', ops_branch), (''bltu'', ops_branch), (''bgeu'', ops_branch)]"

definition dump_mem :: "dump_row list" where
  "dump_mem = zip inst_mem [
     (''lb'', ops_load), (''lh'', ops_load), (''lw'', ops_load), (''lbu'', ops_load),
     (''lhu'', ops_load), (''lwu'', ops_load), (''sb'', ops_store), (''sh'', ops_store),
     (''sw'', ops_store)]"

definition dump_muldiv :: "dump_row list" where
  "dump_muldiv = zip inst_muldiv [
     (''mul'', ops_reg), (''mulh'', ops_reg), (''mulhsu'', ops_reg), (''mulhu'', ops_reg),
     (''div'', ops_reg), (''divu'', ops_reg), (''rem'', ops_reg), (''remu'', ops_reg)]"

definition dump_system :: "dump_row list" where
  "dump_system = zip (inst_system @ inst_wfi) [
     (''ecall'', ops_none), (''ebreak'', ops_none), (''mret'', ops_none), (''sret'', ops_none),
     (''sfence'', ops_none), (''sfence'', ops_none), (''sfence'', ops_none),
     (''csrw'', ops_csr), (''csrs'', ops_csr), (''csrc'', ops_csr),
     (''csrwi'', ops_csri), (''csrsi'', ops_csri), (''csrci'', ops_csri), (''wfi'', ops_none)]"

definition dump_table :: "dump_row list" where
  "dump_table = dump_imm @ dump_reg @ dump_jump @ dump_mem @ dump_muldiv @ dump_system"

text \<open>The result and the string that is filled.\<close>

definition riscv_inst_decode :: "u32 \<Rightarrow> u32 \<Rightarrow> bool \<times> string" where
  "riscv_inst_decode pc opcode =
     (case find (\<lambda>((i, m, v), name, ops). opcode AND m = v) dump_table of
        Some ((i, m, v), name, ops) \<Rightarrow>
          (True, show_hex8 pc @ '': '' @ name @ ops (extract_fields opcode))
      | None \<Rightarrow> (False, show_hex8 pc @ '': invalid!''))"

section \<open>Disassembling what was assembled\<close>

text \<open>
  The text of an instruction in the syntax of the assembler and of the instruction set manual: the
  destination first, a store with its data register before the address, the upper immediates as
  the 20 bits of the format. Registers are called \<open>r0\<close> to \<open>r31\<close>, as the simulator does.
\<close>

definition reg_text :: "gpreg \<Rightarrow> string" where
  "reg_text r = ''r'' @ show_int (uint r)"

definition imm_text :: "'a::len word \<Rightarrow> string" where
  "imm_text w = show_int (sint w)"

fun imm_mnemonic :: "imm_op \<Rightarrow> string" where
  "imm_mnemonic ADDI = ''addi''" | "imm_mnemonic SLTI = ''slti''" | "imm_mnemonic SLTIU = ''sltiu''"
| "imm_mnemonic XORI = ''xori''" | "imm_mnemonic ORI = ''ori''" | "imm_mnemonic ANDI = ''andi''"

fun shift_mnemonic :: "shift_op \<Rightarrow> string" where
  "shift_mnemonic SLLI = ''slli''" | "shift_mnemonic SRLI = ''srli''" | "shift_mnemonic SRAI = ''srai''"

fun reg_mnemonic :: "reg_op \<Rightarrow> string" where
  "reg_mnemonic R_ADD = ''add''" | "reg_mnemonic R_SUB = ''sub''" | "reg_mnemonic R_SLL = ''sll''"
| "reg_mnemonic R_SLT = ''slt''" | "reg_mnemonic R_SLTU = ''sltu''" | "reg_mnemonic R_XOR = ''xor''"
| "reg_mnemonic R_SRL = ''srl''" | "reg_mnemonic R_SRA = ''sra''" | "reg_mnemonic R_OR = ''or''"
| "reg_mnemonic R_AND = ''and''" | "reg_mnemonic R_MUL = ''mul''" | "reg_mnemonic R_MULH = ''mulh''"
| "reg_mnemonic R_MULHSU = ''mulhsu''" | "reg_mnemonic R_MULHU = ''mulhu''" | "reg_mnemonic R_DIV = ''div''"
| "reg_mnemonic R_DIVU = ''divu''" | "reg_mnemonic R_REM = ''rem''" | "reg_mnemonic R_REMU = ''remu''"

fun branch_mnemonic :: "branch_op \<Rightarrow> string" where
  "branch_mnemonic BEQ = ''beq''" | "branch_mnemonic BNE = ''bne''" | "branch_mnemonic BLT = ''blt''"
| "branch_mnemonic BGE = ''bge''" | "branch_mnemonic BLTU = ''bltu''" | "branch_mnemonic BGEU = ''bgeu''"

fun load_mnemonic :: "load_op \<Rightarrow> string" where
  "load_mnemonic LB = ''lb''" | "load_mnemonic LH = ''lh''" | "load_mnemonic LW = ''lw''"
| "load_mnemonic LBU = ''lbu''" | "load_mnemonic LHU = ''lhu''"

fun store_mnemonic :: "store_op \<Rightarrow> string" where
  "store_mnemonic SB = ''sb''" | "store_mnemonic SH = ''sh''" | "store_mnemonic SW = ''sw''"

fun asm_text :: "insn \<Rightarrow> string" where
  "asm_text (OP_IMM i d s imm) =
     imm_mnemonic i @ '' '' @ reg_text d @ '', '' @ reg_text s @ '', '' @ imm_text imm"
| "asm_text (SHIFT_IMM i d s n) =
     shift_mnemonic i @ '' '' @ reg_text d @ '', '' @ reg_text s @ '', '' @ show_int (uint n)"
| "asm_text (LUI d imm) = ''lui '' @ reg_text d @ '', 0x'' @ based 16 (unat imm)"
| "asm_text (AUIPC d imm) = ''auipc '' @ reg_text d @ '', 0x'' @ based 16 (unat imm)"
| "asm_text (OP i d s1 s2) =
     reg_mnemonic i @ '' '' @ reg_text d @ '', '' @ reg_text s1 @ '', '' @ reg_text s2"
| "asm_text (JAL d imm) = ''jal '' @ reg_text d @ '', '' @ show_int (2 * sint imm)"
| "asm_text (JALR d s imm) = ''jalr '' @ reg_text d @ '', '' @ imm_text imm @ ''('' @ reg_text s @ '')''"
| "asm_text (BRANCH i s1 s2 imm) =
     branch_mnemonic i @ '' '' @ reg_text s1 @ '', '' @ reg_text s2 @ '', '' @ show_int (2 * sint imm)"
| "asm_text (LOAD i d s imm) =
     load_mnemonic i @ '' '' @ reg_text d @ '', '' @ imm_text imm @ ''('' @ reg_text s @ '')''"
| "asm_text (STORE i s2 s1 imm) =
     store_mnemonic i @ '' '' @ reg_text s2 @ '', '' @ imm_text imm @ ''('' @ reg_text s1 @ '')''"

text \<open>The instructions whose text is that of the assembler.\<close>

fun asm_printed :: "insn \<Rightarrow> bool" where
  "asm_printed (LUI d imm) = False"
| "asm_printed (AUIPC d imm) = False"
| "asm_printed (JALR d s imm) = False"
| "asm_printed (STORE i s2 s1 imm) = False"
| "asm_printed _ = True"

lemma dump_encodings: "map fst dump_table = decode_table"
  by (simp add: dump_table_def decode_table_def dump_imm_def dump_reg_def dump_jump_def dump_mem_def
      dump_muldiv_def dump_system_def inst_imm_def inst_reg_def inst_jump_def inst_mem_def
      inst_muldiv_def inst_system_def inst_wfi_def)

lemma signed_fields:
  "sint (scast (w :: 12 word) :: u32) = sint w"
  "sint (ucast (r :: 5 word) :: u32) = uint r"
  "sint (scast w * 2 :: u32) = 2 * sint w"
  "sint (scast (v :: 20 word) * 2 :: u32) = 2 * sint v"
proof -
  have of_int: "sint (word_of_int k :: u32) = k" if "- (2 ^ 31) \<le> k" "k < 2 ^ 31" for k
    unfolding sint_sbintrunc' using that by (intro signed_take_bit_int_eq_self) simp_all
  have w: "- (2 ^ 11) \<le> sint w" "sint w < 2 ^ 11"
    using sint_ge [of w] sint_lt [of w] by simp_all
  have v: "- (2 ^ 19) \<le> sint v" "sint v < 2 ^ 19"
    using sint_ge [of v] sint_lt [of v] by simp_all
  have r: "0 \<le> uint r" "uint r < 2 ^ 5"
    using unsigned_less [of r, where ?'a = int] by simp_all
  have conv: "(scast w :: u32) = word_of_int (sint w)" "(scast v :: u32) = word_of_int (sint v)"
    "(ucast r :: u32) = word_of_int (uint r)"
    by (simp_all add: of_int_sint of_int_uint)
  show "sint (scast w :: u32) = sint w"
    unfolding conv using w by (intro of_int) simp_all
  show "sint (ucast r :: u32) = uint r"
    unfolding conv using r by (intro of_int order_trans [OF _ r(1)]) simp_all
  have twice: "word_of_int k * 2 = (word_of_int (2 * k) :: u32)" for k
    by simp
  show "sint (scast w * 2 :: u32) = 2 * sint w"
    unfolding conv twice using w by (intro of_int) simp_all
  show "sint (scast v * 2 :: u32) = 2 * sint v"
    unfolding conv twice using v by (intro of_int) simp_all
qed

lemma upper_field: "unat (push_bit 12 (ucast (w :: 20 word)) :: u32) = unat w * 4096"
proof -
  have "unat w < 2 ^ 20"
    using unsigned_less [of w, where ?'a = nat] by simp
  moreover have "push_bit 12 (ucast w) = (of_nat (unat w * 4096) :: u32)"
    by (simp add: push_bit_eq_mult)
  ultimately show ?thesis
    by (simp add: unat_of_nat_u32 del: of_nat_mult)
qed

text \<open>What the chain prints for each instruction.\<close>

definition dump_name :: "eInstructions \<Rightarrow> string" where
  "dump_name i = (if i = ENUM_INST_FENCE then ''sfence'' else inst_names i)"

definition dump_ops :: "eInstructions \<Rightarrow> operands" where
  "dump_ops i =
     (if i \<in> {ENUM_INST_ANDI, ENUM_INST_ORI, ENUM_INST_XORI, ENUM_INST_ADDI, ENUM_INST_SLTI,
        ENUM_INST_SLTIU} then ops_imm
      else if i \<in> {ENUM_INST_SLLI, ENUM_INST_SRLI, ENUM_INST_SRAI} then ops_shamt
      else if i \<in> {ENUM_INST_LUI, ENUM_INST_AUIPC} then ops_upper
      else if i = ENUM_INST_JAL then ops_jal else if i = ENUM_INST_JALR then ops_jalr
      else if i \<in> {ENUM_INST_BEQ, ENUM_INST_BNE, ENUM_INST_BLT, ENUM_INST_BGE, ENUM_INST_BLTU,
        ENUM_INST_BGEU} then ops_branch
      else if i \<in> {ENUM_INST_LB, ENUM_INST_LH, ENUM_INST_LW, ENUM_INST_LBU, ENUM_INST_LHU,
        ENUM_INST_LWU} then ops_load
      else if i \<in> {ENUM_INST_SB, ENUM_INST_SH, ENUM_INST_SW} then ops_store
      else if i \<in> {ENUM_INST_CSRRW, ENUM_INST_CSRRS, ENUM_INST_CSRRC} then ops_csr
      else if i \<in> {ENUM_INST_CSRRWI, ENUM_INST_CSRRSI, ENUM_INST_CSRRCI} then ops_csri
      else if i \<in> {ENUM_INST_ECALL, ENUM_INST_EBREAK, ENUM_INST_MRET, ENUM_INST_SRET,
        ENUM_INST_FENCE, ENUM_INST_WFI} then ops_none
      else ops_reg)"

lemma dump_rows: "list_all (\<lambda>((i, m, v), name, ops). name = dump_name i \<and> ops = dump_ops i) dump_table"
  by (simp add: dump_table_def dump_imm_def dump_reg_def dump_jump_def dump_mem_def
      dump_muldiv_def dump_system_def inst_imm_def inst_reg_def inst_jump_def inst_mem_def
      inst_muldiv_def inst_system_def inst_wfi_def dump_name_def dump_ops_def)

lemma find_map_fst: "find (\<lambda>e. P (f e)) xs = Some e \<Longrightarrow> find P (map f xs) = Some (f e)"
  by (induction xs) (auto split: if_splits)

lemma find_map_none: "find (\<lambda>e. P (f e)) xs = None \<Longrightarrow> find P (map f xs) = None"
  by (induction xs) (auto split: if_splits)

lemma find_in: "find P xs = Some e \<Longrightarrow> e \<in> set xs"
  by (induction xs) (auto split: if_splits)

text \<open>
  The disassembler recognises an opcode exactly when the processor does, as the same instruction.
\<close>

theorem dump_decodes:
  "riscv_inst_decode pc opcode = (case rv_decode opcode of
     Some i \<Rightarrow> (True, show_hex8 pc @ '': '' @ dump_name i @ dump_ops i (extract_fields opcode))
   | None \<Rightarrow> (False, show_hex8 pc @ '': invalid!''))"
proof -
  let ?P = "\<lambda>(i, m, v). opcode AND m = (v :: u32)"
  have eq: "find (\<lambda>((i, m, v), name, ops). opcode AND m = v) dump_table = find (\<lambda>e. ?P (fst e)) dump_table"
    by (rule arg_cong [of _ _ "\<lambda>P. find P dump_table"]) auto
  show ?thesis
  proof (cases "find (\<lambda>e. ?P (fst e)) dump_table")
    case None
    then have "find ?P decode_table = None"
      using find_map_none [of ?P fst dump_table] by (simp only: dump_encodings)
    then show ?thesis
      unfolding riscv_inst_decode_def eq None rv_decode_def by simp
  next
    case (Some e)
    obtain i m v name ops where e: "e = ((i, m, v), name, ops)"
      by (metis prod.collapse)
    have "find ?P decode_table = Some (i, m, v)"
      using find_map_fst [of ?P fst dump_table e] Some by (simp only: dump_encodings e fst_conv)
    moreover have "name = dump_name i \<and> ops = dump_ops i"
      using dump_rows find_in [OF Some] by (auto simp: list_all_iff e)
    ultimately show ?thesis
      unfolding riscv_inst_decode_def eq Some rv_decode_def e by simp
  qed
qed

lemma field_texts:
  "show_r (ucast (r :: 5 word)) = reg_text r" "show_d (scast (w :: 12 word)) = imm_text w"
  "show_d (ucast r) = show_int (uint r)" "show_d (scast w * 2) = show_int (2 * sint w)"
  "show_d (scast (u :: 20 word) * 2) = show_int (2 * sint u)"
  "show_hex (push_bit 12 (ucast u)) = based 16 (unat u * 4096)"
  by (simp_all add: show_r_def show_d_def signed_fields reg_text_def imm_text_def show_hex_def upper_field)



text \<open>A store is printed with its address before the data register.\<close>

lemma store_text:
  "riscv_inst_decode pc (assemble (STORE k s2 s1 imm)) = (True, show_hex8 pc @ '': '' @ store_mnemonic k @
     '' '' @ imm_text imm @ ''('' @ reg_text s1 @ ''), '' @ reg_text s2)"
  unfolding dump_decodes decode_assemble by (cases k) (simp_all add: dump_name_def dump_ops_def ops_store_def
      assemble_fields field_texts)

text \<open>The upper immediates are printed shifted into their place, not as the assembler takes them.\<close>

lemma upper_text:
  "riscv_inst_decode pc (assemble (LUI d imm)) =
    (True, show_hex8 pc @ '': lui '' @ reg_text d @ '', 0x'' @ based 16 (unat imm * 4096))"
  "riscv_inst_decode pc (assemble (AUIPC d imm)) =
    (True, show_hex8 pc @ '': auipc '' @ reg_text d @ '', 0x'' @ based 16 (unat imm * 4096))"
  unfolding dump_decodes decode_assemble by (simp_all add: dump_name_def dump_ops_def ops_upper_def
      assemble_fields field_texts)

text \<open>The destination of \<open>jalr\<close> is not printed, and its offset is printed as a register.\<close>

lemma jalr_text:
  "riscv_inst_decode pc (assemble (JALR d s imm)) =
    (True, show_hex8 pc @ '': jalr '' @ reg_text s @ '', r'' @ imm_text imm)"
  unfolding dump_decodes decode_assemble by (simp add: dump_name_def dump_ops_def ops_jalr_def assemble_fields
      field_texts) (simp add: show_r_def field_texts)

end
