(* ===== verification/Riscv_Cosim.thy ===== *)
theory Riscv_Cosim
  imports Riscv_Traps
begin

text \<open>
  The co-simulation framework (\<open>cosim_api.h\<close>, \<open>cosim_api.cpp\<close>), which runs several models of one
  processor in lock step and compares them after each instruction, and the simulator as one of
  these models. The virtual methods of the models are the record \<open>cpu_api\<close>; the models are objects
  in a store, so that one object can be attached as processor and as memory, as \<open>main\<close> does.
\<close>

section \<open>The interfaces\<close>

record 'c cpu_api =
  api_reset :: "u32 \<Rightarrow> 'c \<Rightarrow> 'c"
  api_get_fault :: "'c \<Rightarrow> bool"
  api_get_stopped :: "'c \<Rightarrow> bool"
  api_step :: "'c \<Rightarrow> 'c sim"
  api_get_opcode :: "'c \<Rightarrow> u32 sim"
  api_get_pc :: "'c \<Rightarrow> u32"
  api_get_reg_valid :: "int \<Rightarrow> 'c \<Rightarrow> bool"
  api_get_register :: "int \<Rightarrow> 'c \<Rightarrow> u32 sim"
  api_get_num_reg :: "'c \<Rightarrow> int"
  api_set_register :: "int \<Rightarrow> u32 \<Rightarrow> 'c \<Rightarrow> 'c sim"
  api_set_interrupt :: "int \<Rightarrow> 'c \<Rightarrow> 'c sim"
  api_enable_trace :: "u32 \<Rightarrow> 'c \<Rightarrow> 'c"
  api_event_q :: "'c \<Rightarrow> cosim_event \<Rightarrow> (u32 \<times> u32) list"
  api_set_event_q :: "cosim_event \<Rightarrow> (u32 \<times> u32) list \<Rightarrow> 'c \<Rightarrow> 'c"
  api_create_memory :: "u32 \<Rightarrow> u32 \<Rightarrow> 'c \<Rightarrow> (bool \<times> 'c) sim"
  api_write :: "u32 \<Rightarrow> u8 \<Rightarrow> 'c \<Rightarrow> 'c sim"
  api_read :: "u32 \<Rightarrow> 'c \<Rightarrow> u8 sim"

text \<open>An item of \<open>m_cpu\<close> is a name and an object, an item of \<open>m_mem\<close> also a base and a size.\<close>

type_synonym cpu_item = "string \<times> nat"

record cosim_mem_item =
  mem_name :: string
  mem_obj :: nat
  mem_base :: u32
  mem_size :: u32

record 'c cosim =
  objs :: "nat \<Rightarrow> 'c"
  cpus :: "cpu_item list"
  mems :: "cosim_mem_item list"

definition upd_obj :: "nat \<Rightarrow> 'c \<Rightarrow> 'c cosim \<Rightarrow> 'c cosim" where
  "upd_obj i c s = s\<lparr>objs := (objs s)(i := c)\<rparr>"

definition attach_cpu :: "string \<Rightarrow> nat \<Rightarrow> 'c cosim \<Rightarrow> 'c cosim" where
  "attach_cpu name p s = s\<lparr>cpus := cpus s @ [(name, p)]\<rparr>"

definition attach_mem :: "string \<Rightarrow> nat \<Rightarrow> u32 \<Rightarrow> u32 \<Rightarrow> 'c cosim \<Rightarrow> 'c cosim" where
  "attach_mem name p base len s = s\<lparr>mems := mems s @
     [\<lparr>mem_name = name, mem_obj = p, mem_base = base, mem_size = len\<rparr>]\<rparr>"

section \<open>Processors\<close>

text \<open>The loop over \<open>m_cpu\<close> that calls a method of each.\<close>

fun each_cpu :: "('c \<Rightarrow> 'c sim) \<Rightarrow> cpu_item list \<Rightarrow> 'c cosim \<Rightarrow> 'c cosim sim" where
  "each_cpu f [] s = Inr s"
| "each_cpu f ((name, i) # its) s = rbind (f (objs s i)) (\<lambda>c. each_cpu f its (upd_obj i c s))"

definition cosim_reset :: "'c cpu_api \<Rightarrow> u32 \<Rightarrow> 'c cosim \<Rightarrow> 'c cosim sim" where
  "cosim_reset api pc s = each_cpu (\<lambda>c. Inr (api_reset api pc c)) (cpus s) s"

definition cosim_get_fault :: "'c cpu_api \<Rightarrow> 'c cosim \<Rightarrow> bool" where
  "cosim_get_fault api s = list_ex (\<lambda>(name, i). api_get_fault api (objs s i)) (cpus s)"

definition cosim_get_stopped :: "'c cpu_api \<Rightarrow> 'c cosim \<Rightarrow> bool" where
  "cosim_get_stopped api s = list_ex (\<lambda>(name, i). api_get_stopped api (objs s i)) (cpus s)"

text \<open>\<open>m_cpu.front()\<close> of an empty vector is undefined.\<close>

definition front :: "'c cosim \<Rightarrow> 'c sim" where
  "front s = (case cpus s of [] \<Rightarrow> Inl Undefined | (name, i) # its \<Rightarrow> Inr (objs s i))"

text \<open>One event of each processor is taken off its queue and compared with the one before.\<close>

fun pop_events ::
  "'c cpu_api \<Rightarrow> cosim_event \<Rightarrow> cpu_item list \<Rightarrow> (u32 \<times> u32) option \<Rightarrow> 'c cosim \<Rightarrow> 'c cosim sim" where
  "pop_events api ev [] prev s = Inr s"
| "pop_events api ev ((name, i) # its) prev s =
     (case api_event_q api (objs s i) ev of
        [] \<Rightarrow> Inl Undefined
      | item # q \<Rightarrow>
          let s = upd_obj i (api_set_event_q api ev q (objs s i)) s
          in if prev \<noteq> None \<and> the prev \<noteq> item then Inl (Exit (- 1))
             else pop_events api ev its (Some item) s)"

definition compare_events :: "'c cpu_api \<Rightarrow> cosim_event \<Rightarrow> 'c cosim \<Rightarrow> 'c cosim sim" where
  "compare_events api ev s =
     (if list_all (\<lambda>(name, i). api_event_q api (objs s i) ev \<noteq> []) (cpus s)
      then pop_events api ev (cpus s) None s else Inr s)"

fun check_all :: "('a \<Rightarrow> unit sim) \<Rightarrow> 'a list \<Rightarrow> unit sim" where
  "check_all f [] = Inr ()"
| "check_all f (x # xs) = rbind (f x) (\<lambda>u. check_all f xs)"

definition compare_pcs :: "'c cpu_api \<Rightarrow> 'c cosim \<Rightarrow> unit sim" where
  "compare_pcs api s = check_all (\<lambda>(name, i). rbind (front s) (\<lambda>f.
     if api_get_pc api f \<noteq> api_get_pc api (objs s i) then Inl (Exit (- 1)) else Inr ())) (cpus s)"

definition compare_register :: "'c cpu_api \<Rightarrow> 'c \<Rightarrow> 'c \<Rightarrow> int \<Rightarrow> unit sim" where
  "compare_register api f c r =
     (if api_get_reg_valid api r f \<and> api_get_reg_valid api r c
      then rbind (api_get_register api r f) (\<lambda>x. rbind (api_get_register api r c) (\<lambda>y.
        if x \<noteq> y then Inl (Exit (- 1)) else Inr ()))
      else Inr ())"

definition compare_registers :: "'c cpu_api \<Rightarrow> 'c cosim \<Rightarrow> unit sim" where
  "compare_registers api s = rbind (front s) (\<lambda>f.
     check_all (\<lambda>r. check_all (\<lambda>(name, i). compare_register api f (objs s i) r) (cpus s))
       [0..api_get_num_reg api f - 1])"

definition cosim_step :: "'c cpu_api \<Rightarrow> 'c cosim \<Rightarrow> 'c cosim sim" where
  "cosim_step api s =
     rbind (compare_events api COSIM_EVENT_LOAD s) (\<lambda>s.
     rbind (compare_events api COSIM_EVENT_LOAD_RESULT s) (\<lambda>s.
     rbind (compare_events api COSIM_EVENT_STORE s) (\<lambda>s.
     rbind (each_cpu (api_step api) (cpus s) s) (\<lambda>s.
     rbind (compare_pcs api s) (\<lambda>u.
     rbind (compare_registers api s) (\<lambda>u. Inr s))))))"

definition cosim_get_opcode :: "'c cpu_api \<Rightarrow> 'c cosim \<Rightarrow> u32 sim" where
  "cosim_get_opcode api s = rbind (front s) (api_get_opcode api)"

definition cosim_get_pc :: "'c cpu_api \<Rightarrow> 'c cosim \<Rightarrow> u32 sim" where
  "cosim_get_pc api s = rbind (front s) (\<lambda>c. Inr (api_get_pc api c))"

definition cosim_get_reg_valid :: "'c cpu_api \<Rightarrow> int \<Rightarrow> 'c cosim \<Rightarrow> bool sim" where
  "cosim_get_reg_valid api r s = rbind (front s) (\<lambda>c. Inr (api_get_reg_valid api r c))"

definition cosim_get_register :: "'c cpu_api \<Rightarrow> int \<Rightarrow> 'c cosim \<Rightarrow> u32 sim" where
  "cosim_get_register api r s = rbind (front s) (api_get_register api r)"

definition cosim_get_num_reg :: "'c cpu_api \<Rightarrow> 'c cosim \<Rightarrow> int sim" where
  "cosim_get_num_reg api s = rbind (front s) (\<lambda>c. Inr (api_get_num_reg api c))"

definition cosim_set_register :: "'c cpu_api \<Rightarrow> int \<Rightarrow> u32 \<Rightarrow> 'c cosim \<Rightarrow> 'c cosim sim" where
  "cosim_set_register api r val s = each_cpu (api_set_register api r val) (cpus s) s"

definition cosim_set_interrupt :: "'c cpu_api \<Rightarrow> int \<Rightarrow> 'c cosim \<Rightarrow> 'c cosim sim" where
  "cosim_set_interrupt api irq s = each_cpu (api_set_interrupt api irq) (cpus s) s"

definition cosim_enable_trace :: "'c cpu_api \<Rightarrow> u32 \<Rightarrow> 'c cosim \<Rightarrow> 'c cosim sim" where
  "cosim_enable_trace api msk s = each_cpu (\<lambda>c. Inr (api_enable_trace api msk c)) (cpus s) s"

section \<open>Memories\<close>

fun create_each :: "'c cpu_api \<Rightarrow> u32 \<Rightarrow> u32 \<Rightarrow> cosim_mem_item list \<Rightarrow> 'c cosim \<Rightarrow> (bool \<times> 'c cosim) sim" where
  "create_each api addr len [] s = Inr (True, s)"
| "create_each api addr len (it # its) s =
     rbind (api_create_memory api addr len (objs s (mem_obj it))) (\<lambda>(ok, c).
     rbind (create_each api addr len its (upd_obj (mem_obj it) c s)) (\<lambda>(oks, s). Inr (ok \<and> oks, s)))"

definition cosim_create_memory :: "'c cpu_api \<Rightarrow> u32 \<Rightarrow> u32 \<Rightarrow> 'c cosim \<Rightarrow> (bool \<times> 'c cosim) sim" where
  "cosim_create_memory api addr len s = create_each api addr len (mems s) s"

definition mem_holds :: "u32 \<Rightarrow> cosim_mem_item \<Rightarrow> bool" where
  "mem_holds addr it \<longleftrightarrow> mem_base it \<le> addr \<and> addr < mem_base it + mem_size it"

definition cosim_valid_addr :: "u32 \<Rightarrow> 'c cosim \<Rightarrow> bool" where
  "cosim_valid_addr addr s = list_ex (mem_holds addr) (mems s)"

fun write_each :: "'c cpu_api \<Rightarrow> u32 \<Rightarrow> u8 \<Rightarrow> cosim_mem_item list \<Rightarrow> 'c cosim \<Rightarrow> 'c cosim sim" where
  "write_each api addr data [] s = Inr s"
| "write_each api addr data (it # its) s =
     (if mem_holds addr it
      then rbind (api_write api addr data (objs s (mem_obj it))) (\<lambda>c.
        write_each api addr data its (upd_obj (mem_obj it) c s))
      else write_each api addr data its s)"

definition cosim_write :: "'c cpu_api \<Rightarrow> u32 \<Rightarrow> u8 \<Rightarrow> 'c cosim \<Rightarrow> 'c cosim sim" where
  "cosim_write api addr data s = write_each api addr data (mems s) s"

definition cosim_read :: "'c cpu_api \<Rightarrow> u32 \<Rightarrow> 'c cosim \<Rightarrow> u8 sim" where
  "cosim_read api addr s =
     (case find (mem_holds addr) (mems s) of
        Some it \<Rightarrow> api_read api addr (objs s (mem_obj it))
      | None \<Rightarrow> Inr 0)"

text \<open>The loops over the four bytes of a word.\<close>

fun write_bytes :: "'c cpu_api \<Rightarrow> u32 \<Rightarrow> u32 \<Rightarrow> nat list \<Rightarrow> 'c cosim \<Rightarrow> 'c cosim sim" where
  "write_bytes api addr data [] s = Inr s"
| "write_bytes api addr data (i # is) s =
     rbind (cosim_write api (addr + of_nat i) (ucast (drop_bit (i * 8) data)) s)
       (write_bytes api addr data is)"

definition write_word :: "'c cpu_api \<Rightarrow> u32 \<Rightarrow> u32 \<Rightarrow> 'c cosim \<Rightarrow> 'c cosim sim" where
  "write_word api addr data s = write_bytes api addr data [0..<4] s"

fun read_bytes :: "'c cpu_api \<Rightarrow> u32 \<Rightarrow> nat list \<Rightarrow> u32 \<Rightarrow> 'c cosim \<Rightarrow> u32 sim" where
  "read_bytes api addr [] data s = Inr data"
| "read_bytes api addr (i # is) data s =
     rbind (cosim_read api (addr + of_nat i) s) (\<lambda>b.
       read_bytes api addr is (data OR push_bit (i * 8) (ucast b)) s)"

definition read_word :: "'c cpu_api \<Rightarrow> u32 \<Rightarrow> 'c cosim \<Rightarrow> u32 sim" where
  "read_word api addr s = read_bytes api addr [0..<4] 0 s"

section \<open>The simulator as a model\<close>

text \<open>\<open>words\<close> is what a newly allocated array holds, see \<open>create_memory\<close>.\<close>

definition riscv_api :: "(nat \<Rightarrow> u32) \<Rightarrow> riscv cpu_api" where
  "riscv_api words =
     \<lparr>api_reset = rv_reset,
      api_get_fault = m_fault,
      api_get_stopped = m_break,
      api_step = rv_step,
      api_get_opcode = (\<lambda>c. get_opcode (m_pc_x c) c),
      api_get_pc = m_pc_x,
      api_get_reg_valid = (\<lambda>r c. True),
      api_get_register = get_register,
      api_get_num_reg = (\<lambda>c. 32),
      api_set_register = set_register,
      api_set_interrupt = set_interrupt,
      api_enable_trace = (\<lambda>msk c. c\<lparr>m_trace := msk\<rparr>),
      api_event_q = event_q,
      api_set_event_q = (\<lambda>ev q c. c\<lparr>event_q := (event_q c)(ev := q)\<rparr>),
      api_create_memory = create_memory words,
      api_write = rv_write,
      api_read = rv_read\<rparr>"


section \<open>Lock step\<close>

text \<open>What the framework needs of a model to compare it with its copies.\<close>

locale cosim_cpu =
  fixes api :: "'c cpu_api"
  assumes queue_set: "api_event_q api (api_set_event_q api ev q c) ev' =
      (if ev' = ev then q else api_event_q api c ev')"
    and readable: "\<lbrakk>0 \<le> r; r < api_get_num_reg api c\<rbrakk> \<Longrightarrow> \<exists>v. api_get_register api r c = Inr v"

text \<open>The objects attached as processors, and all of them set to one state.\<close>

definition cpu_ids :: "cpu_item list \<Rightarrow> nat set" where
  "cpu_ids its = set (map snd its)"

definition spread :: "cpu_item list \<Rightarrow> 'c \<Rightarrow> 'c cosim \<Rightarrow> 'c cosim" where
  "spread its c s = s\<lparr>objs := (\<lambda>i. if i \<in> cpu_ids its then c else objs s i)\<rparr>"

definition in_step :: "cpu_item list \<Rightarrow> 'c \<Rightarrow> 'c cosim \<Rightarrow> bool" where
  "in_step its c s \<longleftrightarrow> distinct (map snd its) \<and> (\<forall>i \<in> cpu_ids its. objs s i = c)"

definition drain :: "'c cpu_api \<Rightarrow> cosim_event \<Rightarrow> 'c \<Rightarrow> 'c" where
  "drain api ev c =
     (case api_event_q api c ev of [] \<Rightarrow> c | item # q \<Rightarrow> api_set_event_q api ev q c)"

definition drained :: "'c cpu_api \<Rightarrow> 'c \<Rightarrow> 'c" where
  "drained api c =
     drain api COSIM_EVENT_STORE (drain api COSIM_EVENT_LOAD_RESULT (drain api COSIM_EVENT_LOAD c))"

lemma spread_same: "in_step its c s \<Longrightarrow> spread its c s = s"
  by (auto simp: spread_def in_step_def intro!: cosim.equality)

lemma spread_cons:
  "i \<notin> cpu_ids its \<Longrightarrow> spread its c (upd_obj i c s) = spread ((name, i) # its) c s"
  by (auto simp: spread_def upd_obj_def cpu_ids_def intro!: cosim.equality)

lemma in_step_cons:
  assumes "in_step ((name, i) # its) c s"
  shows "objs s i = c" "i \<notin> cpu_ids its" "in_step its c (upd_obj i d s)"
  using assms by (auto simp: in_step_def cpu_ids_def upd_obj_def)

lemma spread_sel [simp]: "cpus (spread its c s) = cpus s" "mems (spread its c s) = mems s"
  by (simp_all add: spread_def)

lemma spread_spread [simp]: "spread its d (spread its c s) = spread its d s"
  by (auto simp: spread_def intro!: cosim.equality)

lemma in_step_spread: "distinct (map snd its) \<Longrightarrow> in_step its c (spread its c s)"
  by (simp add: in_step_def spread_def)

lemma each_cpu_in_step:
  "\<lbrakk>in_step its c s; its \<noteq> []\<rbrakk> \<Longrightarrow> each_cpu f its s = rbind (f c) (\<lambda>d. Inr (spread its d s))"
proof (induction its arbitrary: s)
  case (Cons it its)
  obtain name i where it: "it = (name, i)"
    by (cases it)
  note step = in_step_cons [OF Cons.prems(1) [unfolded it]]
  show ?case
  proof (cases "f c")
    case (Inr d)
    have "each_cpu f its (upd_obj i d s) = Inr (spread its d (upd_obj i d s))"
    proof (cases "its = []")
      case True
      then show ?thesis
        by (auto simp: spread_def cpu_ids_def intro!: cosim.equality)
    next
      case False
      then show ?thesis
        using Cons.IH [OF step(3)] Inr by simp
    qed
    then show ?thesis
      using Inr step by (simp add: it spread_cons)
  qed (simp add: it step)
qed simp

lemma check_all_iff: "check_all f xs = Inr () \<longleftrightarrow> (\<forall>x \<in> set xs. f x = Inr ())"
  by (induction xs) (auto simp: rbind_Inr_iff)

context cosim_cpu
begin

lemma pop_events_in_step:
  "\<lbrakk>in_step its c s; api_event_q api c ev = item # q; prev = None \<or> prev = Some item\<rbrakk> \<Longrightarrow>
    pop_events api ev its prev s = Inr (spread its (api_set_event_q api ev q c) s)"
proof (induction its arbitrary: s prev)
  case Nil
  then show ?case
    by (auto simp: spread_def cpu_ids_def intro!: cosim.equality)
next
  case (Cons it its)
  obtain name i where it: "it = (name, i)"
    by (cases it)
  note step = in_step_cons [OF Cons.prems(1) [unfolded it]]
  have "pop_events api ev its (Some item) (upd_obj i (api_set_event_q api ev q c) s) =
      Inr (spread its (api_set_event_q api ev q c) (upd_obj i (api_set_event_q api ev q c) s))"
    using Cons.IH [OF step(3)] Cons.prems(2) by simp
  then show ?case
    using Cons.prems(2,3) step by (auto simp: it Let_def spread_cons)
qed

lemma compare_events_in_step:
  assumes "in_step (cpus s) c s" "cpus s \<noteq> []"
  shows "compare_events api ev s = Inr (spread (cpus s) (drain api ev c) s)"
proof (cases "api_event_q api c ev")
  case Nil
  then have "\<not> list_all (\<lambda>(name, i). api_event_q api (objs s i) ev \<noteq> []) (cpus s)"
    using assms by (cases "cpus s") (auto simp: in_step_def cpu_ids_def)
  then show ?thesis
    using Nil spread_same [OF assms(1)] by (simp add: compare_events_def drain_def)
next
  case (Cons item q)
  then have "list_all (\<lambda>(name, i). api_event_q api (objs s i) ev \<noteq> []) (cpus s)"
    using assms by (force simp: in_step_def cpu_ids_def list_all_iff)
  then show ?thesis
    using pop_events_in_step [OF assms(1) Cons] Cons by (simp add: compare_events_def drain_def)
qed

lemma compared_in_step:
  assumes "in_step (cpus s) c s" "cpus s \<noteq> []"
  shows "compare_pcs api s = Inr ()" "compare_registers api s = Inr ()"
proof -
  have front: "front s = Inr c"
    using assms by (cases "cpus s") (auto simp: front_def in_step_def cpu_ids_def)
  have same: "objs s i = c" if "(name, i) \<in> set (cpus s)" for name i
    using assms(1) that by (force simp: in_step_def cpu_ids_def)
  show "compare_pcs api s = Inr ()"
    by (auto simp: compare_pcs_def check_all_iff front same)
  have "compare_register api c c r = Inr ()" if "0 \<le> r" "r \<le> api_get_num_reg api c - 1" for r
    using readable [of r c] that by (auto simp: compare_register_def)
  then show "compare_registers api s = Inr ()"
    by (auto simp: compare_registers_def check_all_iff front same)
qed

lemma lock_step:
  assumes "in_step (cpus s) c s" "cpus s \<noteq> []"
  shows "cosim_step api s = rbind (api_step api (drained api c)) (\<lambda>d. Inr (spread (cpus s) d s))"
proof -
  have distinct: "distinct (map snd (cpus s))"
    using assms(1) by (simp add: in_step_def)
  have after: "compare_events api ev (spread (cpus s) d s) = Inr (spread (cpus s) (drain api ev d) s)" for ev d
    using compare_events_in_step [of "spread (cpus s) d s" d ev] in_step_spread [OF distinct, of d s]
      assms(2) by simp
  have steps: "each_cpu (api_step api) (cpus s) (spread (cpus s) d s) =
      rbind (api_step api d) (\<lambda>e. Inr (spread (cpus s) e s))" for d
    using each_cpu_in_step [OF in_step_spread [OF distinct, of d s] assms(2)] by simp
  have compared: "compare_pcs api (spread (cpus s) d s) = Inr ()"
    "compare_registers api (spread (cpus s) d s) = Inr ()" for d
    using compared_in_step [of "spread (cpus s) d s" d] in_step_spread [OF distinct, of d s] assms(2)
    by simp_all
  show ?thesis
    by (cases "api_step api (drained api c)")
      (simp_all add: cosim_step_def compare_events_in_step [OF assms] after steps drained_def [symmetric] compared)
qed

end


interpretation riscv_model: cosim_cpu "riscv_api words"
  by unfold_locales (auto simp: riscv_api_def get_register_def)

text \<open>
  Claim C12. Simulators attached as distinct processors and in one state go through a step of the framework as
  one of them goes through its own step: nothing is reported, no event is lost or left over, and all
  are in the new state.
\<close>

theorem cosim_lock_step:
  assumes "cpus s \<noteq> []" "distinct (map snd (cpus s))" "\<And>name i. (name, i) \<in> set (cpus s) \<Longrightarrow> objs s i = c"
  shows "cosim_step (riscv_api words) s =
    rbind (rv_step (drained (riscv_api words) c)) (\<lambda>d. Inr (spread (cpus s) d s))"
proof -
  have "in_step (cpus s) c s"
    using assms(2,3) by (auto simp: in_step_def cpu_ids_def)
  then have "cosim_step (riscv_api words) s =
      rbind (api_step (riscv_api words) (drained (riscv_api words) c)) (\<lambda>d. Inr (spread (cpus s) d s))"
    using riscv_model.lock_step assms(1) by blast
  then show ?thesis
    by (simp add: riscv_api_def)
qed

text \<open>Conversely a step that reports nothing leaves all simulators with one program counter and
  one register file.\<close>

theorem cosim_step_agrees:
  assumes "cosim_step (riscv_api words) s = Inr s'" "(m, i) \<in> set (cpus s')" "(n, j) \<in> set (cpus s')"
    and "length (m_gpr (objs s' i)) = 32" "length (m_gpr (objs s' j)) = 32"
  shows "m_pc_x (objs s' i) = m_pc_x (objs s' j) \<and> m_gpr (objs s' i) = m_gpr (objs s' j)"
proof -
  obtain f where f: "front s' = Inr f" and pcs: "compare_pcs (riscv_api words) s' = Inr ()"
    and regs: "compare_registers (riscv_api words) s' = Inr ()"
    using assms(1) by (auto simp: cosim_step_def compare_registers_def rbind_Inr_iff)
  have pc: "m_pc_x f = m_pc_x (objs s' k)" if "(l, k) \<in> set (cpus s')" for l k
    using pcs that by (force simp: compare_pcs_def check_all_iff f riscv_api_def split: if_splits)
  have "compare_register (riscv_api words) f (objs s' k) (int r) = Inr ()"
    if "(l, k) \<in> set (cpus s')" "r < 32" for l k r
    using regs that by (force simp: compare_registers_def check_all_iff f riscv_api_def)
  then have reg: "m_gpr f ! r = m_gpr (objs s' k) ! r" if "(l, k) \<in> set (cpus s')" "r < 32" for l k r
    using that by (fastforce simp: compare_register_def riscv_api_def get_register_def split: if_splits)
  have "m_gpr (objs s' i) = m_gpr (objs s' j)"
    using assms(4,5) reg [OF assms(2)] reg [OF assms(3)] by (intro nth_equalityI) auto
  then show ?thesis
    using pc [OF assms(2)] pc [OF assms(3)] by simp
qed

section \<open>Memory\<close>

text \<open>
  A model's memory as the framework uses it: \<open>view\<close> is the byte at each address that has one,
  \<open>room\<close> how many more regions it takes, \<open>inv\<close> what its operations keep.
\<close>

locale cosim_memory =
  fixes api :: "'c cpu_api" and view :: "'c \<Rightarrow> u32 \<Rightarrow> u8 option" and room :: "'c \<Rightarrow> nat"
    and inv :: "'c \<Rightarrow> bool"
  assumes read_law: "\<lbrakk>inv c; view c a = Some b\<rbrakk> \<Longrightarrow> api_read api a c = Inr b"
    and write_law: "\<lbrakk>inv c; view c a \<noteq> None\<rbrakk> \<Longrightarrow>
      \<exists>d. api_write api a b c = Inr d \<and> inv d \<and> room d = room c \<and> view d = (view c)(a \<mapsto> b)"
    and create_law: "\<lbrakk>inv c; 0 < room c; unat base + unat len < 2 ^ 32; unat len < 2 ^ 31 - 3\<rbrakk> \<Longrightarrow>
      \<exists>d. api_create_memory api base len c = Inr (True, d) \<and> inv d \<and> room d = room c - 1 \<and>
        view d = (\<lambda>a. if view c a = None \<and> base \<le> a \<and> a < base + len then Some 0 else view c a)"

text \<open>The simulator's regions as such a memory.\<close>

definition region_fits :: "mem_region \<Rightarrow> bool" where
  "region_fits r \<longleftrightarrow> unat (m_mem_base r) + unat (m_mem_size r) < 2 ^ 32 \<and>
     unat (m_mem_size r) \<le> 4 * length (Mem (m_mem r))"

definition regions_fit :: "riscv \<Rightarrow> bool" where
  "regions_fit c \<longleftrightarrow> list_all region_fits (m_regions c)"

definition region_room :: "riscv \<Rightarrow> nat" where
  "region_room c = 16 - length (m_regions c)"

lemma byte_access:
  assumes "regions_fit c" "region_of a (m_regions c) 0 = Some j" and r_def: "r = m_regions c ! j"
  shows "j < length (m_regions c)" "region_fits r" "access_ok (m_mem r) (a - m_mem_base r) 1"
    "m_mem_base r \<le> a" "a < m_mem_base r + m_mem_size r"
proof -
  show j: "j < length (m_regions c)"
    using region_of_some [OF assms(2)] by simp
  then show fits: "region_fits r"
    using assms(1) by (simp add: regions_fit_def list_all_length r_def)
  have "in_region a r"
    using region_of_some [OF assms(2)] by (simp add: r_def)
  then show base: "m_mem_base r \<le> a" and top: "a < m_mem_base r + m_mem_size r"
    by (simp_all add: in_region_def)
  have "unat (a - m_mem_base r) < unat (m_mem_size r)"
    using base top fits by (simp add: region_fits_def word_le_nat_alt word_less_nat_alt unat_add_small unat_sub)
  then show "access_ok (m_mem r) (a - m_mem_base r) 1"
    using fits by (simp add: access_ok_def region_fits_def)
qed

lemma read_byte:
  assumes "regions_fit c" "byte_at c a = Some b"
  shows "rv_read a c = Inr b"
proof -
  obtain j where j: "region_of a (m_regions c) 0 = Some j"
    using assms(2) by (auto simp: byte_at_def)
  define r where "r = m_regions c ! j"
  note access = byte_access [OF assms(1) j r_def]
  have "mem_load (m_mem r) (a - m_mem_base r) 1 False = Inr (ucast b)"
    using mem_load_bytes [OF access(3), of False] assms(2) j
    by (simp add: byte_at_def r_def Let_def le_load_def)
  then show ?thesis
    by (simp add: rv_read_def j region_load_def r_def Let_def)
qed

lemma write_byte:
  assumes "regions_fit c" "byte_at c a \<noteq> None"
  shows "\<exists>d. rv_write a b c = Inr d \<and> regions_fit d \<and> region_room d = region_room c \<and>
    byte_at d = (byte_at c)(a \<mapsto> b)"
proof -
  obtain j where j: "region_of a (m_regions c) 0 = Some j"
    using assms(2) by (auto simp: byte_at_def)
  define r where "r = m_regions c ! j"
  note access = byte_access [OF assms(1) j r_def]
  obtain m where m: "mem_store (m_mem r) (a - m_mem_base r) (ucast b) 1 = Inr m"
    "mem_byte m = le_store (mem_byte (m_mem r)) (unat (a - m_mem_base r)) 1 (ucast b)"
    "length (Mem m) = length (Mem (m_mem r))"
    using mem_store_bytes [OF access(3), of "ucast b"] by blast
  let ?d = "c\<lparr>m_regions := (m_regions c)[j := r\<lparr>m_mem := m\<rparr>]\<rparr>"
  have "rv_write a b c = Inr ?d"
    using m(1) by (simp add: rv_write_def j region_store_def r_def Let_def)
  moreover have "regions_fit ?d"
    using assms(1) access(1,2) m(3)
    by (auto simp: regions_fit_def list_all_length nth_list_update region_fits_def)
  moreover have "byte_at ?d x = ((byte_at c)(a \<mapsto> b)) x" for x
  proof -
    have same: "region_of x (m_regions ?d) 0 = region_of x (m_regions c) 0"
      by (simp add: region_of_set r_def)
    have inside: "unat (x - m_mem_base r) = unat (a - m_mem_base r) \<longleftrightarrow> x = a"
      by (metis diff_add_cancel word_unat_eq_iff)
    show ?thesis
    proof (cases "region_of x (m_regions c) 0 = Some j")
      case True
      then show ?thesis
        using access(1) inside m(2)
        by (auto simp: byte_at_def r_def Let_def le_store_def region_of_set less_Suc_eq_le)
    next
      case False
      then show ?thesis
        using j by (cases "region_of x (m_regions c) 0") (auto simp: byte_at_def Let_def region_of_set r_def)
    qed
  qed
  ultimately show ?thesis
    by (auto simp: region_room_def)
qed

lemma region_of_append:
  "region_of a (rs @ [r]) k = (case region_of a rs k of Some j \<Rightarrow> Some j
     | None \<Rightarrow> if in_region a r then Some (k + length rs) else None)"
  by (induction rs arbitrary: k) (auto split: option.splits)

lemma create_region:
  assumes "regions_fit c" "0 < region_room c" "unat base + unat len < 2 ^ 32" "unat len < 2 ^ 31 - 3"
  shows "\<exists>d. create_memory words base len c = Inr (True, d) \<and> regions_fit d \<and>
    region_room d = region_room c - 1 \<and>
    byte_at d = (\<lambda>a. if byte_at c a = None \<and> base \<le> a \<and> a < base + len then Some 0 else byte_at c a)"
proof -
  define r where "r = \<lparr>m_mem = mem_reset (SimpleMemory words (unat len)), m_mem_base = base, m_mem_size = len\<rparr>"
  let ?d = "c\<lparr>m_regions := m_regions c @ [r]\<rparr>"
  have "create_memory words base len c = Inr (True, ?d)"
    using assms(2,4) by (simp add: create_memory_def attach_memory_def region_room_def r_def)
  moreover have fits: "region_fits r"
  proof -
    have "unat len \<le> 4 * ((unat len + 3) div 4)"
      by linarith
    then show ?thesis
      using assms(3) by (simp add: region_fits_def r_def mem_reset_def SimpleMemory_def)
  qed
  then have "regions_fit ?d"
    using assms(1) by (simp add: regions_fit_def)
  moreover have "byte_at ?d a = (if byte_at c a = None \<and> base \<le> a \<and> a < base + len then Some 0
      else byte_at c a)" for a
  proof (cases "region_of a (m_regions c) 0")
    case None
    have "mem_byte (m_mem r) (unat (a - base)) = 0" if "base \<le> a" "a < base + len"
    proof -
      have "unat (a - base) < unat len"
        using that assms(3) by (simp add: word_le_nat_alt word_less_nat_alt unat_add_small unat_sub)
      then show ?thesis
        by (simp add: r_def reset_bytes)
    qed
    then show ?thesis
      using None by (auto simp: byte_at_def region_of_append in_region_def r_def Let_def)
  next
    case (Some j)
    then have "j < length (m_regions c)"
      using region_of_some [OF Some] by simp
    then show ?thesis
      using Some by (simp add: byte_at_def region_of_append nth_append Let_def)
  qed
  ultimately show ?thesis
    by (auto simp: region_room_def fun_eq_iff)
qed

interpretation riscv_memory: cosim_memory "riscv_api words" byte_at region_room regions_fit
  using read_byte write_byte create_region by unfold_locales (simp_all add: riscv_api_def)

text \<open>One memory is attached; the addresses it holds are those of the framework.\<close>

definition one_memory :: "nat \<Rightarrow> 'c cosim \<Rightarrow> bool" where
  "one_memory i s \<longleftrightarrow> (\<exists>it. mems s = [it] \<and> mem_obj it = i)"

lemma word_of_bytes:
  "fold (\<lambda>k v. v OR push_bit (k * 8) (ucast (ucast (drop_bit (k * 8) w) :: u8))) [0, 1, 2, 3] 0 = (w :: u32)"
  by (rule bits_eqI) (auto simp: bit_simps; (linarith | (rule ccontr, simp)))

definition byte_store :: "u32 \<Rightarrow> u32 \<Rightarrow> nat \<Rightarrow> (u32 \<Rightarrow> u8 option) \<Rightarrow> u32 \<Rightarrow> u8 option" where
  "byte_store a w k m = m(a + of_nat k \<mapsto> ucast (drop_bit (k * 8) w))"

lemma byte_store_kept: "m b \<noteq> None \<Longrightarrow> byte_store a w k m b \<noteq> None"
  by (simp add: byte_store_def)

context cosim_memory
begin

lemma cosim_read_view:
  assumes "one_memory i s" "cosim_valid_addr a s" "inv (objs s i)" "view (objs s i) a = Some b"
  shows "cosim_read api a s = Inr b"
  using assms read_law by (auto simp: one_memory_def cosim_valid_addr_def cosim_read_def)

lemma cosim_write_view:
  assumes "one_memory i s" "cosim_valid_addr a s" "inv (objs s i)" "view (objs s i) a \<noteq> None"
  shows "\<exists>d. cosim_write api a b s = Inr (upd_obj i d s) \<and> inv d \<and> room d = room (objs s i) \<and>
    view d = (view (objs s i))(a \<mapsto> b)"
  using assms(1,2) write_law [OF assms(3,4), of b]
  by (auto simp: one_memory_def cosim_valid_addr_def cosim_write_def)

lemma cosim_create_view:
  assumes "one_memory i s" "inv (objs s i)" "0 < room (objs s i)" "unat base + unat len < 2 ^ 32"
    and "unat len < 2 ^ 31 - 3"
  shows "\<exists>d. cosim_create_memory api base len s = Inr (True, upd_obj i d s) \<and> inv d \<and>
    room d = room (objs s i) - 1 \<and> view d = (\<lambda>a. if view (objs s i) a = None \<and> base \<le> a \<and> a < base + len
      then Some 0 else view (objs s i) a)"
  using assms(1) create_law [OF assms(2-5)] by (auto simp: one_memory_def cosim_create_memory_def)

lemma upd_obj_sel [simp]:
  "objs (upd_obj i c s) i = c" "mems (upd_obj i c s) = mems s" "cpus (upd_obj i c s) = cpus s"
  "upd_obj i d (upd_obj i c s) = upd_obj i d s"
  by (simp_all add: upd_obj_def)

lemma one_memory_upd [simp]:
  "one_memory i (upd_obj j c s) = one_memory i s" "cosim_valid_addr a (upd_obj j c s) = cosim_valid_addr a s"
  by (simp_all add: one_memory_def cosim_valid_addr_def)

text \<open>The bytes that a word is written as, in the order of the loop.\<close>

lemma write_bytes_view:
  assumes "one_memory i s" "inv (objs s i)"
    and "\<And>k. k \<in> set ks \<Longrightarrow> cosim_valid_addr (a + of_nat k) s \<and> view (objs s i) (a + of_nat k) \<noteq> None"
  shows "\<exists>d. write_bytes api a w ks s = Inr (upd_obj i d s) \<and> inv d \<and>
    view d = fold (byte_store a w) ks (view (objs s i))"
  using assms
proof (induction ks arbitrary: s)
  case Nil
  have "upd_obj i (objs s i) s = s"
    by (simp add: upd_obj_def)
  then show ?case
    using Nil.prems by (metis fold_simps(1) write_bytes.simps(1))
next
  case (Cons k ks)
  obtain d where d: "cosim_write api (a + of_nat k) (ucast (drop_bit (k * 8) w)) s = Inr (upd_obj i d s)"
    "inv d" "view d = byte_store a w k (view (objs s i))"
    using cosim_write_view [OF Cons.prems(1) _ Cons.prems(2), of "a + of_nat k"] Cons.prems(3) [of k]
    by (auto simp: byte_store_def)
  have "\<exists>e. write_bytes api a w ks (upd_obj i d s) = Inr (upd_obj i e s) \<and> inv e \<and>
      view e = fold (byte_store a w) ks (view d)"
    using Cons.IH [of "upd_obj i d s"] Cons.prems d(2) byte_store_kept by (simp add: d(3))
  then show ?case
    using d by auto
qed

lemma read_bytes_view:
  assumes "one_memory i s" "inv (objs s i)"
    and "\<And>k. k \<in> set ks \<Longrightarrow> cosim_valid_addr (a + of_nat k) s \<and> view (objs s i) (a + of_nat k) = Some (b k)"
  shows "read_bytes api a ks w s = Inr (fold (\<lambda>k w. w OR push_bit (k * 8) (ucast (b k))) ks w)"
  using assms
proof (induction ks arbitrary: w)
  case (Cons k ks)
  have "cosim_read api (a + of_nat k) s = Inr (b k)"
    using cosim_read_view Cons.prems by simp
  then show ?case
    using Cons by simp
qed simp

lemma word_round_trip:
  assumes "one_memory i s" "inv (objs s i)"
    and "\<And>k. k < 4 \<Longrightarrow> cosim_valid_addr (a + of_nat k) s \<and> view (objs s i) (a + of_nat k) \<noteq> None"
  shows "\<exists>s'. write_word api a w s = Inr s' \<and> read_word api a s' = Inr w"
proof -
  obtain d where d: "write_word api a w s = Inr (upd_obj i d s)" "inv d"
    "view d = fold (byte_store a w) [0..<4] (view (objs s i))"
    using write_bytes_view [OF assms(1,2), of "[0..<4]" a w] assms(3) by (auto simp: write_word_def)
  have four: "[0..<4] = [0, 1, 2, 3 :: nat]"
    by code_simp
  have "view d (a + of_nat k) = Some (ucast (drop_bit (k * 8) w))" if "k \<in> set [0..<4]" for k
    using that unfolding d(3) four by (auto simp: byte_store_def)
  then have "read_word api a (upd_obj i d s) =
      Inr (fold (\<lambda>k v. v OR push_bit (k * 8) (ucast (ucast (drop_bit (k * 8) w) :: u8))) [0..<4] 0)"
    using assms(1,3) d(2) unfolding read_word_def by (intro read_bytes_view) auto
  also have "\<dots> = Inr w"
    unfolding four word_of_bytes ..
  finally show ?thesis
    using d(1) by blast
qed

end

text \<open>
  A word written through the framework to the memory of the simulator is read back, at any address,
  aligned or not, whose four bytes lie in its regions.
\<close>

theorem write_read_word:
  assumes "one_memory i s" "regions_fit (objs s i)"
    and "\<And>k. k < 4 \<Longrightarrow> cosim_valid_addr (a + of_nat k) s \<and> byte_at (objs s i) (a + of_nat k) \<noteq> None"
  shows "\<exists>s'. write_word (riscv_api words) a w s = Inr s' \<and> read_word (riscv_api words) a s' = Inr w"
  using assms by (rule riscv_memory.word_round_trip)

section \<open>Two simulators\<close>

text \<open>The simulator attached twice as a processor, and once as the memory of the framework.\<close>

definition demo_cosim :: "riscv cosim" where
  "demo_cosim = attach_mem ''sim'' 0 0 0xFFFFFFFF (attach_cpu ''ref'' 1 (attach_cpu ''sim'' 0
     \<lparr>objs = (\<lambda>i. demo_machine), cpus = [], mems = []\<rparr>))"

lemma demo_cosim_sel:
  "cpus demo_cosim = [(''sim'', 0), (''ref'', 1)]" "objs demo_cosim i = demo_machine"
  "one_memory 0 demo_cosim" "cosim_valid_addr a demo_cosim \<longleftrightarrow> a < 0xFFFFFFFF"
  by (simp_all add: demo_cosim_def attach_mem_def attach_cpu_def one_memory_def cosim_valid_addr_def
      mem_holds_def)

lemma demo_fits: "regions_fit demo_machine"
  by (simp add: regions_fit_def region_fits_def demo_machine_def demo_program_def rv_reset_def stats_reset_def)

lemma demo_step: "\<exists>d. rv_step demo_machine = Inr d \<and> regs_ok d"
proof -
  obtain c' where "rv_steps 2 demo_machine = Inr c'"
    using demo_runs steps_ref [OF demo_machine_ok] by blast
  then obtain d where d: "rv_step demo_machine = Inr d"
    by (auto simp: numeral_2_eq_2 rbind_Inr_iff)
  have "cpu_ok (layout demo_machine) demo_machine"
    using demo_machine_ok by (simp add: machine_ok_def cpu_ok_def irqs_only_def demo_machine_def
        rv_reset_def stats_reset_def)
  then show ?thesis
    using step_ok [OF d] d by (auto simp: cpu_ok_def)
qed

lemma demo_drained: "drained (riscv_api words) demo_machine = demo_machine"
  by (simp add: drained_def drain_def riscv_api_def demo_machine_def rv_reset_def stats_reset_def)

lemma demo_cosim_step:
  "\<exists>d. rv_step demo_machine = Inr d \<and> regs_ok d \<and>
    rbind (rv_step (drained (riscv_api words) demo_machine))
      (\<lambda>d. Inr (spread (cpus demo_cosim) d demo_cosim)) = Inr (spread (cpus demo_cosim) d demo_cosim)"
  using demo_step by (auto simp: demo_drained)

theorem cosim_lock_step_witness:
  "\<exists>d s'. rv_step demo_machine = Inr d \<and> cosim_step (riscv_api (\<lambda>i. 0)) demo_cosim = Inr s' \<and>
    objs s' 0 = d \<and> objs s' 1 = d"
proof -
  obtain d where d: "rv_step demo_machine = Inr d" "rbind (rv_step (drained (riscv_api (\<lambda>i. 0)) demo_machine))
      (\<lambda>d. Inr (spread (cpus demo_cosim) d demo_cosim)) = Inr (spread (cpus demo_cosim) d demo_cosim)"
    using demo_cosim_step by blast
  have "cosim_step (riscv_api (\<lambda>i. 0)) demo_cosim = Inr (spread (cpus demo_cosim) d demo_cosim)"
    using cosim_lock_step [of demo_cosim demo_machine "\<lambda>i. 0"] d(2) by (simp add: demo_cosim_sel)
  then show ?thesis
    using d(1) by (auto simp: spread_def cpu_ids_def demo_cosim_sel)
qed

theorem cosim_step_agrees_witness:
  "\<exists>s'. cosim_step (riscv_api (\<lambda>i. 0)) demo_cosim = Inr s' \<and> m_gpr (objs s' 0) = m_gpr (objs s' 1)"
proof -
  obtain d where d: "regs_ok d" "rbind (rv_step (drained (riscv_api (\<lambda>i. 0)) demo_machine))
      (\<lambda>d. Inr (spread (cpus demo_cosim) d demo_cosim)) = Inr (spread (cpus demo_cosim) d demo_cosim)"
    using demo_cosim_step by blast
  let ?s = "spread (cpus demo_cosim) d demo_cosim"
  have "in_step (cpus demo_cosim) demo_machine demo_cosim"
    by (simp add: in_step_def demo_cosim_sel)
  then have step: "cosim_step (riscv_api (\<lambda>i. 0)) demo_cosim = Inr ?s"
    using riscv_model.lock_step [of demo_cosim demo_machine "\<lambda>i. 0"] d(2)
    by (simp add: demo_cosim_sel riscv_api_def)
  have "length (m_gpr d) = 32"
    using d(1) by (simp add: regs_ok_def)
  then have "m_gpr (objs ?s 0) = m_gpr (objs ?s 1)"
    using cosim_step_agrees [OF step, of "''sim''" 0 "''ref''" 1]
    by (simp add: spread_def cpu_ids_def demo_cosim_sel)
  then show ?thesis
    using step by blast
qed

theorem write_read_word_witness:
  "\<exists>s'. write_word (riscv_api (\<lambda>i. 0)) 5 0xdeadbeef demo_cosim = Inr s' \<and>
    read_word (riscv_api (\<lambda>i. 0)) 5 s' = Inr 0xdeadbeef"
proof -
  have "cosim_valid_addr (5 + of_nat k) demo_cosim \<and> byte_at demo_machine (5 + of_nat k) \<noteq> None"
    if "k < 4" for k
  proof -
    have "k \<in> {0, 1, 2, 3}"
      using that by auto
    then show ?thesis
      by (auto simp: demo_cosim_sel demo_bytes)
  qed
  then show ?thesis
    using write_read_word [of 0 demo_cosim 5 "\<lambda>i. 0" "0xdeadbeef"] by (simp add: demo_cosim_sel demo_fits)
qed

end
