(* ===== verification/Riscv_Main.thy ===== *)
theory Riscv_Main
  imports Riscv_Cosim
begin

text \<open>
  The simulator as a program (\<open>main.cpp\<close>, \<open>riscv_main.cpp\<close>, \<open>elf_load.cpp\<close> and the exit
  of \<open>cosim_api.cpp\<close>): the sections of an executable are loaded, the processor is reset to the
  entry point and runs until it stops. What the library reads from the file, and the parsed
  options, are parameters.
\<close>

section \<open>Loading an executable\<close>

record elf_section =
  sh_flags :: u32
  sh_type :: u32
  sh_addr :: u32
  sh_size :: u32
  d_buf :: "u8 list"

definition SHF_ALLOC :: u32 where "SHF_ALLOC = 2"
definition SHT_PROGBITS :: u32 where "SHT_PROGBITS = 1"

fun load_bytes :: "(u32 \<Rightarrow> u8 \<Rightarrow> 's \<Rightarrow> (bool \<times> 's) sim) \<Rightarrow> u32 \<Rightarrow> u8 list \<Rightarrow> 's \<Rightarrow> (bool \<times> 's) sim" where
  "load_bytes fn_load addr [] s = Inr (True, s)"
| "load_bytes fn_load addr (b # bs) s =
     rbind (fn_load addr b s) (\<lambda>(ok, s).
       if \<not> ok then Inr (False, s) else load_bytes fn_load (addr + 1) bs s)"

text \<open>The data the library returns for a section has its size; a shorter buffer is read beyond its end.\<close>

definition load_section ::
  "(u32 \<Rightarrow> u32 \<Rightarrow> 's \<Rightarrow> (bool \<times> 's) sim) \<Rightarrow> (u32 \<Rightarrow> u8 \<Rightarrow> 's \<Rightarrow> (bool \<times> 's) sim) \<Rightarrow>
    elf_section \<Rightarrow> 's \<Rightarrow> (bool \<times> 's) sim" where
  "load_section fn_create fn_load shdr s =
     (if sh_flags shdr AND SHF_ALLOC \<noteq> 0 \<and> 0 < sh_size shdr then
        rbind (fn_create (sh_addr shdr) (sh_size shdr) s) (\<lambda>(ok, s).
          if \<not> ok then Inr (False, s)
          else if sh_type shdr = SHT_PROGBITS then
            if length (d_buf shdr) < unat (sh_size shdr) then Inl Undefined
            else load_bytes fn_load (sh_addr shdr) (take (unat (sh_size shdr)) (d_buf shdr)) s
          else Inr (True, s))
      else Inr (True, s))"

fun load_sections ::
  "(u32 \<Rightarrow> u32 \<Rightarrow> 's \<Rightarrow> (bool \<times> 's) sim) \<Rightarrow> (u32 \<Rightarrow> u8 \<Rightarrow> 's \<Rightarrow> (bool \<times> 's) sim) \<Rightarrow>
    elf_section list \<Rightarrow> 's \<Rightarrow> (bool \<times> 's) sim" where
  "load_sections fn_create fn_load [] s = Inr (True, s)"
| "load_sections fn_create fn_load (shdr # scns) s =
     rbind (load_section fn_create fn_load shdr s) (\<lambda>(ok, s).
       if \<not> ok then Inr (False, s) else load_sections fn_create fn_load scns s)"

text \<open>
  \<open>file\<close> is the entry point and the sections, or \<open>None\<close> when the library cannot open the file as
  an ELF file. The result is the return value and the entry point.
\<close>

definition elf_load ::
  "(u32 \<times> elf_section list) option \<Rightarrow> (u32 \<Rightarrow> u32 \<Rightarrow> 's \<Rightarrow> (bool \<times> 's) sim) \<Rightarrow>
    (u32 \<Rightarrow> u8 \<Rightarrow> 's \<Rightarrow> (bool \<times> 's) sim) \<Rightarrow> 's \<Rightarrow> (bool \<times> u32 \<times> 's) sim" where
  "elf_load file fn_create fn_load s =
     (case file of
        None \<Rightarrow> Inr (False, 0, s)
      | Some (e_entry, scns) \<Rightarrow>
          rbind (load_sections fn_create fn_load scns s) (\<lambda>(ok, s). Inr (ok, e_entry, s)))"

text \<open>
  The first symbol of that name; \<open>symtab\<close> is the symbol table, \<open>None\<close> when there is no object
  file. Without an option for the name, \<open>strcmp\<close> is given a null pointer.
\<close>

definition elf_get_symbol :: "(string \<times> int) list option \<Rightarrow> string option \<Rightarrow> int sim" where
  "elf_get_symbol symtab symname =
     (case symtab of
        None \<Rightarrow> Inr (- 1)
      | Some [] \<Rightarrow> Inr (- 1)
      | Some syms \<Rightarrow> (case symname of
            None \<Rightarrow> Inl Undefined
          | Some n \<Rightarrow> (case find (\<lambda>(name, v). name = n) syms of
                Some (name, v) \<Rightarrow> Inr v | None \<Rightarrow> Inr (- 1))))"

text \<open>The callbacks of \<open>riscv_main.cpp\<close>.\<close>

definition main_mem_create :: "'c cpu_api \<Rightarrow> u32 \<Rightarrow> u32 \<Rightarrow> 'c cosim \<Rightarrow> (bool \<times> 'c cosim) sim" where
  "main_mem_create api = cosim_create_memory api"

definition main_mem_load :: "'c cpu_api \<Rightarrow> u32 \<Rightarrow> u8 \<Rightarrow> 'c cosim \<Rightarrow> (bool \<times> 'c cosim) sim" where
  "main_mem_load api addr data s =
     rbind (cosim_write api addr data s) (\<lambda>s. Inr (cosim_valid_addr addr s, s))"

section \<open>Running\<close>

text \<open>
  The loop of \<open>riscv_main\<close>, which may run for ever: \<open>None\<close>. \<open>sim\<close> is the processor itself, and
  the two program counters are those read before each step.
\<close>

record run_opts =
  max_cycles :: int
  stop_pc :: u32
  trace_pc :: u32
  trace_mask :: u32

partial_function (option) run_loop ::
  "'c cpu_api \<Rightarrow> run_opts \<Rightarrow> u32 \<Rightarrow> u32 \<Rightarrow> 'c \<Rightarrow> 'c sim option" where
  "run_loop api opts current_pc cycles sim =
     (if \<not> api_get_fault api sim \<and> \<not> api_get_stopped api sim \<and> current_pc \<noteq> stop_pc opts then
        (case api_step api sim of
           Inl e \<Rightarrow> Some (Inl e)
         | Inr sim' \<Rightarrow>
             if max_cycles opts \<noteq> - 1 \<and> word_of_int (max_cycles opts) = cycles + 1 then Some (Inr sim')
             else run_loop api opts (api_get_pc api sim) (cycles + 1)
               (if trace_pc opts = api_get_pc api sim then api_enable_trace api (trace_mask opts) sim'
                else sim'))
      else Some (Inr sim))"

text \<open>
  The memory dump on exit: the bytes read, and the words of the signature file, each line four words
  with the highest address first. \<open>new uint8_t[dump_size]\<close> with a negative size throws.
\<close>

fun dump_bytes :: "'c cpu_api \<Rightarrow> u32 \<Rightarrow> nat \<Rightarrow> 'c cosim \<Rightarrow> u8 list sim" where
  "dump_bytes api addr 0 s = Inr []"
| "dump_bytes api addr (Suc n) s =
     rbind (cosim_read api addr s) (\<lambda>b. rbind (dump_bytes api (addr + 1) n s) (\<lambda>bs. Inr (b # bs)))"

definition signature_line :: "u8 list \<Rightarrow> nat \<Rightarrow> u32 list" where
  "signature_line buffer r =
     map (\<lambda>c. le_value (\<lambda>k. buffer ! k) (r * 16 + (12 - c)) 4) [0, 4, 8, 12]"

datatype dump_output = Binary "u8 list" | Signature "u32 list list"

text \<open>\<open>strrchr\<close> finds the last dot.\<close>

definition has_extension :: "string \<Rightarrow> string \<Rightarrow> bool" where
  "has_extension ext name \<longleftrightarrow> (case dropWhile (\<lambda>c. c \<noteq> CHR ''.'') (rev name) of
     [] \<Rightarrow> False | c # cs \<Rightarrow> rev (takeWhile (\<lambda>c. c \<noteq> CHR ''.'') (rev name)) = ext)"

definition dump_memory :: "'c cpu_api \<Rightarrow> string \<Rightarrow> u32 \<Rightarrow> u32 \<Rightarrow> 'c cosim \<Rightarrow> dump_output sim" where
  "dump_memory api dump_file dump_start dump_end s =
     (let dump_size = sint (dump_end - dump_start)
      in if dump_size < 0 then Inl Undefined
         else rbind (dump_bytes api dump_start (nat dump_size) s) (\<lambda>buffer.
           Inr (if has_extension ''output'' dump_file
                then Signature (map (signature_line buffer) [0..<nat dump_size div 16])
                else Binary buffer)))"

text \<open>\<open>at_exit\<close>: the file it writes, if any, and the exit code.\<close>

definition at_exit ::
  "'c cpu_api \<Rightarrow> (string \<times> u32 \<times> u32) option \<Rightarrow> bool \<Rightarrow> 'c cosim \<Rightarrow> (dump_output option \<times> int) sim" where
  "at_exit api dump exit_code s =
     rbind (case dump of
        None \<Rightarrow> Inr None
      | Some (file, first, end) \<Rightarrow> rbind (dump_memory api file first end s) (\<lambda>out. Inr (Some out)))
       (\<lambda>out. Inr (out, of_bool exit_code))"

record main_opts = run_opts +
  trace_on :: bool
  mem_args :: "(u32 \<times> u32) option"
  dump_args :: "(string \<times> string option \<times> string option) option"

text \<open>
  \<open>riscv_main\<close> behind the parsing of the options, for the object \<open>i\<close> attached as \<open>main\<close> does. The
  result is the dump and the exit code; \<open>at_exit\<close> exits, so the statements behind it are not
  reached, and a file that cannot be loaded gives the return value 0 or 1.
\<close>

definition riscv_main ::
  "'c cpu_api \<Rightarrow> main_opts \<Rightarrow> (u32 \<times> elf_section list) option \<Rightarrow> (string \<times> int) list option \<Rightarrow> nat \<Rightarrow>
    'c cosim \<Rightarrow> (dump_output option \<times> int) sim option" where
  "riscv_main api opts file symtab i s =
     (case rbind (case mem_args opts of
             None \<Rightarrow> Inr s
           | Some (base, len) \<Rightarrow> rbind (main_mem_create api base len s) (\<lambda>(ok, s). Inr s))
           (elf_load file (main_mem_create api) (main_mem_load api)) of
        Inl e \<Rightarrow> Some (Inl e)
      | Inr (False, start_addr, s) \<Rightarrow> Some (Inr (None, of_bool (api_get_fault api (objs s i))))
      | Inr (True, start_addr, s) \<Rightarrow>
          (case (case dump_args opts of
                   None \<Rightarrow> Inr None
                 | Some (file, first, end) \<Rightarrow>
                     rbind (elf_get_symbol symtab first) (\<lambda>a. rbind (elf_get_symbol symtab end) (\<lambda>b.
                       Inr (Some (file, word_of_int a, word_of_int b))))) of
             Inl e \<Rightarrow> Some (Inl e)
           | Inr dump \<Rightarrow>
               let sim = api_reset api start_addr (objs s i);
                   sim = (if trace_on opts then api_enable_trace api (trace_mask opts) sim else sim)
               in (case run_loop api (run_opts.truncate opts) 0 0 sim of
                     None \<Rightarrow> None
                   | Some (Inl e) \<Rightarrow> Some (Inl e)
                   | Some (Inr sim) \<Rightarrow>
                       Some (at_exit api dump (api_get_fault api sim) (upd_obj i sim s)))))"

text \<open>
  \<open>main\<close>: the simulator is made without memory and attached as processor and as memory. \<open>c\<close> is
  what the object holds before the constructor runs, but for its empty queues.
\<close>

definition new_riscv :: "riscv \<Rightarrow> riscv" where
  "new_riscv c = rv_reset 0 (c\<lparr>m_regions := [], m_console := None, m_has_breakpoints := False,
     m_breakpoints := [], event_q := (\<lambda>ev. [])\<rparr>)"

definition sim_main ::
  "(nat \<Rightarrow> u32) \<Rightarrow> main_opts \<Rightarrow> (u32 \<times> elf_section list) option \<Rightarrow> (string \<times> int) list option \<Rightarrow>
    riscv \<Rightarrow> (dump_output option \<times> int) sim option" where
  "sim_main words opts file symtab c =
     riscv_main (riscv_api words) opts file symtab 0
       (attach_mem ''sim'' 0 0 0xFFFFFFFF (attach_cpu ''sim'' 0
         \<lparr>objs = (\<lambda>i. new_riscv c), cpus = [], mems = []\<rparr>))"

section \<open>The image in memory\<close>

text \<open>What loading a section makes of the memory: its bytes, or zeros where there was none.\<close>

definition place :: "u32 \<Rightarrow> u8 list \<Rightarrow> (u32 \<Rightarrow> u8 option) \<Rightarrow> u32 \<Rightarrow> u8 option" where
  "place addr bs m = (\<lambda>a. if unat (a - addr) < length bs then Some (bs ! unat (a - addr)) else m a)"

definition allocated :: "elf_section \<Rightarrow> bool" where
  "allocated shdr \<longleftrightarrow> sh_flags shdr AND SHF_ALLOC \<noteq> 0 \<and> 0 < sh_size shdr"

definition cleared :: "u32 \<Rightarrow> nat \<Rightarrow> (u32 \<Rightarrow> u8 option) \<Rightarrow> u32 \<Rightarrow> u8 option" where
  "cleared addr n m = (\<lambda>a. if m a = None \<and> unat (a - addr) < n then Some 0 else m a)"

definition section_image :: "elf_section \<Rightarrow> (u32 \<Rightarrow> u8 option) \<Rightarrow> u32 \<Rightarrow> u8 option" where
  "section_image shdr m =
     (if \<not> allocated shdr then m
      else if sh_type shdr = SHT_PROGBITS
      then place (sh_addr shdr) (take (unat (sh_size shdr)) (d_buf shdr)) m
      else cleared (sh_addr shdr) (unat (sh_size shdr)) m)"

definition section_ok :: "'c cosim \<Rightarrow> elf_section \<Rightarrow> bool" where
  "section_ok s shdr \<longleftrightarrow> (allocated shdr \<longrightarrow>
     unat (sh_addr shdr) + unat (sh_size shdr) < 2 ^ 32 \<and> unat (sh_size shdr) < 2 ^ 31 - 3 \<and>
     (\<forall>k < unat (sh_size shdr). cosim_valid_addr (sh_addr shdr + of_nat k) s) \<and>
     (sh_type shdr = SHT_PROGBITS \<longrightarrow> unat (sh_size shdr) \<le> length (d_buf shdr)))"

lemma place_cons:
  assumes "length bs < 2 ^ 32 - 1"
  shows "place (addr + 1) bs (m(addr \<mapsto> b)) = place addr (b # bs) m"
proof
  fix a
  show "place (addr + 1) bs (m(addr \<mapsto> b)) a = place addr (b # bs) m a"
  proof (cases "a = addr")
    case True
    have "unat (addr - (addr + 1)) = 2 ^ 32 - 1"
      by (simp add: unsigned_minus_1_eq_mask mask_eq_exp_minus_1)
    then show ?thesis
      using True assms by (simp add: place_def)
  next
    case False
    then have "a - addr \<noteq> 0"
      by simp
    then have "unat (a - addr - 1) = unat (a - addr) - 1" "0 < unat (a - addr)"
      using unat_minus_one [of "a - addr"] unat_gt_0 [of "a - addr"] by blast+
    then have "unat (a - addr) = Suc (unat (a - (addr + 1)))"
      by (simp add: diff_diff_eq)
    then show ?thesis
      using False by (simp add: place_def)
  qed
qed

lemma place_over:
  assumes "length bs = n"
  shows "place addr bs (cleared addr n m) = place addr bs m"
  using assms by (auto simp: place_def cleared_def)

lemma cleared_mapped:
  assumes "unat addr + unat len < 2 ^ 32" "k < unat len"
  shows "cleared addr (unat len) m (addr + of_nat k) \<noteq> None"
proof -
  have "k < 2 ^ 32"
    using assms by simp
  then show ?thesis
    using assms(2) by (simp add: cleared_def unat_of_nat_u32)
qed

lemma created_cleared:
  fixes base len :: u32
  assumes "unat base + unat len < 2 ^ 32"
  shows "(\<lambda>a. if m a = None \<and> base \<le> a \<and> a < base + len then Some 0 else m a) = cleared base (unat len) m"
proof
  fix a
  have "base \<le> a \<and> a < base + len \<longleftrightarrow> unat (a - base) < unat len"
  proof
    assume "base \<le> a \<and> a < base + len"
    then have "unat base \<le> unat a" "unat a < unat base + unat len" "unat (a - base) = unat a - unat base"
      using assms by (simp_all add: word_le_nat_alt word_less_nat_alt unat_add_small unat_sub)
    then show "unat (a - base) < unat len"
      by linarith
  next
    assume inside: "unat (a - base) < unat len"
    have "a = base + (a - base)"
      by simp
    then have "unat a = unat base + unat (a - base)"
      using assms inside unat_add_small [of base "a - base"] by simp
    then show "base \<le> a \<and> a < base + len"
      using assms inside by (simp add: word_le_nat_alt word_less_nat_alt unat_add_small)
  qed
  then show "(if m a = None \<and> base \<le> a \<and> a < base + len then Some 0 else m a) = cleared base (unat len) m a"
    by (simp add: cleared_def)
qed

context cosim_memory
begin

lemma load_bytes_view:
  assumes "one_memory i s" "inv (objs s i)" "length bs < 2 ^ 32"
    and "\<And>k. k < length bs \<Longrightarrow> cosim_valid_addr (addr + of_nat k) s \<and> view (objs s i) (addr + of_nat k) \<noteq> None"
  shows "\<exists>d. load_bytes (main_mem_load api) addr bs s = Inr (True, upd_obj i d s) \<and> inv d \<and>
    room d = room (objs s i) \<and> view d = place addr bs (view (objs s i))"
  using assms
proof (induction bs arbitrary: addr s)
  case Nil
  have "upd_obj i (objs s i) s = s"
    by (simp add: upd_obj_def)
  then show ?case
    using Nil.prems by (metis load_bytes.simps(1) place_def list.size(3) less_nat_zero_code)
next
  case (Cons b bs)
  have here: "cosim_valid_addr addr s" "view (objs s i) addr \<noteq> None"
    using Cons.prems(4) [of 0] by simp_all
  obtain d where d: "cosim_write api addr b s = Inr (upd_obj i d s)" "inv d" "room d = room (objs s i)"
    "view d = (view (objs s i))(addr \<mapsto> b)"
    using cosim_write_view [OF Cons.prems(1) here(1) Cons.prems(2) here(2)] by blast
  have rest: "cosim_valid_addr (addr + 1 + of_nat k) (upd_obj i d s) \<and>
      view (objs (upd_obj i d s) i) (addr + 1 + of_nat k) \<noteq> None" if "k < length bs" for k
    using Cons.prems(4) [of "Suc k"] that by (simp add: d(4) add.assoc)
  obtain e where e: "load_bytes (main_mem_load api) (addr + 1) bs (upd_obj i d s) = Inr (True, upd_obj i e s)"
    "inv e" "room e = room d" "view e = place (addr + 1) bs (view d)"
    using Cons.IH [of "upd_obj i d s" "addr + 1"] Cons.prems(1,3) d(2) rest by auto
  have "length bs < 2 ^ 32 - 1"
    using Cons.prems(3) by simp
  then have "view e = place addr (b # bs) (view (objs s i))"
    using e(4) place_cons by (simp add: d(4))
  moreover have "main_mem_load api addr b s = Inr (True, upd_obj i d s)"
    using d(1) here(1) by (simp add: main_mem_load_def)
  ultimately show ?case
    using d(3) e by auto
qed

lemma load_section_view:
  assumes "one_memory i s" "inv (objs s i)" "section_ok s shdr" "allocated shdr \<Longrightarrow> 0 < room (objs s i)"
  shows "\<exists>d. load_section (main_mem_create api) (main_mem_load api) shdr s = Inr (True, upd_obj i d s) \<and>
    inv d \<and> room d = room (objs s i) - (if allocated shdr then 1 else 0) \<and>
    view d = section_image shdr (view (objs s i))"
proof (cases "allocated shdr")
  case False
  have "upd_obj i (objs s i) s = s"
    by (simp add: upd_obj_def)
  then show ?thesis
    using False assms(2) by (auto simp: load_section_def allocated_def section_image_def intro!: exI [of _ "objs s i"])
next
  case True
  have ok: "unat (sh_addr shdr) + unat (sh_size shdr) < 2 ^ 32" "unat (sh_size shdr) < 2 ^ 31 - 3"
    "\<And>k. k < unat (sh_size shdr) \<Longrightarrow> cosim_valid_addr (sh_addr shdr + of_nat k) s"
    "sh_type shdr = SHT_PROGBITS \<Longrightarrow> unat (sh_size shdr) \<le> length (d_buf shdr)"
    using assms(3) True by (auto simp: section_ok_def)
  obtain d where d: "cosim_create_memory api (sh_addr shdr) (sh_size shdr) s = Inr (True, upd_obj i d s)"
    "inv d" "room d = room (objs s i) - 1"
    "view d = cleared (sh_addr shdr) (unat (sh_size shdr)) (view (objs s i))"
    using cosim_create_view [OF assms(1,2) assms(4) [OF True] ok(1,2)] created_cleared [OF ok(1)] by auto
  show ?thesis
  proof (cases "sh_type shdr = SHT_PROGBITS")
    case False
    then show ?thesis
      using d True by (auto simp: load_section_def allocated_def section_image_def main_mem_create_def)
  next
    case progbits: True
    let ?bs = "take (unat (sh_size shdr)) (d_buf shdr)"
    have len: "length ?bs = unat (sh_size shdr)"
      using ok(4) [OF progbits] by simp
    have mapped: "cosim_valid_addr (sh_addr shdr + of_nat k) (upd_obj i d s) \<and>
        view (objs (upd_obj i d s) i) (sh_addr shdr + of_nat k) \<noteq> None" if "k < length ?bs" for k
      using that ok(3) cleared_mapped [OF ok(1)] by (simp add: d(4))
    obtain e where "load_bytes (main_mem_load api) (sh_addr shdr) ?bs (upd_obj i d s) = Inr (True, upd_obj i e s)"
      "inv e" "room e = room d" "view e = place (sh_addr shdr) ?bs (view d)"
      using load_bytes_view [of i "upd_obj i d s" ?bs "sh_addr shdr"] assms(1) d(2) mapped ok(2) len by auto
    then show ?thesis
      using d True progbits ok(4) place_over [OF len]
      by (auto simp: load_section_def allocated_def section_image_def main_mem_create_def)
  qed
qed

lemma load_sections_view:
  assumes "one_memory i s" "inv (objs s i)" "list_all (section_ok s) scns"
    and "length (filter allocated scns) \<le> room (objs s i)"
  shows "\<exists>d. load_sections (main_mem_create api) (main_mem_load api) scns s = Inr (True, upd_obj i d s) \<and>
    inv d \<and> view d = fold section_image scns (view (objs s i))"
  using assms
proof (induction scns arbitrary: s)
  case Nil
  have "upd_obj i (objs s i) s = s"
    by (simp add: upd_obj_def)
  then show ?case
    using Nil.prems by (metis fold_simps(1) load_sections.simps(1))
next
  case (Cons shdr scns)
  obtain d where d: "load_section (main_mem_create api) (main_mem_load api) shdr s = Inr (True, upd_obj i d s)"
    "inv d" "room d = room (objs s i) - (if allocated shdr then 1 else 0)"
    "view d = section_image shdr (view (objs s i))"
    using load_section_view [of i s shdr] Cons.prems by (auto split: if_splits)
  have "section_ok (upd_obj i d s) = section_ok s"
    by (simp add: section_ok_def fun_eq_iff)
  then show ?case
    using Cons.IH [of "upd_obj i d s"] Cons.prems d by (auto split: if_splits)
qed

end

text \<open>
  Claim C9. Loading an executable whose sections fit leaves exactly its image in the memory of the simulator:
  the bytes of each section with contents at its address, zeros for the others, and what was there
  before everywhere else; sections that overlap are placed in their order.
\<close>

theorem elf_load_places:
  assumes "one_memory i s" "regions_fit (objs s i)" "list_all (section_ok s) scns"
    and "length (filter allocated scns) \<le> region_room (objs s i)"
  shows "\<exists>d. elf_load (Some (entry, scns)) (main_mem_create (riscv_api words))
      (main_mem_load (riscv_api words)) s = Inr (True, entry, upd_obj i d s) \<and> regions_fit d \<and>
    byte_at d = fold section_image scns (byte_at (objs s i))"
proof -
  obtain d where "load_sections (main_mem_create (riscv_api words)) (main_mem_load (riscv_api words)) scns s =
      Inr (True, upd_obj i d s)" "regions_fit d" "byte_at d = fold section_image scns (byte_at (objs s i))"
    using riscv_memory.load_sections_view [OF assms, of words] by blast
  then show ?thesis
    by (auto simp: elf_load_def)
qed

section \<open>The run ends\<close>

text \<open>The run with a budget, by recursion on it.\<close>

fun run_n :: "'c cpu_api \<Rightarrow> run_opts \<Rightarrow> nat \<Rightarrow> u32 \<Rightarrow> 'c \<Rightarrow> 'c sim" where
  "run_n api opts 0 current_pc sim = Inr sim"
| "run_n api opts (Suc n) current_pc sim =
     (if api_get_fault api sim \<or> api_get_stopped api sim \<or> current_pc = stop_pc opts then Inr sim
      else rbind (api_step api sim) (\<lambda>sim'.
        run_n api opts n (api_get_pc api sim)
          (if n \<noteq> 0 \<and> trace_pc opts = api_get_pc api sim
           then api_enable_trace api (trace_mask opts) sim' else sim')))"

lemma run_loop_from:
  assumes "max_cycles opts = int m" "m < 2 ^ 31" "cycles = of_nat k" "k + n = m" "0 < n"
  shows "run_loop api opts current_pc cycles sim = Some (run_n api opts n current_pc sim)"
  using assms(3-)
proof (induction n arbitrary: k cycles current_pc sim)
  case (Suc n)
  have last_cycle: "word_of_int (max_cycles opts) = cycles + (1 :: u32) \<longleftrightarrow> n = 0"
  proof -
    have "word_of_int (max_cycles opts) = (of_nat m :: u32)" "cycles + 1 = (of_nat (k + 1) :: u32)"
      using assms(1) Suc.prems(1) by simp_all
    moreover have "(of_nat m :: u32) = of_nat (k + 1) \<longleftrightarrow> m = k + 1"
    proof -
      have "unat (of_nat m :: u32) = m" "unat (of_nat (k + 1) :: u32) = k + 1"
        by (rule unat_of_nat_u32; use assms(2) Suc.prems(2) in simp)+
      then show ?thesis
        by metis
    qed
    ultimately show ?thesis
      using Suc.prems(2) by (auto simp: add.commute)
  qed
  have more: "run_loop api opts pc (cycles + 1) c = Some (run_n api opts n pc c)" if "n \<noteq> 0" for pc c
    using Suc.IH [of "cycles + 1" "k + 1"] Suc.prems that by simp
  show ?case
    using assms(1) last_cycle more
    by (subst run_loop.simps) (cases "api_step api sim", auto)
qed simp

text \<open>
  Claim C10. With a limit on the instructions the simulator returns, whatever the program does: the loop of
  \<open>riscv_main\<close> ends, after at most that many steps, in the state the budgeted run gives.
\<close>

theorem run_loop_ends:
  assumes "max_cycles opts = int n" "0 < n" "n < 2 ^ 31"
  shows "run_loop api opts current_pc 0 sim = Some (run_n api opts n current_pc sim)"
  using run_loop_from [of opts n 0 0 n] assms by simp

text \<open>
  Without trouble in a step the exit code of the simulator is 0, as the fault flag is never set; the
  flag is only set behind calls of \<open>error\<close>, which exits.
\<close>

lemma riscv_api_sel:
  "api_get_fault (riscv_api words) = m_fault" "api_get_stopped (riscv_api words) = m_break"
  "api_step (riscv_api words) = rv_step" "api_get_pc (riscv_api words) = m_pc_x"
  "api_enable_trace (riscv_api words) v c = c\<lparr>m_trace := v\<rparr>"
  by (simp_all add: riscv_api_def)

lemma run_n_ok:
  assumes "cpu_ok l c" "run_n (riscv_api words) opts n pc c = Inr d"
  shows "cpu_ok l d"
  using assms
proof (induction n arbitrary: pc c)
  case (Suc n)
  have "cpu_ok l x" if "rv_step c = Inr x" for x
    using step_ok [OF that] Suc.prems(1) by simp
  then show ?case
    using Suc.prems by (auto simp: riscv_api_sel rbind_Inr_iff dest!: Suc.IH [rotated] split: if_splits)
qed simp

lemma exit_code_zero:
  assumes "max_cycles opts = int n" "0 < n" "n < 2 ^ 31" "cpu_ok l c"
    and "run_loop (riscv_api words) opts pc 0 c = Some (Inr d)"
  shows "at_exit (riscv_api words) None (api_get_fault (riscv_api words) d) s = Inr (None, 0)"
proof -
  have "run_n (riscv_api words) opts n pc c = Inr d"
    using run_loop_from [of opts n 0 0 n "riscv_api words" pc c] assms by simp
  then have "cpu_ok l d"
    using run_n_ok assms(4) by blast
  then show ?thesis
    by (simp add: at_exit_def riscv_api_sel cpu_ok_def)
qed

section \<open>The properties on a concrete machine\<close>

definition demo_file :: "elf_section list" where
  "demo_file =
     [\<lparr>sh_flags = 0, sh_type = 0, sh_addr = 0, sh_size = 0, d_buf = []\<rparr>,
      \<lparr>sh_flags = 6, sh_type = SHT_PROGBITS, sh_addr = 0x100, sh_size = 3, d_buf = [1, 2, 3]\<rparr>,
      \<lparr>sh_flags = 3, sh_type = 8, sh_addr = 0x104, sh_size = 2, d_buf = []\<rparr>]"

theorem elf_load_places_witness:
  "\<exists>d. elf_load (Some (0x100, demo_file)) (main_mem_create (riscv_api (\<lambda>i. 0)))
      (main_mem_load (riscv_api (\<lambda>i. 0))) demo_cosim = Inr (True, 0x100, upd_obj 0 d demo_cosim) \<and>
    byte_at d 0x102 = Some 3 \<and> byte_at d 0x105 = Some 0"
proof -
  have below: "(a :: u32) + of_nat k < 0xFFFFFFFF" if "k < 3" "unat a < 0x1000" for a k
    using that unat_add_small [of a "of_nat k"]
    by (simp add: word_less_nat_alt unat_of_nat_u32)
  have "list_all (section_ok demo_cosim) demo_file"
    by (auto simp: demo_file_def section_ok_def demo_cosim_sel SHT_PROGBITS_def below)
  moreover have "length (filter allocated demo_file) \<le> region_room demo_machine"
    by (simp add: demo_file_def allocated_def SHF_ALLOC_def region_room_def demo_machine_def
        demo_program_def rv_reset_def stats_reset_def)
  ultimately obtain d where "elf_load (Some (0x100, demo_file)) (main_mem_create (riscv_api (\<lambda>i. 0)))
      (main_mem_load (riscv_api (\<lambda>i. 0))) demo_cosim = Inr (True, 0x100, upd_obj 0 d demo_cosim)"
    "byte_at d = fold section_image demo_file (byte_at demo_machine)"
    using elf_load_places [of 0 demo_cosim demo_file "0x100" "\<lambda>i. 0"]
    by (auto simp: demo_cosim_sel demo_fits)
  moreover have "fold section_image demo_file (byte_at demo_machine) 0x102 = Some 3"
    by (simp add: demo_file_def section_image_def allocated_def SHF_ALLOC_def SHT_PROGBITS_def
        place_def cleared_def)
  moreover have "fold section_image demo_file (byte_at demo_machine) 0x105 = Some 0"
    by (simp add: demo_file_def section_image_def allocated_def SHF_ALLOC_def SHT_PROGBITS_def
        place_def cleared_def demo_machine_def demo_program_def rv_reset_def stats_reset_def
        byte_at_def in_region_def)
  ultimately show ?thesis
    by metis
qed

definition demo_opts :: run_opts where
  "demo_opts = \<lparr>max_cycles = 2, stop_pc = 0xFFFFFFFF, trace_pc = 0xFFFFFFFF, trace_mask = 1\<rparr>"

theorem run_loop_ends_witness:
  "run_loop (riscv_api (\<lambda>i. 0)) demo_opts 0 0 demo_machine =
    Some (run_n (riscv_api (\<lambda>i. 0)) demo_opts 2 0 demo_machine) \<and>
   (\<exists>d. run_n (riscv_api (\<lambda>i. 0)) demo_opts 2 0 demo_machine = Inr d)"
proof -
  obtain c' where "rv_steps 2 demo_machine = Inr c'"
    using demo_runs steps_ref [OF demo_machine_ok] by blast
  moreover have "m_pc_x demo_machine \<noteq> 0xFFFFFFFF"
    by (simp add: demo_machine_def rv_reset_def stats_reset_def)
  ultimately have "\<exists>d. run_n (riscv_api (\<lambda>i. 0)) demo_opts 2 0 demo_machine = Inr d"
    by (auto simp: riscv_api_sel demo_opts_def numeral_2_eq_2 rbind_Inr_iff)
  then show ?thesis
    using run_loop_ends [of demo_opts 2 "riscv_api (\<lambda>i. 0)" 0 demo_machine]
    by (simp add: demo_opts_def)
qed

end
