(* ===== verification/I2c_Driver.thy ===== *)
theory I2c_Driver
  imports I2c_Commands
begin

text \<open>
  The I2C master in software (\<open>pano/fw/common/i2c.c\<close>), which moves the two lines of a bus through
  the direction register of the GPIO block, and its user \<open>audio_init\<close> (\<open>audio.c\<close>). Below the code
  stands what a listener on the bus sees: \<open>wire_step\<close> turns the levels of the lines into start and
  stop conditions and bits, and the routines are shown to send the frames of an abstract master.

  The waits between the edges access no register and are left out (\<open>timer_sleep_us\<close> is in
  \<open>Time_Base\<close>), as are the messages of \<open>LOG\<close> and \<open>ELOG\<close>.
\<close>

section \<open>The driver\<close>

record ContextI2C =
  GpioBase :: u32
  BitSCL :: u32
  BitSDA :: u32
  I2CDelay :: int

definition i2c_set_bit :: "regs \<Rightarrow> ContextI2C \<Rightarrow> bool \<Rightarrow> u32 \<Rightarrow> reg list \<Rightarrow> reg list" where
  "i2c_set_bit rv pCtx high Bit tr =
     (case REG_RD rv (GpioBase pCtx + GPIO_DIRECTION) tr of (Temp, tr) \<Rightarrow>
        REG_WR (GpioBase pCtx + GPIO_DIRECTION) (if high then Temp AND NOT Bit else Temp OR Bit) tr)"

definition i2c_set_scl :: "regs \<Rightarrow> ContextI2C \<Rightarrow> bool \<Rightarrow> reg list \<Rightarrow> reg list" where
  "i2c_set_scl rv pCtx high = i2c_set_bit rv pCtx high (BitSCL pCtx)"

definition i2c_set_sda :: "regs \<Rightarrow> ContextI2C \<Rightarrow> bool \<Rightarrow> reg list \<Rightarrow> reg list" where
  "i2c_set_sda rv pCtx high = i2c_set_bit rv pCtx high (BitSDA pCtx)"

definition i2c_get_bit :: "regs \<Rightarrow> ContextI2C \<Rightarrow> u32 \<Rightarrow> reg list \<Rightarrow> bool \<times> reg list" where
  "i2c_get_bit rv pCtx Bit tr =
     (case REG_RD rv (GpioBase pCtx + GPIO_INPUT) tr of (Temp, tr) \<Rightarrow> (Temp AND Bit \<noteq> 0, tr))"

definition i2c_get_scl :: "regs \<Rightarrow> ContextI2C \<Rightarrow> reg list \<Rightarrow> bool \<times> reg list" where
  "i2c_get_scl rv pCtx = i2c_get_bit rv pCtx (BitSCL pCtx)"

definition i2c_get_sda :: "regs \<Rightarrow> ContextI2C \<Rightarrow> reg list \<Rightarrow> bool \<times> reg list" where
  "i2c_get_sda rv pCtx = i2c_get_bit rv pCtx (BitSDA pCtx)"

fun thump :: "regs \<Rightarrow> ContextI2C \<Rightarrow> nat \<Rightarrow> reg list \<Rightarrow> reg list" where
  "thump rv pCtx 0 tr = tr"
| "thump rv pCtx (Suc i) tr = thump rv pCtx i (i2c_set_scl rv pCtx True (i2c_set_scl rv pCtx False tr))"

text \<open>The result is \<open>Ret\<close> as a truth value: whether a line is stuck.\<close>

definition i2c_init :: "regs \<Rightarrow> ContextI2C \<Rightarrow> reg list \<Rightarrow> bool \<times> reg list" where
  "i2c_init rv pCtx tr =
     (let tr = i2c_set_scl rv pCtx True (i2c_set_sda rv pCtx True tr);
          tr = REG_WR (GpioBase pCtx + GPIO_OUTPUT_CLR) (BitSCL pCtx) tr;
          tr = REG_WR (GpioBase pCtx + GPIO_OUTPUT_CLR) (BitSDA pCtx) tr
      in case i2c_get_scl rv pCtx tr of (c, tr) \<Rightarrow>
         case i2c_get_sda rv pCtx tr of (d, tr) \<Rightarrow>
           if d then (\<not> c, tr)
           else case i2c_get_sda rv pCtx (thump rv pCtx 32 tr) of (d, tr) \<Rightarrow> (\<not> c \<or> \<not> d, tr))"

definition i2c_start :: "regs \<Rightarrow> ContextI2C \<Rightarrow> reg list \<Rightarrow> reg list" where
  "i2c_start rv pCtx tr =
     i2c_set_scl rv pCtx False (i2c_set_sda rv pCtx False
       (i2c_set_scl rv pCtx True (i2c_set_sda rv pCtx True tr)))"

definition i2c_stop :: "regs \<Rightarrow> ContextI2C \<Rightarrow> reg list \<Rightarrow> reg list" where
  "i2c_stop rv pCtx tr =
     i2c_set_sda rv pCtx True (i2c_set_scl rv pCtx True (i2c_set_sda rv pCtx False tr))"

text \<open>The loop that waits while the device holds the clock may never end: \<open>None\<close>.\<close>

partial_function (option) i2c_stretch :: "regs \<Rightarrow> ContextI2C \<Rightarrow> reg list \<Rightarrow> reg list option" where
  "i2c_stretch rv pCtx tr =
     (case i2c_get_scl rv pCtx tr of (c, tr) \<Rightarrow> if c then Some tr else i2c_stretch rv pCtx tr)"

fun rx_bits :: "regs \<Rightarrow> ContextI2C \<Rightarrow> nat \<Rightarrow> u8 \<Rightarrow> reg list \<Rightarrow> (u8 \<times> reg list) option" where
  "rx_bits rv pCtx 0 d tr = Some (d, tr)"
| "rx_bits rv pCtx (Suc n) d tr =
     (case i2c_stretch rv pCtx (i2c_set_scl rv pCtx True tr) of
        None \<Rightarrow> None
      | Some tr \<Rightarrow> (case i2c_get_sda rv pCtx tr of (b, tr) \<Rightarrow>
          rx_bits rv pCtx n (push_bit 1 d OR of_bool b) (i2c_set_scl rv pCtx False tr)))"

definition i2c_rx :: "regs \<Rightarrow> ContextI2C \<Rightarrow> bool \<Rightarrow> reg list \<Rightarrow> (u8 \<times> reg list) option" where
  "i2c_rx rv pCtx ack tr =
     (case rx_bits rv pCtx 8 0 (i2c_set_sda rv pCtx True tr) of
        None \<Rightarrow> None
      | Some (d, tr) \<Rightarrow> Some (d, i2c_set_sda rv pCtx True (i2c_set_scl rv pCtx False
          (i2c_set_scl rv pCtx True (i2c_set_sda rv pCtx (\<not> ack) tr)))))"

fun tx_bits :: "regs \<Rightarrow> ContextI2C \<Rightarrow> nat \<Rightarrow> u8 \<Rightarrow> reg list \<Rightarrow> reg list" where
  "tx_bits rv pCtx 0 d tr = tr"
| "tx_bits rv pCtx (Suc n) d tr =
     tx_bits rv pCtx n (push_bit 1 d) (i2c_set_scl rv pCtx False (i2c_set_scl rv pCtx True
       (i2c_set_sda rv pCtx (d AND 0x80 \<noteq> 0) tr)))"

definition i2c_tx :: "regs \<Rightarrow> ContextI2C \<Rightarrow> u8 \<Rightarrow> reg list \<Rightarrow> bool \<times> reg list" where
  "i2c_tx rv pCtx d tr =
     (case i2c_get_sda rv pCtx (i2c_set_sda rv pCtx True (tx_bits rv pCtx 8 d tr)) of (b, tr) \<Rightarrow>
        (\<not> b, i2c_set_scl rv pCtx False (i2c_set_scl rv pCtx True tr)))"

text \<open>\<open>len\<close> is the length of \<open>data\<close>.\<close>

fun write_loop :: "regs \<Rightarrow> ContextI2C \<Rightarrow> u8 list \<Rightarrow> reg list \<Rightarrow> bool \<times> reg list" where
  "write_loop rv pCtx [] tr = (True, i2c_stop rv pCtx tr)"
| "write_loop rv pCtx (d # data) tr =
     (case i2c_tx rv pCtx d tr of (ack, tr) \<Rightarrow>
        if \<not> ack then (False, i2c_stop rv pCtx tr) else write_loop rv pCtx data tr)"

definition i2c_write_buf :: "regs \<Rightarrow> ContextI2C \<Rightarrow> u8 \<Rightarrow> u8 list \<Rightarrow> reg list \<Rightarrow> bool \<times> reg list" where
  "i2c_write_buf rv pCtx ADR data tr =
     (case i2c_tx rv pCtx ADR (i2c_start rv pCtx tr) of (ack, tr) \<Rightarrow>
        if \<not> ack then (False, i2c_stop rv pCtx tr) else write_loop rv pCtx data tr)"

text \<open>The bytes are read in order; the last one is not acknowledged.\<close>

fun read_loop :: "regs \<Rightarrow> ContextI2C \<Rightarrow> nat \<Rightarrow> reg list \<Rightarrow> (u8 list \<times> reg list) option" where
  "read_loop rv pCtx 0 tr = Some ([], tr)"
| "read_loop rv pCtx (Suc n) tr =
     (case i2c_rx rv pCtx (n \<noteq> 0) tr of
        None \<Rightarrow> None
      | Some (d, tr) \<Rightarrow> (case read_loop rv pCtx n tr of
            None \<Rightarrow> None | Some (ds, tr) \<Rightarrow> Some (d # ds, tr)))"

definition i2c_read_buf ::
  "regs \<Rightarrow> ContextI2C \<Rightarrow> u8 \<Rightarrow> nat \<Rightarrow> reg list \<Rightarrow> (bool \<times> u8 list \<times> reg list) option" where
  "i2c_read_buf rv pCtx ADR len tr =
     (case i2c_tx rv pCtx (ADR OR 1) (i2c_start rv pCtx tr) of (ack, tr) \<Rightarrow>
        if \<not> ack then Some (False, [], i2c_stop rv pCtx tr)
        else (case read_loop rv pCtx len tr of
            None \<Rightarrow> None
          | Some (data, tr) \<Rightarrow> Some (True, data, i2c_stop rv pCtx tr)))"

definition i2c_write_reg_nr :: "regs \<Rightarrow> ContextI2C \<Rightarrow> u8 \<Rightarrow> u8 \<Rightarrow> reg list \<Rightarrow> bool \<times> reg list" where
  "i2c_write_reg_nr rv pCtx ADR reg_nr = i2c_write_buf rv pCtx ADR [reg_nr]"

definition i2c_write_reg :: "regs \<Rightarrow> ContextI2C \<Rightarrow> u8 \<Rightarrow> u8 \<Rightarrow> u8 \<Rightarrow> reg list \<Rightarrow> bool \<times> reg list" where
  "i2c_write_reg rv pCtx ADR reg_nr value = i2c_write_buf rv pCtx ADR [reg_nr, value]"

definition i2c_write_regs :: "regs \<Rightarrow> ContextI2C \<Rightarrow> u8 \<Rightarrow> u8 \<Rightarrow> u8 list \<Rightarrow> reg list \<Rightarrow> bool \<times> reg list" where
  "i2c_write_regs rv pCtx ADR reg_nr values tr =
     (case i2c_tx rv pCtx ADR (i2c_start rv pCtx tr) of (ack, tr) \<Rightarrow>
        if \<not> ack then (False, i2c_stop rv pCtx tr)
        else case i2c_tx rv pCtx reg_nr tr of (ack, tr) \<Rightarrow>
          if \<not> ack then (False, i2c_stop rv pCtx tr) else write_loop rv pCtx values tr)"

definition i2c_read_regs ::
  "regs \<Rightarrow> ContextI2C \<Rightarrow> u8 \<Rightarrow> u8 \<Rightarrow> nat \<Rightarrow> reg list \<Rightarrow> (bool \<times> u8 list \<times> reg list) option" where
  "i2c_read_regs rv pCtx ADR reg_nr len tr =
     (case i2c_write_buf rv pCtx ADR [reg_nr] tr of (result, tr) \<Rightarrow>
        if \<not> result then Some (False, [], tr) else i2c_read_buf rv pCtx ADR len tr)"

definition i2c_read_reg ::
  "regs \<Rightarrow> ContextI2C \<Rightarrow> u8 \<Rightarrow> u8 \<Rightarrow> reg list \<Rightarrow> (bool \<times> u8 list \<times> reg list) option" where
  "i2c_read_reg rv pCtx ADR reg_nr = i2c_read_regs rv pCtx ADR reg_nr 1"

section \<open>The lines of the bus\<close>

datatype i2c_sym = I2C_Start | I2C_Stop | I2C_Bit bool

text \<open>
  What a listener has decoded: the levels the master gives to clock and data (high is released), whether the
  clock has risen for a bit, and the symbols so far. Data changes while the clock is high are the
  start and stop conditions; otherwise the clock pulse carries a bit, complete when it falls.
\<close>

record wires =
  scl :: bool
  sda :: bool
  clocked :: bool
  syms :: "i2c_sym list"

definition wire_step :: "bool \<Rightarrow> bool \<Rightarrow> wires \<Rightarrow> wires" where
  "wire_step c d w =
     \<lparr>scl = c, sda = d,
      clocked = (if c \<and> \<not> scl w then True else if scl w \<and> (\<not> c \<or> sda w \<noteq> d) then False else clocked w),
      syms = syms w @
        (if \<not> scl w then []
         else if \<not> c then (if clocked w then [I2C_Bit (sda w)] else [])
         else if sda w \<and> \<not> d then [I2C_Start]
         else if \<not> sda w \<and> d then [I2C_Stop] else [])\<rparr>"

text \<open>
  The GPIO block: its direction register, its output latch and the lines. A pin that is an output
  with a zero latch pulls its line low.
\<close>

record gpio_block =
  direction :: u32
  latch :: u32
  lines :: wires

definition released :: "gpio_block \<Rightarrow> u32 \<Rightarrow> bool" where
  "released g b \<longleftrightarrow> direction g AND b = 0 \<or> latch g AND b \<noteq> 0"

definition gpio_write :: "u32 \<Rightarrow> u32 \<Rightarrow> u32 \<Rightarrow> gpio_block \<Rightarrow> gpio_block" where
  "gpio_write base a v g =
     (if a = base + GPIO_DIRECTION then g\<lparr>direction := v\<rparr>
      else if a = base + GPIO_OUTPUT then g\<lparr>latch := v\<rparr>
      else if a = base + GPIO_OUTPUT_SET then g\<lparr>latch := latch g OR v\<rparr>
      else if a = base + GPIO_OUTPUT_CLR then g\<lparr>latch := latch g AND NOT v\<rparr>
      else g)"

fun gpio_step :: "ContextI2C \<Rightarrow> reg \<Rightarrow> gpio_block \<Rightarrow> gpio_block" where
  "gpio_step pCtx (RegRd a) g = g"
| "gpio_step pCtx (RegWr a v) g =
     (let g = gpio_write (GpioBase pCtx) a v g
      in g\<lparr>lines := wire_step (released g (BitSCL pCtx)) (released g (BitSDA pCtx)) (lines g)\<rparr>)"

definition gpio_of :: "ContextI2C \<Rightarrow> gpio_block \<Rightarrow> reg list \<Rightarrow> gpio_block" where
  "gpio_of pCtx g0 tr = fold (gpio_step pCtx) tr g0"

text \<open>
  What the driver relies on. The direction register reads back. A device that answers may hold the
  clock low after the master has released it, and lets go of it after finitely many readings. The data pin
  shows what the device does for the next bit, \<open>dev\<close> of the symbols so far, while the master keeps
  the clock low, and with the clock released once a reading has shown it high: until then the data
  pin may read as anything. The pulses of \<open>i2c_tx\<close>, which never looks at the clock, count as
  bits, so a device that holds the clock while it receives is outside this bus.
\<close>

definition sda_seen :: "ContextI2C \<Rightarrow> gpio_block \<Rightarrow> (i2c_sym list \<Rightarrow> bool) \<Rightarrow> regs \<Rightarrow> reg list \<Rightarrow> bool" where
  "sda_seen pCtx g0 dev rv tr \<longleftrightarrow>
     (rv tr (GpioBase pCtx + GPIO_INPUT) AND BitSDA pCtx \<noteq> 0 \<longleftrightarrow>
        released (gpio_of pCtx g0 tr) (BitSDA pCtx) \<and> \<not> dev (syms (lines (gpio_of pCtx g0 tr))))"

definition clock_seen :: "ContextI2C \<Rightarrow> regs \<Rightarrow> reg list \<Rightarrow> bool" where
  "clock_seen pCtx rv tr \<longleftrightarrow> rv tr (GpioBase pCtx + GPIO_INPUT) AND BitSCL pCtx \<noteq> 0"

definition i2c_bus :: "ContextI2C \<Rightarrow> gpio_block \<Rightarrow> (i2c_sym list \<Rightarrow> bool) \<Rightarrow> regs \<Rightarrow> bool" where
  "i2c_bus pCtx g0 dev rv \<longleftrightarrow>
     BitSCL pCtx \<noteq> 0 \<and> BitSDA pCtx \<noteq> 0 \<and> BitSCL pCtx AND BitSDA pCtx = 0 \<and>
     (\<forall>tr. rv tr (GpioBase pCtx + GPIO_DIRECTION) = direction (gpio_of pCtx g0 tr)) \<and>
     (\<forall>tr. \<not> released (gpio_of pCtx g0 tr) (BitSCL pCtx) \<longrightarrow> sda_seen pCtx g0 dev rv tr) \<and>
     (\<forall>tr. clock_seen pCtx rv tr \<longrightarrow> sda_seen pCtx g0 dev rv (tr @ [RegRd (GpioBase pCtx + GPIO_INPUT)])) \<and>
     (\<forall>tr. released (gpio_of pCtx g0 tr) (BitSCL pCtx) \<longrightarrow>
        (\<exists>n. clock_seen pCtx rv (tr @ replicate n (RegRd (GpioBase pCtx + GPIO_INPUT)))))"

text \<open>The lines after a trace, with both latches at zero as \<open>i2c_init\<close> leaves them.\<close>

definition bus_at :: "ContextI2C \<Rightarrow> gpio_block \<Rightarrow> reg list \<Rightarrow> wires \<Rightarrow> bool" where
  "bus_at pCtx g0 tr w \<longleftrightarrow> (let g = gpio_of pCtx g0 tr in
     lines g = w \<and> latch g AND BitSCL pCtx = 0 \<and> latch g AND BitSDA pCtx = 0 \<and>
     scl w = released g (BitSCL pCtx) \<and> sda w = released g (BitSDA pCtx))"

section \<open>The abstract master\<close>

definition byte_syms :: "u8 \<Rightarrow> i2c_sym list" where
  "byte_syms b = map (\<lambda>i. I2C_Bit (bit b i)) [7, 6, 5, 4, 3, 2, 1, 0]"

text \<open>Bytes are sent until one is not acknowledged; the result is whether all were.\<close>

fun send_bytes :: "(i2c_sym list \<Rightarrow> bool) \<Rightarrow> u8 list \<Rightarrow> i2c_sym list \<Rightarrow> bool \<times> i2c_sym list" where
  "send_bytes dev [] ss = (True, ss)"
| "send_bytes dev (b # bs) ss =
     (let ss = ss @ byte_syms b in
      if dev ss then send_bytes dev bs (ss @ [I2C_Bit True]) else (False, ss @ [I2C_Bit True]))"

definition send_frame :: "(i2c_sym list \<Rightarrow> bool) \<Rightarrow> u8 list \<Rightarrow> i2c_sym list \<Rightarrow> bool \<times> i2c_sym list" where
  "send_frame dev bs ss = (case send_bytes dev bs (ss @ [I2C_Start]) of (ok, ss) \<Rightarrow> (ok, ss @ [I2C_Stop]))"

text \<open>The master leaves the data line to the device, samples it eight times and acknowledges.\<close>

fun recv_bits :: "(i2c_sym list \<Rightarrow> bool) \<Rightarrow> nat \<Rightarrow> i2c_sym list \<Rightarrow> bool list" where
  "recv_bits dev 0 ss = []"
| "recv_bits dev (Suc n) ss = (\<not> dev ss) # recv_bits dev n (ss @ [I2C_Bit True])"

definition rx_byte :: "bool list \<Rightarrow> u8" where
  "rx_byte bs = fold (\<lambda>b d. push_bit 1 d OR of_bool b) bs 0"

fun recv_bytes :: "(i2c_sym list \<Rightarrow> bool) \<Rightarrow> nat \<Rightarrow> i2c_sym list \<Rightarrow> u8 list \<times> i2c_sym list" where
  "recv_bytes dev 0 ss = ([], ss)"
| "recv_bytes dev (Suc n) ss =
     (case recv_bytes dev n (ss @ replicate 8 (I2C_Bit True) @ [I2C_Bit (n = 0)]) of
        (ds, ss') \<Rightarrow> (rx_byte (recv_bits dev 8 ss) # ds, ss'))"

definition recv_frame ::
  "(i2c_sym list \<Rightarrow> bool) \<Rightarrow> u8 \<Rightarrow> nat \<Rightarrow> i2c_sym list \<Rightarrow> bool \<times> u8 list \<times> i2c_sym list" where
  "recv_frame dev adr n ss =
     (case send_bytes dev [adr OR 1] (ss @ [I2C_Start]) of
        (False, ss) \<Rightarrow> (False, [], ss @ [I2C_Stop])
      | (True, ss) \<Rightarrow> (case recv_bytes dev n ss of (ds, ss) \<Rightarrow> (True, ds, ss @ [I2C_Stop])))"

section \<open>Lines and edges\<close>

definition rests :: "ContextI2C \<Rightarrow> gpio_block \<Rightarrow> reg list \<Rightarrow> i2c_sym list \<Rightarrow> bool" where
  "rests pCtx g0 tr ss \<longleftrightarrow> (\<exists>w. bus_at pCtx g0 tr w \<and> scl w \<and> sda w \<and> syms w = ss)"

definition held :: "bool \<Rightarrow> i2c_sym list \<Rightarrow> wires" where
  "held d ss = \<lparr>scl = False, sda = d, clocked = False, syms = ss\<rparr>"

lemma gpio_of_append: "gpio_of pCtx g0 (tr @ es) = fold (gpio_step pCtx) es (gpio_of pCtx g0 tr)"
  by (simp add: gpio_of_def)

lemma gpio_of_reads [simp]: "gpio_of pCtx g0 (tr @ replicate n (RegRd a)) = gpio_of pCtx g0 tr"
  by (induction n) (simp_all add: gpio_of_def replicate_append_same [symmetric] del: replicate.simps(2))

lemma bus_at_read: "bus_at pCtx g0 (tr @ [RegRd a]) w = bus_at pCtx g0 tr w"
  by (simp add: bus_at_def gpio_of_append)

lemma set_bit_gpio:
  assumes "i2c_bus pCtx g0 dev rv"
  shows "gpio_of pCtx g0 (i2c_set_bit rv pCtx v b tr) =
    (let g = gpio_of pCtx g0 tr; g' = g\<lparr>direction := (if v then direction g AND NOT b else direction g OR b)\<rparr>
     in g'\<lparr>lines := wire_step (released g' (BitSCL pCtx)) (released g' (BitSDA pCtx)) (lines g)\<rparr>)"
  using assms by (simp add: i2c_bus_def i2c_set_bit_def REG_RD_def REG_WR_def gpio_of_append gpio_write_def Let_def)

lemma set_bit_at:
  assumes "i2c_bus pCtx g0 dev rv" "bus_at pCtx g0 tr w"
  shows "bus_at pCtx g0 (i2c_set_scl rv pCtx v tr) (wire_step v (sda w) w)"
    "bus_at pCtx g0 (i2c_set_sda rv pCtx v tr) (wire_step (scl w) v w)"
proof -
  let ?c = "BitSCL pCtx" and ?d = "BitSDA pCtx"
  have bits: "?c AND ?d = 0" "?c \<noteq> 0" "?d \<noteq> 0"
    using assms(1) by (simp_all add: i2c_bus_def)
  then have other: "\<not> (bit ?c i \<and> bit ?d i)" for i
    by (metis bit_and_iff bit_0_eq bot_apply bot_bool_def)
  have disjoint: "(x AND NOT ?c) AND ?d = x AND ?d" "(x AND NOT ?d) AND ?c = x AND ?c"
    "(x OR ?c) AND ?d = x AND ?d" "(x OR ?d) AND ?c = x AND ?c" for x
    by (rule bit_word_eqI; use other in \<open>auto simp: bit_simps\<close>)+
  have own: "(x OR ?c) AND ?c = ?c" "(x OR ?d) AND ?d = ?d"
    "(x AND NOT ?c) AND ?c = 0" "(x AND NOT ?d) AND ?d = 0" for x
    by (rule bit_word_eqI; auto simp: bit_simps)+
  let ?g = "gpio_of pCtx g0 tr"
  have at: "lines ?g = w" "latch ?g AND ?c = 0" "latch ?g AND ?d = 0"
    "scl w = (direction ?g AND ?c = 0)" "sda w = (direction ?g AND ?d = 0)"
    using assms(2) by (simp_all add: bus_at_def released_def Let_def)
  note set_bit = bus_at_def i2c_set_scl_def i2c_set_sda_def set_bit_gpio [OF assms(1)] Let_def
  show "bus_at pCtx g0 (i2c_set_scl rv pCtx v tr) (wire_step v (sda w) w)"
    "bus_at pCtx g0 (i2c_set_sda rv pCtx v tr) (wire_step (scl w) v w)"
    unfolding set_bit using at bits disjoint own
    by (cases v; simp add: released_def; simp add: wire_step_def)+
qed

lemmas wire_simps = wire_step_def held_def

lemma sda_seen_at:
  assumes "sda_seen pCtx g0 dev rv tr" "bus_at pCtx g0 tr w"
  shows "\<exists>tr'. i2c_get_sda rv pCtx tr = (sda w \<and> \<not> dev (syms w), tr') \<and> bus_at pCtx g0 tr' w"
  using assms by (auto simp: sda_seen_def bus_at_def Let_def i2c_get_sda_def i2c_get_bit_def REG_RD_def gpio_of_append)

text \<open>The acknowledge bit is sampled while the master keeps the clock low.\<close>

lemma get_sda_at:
  assumes "i2c_bus pCtx g0 dev rv" "bus_at pCtx g0 tr w" "\<not> scl w"
  shows "\<exists>tr'. i2c_get_sda rv pCtx tr = (sda w \<and> \<not> dev (syms w), tr') \<and> bus_at pCtx g0 tr' w"
  using assms by (intro sda_seen_at) (auto simp: i2c_bus_def bus_at_def Let_def)

lemma start_at:
  assumes "i2c_bus pCtx g0 dev rv" "rests pCtx g0 tr ss"
  shows "bus_at pCtx g0 (i2c_start rv pCtx tr) (held False (ss @ [I2C_Start]))"
proof -
  obtain w where w: "bus_at pCtx g0 tr w" "scl w" "sda w" "syms w = ss"
    using assms(2) by (auto simp: rests_def)
  note scl = set_bit_at(1) [OF assms(1)] and sda = set_bit_at(2) [OF assms(1)]
  show ?thesis
    using scl [OF sda [OF scl [OF sda [OF w(1)]]], of False False True True] w(2-)
    by (simp add: i2c_start_def wire_simps)
qed

lemma stop_at:
  assumes "i2c_bus pCtx g0 dev rv" "bus_at pCtx g0 tr (held d ss)"
  shows "rests pCtx g0 (i2c_stop rv pCtx tr) (ss @ [I2C_Stop])"
proof -
  note scl = set_bit_at(1) [OF assms(1)] and sda = set_bit_at(2) [OF assms(1)]
  show ?thesis
    using sda [OF scl [OF sda [OF assms(2)]], of True True False]
    by (auto simp: i2c_stop_def rests_def wire_simps)
qed

text \<open>One clock pulse with the data line at \<open>d\<close>.\<close>

lemma pulse_at:
  assumes "i2c_bus pCtx g0 dev rv" "bus_at pCtx g0 tr (held d ss)"
  shows "bus_at pCtx g0 (i2c_set_scl rv pCtx False (i2c_set_scl rv pCtx True tr)) (held d (ss @ [I2C_Bit d]))"
  using set_bit_at(1) [OF assms(1) set_bit_at(1) [OF assms], of False True] by (simp add: wire_simps)

lemma data_at:
  assumes "i2c_bus pCtx g0 dev rv" "bus_at pCtx g0 tr (held d ss)"
  shows "bus_at pCtx g0 (i2c_set_sda rv pCtx v tr) (held v ss)"
  using set_bit_at(2) [OF assms, of v] by (simp add: wire_simps)

section \<open>Sending\<close>

definition top_bits :: "nat \<Rightarrow> u8 \<Rightarrow> i2c_sym list" where
  "top_bits n d = map (\<lambda>i. I2C_Bit (bit (push_bit i d) 7)) [0..<n]"

lemma top_bits_Suc: "top_bits (Suc n) d = I2C_Bit (bit d 7) # top_bits n (push_bit 1 d)"
  by (simp add: top_bits_def upt_conv_Cons map_Suc_upt [symmetric] del: upt_Suc push_bit_of_1)

lemma byte_top_bits: "top_bits 8 d = byte_syms d"
  by (simp add: top_bits_def byte_syms_def upt_rec bit_push_bit_iff)

lemma tx_bits_at:
  assumes "i2c_bus pCtx g0 dev rv" "bus_at pCtx g0 tr (held b ss)"
  shows "\<exists>b'. bus_at pCtx g0 (tx_bits rv pCtx n d tr) (held b' (ss @ top_bits n d))"
  using assms(2)
proof (induction n arbitrary: b ss d tr)
  case 0
  then show ?case
    by (auto simp: top_bits_def)
next
  case (Suc n)
  have "(d AND 0x80 \<noteq> 0) = bit d 7"
    using and_exp_eq_0_iff_not_bit [of d 7] by simp
  then show ?case
    using Suc.IH [OF pulse_at [OF assms(1) data_at [OF assms(1) Suc.prems]]] by (simp add: top_bits_Suc)
qed

lemma tx_at:
  assumes "i2c_bus pCtx g0 dev rv" "bus_at pCtx g0 tr (held b ss)"
  shows "\<exists>tr'. i2c_tx rv pCtx d tr = (dev (ss @ byte_syms d), tr') \<and>
    bus_at pCtx g0 tr' (held True (ss @ byte_syms d @ [I2C_Bit True]))"
proof -
  obtain b' where "bus_at pCtx g0 (tx_bits rv pCtx 8 d tr) (held b' (ss @ byte_syms d))"
    using tx_bits_at [OF assms] byte_top_bits by metis
  from data_at [OF assms(1) this, of True]
  have at: "bus_at pCtx g0 (i2c_set_sda rv pCtx True (tx_bits rv pCtx 8 d tr)) (held True (ss @ byte_syms d))" .
  obtain tr' where tr': "i2c_get_sda rv pCtx (i2c_set_sda rv pCtx True (tx_bits rv pCtx 8 d tr)) =
      (\<not> dev (ss @ byte_syms d), tr')" "bus_at pCtx g0 tr' (held True (ss @ byte_syms d))"
    using get_sda_at [OF assms(1) at] by (auto simp: held_def)
  then show ?thesis
    using pulse_at [OF assms(1) tr'(2)] by (simp add: i2c_tx_def)
qed

lemma write_loop_at:
  assumes "i2c_bus pCtx g0 dev rv" "bus_at pCtx g0 tr (held b ss)"
    and "send_bytes dev data ss = (ok, ss')"
  shows "\<exists>tr'. write_loop rv pCtx data tr = (ok, tr') \<and> rests pCtx g0 tr' (ss' @ [I2C_Stop])"
  using assms(2,3)
proof (induction data arbitrary: tr b ss)
  case Nil
  then show ?case
    using stop_at [OF assms(1)] by auto
next
  case (Cons d data)
  obtain tr' where tx: "i2c_tx rv pCtx d tr = (dev (ss @ byte_syms d), tr')"
    "bus_at pCtx g0 tr' (held True (ss @ byte_syms d @ [I2C_Bit True]))"
    using tx_at [OF assms(1) Cons.prems(1)] by blast
  then show ?case
    using Cons.IH [OF tx(2)] stop_at [OF assms(1) tx(2)] Cons.prems(2)
    by (auto simp: Let_def split: if_splits)
qed

lemma write_buf_loop: "i2c_write_buf rv pCtx ADR data tr = write_loop rv pCtx (ADR # data) (i2c_start rv pCtx tr)"
  by (simp add: i2c_write_buf_def)

lemma write_regs_loop:
  "i2c_write_regs rv pCtx ADR r values tr = write_loop rv pCtx (ADR # r # values) (i2c_start rv pCtx tr)"
  by (auto simp: i2c_write_regs_def fun_eq_iff intro!: prod.case_cong split: prod.splits)

lemma frame_at:
  assumes "i2c_bus pCtx g0 dev rv" "rests pCtx g0 tr ss" "send_frame dev bs ss = (ok, ss')"
  shows "\<exists>tr'. write_loop rv pCtx bs (i2c_start rv pCtx tr) = (ok, tr') \<and> rests pCtx g0 tr' ss'"
proof -
  obtain s where "send_bytes dev bs (ss @ [I2C_Start]) = (ok, s)" "ss' = s @ [I2C_Stop]"
    using assms(3) by (auto simp: send_frame_def split: prod.splits)
  then show ?thesis
    using write_loop_at [OF assms(1) start_at [OF assms(1,2)]] by blast
qed

text \<open>
  Claim C17. Writing is a frame on the bus: with the bus at rest, \<open>i2c_write_buf\<close> sends a start, the address
  and the bytes with a released acknowledge bit behind each, until the device does not acknowledge
  one, and a stop; it reports whether all were acknowledged and leaves the bus at rest.
\<close>

theorem i2c_write_sends:
  assumes "i2c_bus pCtx g0 dev rv" "rests pCtx g0 tr ss"
    and "send_frame dev (ADR # data) ss = (ok, ss')"
  shows "\<exists>tr'. i2c_write_buf rv pCtx ADR data tr = (ok, tr') \<and> rests pCtx g0 tr' ss'"
  using frame_at [OF assms] by (simp add: write_buf_loop)

section \<open>Receiving\<close>

text \<open>The wait ends with a reading that shows the clock high, so that the data can be sampled next.\<close>

lemma stretch_ends:
  assumes "i2c_bus pCtx g0 dev rv" "bus_at pCtx g0 tr w" "scl w"
  shows "\<exists>tr'. i2c_stretch rv pCtx tr = Some tr' \<and> bus_at pCtx g0 tr' w \<and> sda_seen pCtx g0 dev rv tr'"
proof -
  let ?r = "RegRd (GpioBase pCtx + GPIO_INPUT)"
  have step: "i2c_stretch rv pCtx t = (if clock_seen pCtx rv t then Some (t @ [?r]) else i2c_stretch rv pCtx (t @ [?r]))" for t
    by (subst i2c_stretch.simps) (simp add: i2c_get_scl_def i2c_get_bit_def REG_RD_def clock_seen_def)
  have seen: "clock_seen pCtx rv t \<Longrightarrow> sda_seen pCtx g0 dev rv (t @ [?r])" for t
    using assms(1) by (simp add: i2c_bus_def)
  obtain n where "clock_seen pCtx rv (tr @ replicate n ?r)"
    using assms by (auto simp: i2c_bus_def bus_at_def Let_def)
  then show ?thesis
    using assms(2)
  proof (induction n arbitrary: tr)
    case 0
    then show ?case
      using step [of tr] seen [of tr] by (simp add: bus_at_read)
  next
    case (Suc n)
    have "\<exists>tr'. i2c_stretch rv pCtx (tr @ [?r]) = Some tr' \<and> bus_at pCtx g0 tr' w \<and> sda_seen pCtx g0 dev rv tr'"
      using Suc.IH [of "tr @ [?r]"] Suc.prems by (simp add: bus_at_read)
    then show ?case
      using step [of tr] seen [of tr] Suc.prems(2) by (auto simp: bus_at_read)
  qed
qed

lemma rx_bits_at:
  assumes "i2c_bus pCtx g0 dev rv" "bus_at pCtx g0 tr (held True ss)"
  shows "\<exists>tr'. rx_bits rv pCtx n d tr =
      Some (fold (\<lambda>b d. push_bit 1 d OR of_bool b) (recv_bits dev n ss) d, tr') \<and>
    bus_at pCtx g0 tr' (held True (ss @ replicate n (I2C_Bit True)))"
  using assms(2)
proof (induction n arbitrary: d tr ss)
  case 0
  then show ?case
    by simp
next
  case (Suc n)
  let ?w = "\<lparr>scl = True, sda = True, clocked = True, syms = ss\<rparr>"
  have "bus_at pCtx g0 (i2c_set_scl rv pCtx True tr) ?w"
    using set_bit_at(1) [OF assms(1) Suc.prems, of True] by (simp add: wire_simps)
  then obtain t1 where t1: "i2c_stretch rv pCtx (i2c_set_scl rv pCtx True tr) = Some t1" "bus_at pCtx g0 t1 ?w"
    "sda_seen pCtx g0 dev rv t1"
    using stretch_ends [OF assms(1)] by fastforce
  obtain t2 where t2: "i2c_get_sda rv pCtx t1 = (\<not> dev ss, t2)" "bus_at pCtx g0 t2 ?w"
    using sda_seen_at [OF t1(3,2)] by auto
  have "bus_at pCtx g0 (i2c_set_scl rv pCtx False t2) (held True (ss @ [I2C_Bit True]))"
    using set_bit_at(1) [OF assms(1) t2(2), of False] by (simp add: wire_simps)
  then show ?case
    using Suc.IH [of "i2c_set_scl rv pCtx False t2" "ss @ [I2C_Bit True]" "push_bit 1 d OR of_bool (\<not> dev ss)"]
    by (simp add: t1(1) t2(1) replicate_app_Cons_same)
qed

lemma rx_at:
  assumes "i2c_bus pCtx g0 dev rv" "bus_at pCtx g0 tr (held b ss)"
  shows "\<exists>tr'. i2c_rx rv pCtx ack tr = Some (rx_byte (recv_bits dev 8 ss), tr') \<and>
    bus_at pCtx g0 tr' (held True (ss @ replicate 8 (I2C_Bit True) @ [I2C_Bit (\<not> ack)]))"
proof -
  obtain t1 where t1: "rx_bits rv pCtx 8 0 (i2c_set_sda rv pCtx True tr) = Some (rx_byte (recv_bits dev 8 ss), t1)"
    "bus_at pCtx g0 t1 (held True (ss @ replicate 8 (I2C_Bit True)))"
    using rx_bits_at [OF assms(1) data_at [OF assms], of 8 0] unfolding rx_byte_def by blast
  then show ?thesis
    using data_at [OF assms(1) pulse_at [OF assms(1) data_at [OF assms(1) t1(2), of "\<not> ack"]], of True] t1(1)
    by (simp add: i2c_rx_def)
qed

lemma read_loop_at:
  assumes "i2c_bus pCtx g0 dev rv" "bus_at pCtx g0 tr (held True ss)" "recv_bytes dev n ss = (ds, ss')"
  shows "\<exists>tr'. read_loop rv pCtx n tr = Some (ds, tr') \<and> bus_at pCtx g0 tr' (held True ss')"
  using assms(2,3)
proof (induction n arbitrary: tr ss ds)
  case (Suc n)
  obtain t1 where t1: "i2c_rx rv pCtx (n \<noteq> 0) tr = Some (rx_byte (recv_bits dev 8 ss), t1)"
    "bus_at pCtx g0 t1 (held True (ss @ replicate 8 (I2C_Bit True) @ [I2C_Bit (n = 0)]))"
    using rx_at [OF assms(1) Suc.prems(1), of "n \<noteq> 0"] by auto
  obtain es where es: "recv_bytes dev n (ss @ replicate 8 (I2C_Bit True) @ [I2C_Bit (n = 0)]) = (es, ss')"
    "ds = rx_byte (recv_bits dev 8 ss) # es"
    using Suc.prems(2) by (auto split: prod.splits)
  show ?case
    using Suc.IH [OF t1(2) es(1)] t1(1) es(2) by auto
qed simp

lemma read_buf_at:
  assumes "i2c_bus pCtx g0 dev rv" "rests pCtx g0 tr ss"
    and "recv_frame dev ADR n ss = (ok, data, ss')"
  shows "\<exists>tr'. i2c_read_buf rv pCtx ADR n tr = Some (ok, data, tr') \<and> rests pCtx g0 tr' ss'"
proof -
  let ?a = "ss @ [I2C_Start] @ byte_syms (ADR OR 1)"
  obtain t1 where t1: "i2c_tx rv pCtx (ADR OR 1) (i2c_start rv pCtx tr) = (dev ?a, t1)"
    "bus_at pCtx g0 t1 (held True (?a @ [I2C_Bit True]))"
    using tx_at [OF assms(1) start_at [OF assms(1,2)]] by fastforce
  show ?thesis
  proof (cases "dev ?a")
    case False
    then show ?thesis
      using t1 stop_at [OF assms(1) t1(2)] assms(3) by (auto simp: i2c_read_buf_def recv_frame_def Let_def)
  next
    case True
    obtain s where s: "recv_bytes dev n (?a @ [I2C_Bit True]) = (data, s)" "ss' = s @ [I2C_Stop]" "ok"
      using True assms(3) by (auto simp: recv_frame_def Let_def split: prod.splits)
    obtain t2 where "read_loop rv pCtx n t1 = Some (data, t2)" "bus_at pCtx g0 t2 (held True s)"
      using read_loop_at [OF assms(1) t1(2) s(1)] by blast
    then show ?thesis
      using True t1(1) s(2,3) stop_at [OF assms(1)] by (auto simp: i2c_read_buf_def)
  qed
qed

text \<open>
  Claim C21. Reading is a frame on the bus: \<open>i2c_read_buf\<close> returns, however long the device holds the
  clock before a bit it sends, with the bytes the device puts on the data line, all acknowledged but
  the last. A bit that is sampled while the clock is held could be anything.
\<close>

theorem i2c_read_receives:
  assumes "i2c_bus pCtx g0 dev rv" "rests pCtx g0 tr ss"
    and "recv_frame dev ADR n ss = (ok, data, ss')"
  shows "\<exists>tr'. i2c_read_buf rv pCtx ADR n tr = Some (ok, data, tr') \<and> rests pCtx g0 tr' ss'"
  using read_buf_at [OF assms] .

section \<open>Initialisation\<close>

lemma thump_at:
  assumes "i2c_bus pCtx g0 dev rv" "bus_at pCtx g0 tr w" "scl w" "sda w"
  shows "\<exists>w'. bus_at pCtx g0 (thump rv pCtx n tr) w' \<and> scl w' \<and> sda w'"
  using assms(2-)
proof (induction n arbitrary: tr w)
  case (Suc n)
  note scl = set_bit_at(1) [OF assms(1)]
  show ?case
    using Suc.IH [OF scl [OF scl [OF Suc.prems(1)]]] Suc.prems(3) by (simp add: wire_step_def)
qed auto

text \<open>
  From any state of the block \<open>i2c_init\<close> releases both lines, with zeros in the output latches, so that
  frames can be sent.
\<close>

theorem i2c_init_rests:
  assumes "i2c_bus pCtx g0 dev rv"
  shows "\<exists>stuck tr' ss. i2c_init rv pCtx tr = (stuck, tr') \<and> rests pCtx g0 tr' ss"
proof -
  let ?c = "BitSCL pCtx" and ?d = "BitSDA pCtx" and ?g = "gpio_of pCtx g0"
  let ?s = "i2c_set_scl rv pCtx True (i2c_set_sda rv pCtx True tr)"
  let ?t = "REG_WR (GpioBase pCtx + GPIO_OUTPUT_CLR) ?d (REG_WR (GpioBase pCtx + GPIO_OUTPUT_CLR) ?c ?s)"
  have regs: "direction (?g ?t) = (direction (?g tr) AND NOT ?d) AND NOT ?c"
    "latch (?g ?t) = (latch (?g tr) AND NOT ?c) AND NOT ?d"
    by (simp_all add: REG_WR_def gpio_of_append i2c_set_scl_def i2c_set_sda_def set_bit_gpio [OF assms]
        Let_def gpio_write_def GPIO_DIRECTION_def GPIO_OUTPUT_def GPIO_OUTPUT_SET_def GPIO_OUTPUT_CLR_def)
  have lines: "scl (lines (?g ?t)) = released (?g ?t) ?c" "sda (lines (?g ?t)) = released (?g ?t) ?d"
    by (simp_all add: REG_WR_def gpio_of_append Let_def wire_step_def released_def)
  have zero: "((x AND NOT ?d) AND NOT ?c) AND ?c = 0" "((x AND NOT ?d) AND NOT ?c) AND ?d = 0"
    "((x AND NOT ?c) AND NOT ?d) AND ?c = 0" "((x AND NOT ?c) AND NOT ?d) AND ?d = 0" for x
    by (rule bit_word_eqI; auto simp: bit_simps)+
  have w: "bus_at pCtx g0 ?t (lines (?g ?t))" "scl (lines (?g ?t))" "sda (lines (?g ?t))"
    using lines by (simp_all add: bus_at_def Let_def regs zero released_def)
  obtain t1 where t1: "i2c_get_scl rv pCtx ?t = (rv ?t (GpioBase pCtx + GPIO_INPUT) AND ?c \<noteq> 0, t1)"
    "bus_at pCtx g0 t1 (lines (?g ?t))"
    using w(1) by (simp add: i2c_get_scl_def i2c_get_bit_def REG_RD_def bus_at_read)
  have read: "\<exists>b t'. i2c_get_sda rv pCtx t = (b, t') \<and> bus_at pCtx g0 t' w'" if "bus_at pCtx g0 t w'" for t w'
    using that by (simp add: i2c_get_sda_def i2c_get_bit_def REG_RD_def bus_at_read)
  obtain d t2 where t2: "i2c_get_sda rv pCtx t1 = (d, t2)" "bus_at pCtx g0 t2 (lines (?g ?t))"
    using read [OF t1(2)] by blast
  show ?thesis
  proof (cases d)
    case True
    then show ?thesis
      using t1(1) t2 w(2,3) by (auto simp: i2c_init_def Let_def rests_def)
  next
    case False
    obtain w' where w': "bus_at pCtx g0 (thump rv pCtx 32 t2) w'" "scl w'" "sda w'"
      using thump_at [OF assms t2(2) w(2,3)] by blast
    obtain d' t3 where "i2c_get_sda rv pCtx (thump rv pCtx 32 t2) = (d', t3)" "bus_at pCtx g0 t3 w'"
      using read [OF w'(1)] by blast
    then show ?thesis
      using False t1(1) t2(1) w'(2,3) by (auto simp: i2c_init_def Let_def rests_def)
  qed
qed

end
