(* ===== verification/I2c_Device.thy ===== *)
theory I2c_Device
  imports I2c_Driver
begin

text \<open>
  The software I2C master at work: a device with a file of byte registers as its counterpart on the
  bus, the round trip through such a device, and the initialisation of the audio codec
  (\<open>audio.c\<close>).
\<close>

section \<open>A register device\<close>

text \<open>
  The device listens for its address behind a start. A write sets the register number with its first byte and
  stores the others in consecutive registers; a read returns registers from that number on until
  the master does not acknowledge. \<open>dev_bits\<close> are the bits of the current byte.
\<close>

datatype dev_phase = Dev_Idle | Dev_Address | Dev_Number | Dev_Store | Dev_Load

record i2c_device =
  dev_phase :: dev_phase
  dev_bits :: "bool list"
  dev_pointer :: u8
  dev_file :: "u8 \<Rightarrow> u8"

definition dev_byte :: "u8 \<Rightarrow> bool \<Rightarrow> i2c_device \<Rightarrow> i2c_device" where
  "dev_byte adr b s = (let v = rx_byte (dev_bits s); s = s\<lparr>dev_bits := []\<rparr> in
     case dev_phase s of
       Dev_Idle \<Rightarrow> s
     | Dev_Address \<Rightarrow> s\<lparr>dev_phase :=
         (if v = adr then Dev_Number else if v = adr OR 1 then Dev_Load else Dev_Idle)\<rparr>
     | Dev_Number \<Rightarrow> s\<lparr>dev_phase := Dev_Store, dev_pointer := v\<rparr>
     | Dev_Store \<Rightarrow> s\<lparr>dev_file := (dev_file s)(dev_pointer s := v), dev_pointer := dev_pointer s + 1\<rparr>
     | Dev_Load \<Rightarrow> if b then s\<lparr>dev_phase := Dev_Idle\<rparr> else s\<lparr>dev_pointer := dev_pointer s + 1\<rparr>)"

fun dev_step :: "u8 \<Rightarrow> i2c_sym \<Rightarrow> i2c_device \<Rightarrow> i2c_device" where
  "dev_step adr I2C_Start s = s\<lparr>dev_phase := Dev_Address, dev_bits := []\<rparr>"
| "dev_step adr I2C_Stop s = s\<lparr>dev_phase := Dev_Idle\<rparr>"
| "dev_step adr (I2C_Bit b) s =
     (if dev_phase s = Dev_Idle then s
      else if length (dev_bits s) < 8 then s\<lparr>dev_bits := dev_bits s @ [b]\<rparr>
      else dev_byte adr b s)"

definition dev_after :: "u8 \<Rightarrow> i2c_device \<Rightarrow> i2c_sym list \<Rightarrow> i2c_device" where
  "dev_after adr s0 ss = fold (dev_step adr) ss s0"

text \<open>The device pulls the data line to acknowledge and for the zeros of the register it sends.\<close>

definition dev_pulls :: "u8 \<Rightarrow> i2c_device \<Rightarrow> bool" where
  "dev_pulls adr s = (case dev_phase s of
     Dev_Idle \<Rightarrow> False
   | Dev_Address \<Rightarrow> length (dev_bits s) = 8 \<and> rx_byte (dev_bits s) \<in> {adr, adr OR 1}
   | Dev_Number \<Rightarrow> length (dev_bits s) = 8
   | Dev_Store \<Rightarrow> length (dev_bits s) = 8
   | Dev_Load \<Rightarrow> length (dev_bits s) < 8 \<and> \<not> bit (dev_file s (dev_pointer s)) (7 - length (dev_bits s)))"

definition reg_device :: "u8 \<Rightarrow> i2c_device \<Rightarrow> i2c_sym list \<Rightarrow> bool" where
  "reg_device adr s0 ss = dev_pulls adr (dev_after adr s0 ss)"

lemma dev_after_append: "dev_after adr s0 (ss @ ts) = fold (dev_step adr) ts (dev_after adr s0 ss)"
  by (simp add: dev_after_def)

lemma bit_shift_in:
  fixes x :: u8
  shows "bit (push_bit 1 x OR of_bool b) n \<longleftrightarrow> (if n = 0 then b else n < 8 \<and> bit x (n - 1))"
  by (simp only: bit_or_iff bit_push_bit_iff possible_bit_word bit_of_bool_iff) auto

lemma bit_rx_byte: "bit (rx_byte bs) n \<longleftrightarrow> n < length bs \<and> n < 8 \<and> bs ! (length bs - 1 - n)"
proof (induction bs arbitrary: n rule: rev_induct)
  case Nil
  then show ?case
    by (simp add: rx_byte_def)
next
  case (snoc b bs)
  have "bit (rx_byte (bs @ [b])) n \<longleftrightarrow> (if n = 0 then b else n < 8 \<and> bit (rx_byte bs) (n - 1))"
    using bit_shift_in [of "rx_byte bs" b n] by (simp only: rx_byte_def fold_append fold.simps comp_apply id_apply)
  then show ?case
    using snoc [of "n - 1"] by (cases n) (auto simp: nth_append)
qed

lemma rx_byte_bits: "rx_byte (map (bit b) [7, 6, 5, 4, 3, 2, 1, 0]) = b"
proof (rule bit_word_eqI)
  fix n
  assume "n < LENGTH(8)"
  then have "n = 0 \<or> n = 1 \<or> n = 2 \<or> n = 3 \<or> n = 4 \<or> n = 5 \<or> n = 6 \<or> n = 7"
    by auto
  then show "bit (rx_byte (map (bit b) [7, 6, 5, 4, 3, 2, 1, 0])) n = bit b n"
    unfolding bit_rx_byte by (elim disjE; simp)
qed

lemma byte_received:
  assumes "dev_phase s \<noteq> Dev_Idle" "dev_bits s = []"
  shows "fold (dev_step adr) (byte_syms b) s = s\<lparr>dev_bits := map (bit b) [7, 6, 5, 4, 3, 2, 1, 0]\<rparr>"
  using assms by (simp add: byte_syms_def)

lemma byte_done:
  assumes "dev_phase s \<noteq> Dev_Idle" "dev_bits s = []"
  shows "fold (dev_step adr) (byte_syms b @ [I2C_Bit a]) s =
    dev_byte adr a (s\<lparr>dev_bits := map (bit b) [7, 6, 5, 4, 3, 2, 1, 0]\<rparr>)"
  using byte_received [OF assms] assms(1) by simp

lemma sent_byte:
  assumes "dev_after adr s0 ss = s" "dev_phase s \<in> {Dev_Number, Dev_Store}" "dev_bits s = []"
  shows "send_bytes (reg_device adr s0) (b # bs) ss =
    send_bytes (reg_device adr s0) bs (ss @ byte_syms b @ [I2C_Bit True])"
    "dev_after adr s0 (ss @ byte_syms b @ [I2C_Bit True]) =
      dev_byte adr True (s\<lparr>dev_bits := map (bit b) [7, 6, 5, 4, 3, 2, 1, 0]\<rparr>)"
  using assms byte_received [of s adr b] byte_done [of s adr b True]
  by (auto simp: reg_device_def dev_after_append dev_pulls_def)

lemma sent_address:
  assumes "b \<in> {adr, adr OR 1}"
  shows "send_bytes (reg_device adr s0) (b # bs) (ss @ [I2C_Start]) =
    send_bytes (reg_device adr s0) bs (ss @ [I2C_Start] @ byte_syms b @ [I2C_Bit True])"
    "dev_after adr s0 (ss @ [I2C_Start] @ byte_syms b @ [I2C_Bit True]) =
      (dev_after adr s0 ss)\<lparr>dev_phase := (if b = adr then Dev_Number else Dev_Load), dev_bits := []\<rparr>"
proof -
  define s where "s = (dev_after adr s0 ss)\<lparr>dev_phase := Dev_Address, dev_bits := []\<rparr>"
  have s: "dev_phase s = Dev_Address" "dev_phase s \<noteq> Dev_Idle" "dev_bits s = []"
    by (simp_all add: s_def)
  let ?b = "s\<lparr>dev_bits := map (bit b) [7, 6, 5, 4, 3, 2, 1, 0]\<rparr>"
  have start: "dev_after adr s0 (ss @ [I2C_Start]) = s"
    by (simp add: dev_after_append s_def)
  have after_byte: "dev_after adr s0 (ss @ [I2C_Start] @ byte_syms b) = ?b"
    using dev_after_append [of adr s0 "ss @ [I2C_Start]" "byte_syms b"] byte_received [OF s(2,3), of adr b]
    by (simp only: start append_assoc)
  have "dev_pulls adr ?b"
    using assms s(1) rx_byte_bits [of b] by (simp add: dev_pulls_def)
  then show "send_bytes (reg_device adr s0) (b # bs) (ss @ [I2C_Start]) =
    send_bytes (reg_device adr s0) bs (ss @ [I2C_Start] @ byte_syms b @ [I2C_Bit True])"
    using after_byte by (simp only: send_bytes.simps reg_device_def append_assoc Let_def if_True)
  have "dev_after adr s0 (ss @ [I2C_Start] @ byte_syms b @ [I2C_Bit True]) = dev_byte adr True ?b"
    using dev_after_append [of adr s0 "ss @ [I2C_Start]" "byte_syms b @ [I2C_Bit True]"]
      byte_done [OF s(2,3), of adr b True]
    by (simp only: start append_assoc)
  also have "\<dots> = (dev_after adr s0 ss)\<lparr>dev_phase := (if b = adr then Dev_Number else Dev_Load), dev_bits := []\<rparr>"
    using assms s(1) rx_byte_bits [of b] by (auto simp: dev_byte_def Let_def s_def)
  finally show "dev_after adr s0 (ss @ [I2C_Start] @ byte_syms b @ [I2C_Bit True]) =
      (dev_after adr s0 ss)\<lparr>dev_phase := (if b = adr then Dev_Number else Dev_Load), dev_bits := []\<rparr>" .
qed

text \<open>A register written, and a register number left for a read.\<close>

lemma sent_register:
  assumes "\<not> bit adr 0"
  shows "\<exists>ss'. send_frame (reg_device adr s0) [adr, r, v] ss = (True, ss') \<and>
    dev_file (dev_after adr s0 ss') = (dev_file (dev_after adr s0 ss))(r := v)"
proof -
  let ?s1 = "ss @ [I2C_Start] @ byte_syms adr @ [I2C_Bit True]"
  have s1: "dev_after adr s0 ?s1 = (dev_after adr s0 ss)\<lparr>dev_phase := Dev_Number, dev_bits := []\<rparr>"
    using sent_address(2) [of adr adr s0 ss] by simp
  let ?s2 = "?s1 @ byte_syms r @ [I2C_Bit True]"
  have s2: "dev_after adr s0 ?s2 =
      (dev_after adr s0 ss)\<lparr>dev_phase := Dev_Store, dev_bits := [], dev_pointer := r\<rparr>"
    using sent_byte(2) [OF s1, of r] rx_byte_bits [of r] by (simp add: dev_byte_def Let_def)
  let ?s3 = "?s2 @ byte_syms v @ [I2C_Bit True]"
  have s3: "dev_file (dev_after adr s0 ?s3) = (dev_file (dev_after adr s0 ss))(r := v)"
    using sent_byte(2) [OF s2, of v] rx_byte_bits [of v] by (simp add: dev_byte_def Let_def)
  have "send_bytes (reg_device adr s0) [adr, r, v] (ss @ [I2C_Start]) = (True, ?s3)"
    using sent_address(1) [of adr adr s0 "[r, v]" ss] sent_byte(1) [OF s1, of r "[v]"] sent_byte(1) [OF s2, of v "[]"] by simp
  moreover have "dev_file (dev_after adr s0 (?s3 @ [I2C_Stop])) = dev_file (dev_after adr s0 ?s3)"
    by (simp add: dev_after_def)
  ultimately show ?thesis
    using s3 by (auto simp: send_frame_def)
qed

lemma sent_number:
  assumes "\<not> bit adr 0"
  shows "\<exists>ss'. send_frame (reg_device adr s0) [adr, r] ss = (True, ss') \<and>
    dev_file (dev_after adr s0 ss') = dev_file (dev_after adr s0 ss) \<and> dev_pointer (dev_after adr s0 ss') = r"
proof -
  let ?s1 = "ss @ [I2C_Start] @ byte_syms adr @ [I2C_Bit True]"
  have s1: "dev_after adr s0 ?s1 = (dev_after adr s0 ss)\<lparr>dev_phase := Dev_Number, dev_bits := []\<rparr>"
    using sent_address(2) [of adr adr s0 ss] by simp
  let ?s2 = "?s1 @ byte_syms r @ [I2C_Bit True]"
  have s2: "dev_after adr s0 ?s2 =
      (dev_after adr s0 ss)\<lparr>dev_phase := Dev_Store, dev_bits := [], dev_pointer := r\<rparr>"
    using sent_byte(2) [OF s1, of r] rx_byte_bits [of r] by (simp add: dev_byte_def Let_def)
  have "send_bytes (reg_device adr s0) [adr, r] (ss @ [I2C_Start]) = (True, ?s2)"
    using sent_address(1) [of adr adr s0 "[r]" ss] sent_byte(1) [OF s1, of r "[]"] by simp
  moreover have "dev_after adr s0 (?s2 @ [I2C_Stop]) = (dev_after adr s0 ?s2)\<lparr>dev_phase := Dev_Idle\<rparr>"
    by (simp add: dev_after_def)
  ultimately show ?thesis
    using s2 by (auto simp: send_frame_def)
qed

lemma loaded_bits:
  assumes "dev_after adr s0 ss = s" "dev_phase s = Dev_Load" "length (dev_bits s) + n = 8"
  shows "recv_bits (reg_device adr s0) n ss =
      map (\<lambda>k. bit (dev_file s (dev_pointer s)) (7 - k)) [length (dev_bits s)..<8] \<and>
    dev_after adr s0 (ss @ replicate n (I2C_Bit True)) = s\<lparr>dev_bits := dev_bits s @ replicate n True\<rparr>"
  using assms
proof (induction n arbitrary: ss s)
  case 0
  then show ?case
    by simp
next
  case (Suc n)
  let ?t = "s\<lparr>dev_bits := dev_bits s @ [True]\<rparr>"
  have t: "dev_after adr s0 (ss @ [I2C_Bit True]) = ?t"
    using Suc.prems by (simp add: dev_after_append)
  have "[length (dev_bits s)..<8] = length (dev_bits s) # [length (dev_bits ?t)..<8]"
    using Suc.prems(3) by (simp add: upt_conv_Cons)
  moreover have "\<not> reg_device adr s0 ss = bit (dev_file s (dev_pointer s)) (7 - length (dev_bits s))"
    using Suc.prems by (simp add: reg_device_def dev_pulls_def)
  ultimately show ?case
    using Suc.IH [OF t] Suc.prems(2,3) by (simp add: replicate_app_Cons_same)
qed

lemma loaded_byte:
  assumes "dev_after adr s0 ss = s" "dev_phase s = Dev_Load" "dev_bits s = []"
  shows "recv_bytes (reg_device adr s0) 1 ss =
    ([dev_file s (dev_pointer s)], ss @ replicate 8 (I2C_Bit True) @ [I2C_Bit True])"
proof -
  have "recv_bits (reg_device adr s0) 8 ss = map (bit (dev_file s (dev_pointer s))) [7, 6, 5, 4, 3, 2, 1, 0]"
    using loaded_bits [OF assms(1,2), of 8] assms(3) by (simp add: upt_rec)
  then show ?thesis
    using rx_byte_bits [of "dev_file s (dev_pointer s)"] by simp
qed

lemma received_register:
  assumes "\<not> bit adr 0"
  shows "\<exists>ss'. recv_frame (reg_device adr s0) adr 1 ss =
    (True, [dev_file (dev_after adr s0 ss) (dev_pointer (dev_after adr s0 ss))], ss')"
proof -
  have other: "adr OR 1 \<noteq> adr"
    using assms bit_or_iff [of adr 1 0] by auto
  let ?s = "ss @ [I2C_Start] @ byte_syms (adr OR 1) @ [I2C_Bit True]"
  have "dev_after adr s0 ?s = (dev_after adr s0 ss)\<lparr>dev_phase := Dev_Load, dev_bits := []\<rparr>"
    using sent_address(2) [of "adr OR 1" adr s0 ss] other by simp
  note loaded = loaded_byte [OF this]
  have "send_bytes (reg_device adr s0) [adr OR 1] (ss @ [I2C_Start]) = (True, ?s)"
    using sent_address(1) [of "adr OR 1" adr s0 "[]" ss] by simp
  then show ?thesis
    using loaded by (simp add: recv_frame_def)
qed

text \<open>
  Claim C16. A register written over the software I2C bus is read back: with a register device at an even
  address, from a bus at rest, \<open>i2c_write_reg\<close> changes exactly that register of the device, and
  \<open>i2c_read_reg\<close> ends and returns the value written.
\<close>

theorem i2c_register_roundtrip:
  assumes "i2c_bus pCtx g0 (reg_device adr s0) rv" "rests pCtx g0 tr ss" "\<not> bit adr 0"
  shows "\<exists>tr1 ss1 tr2. i2c_write_reg rv pCtx adr r v tr = (True, tr1) \<and> rests pCtx g0 tr1 ss1 \<and>
    dev_file (dev_after adr s0 ss1) = (dev_file (dev_after adr s0 ss))(r := v) \<and>
    i2c_read_reg rv pCtx adr r tr1 = Some (True, [v], tr2)"
proof -
  obtain ss1 where ss1: "send_frame (reg_device adr s0) [adr, r, v] ss = (True, ss1)"
    "dev_file (dev_after adr s0 ss1) = (dev_file (dev_after adr s0 ss))(r := v)"
    using sent_register [OF assms(3)] by blast
  obtain tr1 where tr1: "i2c_write_reg rv pCtx adr r v tr = (True, tr1)" "rests pCtx g0 tr1 ss1"
    using frame_at [OF assms(1,2) ss1(1)] by (auto simp: i2c_write_reg_def write_buf_loop)
  obtain ss2 where ss2: "send_frame (reg_device adr s0) [adr, r] ss1 = (True, ss2)"
    "dev_file (dev_after adr s0 ss2) = dev_file (dev_after adr s0 ss1)" "dev_pointer (dev_after adr s0 ss2) = r"
    using sent_number [OF assms(3)] by blast
  obtain t where t: "i2c_write_buf rv pCtx adr [r] tr1 = (True, t)" "rests pCtx g0 t ss2"
    using frame_at [OF assms(1) tr1(2) ss2(1)] by (auto simp: write_buf_loop)
  obtain ss3 where ss3: "recv_frame (reg_device adr s0) adr 1 ss2 = (True, [v], ss3)"
    using received_register [OF assms(3), of s0 ss2] ss1(2) ss2(2,3) by auto
  obtain tr2 where "i2c_read_buf rv pCtx adr 1 t = Some (True, [v], tr2)"
    using read_buf_at [OF assms(1) t(2) ss3] by blast
  then have "i2c_read_reg rv pCtx adr r tr1 = Some (True, [v], tr2)"
    using t(1) by (simp add: i2c_read_reg_def i2c_read_regs_def)
  then show ?thesis
    using tr1 ss1(2) by blast
qed

section \<open>The audio codec\<close>

text \<open>
  The table of \<open>audio.c\<close>: register addresses and values of the WM8750, up to the entry with address -1.
  The table of \<open>cores/g2/opl3\<close> differs in the sampling rate only.
\<close>

definition codec_table :: "int \<Rightarrow> (int \<times> int) list" where
  "codec_table rate =
     [(0x0F, 0),
      (0x02, push_bit 8 0 OR push_bit 7 0 OR 0x78),
      (0x03, push_bit 8 1 OR push_bit 7 0 OR 0x78),
      (0x05, push_bit 3 0 OR push_bit 1 0),
      (0x07, push_bit 7 0 OR push_bit 6 0 OR push_bit 5 0 OR push_bit 4 1 OR push_bit 2 0 OR 3),
      (0x08, rate),
      (0x0A, push_bit 8 0 OR 0xff),
      (0x0B, push_bit 8 1 OR 0xff),
      (0x0C, push_bit 7 0 OR push_bit 6 1 OR 0xf),
      (0x0D, push_bit 6 0 OR 0xf),
      (0x10, 0),
      (0x17, push_bit 8 1 OR push_bit 6 3 OR push_bit 4 0 OR push_bit 2 0 OR push_bit 1 0 OR 1),
      (0x18, push_bit 7 0 OR push_bit 6 1 OR push_bit 5 0 OR push_bit 4 1 OR push_bit 3 0 OR push_bit 2 0
         OR push_bit 1 0 OR 0),
      (0x19, push_bit 7 1 OR push_bit 6 1 OR push_bit 5 0 OR push_bit 4 0 OR push_bit 3 0 OR push_bit 2 0
         OR push_bit 1 0 OR 0),
      (0x1a, push_bit 8 1 OR push_bit 7 1 OR push_bit 6 1 OR push_bit 5 1 OR push_bit 4 1 OR push_bit 3 1
         OR push_bit 2 0 OR push_bit 1 0),
      (0x1b, push_bit 7 0 OR push_bit 6 0 OR push_bit 5 0),
      (0x22, push_bit 8 1 OR push_bit 7 0 OR push_bit 4 0 OR 0),
      (0x23, push_bit 8 0 OR push_bit 7 0 OR push_bit 4 0),
      (0x24, push_bit 8 0 OR push_bit 7 0 OR push_bit 4 0 OR 0),
      (0x25, push_bit 8 1 OR push_bit 7 0 OR push_bit 4 0),
      (0x26, 0),
      (0x27, 0),
      (0x28, push_bit 8 0 OR push_bit 7 0 OR 120),
      (0x29, push_bit 8 1 OR push_bit 7 0 OR 120),
      (0x2A, 0),
      (- 1, - 1)]"

definition audio_registers :: "(int \<times> int) list" where
  "audio_registers = codec_table (push_bit 7 0 OR push_bit 6 0 OR push_bit 1 0x1c OR 1)"

definition WM8750L_I2C_ADR :: u8 where "WM8750L_I2C_ADR = 0x34"

text \<open>The walk over the table; it is read up to its end mark, so the empty list is not reached.\<close>

fun audio_loop :: "regs \<Rightarrow> ContextI2C \<Rightarrow> (int \<times> int) list \<Rightarrow> reg list \<Rightarrow> reg list" where
  "audio_loop rv pCtx [] tr = tr"
| "audio_loop rv pCtx ((addr, val) # es) tr =
     (if addr = - 1 then tr
      else case i2c_write_reg rv pCtx WM8750L_I2C_ADR (word_of_int (push_bit 1 addr OR drop_bit 8 val))
          (word_of_int (val AND 0xff)) tr of
        (ok, tr) \<Rightarrow> if ok then audio_loop rv pCtx es tr else tr)"

text \<open>The table and the loop of the copy under \<open>cores/g2/opl3\<close>.\<close>

definition opl3_audio_registers :: "(int \<times> int) list" where
  "opl3_audio_registers = codec_table (push_bit 7 0 OR push_bit 6 0 OR push_bit 1 0 OR 1)"

definition opl3_audio_init :: "regs \<Rightarrow> ContextI2C \<Rightarrow> reg list \<Rightarrow> reg list" where
  "opl3_audio_init rv pCtx = audio_loop rv pCtx opl3_audio_registers"

definition audio_init :: "regs \<Rightarrow> ContextI2C \<Rightarrow> reg list \<Rightarrow> reg list" where
  "audio_init rv pCtx = audio_loop rv pCtx audio_registers"

text \<open>
  The codec as its data sheet has it: a frame of three bytes to its address, of which the second
  and third carry seven bits of register address and nine bits of data. It acknowledges each byte.
  A write to the reset register puts every register back to its value at power-up, \<open>codec_reset\<close>,
  which is a parameter.
\<close>

record codec =
  codec_bits :: "bool list"
  codec_regs :: "nat \<Rightarrow> nat"
  codec_reset :: "nat \<Rightarrow> nat"

definition codec_write :: "(nat \<Rightarrow> nat) \<Rightarrow> nat \<times> nat \<Rightarrow> (nat \<Rightarrow> nat) \<Rightarrow> nat \<Rightarrow> nat" where
  "codec_write start rv m = (if fst rv = 0x0F then start else m(fst rv := snd rv))"

definition codec_word :: "u8 \<Rightarrow> u8 \<Rightarrow> nat \<times> nat" where
  "codec_word r v = (unat r div 2, 256 * (unat r mod 2) + unat v)"

fun codec_step :: "i2c_sym \<Rightarrow> codec \<Rightarrow> codec" where
  "codec_step I2C_Start c = c\<lparr>codec_bits := []\<rparr>"
| "codec_step (I2C_Bit b) c = c\<lparr>codec_bits := codec_bits c @ [b]\<rparr>"
| "codec_step I2C_Stop c =
     (let bs = codec_bits c;
          rv = codec_word (rx_byte (take 8 (drop 9 bs))) (rx_byte (take 8 (drop 18 bs)))
      in if length bs = 27 \<and> rx_byte (take 8 bs) = WM8750L_I2C_ADR
         then c\<lparr>codec_regs := codec_write (codec_reset c) rv (codec_regs c)\<rparr> else c)"

definition codec_after :: "codec \<Rightarrow> i2c_sym list \<Rightarrow> codec" where
  "codec_after c0 ss = fold codec_step ss c0"

definition codec_acks :: "codec \<Rightarrow> (i2c_sym list \<Rightarrow> bool) \<Rightarrow> bool" where
  "codec_acks c0 dev \<longleftrightarrow> (\<forall>ss. length (codec_bits (codec_after c0 ss)) mod 9 = 8 \<longrightarrow> dev ss)"

definition bits_of :: "u8 \<Rightarrow> bool list" where
  "bits_of b = map (bit b) [7, 6, 5, 4, 3, 2, 1, 0]"

lemma bits_of_props: "length (bits_of b) = 8" "rx_byte (bits_of b) = b"
  using rx_byte_bits [of b] by (simp_all add: bits_of_def)

lemma codec_byte:
  "fold codec_step (byte_syms b) c = c\<lparr>codec_bits := codec_bits c @ bits_of b\<rparr>"
  by (simp add: byte_syms_def bits_of_def)

lemma codec_after_append: "codec_after c0 (ss @ ts) = fold codec_step ts (codec_after c0 ss)"
  by (simp add: codec_after_def)

lemma codec_reset_after: "codec_reset (codec_after c0 ss) = codec_reset c0"
proof -
  have "codec_reset (codec_step e c) = codec_reset c" for e c
    by (cases e) (simp_all add: Let_def)
  then show ?thesis
    unfolding codec_after_def by (induction ss arbitrary: c0) simp_all
qed

lemma codec_sent:
  assumes "codec_acks c0 dev" "length (codec_bits (codec_after c0 ss)) mod 9 = 0"
  shows "\<exists>ss'. send_bytes dev bs ss = (True, ss') \<and> codec_after c0 ss' = (codec_after c0 ss)
    \<lparr>codec_bits := codec_bits (codec_after c0 ss) @ concat (map (\<lambda>b. bits_of b @ [True]) bs)\<rparr>"
  using assms(2)
proof (induction bs arbitrary: ss)
  case Nil
  then show ?case
    by simp
next
  case (Cons b bs)
  let ?c = "codec_after c0 ss"
  let ?t = "ss @ byte_syms b @ [I2C_Bit True]"
  have t: "codec_after c0 ?t = ?c\<lparr>codec_bits := codec_bits ?c @ bits_of b @ [True]\<rparr>"
    by (simp add: codec_after_append codec_byte)
  have "length (codec_bits (codec_after c0 (ss @ byte_syms b))) mod 9 = 8"
    using Cons.prems by (simp add: codec_after_append codec_byte bits_of_props mod_add_left_eq [symmetric])
  then have "dev (ss @ byte_syms b)"
    using assms(1) by (simp add: codec_acks_def)
  moreover have "length (codec_bits (codec_after c0 ?t)) mod 9 = 0"
    using Cons.prems unfolding t by (simp add: bits_of_props mod_add_left_eq [symmetric])
  ultimately show ?case
    using Cons.IH [of ?t] t by (auto simp: Let_def)
qed

lemma codec_frame:
  assumes "codec_acks c0 dev"
  shows "\<exists>ss'. send_frame dev [WM8750L_I2C_ADR, r, v] ss = (True, ss') \<and>
    codec_regs (codec_after c0 ss') = codec_write (codec_reset c0) (codec_word r v) (codec_regs (codec_after c0 ss))"
proof -
  let ?s = "ss @ [I2C_Start]" and ?bs = "[WM8750L_I2C_ADR, r, v]"
  have start: "codec_after c0 ?s = (codec_after c0 ss)\<lparr>codec_bits := []\<rparr>"
    by (simp add: codec_after_append)
  obtain s where s: "send_bytes dev ?bs ?s = (True, s)"
    "codec_after c0 s = (codec_after c0 ss)\<lparr>codec_bits := concat (map (\<lambda>b. bits_of b @ [True]) ?bs)\<rparr>"
    using codec_sent [OF assms, of ?s ?bs] start by auto
  have "codec_regs (codec_after c0 (s @ [I2C_Stop])) =
      codec_write (codec_reset c0) (codec_word r v) (codec_regs (codec_after c0 ss))"
    by (simp add: codec_after_append s(2) bits_of_props codec_reset_after)
  then show ?thesis
    using s(1) by (simp add: send_frame_def)
qed

text \<open>
  What a table of register values makes of the registers, and what the writes of its entries do,
  among which a reset undoes all before it.
\<close>

definition programmed :: "(int \<times> int) list \<Rightarrow> (nat \<Rightarrow> nat) \<Rightarrow> nat \<Rightarrow> nat" where
  "programmed es = fold (\<lambda>(a, v) m. m(nat a := nat v)) es"

lemma programmed_simps:
  "programmed [] m = m" "programmed ((a, v) # es) m = programmed es (m(nat a := nat v))"
  by (simp_all add: programmed_def)

definition codec_writes :: "(nat \<Rightarrow> nat) \<Rightarrow> (int \<times> int) list \<Rightarrow> (nat \<Rightarrow> nat) \<Rightarrow> nat \<Rightarrow> nat" where
  "codec_writes start es = fold (\<lambda>(a, v). codec_write start (nat a, nat v)) es"

lemma codec_writes_simps:
  "codec_writes start [] m = m"
  "codec_writes start ((a, v) # es) m = codec_writes start es (codec_write start (nat a, nat v) m)"
  by (simp_all add: codec_writes_def)

lemma codec_writes_programmed:
  "list_all (\<lambda>(a, v). nat a \<noteq> 0x0F) es \<Longrightarrow> codec_writes start es m = programmed es m"
  by (induction es arbitrary: m) (auto simp: codec_writes_simps programmed_simps codec_write_def)

definition codec_entry :: "int \<times> int \<Rightarrow> bool" where
  "codec_entry = (\<lambda>(addr, val). addr \<noteq> - 1 \<and>
     codec_word (word_of_int (push_bit 1 addr OR drop_bit 8 val)) (word_of_int (val AND 0xff)) =
       (nat addr, nat val))"

lemma audio_loop_at:
  assumes "i2c_bus pCtx g0 dev rv" "rests pCtx g0 tr ss" "codec_acks c0 dev" "list_all codec_entry es"
  shows "\<exists>ss'. rests pCtx g0 (audio_loop rv pCtx (es @ [(- 1, x)]) tr) ss' \<and>
    codec_regs (codec_after c0 ss') = codec_writes (codec_reset c0) es (codec_regs (codec_after c0 ss))"
  using assms(2,4)
proof (induction es arbitrary: tr ss)
  case Nil
  then show ?case
    by (auto simp: codec_writes_simps)
next
  case (Cons e es)
  obtain a v where e: "e = (a, v)"
    by (cases e)
  let ?r = "word_of_int (push_bit 1 a OR drop_bit 8 v) :: u8" and ?v = "word_of_int (v AND 0xff) :: u8"
  obtain s where s: "send_frame dev [WM8750L_I2C_ADR, ?r, ?v] ss = (True, s)"
    "codec_regs (codec_after c0 s) = codec_write (codec_reset c0) (nat a, nat v) (codec_regs (codec_after c0 ss))"
    using codec_frame [OF assms(3), of ?r ?v ss] Cons.prems(2) by (auto simp: e codec_entry_def)
  obtain t where t: "i2c_write_reg rv pCtx WM8750L_I2C_ADR ?r ?v tr = (True, t)" "rests pCtx g0 t s"
    using frame_at [OF assms(1) Cons.prems(1) s(1)] by (auto simp: i2c_write_reg_def write_buf_loop)
  have "\<exists>ss'. rests pCtx g0 (audio_loop rv pCtx (es @ [(- 1, x)]) t) ss' \<and>
      codec_regs (codec_after c0 ss') = codec_writes (codec_reset c0) es (codec_regs (codec_after c0 s))"
    using Cons.IH [OF t(2)] Cons.prems(2) by simp
  moreover have "audio_loop rv pCtx ((e # es) @ [(- 1, x)]) tr = audio_loop rv pCtx (es @ [(- 1, x)]) t"
    using Cons.prems(2) t(1) by (simp add: e codec_entry_def)
  ultimately show ?case
    unfolding s(2) e codec_writes_simps by simp
qed

lemma small_byte: "0 \<le> k \<Longrightarrow> k < 256 \<Longrightarrow> unat (word_of_int k :: u8) = nat k"
  by (simp add: unat_eq_nat_uint uint_word_of_int)

text \<open>Seven bits of address and nine bits of value survive the encoding.\<close>

lemma codec_entry_nat:
  assumes "n < 128" "m < 512"
  shows "codec_entry (int n, int m)"
proof -
  define q where "q = m div 256"
  have q: "q = 0 \<or> q = 1" "m = 256 * q + m mod 256"
    using assms(2) by (auto simp: q_def)
  have "push_bit 1 (int n) = int (2 * n)" "drop_bit 8 (int m) = int q"
    by (simp_all add: push_bit_eq_mult drop_bit_eq_div q_def)
  then have r: "push_bit 1 (int n) OR drop_bit 8 (int m) = int (2 * n + q)"
    using q(1) by (auto simp: or_one_eq)
  have l: "int m AND 0xff = int (m mod 256)"
    using take_bit_eq_mask [of 8 "int m"] by (simp add: take_bit_eq_mod mask_eq_exp_minus_1 of_nat_mod)
  have w: "unat (word_of_int (int (2 * n + q)) :: u8) = 2 * n + q" "unat (word_of_int (int (m mod 256)) :: u8) = m mod 256"
    using small_byte [of "int (2 * n + q)"] small_byte [of "int (m mod 256)"] assms(1) q(1)
    by (simp_all only: nat_int) auto
  have "(2 * n + q) div 2 = n" "256 * ((2 * n + q) mod 2) + m mod 256 = m"
    using q by auto
  then show ?thesis
    unfolding codec_entry_def codec_word_def prod.case r l w by simp
qed

lemma codec_entry_fits:
  assumes "0 \<le> a" "a < 128" "0 \<le> v" "v < 512"
  shows "codec_entry (a, v)"
  using codec_entry_nat [of "nat a" "nat v"] assms by simp

definition entry_fits :: "int \<times> int \<Rightarrow> bool" where
  "entry_fits = (\<lambda>(a, v). 0 \<le> a \<and> a < 128 \<and> 0 \<le> v \<and> v < 512)"

lemma table_entries:
  "list_all codec_entry (butlast audio_registers)" "list_all codec_entry (butlast opl3_audio_registers)"
proof -
  have "list_all entry_fits (butlast audio_registers)" "list_all entry_fits (butlast opl3_audio_registers)"
    by (simp_all add: audio_registers_def opl3_audio_registers_def codec_table_def entry_fits_def push_bit_eq_mult)
  then show "list_all codec_entry (butlast audio_registers)" "list_all codec_entry (butlast opl3_audio_registers)"
    by (auto simp: entry_fits_def codec_entry_fits elim!: list.pred_mono_strong)
qed

lemma table_ends:
  "audio_registers = butlast audio_registers @ [(- 1, - 1)]"
  "opl3_audio_registers = butlast opl3_audio_registers @ [(- 1, - 1)]"
  by (simp_all add: audio_registers_def opl3_audio_registers_def codec_table_def)

lemma tables_reset_first:
  "codec_writes start (butlast audio_registers) m = programmed (tl (butlast audio_registers)) start"
  "codec_writes start (butlast opl3_audio_registers) m = programmed (tl (butlast opl3_audio_registers)) start"
proof -
  have first: "butlast audio_registers = (0x0F, 0) # tl (butlast audio_registers)"
    "butlast opl3_audio_registers = (0x0F, 0) # tl (butlast opl3_audio_registers)"
    by (simp_all add: audio_registers_def opl3_audio_registers_def codec_table_def)
  have "list_all (\<lambda>(a, v). nat a \<noteq> 0x0F) (tl (butlast audio_registers))"
    "list_all (\<lambda>(a, v). nat a \<noteq> 0x0F) (tl (butlast opl3_audio_registers))"
    by (simp_all add: audio_registers_def opl3_audio_registers_def codec_table_def)
  then show "codec_writes start (butlast audio_registers) m = programmed (tl (butlast audio_registers)) start"
    "codec_writes start (butlast opl3_audio_registers) m = programmed (tl (butlast opl3_audio_registers)) start"
    by (subst first, simp add: codec_writes_simps codec_write_def codec_writes_programmed)+
qed

text \<open>
  Claim C18. \<open>audio_init\<close> programs the codec: on a bus with a WM8750 that acknowledges, and whatever its registers
  held before, they hold the values of the table behind its first entry, the reset, and those that
  are not in the table their values at power-up. A value of nine bits is sent in two bytes with the
  register address. The same holds for the table of the second copy.
\<close>

theorem audio_init_programs:
  assumes "i2c_bus pCtx g0 dev rv" "rests pCtx g0 tr ss" "codec_acks c0 dev"
  shows "(\<exists>ss'. rests pCtx g0 (audio_init rv pCtx tr) ss' \<and>
      codec_regs (codec_after c0 ss') = programmed (tl (butlast audio_registers)) (codec_reset c0)) \<and>
    (\<exists>ss'. rests pCtx g0 (opl3_audio_init rv pCtx tr) ss' \<and>
      codec_regs (codec_after c0 ss') = programmed (tl (butlast opl3_audio_registers)) (codec_reset c0))"
  using audio_loop_at [OF assms table_entries(1)] audio_loop_at [OF assms table_entries(2)] table_ends
  unfolding audio_init_def opl3_audio_init_def tables_reset_first by metis

section \<open>The properties on a concrete bus\<close>

text \<open>
  A GPIO block with a device that holds the clock for one reading after every release; meanwhile the
  data pin reads high.
\<close>

definition gpio_regs :: "ContextI2C \<Rightarrow> gpio_block \<Rightarrow> (i2c_sym list \<Rightarrow> bool) \<Rightarrow> regs" where
  "gpio_regs pCtx g0 dev tr a =
     (let g = gpio_of pCtx g0 tr;
          waited = (tr \<noteq> [] \<and> last tr = RegRd (GpioBase pCtx + GPIO_INPUT));
          free = released g (BitSCL pCtx)
      in if a = GpioBase pCtx + GPIO_DIRECTION then direction g
         else if a = GpioBase pCtx + GPIO_INPUT
         then (if free \<and> waited then BitSCL pCtx else 0) OR
           (if free \<and> \<not> waited \<or> released g (BitSDA pCtx) \<and> \<not> dev (syms (lines g)) then BitSDA pCtx else 0)
         else 0)"

definition demo_ctx :: ContextI2C where
  "demo_ctx = \<lparr>GpioBase = GPIO_BASE, BitSCL = 0x1000, BitSDA = 0x2000, I2CDelay = 0\<rparr>"

definition demo_block :: gpio_block where
  "demo_block = \<lparr>direction = 0, latch = 0, lines = \<lparr>scl = True, sda = True, clocked = False, syms = []\<rparr>\<rparr>"

definition demo_device :: i2c_device where
  "demo_device = \<lparr>dev_phase = Dev_Idle, dev_bits = [], dev_pointer = 3, dev_file = (\<lambda>r. 5 * r)\<rparr>"

lemma demo_bus: "i2c_bus demo_ctx demo_block dev (gpio_regs demo_ctx demo_block dev)"
proof -
  let ?r = "RegRd (GpioBase demo_ctx + GPIO_INPUT)" and ?rv = "gpio_regs demo_ctx demo_block dev"
  note defs = gpio_regs_def Let_def demo_ctx_def GPIO_DIRECTION_def GPIO_INPUT_def
  have seen: "sda_seen demo_ctx demo_block dev ?rv tr"
    if "\<not> released (gpio_of demo_ctx demo_block tr) (BitSCL demo_ctx) \<or> tr \<noteq> [] \<and> last tr = ?r" for tr
    using that by (auto simp: sda_seen_def defs)
  have clock: "clock_seen demo_ctx ?rv (tr @ [?r])" if "released (gpio_of demo_ctx demo_block tr) (BitSCL demo_ctx)" for tr
  proof -
    have "released (gpio_of demo_ctx demo_block (tr @ [?r])) (BitSCL demo_ctx)"
      using that by (simp add: gpio_of_append)
    then show ?thesis
      by (auto simp: clock_seen_def defs)
  qed
  have "\<exists>n. clock_seen demo_ctx ?rv (tr @ replicate n ?r)"
    if "released (gpio_of demo_ctx demo_block tr) (BitSCL demo_ctx)" for tr
    using clock [OF that] by (intro exI [of _ 1]) simp
  moreover have "?rv tr (GpioBase demo_ctx + GPIO_DIRECTION) = direction (gpio_of demo_ctx demo_block tr)" for tr
    by (simp add: gpio_regs_def Let_def)
  moreover have "BitSCL demo_ctx \<noteq> 0 \<and> BitSDA demo_ctx \<noteq> 0 \<and> BitSCL demo_ctx AND BitSDA demo_ctx = 0"
    by (simp add: demo_ctx_def)
  ultimately show ?thesis
    unfolding i2c_bus_def using seen by simp
qed

lemma demo_rests: "rests demo_ctx demo_block [] []"
  by (simp add: rests_def bus_at_def gpio_of_def demo_block_def released_def)

theorem i2c_write_sends_witness:
  "\<exists>tr. i2c_write_buf (gpio_regs demo_ctx demo_block (reg_device 0x40 demo_device)) demo_ctx 0x42 [1] [] =
      (False, tr) \<and>
    rests demo_ctx demo_block tr ([I2C_Start] @ byte_syms 0x42 @ [I2C_Bit True, I2C_Stop])"
proof -
  have "rx_byte [False, True, False, False, False, False, True, False] = (0x42 :: u8)"
    by (simp add: rx_byte_def)
  then have "\<not> reg_device 0x40 demo_device ([I2C_Start] @ byte_syms 0x42)"
    by (simp add: reg_device_def dev_after_def demo_device_def byte_syms_def dev_pulls_def)
  then have "send_frame (reg_device 0x40 demo_device) [0x42, 1] [] =
      (False, [I2C_Start] @ byte_syms 0x42 @ [I2C_Bit True, I2C_Stop])"
    by (simp add: send_frame_def Let_def)
  from i2c_write_sends [OF demo_bus demo_rests this] show ?thesis
    by blast
qed

theorem i2c_register_roundtrip_witness:
  "\<exists>tr1 tr2. i2c_write_reg (gpio_regs demo_ctx demo_block (reg_device 0x40 demo_device)) demo_ctx 0x40 7 0xa5 [] =
      (True, tr1) \<and>
    i2c_read_reg (gpio_regs demo_ctx demo_block (reg_device 0x40 demo_device)) demo_ctx 0x40 7 tr1 =
      Some (True, [0xa5], tr2)"
proof -
  have "\<not> bit (0x40 :: u8) 0"
    by simp
  from i2c_register_roundtrip [OF demo_bus demo_rests this, of demo_device 7 "0xa5"] show ?thesis
    by blast
qed

theorem i2c_read_receives_witness:
  "\<exists>tr. i2c_read_buf (gpio_regs demo_ctx demo_block (reg_device 0x40 demo_device)) demo_ctx 0x40 1 [] =
    Some (True, [0x0f], tr)"
proof -
  have "\<not> bit (0x40 :: u8) 0"
    by simp
  from received_register [OF this, of demo_device "[]"] obtain ss' where
    "recv_frame (reg_device 0x40 demo_device) 0x40 1 [] = (True, [0x0f], ss')"
    by (auto simp: dev_after_def demo_device_def)
  from i2c_read_receives [OF demo_bus demo_rests this] show ?thesis
    by blast
qed

theorem i2c_init_rests_witness:
  "\<exists>stuck tr ss. i2c_init (gpio_regs demo_ctx demo_block (\<lambda>ss. True)) demo_ctx [] = (stuck, tr) \<and>
    rests demo_ctx demo_block tr ss"
  using i2c_init_rests [OF demo_bus] by blast

definition demo_codec :: codec where
  "demo_codec = \<lparr>codec_bits = [], codec_regs = (\<lambda>r. 0), codec_reset = (\<lambda>r. 1)\<rparr>"

theorem audio_init_programs_witness:
  "\<exists>dev ss. rests demo_ctx demo_block (audio_init (gpio_regs demo_ctx demo_block dev) demo_ctx []) ss \<and>
    codec_regs (codec_after demo_codec ss) 0x08 = 0x39 \<and> codec_regs (codec_after demo_codec ss) 0x01 = 1"
proof -
  define dev where "dev ss = (length (codec_bits (codec_after demo_codec ss)) mod 9 = 8)" for ss
  have "codec_acks demo_codec dev"
    by (simp add: codec_acks_def dev_def)
  from audio_init_programs [OF demo_bus demo_rests this] obtain ss where
    "rests demo_ctx demo_block (audio_init (gpio_regs demo_ctx demo_block dev) demo_ctx []) ss"
    "codec_regs (codec_after demo_codec ss) = programmed (tl (butlast audio_registers)) (codec_reset demo_codec)"
    by blast
  moreover have "programmed (tl (butlast audio_registers)) (codec_reset demo_codec) 0x08 = 0x39"
    "programmed (tl (butlast audio_registers)) (codec_reset demo_codec) 0x01 = 1"
    by (simp_all add: audio_registers_def codec_table_def programmed_simps demo_codec_def)
  ultimately show ?thesis
    by metis
qed

end
