(* ===== verification/Tokeniser.thy ===== *)
theory Tokeniser
  imports Prelude
begin

text \<open>
  The command line tokeniser (\<open>fw/pano_term/strmbtok.c\<close>): \<open>strmbtok\<close> cuts the next word off a line in
  place, \<open>unquote\<close> takes its quotes away and \<open>parsecmdline\<close> fills an argument vector. The line is
  an array of bytes that the routines write to, a pointer into it an index, and the static
  variable \<open>token\<close> part of the state.
\<close>

section \<open>The code\<close>

record tokens =
  tok_buf :: "u8 list"
  token :: "nat option"

definition MAXARG :: nat where "MAXARG = 8"

text \<open>\<open>strchr\<close> in a string: the index of the first occurrence.\<close>

fun strchr :: "cstr \<Rightarrow> u8 \<Rightarrow> nat option" where
  "strchr [] c = None"
| "strchr (d # ds) c = (if d = c then Some 0 else map_option Suc (strchr ds c))"

text \<open>A byte of a string with its terminating zero.\<close>

definition char_at :: "cstr \<Rightarrow> nat \<Rightarrow> u8 res" where
  "char_at s k = (if k < length s then Inr (s ! k) else if k = length s then Inr 0 else Inl OutOfBounds)"

text \<open>The loop of \<open>strmbtok\<close>; \<open>block\<close> is \<open>iBlockIndex\<close> while \<open>iBlock\<close> is set.\<close>

function tok_loop :: "cstr \<Rightarrow> cstr \<Rightarrow> cstr \<Rightarrow> u8 list \<Rightarrow> nat \<Rightarrow> nat option \<Rightarrow> (u8 list \<times> nat) res" where
  "tok_loop delimit openblock closeblock buf i block =
     (if length buf \<le> i then Inl OutOfBounds
      else if buf ! i = 0 then Inr (buf, i)
      else (case block of
        Some k \<Rightarrow> rbind (char_at closeblock k) (\<lambda>c.
          tok_loop delimit openblock closeblock buf (i + 1) (if c = buf ! i then None else Some k))
      | None \<Rightarrow> (case strchr openblock (buf ! i) of
            Some k \<Rightarrow> tok_loop delimit openblock closeblock buf (i + 1) (Some k)
          | None \<Rightarrow>
              if strchr delimit (buf ! i) \<noteq> None then Inr (buf[i := 0], i + 1)
              else tok_loop delimit openblock closeblock buf (i + 1) None)))"
  by pat_completeness auto
termination
  by (relation "measure (\<lambda>(delimit, openblock, closeblock, buf, i, block). length buf - i)") auto

declare tok_loop.simps [simp del]

definition strmbtok :: "nat option \<Rightarrow> cstr \<Rightarrow> cstr \<Rightarrow> cstr \<Rightarrow> tokens \<Rightarrow> (nat option \<times> tokens) res" where
  "strmbtok input delimit openblock closeblock s =
     (case (if input = None then token s else input) of
        None \<Rightarrow> Inl NullPtr
      | Some i \<Rightarrow>
          if length (tok_buf s) \<le> i then Inl OutOfBounds
          else
            (let lead = (if input = None \<and> tok_buf s ! i = 0 then None else Some i)
             in rbind (tok_loop delimit openblock closeblock (tok_buf s) i None) (\<lambda>(buf, j).
                  Inr (lead, \<lparr>tok_buf = buf, token = Some j\<rparr>))))"

text \<open>The string at an address of the line.\<close>

definition str_at :: "u8 list \<Rightarrow> nat \<Rightarrow> cstr res" where
  "str_at buf i = (if 0 \<in> set (drop i buf) then Inr (takeWhile (\<lambda>c. c \<noteq> 0) (drop i buf)) else Inl OutOfBounds)"

fun unquote_loop :: "u8 \<Rightarrow> cstr \<Rightarrow> cstr" where
  "unquote_loop inQuote [] = []"
| "unquote_loop inQuote (c # s) =
     (if inQuote \<noteq> 0 \<and> c = inQuote then unquote_loop 0 s
      else if inQuote = 0 \<and> c = of_char (CHR 0x22) then unquote_loop (of_char (CHR 0x22)) s
      else if inQuote = 0 \<and> c = of_char (CHR 0x27) then unquote_loop (of_char (CHR 0x27)) s
      else c # unquote_loop inQuote s)"

definition sizeof_tmp_str :: nat where "sizeof_tmp_str = 256"

text \<open>The result goes through \<open>tmp_str\<close> and is copied to \<open>out\<close> with its terminating zero.\<close>

definition unquote :: "nat option \<Rightarrow> nat option \<Rightarrow> u8 list \<Rightarrow> u8 list res" where
  "unquote out inp buf =
     (case inp of None \<Rightarrow> Inr buf
      | Some i \<Rightarrow> (case out of None \<Rightarrow> Inr buf
          | Some j \<Rightarrow> rbind (str_at buf i) (\<lambda>s.
              let r = unquote_loop 0 s in
              if sizeof_tmp_str \<le> length r \<or> length buf < j + length r + 1 then Inl OutOfBounds
              else Inr (take j buf @ r @ [0] @ drop (j + length r + 1) buf))))"

definition next_arg :: "nat option \<Rightarrow> tokens \<Rightarrow> (nat option \<times> tokens) res" where
  "next_arg input = strmbtok input [32] (bytes [CHR 0x22, CHR 0x27]) (bytes [CHR 0x22, CHR 0x27])"

text \<open>The loop of \<open>parsecmdline\<close>; the first argument is how far \<open>i\<close> is from \<open>MAXARG\<close>.\<close>

fun parse_loop :: "nat \<Rightarrow> nat \<Rightarrow> nat option list \<Rightarrow> tokens \<Rightarrow> (nat \<times> nat option list \<times> tokens) res" where
  "parse_loop 0 i argv s = Inr (i, argv, s)"
| "parse_loop (Suc n) i argv s =
     (if argv ! i = None then Inr (i, argv, s)
      else rbind (unquote (argv ! i) (argv ! i) (tok_buf s)) (\<lambda>buf.
        rbind (next_arg None (s\<lparr>tok_buf := buf\<rparr>)) (\<lambda>(p, s).
          if length argv \<le> i + 1 then Inl OutOfBounds
          else parse_loop n (i + 1) (argv[i + 1 := p]) s)))"

fun skip_blanks :: "cstr \<Rightarrow> nat" where
  "skip_blanks [] = 0"
| "skip_blanks (c # s) = (if c = 32 \<or> c = 9 then Suc (skip_blanks s) else 0)"

definition parsecmdline :: "nat option \<Rightarrow> nat option list \<Rightarrow> tokens \<Rightarrow> (nat \<times> nat option list \<times> tokens) res" where
  "parsecmdline cmdline argv s =
     (case cmdline of
        None \<Rightarrow> Inr (0, argv, s)
      | Some i \<Rightarrow> rbind (str_at (tok_buf s) i) (\<lambda>line.
          let j = i + skip_blanks line in
          if skip_blanks line = length line then Inr (0, argv, s)
          else rbind (next_arg (Some j) s) (\<lambda>(p, s).
            if argv = [] then Inl OutOfBounds
            else parse_loop MAXARG 0 (argv[0 := p]) s)))"

section \<open>Words of a line\<close>

text \<open>
  The first word of a line ends before a delimiter outside of quotes; the rest begins behind it, and there
  is none when the line ends first. \<open>q\<close> is the character that closes the quotes.
\<close>

fun first_word_of :: "cstr \<Rightarrow> (u8 \<times> u8) list \<Rightarrow> u8 option \<Rightarrow> cstr \<Rightarrow> cstr \<times> cstr option" where
  "first_word_of ds qs q [] = ([], None)"
| "first_word_of ds qs (Some q) (c # s) =
     apfst ((#) c) (first_word_of ds qs (if c = q then None else Some q) s)"
| "first_word_of ds qs None (c # s) =
     (case map_of qs c of
        Some q \<Rightarrow> apfst ((#) c) (first_word_of ds qs (Some q) s)
      | None \<Rightarrow> if c \<in> set ds then ([], Some s) else apfst ((#) c) (first_word_of ds qs None s))"

lemma first_word_of_rest:
  "first_word_of ds qs q s = (w, Some r) \<Longrightarrow> length r < length s"
  by (induction ds qs q s arbitrary: w r rule: first_word_of.induct)
    (fastforce simp: apfst_def map_prod_def split: prod.splits if_splits option.splits)+

text \<open>The words; a line that ends in a delimiter has no word behind it.\<close>

function words_of :: "cstr \<Rightarrow> (u8 \<times> u8) list \<Rightarrow> cstr \<Rightarrow> cstr list" where
  "words_of ds qs s =
     (if s = [] then []
      else (case first_word_of ds qs None s of
          (w, None) \<Rightarrow> [w]
        | (w, Some r) \<Rightarrow> w # words_of ds qs r))"
  by pat_completeness auto
termination
  by (relation "measure (\<lambda>(ds, qs, s). length s)") (auto dest: first_word_of_rest [OF sym])

declare words_of.simps [simp del]

lemma strchr_zip:
  "length os = length cs \<Longrightarrow> strchr os c = None \<longleftrightarrow> map_of (zip os cs) c = None"
  "\<lbrakk>length os = length cs; strchr os c = Some k\<rbrakk> \<Longrightarrow> k < length cs \<and> map_of (zip os cs) c = Some (cs ! k)"
  by (induction os cs arbitrary: k rule: list_induct2) (auto split: if_splits)

lemma strchr_mem: "strchr ds c = None \<longleftrightarrow> c \<notin> set ds"
  by (induction ds) auto

lemma tok_loop_words:
  assumes "length os = length cs" "0 \<notin> set s"
    and "case block of None \<Rightarrow> q = None | Some k \<Rightarrow> k < length cs \<and> q = Some (cs ! k)"
  shows "tok_loop ds os cs (pre @ s @ 0 # post) (length pre) block =
    (case first_word_of ds (zip os cs) q s of
       (w, None) \<Rightarrow> Inr (pre @ s @ 0 # post, length pre + length s)
     | (w, Some r) \<Rightarrow> Inr (pre @ w @ 0 # r @ 0 # post, length pre + length w + 1))"
  using assms(2,3)
proof (induction s arbitrary: pre block q)
  case Nil
  then show ?case
    by (simp add: tok_loop.simps [of _ _ _ _ _ block] nth_append)
next
  case (Cons c s)
  have step: "tok_loop ds os cs (pre @ (c # s) @ 0 # post) (length pre + 1) b =
      (case first_word_of ds (zip os cs) q' s of
         (w, None) \<Rightarrow> Inr (pre @ c # s @ 0 # post, Suc (length pre + length s))
       | (w, Some r) \<Rightarrow> Inr (pre @ c # w @ 0 # r @ 0 # post, Suc (Suc (length pre + length w))))"
    if "case b of None \<Rightarrow> q' = None | Some k \<Rightarrow> k < length cs \<and> q' = Some (cs ! k)" for b q'
    using Cons.IH [where block = b and q = q' and pre = "pre @ [c]"] Cons.prems(1) that by simp
  have here: "(pre @ (c # s) @ 0 # post) ! length pre = c" "c \<noteq> 0"
    using Cons.prems(1) by (auto simp: nth_append)
  show ?case
  proof (cases block)
    case (Some k)
    then have k: "k < length cs" "q = Some (cs ! k)"
      using Cons.prems(2) by simp_all
    show ?thesis
      using here k step [of "if c = cs ! k then None else Some (cs ! k)" "if cs ! k = c then None else Some k"]
      by (subst tok_loop.simps) (auto simp: Some char_at_def apfst_def split: prod.splits option.splits)
  next
    case None
    show ?thesis
    proof (cases "strchr os c")
      case (Some k)
      then show ?thesis
        using None here strchr_zip(2) [OF assms(1) Some] step [of "Some (cs ! k)" "Some k"] Cons.prems(2)
        by (subst tok_loop.simps) (auto split: prod.splits option.splits)
    next
      case none: None
      then have "map_of (zip os cs) c = None"
        using strchr_zip(1) [OF assms(1)] by simp
      then show ?thesis
        using None none here step [of None None] Cons.prems(2)
        by (subst tok_loop.simps) (auto simp: strchr_mem [of ds] list_update_append split: prod.splits option.splits)
    qed
  qed
qed

text \<open>A word without its quotes: what stands between a quote and the next one of its kind is taken as it is.\<close>

function dequoted :: "cstr \<Rightarrow> cstr" where
  "dequoted [] = []"
| "dequoted (c # s) =
     (if c \<in> {34, 39} then takeWhile (\<lambda>d. d \<noteq> c) s @ dequoted (tl (dropWhile (\<lambda>d. d \<noteq> c) s))
      else c # dequoted s)"
  by pat_completeness auto
termination
proof (relation "measure length")
  fix c :: u8 and s
  show "(tl (dropWhile (\<lambda>d. d \<noteq> c) s), c # s) \<in> measure length"
    using length_dropWhile_le [of "\<lambda>d. d \<noteq> c" s] by simp
qed simp_all

lemma unquote_in_quotes:
  "q \<noteq> 0 \<Longrightarrow> unquote_loop q s = takeWhile (\<lambda>d. d \<noteq> q) s @ unquote_loop 0 (tl (dropWhile (\<lambda>d. d \<noteq> q) s))"
  by (induction s) auto

lemma unquote_dequotes: "unquote_loop 0 s = dequoted s"
  by (induction s rule: dequoted.induct) (auto simp: unquote_in_quotes)

section \<open>The argument vector\<close>

definition quotes :: "(u8 \<times> u8) list" where
  "quotes = zip (bytes [CHR 0x22, CHR 0x27]) (bytes [CHR 0x22, CHR 0x27])"

definition line_words :: "cstr \<Rightarrow> cstr list" where
  "line_words = words_of [32] quotes"

lemma line_words_Nil: "line_words [] = []"
  by (simp add: line_words_def words_of.simps)

lemma first_word_of_all: "first_word_of ds qs q s = (w, None) \<Longrightarrow> w = s"
  by (induction ds qs q s arbitrary: w rule: first_word_of.induct)
    (auto simp: apfst_def map_prod_def split: prod.splits if_splits option.splits)

lemma first_word_of_split:
  "first_word_of ds qs q s = (w, Some r) \<Longrightarrow> \<exists>d. s = w @ d # r"
  by (induction ds qs q s arbitrary: w rule: first_word_of.induct)
    (auto simp: apfst_def map_prod_def split: prod.splits if_splits option.splits)

text \<open>A word cut off at \<open>length pre\<close>: its bytes end at a zero, and \<open>token\<close> is at the words left.\<close>

definition cut :: "u8 list \<Rightarrow> cstr \<Rightarrow> cstr list \<Rightarrow> tokens \<Rightarrow> bool" where
  "cut pre w ws s \<longleftrightarrow> 0 \<notin> set w \<and>
     ((\<exists>r post. tok_buf s = pre @ w @ 0 # r @ 0 # post \<and> 0 \<notin> set r \<and> ws = line_words r \<and>
        token s = Some (length pre + length w + 1)) \<or>
      (\<exists>post. tok_buf s = pre @ w @ 0 # post \<and> ws = [] \<and> token s = Some (length pre + length w)))"

lemma next_arg_cuts:
  assumes "0 \<notin> set line" "line \<noteq> []" "tok_buf s = pre @ line @ 0 # post"
    and "inp = Some (length pre) \<or> inp = None \<and> token s = Some (length pre)"
  shows "\<exists>w ws s'. line_words line = w # ws \<and> next_arg inp s = Inr (Some (length pre), s') \<and>
    cut pre w ws s' \<and> (\<exists>rest. tok_buf s' = pre @ rest)"
proof -
  let ?q = "bytes [CHR 0x22, CHR 0x27]"
  have loop: "tok_loop [32] ?q ?q (tok_buf s) (length pre) None =
      (case first_word_of [32] quotes None line of
         (w, None) \<Rightarrow> Inr (pre @ line @ 0 # post, length pre + length line)
       | (w, Some r) \<Rightarrow> Inr (pre @ w @ 0 # r @ 0 # post, length pre + length w + 1))"
    using tok_loop_words [of ?q ?q line None None "[32]" pre post] assms(1,3)
    by (simp add: quotes_def split: prod.splits option.splits)
  have "(pre @ line @ 0 # post) ! length pre \<noteq> 0"
    using assms(1,2) by (cases line) auto
  then have arg: "next_arg inp s = rbind (tok_loop [32] ?q ?q (tok_buf s) (length pre) None)
      (\<lambda>(buf, j). Inr (Some (length pre), \<lparr>tok_buf = buf, token = Some j\<rparr>))"
    using assms(3,4) by (auto simp: next_arg_def strmbtok_def)
  obtain w rest where word: "first_word_of [32] quotes None line = (w, rest)"
    by fastforce
  show ?thesis
  proof (cases rest)
    case None
    then have "w = line"
      using word first_word_of_all by blast
    then show ?thesis
      using None word arg loop assms(1,2) words_of.simps [of "[32]" quotes line]
      by (auto simp: cut_def line_words_def)
  next
    case (Some r)
    obtain d where "line = w @ d # r"
      using word Some first_word_of_split by blast
    then show ?thesis
      using Some word arg loop assms(1,2) words_of.simps [of "[32]" quotes line]
      by (auto simp: cut_def line_words_def)
  qed
qed

lemma unquote_shorter: "length (unquote_loop q s) \<le> length s"
  by (induction q s rule: unquote_loop.induct) auto

lemma unquote_subset: "set (unquote_loop q s) \<subseteq> set s"
  by (induction q s rule: unquote_loop.induct) auto

lemma str_at_word: "0 \<notin> set w \<Longrightarrow> str_at (pre @ w @ 0 # rest) (length pre) = Inr w"
  by (induction w) (auto simp: str_at_def takeWhile_append)

text \<open>Unquoting a word leaves the bytes before it and behind its zero alone.\<close>

lemma unquote_word:
  assumes "0 \<notin> set w" "length (unquote_loop 0 w) < sizeof_tmp_str"
  shows "\<exists>junk. unquote (Some (length pre)) (Some (length pre)) (pre @ w @ 0 # rest) =
      Inr (pre @ unquote_loop 0 w @ 0 # junk @ rest) \<and>
    length (unquote_loop 0 w) + length junk = length w \<and>
    (0 # junk) ! length junk = 0"
proof -
  let ?u = "unquote_loop 0 w"
  have short: "length ?u \<le> length w"
    by (rule unquote_shorter)
  define junk where "junk = drop (length ?u + 1) (w @ [0])"
  have "drop (length pre + length ?u + 1) (pre @ w @ 0 # rest) = junk @ rest"
    using short by (simp add: junk_def) (cases "length ?u = length w"; simp add: Suc_diff_le drop_Cons')
  moreover have "length ?u + length junk = length w"
    using short by (simp add: junk_def)
  moreover have "(0 # junk) ! length junk = 0"
  proof (cases "junk = []")
    case False
    then have "length ?u + 1 < length (w @ [0])"
      unfolding junk_def drop_eq_Nil by simp
    then have "last junk = 0"
      unfolding junk_def by (simp only: last_drop last_snoc)
    then show ?thesis
      using False by (simp add: last_conv_nth nth_Cons')
  qed simp
  ultimately show ?thesis
    using assms short by (intro exI [of _ junk]) (simp add: unquote_def str_at_word Let_def)
qed

text \<open>
  What \<open>parse_loop\<close> makes of the words still to come: their unquoted texts behind the entries filled so
  far, then a null pointer, unless the vector is full; the bytes before \<open>length pre\<close> stay.
\<close>

lemma parse_loop_words:
  assumes "cut pre w ws s" "argv ! i = Some (length pre)" "i + n < length argv"
    and "\<forall>v \<in> set (take n (w # ws)). length (unquote_loop 0 v) < sizeof_tmp_str"
  shows "\<exists>argv' s'. parse_loop n i argv s = Inr (i + min n (length (w # ws)), argv', s') \<and>
    length argv' = length argv \<and> (\<forall>k < i. argv' ! k = argv ! k) \<and> (\<exists>rest. tok_buf s' = pre @ rest) \<and>
    (\<forall>k < min n (length (w # ws)). \<exists>p. argv' ! (i + k) = Some p \<and>
       str_at (tok_buf s') p = Inr (unquote_loop 0 ((w # ws) ! k))) \<and>
    (argv' ! (i + min n (length (w # ws))) = None \<longleftrightarrow> length (w # ws) \<le> n)"
  using assms
proof (induction n arbitrary: pre w ws s argv i)
  case 0
  then show ?case
    by (auto simp: cut_def)
next
  case (Suc n)
  let ?u = "unquote_loop 0 w"
  have w: "0 \<notin> set w" "length ?u < sizeof_tmp_str" "0 \<notin> set ?u"
    using Suc.prems(1,4) unquote_subset [of 0 w] by (auto simp: cut_def)
  consider (more) r post where "tok_buf s = pre @ w @ 0 # r @ 0 # post" "0 \<notin> set r" "ws = line_words r"
      "token s = Some (length pre + length w + 1)" "r \<noteq> []"
    | (final) rest where "tok_buf s = pre @ w @ 0 # rest" "ws = []"
      "token s = Some (length pre + length w) \<or>
        token s = Some (length pre + length w + 1) \<and> (\<exists>post. rest = 0 # post)"
  proof -
    consider r post where "tok_buf s = pre @ w @ 0 # r @ 0 # post" "0 \<notin> set r" "ws = line_words r"
        "token s = Some (length pre + length w + 1)"
      | post where "tok_buf s = pre @ w @ 0 # post" "ws = []" "token s = Some (length pre + length w)"
      using Suc.prems(1) unfolding cut_def by blast
    then show ?thesis
    proof cases
      case (1 r post)
      then show ?thesis
        using that line_words_Nil by (cases "r = []") auto
    qed (use that in blast)
  qed
  then show ?case
  proof cases
    case more
    obtain junk where junk: "unquote (Some (length pre)) (Some (length pre)) (tok_buf s) =
        Inr (pre @ ?u @ 0 # junk @ r @ 0 # post)" "length ?u + length junk = length w"
      using unquote_word [OF w(1,2), of pre "r @ 0 # post"] more(1) by auto
    let ?pre = "pre @ ?u @ 0 # junk"
    let ?s = "s\<lparr>tok_buf := ?pre @ r @ 0 # post\<rparr>"
    have at: "token ?s = Some (length ?pre)" "tok_buf ?s = ?pre @ r @ 0 # post"
      using more(4) junk(2) by simp_all
    obtain v vs s1 where arg: "line_words r = v # vs" "next_arg None ?s = Inr (Some (length ?pre), s1)"
      "cut ?pre v vs s1"
      using next_arg_cuts [OF more(2,5) at(2)] at(1) by blast
    let ?argv = "argv[i + 1 := Some (length ?pre)]"
    have short: "\<forall>x \<in> set (take n (v # vs)). length (unquote_loop 0 x) < sizeof_tmp_str"
      using Suc.prems(4) more(3) arg(1) by simp
    have "?argv ! (i + 1) = Some (length ?pre)" "i + 1 + n < length ?argv"
      using Suc.prems(3) by simp_all
    from Suc.IH [OF arg(3) this short] obtain argv' s' where
      loop: "parse_loop n (i + 1) ?argv s1 = Inr (i + 1 + min n (length (v # vs)), argv', s')"
      and argv': "length argv' = length argv" "\<forall>k < i + 1. argv' ! k = ?argv ! k"
      and buf: "\<exists>rest. tok_buf s' = ?pre @ rest"
      and args: "\<forall>k < min n (length (v # vs)). \<exists>p. argv' ! (i + 1 + k) = Some p \<and>
          str_at (tok_buf s') p = Inr (unquote_loop 0 ((v # vs) ! k))"
      and last_arg: "argv' ! (i + 1 + min n (length (v # vs))) = None \<longleftrightarrow> length (v # vs) \<le> n"
      by auto
    have "parse_loop (Suc n) i argv s = parse_loop n (i + 1) ?argv s1"
      using Suc.prems(2,3) junk(1) arg(2) by (simp add: more(1))
    moreover have "argv' ! i = Some (length pre)"
      using argv'(2) Suc.prems(2) by simp
    moreover have "str_at (tok_buf s') (length pre) = Inr ?u"
      using buf str_at_word [OF w(3)] by auto
    ultimately have run: "parse_loop (Suc n) i argv s = Inr (i + Suc (min n (length (v # vs))), argv', s')"
      and first: "argv' ! i = Some (length pre)" "str_at (tok_buf s') (length pre) = Inr ?u"
      using loop by simp_all
    have total: "min (Suc n) (length (w # ws)) = Suc (min n (length (v # vs)))" "ws = v # vs"
      using more(3) arg(1) by simp_all
    have entry: "\<exists>p. argv' ! (i + k) = Some p \<and> str_at (tok_buf s') p = Inr (unquote_loop 0 ((w # ws) ! k))"
      if "k < Suc (min n (length (v # vs)))" for k
      using that first args total(2) by (cases k) auto
    have kept: "argv' ! k = argv ! k" if "k < i" for k
      using argv'(2) that by simp
    show ?thesis
      unfolding total(1) using run argv'(1) kept entry buf last_arg total(2) by auto
  next
    case final
    obtain junk where junk: "unquote (Some (length pre)) (Some (length pre)) (tok_buf s) =
        Inr (pre @ ?u @ 0 # junk @ rest)" "length ?u + length junk = length w" "(0 # junk) ! length junk = 0"
      using unquote_word [OF w(1,2), of pre rest] final(1) by auto
    let ?s = "s\<lparr>tok_buf := pre @ ?u @ 0 # junk @ rest\<rparr>"
    obtain j where j: "token ?s = Some j" "j < length (tok_buf ?s)" "tok_buf ?s ! j = 0"
    proof (cases "token s = Some (length pre + length w)")
      case True
      have "(pre @ ?u @ 0 # junk @ rest) ! (length pre + length w) = (0 # junk) ! length junk"
        using junk(2) [symmetric] by (simp add: nth_append nth_Cons')
      then show ?thesis
        using True junk(2,3) by (intro that [of "length pre + length w"]) simp_all
    next
      case False
      then show ?thesis
        using final(3) junk(2) [symmetric]
        by (intro that [of "length pre + length w + 1"]) (auto simp: nth_append nth_Cons')
    qed
    then have arg: "next_arg None ?s = Inr (None, ?s)"
      by (simp add: next_arg_def strmbtok_def tok_loop.simps)
    have "parse_loop (Suc n) i argv s = Inr (i + 1, argv[i + 1 := None], ?s)"
      using Suc.prems(2,3) junk(1) arg by (cases n) (simp_all add: final(1))
    moreover have "str_at (tok_buf ?s) (length pre) = Inr ?u"
      using str_at_word [OF w(3)] by simp
    ultimately show ?thesis
      using Suc.prems(2,3) final(2) by simp
  qed
qed

lemma skip_blanks_split: "\<exists>bs. s = bs @ drop (skip_blanks s) s \<and> length bs = skip_blanks s"
  by (induction s) (auto simp: Cons_eq_append_conv)

text \<open>
  Claim C19. \<open>parsecmdline\<close> splits a line into its words: behind leading blanks, a space outside of quotes ends a
  word, and the first eight words, without their quotes, are the arguments, as many as it
  returns. The vector, which needs one entry more, ends with a null pointer only if the line has
  no ninth word.
\<close>

theorem parsecmdline_splits:
  assumes "tok_buf s = line @ 0 # post" "0 \<notin> set line" "MAXARG < length argv"
    and "ws = line_words (drop (skip_blanks line) line)"
    and "\<forall>w \<in> set (take MAXARG ws). length (dequoted w) < sizeof_tmp_str"
  shows "\<exists>argv' s'. parsecmdline (Some 0) argv s = Inr (min MAXARG (length ws), argv', s') \<and>
    (\<forall>k < min MAXARG (length ws). \<exists>p. argv' ! k = Some p \<and>
       str_at (tok_buf s') p = Inr (dequoted (ws ! k))) \<and>
    (ws \<noteq> [] \<longrightarrow> (argv' ! min MAXARG (length ws) = None \<longleftrightarrow> length ws \<le> MAXARG))"
proof -
  let ?j = "skip_blanks line" and ?l = "drop (skip_blanks line) line"
  have whole: "str_at (tok_buf s) 0 = Inr line"
    using str_at_word [OF assms(2), of "[]" post] assms(1) by simp
  obtain bs where bs: "line = bs @ ?l" "length bs = ?j"
    using skip_blanks_split by blast
  show ?thesis
  proof (cases "?j = length line")
    case True
    then have "ws = []"
      using assms(4) by (simp add: line_words_def words_of.simps)
    then show ?thesis
      using True whole by (simp add: parsecmdline_def)
  next
    case False
    have l: "0 \<notin> set ?l" "?l \<noteq> []" "tok_buf s = bs @ ?l @ 0 # post"
      using False bs assms(1,2) by (metis UnI2 set_append, metis append_Nil2, metis append.assoc)
    obtain w vs s1 where arg: "line_words ?l = w # vs" "next_arg (Some (length bs)) s = Inr (Some (length bs), s1)"
      "cut bs w vs s1"
      using next_arg_cuts [OF l] by blast
    have "argv \<noteq> []" "argv[0 := Some (length bs)] ! 0 = Some (length bs)" "0 + MAXARG < length (argv[0 := Some (length bs)])"
      using assms(3) by (cases argv; simp add: MAXARG_def)+
    moreover have "\<forall>x \<in> set (take MAXARG (w # vs)). length (unquote_loop 0 x) < sizeof_tmp_str"
      using assms(4,5) arg(1) by (simp add: unquote_dequotes)
    ultimately show ?thesis
      using parse_loop_words [OF arg(3), of "argv[0 := Some (length bs)]" 0 MAXARG] False whole bs(2) arg(1,2) assms(4)
      by (auto simp: parsecmdline_def unquote_dequotes)
  qed
qed

theorem parsecmdline_splits_witness:
  "\<exists>argv s. parsecmdline (Some 0) (replicate 9 None)
      \<lparr>tok_buf = bytes '' save 'a b' 7'' @ [0], token = None\<rparr> = Inr (3, argv, s) \<and>
    (\<exists>p. argv ! 1 = Some p \<and> str_at (tok_buf s) p = Inr (bytes ''a b''))"
proof -
  let ?s = "\<lparr>tok_buf = bytes '' save 'a b' 7'' @ [0], token = None\<rparr>"
  have ws: "line_words (drop (skip_blanks (bytes '' save 'a b' 7'')) (bytes '' save 'a b' 7'')) =
      [bytes ''save'', bytes [CHR 0x27, CHR ''a'', CHR '' '', CHR ''b'', CHR 0x27], bytes ''7'']"
    by code_simp
  have u: "map dequoted [bytes ''save'', bytes [CHR 0x27, CHR ''a'', CHR '' '', CHR ''b'', CHR 0x27], bytes ''7''] =
      [bytes ''save'', bytes ''a b'', bytes ''7'']"
    by code_simp
  have pre: "tok_buf ?s = bytes '' save 'a b' 7'' @ 0 # []" "0 \<notin> set (bytes '' save 'a b' 7'')"
    "MAXARG < length (replicate 9 (None :: nat option))"
    by (simp_all add: bytes_def MAXARG_def)
  have "\<forall>w \<in> set (take MAXARG [bytes ''save'', bytes [CHR 0x27, CHR ''a'', CHR '' '', CHR ''b'', CHR 0x27], bytes ''7'']).
      length (dequoted w) < sizeof_tmp_str"
    using u by (simp add: MAXARG_def sizeof_tmp_str_def bytes_def)
  from parsecmdline_splits [OF pre ws [symmetric] this] show ?thesis
    using u by (fastforce simp: MAXARG_def)
qed

text \<open>A quoted argument of 256 bytes does not fit into \<open>tmp_str\<close>.\<close>

lemma unquote_overflow:
  assumes "0 \<notin> set w" "sizeof_tmp_str \<le> length (unquote_loop 0 w)"
  shows "unquote (Some (length pre)) (Some (length pre)) (pre @ w @ 0 # rest) = Inl OutOfBounds"
  using assms by (simp add: unquote_def str_at_word Let_def)

end
