(* ===== verification/Firmware_Runtime.thy ===== *)
theory Firmware_Runtime
  imports I2c_Commands Riscv_Traps
begin

text \<open>
  What the firmware stands on: the trap handler of the RISC-V runtime (\<open>exception.c\<close>, together with the
  \<open>mret\<close> of the simulator that returns from it), the serial port (\<open>Uart.c\<close>, \<open>uart_lite.c\<close>), the
  hexadecimal log (\<open>log.c\<close>) and the register write of the sound chip (\<open>opl3_drv.c\<close>).
\<close>

section \<open>Traps\<close>

record irq_context =
  ctx_pc :: u32
  ctx_status :: u32
  ctx_cause :: u32
  ctx_reg :: "u32 list"

text \<open>A handler takes and returns a context; the table has a slot per cause.\<close>

type_synonym handler = "irq_context \<Rightarrow> irq_context"

record handlers =
  exception_table :: "handler option list"
  irq_handler :: "handler option"

definition CAUSE_ECALL_U :: u32 where "CAUSE_ECALL_U = 8"
definition CAUSE_ECALL_S :: u32 where "CAUSE_ECALL_S = 9"
definition CAUSE_ECALL_M :: u32 where "CAUSE_ECALL_M = 11"
definition CAUSE_INTERRUPT :: u32 where "CAUSE_INTERRUPT = 0x80000000"
definition CAUSE_MAX_EXC :: nat where "CAUSE_MAX_EXC = 16"

definition no_handlers :: handlers where
  "no_handlers = \<lparr>exception_table = replicate CAUSE_MAX_EXC None, irq_handler = None\<rparr>"

definition exception_set_irq_handler :: "handler \<Rightarrow> handlers \<Rightarrow> handlers" where
  "exception_set_irq_handler h hs = hs\<lparr>irq_handler := Some h\<rparr>"

definition exception_set_handler :: "int \<Rightarrow> handler \<Rightarrow> handlers \<Rightarrow> handlers res" where
  "exception_set_handler cause h hs =
     (if 0 \<le> cause \<and> cause < int (length (exception_table hs))
      then Inr (hs\<lparr>exception_table := (exception_table hs)[nat cause := Some h]\<rparr>)
      else Inl OutOfBounds)"

definition exception_set_syscall_handler :: "handler \<Rightarrow> handlers \<Rightarrow> handlers res" where
  "exception_set_syscall_handler h hs =
     rbind (exception_set_handler (uint CAUSE_ECALL_U) h hs) (\<lambda>hs.
     rbind (exception_set_handler (uint CAUSE_ECALL_S) h hs)
       (exception_set_handler (uint CAUSE_ECALL_M) h))"

text \<open>
  The end of a trap: the context to resume, also after the message for an interrupt without handler,
  or the register dump and the failed assertion, which leaves the program.
\<close>

datatype trap_end = Resume irq_context | Unhandled_irq irq_context | Unhandled_exception irq_context

definition exception_handler :: "handlers \<Rightarrow> irq_context \<Rightarrow> trap_end" where
  "exception_handler hs ctx =
     (let ctx = ctx\<lparr>ctx_status := (ctx_status ctx AND NOT SR_MPP) OR 0x1800\<rparr>
      in if ctx_cause ctx AND CAUSE_INTERRUPT \<noteq> 0
         then (case irq_handler hs of Some h \<Rightarrow> Resume (h ctx) | None \<Rightarrow> Unhandled_irq ctx)
         else
           let ctx = (if ctx_cause ctx \<in> {CAUSE_ECALL_U, CAUSE_ECALL_S, CAUSE_ECALL_M}
                      then ctx\<lparr>ctx_pc := ctx_pc ctx + 4\<rparr> else ctx);
               cause = unat (ctx_cause ctx)
           in case (if cause < CAUSE_MAX_EXC then exception_table hs ! cause else None) of
                Some h \<Rightarrow> Resume (h ctx)
              | None \<Rightarrow> Unhandled_exception ctx)"

text \<open>What a handler may do: set the interrupt enable that the return from the trap restores.\<close>

definition context_irq_enable :: "bool \<Rightarrow> irq_context \<Rightarrow> irq_context" where
  "context_irq_enable enable ctx =
     (let ctx = ctx\<lparr>ctx_status := ctx_status ctx AND NOT SR_MPIE\<rparr>
      in ctx\<lparr>ctx_status := ctx_status ctx OR (if enable then SR_MPIE else 0)\<rparr>)"

text \<open>A handler leaves the privilege to return to alone.\<close>

definition keeps_privilege :: "handler \<Rightarrow> bool" where
  "keeps_privilege h \<longleftrightarrow> (\<forall>c. ctx_status (h c) AND SR_MPP = ctx_status c AND SR_MPP)"

definition handlers_ok :: "handlers \<Rightarrow> bool" where
  "handlers_ok hs \<longleftrightarrow> length (exception_table hs) = CAUSE_MAX_EXC \<and>
     (\<forall>h. Some h \<in> set (exception_table hs) \<or> irq_handler hs = Some h \<longrightarrow> keeps_privilege h)"

lemma set_syscall_ok:
  assumes "handlers_ok hs" "keeps_privilege h"
  shows "\<exists>hs'. exception_set_syscall_handler h hs = Inr hs' \<and> handlers_ok hs' \<and>
    (\<forall>i \<in> {8, 9, 11}. exception_table hs' ! i = Some h) \<and> irq_handler hs' = irq_handler hs"
proof -
  have "length (exception_table hs) = 16"
    using assms(1) by (simp add: handlers_ok_def CAUSE_MAX_EXC_def)
  then show ?thesis
    using assms by (auto simp: exception_set_syscall_handler_def exception_set_handler_def CAUSE_ECALL_U_def
        CAUSE_ECALL_S_def CAUSE_ECALL_M_def handlers_ok_def CAUSE_MAX_EXC_def dest!: set_update_subset_insert [THEN subsetD])
qed

lemma context_irq_enable_keeps: "keeps_privilege (context_irq_enable enable)"
  unfolding keeps_privilege_def context_irq_enable_def Let_def
  by (intro allI) (auto intro!: bit_word_eqI simp: status_simps bit_simps)

lemma machine_privilege: "((s :: u32) AND NOT SR_MPP OR 0x1800) AND SR_MPP = SR_MPP"
  by (rule bit_word_eqI) (auto simp: status_simps bit_simps)

lemma privilege_field:
  assumes "(s :: u32) AND SR_MPP = SR_MPP"
  shows "drop_bit 11 s AND 3 = PRIV_MACHINE"
proof (rule bits_eqI)
  fix n :: nat
  assume "n < 32"
  have "bit s 11" "bit s 12"
    using arg_cong [OF assms, of "\<lambda>x. bit x 11"] arg_cong [OF assms, of "\<lambda>x. bit x 12"]
    by (simp_all add: bit_and_iff)
  moreover have "drop_bit 11 s AND 3 = take_bit 2 (drop_bit 11 s)"
    by (simp add: take_bit_eq_mask mask_eq_exp_minus_1)
  moreover have "bit PRIV_MACHINE n \<longleftrightarrow> n < 2"
    using bits_priv [of PRIV_MACHINE n] by (cases "n = 0"; cases "n = 1") auto
  ultimately show "bit (drop_bit 11 s AND 3) n = bit PRIV_MACHINE n"
    by (cases "n = 0"; cases "n = 1") (auto simp: bit_take_bit_iff bit_drop_bit_eq)
qed

text \<open>A context that goes on is the trapped one in machine mode, or what a handler makes of it.\<close>

lemma resumed_context:
  assumes "exception_handler hs ctx = Resume ctx' \<or> exception_handler hs ctx = Unhandled_irq ctx'"
    and "length (exception_table hs) = CAUSE_MAX_EXC"
  shows "\<exists>c. ctx_status c = ctx_status ctx AND NOT SR_MPP OR 0x1800 \<and>
    (ctx' = c \<or> (\<exists>h. (Some h \<in> set (exception_table hs) \<or> irq_handler hs = Some h) \<and> ctx' = h c))"
proof (cases "ctx_cause ctx AND CAUSE_INTERRUPT = 0")
  let ?c = "ctx\<lparr>ctx_status := ctx_status ctx AND NOT SR_MPP OR 0x1800\<rparr>"
  case False
  then have "ctx' = ?c \<or> (\<exists>h. irq_handler hs = Some h \<and> ctx' = h ?c)"
    using assms(1) by (cases "irq_handler hs") (simp_all add: exception_handler_def Let_def)
  then show ?thesis
    by (intro exI [of _ ?c]) auto
next
  let ?c = "ctx\<lparr>ctx_status := ctx_status ctx AND NOT SR_MPP OR 0x1800\<rparr>" and ?i = "unat (ctx_cause ctx)"
  let ?d = "if ctx_cause ctx \<in> {CAUSE_ECALL_U, CAUSE_ECALL_S, CAUSE_ECALL_M}
    then ?c\<lparr>ctx_pc := ctx_pc ?c + 4\<rparr> else ?c"
  have cause: "ctx_cause ?d = ctx_cause ctx" "ctx_status ?d = ctx_status ctx AND NOT SR_MPP OR 0x1800"
    by simp_all
  case True
  then have "exception_handler hs ctx =
      (case (if ?i < CAUSE_MAX_EXC then exception_table hs ! ?i else None) of
         Some h \<Rightarrow> Resume (h ?d) | None \<Rightarrow> Unhandled_exception ?d)"
    unfolding exception_handler_def Let_def by (simp cong: if_cong)
  then obtain h where "?i < CAUSE_MAX_EXC" "exception_table hs ! ?i = Some h" "ctx' = h ?d"
    using assms(1) by (cases "?i < CAUSE_MAX_EXC"; cases "exception_table hs ! ?i") simp_all
  then have "Some h \<in> set (exception_table hs) \<and> ctx' = h ?d"
    using assms(2) nth_mem by metis
  then show ?thesis
    using cause(2) by (intro exI [of _ ?d]) blast
qed

text \<open>
  Claim C20. The firmware stays in machine mode: whatever the status register held when the trap was taken, the
  \<open>mret\<close> behind a context that \<open>exception_handler\<close> resumes continues at the address in the context in
  machine mode.
\<close>

theorem exception_stays_in_machine:
  assumes "handlers_ok hs" "exception_handler hs ctx = Resume ctx' \<or> exception_handler hs ctx = Unhandled_irq ctx'"
    and "m_csr_mpriv c = PRIV_MACHINE" "m_csr_msr c = ctx_status ctx'" "m_csr_mepc c = ctx_pc ctx'"
  shows "\<exists>d. do_mret r c = Inr (Continue r 0 (ctx_pc ctx') False d) \<and> m_csr_mpriv d = PRIV_MACHINE"
proof -
  have "ctx_status ctx' AND SR_MPP = SR_MPP"
    using resumed_context [OF assms(2)] assms(1) machine_privilege [of "ctx_status ctx"]
    unfolding handlers_ok_def keeps_privilege_def by metis
  then have "drop_bit 11 (ctx_status ctx') AND 3 = PRIV_MACHINE"
    by (rule privilege_field)
  then show ?thesis
    using assms(3-5) by (simp add: do_mret_def Let_def)
qed

lemma syscall_skips:
  assumes "ctx_cause ctx = CAUSE_ECALL_M" "exception_table hs ! 11 = Some h"
  shows "\<exists>c. exception_handler hs ctx = Resume (h c) \<and> ctx_pc c = ctx_pc ctx + 4 \<and> ctx_reg c = ctx_reg ctx"
  using assms
  by (intro exI [of _ "ctx\<lparr>ctx_status := ctx_status ctx AND NOT SR_MPP OR 0x1800, ctx_pc := ctx_pc ctx + 4\<rparr>"])
    (simp add: exception_handler_def CAUSE_ECALL_M_def CAUSE_INTERRUPT_def CAUSE_MAX_EXC_def Let_def)

text \<open>A cause beyond the table is not looked up.\<close>

lemma unknown_cause:
  assumes "ctx_cause ctx AND CAUSE_INTERRUPT = 0" "16 \<le> unat (ctx_cause ctx)"
  shows "\<exists>c. exception_handler hs ctx = Unhandled_exception c \<and> ctx_pc c = ctx_pc ctx"
proof -
  have "ctx_cause ctx \<notin> {CAUSE_ECALL_U, CAUSE_ECALL_S, CAUSE_ECALL_M}"
    using assms(2) by (auto simp: CAUSE_ECALL_U_def CAUSE_ECALL_S_def CAUSE_ECALL_M_def)
  then show ?thesis
    using assms by (simp add: exception_handler_def CAUSE_MAX_EXC_def Let_def)
qed

section \<open>The serial port\<close>

definition ULITE_RX :: u32 where "ULITE_RX = 0x0"
definition ULITE_TX :: u32 where "ULITE_TX = 0x4"
definition ULITE_STATUS :: u32 where "ULITE_STATUS = 0x8"
definition ULITE_CONTROL :: u32 where "ULITE_CONTROL = 0xc"

definition Uart_init :: "u32 \<Rightarrow> reg list \<Rightarrow> reg list" where
  "Uart_init Adr = REG_WR (Adr + ULITE_CONTROL) (push_bit 1 1 + push_bit 0 1 + push_bit 4 1)"

text \<open>The loop waits while the transmit queue is full, for ever if it stays so: \<open>None\<close>.\<close>

partial_function (option) uart_wait :: "regs \<Rightarrow> u32 \<Rightarrow> reg list \<Rightarrow> reg list option" where
  "uart_wait rv Adr tr =
     (case REG_RD rv (Adr + ULITE_STATUS) tr of (v, tr) \<Rightarrow>
        if v AND push_bit 3 1 \<noteq> 0 then uart_wait rv Adr tr else Some tr)"

definition Uart_putc :: "regs \<Rightarrow> u32 \<Rightarrow> u8 \<Rightarrow> reg list \<Rightarrow> reg list option" where
  "Uart_putc rv Adr c tr =
     (case uart_wait rv Adr tr of None \<Rightarrow> None | Some tr \<Rightarrow> Some (REG_WR (Adr + ULITE_TX) (ucast c) tr))"

definition Uart_haschar :: "regs \<Rightarrow> u32 \<Rightarrow> reg list \<Rightarrow> bool \<times> reg list" where
  "Uart_haschar rv Adr tr =
     (case REG_RD rv (Adr + ULITE_STATUS) tr of (v, tr) \<Rightarrow> (v AND push_bit 0 1 \<noteq> 0, tr))"

definition Uart_getchar :: "regs \<Rightarrow> u32 \<Rightarrow> reg list \<Rightarrow> int \<times> reg list" where
  "Uart_getchar rv Adr tr =
     (case Uart_haschar rv Adr tr of (avail, tr) \<Rightarrow>
        if avail then (case REG_RD rv (Adr + ULITE_RX) tr of (v, tr) \<Rightarrow> (uint (ucast v :: u8), tr))
        else (- 1, tr))"

text \<open>The hardware side: a queue that gets room again after finitely many readings of the status.\<close>

definition uart_drains :: "regs \<Rightarrow> u32 \<Rightarrow> bool" where
  "uart_drains rv Adr \<longleftrightarrow> (\<forall>tr. \<exists>n.
     rv (tr @ replicate n (RegRd (Adr + ULITE_STATUS))) (Adr + ULITE_STATUS) AND push_bit 3 1 = 0)"

text \<open>The bytes handed to the port, and that none is handed over while the queue is full.\<close>

definition uart_sent :: "u32 \<Rightarrow> reg list \<Rightarrow> u32 list" where
  "uart_sent Adr tr = concat (map (\<lambda>e. case e of RegWr a v \<Rightarrow> if a = Adr + ULITE_TX then [v] else [] | RegRd a \<Rightarrow> []) tr)"

definition uart_room :: "regs \<Rightarrow> u32 \<Rightarrow> reg list \<Rightarrow> bool" where
  "uart_room rv Adr tr \<longleftrightarrow> (\<forall>k < length tr. \<forall>v. tr ! k = RegWr (Adr + ULITE_TX) v \<longrightarrow>
     0 < k \<and> tr ! (k - 1) = RegRd (Adr + ULITE_STATUS) \<and>
     rv (take (k - 1) tr) (Adr + ULITE_STATUS) AND push_bit 3 1 = 0)"

fun uart_puts :: "regs \<Rightarrow> u32 \<Rightarrow> cstr \<Rightarrow> reg list \<Rightarrow> reg list option" where
  "uart_puts rv Adr [] tr = Some tr"
| "uart_puts rv Adr (c # cs) tr =
     (case Uart_putc rv Adr c tr of None \<Rightarrow> None | Some tr \<Rightarrow> uart_puts rv Adr cs tr)"

lemma uart_wait_ends:
  assumes "uart_drains rv Adr"
  shows "\<exists>n. uart_wait rv Adr tr = Some (tr @ replicate (Suc n) (RegRd (Adr + ULITE_STATUS))) \<and>
    rv (tr @ replicate n (RegRd (Adr + ULITE_STATUS))) (Adr + ULITE_STATUS) AND push_bit 3 1 = 0"
proof -
  let ?r = "RegRd (Adr + ULITE_STATUS)" and ?a = "Adr + ULITE_STATUS"
  obtain n where "rv (tr @ replicate n ?r) ?a AND push_bit 3 1 = 0"
    using assms by (auto simp: uart_drains_def)
  then show ?thesis
  proof (induction n arbitrary: tr)
    case 0
    then have "uart_wait rv Adr tr = Some (tr @ replicate (Suc 0) ?r)"
      by (subst uart_wait.simps) (simp add: REG_RD_def)
    then show ?case
      using 0 by (intro exI [of _ 0]) simp
  next
    case (Suc n)
    show ?case
    proof (cases "rv tr ?a AND push_bit 3 1 = 0")
      case True
      then have "uart_wait rv Adr tr = Some (tr @ replicate (Suc 0) ?r)"
        by (subst uart_wait.simps) (simp add: REG_RD_def)
      then show ?thesis
        using True by (intro exI [of _ 0]) simp
    next
      case False
      obtain k where k: "uart_wait rv Adr (tr @ [?r]) = Some ((tr @ [?r]) @ replicate (Suc k) ?r)"
        "rv ((tr @ [?r]) @ replicate k ?r) ?a AND push_bit 3 1 = 0"
        using Suc.IH [of "tr @ [?r]"] Suc.prems by auto
      have "uart_wait rv Adr tr = uart_wait rv Adr (tr @ [?r])"
        using False by (subst uart_wait.simps) (simp add: REG_RD_def)
      then show ?thesis
        using k by (intro exI [of _ "Suc k"]) simp
    qed
  qed
qed

lemma uart_room_write:
  assumes "uart_room rv Adr tr"
    and "rv (tr @ replicate n (RegRd (Adr + ULITE_STATUS))) (Adr + ULITE_STATUS) AND push_bit 3 1 = 0"
  shows "uart_room rv Adr (tr @ replicate (Suc n) (RegRd (Adr + ULITE_STATUS)) @ [RegWr (Adr + ULITE_TX) v])"
    (is "uart_room rv Adr ?tr")
  unfolding uart_room_def
proof (intro allI impI)
  let ?r = "RegRd (Adr + ULITE_STATUS)"
  fix k w
  assume k: "k < length ?tr" "?tr ! k = RegWr (Adr + ULITE_TX) w"
  then consider "k < length tr" | "k = length tr + Suc n"
    by (cases "k < length tr"; cases "k - length tr < Suc n")
      (auto simp: nth_append simp del: replicate.simps split: if_splits)
  then show "0 < k \<and> ?tr ! (k - 1) = ?r \<and> rv (take (k - 1) ?tr) (Adr + ULITE_STATUS) AND push_bit 3 1 = 0"
  proof cases
    case 1
    then have "tr ! k = RegWr (Adr + ULITE_TX) w" "k - 1 < length tr" "take (k - 1) ?tr = take (k - 1) tr"
      using k(2) by (simp_all add: nth_append)
    then show ?thesis
      using assms(1) 1 by (auto simp: uart_room_def nth_append)
  next
    case 2
    have "take (k - 1) ?tr = tr @ replicate n ?r"
      using 2 by (simp add: min_def del: replicate.simps)
    moreover have "?tr ! (k - 1) = ?r"
      using 2 by (simp add: nth_append del: replicate.simps)
    ultimately show ?thesis
      using 2 assms(2) by simp
  qed
qed

lemma uart_putc_sends:
  assumes "uart_drains rv Adr"
  shows "\<exists>tr'. Uart_putc rv Adr c tr = Some tr' \<and> uart_sent Adr tr' = uart_sent Adr tr @ [ucast c] \<and>
    (uart_room rv Adr tr \<longrightarrow> uart_room rv Adr tr')"
proof -
  obtain n where n: "uart_wait rv Adr tr = Some (tr @ replicate (Suc n) (RegRd (Adr + ULITE_STATUS)))"
    "rv (tr @ replicate n (RegRd (Adr + ULITE_STATUS))) (Adr + ULITE_STATUS) AND push_bit 3 1 = 0"
    using uart_wait_ends [OF assms] by blast
  have "Uart_putc rv Adr c tr =
      Some (tr @ replicate (Suc n) (RegRd (Adr + ULITE_STATUS)) @ [RegWr (Adr + ULITE_TX) (ucast c)])"
    using n(1) by (simp add: Uart_putc_def REG_WR_def del: replicate.simps)
  moreover have "uart_sent Adr (replicate m (RegRd a)) = []" for m a
    by (simp add: uart_sent_def)
  then have "uart_sent Adr (tr @ replicate (Suc n) (RegRd (Adr + ULITE_STATUS)) @ [RegWr (Adr + ULITE_TX) (ucast c)]) =
      uart_sent Adr tr @ [ucast c]"
    by (simp add: uart_sent_def del: replicate.simps)
  ultimately show ?thesis
    using uart_room_write [where tr = tr and n = n and v = "ucast c"] n(2) by blast
qed

text \<open>
  A string handed to the serial port is sent completely and in order, and no byte is written while the
  port's queue is full, provided the queue has room again after finitely many readings of its status.
\<close>

theorem uart_puts_sends:
  assumes "uart_drains rv Adr"
  shows "\<exists>tr'. uart_puts rv Adr cs tr = Some tr' \<and> uart_sent Adr tr' = uart_sent Adr tr @ map ucast cs \<and>
    (uart_room rv Adr tr \<longrightarrow> uart_room rv Adr tr')"
proof (induction cs arbitrary: tr)
  case (Cons c cs)
  obtain t where "Uart_putc rv Adr c tr = Some t" "uart_sent Adr t = uart_sent Adr tr @ [ucast c]"
    "uart_room rv Adr tr \<longrightarrow> uart_room rv Adr t"
    using uart_putc_sends [OF assms] by blast
  then show ?case
    using Cons.IH [of t] by auto
qed simp

text \<open>A port that is full at every other reading of its status.\<close>

definition slow_port :: regs where
  "slow_port tr a = (if a = ULITE_STATUS \<and> even (length tr) then 8 else 0)"

theorem uart_puts_sends_witness:
  "\<exists>tr'. uart_puts slow_port 0 [72, 105] [] = Some tr' \<and> uart_sent 0 tr' = [72, 105] \<and> uart_room slow_port 0 tr'"
proof -
  have "uart_drains slow_port 0"
    unfolding uart_drains_def
  proof
    fix tr
    show "\<exists>n. slow_port (tr @ replicate n (RegRd (0 + ULITE_STATUS))) (0 + ULITE_STATUS) AND push_bit 3 1 = 0"
      by (intro exI [of _ "if even (length tr) then 1 else 0"]) (simp add: slow_port_def)
  qed
  from uart_puts_sends [OF this, of "[72, 105]" "[]"] show ?thesis
    by (auto simp: uart_sent_def uart_room_def)
qed

theorem exception_stays_in_machine_witness:
  "\<exists>hs ctx'. exception_set_syscall_handler (\<lambda>c. c\<lparr>ctx_reg := (ctx_reg c)[10 := 7]\<rparr>) no_handlers = Inr hs \<and>
    exception_handler hs \<lparr>ctx_pc = 0x80, ctx_status = 0, ctx_cause = CAUSE_ECALL_M, ctx_reg = replicate 32 0\<rparr> =
      Resume ctx' \<and> ctx_pc ctx' = 0x84 \<and>
    (\<exists>d. do_mret 0 (demo_machine\<lparr>m_csr_msr := ctx_status ctx', m_csr_mepc := ctx_pc ctx'\<rparr>) =
       Inr (Continue 0 0 0x84 False d) \<and> m_csr_mpriv d = PRIV_MACHINE)"
proof -
  let ?h = "\<lambda>c :: irq_context. c\<lparr>ctx_reg := (ctx_reg c)[10 := 7]\<rparr>"
  let ?ctx = "\<lparr>ctx_pc = 0x80, ctx_status = 0, ctx_cause = CAUSE_ECALL_M, ctx_reg = replicate 32 0\<rparr>"
  have "handlers_ok no_handlers" "keeps_privilege ?h"
    by (simp_all add: handlers_ok_def no_handlers_def keeps_privilege_def)
  then obtain hs where hs: "exception_set_syscall_handler ?h no_handlers = Inr hs" "handlers_ok hs"
    "exception_table hs ! 11 = Some ?h"
    using set_syscall_ok by fastforce
  let ?ctx' = "?h (?ctx\<lparr>ctx_status := 0x1800, ctx_pc := 0x84\<rparr>)"
  have run: "exception_handler hs ?ctx = Resume ?ctx'"
    using hs(3) by (simp add: exception_handler_def CAUSE_ECALL_M_def CAUSE_INTERRUPT_def CAUSE_MAX_EXC_def Let_def)
  have "m_csr_mpriv demo_machine = PRIV_MACHINE"
    by (simp add: demo_machine_def rv_reset_def stats_reset_def)
  then have "\<exists>d. do_mret 0 (demo_machine\<lparr>m_csr_msr := ctx_status ?ctx', m_csr_mepc := ctx_pc ?ctx'\<rparr>) =
       Inr (Continue 0 0 (ctx_pc ?ctx') False d) \<and> m_csr_mpriv d = PRIV_MACHINE"
    by (intro exception_stays_in_machine [OF hs(2), of ?ctx]) (simp_all add: run)
  then show ?thesis
    using hs(1) run by (intro exI [of _ hs] exI [of _ ?ctx']) simp
qed

section \<open>The hexadecimal log\<close>

text \<open>What \<open>LogHex\<close> prints for the byte at \<open>i\<close> and after the last one.\<close>

definition log_gap :: "nat \<Rightarrow> cstr" where
  "log_gap i = (if i \<noteq> 0 \<and> i AND 0xf = 0 then [10] else if i \<noteq> 0 then [32] else [])"

fun log_bytes :: "nat \<Rightarrow> u8 list \<Rightarrow> cstr" where
  "log_bytes i [] = []"
| "log_bytes i (c # cs) = log_gap i @ hex_digits 2 (unat c) @ log_bytes (Suc i) cs"

text \<open>\<open>Len\<close> is the length of the data, so \<open>i\<close> is \<open>Len\<close> after the loop.\<close>

definition LogHex :: "u8 list \<Rightarrow> cstr" where
  "LogHex cp = log_bytes 0 cp @
     (if length cp = 1 \<or> (int (length cp) - 1) AND 0xf \<noteq> 0 then [10] else [])"

text \<open>The rows of sixteen bytes a reader expects.\<close>

function hex_rows :: "u8 list \<Rightarrow> cstr list" where
  "hex_rows cs = (if cs = [] then [] else row_text (take 16 cs) # hex_rows (drop 16 cs))"
  by pat_completeness auto
termination
  by (relation "measure length") auto

declare hex_rows.simps [simp del]

fun join_rows :: "cstr list \<Rightarrow> cstr" where
  "join_rows [] = []"
| "join_rows [r] = r"
| "join_rows (r # q # rs) = r @ 10 # join_rows (q # rs)"

lemma log_bytes_append: "log_bytes i (xs @ ys) = log_bytes i xs @ log_bytes (i + length xs) ys"
  by (induction xs arbitrary: i) auto

lemma log_gap_mod: "log_gap i = (if i = 0 then [] else if i mod 16 = 0 then [10] else [32])"
proof -
  have "i AND 0xf = i mod 16"
    using take_bit_eq_mask [of 4 i] by (simp add: take_bit_eq_mod mask_eq_exp_minus_1)
  then show ?thesis
    by (simp add: log_gap_def)
qed

lemma log_bytes_row:
  assumes "i mod 16 + length cs \<le> 16" "0 < i mod 16"
  shows "log_bytes i cs = concat (map (\<lambda>d. 32 # hex_digits 2 (unat d)) cs)"
  using assms
proof (induction cs arbitrary: i)
  case (Cons c cs)
  have "cs = [] \<or> (Suc i mod 16 + length cs \<le> 16 \<and> 0 < Suc i mod 16)"
    using Cons.prems by (cases cs) (auto simp: mod_Suc)
  moreover have "log_gap i = [32]"
    using Cons.prems by (auto simp: log_gap_mod)
  ultimately show ?case
    using Cons.IH [of "Suc i"] by auto
qed simp

text \<open>A full row after the first one starts behind a line feed.\<close>

lemma log_bytes_rows:
  assumes "cs \<noteq> []" "i mod 16 = 0"
  shows "log_bytes i cs = (if i = 0 then [] else [10]) @ join_rows (hex_rows cs)"
  using assms
proof (induction cs arbitrary: i rule: hex_rows.induct)
  case (1 cs)
  obtain c t where cs: "cs = c # t"
    using "1.prems" by (cases cs) auto
  have "log_bytes (Suc i) (take 15 t) = concat (map (\<lambda>d. 32 # hex_digits 2 (unat d)) (take 15 t))"
    using "1.prems"(2) by (intro log_bytes_row) (auto simp: mod_Suc)
  then have row: "log_bytes i (take 16 cs) = (if i = 0 then [] else [10]) @ row_text (take 16 cs)"
    using "1.prems"(2) by (simp add: cs log_gap_mod)
  show ?case
  proof (cases "drop 16 cs = []")
    case True
    then show ?thesis
      using row "1.prems" by (simp add: hex_rows.simps [of cs] hex_rows.simps [of "[]"])
  next
    case False
    have "log_bytes i cs = log_bytes i (take 16 cs) @ log_bytes (i + 16) (drop 16 cs)"
      using False log_bytes_append [of i "take 16 cs" "drop 16 cs"] by simp
    moreover have "log_bytes (i + 16) (drop 16 cs) = 10 # join_rows (hex_rows (drop 16 cs))"
      using "1.IH" [of "i + 16"] "1.prems" False by simp
    moreover have "row_text (take 16 cs) @ 10 # join_rows (hex_rows (drop 16 cs)) = join_rows (hex_rows cs)"
      using False "1.prems"(1) by (simp add: hex_rows.simps [of cs] hex_rows.simps [of "drop 16 cs"])
    ultimately show ?thesis
      using row by simp
  qed
qed

text \<open>The text of the log, with its last line feed missing for 17, 33, ... bytes.\<close>

lemma LogHex_rows:
  assumes "cp \<noteq> []"
  shows "LogHex cp = join_rows (hex_rows cp) @ (if length cp mod 16 = 1 \<and> length cp \<noteq> 1 then [] else [10])"
proof -
  have "(int (length cp) - 1) AND 0xf = (int (length cp) - 1) mod 16"
    using take_bit_eq_mask [of 4 "int (length cp) - 1"] by (simp add: take_bit_eq_mod mask_eq_exp_minus_1)
  also have "\<dots> = 0 \<longleftrightarrow> length cp mod 16 = 1"
    using assms by presburger
  finally have "(int (length cp) - 1) AND 0xf = 0 \<longleftrightarrow> length cp mod 16 = 1" .
  then show ?thesis
    using log_bytes_rows [OF assms, of 0] by (auto simp: LogHex_def)
qed

lemma LogHex_unfinished_line:
  assumes "length cp = 17"
  shows "LogHex cp = row_text (take 16 cp) @ [10] @ row_text (drop 16 cp)"
proof -
  have cp: "cp \<noteq> []" "drop 16 cp \<noteq> []" "take 16 (drop 16 cp) = drop 16 cp" "drop 16 (drop 16 cp) = []"
    using assms by auto
  then have "hex_rows cp = [row_text (take 16 cp), row_text (drop 16 cp)]"
    by (simp add: hex_rows.simps [of cp] hex_rows.simps [of "drop 16 cp"] hex_rows.simps [of "[]"])
  then show ?thesis
    using LogHex_rows [OF cp(1)] assms by simp
qed

section \<open>The sound chip\<close>

text \<open>The base address is defined outside the tree.\<close>

definition Opl3WriteReg :: "u32 \<Rightarrow> u8 \<Rightarrow> u16 \<Rightarrow> u8 \<Rightarrow> reg list \<Rightarrow> reg list" where
  "Opl3WriteReg OPL3_BASE Chip RegOffset Data =
     REG_WR (OPL3_BASE + push_bit 10 (ucast Chip) + push_bit 2 (ucast RegOffset)) (ucast Data)"

end
