(* ===== verification/Axi_Memory.thy ===== *)
theory Axi_Memory
  imports Prelude
begin

text \<open>
  The memory behind the caches in the simulation of the hardware core: its regions (\<open>tb_memory.h\<close>) and the
  clocked AXI4 slave in front of them (\<open>tb_axi4_mem.cpp\<close>), one call of \<open>axi_cycle\<close> per clock edge.
  The random numbers behind the delays are a parameter. Time stamps of recorded accesses and the
  trace output are left out.
\<close>

section \<open>Regions\<close>

text \<open>How the simulation stops: a failed assertion, or an access outside an array.\<close>

datatype tb_stop = Assertion_failed | Bad_access

record tb_mem_region =
  tb_base :: u32
  tb_size :: u32
  tb_mem :: "u8 list"

definition tb_match :: "tb_mem_region \<Rightarrow> u32 \<Rightarrow> bool" where
  "tb_match r addr \<longleftrightarrow> tb_base r \<le> addr \<and> addr < tb_base r + tb_size r"

record tb_memory =
  tb_regions :: "tb_mem_region list"
  tb_record_accesses :: bool
  tb_accesses :: "(bool \<times> u32 \<times> u8) list"

definition TB_MEM_MAX_REGIONS :: nat where "TB_MEM_MAX_REGIONS = 10"

definition new_tb_memory :: tb_memory where
  "new_tb_memory = \<lparr>tb_regions = [], tb_record_accesses = False, tb_accesses = []\<rparr>"

text \<open>The first free slot of the table, unless a region before it matches an end of the new one.\<close>

fun tb_place :: "nat \<Rightarrow> tb_mem_region \<Rightarrow> tb_mem_region list \<Rightarrow> tb_mem_region list option" where
  "tb_place 0 r qs = None"
| "tb_place (Suc n) r [] = Some [r]"
| "tb_place (Suc n) r (q # qs) =
     (if tb_match q (tb_base r) \<or> tb_match q (tb_base r + tb_size r - 1) then None
      else map_option ((#) q) (tb_place n r qs))"

definition add_region :: "u8 list \<Rightarrow> u32 \<Rightarrow> u32 \<Rightarrow> tb_memory \<Rightarrow> bool \<times> tb_memory" where
  "add_region contents base sz m =
     (case tb_place TB_MEM_MAX_REGIONS \<lparr>tb_base = base, tb_size = sz, tb_mem = contents\<rparr> (tb_regions m) of
        None \<Rightarrow> (False, m)
      | Some rs \<Rightarrow> (True, m\<lparr>tb_regions := rs\<rparr>))"

definition tb_valid_addr :: "u32 \<Rightarrow> tb_memory \<Rightarrow> bool" where
  "tb_valid_addr addr m \<longleftrightarrow> list_ex (\<lambda>r. tb_match r addr) (tb_regions m)"

definition tb_records :: "bool \<Rightarrow> u32 \<Rightarrow> u8 \<Rightarrow> tb_memory \<Rightarrow> tb_memory" where
  "tb_records w addr data m =
     (if tb_record_accesses m then m\<lparr>tb_accesses := tb_accesses m @ [(w, addr, data)]\<rparr> else m)"

fun region_write :: "u32 \<Rightarrow> u8 \<Rightarrow> tb_mem_region list \<Rightarrow> tb_stop + tb_mem_region list" where
  "region_write addr data [] = Inl Assertion_failed"
| "region_write addr data (r # rs) =
     (if tb_match r addr
      then (if unat (addr - tb_base r) < length (tb_mem r)
        then Inr (r\<lparr>tb_mem := (tb_mem r)[unat (addr - tb_base r) := data]\<rparr> # rs)
        else Inl Bad_access)
      else rbind (region_write addr data rs) (\<lambda>rs. Inr (r # rs)))"

definition tb_write :: "u32 \<Rightarrow> u8 \<Rightarrow> tb_memory \<Rightarrow> tb_stop + tb_memory" where
  "tb_write addr data m =
     (let m = tb_records True addr data m
      in rbind (region_write addr data (tb_regions m)) (\<lambda>rs. Inr (m\<lparr>tb_regions := rs\<rparr>)))"

definition tb_read :: "u32 \<Rightarrow> tb_memory \<Rightarrow> tb_stop + (u8 \<times> tb_memory)" where
  "tb_read addr m =
     (case find (\<lambda>r. tb_match r addr) (tb_regions m) of
        None \<Rightarrow> Inl Assertion_failed
      | Some r \<Rightarrow>
          if unat (addr - tb_base r) < length (tb_mem r)
          then (let data = tb_mem r ! unat (addr - tb_base r) in Inr (data, tb_records False addr data m))
          else Inl Bad_access)"

definition tb_get_array :: "u32 \<Rightarrow> tb_memory \<Rightarrow> tb_stop + u8 list" where
  "tb_get_array addr m =
     (case find (\<lambda>r. tb_match r addr) (tb_regions m) of None \<Rightarrow> Inl Assertion_failed | Some r \<Rightarrow> Inr (tb_mem r))"

definition records_enable :: "bool \<Rightarrow> tb_memory \<Rightarrow> tb_memory" where
  "records_enable en m = m\<lparr>tb_record_accesses := en\<rparr>"

definition records_available :: "tb_memory \<Rightarrow> bool" where
  "records_available m \<longleftrightarrow> length (tb_accesses m) \<noteq> 0"

definition records_pop :: "tb_memory \<Rightarrow> tb_stop + ((bool \<times> u32 \<times> u8) \<times> tb_memory)" where
  "records_pop m =
     (case tb_accesses m of [] \<Rightarrow> Inl Bad_access | v # vs \<Rightarrow> Inr (v, m\<lparr>tb_accesses := vs\<rparr>))"

text \<open>The bytes a memory holds.\<close>

fun regions_view :: "tb_mem_region list \<Rightarrow> u32 \<Rightarrow> u8 option" where
  "regions_view [] addr = None"
| "regions_view (r # rs) addr =
     (if tb_match r addr
      then (if unat (addr - tb_base r) < length (tb_mem r) then Some (tb_mem r ! unat (addr - tb_base r)) else None)
      else regions_view rs addr)"

definition tb_view :: "tb_memory \<Rightarrow> u32 \<Rightarrow> u8 option" where
  "tb_view m = regions_view (tb_regions m)"

text \<open>With recording switched on an access is the last record.\<close>

lemma access_recorded:
  assumes "tb_write addr data (records_enable True m) = Inr m'"
  shows "tb_accesses m' = tb_accesses m @ [(True, addr, data)] \<and> records_available m'"
  using assms
  by (auto simp: tb_write_def tb_records_def records_enable_def records_available_def Let_def rbind_Inr_iff)

section \<open>Words\<close>

text \<open>The loops over the four byte lanes, for any byte memory.\<close>

fun read_lanes :: "(u32 \<Rightarrow> 'm \<Rightarrow> 'e + (u8 \<times> 'm)) \<Rightarrow> u32 \<Rightarrow> nat list \<Rightarrow> u32 \<Rightarrow> 'm \<Rightarrow> 'e + (u32 \<times> 'm)" where
  "read_lanes rdb addr [] data m = Inr (data, m)"
| "read_lanes rdb addr (i # is) data m =
     rbind (rdb (addr + of_nat i) m) (\<lambda>(b, m).
       read_lanes rdb addr is (data OR push_bit (i * 8) (ucast b)) m)"

fun write_lanes :: "(u32 \<Rightarrow> u8 \<Rightarrow> 'm \<Rightarrow> 'e + 'm) \<Rightarrow> u32 \<Rightarrow> u32 \<Rightarrow> u8 \<Rightarrow> nat list \<Rightarrow> 'm \<Rightarrow> 'e + 'm" where
  "write_lanes wrb addr data strb [] m = Inr m"
| "write_lanes wrb addr data strb (i # is) m =
     (if strb AND push_bit i 1 \<noteq> 0
      then rbind (wrb (addr + of_nat i) (ucast (drop_bit (i * 8) data)) m) (write_lanes wrb addr data strb is)
      else write_lanes wrb addr data strb is m)"

definition axi_read32 :: "u32 \<Rightarrow> tb_memory \<Rightarrow> tb_stop + (u32 \<times> tb_memory)" where
  "axi_read32 addr = read_lanes tb_read addr [0, 1, 2, 3] 0"

definition axi_write32 :: "u32 \<Rightarrow> u32 \<Rightarrow> u8 \<Rightarrow> tb_memory \<Rightarrow> tb_stop + tb_memory" where
  "axi_write32 addr data strb = write_lanes tb_write addr data strb [0, 1, 2, 3]"

text \<open>What they mean on the bytes of a memory.\<close>

definition word_at :: "(u32 \<Rightarrow> u8 option) \<Rightarrow> u32 \<Rightarrow> u32" where
  "word_at v addr = fold (\<lambda>i w. w OR push_bit (i * 8) (ucast (the (v (addr + of_nat i))))) [0, 1, 2, 3] 0"

definition strobed :: "u32 \<Rightarrow> u32 \<Rightarrow> u8 \<Rightarrow> (u32 \<Rightarrow> u8 option) \<Rightarrow> u32 \<Rightarrow> u8 option" where
  "strobed addr data strb v =
     fold (\<lambda>i v. if strb AND push_bit i 1 \<noteq> 0 then v(addr + of_nat i \<mapsto> ucast (drop_bit (i * 8) data)) else v)
       [0, 1, 2, 3] v"

definition word_mapped :: "(u32 \<Rightarrow> u8 option) \<Rightarrow> u32 \<Rightarrow> bool" where
  "word_mapped v addr \<longleftrightarrow> list_all (\<lambda>i. v (addr + of_nat i) \<noteq> None) [0, 1, 2, 3]"

text \<open>A memory of bytes: what a client may rely on, and the words over it.\<close>

locale byte_memory =
  fixes rdb :: "u32 \<Rightarrow> 'm \<Rightarrow> 'e + (u8 \<times> 'm)"
    and wrb :: "u32 \<Rightarrow> u8 \<Rightarrow> 'm \<Rightarrow> 'e + 'm"
    and view :: "'m \<Rightarrow> u32 \<Rightarrow> u8 option"
  assumes read_view: "rdb a m = Inr (b, m') \<Longrightarrow> view m a = Some b \<and> view m' = view m"
    and read_mapped: "view m a \<noteq> None \<Longrightarrow> \<exists>b m'. rdb a m = Inr (b, m')"
    and write_view: "wrb a b m = Inr m' \<Longrightarrow> view m' = (view m)(a \<mapsto> b)"
    and write_mapped: "view m a \<noteq> None \<Longrightarrow> \<exists>m'. wrb a b m = Inr m'"
begin

lemma read_lanes_view:
  "read_lanes rdb addr is data m = Inr (w, m') \<Longrightarrow>
    w = fold (\<lambda>i w. w OR push_bit (i * 8) (ucast (the (view m (addr + of_nat i))))) is data \<and> view m' = view m"
proof (induction "is" arbitrary: data m)
  case (Cons i "is")
  obtain b m1 where b: "rdb (addr + of_nat i) m = Inr (b, m1)"
    "read_lanes rdb addr is (data OR push_bit (i * 8) (ucast b)) m1 = Inr (w, m')"
    using Cons.prems by (auto simp: rbind_Inr_iff)
  then show ?case
    using Cons.IH [OF b(2)] read_view [OF b(1)] by simp
qed simp

lemma read_lanes_mapped:
  "list_all (\<lambda>i. view m (addr + of_nat i) \<noteq> None) is \<Longrightarrow> \<exists>w m'. read_lanes rdb addr is data m = Inr (w, m')"
proof (induction "is" arbitrary: data m)
  case (Cons i "is")
  then obtain b m1 where b: "rdb (addr + of_nat i) m = Inr (b, m1)"
    using read_mapped [of m "addr + of_nat i"] by auto
  then have "list_all (\<lambda>i. view m1 (addr + of_nat i) \<noteq> None) is"
    using Cons.prems read_view [OF b] by simp
  then show ?case
    using Cons.IH b by simp
qed simp

lemma write_lanes_view:
  "write_lanes wrb addr data strb is m = Inr m' \<Longrightarrow>
    view m' = fold (\<lambda>i v. if strb AND push_bit i 1 \<noteq> 0
      then v(addr + of_nat i \<mapsto> ucast (drop_bit (i * 8) data)) else v) is (view m)"
proof (induction "is" arbitrary: m)
  case (Cons i "is")
  show ?case
  proof (cases "strb AND push_bit i 1 \<noteq> 0")
    case True
    then obtain m1 where m1: "wrb (addr + of_nat i) (ucast (drop_bit (i * 8) data)) m = Inr m1"
      "write_lanes wrb addr data strb is m1 = Inr m'"
      using Cons.prems by (auto simp: rbind_Inr_iff)
    then show ?thesis
      using Cons.IH [OF m1(2)] write_view [OF m1(1)] True by (simp del: fun_upd_apply)
  qed (use Cons in simp)
qed simp

end

text \<open>The memory of the test bench is one.\<close>

lemma records_regions [simp]: "tb_regions (tb_records w a b m) = tb_regions m"
  by (simp add: tb_records_def)

lemma region_write_view:
  "region_write a b rs = Inr rs' \<Longrightarrow> regions_view rs' = (regions_view rs)(a \<mapsto> b)"
proof (induction rs arbitrary: rs')
  case (Cons r rs)
  show ?case
  proof (cases "tb_match r a")
    case True
    then have rs': "rs' = r\<lparr>tb_mem := (tb_mem r)[unat (a - tb_base r) := b]\<rparr> # rs"
      "unat (a - tb_base r) < length (tb_mem r)"
      using Cons.prems by (auto split: if_splits)
    have "unat (a - tb_base r) = unat (x - tb_base r) \<longleftrightarrow> a = x" for x
      by (simp add: word_unat_eq_iff [symmetric])
    then show ?thesis
      using rs' True by (auto simp: tb_match_def nth_list_update)
  next
    case False
    then obtain q where "region_write a b rs = Inr q" "rs' = r # q"
      using Cons.prems by (auto simp: rbind_Inr_iff)
    then show ?thesis
      using Cons.IH [of q] False by (auto simp: fun_eq_iff)
  qed
qed simp

lemma region_write_mapped: "regions_view rs a \<noteq> None \<Longrightarrow> \<exists>rs'. region_write a b rs = Inr rs'"
  by (induction rs) (auto split: if_splits)

lemma regions_view_find:
  "regions_view rs a = (case find (\<lambda>r. tb_match r a) rs of None \<Rightarrow> None | Some r \<Rightarrow>
     if unat (a - tb_base r) < length (tb_mem r) then Some (tb_mem r ! unat (a - tb_base r)) else None)"
  by (induction rs) auto

interpretation tb: byte_memory tb_read tb_write tb_view
proof unfold_locales
  show "tb_view m' = (tb_view m)(a \<mapsto> b)" if "tb_write a b m = Inr m'" for a b m m'
    using that region_write_view by (auto simp: tb_write_def tb_view_def Let_def rbind_Inr_iff)
  show "\<exists>m'. tb_write a b m = Inr m'" if "tb_view m a \<noteq> None" for a b m
    using that region_write_mapped [of "tb_regions m" a b] by (auto simp: tb_write_def tb_view_def Let_def)
qed (auto simp: tb_read_def tb_view_def regions_view_find Let_def split: option.splits if_splits)

lemma read32_view:
  assumes "axi_read32 addr m = Inr (w, m')"
  shows "w = word_at (tb_view m) addr \<and> tb_view m' = tb_view m"
  using tb.read_lanes_view assms by (simp only: axi_read32_def word_at_def)

lemma read32_mapped: "word_mapped (tb_view m) addr \<Longrightarrow> \<exists>m'. axi_read32 addr m = Inr (word_at (tb_view m) addr, m')"
  using tb.read_lanes_mapped [of m addr "[0, 1, 2, 3]" 0] read32_view
  unfolding axi_read32_def word_mapped_def by blast

lemma write32_view: "axi_write32 addr data strb m = Inr m' \<Longrightarrow> tb_view m' = strobed addr data strb (tb_view m)"
  unfolding axi_write32_def strobed_def by (rule tb.write_lanes_view)

section \<open>The ports\<close>

record axi4_master =
  AWVALID :: bool
  AWADDR :: u32
  AWID :: "4 word"
  AWLEN :: u8
  AWBURST :: "2 word"
  WVALID :: bool
  WDATA :: u32
  WSTRB :: "4 word"
  WLAST :: bool
  BREADY :: bool
  ARVALID :: bool
  ARADDR :: u32
  ARID :: "4 word"
  ARLEN :: u8
  ARBURST :: "2 word"
  RREADY :: bool

record axi4_slave =
  AWREADY :: bool
  WREADY :: bool
  BVALID :: bool
  BRESP :: "2 word"
  BID :: "4 word"
  ARREADY :: bool
  RVALID :: bool
  RDATA :: u32
  RRESP :: "2 word"
  RID :: "4 word"
  RLAST :: bool

definition axi4_master_init :: axi4_master where
  "axi4_master_init =
     \<lparr>AWVALID = False, AWADDR = 0, AWID = 0, AWLEN = 0, AWBURST = 0, WVALID = False, WDATA = 0, WSTRB = 0,
      WLAST = False, BREADY = False, ARVALID = False, ARADDR = 0, ARID = 0, ARLEN = 0, ARBURST = 0,
      RREADY = False\<rparr>"

definition axi4_slave_init :: axi4_slave where
  "axi4_slave_init =
     \<lparr>AWREADY = False, WREADY = False, BVALID = False, BRESP = 0, BID = 0, ARREADY = False, RVALID = False,
      RDATA = 0, RRESP = 0, RID = 0, RLAST = False\<rparr>"

definition AXI4_BURST_INCR :: "2 word" where "AXI4_BURST_INCR = 1"
definition AXI4_BURST_WRAP :: "2 word" where "AXI4_BURST_WRAP = 2"
definition AXI4_RESP_OKAY :: "2 word" where "AXI4_RESP_OKAY = 0"

section \<open>Bursts\<close>

definition calc_wrap_mask :: "u8 \<Rightarrow> u8" where
  "calc_wrap_mask len =
     (if len = 0 then 0x03 else if len = 1 then 0x07 else if len = 3 then 0x0f else if len = 7 then 0x1f else 0x3f)"

definition calc_next_addr :: "u32 \<Rightarrow> 2 word \<Rightarrow> u8 \<Rightarrow> u32" where
  "calc_next_addr addr type len =
     (let mask = ucast (calc_wrap_mask len) in
      if type = AXI4_BURST_WRAP then (addr AND NOT mask) OR ((addr + 4) AND mask)
      else if type = AXI4_BURST_INCR then addr + 4
      else addr)"

text \<open>The beats of a read command; \<open>WLAST\<close> of an item marks the last one.\<close>

fun unroll :: "axi4_master \<Rightarrow> nat \<Rightarrow> nat \<Rightarrow> u32 \<Rightarrow> axi4_master list" where
  "unroll c i 0 next_addr = []"
| "unroll c i (Suc n) next_addr =
     c\<lparr>ARVALID := True, ARADDR := next_addr, WLAST := (i = unat (ARLEN c))\<rparr> #
     unroll c (Suc i) n (calc_next_addr next_addr (ARBURST c) (ARLEN c))"

definition read_burst :: "axi4_master \<Rightarrow> axi4_master list" where
  "read_burst c = unroll c 0 (unat (ARLEN c) + 1) (ARADDR c AND NOT (ucast (calc_wrap_mask 0)))"

section \<open>A clock cycle\<close>

record axi_mem =
  axi_rd_q :: "axi4_master list"
  axi_wr_q :: "axi4_master list"
  axi_wr_req :: axi4_master
  axi_o :: axi4_slave
  tb_store :: tb_memory
  m_enable_delays :: bool
  rand_calls :: nat

definition enable_delays :: "bool \<Rightarrow> axi_mem \<Rightarrow> axi_mem" where
  "enable_delays en s = s\<lparr>m_enable_delays := en\<rparr>"

text \<open>\<open>rnd n\<close> is the lowest bit of the \<open>n\<close>-th random number.\<close>

definition delay_cycle :: "(nat \<Rightarrow> bool) \<Rightarrow> axi_mem \<Rightarrow> bool \<times> axi_mem" where
  "delay_cycle rnd s =
     (if m_enable_delays s then (rnd (rand_calls s), s\<lparr>rand_calls := rand_calls s + 1\<rparr>) else (False, s))"

definition read_command :: "axi4_master \<Rightarrow> axi_mem \<Rightarrow> axi_mem" where
  "read_command axi_i s =
     (if ARVALID axi_i \<and> ARREADY (axi_o s) then s\<lparr>axi_rd_q := axi_rd_q s @ read_burst axi_i\<rparr> else s)"

definition write_command :: "axi4_master \<Rightarrow> axi_mem \<Rightarrow> axi_mem" where
  "write_command axi_i s = (if AWVALID axi_i \<and> AWREADY (axi_o s) then s\<lparr>axi_wr_req := axi_i\<rparr> else s)"

definition write_item :: "axi4_master \<Rightarrow> axi4_master \<Rightarrow> axi4_master" where
  "write_item axi_i req =
     req\<lparr>AWVALID := True, WVALID := True, WDATA := WDATA axi_i, WSTRB := WSTRB axi_i, WLAST := WLAST axi_i\<rparr>"

definition write_data :: "axi4_master \<Rightarrow> axi_mem \<Rightarrow> tb_stop + axi_mem" where
  "write_data axi_i s =
     (if WVALID axi_i \<and> WREADY (axi_o s)
      then if \<not> AWVALID (axi_wr_req s) then Inl Assertion_failed
        else (let item = write_item axi_i (axi_wr_req s);
                  req = (axi_wr_req s)
                    \<lparr>AWADDR := calc_next_addr (AWADDR (axi_wr_req s)) (AWBURST (axi_wr_req s)) (AWLEN (axi_wr_req s))\<rparr>
              in Inr (s\<lparr>axi_wr_q := axi_wr_q s @ [item],
                axi_wr_req := (if WLAST item then req\<lparr>AWVALID := False\<rparr> else req)\<rparr>))
      else Inr s)"

definition read_done :: "axi4_master \<Rightarrow> axi_mem \<Rightarrow> axi_mem" where
  "read_done axi_i s =
     (if RVALID (axi_o s) \<and> RREADY axi_i
      then s\<lparr>axi_o := (axi_o s)\<lparr>RVALID := False, RDATA := 0, RID := 0, RRESP := 0, RLAST := False\<rparr>\<rparr> else s)"

definition read_serve :: "(nat \<Rightarrow> bool) \<Rightarrow> axi_mem \<Rightarrow> tb_stop + axi_mem" where
  "read_serve rnd s =
     (if \<not> RVALID (axi_o s) \<and> axi_rd_q s \<noteq> []
      then (case delay_cycle rnd s of (late, s) \<Rightarrow>
        if late then Inr s
        else (let item = hd (axi_rd_q s) in
          rbind (axi_read32 (ARADDR item) (tb_store s)) (\<lambda>(data, m).
            Inr (s\<lparr>axi_rd_q := tl (axi_rd_q s), tb_store := m, axi_o := (axi_o s)
              \<lparr>RVALID := True, RDATA := data, RID := ARID item, RLAST := WLAST item, RRESP := AXI4_RESP_OKAY\<rparr>\<rparr>))))
      else Inr s)"

definition write_done :: "axi4_master \<Rightarrow> axi_mem \<Rightarrow> axi_mem" where
  "write_done axi_i s =
     (if BVALID (axi_o s) \<and> BREADY axi_i
      then s\<lparr>axi_o := (axi_o s)\<lparr>BVALID := False, BID := 0, BRESP := 0\<rparr>\<rparr> else s)"

definition write_serve :: "(nat \<Rightarrow> bool) \<Rightarrow> axi_mem \<Rightarrow> tb_stop + axi_mem" where
  "write_serve rnd s =
     (if \<not> BVALID (axi_o s) \<and> axi_wr_q s \<noteq> []
      then (case delay_cycle rnd s of (late, s) \<Rightarrow>
        if late then Inr s
        else (let item = hd (axi_wr_q s) in
          rbind (axi_write32 (AWADDR item) (WDATA item) (ucast (WSTRB item)) (tb_store s)) (\<lambda>m.
            Inr (s\<lparr>axi_wr_q := tl (axi_wr_q s), tb_store := m, axi_o := (axi_o s)
              \<lparr>BVALID := WLAST item, BID := AWID item, BRESP := AXI4_RESP_OKAY\<rparr>\<rparr>))))
      else Inr s)"

text \<open>The ready signals of the next cycle.\<close>

definition handshake :: "(nat \<Rightarrow> bool) \<Rightarrow> axi_mem \<Rightarrow> axi_mem" where
  "handshake rnd s =
     (case delay_cycle rnd s of (d1, s) \<Rightarrow>
      case delay_cycle rnd s of (d2, s) \<Rightarrow>
        let ar = (\<not> d1 \<and> length (axi_rd_q s) < 128);
            aw = (\<not> d2 \<and> length (axi_wr_q s) < 128)
        in case (if aw then delay_cycle rnd s else (True, s)) of (d3, s) \<Rightarrow>
          s\<lparr>axi_o := (axi_o s)\<lparr>ARREADY := ar, AWREADY := aw \<and> \<not> AWVALID (axi_wr_req s), WREADY := \<not> d3\<rparr>\<rparr>)"

definition axi_cycle :: "(nat \<Rightarrow> bool) \<Rightarrow> axi4_master \<Rightarrow> axi_mem \<Rightarrow> tb_stop + axi_mem" where
  "axi_cycle rnd axi_i s =
     rbind (write_data axi_i (write_command axi_i (read_command axi_i s))) (\<lambda>s.
     rbind (read_serve rnd (read_done axi_i s)) (\<lambda>s.
     rbind (write_serve rnd (write_done axi_i s)) (\<lambda>s. Inr (handshake rnd s))))"

text \<open>The thread starts with empty queues.\<close>

definition axi_start :: "tb_memory \<Rightarrow> bool \<Rightarrow> axi_mem" where
  "axi_start m delays =
     \<lparr>axi_rd_q = [], axi_wr_q = [], axi_wr_req = axi4_master_init, axi_o = axi4_slave_init, tb_store = m,
      m_enable_delays = delays, rand_calls = 0\<rparr>"

fun axi_run :: "(nat \<Rightarrow> bool) \<Rightarrow> axi4_master list \<Rightarrow> axi_mem \<Rightarrow> tb_stop + axi_mem" where
  "axi_run rnd [] s = Inr s"
| "axi_run rnd (i # is) s = rbind (axi_cycle rnd i s) (axi_run rnd is)"

section \<open>What crosses the channels\<close>

text \<open>In the cycle that starts in a state with an input: beats and responses taken, items accepted.\<close>

type_synonym beat = "4 word \<times> u32 \<times> bool"

definition r_channel :: "axi4_master \<Rightarrow> axi_mem \<Rightarrow> beat list" where
  "r_channel i s = (if RVALID (axi_o s) \<and> RREADY i then [(RID (axi_o s), RDATA (axi_o s), RLAST (axi_o s))] else [])"

definition b_channel :: "axi4_master \<Rightarrow> axi_mem \<Rightarrow> 4 word list" where
  "b_channel i s = (if BVALID (axi_o s) \<and> BREADY i then [BID (axi_o s)] else [])"

definition read_accepted :: "axi4_master \<Rightarrow> axi_mem \<Rightarrow> axi4_master list" where
  "read_accepted i s = (if ARVALID i \<and> ARREADY (axi_o s) then read_burst i else [])"

definition write_accepted :: "axi4_master \<Rightarrow> axi_mem \<Rightarrow> axi4_master list" where
  "write_accepted i s =
     (if WVALID i \<and> WREADY (axi_o s) then [write_item i (axi_wr_req (write_command i s))] else [])"

fun axi_log :: "(axi4_master \<Rightarrow> axi_mem \<Rightarrow> 'a list) \<Rightarrow> (nat \<Rightarrow> bool) \<Rightarrow> axi4_master list \<Rightarrow> axi_mem \<Rightarrow> 'a list" where
  "axi_log f rnd [] s = []"
| "axi_log f rnd (i # is) s =
     f i s @ (case axi_cycle rnd i s of Inl e \<Rightarrow> [] | Inr s' \<Rightarrow> axi_log f rnd is s')"

text \<open>The beats still to come, on the contents of the memory, and the effect of the writes still queued.\<close>

definition read_beat :: "(u32 \<Rightarrow> u8 option) \<Rightarrow> axi4_master \<Rightarrow> beat" where
  "read_beat v item = (ARID item, word_at v (ARADDR item), WLAST item)"

definition r_pending :: "(u32 \<Rightarrow> u8 option) \<Rightarrow> axi_mem \<Rightarrow> beat list" where
  "r_pending v s =
     (if RVALID (axi_o s) then [(RID (axi_o s), RDATA (axi_o s), RLAST (axi_o s))] else []) @
     map (read_beat v) (axi_rd_q s)"

definition b_pending :: "axi_mem \<Rightarrow> 4 word list" where
  "b_pending s = (if BVALID (axi_o s) then [BID (axi_o s)] else []) @ map AWID (filter WLAST (axi_wr_q s))"

definition written :: "axi4_master list \<Rightarrow> (u32 \<Rightarrow> u8 option) \<Rightarrow> u32 \<Rightarrow> u8 option" where
  "written items = fold (\<lambda>it. strobed (AWADDR it) (WDATA it) (ucast (WSTRB it))) items"

definition axi_image :: "axi_mem \<Rightarrow> u32 \<Rightarrow> u8 option" where
  "axi_image s = written (axi_wr_q s) (tb_view (tb_store s))"

definition beat_tag :: "beat \<Rightarrow> 4 word \<times> bool" where
  "beat_tag = (\<lambda>(i, d, l). (i, l))"

lemma written_simps [simp]:
  "written [] v = v" "written (it # its) v = written its (strobed (AWADDR it) (WDATA it) (ucast (WSTRB it)) v)"
  "written (its @ its') v = written its' (written its v)"
  by (simp_all add: written_def)

lemma delay_cycle_same:
  assumes "delay_cycle rnd s = (b, s')"
  shows "\<exists>k. s' = s\<lparr>rand_calls := k\<rparr>"
proof (cases "m_enable_delays s")
  case True
  then show ?thesis
    using assms by (auto simp: delay_cycle_def)
next
  case False
  then show ?thesis
    using assms by (intro exI [of _ "rand_calls s"]) (simp add: delay_cycle_def)
qed

lemma handshake_keeps:
  "axi_rd_q (handshake rnd s) = axi_rd_q s" "axi_wr_q (handshake rnd s) = axi_wr_q s"
  "tb_store (handshake rnd s) = tb_store s" "r_pending v (handshake rnd s) = r_pending v s"
  "b_pending (handshake rnd s) = b_pending s" "RVALID (axi_o (handshake rnd s)) = RVALID (axi_o s)"
  "m_enable_delays (handshake rnd s) = m_enable_delays s"
  by (auto simp: handshake_def delay_cycle_def r_pending_def b_pending_def Let_def split: prod.split)

text \<open>The phases: each keeps what the others work on.\<close>

lemma accept_phase:
  assumes "write_data i (write_command i (read_command i s)) = Inr s'"
  shows "axi_rd_q s' = axi_rd_q s @ read_accepted i s" "axi_wr_q s' = axi_wr_q s @ write_accepted i s"
    "axi_o s' = axi_o s" "tb_store s' = tb_store s" "m_enable_delays s' = m_enable_delays s"
  using assms
  by (auto simp: write_data_def write_command_def read_command_def read_accepted_def write_accepted_def Let_def
      split: if_splits)

lemma read_phase:
  assumes "read_serve rnd (read_done i s) = Inr s'"
  shows "r_channel i s @ r_pending (tb_view (tb_store s)) s' = r_pending (tb_view (tb_store s)) s"
    "axi_wr_q s' = axi_wr_q s" "tb_view (tb_store s') = tb_view (tb_store s)"
    "b_pending s' = b_pending s" "b_channel i s' = b_channel i s" "m_enable_delays s' = m_enable_delays s"
proof -
  let ?s = "read_done i s"
  have fin: "r_channel i s @ r_pending v ?s = r_pending v s" "axi_wr_q ?s = axi_wr_q s" "tb_store ?s = tb_store s"
    "b_pending ?s = b_pending s" "b_channel i ?s = b_channel i s" "m_enable_delays ?s = m_enable_delays s" for v
    by (auto simp: read_done_def r_channel_def r_pending_def b_pending_def b_channel_def)
  have serve: "r_pending (tb_view (tb_store ?s)) s' = r_pending (tb_view (tb_store ?s)) ?s \<and>
      axi_wr_q s' = axi_wr_q ?s \<and> tb_view (tb_store s') = tb_view (tb_store ?s) \<and>
      b_pending s' = b_pending ?s \<and> b_channel i s' = b_channel i ?s \<and> m_enable_delays s' = m_enable_delays ?s"
  proof (cases "\<not> RVALID (axi_o ?s) \<and> axi_rd_q ?s \<noteq> []")
    case True
    obtain b t where t: "delay_cycle rnd ?s = (b, t)"
      by (cases "delay_cycle rnd ?s")
    obtain k where k: "t = ?s\<lparr>rand_calls := k\<rparr>"
      using delay_cycle_same [OF t] by blast
    show ?thesis
    proof (cases b)
      case True
      then show ?thesis
        using assms t k by (auto simp: read_serve_def r_pending_def b_pending_def b_channel_def split: if_splits)
    next
      case False
      obtain item q where q: "axi_rd_q ?s = item # q"
        using True by (cases "axi_rd_q ?s") auto
      obtain d m where d: "axi_read32 (ARADDR item) (tb_store ?s) = Inr (d, m)"
        "s' = t\<lparr>axi_rd_q := q, tb_store := m, axi_o := (axi_o t)
          \<lparr>RVALID := True, RDATA := d, RID := ARID item, RLAST := WLAST item, RRESP := AXI4_RESP_OKAY\<rparr>\<rparr>"
        using assms t k q True False by (auto simp: read_serve_def Let_def rbind_Inr_iff)
      show ?thesis
        using d k q True read32_view [OF d(1)] by (simp add: r_pending_def b_pending_def b_channel_def read_beat_def)
    qed
  qed (use assms in \<open>auto simp: read_serve_def\<close>)
  show "r_channel i s @ r_pending (tb_view (tb_store s)) s' = r_pending (tb_view (tb_store s)) s"
    using serve fin by metis
  show "axi_wr_q s' = axi_wr_q s" "tb_view (tb_store s') = tb_view (tb_store s)"
    "b_pending s' = b_pending s" "b_channel i s' = b_channel i s" "m_enable_delays s' = m_enable_delays s"
    using serve fin by simp_all
qed

lemma write_phase:
  assumes "write_serve rnd (write_done i s) = Inr s'"
  shows "b_channel i s @ b_pending s' = b_pending s" "axi_image s' = axi_image s" "r_pending v s' = r_pending v s"
    "axi_rd_q s' = axi_rd_q s" "RVALID (axi_o s') = RVALID (axi_o s)" "m_enable_delays s' = m_enable_delays s"
    "axi_wr_q s = [] \<Longrightarrow> axi_wr_q s' = [] \<and> tb_store s' = tb_store s"
proof -
  let ?s = "write_done i s"
  have fin: "b_channel i s @ b_pending ?s = b_pending s" "axi_image ?s = axi_image s" "r_pending v ?s = r_pending v s"
    "axi_rd_q ?s = axi_rd_q s" "RVALID (axi_o ?s) = RVALID (axi_o s)" "m_enable_delays ?s = m_enable_delays s"
    "axi_wr_q ?s = axi_wr_q s" "tb_store ?s = tb_store s"
    by (auto simp: write_done_def r_pending_def b_pending_def b_channel_def axi_image_def)
  have serve: "b_pending s' = b_pending ?s \<and> axi_image s' = axi_image ?s \<and> r_pending v s' = r_pending v ?s \<and>
      axi_rd_q s' = axi_rd_q ?s \<and> RVALID (axi_o s') = RVALID (axi_o ?s) \<and> m_enable_delays s' = m_enable_delays ?s \<and>
      (axi_wr_q ?s = [] \<longrightarrow> axi_wr_q s' = [] \<and> tb_store s' = tb_store ?s)"
  proof (cases "\<not> BVALID (axi_o ?s) \<and> axi_wr_q ?s \<noteq> []")
    case True
    obtain b t where t: "delay_cycle rnd ?s = (b, t)"
      by (cases "delay_cycle rnd ?s")
    obtain k where k: "t = ?s\<lparr>rand_calls := k\<rparr>"
      using delay_cycle_same [OF t] by blast
    show ?thesis
    proof (cases b)
      case True
      then show ?thesis
        using assms t k by (auto simp: write_serve_def r_pending_def b_pending_def axi_image_def split: if_splits)
    next
      case False
      obtain item q where q: "axi_wr_q ?s = item # q"
        using True by (cases "axi_wr_q ?s") auto
      obtain m where d: "axi_write32 (AWADDR item) (WDATA item) (ucast (WSTRB item)) (tb_store ?s) = Inr m"
        "s' = t\<lparr>axi_wr_q := q, tb_store := m, axi_o := (axi_o t)
          \<lparr>BVALID := WLAST item, BID := AWID item, BRESP := AXI4_RESP_OKAY\<rparr>\<rparr>"
        using assms t k q True False by (auto simp: write_serve_def Let_def rbind_Inr_iff)
      show ?thesis
        using d k q write32_view [OF d(1)] True by (simp add: r_pending_def b_pending_def axi_image_def)
    qed
  qed (use assms in \<open>auto simp: write_serve_def\<close>)
  show "b_channel i s @ b_pending s' = b_pending s" "axi_image s' = axi_image s" "r_pending v s' = r_pending v s"
    "axi_rd_q s' = axi_rd_q s" "RVALID (axi_o s') = RVALID (axi_o s)" "m_enable_delays s' = m_enable_delays s"
    "axi_wr_q s = [] \<Longrightarrow> axi_wr_q s' = [] \<and> tb_store s' = tb_store s"
    using serve fin by simp_all
qed

text \<open>One cycle.\<close>

lemma cycle_serves:
  assumes "axi_cycle rnd i s = Inr s'"
  shows "r_channel i s @ r_pending (tb_view (tb_store s)) s' =
      r_pending (tb_view (tb_store s)) s @ map (read_beat (tb_view (tb_store s))) (read_accepted i s)"
    "b_channel i s @ b_pending s' = b_pending s @ map AWID (filter WLAST (write_accepted i s))"
    "axi_image s' = written (write_accepted i s) (axi_image s)"
    "axi_wr_q s = [] \<Longrightarrow> \<not> WVALID i \<Longrightarrow> axi_wr_q s' = [] \<and> tb_view (tb_store s') = tb_view (tb_store s)"
proof -
  obtain s1 s2 s3 where s1: "write_data i (write_command i (read_command i s)) = Inr s1"
    and s2: "read_serve rnd (read_done i s1) = Inr s2" and s3: "write_serve rnd (write_done i s2) = Inr s3"
    and s': "s' = handshake rnd s3"
    using assms by (auto simp: axi_cycle_def rbind_Inr_iff)
  note a = accept_phase [OF s1] and r = read_phase [OF s2] and w = write_phase [OF s3]
  have chan: "r_channel i s1 = r_channel i s" "b_channel i s1 = b_channel i s"
    by (simp_all add: r_channel_def b_channel_def a(3))
  have pend: "r_pending v s1 = r_pending v s @ map (read_beat v) (read_accepted i s)"
    "b_pending s1 = b_pending s @ map AWID (filter WLAST (write_accepted i s))"
    "axi_image s1 = written (write_accepted i s) (axi_image s)" for v
    by (simp_all add: r_pending_def b_pending_def axi_image_def a)
  show "r_channel i s @ r_pending (tb_view (tb_store s)) s' =
      r_pending (tb_view (tb_store s)) s @ map (read_beat (tb_view (tb_store s))) (read_accepted i s)"
    using r(1) by (simp add: s' handshake_keeps w(3) chan pend a(4))
  show "b_channel i s @ b_pending s' = b_pending s @ map AWID (filter WLAST (write_accepted i s))"
    using w(1) by (simp add: s' handshake_keeps r(4,5) chan pend)
  have "axi_image s2 = axi_image s1"
    by (simp add: axi_image_def r(2,3))
  then show "axi_image s' = written (write_accepted i s) (axi_image s)"
    using w(2) pend(3) by (simp add: s' axi_image_def handshake_keeps)
  assume "axi_wr_q s = []" "\<not> WVALID i"
  then have "axi_wr_q s2 = []"
    by (simp add: r(2) a(2) write_accepted_def)
  then show "axi_wr_q s' = [] \<and> tb_view (tb_store s') = tb_view (tb_store s)"
    using w(7) r(3) a(4) by (simp add: s' handshake_keeps)
qed

lemma run_serves:
  assumes "axi_run rnd ins s = Inr s'"
  shows "map beat_tag (axi_log r_channel rnd ins s @ r_pending v s') =
      map beat_tag (r_pending v s @ map (read_beat v) (axi_log read_accepted rnd ins s))"
    "axi_log b_channel rnd ins s @ b_pending s' =
      b_pending s @ map AWID (filter WLAST (axi_log write_accepted rnd ins s))"
    "axi_image s' = written (axi_log write_accepted rnd ins s) (axi_image s)"
proof -
  have tag: "map beat_tag (r_pending v s) = map beat_tag (r_pending w s)"
    "map (beat_tag \<circ> read_beat v) q = map (beat_tag \<circ> read_beat w) q" for v w s q
    by (simp_all add: r_pending_def beat_tag_def read_beat_def)
  show "map beat_tag (axi_log r_channel rnd ins s @ r_pending v s') =
      map beat_tag (r_pending v s @ map (read_beat v) (axi_log read_accepted rnd ins s))"
    using assms
  proof (induction ins arbitrary: s)
    case (Cons i ins)
    obtain t where t: "axi_cycle rnd i s = Inr t" "axi_run rnd ins t = Inr s'"
      using Cons.prems by (auto simp: rbind_Inr_iff)
    let ?w = "tb_view (tb_store s)" and ?tags = "map beat_tag"
    have "?tags (r_channel i s) @ ?tags (r_pending ?w t) =
        ?tags (r_pending ?w s) @ map (beat_tag \<circ> read_beat ?w) (read_accepted i s)"
      using arg_cong [OF cycle_serves(1) [OF t(1)], of ?tags] by simp
    then have now: "?tags (r_channel i s) @ ?tags (r_pending v t) =
        ?tags (r_pending v s) @ map (beat_tag \<circ> read_beat v) (read_accepted i s)"
      unfolding tag(1) [of ?w _ v] tag(2) [of ?w _ v] .
    have "?tags (r_channel i s) @ ?tags (axi_log r_channel rnd ins t) @ ?tags (r_pending v s') =
        (?tags (r_channel i s) @ ?tags (r_pending v t)) @
        map (beat_tag \<circ> read_beat v) (axi_log read_accepted rnd ins t)"
      using Cons.IH [OF t(2)] by simp
    then show ?case
      using now t(1) by simp
  qed simp
  show "axi_log b_channel rnd ins s @ b_pending s' =
      b_pending s @ map AWID (filter WLAST (axi_log write_accepted rnd ins s))"
    using assms
  proof (induction ins arbitrary: s)
    case (Cons i ins)
    obtain t where t: "axi_cycle rnd i s = Inr t" "axi_run rnd ins t = Inr s'"
      using Cons.prems by (auto simp: rbind_Inr_iff)
    have "b_channel i s @ axi_log b_channel rnd ins t @ b_pending s' =
        (b_channel i s @ b_pending t) @ map AWID (filter WLAST (axi_log write_accepted rnd ins t))"
      using Cons.IH [OF t(2)] by simp
    then show ?case
      using cycle_serves(2) [OF t(1)] t(1) by simp
  qed simp
  show "axi_image s' = written (axi_log write_accepted rnd ins s) (axi_image s)"
    using assms
  proof (induction ins arbitrary: s)
    case (Cons i ins)
    obtain t where t: "axi_cycle rnd i s = Inr t" "axi_run rnd ins t = Inr s'"
      using Cons.prems by (auto simp: rbind_Inr_iff)
    then show ?case
      using Cons.IH [OF t(2)] cycle_serves(3) [OF t(1)] by simp
  qed simp
qed

lemma run_reads:
  assumes "axi_run rnd ins s = Inr s'" "axi_wr_q s = []" "list_all (\<lambda>i. \<not> WVALID i) ins" "tb_view (tb_store s) = v"
  shows "axi_log r_channel rnd ins s @ r_pending v s' =
    r_pending v s @ map (read_beat v) (axi_log read_accepted rnd ins s)"
  using assms
proof (induction ins arbitrary: s)
  case (Cons i ins)
  obtain t where t: "axi_cycle rnd i s = Inr t" "axi_run rnd ins t = Inr s'"
    using Cons.prems by (auto simp: rbind_Inr_iff)
  have "axi_wr_q t = []" "tb_view (tb_store t) = v"
    using cycle_serves(4) [OF t(1)] Cons.prems by simp_all
  then have "axi_log r_channel rnd ins t @ r_pending v s' =
      r_pending v t @ map (read_beat v) (axi_log read_accepted rnd ins t)"
    using Cons.IH [OF t(2)] Cons.prems by simp
  then have "r_channel i s @ axi_log r_channel rnd ins t @ r_pending v s' =
      (r_channel i s @ r_pending v t) @ map (read_beat v) (axi_log read_accepted rnd ins t)"
    by simp
  then show ?case
    using cycle_serves(1) [OF t(1)] t(1) Cons.prems(4) by simp
qed simp

text \<open>The addresses of a burst as the AXI specification gives them.\<close>

definition burst_addr :: "axi4_master \<Rightarrow> nat \<Rightarrow> u32" where
  "burst_addr c i =
     (let a = ARADDR c AND NOT 3; total = 4 * (ucast (ARLEN c) + 1) in
      if ARBURST c = AXI4_BURST_WRAP then a - a mod total + (a + 4 * of_nat i) mod total
      else if ARBURST c = AXI4_BURST_INCR then a + 4 * of_nat i
      else a)"

definition wrap_length :: "u8 \<Rightarrow> bool" where
  "wrap_length len \<longleftrightarrow> len \<in> {0, 1, 3, 7, 15}"

lemma unroll_items:
  "map ARADDR (unroll c i n a) = map (\<lambda>k. ((\<lambda>a. calc_next_addr a (ARBURST c) (ARLEN c)) ^^ k) a) [0..<n]"
  "map WLAST (unroll c i n a) = map (\<lambda>k. i + k = unat (ARLEN c)) [0..<n]"
  "map ARID (unroll c i n a) = replicate n (ARID c)"
proof (induction n arbitrary: i a)
  case (Suc n)
  {
    case 1
    show ?case
      by (simp add: Suc.IH(1) map_upt_Suc funpow_Suc_right del: upt_Suc funpow.simps)
  next
    case 2
    show ?case
      by (simp add: Suc.IH(2) map_upt_Suc del: upt_Suc)
  next
    case 3
    show ?case
      by (simp add: Suc.IH(3))
  }
qed simp_all

lemma wrap_masks:
  assumes "wrap_length len"
  shows "\<exists>k. (ucast (calc_wrap_mask len) :: u32) = mask k \<and> (4 * (ucast len + 1) :: u32) = 2 ^ k \<and> 2 \<le> k"
proof -
  have "len = 0 \<or> len = 1 \<or> len = 3 \<or> len = 7 \<or> len = 15"
    using assms by (simp add: wrap_length_def)
  then consider "len = 0" | "len = 1" | "len = 3" | "len = 7" | "len = 15"
    by blast
  then show ?thesis
  proof cases
    case 1
    then show ?thesis
      by (intro exI [of _ 2]) (simp add: calc_wrap_mask_def mask_eq_exp_minus_1)
  next
    case 2
    then show ?thesis
      by (intro exI [of _ 3]) (simp add: calc_wrap_mask_def mask_eq_exp_minus_1)
  next
    case 3
    then show ?thesis
      by (intro exI [of _ 4]) (simp add: calc_wrap_mask_def mask_eq_exp_minus_1)
  next
    case 4
    then show ?thesis
      by (intro exI [of _ 5]) (simp add: calc_wrap_mask_def mask_eq_exp_minus_1)
  next
    case 5
    then show ?thesis
      by (intro exI [of _ 6]) (simp add: calc_wrap_mask_def mask_eq_exp_minus_1)
  qed
qed

lemma take_bit_word_add: "take_bit n (take_bit n a + take_bit n b) = take_bit n (a + b :: 'w :: len word)"
proof (rule bit_word_eqI)
  fix k
  assume "k < LENGTH('w)"
  show "bit (take_bit n (take_bit n a + take_bit n b)) k = bit (take_bit n (a + b)) k"
    by (transfer fixing: n k) (simp add: bit_take_bit_iff take_bit_add)
qed

text \<open>A wrapping step keeps the high bits and adds to the low ones.\<close>

lemma wrap_steps:
  fixes a :: u32
  shows "((\<lambda>a. (a AND NOT (mask k)) OR ((a + 4) AND mask k)) ^^ i) a =
    (a AND NOT (mask k)) OR take_bit k (a + 4 * of_nat i)"
proof (induction i)
  case 0
  show ?case
    by (rule bit_word_eqI) (auto simp: bit_simps)
next
  case (Suc i)
  let ?b = "(a AND NOT (mask k)) OR take_bit k (a + 4 * of_nat i)"
  have "?b AND NOT (mask k) = a AND NOT (mask k)" "take_bit k ?b = take_bit k (a + 4 * of_nat i)"
    by (rule bit_word_eqI; auto simp: bit_simps)+
  moreover have "(?b + 4) AND mask k = take_bit k (take_bit k ?b + take_bit k 4)"
    unfolding take_bit_word_add by (rule take_bit_eq_mask [symmetric])
  ultimately have "(?b AND NOT (mask k)) OR ((?b + 4) AND mask k) =
      (a AND NOT (mask k)) OR take_bit k (a + 4 * of_nat i + 4)"
    by (simp only: take_bit_word_add)
  moreover have "a + 4 * of_nat i + 4 = a + 4 * of_nat (Suc i)"
    by simp
  ultimately show ?case
    using Suc by (simp only: funpow.simps comp_apply)
qed

lemma high_low:
  fixes a x :: u32
  shows "(a AND NOT (mask k)) OR take_bit k x = a - take_bit k a + take_bit k x"
proof -
  have apart: "(a AND NOT (mask k)) OR take_bit k y = (a AND NOT (mask k)) + take_bit k y" for y
    by (rule disjunctive_add_eq_or [symmetric]) (rule bit_word_eqI, auto simp: bit_simps)
  have "(a AND NOT (mask k)) OR take_bit k a = a"
    by (rule bit_word_eqI) (auto simp: bit_simps)
  then have "a AND NOT (mask k) = a - take_bit k a"
    using apart [of a] by (simp add: algebra_simps)
  then show ?thesis
    using apart [of x] by simp
qed

lemma burst_addresses:
  assumes "ARBURST c = AXI4_BURST_WRAP \<longrightarrow> wrap_length (ARLEN c)"
  shows "map ARADDR (read_burst c) = map (burst_addr c) [0..<unat (ARLEN c) + 1]"
    and "map WLAST (read_burst c) = map (\<lambda>i. i = unat (ARLEN c)) [0..<unat (ARLEN c) + 1]"
    and "map ARID (read_burst c) = replicate (unat (ARLEN c) + 1) (ARID c)"
proof -
  let ?a = "ARADDR c AND NOT 3"
  have "((\<lambda>a. calc_next_addr a (ARBURST c) (ARLEN c)) ^^ i) ?a = burst_addr c i" for i
  proof (cases "ARBURST c = AXI4_BURST_WRAP")
    case True
    then obtain k where k: "(ucast (calc_wrap_mask (ARLEN c)) :: u32) = mask k" "(4 * (ucast (ARLEN c) + 1) :: u32) = 2 ^ k"
      using wrap_masks assms by blast
    show ?thesis
      unfolding calc_next_addr_def burst_addr_def Let_def k if_P [OF True] wrap_steps take_bit_eq_mod [symmetric] high_low ..
  next
    case False
    have "((\<lambda>a. a + 4) ^^ i) a = a + 4 * of_nat i" for a :: u32
      by (induction i) (simp_all add: algebra_simps)
    moreover have "((\<lambda>a. a) ^^ i) a = a" for a :: u32
      by (induction i) simp_all
    ultimately show ?thesis
      using False by (simp add: calc_next_addr_def burst_addr_def Let_def)
  qed
  moreover have "(ucast (calc_wrap_mask 0) :: u32) = 3"
    by (simp add: calc_wrap_mask_def)
  ultimately show "map ARADDR (read_burst c) = map (burst_addr c) [0..<unat (ARLEN c) + 1]"
    by (simp only: read_burst_def unroll_items(1))
  show "map WLAST (read_burst c) = map (\<lambda>i. i = unat (ARLEN c)) [0..<unat (ARLEN c) + 1]"
    by (simp only: read_burst_def unroll_items(2) add_0)
  show "map ARID (read_burst c) = replicate (unat (ARLEN c) + 1) (ARID c)"
    by (simp only: read_burst_def unroll_items(3))
qed

text \<open>
  The beats of an accepted read burst: one more than its length, the identifier, the addresses of the
  specification and the mark on the last one. A wrapping burst has 2, 4, 8 or 16 beats (or a single one).
\<close>

definition burst_beats :: "axi4_master \<Rightarrow> axi_mem \<Rightarrow> (4 word \<times> u32 \<times> bool) list" where
  "burst_beats i s =
     (if ARVALID i \<and> ARREADY (axi_o s)
      then map (\<lambda>k. (ARID i, burst_addr i k, k = unat (ARLEN i))) [0..<unat (ARLEN i) + 1] else [])"

definition legal_burst :: "axi4_master \<Rightarrow> bool" where
  "legal_burst i \<longleftrightarrow> (ARBURST i = AXI4_BURST_WRAP \<longrightarrow> wrap_length (ARLEN i))"

definition item_beat :: "axi4_master \<Rightarrow> 4 word \<times> u32 \<times> bool" where
  "item_beat it = (ARID it, ARADDR it, WLAST it)"

lemma read_accepted_beats:
  assumes "legal_burst i"
  shows "map item_beat (read_accepted i s) = burst_beats i s"
proof -
  note b = burst_addresses [OF assms [unfolded legal_burst_def]]
  have n: "length (read_burst i) = unat (ARLEN i) + 1" using arg_cong [OF b(1), of length] by simp
  have "map item_beat (read_burst i) =
      map (\<lambda>k. (ARID i, burst_addr i k, k = unat (ARLEN i))) [0..<unat (ARLEN i) + 1]"
  proof (rule nth_equalityI)
    fix k
    assume k: "k < length (map item_beat (read_burst i))"
    then have k': "k < unat (ARLEN i) + 1" using n by simp
    have "ARADDR (read_burst i ! k) = burst_addr i k" "WLAST (read_burst i ! k) = (k = unat (ARLEN i))"
      "ARID (read_burst i ! k) = ARID i"
      using b [THEN arg_cong, of "\<lambda>xs. xs ! k"] k k' n by (simp_all del: upt_Suc replicate_Suc)
    then show "map item_beat (read_burst i) ! k =
        map (\<lambda>k. (ARID i, burst_addr i k, k = unat (ARLEN i))) [0..<unat (ARLEN i) + 1] ! k"
      using k k' by (simp add: item_beat_def del: upt_Suc)
  qed (simp add: n)
  then show ?thesis by (simp add: read_accepted_def burst_beats_def)
qed

lemma accepted_beats:
  "list_all legal_burst ins \<Longrightarrow> map item_beat (axi_log read_accepted rnd ins s) = axi_log burst_beats rnd ins s"
  by (induction ins arbitrary: s) (auto simp: read_accepted_beats split: sum.split)

section \<open>The memory serves its master\<close>

text \<open>
  Claim C38. In every run from the start, whatever the delays: the read beats taken, the one offered and the ones
  queued are together the beats of the read bursts accepted, in order and with their identifiers
  and last marks; there is one response, in order, for every write burst that was completed; the
  memory with the queued writes done is the initial memory with all accepted writes done; and
  when nothing is written every beat carries the word at its address. The beats of a read burst with a
  legal length are those of the AXI specification.
\<close>

theorem axi_memory_serves:
  assumes "axi_run rnd ins s0 = Inr s" "s0 = axi_start m delays"
  shows "map beat_tag (axi_log r_channel rnd ins s0 @ r_pending v s) =
      map (\<lambda>it. (ARID it, WLAST it)) (axi_log read_accepted rnd ins s0) \<and>
    axi_log b_channel rnd ins s0 @ b_pending s = map AWID (filter WLAST (axi_log write_accepted rnd ins s0)) \<and>
    written (axi_wr_q s) (tb_view (tb_store s)) = written (axi_log write_accepted rnd ins s0) (tb_view m) \<and>
    (list_all (\<lambda>i. \<not> WVALID i) ins \<longrightarrow>
      axi_log r_channel rnd ins s0 @ r_pending (tb_view m) s =
        map (read_beat (tb_view m)) (axi_log read_accepted rnd ins s0)) \<and>
    (list_all legal_burst ins \<longrightarrow> map item_beat (axi_log read_accepted rnd ins s0) = axi_log burst_beats rnd ins s0)"
proof -
  have start: "r_pending v s0 = []" "b_pending s0 = []" "axi_image s0 = tb_view m" "axi_wr_q s0 = []"
    "tb_view (tb_store s0) = tb_view m" for v
    by (simp_all add: assms(2) axi_start_def r_pending_def b_pending_def axi_image_def axi4_slave_init_def)
  have "beat_tag \<circ> read_beat v = (\<lambda>it. (ARID it, WLAST it))"
    by (simp add: fun_eq_iff beat_tag_def read_beat_def)
  then show ?thesis
    using run_serves(1) [OF assms(1), of v] run_serves(2,3) [OF assms(1)] run_reads [OF assms(1) start(4) _ start(5)]
    accepted_beats by (simp add: start axi_image_def [of s])
qed

text \<open>Without delays a ready master gets the queued beats in as many cycles and one more.\<close>

lemma cycle_progress:
  assumes "\<not> m_enable_delays s" "axi_wr_q s = []" "tb_view (tb_store s) = v"
    and "list_all (\<lambda>it. word_mapped v (ARADDR it)) (axi_rd_q s)"
    and "RREADY i" "\<not> ARVALID i" "\<not> WVALID i"
  shows "\<exists>s'. axi_cycle rnd i s = Inr s' \<and> axi_rd_q s' = tl (axi_rd_q s) \<and>
    RVALID (axi_o s') = (axi_rd_q s \<noteq> []) \<and> axi_wr_q s' = [] \<and> tb_view (tb_store s') = v \<and> \<not> m_enable_delays s'"
proof -
  let ?s1 = "write_command i (read_command i s)"
  have s1: "write_data i ?s1 = Inr ?s1" "axi_rd_q ?s1 = axi_rd_q s" "axi_wr_q ?s1 = []" "axi_o ?s1 = axi_o s"
    "tb_store ?s1 = tb_store s" "\<not> m_enable_delays ?s1"
    using assms by (auto simp: write_data_def write_command_def read_command_def)
  let ?s2 = "read_done i ?s1"
  have s2: "axi_rd_q ?s2 = axi_rd_q s" "axi_wr_q ?s2 = []" "\<not> RVALID (axi_o ?s2)" "tb_store ?s2 = tb_store s"
    "\<not> m_enable_delays ?s2"
    using assms(5) s1 by (auto simp: read_done_def)
  have "\<exists>s3. read_serve rnd ?s2 = Inr s3 \<and> axi_rd_q s3 = tl (axi_rd_q s) \<and> RVALID (axi_o s3) = (axi_rd_q s \<noteq> []) \<and>
      axi_wr_q s3 = [] \<and> tb_view (tb_store s3) = v \<and> \<not> m_enable_delays s3"
  proof (cases "axi_rd_q s")
    case Nil
    then show ?thesis
      using s2 assms(3) by (simp add: read_serve_def)
  next
    case (Cons it q)
    obtain m where "axi_read32 (ARADDR it) (tb_store s) = Inr (word_at v (ARADDR it), m)"
      using read32_mapped [of "tb_store s" "ARADDR it"] assms(3,4) Cons by auto
    moreover from this have "tb_view m = v"
      using read32_view assms(3) by metis
    ultimately show ?thesis
      using s2 Cons by (simp add: read_serve_def delay_cycle_def)
  qed
  then obtain s3 where s3: "read_serve rnd ?s2 = Inr s3" "axi_rd_q s3 = tl (axi_rd_q s)"
    "RVALID (axi_o s3) = (axi_rd_q s \<noteq> [])" "axi_wr_q s3 = []" "tb_view (tb_store s3) = v" "\<not> m_enable_delays s3"
    by blast
  have s4: "write_serve rnd (write_done i s3) = Inr (write_done i s3)" "axi_rd_q (write_done i s3) = axi_rd_q s3"
    "axi_wr_q (write_done i s3) = []" "RVALID (axi_o (write_done i s3)) = RVALID (axi_o s3)"
    "tb_store (write_done i s3) = tb_store s3" "m_enable_delays (write_done i s3) = m_enable_delays s3"
    using s3(4) by (auto simp: write_serve_def write_done_def)
  show ?thesis
    using s1(1) s3 s4 by (simp add: axi_cycle_def handshake_keeps)
qed

lemma run_progress:
  assumes "\<not> m_enable_delays s" "axi_wr_q s = []" "tb_view (tb_store s) = v"
    and "list_all (\<lambda>it. word_mapped v (ARADDR it)) (axi_rd_q s)"
    and "list_all (\<lambda>i. RREADY i \<and> \<not> ARVALID i \<and> \<not> WVALID i) ins" "length (axi_rd_q s) < length ins"
  shows "\<exists>s'. axi_run rnd ins s = Inr s' \<and> axi_log r_channel rnd ins s = r_pending v s"
proof -
  have "\<exists>s'. axi_run rnd ins s = Inr s' \<and> axi_rd_q s' = drop (length ins) (axi_rd_q s) \<and>
      (ins \<noteq> [] \<longrightarrow> RVALID (axi_o s') = (length ins \<le> length (axi_rd_q s)))"
    using assms(1-5)
  proof (induction ins arbitrary: s)
    case (Cons i ins)
    have i: "RREADY i" "\<not> ARVALID i" "\<not> WVALID i"
      and ins: "list_all (\<lambda>i. RREADY i \<and> \<not> ARVALID i \<and> \<not> WVALID i) ins"
      using Cons.prems(5) by simp_all
    obtain t where t: "axi_cycle rnd i s = Inr t" "axi_rd_q t = tl (axi_rd_q s)"
      "RVALID (axi_o t) = (axi_rd_q s \<noteq> [])" "axi_wr_q t = []" "tb_view (tb_store t) = v" "\<not> m_enable_delays t"
      using cycle_progress [OF Cons.prems(1-4) i] by metis
    have mapped: "list_all (\<lambda>it. word_mapped v (ARADDR it)) (axi_rd_q t)"
      using Cons.prems(4) t(2) by (cases "axi_rd_q s") simp_all
    obtain s' where s': "axi_run rnd ins t = Inr s'" "axi_rd_q s' = drop (length ins) (axi_rd_q t)"
      "ins \<noteq> [] \<longrightarrow> RVALID (axi_o s') = (length ins \<le> length (axi_rd_q t))"
      using Cons.IH [OF t(6,4,5) mapped ins] by metis
    have "RVALID (axi_o s') = (length (i # ins) \<le> length (axi_rd_q s))"
    proof (cases "ins = []")
      case True
      then show ?thesis
        using s'(1) t(3) by (cases "axi_rd_q s") simp_all
    next
      case False
      then show ?thesis
        using s'(3) t(2) by (cases "axi_rd_q s") (auto simp: less_Suc_eq_le Suc_le_eq)
    qed
    then show ?case
      using s'(1,2) t(1,2) by (simp add: drop_Suc)
  qed simp
  then obtain s' where s': "axi_run rnd ins s = Inr s'" "axi_rd_q s' = []" "\<not> RVALID (axi_o s')"
    using assms(6) by (metis drop_all le_less list.size(3) not_less_zero not_le)
  have "axi_log read_accepted rnd ins s = []" if "list_all (\<lambda>i. \<not> ARVALID i) ins" for s
    using that by (induction ins arbitrary: s) (auto simp: read_accepted_def split: sum.split)
  moreover have "list_all (\<lambda>i. \<not> ARVALID i) ins" "list_all (\<lambda>i. \<not> WVALID i) ins"
    using assms(5) by (auto simp: list_all_iff)
  moreover have "r_pending v s' = []"
    using s' by (simp add: r_pending_def)
  ultimately have "axi_log r_channel rnd ins s = r_pending v s"
    using run_reads [OF s'(1) assms(2) _ assms(3)] by simp
  then show ?thesis
    using s'(1) by blast
qed

text \<open>A burst of two words.\<close>

definition demo_tb :: tb_memory where
  "demo_tb = snd (add_region [1, 2, 3, 4, 5, 6, 7, 8] 0x80000000 8 new_tb_memory)"

definition demo_ins :: "axi4_master list" where
  "demo_ins = (let idle = axi4_master_init\<lparr>RREADY := True\<rparr> in
     [idle, idle\<lparr>ARVALID := True, ARADDR := 0x80000001, ARID := 5, ARLEN := 1, ARBURST := 1\<rparr>, idle, idle])"

lemma demo_tb_eq:
  "demo_tb = \<lparr>tb_regions = [\<lparr>tb_base = 0x80000000, tb_size = 8, tb_mem = [1, 2, 3, 4, 5, 6, 7, 8]\<rparr>],
    tb_record_accesses = False, tb_accesses = []\<rparr>"
proof -
  have "TB_MEM_MAX_REGIONS = Suc 9"
    by (simp add: TB_MEM_MAX_REGIONS_def)
  then have "tb_place TB_MEM_MAX_REGIONS r [] = Some [r]" for r
    by (metis tb_place.simps(2))
  then show ?thesis
    by (simp add: demo_tb_def add_region_def new_tb_memory_def)
qed

lemmas cycle_defs = axi_cycle_def read_command_def write_command_def write_data_def read_done_def read_serve_def
  write_done_def write_serve_def handshake_def delay_cycle_def

lemmas access_defs = read_burst_def calc_next_addr_def calc_wrap_mask_def AXI4_BURST_INCR_def AXI4_BURST_WRAP_def
  axi_read32_def tb_read_def tb_match_def tb_records_def

lemma demo_transfers:
  "axi_log r_channel (\<lambda>n. False) demo_ins (axi_start demo_tb False) = [(5, 0x04030201, False), (5, 0x08070605, True)]"
  by (simp add: demo_ins_def demo_tb_eq axi_start_def cycle_defs access_defs r_channel_def axi4_master_init_def
    axi4_slave_init_def Let_def)

lemma demo_ends: "\<exists>s. axi_run (\<lambda>n. False) demo_ins (axi_start demo_tb False) = Inr s \<and> r_pending v s = []"
  by (simp add: demo_ins_def demo_tb_eq axi_start_def cycle_defs access_defs axi4_master_init_def
    axi4_slave_init_def Let_def r_pending_def)

lemma demo_accepted:
  "axi_log read_accepted (\<lambda>n. False) demo_ins (axi_start demo_tb False) =
    read_burst (axi4_master_init\<lparr>RREADY := True, ARVALID := True, ARADDR := 0x80000001, ARID := 5, ARLEN := 1,
      ARBURST := 1\<rparr>)"
  by (simp add: demo_ins_def demo_tb_eq axi_start_def cycle_defs access_defs axi4_master_init_def
    axi4_slave_init_def Let_def read_accepted_def)

theorem axi_memory_serves_witness:
  "axi_log r_channel (\<lambda>n. False) demo_ins (axi_start demo_tb False) =
    map (read_beat (tb_view demo_tb)) (axi_log read_accepted (\<lambda>n. False) demo_ins (axi_start demo_tb False)) \<and>
   map item_beat (axi_log read_accepted (\<lambda>n. False) demo_ins (axi_start demo_tb False)) =
    axi_log burst_beats (\<lambda>n. False) demo_ins (axi_start demo_tb False)"
proof -
  obtain s where s: "axi_run (\<lambda>n. False) demo_ins (axi_start demo_tb False) = Inr s" "r_pending (tb_view demo_tb) s = []"
    using demo_ends by blast
  have "list_all (\<lambda>i. \<not> WVALID i) demo_ins" "list_all legal_burst demo_ins"
    by (simp_all add: demo_ins_def Let_def axi4_master_init_def legal_burst_def wrap_length_def
      AXI4_BURST_WRAP_def AXI4_BURST_INCR_def)
  with axi_memory_serves [OF s(1) refl, of "tb_view demo_tb"] show ?thesis
    using s(2) by simp
qed

text \<open>A new region that contains an old one is accepted; the old one hides its part.\<close>

lemma region_enclosing_accepted:
  "fst (add_region contents 0x80000000 0x100 (new_tb_memory\<lparr>tb_regions :=
    [\<lparr>tb_base = 0x80000010, tb_size = 0x10, tb_mem = old\<rparr>]\<rparr>))"
proof -
  have slots: "TB_MEM_MAX_REGIONS = Suc (Suc 8)"
    by (simp add: TB_MEM_MAX_REGIONS_def)
  have "tb_place TB_MEM_MAX_REGIONS r [q] =
      (if tb_match q (tb_base r) \<or> tb_match q (tb_base r + tb_size r - 1) then None else Some [q, r])" for r q
    unfolding slots tb_place.simps by (simp only: option.map)
  then show ?thesis
    by (simp add: add_region_def new_tb_memory_def tb_match_def)
qed

text \<open>Data that comes with the port ready before any command stops the simulation.\<close>

lemma data_before_command:
  assumes "WVALID i" "WREADY (axi_o s)" "\<not> AWVALID i" "\<not> AWVALID (axi_wr_req s)"
  shows "axi_cycle rnd i s = Inl Assertion_failed"
  using assms by (simp add: axi_cycle_def write_data_def write_command_def read_command_def)

end
