(* ===== verification/Host_Tools.thy ===== *)
theory Host_Tools
  imports Flash_Commands
begin

text \<open>
  The file converters that run on the build host: \<open>bin2c\<close>, which writes a file as the initialiser of a C
  array, and \<open>bin2ram_init\<close>, which writes it as the initialisation of a block RAM. A file is its
  contents; opening and writing may fail with an error number, which is what the tools return.
\<close>

section \<open>Files\<close>

text \<open>Whether a write fails may depend on what was written before and on the text.\<close>

type_synonym file_writes = "cstr \<Rightarrow> cstr \<Rightarrow> int option"

definition fprintf :: "file_writes \<Rightarrow> cstr \<Rightarrow> cstr \<Rightarrow> int option \<times> cstr" where
  "fprintf wr fout str = (case wr fout str of None \<Rightarrow> (None, fout @ str) | Some e \<Rightarrow> (Some e, fout))"

text \<open>A failing call sets \<open>errno\<close>, which no call sets to zero.\<close>

definition errno_set :: "file_writes \<Rightarrow> bool" where
  "errno_set wr \<longleftrightarrow> (\<forall>fout str. wr fout str \<noteq> Some 0)"

lemma fprintf_cases:
  obtains (fails) e where "fprintf wr fout str = (Some e, fout)" "wr fout str = Some e"
  | (written) "fprintf wr fout str = (None, fout @ str)"
  by (cases "wr fout str") (auto simp: fprintf_def)

lemma fprintf_zero: "errno_set wr \<Longrightarrow> fprintf wr fout str = (Some e, o') \<Longrightarrow> e \<noteq> 0"
  by (auto simp: fprintf_def errno_set_def split: option.splits)

text \<open>The digits of the format \<open>%x\<close>, and of \<open>%0kx\<close>.\<close>

function hex_num :: "nat \<Rightarrow> cstr" where
  "hex_num n = (if n < 16 then [hexdigit n] else hex_num (n div 16) @ [hexdigit (n mod 16)])"
  by pat_completeness auto
termination
  by (relation "measure id") auto

declare hex_num.simps [simp del]

definition hex_pad :: "nat \<Rightarrow> nat \<Rightarrow> cstr" where
  "hex_pad k n = replicate (k - length (hex_num n)) 48 @ hex_num n"

section \<open>bin2c\<close>

definition FILE_HEADER :: "cstr \<Rightarrow> cstr \<Rightarrow> cstr" where
  "FILE_HEADER file name =
     bytes ''/*'' @ [10] @ bytes ''  EDIT THIS FILE AT YOUR OWN RISK!'' @ [10, 10] @
     bytes ''  This file as generated automatically by bin2c from:'' @ [10] @
     bytes ''  '' @ file @ [10] @ bytes ''*/'' @ [10, 10] @ bytes ''uint8_t '' @ name @ bytes ''[] = {'' @ [10]"

definition c_byte :: "u8 \<Rightarrow> cstr" where
  "c_byte c = bytes ''0x'' @ hex_digits 2 (unat c) @ bytes '',''"

definition c_comment :: "u32 \<Rightarrow> cstr" where
  "c_comment Adr = bytes ''  // 0x'' @ hex_num (unat Adr) @ [10]"

text \<open>A failed write ends the loop over the bytes of a row only.\<close>

fun c_row :: "file_writes \<Rightarrow> u8 list \<Rightarrow> int \<Rightarrow> cstr \<Rightarrow> int \<times> cstr" where
  "c_row wr [] Ret fout = (Ret, fout)"
| "c_row wr (c # cs) Ret fout =
     (case fprintf wr fout (c_byte c) of
        (Some e, fout) \<Rightarrow> (e, fout) | (None, fout) \<Rightarrow> c_row wr cs Ret fout)"

text \<open>The loop reads up to eight bytes at a time until none is left.\<close>

function bin2c_loop :: "file_writes \<Rightarrow> u8 list \<Rightarrow> u32 \<Rightarrow> int \<Rightarrow> cstr \<Rightarrow> int \<times> cstr" where
  "bin2c_loop wr fin Adr Ret fout =
     (if fin = []
      then (case fprintf wr fout (bytes ''};'' @ [10]) of (Some e, fout) \<Rightarrow> (e, fout) | (None, fout) \<Rightarrow> (Ret, fout))
      else (case c_row wr (take 8 fin) Ret fout of (Ret, fout) \<Rightarrow>
        case fprintf wr fout (c_comment Adr) of
          (Some e, fout) \<Rightarrow> (e, fout)
        | (None, fout) \<Rightarrow> bin2c_loop wr (drop 8 fin) (Adr + 8) Ret fout))"
  by pat_completeness auto
termination
  by (relation "measure (\<lambda>(wr, fin, Adr, Ret, fout). length fin)") auto

declare bin2c_loop.simps [simp del]

text \<open>
  \<open>main\<close>: the exit code and the output, when its file was opened. \<open>rd\<close> opens and reads a file, \<open>cr\<close> opens
  one for writing.
\<close>

definition bin2c :: "cstr list \<Rightarrow> (cstr \<Rightarrow> int + u8 list) \<Rightarrow> (cstr \<Rightarrow> int option) \<Rightarrow> file_writes \<Rightarrow> int \<times> cstr option" where
  "bin2c argv rd cr wr =
     (if length argv \<noteq> 4 then (0, None)
      else case rd (argv ! 1) of
        Inl e \<Rightarrow> (e, None)
      | Inr fin \<Rightarrow> (case cr (argv ! 2) of
          Some e \<Rightarrow> (e, None)
        | None \<Rightarrow> (case fprintf wr [] (FILE_HEADER (argv ! 1) (argv ! 3)) of
            (Some e, fout) \<Rightarrow> (e, Some fout)
          | (None, fout) \<Rightarrow> (case bin2c_loop wr fin 0 0 fout of (Ret, fout) \<Rightarrow> (Ret, Some fout)))))"

text \<open>How a C compiler reads the initialiser: bytes in hexadecimal, comments, the closing brace.\<close>

definition unhex :: "u8 \<Rightarrow> u8" where
  "unhex c = (if c < 58 then c - 48 else c - 87)"

function init_values :: "cstr \<Rightarrow> u8 list option" where
  "init_values s =
     (if take 2 s = bytes ''0x'' \<and> 5 \<le> length s \<and> s ! 4 = 44
      then map_option ((#) (unhex (s ! 2) * 16 + unhex (s ! 3))) (init_values (drop 5 s))
      else if take 4 s = bytes ''  //'' then init_values (tl (dropWhile (\<lambda>c. c \<noteq> 10) s))
      else if s = bytes ''};'' @ [10] then Some [] else None)"
  by pat_completeness auto
termination
proof (relation "measure length")
  fix s :: cstr
  assume "take 4 s = bytes ''  //''"
  then have "s \<noteq> []"
    by (auto simp: bytes_def)
  then have "0 < length s" "length (dropWhile (\<lambda>c. c \<noteq> 10) s) \<le> length s"
    by (auto intro: length_dropWhile_le)
  then have "length (dropWhile (\<lambda>c. c \<noteq> 10) s) - 1 < length s"
    by linarith
  then show "(tl (dropWhile (\<lambda>c. c \<noteq> 10) s), s) \<in> measure length"
    by simp
qed auto

declare init_values.simps [simp del]

text \<open>The complete initialiser.\<close>

function c_body :: "u8 list \<Rightarrow> u32 \<Rightarrow> cstr" where
  "c_body fin Adr =
     (if fin = [] then bytes ''};'' @ [10]
      else concat (map c_byte (take 8 fin)) @ c_comment Adr @ c_body (drop 8 fin) (Adr + 8))"
  by pat_completeness auto
termination
  by (relation "measure (\<lambda>(fin, Adr). length fin)") auto

declare c_body.simps [simp del]

lemma c_row_zero:
  assumes "errno_set wr" "c_row wr cs Ret fout = (0, o')"
  shows "Ret = 0 \<and> o' = fout @ concat (map c_byte cs)"
  using assms(2)
proof (induction cs arbitrary: fout)
  case (Cons c cs)
  show ?case
  proof (cases rule: fprintf_cases [of wr fout "c_byte c"])
    case (fails e)
    then show ?thesis
      using Cons.prems fprintf_zero [OF assms(1) fails(1)] by simp
  next
    case written
    then show ?thesis
      using Cons.IH [of "fout @ c_byte c"] Cons.prems by simp
  qed
qed simp

lemma bin2c_loop_zero:
  assumes "errno_set wr" "bin2c_loop wr fin Adr Ret fout = (0, o')"
  shows "Ret = 0 \<and> o' = fout @ c_body fin Adr"
  using assms(2)
proof (induction fin Adr arbitrary: Ret fout rule: c_body.induct)
  case (1 fin Adr)
  show ?case
  proof (cases "fin = []")
    case True
    then show ?thesis
      using "1.prems" fprintf_zero [OF assms(1)]
      by (cases rule: fprintf_cases [of wr fout "bytes ''};'' @ [10]"])
        (auto simp: bin2c_loop.simps [of wr "[]"] c_body.simps [of "[]"])
  next
    case False
    obtain r t where row: "c_row wr (take 8 fin) Ret fout = (r, t)"
      by (cases "c_row wr (take 8 fin) Ret fout") auto
    show ?thesis
    proof (cases rule: fprintf_cases [of wr t "c_comment Adr"])
      case (fails e)
      then show ?thesis
        using "1.prems" False fprintf_zero [OF assms(1)] by (simp add: bin2c_loop.simps [of wr fin] row)
    next
      case written
      then have "bin2c_loop wr (drop 8 fin) (Adr + 8) r (t @ c_comment Adr) = (0, o')"
        using "1.prems" False by (simp add: bin2c_loop.simps [of wr fin] row)
      then have "r = 0" "o' = (t @ c_comment Adr) @ c_body (drop 8 fin) (Adr + 8)"
        using "1.IH" [OF False] by blast+
      then show ?thesis
        using c_row_zero [OF assms(1), of "take 8 fin" Ret fout t] row False by (simp add: c_body.simps [of fin])
    qed
  qed
qed

lemma unhex_hexdigit:
  assumes "n < 16"
  shows "unhex (hexdigit n) = of_nat n"
proof -
  have "\<forall>n \<in> set [0..<16]. unhex (hexdigit n) = of_nat n"
    by code_simp
  then show ?thesis
    using assms by simp
qed

lemma byte_less: "unat (c :: u8) < 256"
  using unsigned_less [of c, where 'a = nat] by simp

lemma hex_byte: "hex_digits 2 (unat (c :: u8)) = [hexdigit (unat c div 16), hexdigit (unat c mod 16)]"
  using byte_less [of c] by (simp add: hex_digits_def upt_rec)

lemma init_values_byte: "init_values (c_byte c @ s) = map_option ((#) c) (init_values s)"
proof -
  have "unat c div 16 < 16"
    using byte_less [of c] by simp
  then have digits: "unhex (hexdigit (unat c div 16)) = of_nat (unat c div 16)"
    "unhex (hexdigit (unat c mod 16)) = of_nat (unat c mod 16)"
    by (simp_all add: unhex_hexdigit)
  have "unhex (hexdigit (unat c div 16)) * 16 + unhex (hexdigit (unat c mod 16)) =
      of_nat (unat c div 16 * 16 + unat c mod 16)"
    unfolding digits by (simp only: of_nat_add of_nat_mult of_nat_numeral)
  also have "\<dots> = c"
    by (simp only: div_mult_mod_eq) simp
  finally have "unhex (hexdigit (unat c div 16)) * 16 + unhex (hexdigit (unat c mod 16)) = c" .
  then show ?thesis
    by (subst init_values.simps) (simp add: c_byte_def hex_byte bytes_def)
qed

lemma init_values_row: "init_values (concat (map c_byte cs) @ s) = map_option ((@) cs) (init_values s)"
  by (induction cs) (simp_all add: init_values_byte option.map_comp comp_def option.map_ident)

lemma hexdigit_no_newline:
  assumes "n < 16"
  shows "hexdigit n \<noteq> 10"
proof -
  have "\<forall>n \<in> set [0..<16]. hexdigit n \<noteq> 10"
    by code_simp
  then show ?thesis
    using assms by simp
qed

lemma hex_num_no_newline: "10 \<notin> set (hex_num n)"
proof (induction n rule: hex_num.induct)
  case (1 n)
  then show ?case
    using hexdigit_no_newline [of n] hexdigit_no_newline [of "n mod 16"] by (subst hex_num.simps) auto
qed

lemma to_newline: "10 \<notin> set xs \<Longrightarrow> dropWhile (\<lambda>c :: u8. c \<noteq> 10) (xs @ 10 # s) = 10 # s"
  by (induction xs) auto

lemma init_values_comment: "init_values (c_comment Adr @ s) = init_values s"
proof -
  have "dropWhile (\<lambda>c. c \<noteq> 10) (bytes ''  // 0x'' @ hex_num (unat Adr) @ [10] @ s) = 10 # s"
    using hex_num_no_newline [of "unat Adr"] by (simp add: bytes_def to_newline)
  then show ?thesis
    by (subst init_values.simps) (simp add: c_comment_def bytes_def)
qed

lemma init_values_body: "init_values (c_body fin Adr) = Some fin"
proof (induction fin Adr rule: c_body.induct)
  case (1 fin Adr)
  show ?case
  proof (cases "fin = []")
    case True
    then show ?thesis
      by (simp add: c_body.simps [of "[]"] init_values.simps [of "bytes ''};'' @ [10]"]) (simp add: bytes_def)
  next
    case False
    then show ?thesis
      using "1.IH" by (simp add: c_body.simps [of fin] init_values_row init_values_comment)
  qed
qed

text \<open>
  An exit code of zero means a complete output: when both files could be opened and \<open>bin2c\<close> returns zero,
  the output is the header and an initialiser that a C compiler reads as exactly the bytes of the input;
  and when no write fails the exit code is zero.
\<close>

theorem bin2c_complete:
  assumes "errno_set wr" "length argv = 4" "rd (argv ! 1) = Inr fin" "cr (argv ! 2) = None"
  shows "(fst (bin2c argv rd cr wr) = 0 \<longrightarrow>
      (\<exists>body. bin2c argv rd cr wr = (0, Some (FILE_HEADER (argv ! 1) (argv ! 3) @ body)) \<and> init_values body = Some fin)) \<and>
    ((\<forall>fout str. wr fout str = None) \<longrightarrow> fst (bin2c argv rd cr wr) = 0)"
proof (intro conjI impI)
  define h where "h = FILE_HEADER (argv ! 1) (argv ! 3)"
  assume zero: "fst (bin2c argv rd cr wr) = 0"
  have "wr [] h = None"
  proof (cases rule: fprintf_cases [of wr "[]" h])
    case (fails e)
    then show ?thesis
      using zero assms fprintf_zero [OF assms(1) fails(1)] by (simp add: bin2c_def h_def)
  qed (simp add: fprintf_def split: option.splits)
  then have run: "bin2c argv rd cr wr = (case bin2c_loop wr fin 0 0 h of (Ret, fout) \<Rightarrow> (Ret, Some fout))"
    using assms by (simp add: bin2c_def fprintf_def h_def)
  obtain r t where loop: "bin2c_loop wr fin 0 0 h = (r, t)"
    by (cases "bin2c_loop wr fin 0 0 h") auto
  have "r = 0"
    using zero by (simp add: run loop h_def [symmetric])
  then have "t = h @ c_body fin 0"
    using bin2c_loop_zero [OF assms(1), of fin 0 0 h t] loop by simp
  then show "\<exists>body. bin2c argv rd cr wr = (0, Some (FILE_HEADER (argv ! 1) (argv ! 3) @ body)) \<and> init_values body = Some fin"
    using init_values_body [of fin 0] \<open>r = 0\<close> by (intro exI [of _ "c_body fin 0"]) (simp add: run loop; simp add: h_def)
next
  assume "\<forall>fout str. wr fout str = None"
  then have pr: "fprintf wr fout str = (None, fout @ str)" for fout str
    by (simp add: fprintf_def)
  have row: "fst (c_row wr cs 0 fout) = 0" for cs fout
    by (induction cs arbitrary: fout) (simp_all add: pr)
  have "fst (bin2c_loop wr fin Adr 0 fout) = 0" for fin Adr fout
  proof (induction fin Adr arbitrary: fout rule: c_body.induct)
    case (1 fin Adr)
    then show ?case
      using row [of "take 8 fin" fout] by (subst bin2c_loop.simps) (auto simp: pr split: prod.split)
  qed
  from this [of fin 0 "FILE_HEADER (argv ! 1) (argv ! 3)"] show "fst (bin2c argv rd cr wr) = 0"
    using assms by (auto simp: bin2c_def pr split: prod.split)
qed

theorem bin2c_complete_witness:
  "\<exists>body. bin2c [[], [97], [98], [99]] (\<lambda>f. Inr [1, 0xff]) (\<lambda>f. None) (\<lambda>fout str. None) =
      (0, Some (FILE_HEADER [97] [99] @ body)) \<and> init_values body = Some [1, 0xff]"
proof -
  have "errno_set (\<lambda>fout str. None)"
    by (simp add: errno_set_def)
  from bin2c_complete [OF this, of "[[], [97], [98], [99]]" "\<lambda>f. Inr [1, 0xff]" "[1, 0xff]" "\<lambda>f. None"]
  show ?thesis
    by simp
qed

text \<open>A call with the wrong number of arguments writes nothing and returns zero.\<close>

lemma bin2c_usage: "length argv \<noteq> 4 \<Longrightarrow> bin2c argv rd cr wr = (0, None)"
  by (simp add: bin2c_def)

section \<open>bin2ram\_init\<close>

fun ram_bytes :: "file_writes \<Rightarrow> u8 list \<Rightarrow> int \<Rightarrow> cstr \<Rightarrow> int \<times> cstr" where
  "ram_bytes wr [] Ret fout = (Ret, fout)"
| "ram_bytes wr (c # cs) Ret fout =
     (case fprintf wr fout (hex_digits 2 (unat c)) of
        (Some e, fout) \<Rightarrow> (e, fout) | (None, fout) \<Rightarrow> ram_bytes wr cs Ret fout)"

text \<open>The buffer of 32 bytes is cleared before it is filled, and printed from its end.\<close>

definition ram_buffer :: "u8 list \<Rightarrow> u8 list" where
  "ram_buffer fin = take 32 fin @ replicate (32 - length fin) 0"

definition init_name :: "nat \<Rightarrow> cstr" where
  "init_name InitBlock = bytes ''.INIT_'' @ hex_pad 2 InitBlock @ bytes ''(256'' @ [39] @ bytes ''h''"

function ram_loop :: "file_writes \<Rightarrow> u8 list \<Rightarrow> nat \<Rightarrow> int \<Rightarrow> cstr \<Rightarrow> int \<times> cstr" where
  "ram_loop wr fin InitBlock Ret fout =
     (if fin = [] then (Ret, fout)
      else case (if InitBlock \<noteq> 0 then fprintf wr fout [44, 10] else (None, fout)) of
        (Some e, fout) \<Rightarrow> (e, fout)
      | (None, fout) \<Rightarrow> (case fprintf wr fout (init_name InitBlock) of
          (Some e, fout) \<Rightarrow> (e, fout)
        | (None, fout) \<Rightarrow> (case ram_bytes wr (rev (ram_buffer fin)) Ret fout of (Ret, fout) \<Rightarrow>
            case fprintf wr fout [41] of
              (Some e, fout) \<Rightarrow> (e, fout)
            | (None, fout) \<Rightarrow> ram_loop wr (drop 32 fin) (InitBlock + 1) Ret fout)))"
  by pat_completeness auto
termination
  by (relation "measure (\<lambda>(wr, fin, InitBlock, Ret, fout). length fin)") auto

declare ram_loop.simps [simp del]

definition bin2ram_init ::
  "cstr list \<Rightarrow> (cstr \<Rightarrow> int + u8 list) \<Rightarrow> (cstr \<Rightarrow> int option) \<Rightarrow> file_writes \<Rightarrow> int \<times> cstr option" where
  "bin2ram_init argv rd cr wr =
     (if length argv \<noteq> 3 then (0, None)
      else case rd (argv ! 1) of
        Inl e \<Rightarrow> (e, None)
      | Inr fin \<Rightarrow> (case cr (argv ! 2) of
          Some e \<Rightarrow> (e, None)
        | None \<Rightarrow> (case ram_loop wr fin 0 0 [] of (Ret, fout) \<Rightarrow>
            (case fprintf wr fout [10] of
               (Some e, fout) \<Rightarrow> (e, Some fout)
             | (None, fout) \<Rightarrow> (Ret, Some fout)))))"

text \<open>The number a block of bytes is, its first byte the lowest, and the text of the whole memory.\<close>

fun block_number :: "u8 list \<Rightarrow> nat" where
  "block_number [] = 0"
| "block_number (c # cs) = unat c + 256 * block_number cs"

function ram_text :: "nat \<Rightarrow> u8 list \<Rightarrow> cstr" where
  "ram_text k fin =
     (if fin = [] then []
      else (if k = 0 then [] else [44, 10]) @ init_name k @ hex_digits 64 (block_number (take 32 fin)) @ [41] @
        ram_text (k + 1) (drop 32 fin))"
  by pat_completeness auto
termination
  by (relation "measure (\<lambda>(k, fin). length fin)") auto

declare ram_text.simps [simp del]

lemma ram_bytes_zero:
  assumes "errno_set wr" "ram_bytes wr cs Ret fout = (0, o')"
  shows "Ret = 0 \<and> o' = fout @ concat (map (\<lambda>c. hex_digits 2 (unat c)) cs)"
  using assms(2)
proof (induction cs arbitrary: fout)
  case (Cons c cs)
  show ?case
  proof (cases rule: fprintf_cases [of wr fout "hex_digits 2 (unat c)"])
    case (fails e)
    then show ?thesis
      using Cons.prems fprintf_zero [OF assms(1) fails(1)] by simp
  next
    case written
    then show ?thesis
      using Cons.IH [of "fout @ hex_digits 2 (unat c)"] Cons.prems by simp
  qed
qed simp

lemma hex_digits_append:
  assumes "c < 16 ^ b"
  shows "hex_digits a v @ hex_digits b c = hex_digits (a + b) (16 ^ b * v + c)"
proof (rule nth_equalityI)
  fix i
  assume "i < length (hex_digits a v @ hex_digits b c)"
  then have i: "i < a + b"
    by (simp add: hex_digits_def)
  show "(hex_digits a v @ hex_digits b c) ! i = hex_digits (a + b) (16 ^ b * v + c) ! i"
  proof (cases "i < a")
    case True
    have "a + b - 1 - i = b + (a - 1 - i)"
      using True by simp
    then have "(16 ^ b * v + c) div 16 ^ (a + b - 1 - i) = (16 ^ b * v + c) div 16 ^ b div 16 ^ (a - 1 - i)"
      by (simp only: power_add div_mult2_eq)
    also have "(16 ^ b * v + c) div 16 ^ b = v"
      using assms by simp
    finally show ?thesis
      using True by (simp add: hex_digits_def nth_append)
  next
    case False
    define j where "j = a + b - 1 - i"
    have j: "Suc j \<le> b" "b - Suc (i - a) = j" "i - a < b"
      using False i by (auto simp: j_def)
    have split: "(16 :: nat) ^ b = 16 ^ j * (16 * 16 ^ (b - Suc j))"
      using j(1) by (simp add: power_add [symmetric] power_Suc [symmetric] del: power_Suc)
    have "(16 ^ b * v + c) div 16 ^ j mod 16 = (16 * (16 ^ (b - Suc j) * v) + c div 16 ^ j) mod 16"
      unfolding split by (simp add: mult.assoc)
    also have "\<dots> = c div 16 ^ j mod 16"
      by simp
    finally show ?thesis
      using False i j(2,3) by (simp add: hex_digits_def nth_append j_def [symmetric])
        (simp add: j_def)
  qed
qed (simp add: hex_digits_def)

lemma block_hex:
  "concat (map (\<lambda>c. hex_digits 2 (unat c)) (rev cs)) = hex_digits (2 * length cs) (block_number cs)"
proof (induction cs)
  case (Cons c cs)
  have "unat c < 16 ^ 2"
    using byte_less [of c] by simp
  from hex_digits_append [OF this, of "2 * length cs" "block_number cs"] show ?case
    using Cons by (simp add: add.commute)
qed (simp add: hex_digits_def)

lemma block_number_pad: "block_number (cs @ replicate n 0) = block_number cs"
proof (induction cs)
  case Nil
  show ?case
    by (induction n) simp_all
qed simp

lemma buffer_hex:
  "concat (map (\<lambda>c. hex_digits 2 (unat c)) (rev (ram_buffer fin))) = hex_digits 64 (block_number (take 32 fin))"
proof -
  have "length (ram_buffer fin) = 32"
    by (simp add: ram_buffer_def)
  then show ?thesis
    using block_hex [of "ram_buffer fin"] by (simp add: ram_buffer_def block_number_pad)
qed

lemma ram_loop_zero:
  assumes "errno_set wr" "ram_loop wr fin k Ret fout = (0, o')"
  shows "Ret = 0 \<and> o' = fout @ ram_text k fin"
  using assms(2)
proof (induction k fin arbitrary: Ret fout rule: ram_text.induct)
  case (1 k fin)
  show ?case
  proof (cases "fin = []")
    case True
    then show ?thesis
      using "1.prems" by (simp add: ram_loop.simps [of wr "[]"] ram_text.simps [of k "[]"])
  next
    case False
    define sep where "sep = (if k = 0 then [] else [44, 10 :: u8])"
    have first: "(if k \<noteq> 0 then fprintf wr fout [44, 10] else (None, fout)) = (None, fout @ sep)"
    proof (rule ccontr)
      assume "(if k \<noteq> 0 then fprintf wr fout [44, 10] else (None, fout)) \<noteq> (None, fout @ sep)"
      then obtain e where e: "k \<noteq> 0" "fprintf wr fout [44, 10] = (Some e, fout)"
        by (cases rule: fprintf_cases [of wr fout "[44, 10]"]) (auto simp: sep_def split: if_splits)
      then show False
        using "1.prems" False fprintf_zero [OF assms(1) e(2)] by (simp add: ram_loop.simps [of wr fin])
    qed
    have second: "fprintf wr (fout @ sep) (init_name k) = (None, (fout @ sep) @ init_name k)"
    proof (cases rule: fprintf_cases [of wr "fout @ sep" "init_name k"])
      case (fails e)
      then show ?thesis
        using "1.prems" False first fprintf_zero [OF assms(1) fails(1)] by (simp add: ram_loop.simps [of wr fin])
    qed simp
    obtain r t where row: "ram_bytes wr (rev (ram_buffer fin)) Ret ((fout @ sep) @ init_name k) = (r, t)"
      by (cases "ram_bytes wr (rev (ram_buffer fin)) Ret ((fout @ sep) @ init_name k)") auto
    show ?thesis
    proof (cases rule: fprintf_cases [of wr t "[41]"])
      case (fails e)
      then show ?thesis
        using "1.prems" False first second row fprintf_zero [OF assms(1) fails(1)]
        by (simp add: ram_loop.simps [of wr fin])
    next
      case written
      then have "ram_loop wr (drop 32 fin) (k + 1) r (t @ [41]) = (0, o')"
        using "1.prems" False first second row by (simp add: ram_loop.simps [of wr fin])
      then have "r = 0" "o' = (t @ [41]) @ ram_text (k + 1) (drop 32 fin)"
        using "1.IH" [OF False] by blast+
      then have "Ret = 0" "t = ((fout @ sep) @ init_name k) @ hex_digits 64 (block_number (take 32 fin))"
        using ram_bytes_zero [OF assms(1), of "rev (ram_buffer fin)" Ret "(fout @ sep) @ init_name k" t] row
        by (simp_all add: buffer_hex)
      then show ?thesis
        using \<open>o' = _\<close> False by (simp add: sep_def ram_text.simps [of k fin])
    qed
  qed
qed

text \<open>
  With an exit code of zero the output of \<open>bin2ram_init\<close> initialises block \<open>k\<close> with the 256-bit number
  whose bytes, the lowest first, are the 32 bytes of the file from \<open>32 k\<close> on, zeros behind its end.
\<close>

theorem bin2ram_complete:
  assumes "errno_set wr" "length argv = 3" "rd (argv ! 1) = Inr fin" "cr (argv ! 2) = None"
    and "fst (bin2ram_init argv rd cr wr) = 0"
  shows "bin2ram_init argv rd cr wr = (0, Some (ram_text 0 fin @ [10]))"
proof -
  obtain r t where loop: "ram_loop wr fin 0 0 [] = (r, t)"
    by (cases "ram_loop wr fin 0 0 []") auto
  show ?thesis
  proof (cases rule: fprintf_cases [of wr t "[10]"])
    case (fails e)
    then show ?thesis
      using assms loop fprintf_zero [OF assms(1) fails(1)] by (simp add: bin2ram_init_def)
  next
    case written
    then have "r = 0"
      using assms loop by (simp add: bin2ram_init_def)
    then have "t = ram_text 0 fin"
      using ram_loop_zero [OF assms(1), of fin 0 0 "[]" t] loop by simp
    then show ?thesis
      using assms loop written \<open>r = 0\<close> by (simp add: bin2ram_init_def)
  qed
qed

theorem bin2ram_complete_witness:
  "bin2ram_init [[], [97], [98]] (\<lambda>f. Inr [0x34, 0x12]) (\<lambda>f. None) (\<lambda>fout str. None) =
    (0, Some (init_name 0 @ hex_digits 64 0x1234 @ [41, 10]))"
proof -
  have "errno_set (\<lambda>fout str. None)"
    by (simp add: errno_set_def)
  moreover have "fst (bin2ram_init [[], [97], [98]] (\<lambda>f. Inr [0x34, 0x12]) (\<lambda>f. None) (\<lambda>fout str. None)) = 0"
  proof -
    have "fst (ram_bytes (\<lambda>fout str. None) cs 0 fout) = 0" for cs fout
      by (induction cs arbitrary: fout) (simp_all add: fprintf_def)
    from this [of "rev (ram_buffer [0x34, 0x12])" "init_name 0"] show ?thesis
      by (auto simp: bin2ram_init_def fprintf_def ram_loop.simps split: prod.split)
  qed
  ultimately have "bin2ram_init [[], [97], [98]] (\<lambda>f. Inr [0x34, 0x12]) (\<lambda>f. None) (\<lambda>fout str. None) =
      (0, Some (ram_text 0 [0x34, 0x12] @ [10]))"
    by (intro bin2ram_complete) simp_all
  then show ?thesis
    by (simp add: ram_text.simps [of 0 "[0x34, 0x12]"] ram_text.simps [of 1 "[]"] ram_text.simps [of "Suc 0" "[]"])
qed

end
