(* ===== verification/Spiffs_Driver.thy ===== *)
theory Spiffs_Driver
  imports Spi_Flash
begin

text \<open>
  The glue between the SPIFFS library and the flash (\<open>spiffs_drv.c\<close>). The library is a submodule: its calls
  are parameters over a state of their own, which holds the mounted file system and the bus.
\<close>

section \<open>The flash operations given to the library\<close>

text \<open>
  The read stores one byte into the buffer and then \<open>len\<close> bytes over it; \<open>Buf\<close> is the memory the buffer
  points to.
\<close>

definition api_spiffs_read :: "device \<Rightarrow> u32 \<Rightarrow> u32 \<Rightarrow> u8 list \<Rightarrow> bus list \<Rightarrow> (u8 list \<times> bus list) res" where
  "api_spiffs_read dev addr len Buf tr =
     (if length Buf < max 1 (unat len) then Inl OutOfBounds
      else case spi_readblock dev 1 (send_adr dev 0x03 addr tr) of (b, tr) \<Rightarrow>
        let Buf = b @ drop 1 Buf
        in case spi_readblock dev (unat len) tr of (bs, tr) \<Rightarrow>
          Inr (bs @ drop (unat len) Buf, spi_cs True tr))"

text \<open>The codes of the library, of which only success is documented as zero.\<close>

definition api_spiffs_write :: "int \<Rightarrow> u32 \<Rightarrow> u32 \<Rightarrow> u8 list \<Rightarrow> int" where
  "api_spiffs_write SPIFFS_ERR_NOT_WRITABLE addr len src = SPIFFS_ERR_NOT_WRITABLE"

definition api_spiffs_erase :: "int \<Rightarrow> u32 \<Rightarrow> u32 \<Rightarrow> int" where
  "api_spiffs_erase SPIFFS_ERR_NOT_WRITABLE addr len = SPIFFS_ERR_NOT_WRITABLE"

record spiffs_config =
  hal_read_f :: "u32 \<Rightarrow> u32 \<Rightarrow> u8 list \<Rightarrow> bus list \<Rightarrow> (u8 list \<times> bus list) res"
  hal_write_f :: "u32 \<Rightarrow> u32 \<Rightarrow> u8 list \<Rightarrow> int"
  hal_erase_f :: "u32 \<Rightarrow> u32 \<Rightarrow> int"

record 'fs spiffs_lib =
  SPIFFS_mounted :: "'fs \<Rightarrow> bool"
  SPIFFS_mount :: "spiffs_config \<Rightarrow> 'fs \<Rightarrow> int \<times> 'fs"
  SPIFFS_unmount :: "'fs \<Rightarrow> 'fs"
  SPIFFS_format :: "'fs \<Rightarrow> int \<times> 'fs"

section \<open>Mounting\<close>

definition SpiffsTryMount :: "'fs spiffs_lib \<Rightarrow> device \<Rightarrow> int \<Rightarrow> 'fs \<Rightarrow> int \<times> 'fs" where
  "SpiffsTryMount lib dev err gFs =
     SPIFFS_mount lib
       \<lparr>hal_read_f = api_spiffs_read dev, hal_write_f = api_spiffs_write err, hal_erase_f = api_spiffs_erase err\<rparr> gFs"

text \<open>The result is whether a pointer to the file system is returned.\<close>

definition SpiffsMount :: "'fs spiffs_lib \<Rightarrow> device \<Rightarrow> int \<Rightarrow> 'fs \<Rightarrow> bool \<times> 'fs" where
  "SpiffsMount lib dev err gFs =
     (if SPIFFS_mounted lib gFs then (True, gFs)
      else case SpiffsTryMount lib dev err gFs of (res, gFs) \<Rightarrow> (res = 0, gFs))"

definition SpiffsFormat :: "'fs spiffs_lib \<Rightarrow> device \<Rightarrow> int \<Rightarrow> 'fs \<Rightarrow> bool \<times> 'fs" where
  "SpiffsFormat lib dev err gFs =
     (case SpiffsMount lib dev err gFs of (_, gFs) \<Rightarrow>
      case SPIFFS_format lib (SPIFFS_unmount lib gFs) of (formated, gFs) \<Rightarrow>
        if formated \<noteq> 0 then (False, gFs)
        else case SpiffsTryMount lib dev err gFs of (res, gFs) \<Rightarrow> (res = 0, gFs))"

definition SpiffsUnmount :: "'fs spiffs_lib \<Rightarrow> 'fs \<Rightarrow> 'fs" where
  "SpiffsUnmount lib gFs = (if SPIFFS_mounted lib gFs then SPIFFS_unmount lib gFs else gFs)"

text \<open>What the library promises: which calls leave the file system mounted.\<close>

definition spiffs_laws :: "'fs spiffs_lib \<Rightarrow> bool" where
  "spiffs_laws lib \<longleftrightarrow>
     (\<forall>c fs. \<not> SPIFFS_mounted lib fs \<longrightarrow>
        SPIFFS_mounted lib (snd (SPIFFS_mount lib c fs)) = (fst (SPIFFS_mount lib c fs) = 0)) \<and>
     (\<forall>fs. \<not> SPIFFS_mounted lib (SPIFFS_unmount lib fs)) \<and>
     (\<forall>fs. \<not> SPIFFS_mounted lib fs \<longrightarrow> \<not> SPIFFS_mounted lib (snd (SPIFFS_format lib fs)))"

text \<open>The driver reports truly whether the file system is mounted, and mounts it once.\<close>

lemma spiffs_status:
  assumes "spiffs_laws lib"
  shows "fst (SpiffsMount lib dev err fs) = SPIFFS_mounted lib (snd (SpiffsMount lib dev err fs))"
    and "fst (SpiffsFormat lib dev err fs) = SPIFFS_mounted lib (snd (SpiffsFormat lib dev err fs))"
    and "\<not> SPIFFS_mounted lib (SpiffsUnmount lib fs)"
    and "fst (SpiffsMount lib dev err fs) \<Longrightarrow>
      SpiffsMount lib dev err (snd (SpiffsMount lib dev err fs)) = (True, snd (SpiffsMount lib dev err fs))"
proof -
  have attempt: "fst (SpiffsTryMount lib dev err g) = 0 \<longleftrightarrow> SPIFFS_mounted lib (snd (SpiffsTryMount lib dev err g))"
    if "\<not> SPIFFS_mounted lib g" for g
    using assms that by (simp add: spiffs_laws_def SpiffsTryMount_def)
  show mounts: "fst (SpiffsMount lib dev err fs) = SPIFFS_mounted lib (snd (SpiffsMount lib dev err fs))"
    using attempt [of fs] by (cases "SPIFFS_mounted lib fs") (auto simp: SpiffsMount_def split: prod.split)
  show "fst (SpiffsFormat lib dev err fs) = SPIFFS_mounted lib (snd (SpiffsFormat lib dev err fs))"
  proof -
    obtain ok g where g: "SpiffsMount lib dev err fs = (ok, g)"
      by (cases "SpiffsMount lib dev err fs") auto
    obtain f h where h: "SPIFFS_format lib (SPIFFS_unmount lib g) = (f, h)"
      by (cases "SPIFFS_format lib (SPIFFS_unmount lib g)") auto
    have "\<not> SPIFFS_mounted lib h"
      using assms h unfolding spiffs_laws_def by (metis snd_conv)
    then show ?thesis
      using attempt [of h] by (auto simp: SpiffsFormat_def g h split: prod.split)
  qed
  show "\<not> SPIFFS_mounted lib (SpiffsUnmount lib fs)"
    using assms by (simp add: SpiffsUnmount_def spiffs_laws_def)
  assume "fst (SpiffsMount lib dev err fs)"
  then have "SPIFFS_mounted lib (snd (SpiffsMount lib dev err fs))"
    using mounts by simp
  then show "SpiffsMount lib dev err (snd (SpiffsMount lib dev err fs)) = (True, snd (SpiffsMount lib dev err fs))"
    by (simp add: SpiffsMount_def [of lib dev err "snd _"])
qed

section \<open>What the library reads\<close>

text \<open>
  The command \<open>0x03\<close> has no dummy byte, but the read drops the first byte it receives: the library gets
  the bytes from \<open>addr + 1\<close> on.
\<close>

theorem spiffs_read_shifted:
  assumes "flash_device p dev st" "\<not> busy (st tr)" "unat addr + unat len < unat (FlashSize p)"
    and "0 < len" "length Buf = unat len"
  shows "\<exists>tr'. api_spiffs_read dev addr len Buf tr =
      Inr (map (mem (st tr)) [unat addr + 1 ..< unat addr + 1 + unat len], tr') \<and> st tr' = st tr"
proof -
  let ?t = "send_adr dev CMD_READ_DATA addr tr"
  have len: "0 < unat len"
    using assms(4) by (simp add: word_less_nat_alt)
  have "spi_readblock dev (unat len + 1) ?t =
      (map (mem (st tr)) [unat addr ..< unat addr + (unat len + 1)], ?t @ replicate (unat len + 1) (Tx 0xFF))"
    using assms(3) by (intro read_block_answers [OF assms(1,2)]) simp
  moreover have "spi_readblock dev (unat len + 1) ?t =
      (fst (spi_readblock dev 1 ?t) @ fst (spi_readblock dev (unat len) (?t @ [Tx 0xFF])),
       snd (spi_readblock dev (unat len) (?t @ [Tx 0xFF])))"
    by (simp add: spi_sendrecv_def Let_def split: prod.split)
  ultimately have all: "fst (spi_readblock dev 1 ?t) @ fst (spi_readblock dev (unat len) (?t @ [Tx 0xFF])) =
      map (mem (st tr)) [unat addr ..< unat addr + (unat len + 1)]"
    and trace: "snd (spi_readblock dev (unat len) (?t @ [Tx 0xFF])) = ?t @ replicate (unat len + 1) (Tx 0xFF)"
    by simp_all
  have "fst (spi_readblock dev 1 ?t) = [dev (?t @ [Tx 0xFF])]"
    by (simp add: readblock_eq)
  then have "dev (?t @ [Tx 0xFF]) # fst (spi_readblock dev (unat len) (?t @ [Tx 0xFF])) =
      map (mem (st tr)) [unat addr ..< unat addr + (unat len + 1)]"
    using all by (simp only: append_Cons append_Nil)
  then have "fst (spi_readblock dev (unat len) (?t @ [Tx 0xFF])) =
      tl (map (mem (st tr)) [unat addr ..< unat addr + (unat len + 1)])"
    by - (drule arg_cong [of _ _ tl], simp only: list.sel)
  then have "fst (spi_readblock dev (unat len) (?t @ [Tx 0xFF])) =
      map (mem (st tr)) [unat addr + 1 ..< unat addr + 1 + unat len]"
    by (simp add: map_tl [symmetric] tl_upt del: upt_Suc)
  then have data: "spi_readblock dev (unat len) (?t @ [Tx 0xFF]) =
      (map (mem (st tr)) [unat addr + 1 ..< unat addr + 1 + unat len], ?t @ replicate (unat len + 1) (Tx 0xFF))"
    using trace by (simp add: prod_eq_iff)
  have one: "snd (spi_readblock dev 1 ?t) = ?t @ [Tx 0xFF]" "length (fst (spi_readblock dev 1 ?t)) = 1"
    by (simp_all add: readblock_eq)
  obtain b where b: "spi_readblock dev 1 ?t = (b, ?t @ [Tx 0xFF])" "length b = 1"
    using one by (cases "spi_readblock dev 1 ?t") auto
  have "api_spiffs_read dev addr len Buf tr =
      Inr (map (mem (st tr)) [unat addr + 1 ..< unat addr + 1 + unat len],
        tr @ encode (ReadData addr (unat len + 1)))"
    using len assms(5) b data read_trace [of dev addr tr "unat len + 1"]
    by (simp add: api_spiffs_read_def CMD_READ_DATA_def [symmetric])
  then show ?thesis
    using flash_read [OF assms(1,2)] by blast
qed

theorem spiffs_read_shifted_witness:
  "\<exists>tr'. api_spiffs_read (model_device (gChipInfo ! 1) of_nat) 0x10 2 [0, 0] [] = Inr ([0x11, 0x12], tr')"
proof -
  have "[17 ..< 19] = [17, 18 :: nat]" by (simp add: upt_rec)
  then show ?thesis
    using spiffs_read_shifted [OF model_device_laws, of "gChipInfo ! 1" of_nat "[]" "0x10" 2 "[0, 0]"]
    by (auto simp: gChipInfo_def model_flash_def power_on_def)
qed

text \<open>A read of no bytes writes one.\<close>

lemma spiffs_read_none:
  assumes "length Buf = n" "n \<noteq> 0"
  shows "\<exists>b tr'. api_spiffs_read dev addr 0 Buf tr = Inr (b # drop 1 Buf, tr')"
    and "api_spiffs_read dev addr 0 [] tr = Inl OutOfBounds"
  using assms by (auto simp: api_spiffs_read_def spi_sendrecv_def Let_def)

end
