(* ===== verification/Spi_Master.thy ===== *)
theory Spi_Master
  imports Spi_Flash I2c_Commands
begin

text \<open>
  The SPI master at its registers (\<open>spi_lite.c\<close>): set-up, chip select and transfers as accesses to
  the registers behind \<open>m_spi\<close>, and the proof that they are the bus events \<open>Spi_Flash\<close> is stated over. The
  delay loops around the chip select change nothing and are left out.
\<close>

section \<open>The registers\<close>

definition SPI_SRR :: u32 where "SPI_SRR = 0x40"
definition SPI_CR :: u32 where "SPI_CR = 0x60"
definition SPI_SR :: u32 where "SPI_SR = 0x64"
definition SPI_DTR :: u32 where "SPI_DTR = 0x68"
definition SPI_DRR :: u32 where "SPI_DRR = 0x6c"
definition SPI_SSR :: u32 where "SPI_SSR = 0x70"

lemmas spi_regs = SPI_SRR_def SPI_CR_def SPI_SR_def SPI_DTR_def SPI_DRR_def SPI_SSR_def

definition lite_init :: "u32 \<Rightarrow> reg list \<Rightarrow> reg list" where
  "lite_init m_spi tr =
     (let cfg = push_bit 1 1 + push_bit 2 1 + push_bit 3 0 + push_bit 4 0 + push_bit 7 1 + push_bit 9 0
      in REG_WR (m_spi + SPI_SRR) 0xa (REG_WR (m_spi + SPI_SSR) (NOT 0) (REG_WR (m_spi + SPI_CR) cfg tr)))"

definition lite_cs :: "u32 \<Rightarrow> u32 \<Rightarrow> reg list \<Rightarrow> reg list" where
  "lite_cs m_spi val = REG_WR (m_spi + SPI_SSR) val"

text \<open>The wait for the end of the transfer never ends on a device that stays busy: \<open>None\<close>.\<close>

partial_function (option) lite_wait :: "regs \<Rightarrow> u32 \<Rightarrow> reg list \<Rightarrow> reg list option" where
  "lite_wait rv m_spi tr =
     (case REG_RD rv (m_spi + SPI_SR) tr of (v, tr) \<Rightarrow>
        if v AND push_bit 2 1 = 0 then lite_wait rv m_spi tr else Some tr)"

definition lite_sendrecv :: "regs \<Rightarrow> u32 \<Rightarrow> u8 \<Rightarrow> reg list \<Rightarrow> (u8 \<times> reg list) option" where
  "lite_sendrecv rv m_spi data tr =
     (case lite_wait rv m_spi (REG_WR (m_spi + SPI_DTR) (ucast data) tr) of
        None \<Rightarrow> None
      | Some tr \<Rightarrow> (case REG_RD rv (m_spi + SPI_DRR) tr of (v, tr) \<Rightarrow> Some (ucast v, tr)))"

fun lite_readblock :: "regs \<Rightarrow> u32 \<Rightarrow> nat \<Rightarrow> reg list \<Rightarrow> (u8 list \<times> reg list) option" where
  "lite_readblock rv m_spi 0 tr = Some ([], tr)"
| "lite_readblock rv m_spi (Suc n) tr =
     (case lite_sendrecv rv m_spi 0xFF tr of
        None \<Rightarrow> None
      | Some (c, tr) \<Rightarrow> (case lite_readblock rv m_spi n tr of None \<Rightarrow> None | Some (cs, tr) \<Rightarrow> Some (c # cs, tr)))"

fun lite_writeblock :: "regs \<Rightarrow> u32 \<Rightarrow> u8 list \<Rightarrow> reg list \<Rightarrow> reg list option" where
  "lite_writeblock rv m_spi [] tr = Some tr"
| "lite_writeblock rv m_spi (c # cs) tr =
     (case lite_sendrecv rv m_spi c tr of None \<Rightarrow> None | Some (_, tr) \<Rightarrow> lite_writeblock rv m_spi cs tr)"

section \<open>The controller\<close>

text \<open>
  What the accesses do on the bus: bit 0 of the select register is the chip select line, a byte written to
  the transmit register is sent.
\<close>

definition bus_event :: "u32 \<Rightarrow> reg \<Rightarrow> bus list" where
  "bus_event m_spi e = (case e of
     RegWr a v \<Rightarrow>
       if a = m_spi + SPI_SSR then [Cs (bit v 0)] else if a = m_spi + SPI_DTR then [Tx (ucast v)] else []
   | RegRd a \<Rightarrow> [])"

definition bus_of :: "u32 \<Rightarrow> reg list \<Rightarrow> bus list" where
  "bus_of m_spi tr = concat (map (bus_event m_spi) tr)"

text \<open>The value last written to the control register: enabled, master, manual select, mode 0, high bit first.\<close>

definition configured :: "u32 \<Rightarrow> reg list \<Rightarrow> bool" where
  "configured m_spi tr =
     fold (\<lambda>e c. case e of RegWr a v \<Rightarrow> if a = m_spi + SPI_CR then v AND 0x39e = 0x086 else c | RegRd a \<Rightarrow> c) tr False"

text \<open>
  The documented behaviour: a configured controller finishes every transfer, and when the status shows the
  transmit queue empty the receive register holds the answer of the device to the last byte.
\<close>

definition lite_port :: "regs \<Rightarrow> u32 \<Rightarrow> device \<Rightarrow> bool" where
  "lite_port rv m_spi dev \<longleftrightarrow> (\<forall>tr. configured m_spi tr \<longrightarrow>
     (\<exists>n. rv (tr @ replicate n (RegRd (m_spi + SPI_SR))) (m_spi + SPI_SR) AND push_bit 2 1 \<noteq> 0) \<and>
     (rv tr (m_spi + SPI_SR) AND push_bit 2 1 \<noteq> 0 \<longrightarrow>
        ucast (rv (tr @ [RegRd (m_spi + SPI_SR)]) (m_spi + SPI_DRR)) = dev (bus_of m_spi tr)))"

lemma bus_of_append [simp]: "bus_of m_spi (tr @ tr') = bus_of m_spi tr @ bus_of m_spi tr'"
  by (simp add: bus_of_def)

lemma bus_of_reads [simp]:
  "bus_of m_spi (replicate n (RegRd a)) = []" "bus_of m_spi [RegRd a] = []"
  "bus_of m_spi [RegWr a v] = bus_event m_spi (RegWr a v)"
  by (simp_all add: bus_of_def bus_event_def)

lemma configured_snoc:
  "configured m_spi (tr @ [RegRd a]) = configured m_spi tr"
  "a \<noteq> m_spi + SPI_CR \<Longrightarrow> configured m_spi (tr @ [RegWr a v]) = configured m_spi tr"
  by (simp_all add: configured_def)

lemma configured_reads: "configured m_spi (tr @ replicate n (RegRd a)) = configured m_spi tr"
proof (induction n)
  case (Suc n)
  then show ?case
    using configured_snoc(1) [of m_spi "tr @ replicate n (RegRd a)" a]
    by (simp only: replicate_Suc append_assoc replicate_append_same [symmetric])
qed simp

lemma lite_wait_ends:
  assumes "lite_port rv m_spi dev" "configured m_spi tr"
  shows "\<exists>n. lite_wait rv m_spi tr = Some (tr @ replicate (Suc n) (RegRd (m_spi + SPI_SR))) \<and>
    rv (tr @ replicate n (RegRd (m_spi + SPI_SR))) (m_spi + SPI_SR) AND push_bit 2 1 \<noteq> 0"
proof -
  let ?a = "m_spi + SPI_SR" and ?r = "RegRd (m_spi + SPI_SR)"
  obtain n where "rv (tr @ replicate n ?r) ?a AND push_bit 2 1 \<noteq> 0"
    using assms by (auto simp: lite_port_def)
  then show ?thesis
  proof (induction n arbitrary: tr)
    case 0
    then have "lite_wait rv m_spi tr = Some (tr @ replicate (Suc 0) ?r)"
      by (subst lite_wait.simps) (simp add: REG_RD_def)
    then show ?case
      using 0 by (intro exI [of _ 0]) simp
  next
    case (Suc n)
    show ?case
    proof (cases "rv tr ?a AND push_bit 2 1 = 0")
      case False
      then have "lite_wait rv m_spi tr = Some (tr @ replicate (Suc 0) ?r)"
        by (subst lite_wait.simps) (simp add: REG_RD_def)
      then show ?thesis
        using False by (intro exI [of _ 0]) simp
    next
      case True
      obtain k where k: "lite_wait rv m_spi (tr @ [?r]) = Some ((tr @ [?r]) @ replicate (Suc k) ?r)"
        "rv ((tr @ [?r]) @ replicate k ?r) ?a AND push_bit 2 1 \<noteq> 0"
        using Suc.IH [of "tr @ [?r]"] Suc.prems by auto
      have "lite_wait rv m_spi tr = lite_wait rv m_spi (tr @ [?r])"
        using True by (subst lite_wait.simps) (simp add: REG_RD_def)
      then show ?thesis
        using k by (intro exI [of _ "Suc k"]) simp
    qed
  qed
qed

lemma sendrecv_refines:
  assumes "lite_port rv m_spi dev" "configured m_spi tr"
  shows "\<exists>tr'. lite_sendrecv rv m_spi data tr = Some (fst (spi_sendrecv dev data (bus_of m_spi tr)), tr') \<and>
    bus_of m_spi tr' = snd (spi_sendrecv dev data (bus_of m_spi tr)) \<and> configured m_spi tr'"
proof -
  let ?t = "tr @ [RegWr (m_spi + SPI_DTR) (ucast data)]" and ?r = "RegRd (m_spi + SPI_SR)"
  have t: "configured m_spi ?t" "bus_of m_spi ?t = bus_of m_spi tr @ [Tx data]"
    using assms(2) by (simp_all add: configured_snoc bus_event_def spi_regs)
  obtain n where n: "lite_wait rv m_spi ?t = Some (?t @ replicate (Suc n) ?r)"
    "rv (?t @ replicate n ?r) (m_spi + SPI_SR) AND push_bit 2 1 \<noteq> 0"
    using lite_wait_ends [OF assms(1) t(1)] by blast
  have polled: "configured m_spi (?t @ replicate k ?r)" "bus_of m_spi (?t @ replicate k ?r) = bus_of m_spi tr @ [Tx data]" for k
    using t by (simp_all only: configured_reads bus_of_append [of _ ?t] bus_of_reads append_Nil2)
  have "ucast (rv ((?t @ replicate n ?r) @ [?r]) (m_spi + SPI_DRR)) = dev (bus_of m_spi (?t @ replicate n ?r))"
    using assms(1) polled(1) [of n] n(2) unfolding lite_port_def by blast
  moreover have "(?t @ replicate n ?r) @ [?r] = ?t @ replicate (Suc n) ?r"
    by (simp add: replicate_append_same)
  ultimately have "ucast (rv (?t @ replicate (Suc n) ?r) (m_spi + SPI_DRR)) = dev (bus_of m_spi tr @ [Tx data])"
    using polled(2) [of n] by (simp only:)
  then have "lite_sendrecv rv m_spi data tr =
      Some (dev (bus_of m_spi tr @ [Tx data]), (?t @ replicate (Suc n) ?r) @ [RegRd (m_spi + SPI_DRR)])"
    using n(1) by (simp add: lite_sendrecv_def REG_WR_def REG_RD_def del: replicate.simps append_assoc)
  moreover have "bus_of m_spi ((?t @ replicate (Suc n) ?r) @ [RegRd (m_spi + SPI_DRR)]) = bus_of m_spi tr @ [Tx data]"
    "configured m_spi ((?t @ replicate (Suc n) ?r) @ [RegRd (m_spi + SPI_DRR)])"
    using polled [of "Suc n"] by (simp_all only: bus_of_append [of _ "?t @ _"] bus_of_reads append_Nil2 configured_snoc)
  ultimately show ?thesis
    by (simp add: spi_sendrecv_def Let_def)
qed

text \<open>
  The register accesses of the SPI master are the bus events the flash driver is modelled over: after
  \<open>spi_init\<close> the bus is deselected, and over a controller that is set up a block read returns the
  same bytes and leaves the same bus, a block write and the chip select leave the same bus.
\<close>

theorem spi_master_refines:
  assumes "lite_port rv m_spi dev" "configured m_spi tr"
  shows "(\<exists>tr'. lite_readblock rv m_spi n tr = Some (fst (spi_readblock dev n (bus_of m_spi tr)), tr') \<and>
      bus_of m_spi tr' = snd (spi_readblock dev n (bus_of m_spi tr)) \<and> configured m_spi tr') \<and>
    (\<exists>tr'. lite_writeblock rv m_spi cs tr = Some tr' \<and>
      bus_of m_spi tr' = spi_writeblock dev cs (bus_of m_spi tr) \<and> configured m_spi tr') \<and>
    bus_of m_spi (lite_cs m_spi val tr) = spi_cs (bit val 0) (bus_of m_spi tr) \<and> configured m_spi (lite_cs m_spi val tr) \<and>
    bus_of m_spi (lite_init m_spi old) = bus_of m_spi old @ [Cs True] \<and> configured m_spi (lite_init m_spi old)"
proof (intro conjI)
  show "\<exists>tr'. lite_readblock rv m_spi n tr = Some (fst (spi_readblock dev n (bus_of m_spi tr)), tr') \<and>
      bus_of m_spi tr' = snd (spi_readblock dev n (bus_of m_spi tr)) \<and> configured m_spi tr'"
    using assms(2)
  proof (induction n arbitrary: tr)
    case (Suc n)
    obtain t where t: "lite_sendrecv rv m_spi 0xFF tr = Some (fst (spi_sendrecv dev 0xFF (bus_of m_spi tr)), t)"
      "bus_of m_spi t = snd (spi_sendrecv dev 0xFF (bus_of m_spi tr))" "configured m_spi t"
      using sendrecv_refines [OF assms(1) Suc.prems] by blast
    obtain t' where "lite_readblock rv m_spi n t = Some (fst (spi_readblock dev n (bus_of m_spi t)), t')"
      "bus_of m_spi t' = snd (spi_readblock dev n (bus_of m_spi t))" "configured m_spi t'"
      using Suc.IH [OF t(3)] by blast
    then show ?case
      using t by (simp add: case_prod_unfold)
  qed simp
  show "\<exists>tr'. lite_writeblock rv m_spi cs tr = Some tr' \<and>
      bus_of m_spi tr' = spi_writeblock dev cs (bus_of m_spi tr) \<and> configured m_spi tr'"
    using assms(2)
  proof (induction cs arbitrary: tr)
    case (Cons c cs)
    obtain t where "lite_sendrecv rv m_spi c tr = Some (fst (spi_sendrecv dev c (bus_of m_spi tr)), t)"
      "bus_of m_spi t = snd (spi_sendrecv dev c (bus_of m_spi tr))" "configured m_spi t"
      using sendrecv_refines [OF assms(1) Cons.prems] by blast
    then show ?case
      using Cons.IH [of t] by simp
  qed simp
  show "bus_of m_spi (lite_cs m_spi val tr) = spi_cs (bit val 0) (bus_of m_spi tr)"
    "configured m_spi (lite_cs m_spi val tr)"
    using assms(2) by (simp_all add: lite_cs_def REG_WR_def spi_cs_def bus_event_def configured_snoc spi_regs)
  show "bus_of m_spi (lite_init m_spi old) = bus_of m_spi old @ [Cs True]" "configured m_spi (lite_init m_spi old)"
    by (simp_all add: lite_init_def REG_WR_def bus_event_def bus_of_def configured_def spi_regs)
qed

text \<open>A controller that is busy at every other reading of its status.\<close>

definition slow_master :: "u32 \<Rightarrow> device \<Rightarrow> regs" where
  "slow_master m_spi dev tr a =
     (if a = m_spi + SPI_SR then (if even (length tr) then 4 else 0)
      else if a = m_spi + SPI_DRR then ucast (dev (bus_of m_spi tr)) else 0)"

lemma slow_master_port: "lite_port (slow_master m_spi dev) m_spi dev"
  unfolding lite_port_def
proof (intro allI impI conjI)
  fix tr :: "reg list"
  let ?n = "if even (length tr) then 0 else 1 :: nat"
  show "\<exists>n. slow_master m_spi dev (tr @ replicate n (RegRd (m_spi + SPI_SR))) (m_spi + SPI_SR) AND push_bit 2 1 \<noteq> 0"
    by (intro exI [of _ ?n]) (auto simp: slow_master_def)
  show "ucast (slow_master m_spi dev (tr @ [RegRd (m_spi + SPI_SR)]) (m_spi + SPI_DRR)) = dev (bus_of m_spi tr)"
    by (simp add: slow_master_def spi_regs)
qed

theorem spi_master_refines_witness:
  "\<exists>tr'. lite_writeblock (slow_master 0x93000000 (\<lambda>b. 0)) 0x93000000 [0x9f] (lite_init 0x93000000 []) = Some tr' \<and>
    bus_of 0x93000000 tr' = [Cs True, Tx 0x9f]"
proof -
  have "bus_of 0x93000000 (lite_init 0x93000000 []) = [Cs True]" "configured 0x93000000 (lite_init 0x93000000 [])"
    by (simp_all add: lite_init_def REG_WR_def bus_event_def bus_of_def configured_def spi_regs)
  with spi_master_refines [OF slow_master_port, of "0x93000000" "lite_init 0x93000000 []" "\<lambda>b. 0" 0 "[0x9f]"]
  show ?thesis
    by (auto simp: spi_sendrecv_def Let_def)
qed

end
