(* ===== verification/Spec2Isabelle.thy ===== *)
theory Spec2Isabelle
  imports Vt100_Faults Rand Tftp Net_Print Main_Loop Riscv_Mmu Riscv_Dump Riscv_Main
    I2c_Device Tokeniser Firmware_Runtime Axi_Memory Host_Tools Spiffs_Driver Spi_Master
begin

text \<open>
  The firmware of a VT100 terminal on a Pano Logic thin client (\<open>src/fw/pano_term\<close> with the
  board support under \<open>src/pano/fw\<close> and \<open>src/cores/core_soc/src_c\<close>), and the simulator of the RISC-V
  core it runs on (\<open>src/cores/cpu/riscv/isa_sim\<close>), translated routine by routine, with the theorems
  that say what they do.

  \<^bold>\<open>The program.\<close> \<open>main\<close> initialises the board and then runs a loop for ever: it polls the
  input device over I2C, delivers buffered bytes to the VT100 emulation, updates the status LED,
  lets the Ethernet interface hand received frames to lwIP, and serves the shell. lwIP calls the
  firmware back: one telnet server feeds the emulation, another one feeds a line editor whose
  lines go to a command parser; the commands read, write and erase the SPI flash, keep a small
  data block in its last sector, and transfer files between flash and a TFTP server. Output goes
  back through a buffer of 120 bytes per connection. The simulator loads an executable into a
  memory of regions and executes it instruction by instruction, alone or in lock step with other
  models of the core, one of which is the simulated hardware in front of an AXI memory.

  \<^bold>\<open>Conventions.\<close> \<open>Prelude\<close> names the C integer types (words of their width; \<open>int16_t\<close> fields as
  integers with the wrap written out) and the result type: \<open>Inl\<close> one of the faults \<open>Hang\<close>,
  \<open>OutOfBounds\<close>, \<open>Uninit\<close>, \<open>NullPtr\<close>, \<open>Overlap\<close> (of a \<open>memcpy\<close>), or \<open>Inr\<close> a value. State is passed explicitly, in records with
  the fields of the C structures. A loop whose end is not plain is \<open>partial_function (option)\<close>, whose
  \<open>None\<close> is the endless loop and becomes \<open>Hang\<close>; every other loop is structural or has its
  termination proof, so no fuel is used; \<open>run_loop_ends\<close> gives the bound on a run of the simulator,
  the limit on its instructions. The simulator stops with a value of its own type: an exit code, a
  failed assertion, an operation that C++ leaves undefined. Where the firmware waits for something from outside, the
  model takes the list of what happens (events, polls, readings of the cycle counter), and a list
  that ends too early is the wait that goes on. Hardware is a parameter: a function from the trace
  of accesses to what is read, with its data sheet as a named predicate (\<open>flash_device\<close>,
  \<open>i2c_device\<close>, \<open>i2c_bus\<close>) that a concrete device in the same theory satisfies. The predicates promise
  nothing the hardware does not: a flash chip with a write cycle in progress answers its status and
  nothing else, a data line is a bit of the device only once the clock was seen high, the I2C controller
  has data only of a transaction that was enabled, started and finished, the codec's reset register
  resets it. Results of lwIP, \<open>atoi\<close>,
  \<open>strtoul\<close> and the address conversions are parameters too.

  \<^bold>\<open>Theories.\<close>
  \<^item> \<open>Vt100_State\<close>, \<open>Vt100_Screen\<close>, \<open>Vt100_Parser\<close>: \<open>vt100.c\<close>; the structure \<open>vt100_t\<close> (without
    \<open>char_width\<close>, \<open>char_height\<close> and \<open>carg\<close>, which nothing reads) and the screen memory, the drawing
    routines, every \<open>STATE\<close> handler and the byte streams.
  \<^item> \<open>Vt100_Safety\<close>: the invariant of the screen and that guarded streams keep it, without hang and
    without an access outside the screens. \<open>Vt100_Refine\<close>: an abstract teletype and the proof that
    the terminal implements it. \<open>Vt100_Commands\<close>: an abstract screen, what the control sequences do
    to it, the argument parser and the color command. \<open>Vt100_Streams\<close>: buffering is transparent.
    \<open>Vt100_Faults\<close>: the inputs on which the code misbehaves.
  \<^item> \<open>Cmd_Parser\<close>: \<open>cmd_parser.c\<close> and the command table of \<open>main.c\<close>. \<open>Rand\<close>: \<open>rand.c\<close>.
  \<^item> \<open>Spi_Flash\<close>: \<open>spi_drv.c\<close> over the transfers of \<open>spi_lite.c\<close>; what read, write and erase do to the
    memory of the chip, with the wait for the end of every write cycle. \<open>Spi_Master\<close>: \<open>spi_lite.c\<close> at its registers, refining those transfers.
  \<^item> \<open>Board\<close>: the globals of \<open>main.c\<close> the commands share, and the locale \<open>flash_store\<close>, the contract
    between the flash driver and its clients, interpreted on the driver's own routines.
  \<^item> \<open>Flash_Commands\<close> (dump, erase, map, autoerase, reboot, exit, argument ranges), \<open>Data_Block\<close>
    (\<open>ParseInfoBlock\<close>, \<open>ParseDataBlock\<close>, \<open>CheckDataTag\<close>, \<open>AddBoardInfo\<close>, commit, showcfg, tftp) and
    \<open>Tftp\<close> (\<open>tftp_ldr.c\<close>; flash, save, verify): proved from the laws of \<open>flash_store\<close>.
  \<^item> \<open>I2c_Commands\<close>: the I2C routines of \<open>main.c\<close> with their time limit of 1000000 polls, their users,
    and the register commands of the shell.
  \<^item> \<open>Net_Print\<close>: the output buffers, \<open>NetPrintFillPcb\<close>, \<open>NetPuts\<close>, \<open>NetPrintf\<close> and the wait between
    them, with a step relation of the operations on a buffer, over connections that come and go; \<open>NetPuts\<close>
    delivers whatever room lwIP has, as long as no fill adds bytes while earlier ones are unacknowledged. In \<open>Board\<close>, where its clients
    print, an output is a message in a list.
  \<^item> \<open>Shell_Session\<close>: the accept and receive callbacks of both telnet servers. \<open>Ethernet\<close>: frames
    between lwIP's buffers and the FIFO registers. \<open>Time_Base\<close>: \<open>timer.c\<close>, \<open>pano_time.c\<close>, \<open>sys_now\<close>.
  \<^item> \<open>Main_Loop\<close>: \<open>main\<close>, composing the components above. Its rounds implement the shell as the user
    sees it, a line editor that answers every line; what the polls inside \<open>NetPrintf\<close> do to the session is a
    parameter, and the theorem is for a client that types nothing while a command runs.
  \<^item> \<open>I2c_Driver\<close>, \<open>I2c_Device\<close>: the bit-banged I2C master \<open>i2c.c\<close>, its accesses read as the lines of the bus:
    it refines an abstract bus master that sends and receives frames, and over a device with
    registers, which may hold the clock, a write is read back; the tables of both \<open>audio.c\<close> reach the codec. \<open>Tokeniser\<close>: \<open>strmbtok.c\<close>
    against the words of a line. \<open>Firmware_Runtime\<close>: the trap handler \<open>exception.c\<close>, which keeps the firmware
    in machine mode when the simulator returns from the trap; \<open>Uart.c\<close>, \<open>log.c\<close>, \<open>opl3_drv.c\<close>.
    \<open>Spiffs_Driver\<close>: \<open>spiffs_drv.c\<close> over \<open>Spi_Flash\<close>, with the library as a parameter.
  \<^item> \<open>Riscv_Isa\<close> (\<open>riscv_isa.h\<close>, decoding), \<open>Riscv_Memory\<close> (\<open>memory.h\<close>), \<open>Riscv_Cpu\<close> and \<open>Riscv_Execute\<close>
    (\<open>riscv.h\<close>, \<open>riscv.cpp\<close>): the simulator. \<open>Riscv_Encode\<close>: an assembler of the base instructions, whose
    output the simulator decodes. \<open>Riscv_Refine\<close>: a reference machine for RV32IM over integers and bytes,
    and that the simulator executes every program as it does. \<open>Riscv_Traps\<close>: the invariant of every
    step in every mode, the return from a trap, the choice of an interrupt against the priorities of the
    privileged specification. \<open>Riscv_Mmu\<close>: the page walk against Sv32 as that specification has it,
    with what the simulator leaves out (marks of access, \<open>MXR\<close>, \<open>MPRV\<close>) as conditions. \<open>Riscv_Dump\<close>: the disassembler
    \<open>riscv_inst_dump.cpp\<close> against the syntax of the manual, from which stores, \<open>lui\<close>, \<open>auipc\<close> and \<open>jalr\<close> differ. \<open>Riscv_Cosim\<close>: \<open>cosim_api.cpp\<close>, equal models stay in step. \<open>Riscv_Main\<close>: \<open>elf_load.cpp\<close>,
    \<open>riscv_main.cpp\<close>, \<open>main.cpp\<close> and the exit handler.
  \<^item> \<open>Axi_Memory\<close>: \<open>tb_axi4_mem.cpp\<close> and \<open>tb_memory.h\<close>, the memory behind the caches of the simulated hardware,
    one step per clock edge: bursts are answered in order and every write is performed once.
    \<open>Host_Tools\<close>: \<open>bin2c.c\<close> and \<open>bin2ram_init.c\<close>; an exit code of zero means a complete output.

  \<^bold>\<open>Interfaces.\<close> The locales \<open>guarded_machine\<close>, \<open>framed_machine\<close> and \<open>refined_machine\<close> of \<open>Prelude\<close>
  lift one-step facts to streams of inputs and are interpreted on \<open>vt100_putc\<close>; \<open>flash_store\<close> is
  interpreted on \<open>read_temp\<close>, \<open>write_flash\<close> and \<open>erase_flash\<close>. The locales \<open>cosim_cpu\<close> (what the framework
  asks of a model) and \<open>cosim_memory\<close> (what the loader asks of its memory) of \<open>Riscv_Cosim\<close> are
  interpreted on the simulator; \<open>byte_memory\<close> of \<open>Axi_Memory\<close> on the regions of the test bench.

  \<^bold>\<open>Not modelled.\<close> The start of lwIP and of its network interface,
  the exception entry and the other start-up code in assembler, \<open>init.c\<close> and \<open>assert.c\<close>, whose
  calls the build configuration selects, and \<open>uart_lite.c\<close>, which repeats \<open>Uart.c\<close> for one port. Of the
  simulator: the reading of files by libelf and libbfd and of options by \<open>getopt\<close>, whose results are
  parameters, trace output and statistics; of the simulated hardware: the wrappers around the
  Verilog core, which is not C. The SPIFFS library is a submodule that is not in the tree. Texts
  printed with \<open>printf\<close> formats are the format and its arguments, not the rendered characters, in
  the shell and the terminal.
\<close>

end
